(* ===== verification/Prelude.thy ===== *)
theory Prelude
  imports Main "HOL-Library.Word" "HOL-Library.AList" "HOL-Library.List_Lexorder"
    "HOL-Library.Char_ord" "HOL-Library.Multiset" "HOL-Library.Product_Lexorder"
begin

text \<open>
  What every component of the development shares: Rust's \<open>Result\<close> with panics as a third
  outcome, machine integers, \<open>Ordering\<close> with its combinators, and the two container shapes the
  code uses. A \<open>HashMap\<close> or \<open>BTreeMap\<close> that is iterated is an association list (kept in key
  order for the \<open>BTreeMap\<close>); the locale \<open>keyed_map\<close> states what both promise, and the lemmas on
  weight accumulation are proved once inside it.
\<close>

named_theorems rust_simps \<open>equations of the result monad\<close>
named_theorems ord_simps \<open>equations of the comparison combinators\<close>

subsection \<open>Machine integers\<close>

type_synonym u8 = "8 word"
type_synonym u32 = "32 word"
type_synonym u64 = "64 word"
type_synonym i64 = "64 word" \<comment> \<open>two's complement: \<open>sint\<close> reads it, \<open>+\<close> wraps\<close>

definition i64_max :: i64 where
  "i64_max = 9223372036854775807"

lemma sint_i64_max: "sint i64_max = 2 ^ 63 - 1"
  by (simp add: i64_max_def)

lemma sint_i64_le: "sint (w :: i64) \<le> 2 ^ 63 - 1"
  using sint_lt [of w] by simp

lemma sint_i64_ge: "- (2 ^ 63) \<le> sint (w :: i64)"
  using sint_ge [of w] by simp

lemma sint_eq_iff [simp]: "sint a = sint b \<longleftrightarrow> a = (b :: 'a::len word)"
  by (rule word_eq_iff_signed [symmetric])

lemma sint_add_i64:
  assumes "- (2 ^ 63) \<le> sint a + sint (b :: i64)" and "sint a + sint b < 2 ^ 63"
  shows "sint (a + b) = sint a + sint b"
  using assms by (simp add: sint_word_ariths signed_take_bit_int_eq_self)

text \<open>A boolean as a cell: Rust's \<open>b as i64\<close>.\<close>

definition bool_cell :: "bool \<Rightarrow> i64" where
  "bool_cell b = (if b then 1 else 0)"

lemma bool_cell_simps [simp]:
  "bool_cell True = 1" "bool_cell False = 0"
  "bool_cell b = 0 \<longleftrightarrow> \<not> b" "bool_cell b = 1 \<longleftrightarrow> b" "bool_cell a = bool_cell b \<longleftrightarrow> a = b"
  by (auto simp: bool_cell_def)

subsection \<open>Results with panics\<close>

text \<open>
  \<open>Err\<close> is a returned error, \<open>Panic\<close> is an \<open>expect\<close>, an \<open>unwrap\<close>, an \<open>unreachable!\<close> or an index
  out of range.
\<close>

datatype ('e, 'a) rust = Ok 'a | Err 'e | Panic

fun rust_bind :: "('e, 'a) rust \<Rightarrow> ('a \<Rightarrow> ('e, 'b) rust) \<Rightarrow> ('e, 'b) rust" where
  "rust_bind (Ok a) f = f a"
| "rust_bind (Err e) f = Err e"
| "rust_bind Panic f = Panic"

lemma rust_bind_Ok_iff [rust_simps]:
  "rust_bind m f = Ok b \<longleftrightarrow> (\<exists>a. m = Ok a \<and> f a = Ok b)"
  by (cases m) auto

lemma rust_bind_Err_iff [rust_simps]:
  "rust_bind m f = Err e \<longleftrightarrow> m = Err e \<or> (\<exists>a. m = Ok a \<and> f a = Err e)"
  by (cases m) auto

lemma rust_bind_Panic_iff [rust_simps]:
  "rust_bind m f = Panic \<longleftrightarrow> m = Panic \<or> (\<exists>a. m = Ok a \<and> f a = Panic)"
  by (cases m) auto

lemma rust_bind_assoc: "rust_bind (rust_bind m f) g = rust_bind m (\<lambda>a. rust_bind (f a) g)"
  by (cases m) auto

lemma rust_bind_cong [fundef_cong]:
  "m = m' \<Longrightarrow> (\<And>a. m' = Ok a \<Longrightarrow> f a = f' a) \<Longrightarrow> rust_bind m f = rust_bind m' f'"
  by (cases m') auto

fun map_rust :: "('a \<Rightarrow> ('e, 'b) rust) \<Rightarrow> 'a list \<Rightarrow> ('e, 'b list) rust" where
  "map_rust f [] = Ok []"
| "map_rust f (x # xs) = rust_bind (f x) (\<lambda>y. rust_bind (map_rust f xs) (\<lambda>ys. Ok (y # ys)))"

lemma map_rust_cong [fundef_cong]:
  "xs = ys \<Longrightarrow> (\<And>x. x \<in> set ys \<Longrightarrow> f x = g x) \<Longrightarrow> map_rust f xs = map_rust g ys"
  by (induction ys arbitrary: xs) auto

lemma map_rust_OkD: "map_rust f xs = Ok ys \<Longrightarrow> list_all2 (\<lambda>x y. f x = Ok y) xs ys"
  by (induction xs arbitrary: ys) (auto simp: rust_simps)

lemma map_rust_length: "map_rust f xs = Ok ys \<Longrightarrow> length ys = length xs"
  using list_all2_lengthD [OF map_rust_OkD] by fastforce

lemma map_rust_OkI: "(\<And>x. x \<in> set xs \<Longrightarrow> f x = Ok (g x)) \<Longrightarrow> map_rust f xs = Ok (map g xs)"
  by (induction xs) auto

lemma map_rust_append:
  "map_rust f (xs @ ys) = rust_bind (map_rust f xs) (\<lambda>as. rust_bind (map_rust f ys) (\<lambda>bs. Ok (as @ bs)))"
proof (induction xs)
  case Nil
  show ?case by (cases "map_rust f ys") simp_all
next
  case (Cons x xs)
  then show ?case
    by (cases "f x"; cases "map_rust f xs"; cases "map_rust f ys") simp_all
qed

text \<open>Indexing a vector: out of range panics. \<open>get\<close> of a slice returns \<open>None\<close> there.\<close>

definition vec_index :: "'a list \<Rightarrow> nat \<Rightarrow> ('e, 'a) rust" where
  "vec_index xs i = (if i < length xs then Ok (xs ! i) else Panic)"

definition vec_get :: "'a list \<Rightarrow> nat \<Rightarrow> 'a option" where
  "vec_get xs i = (if i < length xs then Some (xs ! i) else None)"

lemma vec_index_Ok_iff [simp]: "vec_index xs i = Ok x \<longleftrightarrow> i < length xs \<and> xs ! i = x"
  by (auto simp: vec_index_def)

lemma vec_index_Panic_iff [simp]: "vec_index xs i = Panic \<longleftrightarrow> length xs \<le> i"
  by (auto simp: vec_index_def)

lemma vec_index_not_Err [simp]: "vec_index xs i \<noteq> Err e"
  by (auto simp: vec_index_def)

lemma vec_get_Some_iff [simp]: "vec_get xs i = Some x \<longleftrightarrow> i < length xs \<and> xs ! i = x"
  by (auto simp: vec_get_def)

lemma vec_get_None_iff [simp]: "vec_get xs i = None \<longleftrightarrow> length xs \<le> i"
  by (auto simp: vec_get_def)

lemma vec_in_range [simp]: "i < length xs \<Longrightarrow> vec_get xs i = Some (xs ! i)" "i < length xs \<Longrightarrow> vec_index xs i = Ok (xs ! i)"
  by (simp_all add: vec_get_def vec_index_def)

text \<open>\<open>iter.map(..).collect::<Option<Vec<_>>>()\<close>.\<close>

fun map_option_list :: "('a \<Rightarrow> 'b option) \<Rightarrow> 'a list \<Rightarrow> 'b list option" where
  "map_option_list f [] = Some []"
| "map_option_list f (x # xs) =
     (case f x of None \<Rightarrow> None
      | Some y \<Rightarrow> (case map_option_list f xs of None \<Rightarrow> None | Some ys \<Rightarrow> Some (y # ys)))"

lemma map_option_list_Some_iff:
  "map_option_list f xs = Some ys \<longleftrightarrow> list_all2 (\<lambda>x y. f x = Some y) xs ys"
proof (induction xs arbitrary: ys)
  case Nil
  show ?case by auto
next
  case (Cons x xs)
  show ?case
    by (cases "f x"; cases "map_option_list f xs") (auto simp: list_all2_Cons1 Cons.IH [symmetric])
qed

lemma map_option_list_length: "map_option_list f xs = Some ys \<Longrightarrow> length ys = length xs"
  by (auto simp: map_option_list_Some_iff dest: list_all2_lengthD)

lemma map_option_list_cong [fundef_cong]:
  "xs = ys \<Longrightarrow> (\<And>x. x \<in> set ys \<Longrightarrow> f x = g x) \<Longrightarrow> map_option_list f xs = map_option_list g ys"
  by (induction ys arbitrary: xs) (auto split: option.split)

subsection \<open>Orderings\<close>

datatype ordering = Less | Equal | Greater

fun ord_reverse :: "ordering \<Rightarrow> ordering" where
  "ord_reverse Less = Greater"
| "ord_reverse Equal = Equal"
| "ord_reverse Greater = Less"

fun ord_then :: "ordering \<Rightarrow> ordering \<Rightarrow> ordering" where
  "ord_then Equal b = b"
| "ord_then a b = a"

definition cmp :: "'a::linorder \<Rightarrow> 'a \<Rightarrow> ordering" where
  "cmp a b = (if a < b then Less else if a = b then Equal else Greater)"

lemma cmp_iffs [ord_simps, simp]:
  "cmp a b = Less \<longleftrightarrow> a < b" "cmp a b = Equal \<longleftrightarrow> a = b" "cmp a b = Greater \<longleftrightarrow> b < a"
  "Less = cmp a b \<longleftrightarrow> a < b" "Equal = cmp a b \<longleftrightarrow> a = b" "Greater = cmp a b \<longleftrightarrow> b < a"
  by (auto simp: cmp_def)

lemma cmp_refl [simp]: "cmp a a = Equal"
  by simp

lemma cmp_flip: "cmp b a = ord_reverse (cmp a b)"
  by (auto simp: cmp_def)

lemma ord_reverse_reverse [simp]: "ord_reverse (ord_reverse a) = a"
  by (cases a) auto

lemma ord_reverse_iffs [simp]:
  "ord_reverse a = Equal \<longleftrightarrow> a = Equal" "ord_reverse a = Less \<longleftrightarrow> a = Greater"
  "ord_reverse a = Greater \<longleftrightarrow> a = Less"
  by (cases a; simp)+

lemma ord_then_iffs [ord_simps]:
  "ord_then a b = Equal \<longleftrightarrow> a = Equal \<and> b = Equal"
  "ord_then a b = Less \<longleftrightarrow> a = Less \<or> a = Equal \<and> b = Less"
  "ord_then a b = Greater \<longleftrightarrow> a = Greater \<or> a = Equal \<and> b = Greater"
  by (cases a; simp)+

lemma ord_then_Equal2 [simp]: "ord_then a Equal = a"
  by (cases a) auto

lemma ord_then_assoc: "ord_then (ord_then a b) c = ord_then a (ord_then b c)"
  by (cases a) auto

lemma ord_reverse_then [simp]: "ord_reverse (ord_then a b) = ord_then (ord_reverse a) (ord_reverse b)"
  by (cases a) auto

text \<open>Signed comparison of cells, and of rows: the derived order of \<open>Vec<i64>\<close>.\<close>

definition cell_cmp :: "i64 \<Rightarrow> i64 \<Rightarrow> ordering" where
  "cell_cmp a b = cmp (sint a) (sint b)"

definition row_key :: "i64 list \<Rightarrow> int list" where
  "row_key r = map sint r"

definition row_cmp :: "i64 list \<Rightarrow> i64 list \<Rightarrow> ordering" where
  "row_cmp a b = cmp (row_key a) (row_key b)"

lemma cell_cmp_iffs [simp]:
  "cell_cmp a b = Equal \<longleftrightarrow> a = b" "cell_cmp a b = Less \<longleftrightarrow> sint a < sint b"
  "cell_cmp a b = Greater \<longleftrightarrow> sint b < sint a"
  by (auto simp: cell_cmp_def)

lemma row_key_inj [simp]: "row_key a = row_key b \<longleftrightarrow> a = b"
  by (auto simp: row_key_def inj_map_eq_map inj_def)

lemma inj_row_key: "inj row_key"
  by (simp add: inj_def)

text \<open>
  A comparison that orders: \<open>Equal\<close> on equal elements, antisymmetric under reversal, and with
  transitive \<open>\<le>\<close> on the elements a domain admits. \<open>sort_by\<close> and \<open>min_by\<close> need exactly this.
\<close>

locale comparator_on =
  fixes dom :: "'a \<Rightarrow> bool" and c :: "'a \<Rightarrow> 'a \<Rightarrow> ordering"
  assumes refl: "dom a \<Longrightarrow> c a a = Equal"
    and flip: "dom a \<Longrightarrow> dom b \<Longrightarrow> c b a = ord_reverse (c a b)"
    and le_trans: "dom x \<Longrightarrow> dom y \<Longrightarrow> dom z \<Longrightarrow> c x y \<noteq> Greater \<Longrightarrow> c y z \<noteq> Greater \<Longrightarrow> c x z \<noteq> Greater"
begin

lemma less_le_trans: "dom x \<Longrightarrow> dom y \<Longrightarrow> dom z \<Longrightarrow> c x y = Less \<Longrightarrow> c y z \<noteq> Greater \<Longrightarrow> c x z = Less"
  using flip [of x y] flip [of x z] flip [of y z] le_trans [of x y z] le_trans [of y z x]
  by (cases "c x z"; cases "c y z") auto

lemma le_less_trans: "dom x \<Longrightarrow> dom y \<Longrightarrow> dom z \<Longrightarrow> c x y \<noteq> Greater \<Longrightarrow> c y z = Less \<Longrightarrow> c x z = Less"
  using flip [of x y] flip [of x z] flip [of y z] le_trans [of x y z] le_trans [of z x y]
  by (cases "c x z"; cases "c x y") auto

lemma equal_trans: "dom x \<Longrightarrow> dom y \<Longrightarrow> dom z \<Longrightarrow> c x y = Equal \<Longrightarrow> c y z = Equal \<Longrightarrow> c x z = Equal"
  using flip [of x y] flip [of x z] flip [of y z] le_trans [of x y z] le_trans [of z y x]
  by (cases "c x z") auto

end

text \<open>A comparison by a key is a comparator on every domain.\<close>

definition cmp_by :: "('a \<Rightarrow> 'k::linorder) \<Rightarrow> 'a \<Rightarrow> 'a \<Rightarrow> ordering" where
  "cmp_by f a b = cmp (f a) (f b)"

lemma comparator_on_key: "(\<And>a b. P a \<Longrightarrow> P b \<Longrightarrow> c a b = cmp (f a) (f b)) \<Longrightarrow> comparator_on P c"
  by unfold_locales (auto simp: cmp_def split: if_splits)

interpretation row: comparator_on "\<lambda>_. True" row_cmp
  by (rule comparator_on_key [where f = row_key]) (simp add: row_cmp_def)

interpretation cell: comparator_on "\<lambda>_. True" cell_cmp
  by (rule comparator_on_key [where f = sint]) (simp add: cell_cmp_def)

text \<open>
  \<open>sort_by\<close> of a slice is a stable sort: insertion in front of the first element that is
  greater.
\<close>

fun insert_by :: "('a \<Rightarrow> 'a \<Rightarrow> ordering) \<Rightarrow> 'a \<Rightarrow> 'a list \<Rightarrow> 'a list" where
  "insert_by c x [] = [x]"
| "insert_by c x (y # ys) = (if c x y = Greater then y # insert_by c x ys else x # y # ys)"

fun sort_by :: "('a \<Rightarrow> 'a \<Rightarrow> ordering) \<Rightarrow> 'a list \<Rightarrow> 'a list" where
  "sort_by c [] = []"
| "sort_by c (x # xs) = insert_by c x (sort_by c xs)"

definition sorted_by :: "('a \<Rightarrow> 'a \<Rightarrow> ordering) \<Rightarrow> 'a list \<Rightarrow> bool" where
  "sorted_by c xs = sorted_wrt (\<lambda>a b. c a b \<noteq> Greater) xs"

lemma set_insert_by [simp]: "set (insert_by c x xs) = insert x (set xs)"
  by (induction xs) auto

lemma length_insert_by [simp]: "length (insert_by c x xs) = Suc (length xs)"
  by (induction xs) auto

lemma set_sort_by [simp]: "set (sort_by c xs) = set xs"
  by (induction xs) auto

lemma length_sort_by [simp]: "length (sort_by c xs) = length xs"
  by (induction xs) auto

lemma count_insert_by: "count_list (insert_by c x xs) y = count_list (x # xs) y"
  by (induction xs) auto

lemma count_sort_by [simp]: "count_list (sort_by c xs) y = count_list xs y"
  by (induction xs) (auto simp: count_insert_by)

lemma mset_insert_by: "mset (insert_by c x xs) = add_mset x (mset xs)"
  by (induction xs) auto

lemma mset_sort_by [simp]: "mset (sort_by c xs) = mset xs"
  by (induction xs) (simp_all add: mset_insert_by)

lemma distinct_insert_by: "distinct (insert_by c x xs) \<longleftrightarrow> x \<notin> set xs \<and> distinct xs"
  by (induction xs) auto

lemma distinct_sort_by [simp]: "distinct (sort_by c xs) \<longleftrightarrow> distinct xs"
  by (induction xs) (auto simp: distinct_insert_by)

context comparator_on
begin

lemma sorted_insert_by:
  "dom x \<Longrightarrow> (\<And>y. y \<in> set xs \<Longrightarrow> dom y) \<Longrightarrow> sorted_by c xs \<Longrightarrow> sorted_by c (insert_by c x xs)"
proof (induction xs)
  case Nil
  then show ?case by (simp add: sorted_by_def)
next
  case (Cons y ys)
  show ?case
  proof (cases "c x y = Greater")
    case True
    then have "c y x = Less" using flip [of x y] Cons.prems by simp
    with True Cons show ?thesis by (auto simp: sorted_by_def)
  next
    case False
    then have "\<forall>z \<in> set ys. c x z \<noteq> Greater"
      using Cons.prems le_trans [of x y] by (auto simp: sorted_by_def)
    with False Cons.prems show ?thesis by (auto simp: sorted_by_def)
  qed
qed

lemma sorted_sort_by: "(\<And>x. x \<in> set xs \<Longrightarrow> dom x) \<Longrightarrow> sorted_by c (sort_by c xs)"
proof (induction xs)
  case Nil
  then show ?case by (simp add: sorted_by_def)
next
  case (Cons x xs)
  then show ?case by (auto intro!: sorted_insert_by)
qed

end

text \<open>Sorting by an injective key forgets the order of its input.\<close>

lemma insert_by_insort: "(\<And>a b. c a b = cmp (f a) (f b)) \<Longrightarrow> insert_by c x xs = insort_key f x xs"
  by (induction xs) auto

lemma sort_by_sort_key: "(\<And>a b. c a b = cmp (f a) (f b)) \<Longrightarrow> sort_by c xs = sort_key f xs"
  by (induction xs) (auto simp: insert_by_insort)

lemma sort_by_mset:
  assumes "\<And>a b. c a b = cmp (f a) (f b)" and "inj f" and "mset xs = mset ys"
  shows "sort_by c xs = sort_by c ys"
proof -
  have "sort_key f xs = sort_key f ys"
    using assms(2,3) by (intro sort_key_inj_key_eq) (auto simp: inj_on_def)
  then show ?thesis
    using sort_by_sort_key [of c f xs] sort_by_sort_key [of c f ys] assms(1) by simp
qed

lemma mset_map_filter: "mset xs = mset ys \<Longrightarrow> mset (map f (filter P xs)) = mset (map f (filter P ys))"
  by simp

end
