(* ===== verification/Containers.thy ===== *)
theory Containers
  imports Prelude
begin

text \<open>
  The containers the code iterates over. A \<open>HashMap\<close> is an association list with distinct keys
  whose order stands for the unspecified iteration order (no lemma depends on it); a \<open>BTreeMap\<close> is
  an association list strictly increasing in its key's order. \<open>keyed_map\<close> is the contract both
  keep; weight accumulation (\<open>accumulate\<close> of the frontier engine, \<open>entry().or_default() +=\<close> of the
  others) and its laws are proved once from the contract.
\<close>

subsection \<open>Hash maps\<close>

definition hm_inv :: "('k \<times> 'v) list \<Rightarrow> bool" where
  "hm_inv m = distinct (map fst m)"

lemma hm_inv_Nil [simp]: "hm_inv []"
  by (simp add: hm_inv_def)

lemma hm_inv_update [simp]: "hm_inv m \<Longrightarrow> hm_inv (AList.update k v m)"
  by (simp add: hm_inv_def distinct_update)

lemma hm_inv_delete [simp]: "hm_inv m \<Longrightarrow> hm_inv (AList.delete k m)"
  by (simp add: hm_inv_def distinct_delete)

subsection \<open>B-tree maps\<close>

fun bt_insert :: "('k \<Rightarrow> 'o::linorder) \<Rightarrow> 'k \<Rightarrow> 'v \<Rightarrow> ('k \<times> 'v) list \<Rightarrow> ('k \<times> 'v) list" where
  "bt_insert key k v [] = [(k, v)]"
| "bt_insert key k v ((k', v') # m) =
     (if key k < key k' then (k, v) # (k', v') # m
      else if key k = key k' then (k, v) # m
      else (k', v') # bt_insert key k v m)"

definition bt_inv :: "('k \<Rightarrow> 'o::linorder) \<Rightarrow> ('k \<times> 'v) list \<Rightarrow> bool" where
  "bt_inv key m = sorted_wrt (<) (map (key \<circ> fst) m)"

lemma bt_inv_Nil [simp]: "bt_inv key []"
  by (simp add: bt_inv_def)

lemma bt_insert_keys: "fst ` set (bt_insert key k v m) \<subseteq> insert k (fst ` set m)"
  by (induction m) (force split: if_splits)+

lemma bt_inv_insert [simp]: "bt_inv key m \<Longrightarrow> bt_inv key (bt_insert key k v m)"
proof (induction m)
  case Nil
  then show ?case by (simp add: bt_inv_def)
next
  case (Cons a m)
  obtain k' v' where a: "a = (k', v')" by (cases a)
  from Cons have IH: "bt_inv key (bt_insert key k v m)" by (simp add: bt_inv_def)
  have "\<forall>x \<in> set (bt_insert key k v m). fst x \<in> insert k (fst ` set m)"
    using bt_insert_keys [of key k v m] by auto
  with IH Cons.prems show ?case
    unfolding a bt_inv_def by (fastforce simp: bt_inv_def)
qed

lemma bt_inv_sub: "bt_inv key m \<Longrightarrow> bt_inv key (filter P m)"
  by (simp add: bt_inv_def sorted_wrt_filter sorted_wrt_map)

lemma bt_inv_delete [simp]: "bt_inv key m \<Longrightarrow> bt_inv key (AList.delete k m)"
  by (simp add: AList.delete_eq bt_inv_sub)

lemma bt_inv_distinct: "bt_inv key m \<Longrightarrow> distinct (map fst m)"
proof -
  assume "bt_inv key m"
  then have "distinct (map (key \<circ> fst) m)"
    unfolding bt_inv_def by (simp add: strict_sorted_iff)
  then have "distinct (map key (map fst m))" by simp
  then show ?thesis by (metis distinct_map)
qed

lemma map_of_bt_insert:
  assumes "inj key"
  shows "bt_inv key m \<Longrightarrow> map_of (bt_insert key k v m) = (map_of m)(k \<mapsto> v)"
proof (induction m)
  case Nil
  show ?case by simp
next
  case (Cons a m)
  obtain k' v' where a: "a = (k', v')" by (cases a)
  from Cons.prems have "bt_inv key m" by (simp add: bt_inv_def)
  then have IH: "map_of (bt_insert key k v m) = (map_of m)(k \<mapsto> v)" by (rule Cons.IH)
  from \<open>inj key\<close> have "key k = key k' \<longleftrightarrow> k = k'" by (auto dest: injD)
  with IH show ?case by (intro ext) (auto simp: a)
qed

subsection \<open>The contract\<close>

locale keyed_map =
  fixes inv :: "('k \<times> 'v) list \<Rightarrow> bool"
    and upd :: "'k \<Rightarrow> 'v \<Rightarrow> ('k \<times> 'v) list \<Rightarrow> ('k \<times> 'v) list"
    and del :: "'k \<Rightarrow> ('k \<times> 'v) list \<Rightarrow> ('k \<times> 'v) list"
  assumes inv_Nil: "inv []"
    and inv_upd: "inv m \<Longrightarrow> inv (upd k v m)"
    and inv_del: "inv m \<Longrightarrow> inv (del k m)"
    and inv_distinct: "inv m \<Longrightarrow> distinct (map fst m)"
    and get_upd: "inv m \<Longrightarrow> map_of (upd k v m) = (map_of m)(k \<mapsto> v)"
    and get_del: "inv m \<Longrightarrow> map_of (del k m) = (map_of m)(k := None)"
begin

lemma mem_upd: "inv m \<Longrightarrow> (k', v') \<in> set (upd k v m) \<longleftrightarrow> (if k' = k then v' = v else (k', v') \<in> set m)"
proof -
  assume m: "inv m"
  then have "(k', v') \<in> set (upd k v m) \<longleftrightarrow> map_of (upd k v m) k' = Some v'"
    using inv_distinct [OF inv_upd] by simp
  also have "\<dots> \<longleftrightarrow> (if k' = k then v' = v else (k', v') \<in> set m)"
    using m inv_distinct [OF m] by (auto simp: get_upd)
  finally show ?thesis .
qed

lemma mem_del: "inv m \<Longrightarrow> (k', v') \<in> set (del k m) \<longleftrightarrow> k' \<noteq> k \<and> (k', v') \<in> set m"
proof -
  assume m: "inv m"
  then have "(k', v') \<in> set (del k m) \<longleftrightarrow> map_of (del k m) k' = Some v'"
    using inv_distinct [OF inv_del] by simp
  also have "\<dots> \<longleftrightarrow> k' \<noteq> k \<and> (k', v') \<in> set m"
    using m inv_distinct [OF m] by (auto simp: get_del)
  finally show ?thesis .
qed

end

interpretation hm: keyed_map hm_inv AList.update AList.delete
  by unfold_locales (auto simp: hm_inv_def distinct_update distinct_delete update_conv' delete_conv')

interpretation btr: keyed_map "bt_inv row_key" "bt_insert row_key" AList.delete
  by unfold_locales
    (auto simp: bt_inv_distinct map_of_bt_insert [OF inj_row_key] delete_conv')

interpretation btn: keyed_map "bt_inv (\<lambda>k::nat. k)" "bt_insert (\<lambda>k::nat. k)" AList.delete
  by unfold_locales (auto simp: bt_inv_distinct map_of_bt_insert delete_conv')

subsection \<open>Weights: reading and accumulating\<close>

definition zget :: "('k \<times> i64) list \<Rightarrow> 'k \<Rightarrow> i64" where
  "zget m k = (case map_of m k of None \<Rightarrow> 0 | Some w \<Rightarrow> w)"

definition nonzero :: "('k \<times> i64) list \<Rightarrow> bool" where
  "nonzero m = (\<forall>k. (k, 0) \<notin> set m)"

definition accum_with ::
  "('k \<Rightarrow> i64 \<Rightarrow> ('k \<times> i64) list \<Rightarrow> ('k \<times> i64) list) \<Rightarrow> ('k \<Rightarrow> ('k \<times> i64) list \<Rightarrow> ('k \<times> i64) list) \<Rightarrow>
   ('k \<times> i64) list \<Rightarrow> 'k \<Rightarrow> i64 \<Rightarrow> ('k \<times> i64) list" where
  "accum_with upd del m k w =
     (case map_of m k of
        Some v \<Rightarrow> (if v + w = 0 then del k m else upd k (v + w) m)
      | None \<Rightarrow> (if w \<noteq> 0 then upd k w m else m))"

lemma zget_Nil [simp]: "zget [] k = 0"
  by (simp add: zget_def)

lemma zget_Cons: "zget ((k', w) # m) k = (if k = k' then w else zget m k)"
  by (auto simp: zget_def)

lemma nonzero_Nil [simp]: "nonzero []"
  by (simp add: nonzero_def)

lemma nonzero_get: "distinct (map fst m) \<Longrightarrow> nonzero m \<Longrightarrow> map_of m k = (if zget m k = 0 then None else Some (zget m k))"
  by (auto simp: zget_def nonzero_def split: option.splits)

lemma zget_mem: "distinct (map fst m) \<Longrightarrow> (k, w) \<in> set m \<Longrightarrow> zget m k = w"
  by (simp add: zget_def)

lemma zget_nonzero_mem: "zget m k \<noteq> 0 \<Longrightarrow> (k, zget m k) \<in> set m"
  by (auto simp: zget_def split: option.splits dest: map_of_SomeD)

lemma finite_zget [simp]: "finite {k. zget m k \<noteq> 0}"
  by (rule finite_subset [of _ "fst ` set m"]) (auto dest!: zget_nonzero_mem simp: image_iff, force)

locale weight_map = keyed_map inv upd del
  for inv :: "('k \<times> i64) list \<Rightarrow> bool" and upd and del
begin

lemma inv_accum: "inv m \<Longrightarrow> inv (accum_with upd del m k w)"
  by (auto simp: accum_with_def inv_upd inv_del split: option.split)

lemma zget_accum:
  "inv m \<Longrightarrow> zget (accum_with upd del m k w) k' = zget m k' + (if k' = k then w else 0)"
  by (auto simp: accum_with_def zget_def get_upd get_del algebra_simps split: option.split)

lemma nonzero_accum: "inv m \<Longrightarrow> nonzero m \<Longrightarrow> nonzero (accum_with upd del m k w)"
  by (auto simp: accum_with_def nonzero_def mem_upd mem_del split: option.split if_splits)

lemma fold_accum:
  assumes "inv m" and "nonzero m"
  shows "inv (fold (\<lambda>(k, w) m. accum_with upd del m (f k) (g k w)) xs m) \<and>
    nonzero (fold (\<lambda>(k, w) m. accum_with upd del m (f k) (g k w)) xs m) \<and>
    zget (fold (\<lambda>(k, w) m. accum_with upd del m (f k) (g k w)) xs m) k' =
      zget m k' + (\<Sum>(k, w) \<leftarrow> xs. if f k = k' then g k w else 0)"
  using assms
proof (induction xs arbitrary: m)
  case Nil
  then show ?case by simp
next
  case (Cons x xs)
  obtain k w where x: "x = (k, w)" by (cases x)
  have "inv (accum_with upd del m (f k) (g k w))" "nonzero (accum_with upd del m (f k) (g k w))"
    using Cons.prems by (auto intro: inv_accum nonzero_accum)
  from Cons.IH [OF this] Cons.prems show ?case
    by (auto simp: x zget_accum)
qed

end

interpretation hmw: weight_map hm_inv AList.update AList.delete ..

interpretation btw: weight_map "bt_inv row_key" "bt_insert row_key" AList.delete ..

end
