(* ===== verification/Frontier_Types.thy ===== *)
theory Frontier_Types
  imports Containers
begin

text \<open>
  The public contract of the in-process frontier engine
  (\<open>labs/20260923.1.the-gang-builds-the-rust-frontier-engine/src/0_types.rs\<close>): signed source changes,
  the plan language, output deltas and the error type. Relation, row and program ids are arena
  indexes and are natural numbers here; cells and weights are 64-bit words.
\<close>

type_synonym row = "i64 list"

datatype sign = Plus | Minus

fun sign_weight :: "sign \<Rightarrow> i64" where
  "sign_weight Plus = 1"
| "sign_weight Minus = - 1"

record source_change =
  sc_relation :: nat
  sc_sign :: sign
  sc_row :: row

record frontier =
  fr_id :: string
  fr_changes :: "source_change list"

definition frontier_empty :: "string \<Rightarrow> frontier" where
  "frontier_empty i = \<lparr>fr_id = i, fr_changes = []\<rparr>"

record output_change =
  oc_sign :: sign
  oc_row :: row

record output_delta =
  od_output :: string
  od_changes :: "output_change list"

datatype plan_node =
    PScan nat
  | PUnion "plan_node list"
  | PJoin plan_node plan_node nat nat
  | PAggregate plan_node "nat list" bool "nat option"
  | PProject plan_node "nat list"
  | PDifference plan_node plan_node

record output_decl =
  decl_name :: string
  decl_plan :: plan_node

record plan_program =
  prog_outputs :: "output_decl list"

definition program_one :: "string \<Rightarrow> plan_node \<Rightarrow> plan_program" where
  "program_one name plan = \<lparr>prog_outputs = [\<lparr>decl_name = name, decl_plan = plan\<rparr>]\<rparr>"

datatype fstage = Validate | Install | Source | Maintain | Snapshot | Transaction

text \<open>
  The message of \<open>Internal\<close> is formatted from debug output in the source; the model keeps what it
  is formatted from.
\<close>

datatype internal_detail =
    RemovalExceeds row i64
  | GroupNegative row
  | SupportNegative row i64
  | IndexNegative row i64

datatype ferror_kind =
    UnknownRelation nat
  | ArityMismatch nat nat
  | UnknownOutput string
  | UnknownProgram nat
  | UnsupportedShape string
  | Internal internal_detail
  | ScopeError string

record fengine_error =
  fe_stage :: fstage
  fe_kind :: ferror_kind
  fe_relation :: "string option"
  fe_output :: "string option"

definition ferr :: "fstage \<Rightarrow> ferror_kind \<Rightarrow> fengine_error" where
  "ferr st k = \<lparr>fe_stage = st, fe_kind = k, fe_relation = None, fe_output = None\<rparr>"

record engine_stats =
  st_installed_programs :: nat
  st_operators :: nat
  st_arrangements :: nat
  st_source_rows :: nat

type_synonym 'a fres = "(fengine_error, 'a) rust"

end
