(* ===== verification/Frontier_Storage.thy ===== *)
theory Frontier_Storage
  imports Frontier_Types
begin

text \<open>
  State of the frontier engine (\<open>1_storage.rs\<close>): source relations with a row arena, a LIFO free
  list and a value index; installed programs with their plan-node arenas; the undo journal and the
  scope marks. Vectors used as stacks keep the source's order, the top at the end.
\<close>

subsection \<open>Relations, nodes, programs\<close>

record relation =
  rel_name :: string
  rel_arity :: nat
  rel_rows :: "row option list"
  rel_free :: "nat list"
  rel_by_value :: "(row \<times> nat list) list"

definition relation_new :: "string \<Rightarrow> nat \<Rightarrow> relation" where
  "relation_new name arity =
     \<lparr>rel_name = name, rel_arity = arity, rel_rows = [], rel_free = [], rel_by_value = []\<rparr>"

definition live_rows :: "relation \<Rightarrow> nat" where
  "live_rows r = length (filter (\<lambda>slot. slot \<noteq> None) (rel_rows r))"

type_synonym counts = "(row \<times> i64) list"
type_synonym key_index = "(row \<times> counts) list"

record group =
  g_count :: i64
  g_sum :: i64

datatype node =
    NScan nat
  | NUnion "nat list" counts
  | NJoin nat nat nat nat counts key_index key_index
  | NAggregate nat "nat list" bool "nat option" "(row \<times> group) list"
  | NProject nat "nat list" counts

fun node_counts :: "node \<Rightarrow> counts option" where
  "node_counts (NUnion _ c) = Some c"
| "node_counts (NJoin _ _ _ _ c _ _) = Some c"
| "node_counts (NProject _ _ c) = Some c"
| "node_counts (NScan _) = None"
| "node_counts (NAggregate _ _ _ _ _) = None"

text \<open>Writing through \<open>counts_mut\<close>.\<close>

fun set_counts :: "counts \<Rightarrow> node \<Rightarrow> node" where
  "set_counts c (NUnion i _) = NUnion i c"
| "set_counts c (NJoin l r a b _ li ri) = NJoin l r a b c li ri"
| "set_counts c (NProject i cols _) = NProject i cols c"
| "set_counts c n = n"

fun arrangement_count :: "node \<Rightarrow> nat" where
  "arrangement_count (NScan _) = 0"
| "arrangement_count (NUnion _ _) = 1"
| "arrangement_count (NJoin _ _ _ _ _ _ _) = 3"
| "arrangement_count (NAggregate _ _ _ _ _) = 1"
| "arrangement_count (NProject _ _ _) = 1"

record output_state =
  os_name :: string
  os_root :: nat
  os_distinct :: bool

record program_state =
  ps_nodes :: "node list"
  ps_outputs :: "output_state list"
  ps_dependencies :: "nat list"
  ps_operators :: nat
  ps_arrangements :: nat

text \<open>One inverted state mutation (\<open>Undo\<close> of \<open>3_tx.rs\<close>).\<close>

datatype undo =
    UInsert nat nat bool
  | URemove nat nat row
  | UCounts nat nat row "i64 option"
  | UKeyIndex nat nat bool row row "i64 option"
  | UGroup nat nat row "group option"

record engine =
  en_relations :: "relation list"
  en_programs :: "program_state option list"
  en_next_program :: nat
  en_journal :: "undo list"
  en_marks :: "nat list"
  en_frontiers_applied :: nat

definition engine_new :: engine where
  "engine_new = \<lparr>en_relations = [], en_programs = [], en_next_program = 0, en_journal = [],
     en_marks = [], en_frontiers_applied = 0\<rparr>"

definition define_relation :: "string \<Rightarrow> nat \<Rightarrow> engine \<Rightarrow> nat \<times> engine" where
  "define_relation name arity e =
     (length (en_relations e), e\<lparr>en_relations := en_relations e @ [relation_new name arity]\<rparr>)"

definition relation_at :: "engine \<Rightarrow> nat \<Rightarrow> fstage \<Rightarrow> relation fres" where
  "relation_at e r st = (case vec_get (en_relations e) r of
     None \<Rightarrow> Err (ferr st (UnknownRelation r)) | Some rel \<Rightarrow> Ok rel)"

definition program_at :: "engine \<Rightarrow> nat \<Rightarrow> program_state fres" where
  "program_at e p = (case vec_get (en_programs e) p of
     Some (Some ps) \<Rightarrow> Ok ps | _ \<Rightarrow> Err (ferr Validate (UnknownProgram p)))"

subsection \<open>Installing a plan\<close>

fun node_arity :: "engine \<Rightarrow> plan_node \<Rightarrow> nat fres"
  and union_arity :: "engine \<Rightarrow> nat option \<Rightarrow> plan_node list \<Rightarrow> (nat option) fres" where
  "node_arity e (PScan r) = rust_bind (relation_at e r Install) (\<lambda>rel. Ok (rel_arity rel))"
| "node_arity e (PUnion inputs) =
     rust_bind (union_arity e None inputs)
       (\<lambda>a. Ok (case a of None \<Rightarrow> 0 | Some n \<Rightarrow> n))"
| "node_arity e (PJoin l r _ _) =
     rust_bind (node_arity e l) (\<lambda>a. rust_bind (node_arity e r) (\<lambda>b. Ok (a + b)))"
| "node_arity e (PAggregate _ group_by cnt sm) =
     Ok (length group_by + (if cnt then 1 else 0) + (if sm = None then 0 else 1))"
| "node_arity e (PProject _ columns) = Ok (length columns)"
| "node_arity e (PDifference _ _) = Err (ferr Install (UnsupportedShape ''difference''))"
| "union_arity e a [] = Ok a"
| "union_arity e a (p # ps) =
     rust_bind (node_arity e p) (\<lambda>child.
       (case a of
          None \<Rightarrow> union_arity e (Some child) ps
        | Some same \<Rightarrow>
            (if same = child then union_arity e (Some same) ps
             else Err (ferr Install (ArityMismatch same child)))))"

text \<open>\<open>iter().max().copied().unwrap_or(0)\<close>.\<close>

definition max_or_zero :: "nat list \<Rightarrow> nat" where
  "max_or_zero xs = foldr max xs 0"

lemma max_or_zero_less: "max_or_zero xs < n \<Longrightarrow> x \<in> set xs \<Longrightarrow> x < n"
  by (induction xs) (auto simp: max_or_zero_def)

text \<open>The arena under construction: nodes pushed so far and the relations scanned so far.\<close>

type_synonym arena = "node list \<times> nat list"

definition push_node :: "node \<Rightarrow> arena \<Rightarrow> nat \<times> arena" where
  "push_node n a = (length (fst a), fst a @ [n], snd a)"

fun build_node :: "engine \<Rightarrow> plan_node \<Rightarrow> arena \<Rightarrow> (nat \<times> arena) fres"
  and build_nodes :: "engine \<Rightarrow> plan_node list \<Rightarrow> arena \<Rightarrow> (nat list \<times> arena) fres" where
  "build_node e (PScan r) a =
     rust_bind (relation_at e r Install) (\<lambda>_.
       Ok (push_node (NScan r) (fst a, List.insert r (snd a))))"
| "build_node e (PUnion inputs) a =
     rust_bind (build_nodes e inputs a) (\<lambda>(children, a'). Ok (push_node (NUnion children []) a'))"
| "build_node e (PJoin l r on_left on_right) a =
     rust_bind (node_arity e l) (\<lambda>la.
     rust_bind (node_arity e r) (\<lambda>ra.
       if on_left \<ge> la then Err (ferr Install (ArityMismatch la (on_left + 1)))
       else if on_right \<ge> ra then Err (ferr Install (ArityMismatch ra (on_right + 1)))
       else
         rust_bind (build_node e l a) (\<lambda>(i, a1).
         rust_bind (build_node e r a1) (\<lambda>(j, a2).
           Ok (push_node (NJoin i j on_left on_right [] [] []) a2)))))"
| "build_node e (PAggregate input group_by cnt sm) a =
     (if group_by = [] \<or> \<not> cnt \<and> sm = None then
        Err (ferr Install (UnsupportedShape
          (if group_by = [] then ''global aggregate (no group key)''
           else ''aggregate without COUNT or SUM'')))
      else
        rust_bind (node_arity e input) (\<lambda>ia.
          let worst = max_or_zero (group_by @ (case sm of None \<Rightarrow> [] | Some c \<Rightarrow> [c])) in
          if worst \<ge> ia then Err (ferr Install (ArityMismatch ia (worst + 1)))
          else rust_bind (build_node e input a) (\<lambda>(i, a1).
            Ok (push_node (NAggregate i group_by cnt sm []) a1))))"
| "build_node e (PProject input columns) a =
     rust_bind (node_arity e input) (\<lambda>ia.
       let worst = max_or_zero columns in
       if worst \<ge> ia then Err (ferr Install (ArityMismatch ia (worst + 1)))
       else rust_bind (build_node e input a) (\<lambda>(i, a1).
         Ok (push_node (NProject i columns []) a1)))"
| "build_node e (PDifference _ _) a = Err (ferr Install (UnsupportedShape ''difference''))"
| "build_nodes e [] a = Ok ([], a)"
| "build_nodes e (p # ps) a =
     rust_bind (build_node e p a) (\<lambda>(i, a1).
     rust_bind (build_nodes e ps a1) (\<lambda>(is, a2). Ok (i # is, a2)))"

text \<open>The error of one output's plan names that output.\<close>

fun name_output :: "string \<Rightarrow> 'a fres \<Rightarrow> 'a fres" where
  "name_output name (Err er) =
     Err (if fe_output er = None then er\<lparr>fe_output := Some name\<rparr> else er)"
| "name_output name r = r"

fun is_aggregate :: "plan_node \<Rightarrow> bool" where
  "is_aggregate (PAggregate _ _ _ _) = True"
| "is_aggregate _ = False"

fun build_outputs :: "engine \<Rightarrow> output_decl list \<Rightarrow> arena \<Rightarrow> (output_state list \<times> arena) fres" where
  "build_outputs e [] a = Ok ([], a)"
| "build_outputs e (d # ds) a =
     rust_bind (name_output (decl_name d) (build_node e (decl_plan d) a)) (\<lambda>(root, a1).
     rust_bind (build_outputs e ds a1) (\<lambda>(os, a2).
       Ok (\<lparr>os_name = decl_name d, os_root = root, os_distinct = \<not> is_aggregate (decl_plan d)\<rparr> # os, a2)))"

definition install :: "plan_program \<Rightarrow> engine \<Rightarrow> (nat \<times> engine) fres" where
  "install prog e =
     rust_bind (build_outputs e (prog_outputs prog) ([], [])) (\<lambda>(outputs, nodes, deps).
       let i = en_next_program e;
           programs = (if length (en_programs e) = i then en_programs e @ [None] else en_programs e);
           ps = \<lparr>ps_nodes = nodes, ps_outputs = outputs, ps_dependencies = deps,
                 ps_operators = length nodes, ps_arrangements = sum_list (map arrangement_count nodes)\<rparr>
       in if i < length programs
          then Ok (i, e\<lparr>en_next_program := i + 1, en_programs := programs[i := Some ps]\<rparr>)
          else Panic)"

definition uninstall :: "nat \<Rightarrow> engine \<Rightarrow> engine fres" where
  "uninstall p e =
     rust_bind (program_at e p) (\<lambda>_. Ok (e\<lparr>en_programs := (en_programs e)[p := None]\<rparr>))"


subsection \<open>Reading\<close>

definition engine_outputs :: "nat \<Rightarrow> engine \<Rightarrow> string list fres" where
  "engine_outputs p e = rust_bind (program_at e p) (\<lambda>ps. Ok (map os_name (ps_outputs ps)))"

definition source_row :: "nat \<Rightarrow> nat \<Rightarrow> engine \<Rightarrow> row option fres" where
  "source_row r i e = rust_bind (relation_at e r Snapshot) (\<lambda>rel.
     Ok (case vec_get (rel_rows rel) i of Some (Some row) \<Rightarrow> Some row | _ \<Rightarrow> None))"

definition source_row_ids :: "nat \<Rightarrow> engine \<Rightarrow> nat list fres" where
  "source_row_ids r e = rust_bind (relation_at e r Snapshot) (\<lambda>rel.
     Ok (map fst (filter (\<lambda>(_, slot). slot \<noteq> None) (enumerate 0 (rel_rows rel)))))"

text \<open>The output row of a group: key cells, then the count, then the sum, as requested.\<close>

definition group_row :: "bool \<Rightarrow> nat option \<Rightarrow> row \<Rightarrow> group \<Rightarrow> row" where
  "group_row cnt sm key g =
     key @ (if cnt then [g_count g] else []) @ (if sm \<noteq> None then [g_sum g] else [])"

text \<open>Visible rows of a node with their support; \<open>weight > 0\<close> is a signed comparison.\<close>

fun node_support :: "engine \<Rightarrow> node \<Rightarrow> (row \<times> i64) list fres" where
  "node_support e (NAggregate _ _ cnt sm groups) =
     Ok (map (\<lambda>(key, g). (group_row cnt sm key g, g_count g)) groups)"
| "node_support e (NScan r) =
     rust_bind (relation_at e r Snapshot) (\<lambda>rel.
       Ok (map (\<lambda>(row, ids). (row, of_nat (length ids))) (filter (\<lambda>(_, ids). ids \<noteq> []) (rel_by_value rel))))"
| "node_support e (NUnion _ c) = Ok (filter (\<lambda>(_, w). 0 < sint w) c)"
| "node_support e (NJoin _ _ _ _ c _ _) = Ok (filter (\<lambda>(_, w). 0 < sint w) c)"
| "node_support e (NProject _ _ c) = Ok (filter (\<lambda>(_, w). 0 < sint w) c)"

definition find_output :: "string \<Rightarrow> program_state \<Rightarrow> output_state fres" where
  "find_output name ps = (case find (\<lambda>os. os_name os = name) (ps_outputs ps) of
     Some os \<Rightarrow> Ok os
   | None \<Rightarrow> Err \<lparr>fe_stage = Snapshot, fe_kind = UnknownOutput name, fe_relation = None, fe_output = Some name\<rparr>)"

definition support_cmp :: "row \<times> i64 \<Rightarrow> row \<times> i64 \<Rightarrow> ordering" where
  "support_cmp a b = ord_then (row_cmp (fst a) (fst b)) (cell_cmp (snd a) (snd b))"

definition snapshot_support :: "nat \<Rightarrow> string \<Rightarrow> engine \<Rightarrow> (row \<times> i64) list fres" where
  "snapshot_support p name e =
     rust_bind (program_at e p) (\<lambda>ps.
     rust_bind (find_output name ps) (\<lambda>os.
     rust_bind (vec_index (ps_nodes ps) (os_root os)) (\<lambda>n.
     rust_bind (node_support e n) (\<lambda>rows. Ok (sort_by support_cmp rows)))))"

definition snapshot :: "nat \<Rightarrow> string \<Rightarrow> engine \<Rightarrow> row list fres" where
  "snapshot p name e =
     rust_bind (program_at e p) (\<lambda>ps.
     rust_bind (find_output name ps) (\<lambda>os.
     rust_bind (vec_index (ps_nodes ps) (os_root os)) (\<lambda>n.
     rust_bind (node_support e n) (\<lambda>rows. Ok (sort_by row_cmp (map fst rows))))))"

definition stats :: "engine \<Rightarrow> engine_stats" where
  "stats e =
     (let live = List.map_filter id (en_programs e)
      in \<lparr>st_installed_programs = length (filter (\<lambda>p. p \<noteq> None) (en_programs e)),
          st_operators = sum_list (map ps_operators live),
          st_arrangements = sum_list (map ps_arrangements live),
          st_source_rows = sum_list (map live_rows (en_relations e))\<rparr>)"

text \<open>
  Visibility flips of a distinct output: \<open>counts\<close> is the state after the frontier, \<open>delta\<close> its net
  change.
\<close>

definition distinct_transitions :: "counts \<Rightarrow> counts \<Rightarrow> output_change list" where
  "distinct_transitions counts delta =
     sort_by (\<lambda>a b. row_cmp (oc_row a) (oc_row b))
       (List.map_filter (\<lambda>(row, weight).
          let post = zget counts row; pre = post - weight
          in if \<not> 0 < sint pre \<and> 0 < sint post then Some \<lparr>oc_sign = Plus, oc_row = row\<rparr>
             else if 0 < sint pre \<and> \<not> 0 < sint post then Some \<lparr>oc_sign = Minus, oc_row = row\<rparr>
             else None) delta)"

end
