(* ===== verification/Frontier_Apply.thy ===== *)
theory Frontier_Apply
  imports Frontier_Storage
begin

text \<open>
  One frontier, end to end (\<open>2_apply.rs\<close>): validate, consolidate, check coverage, write source rows,
  propagate deltas bottom-up, derive output transitions. Every operation threads its state through
  success and failure alike, because the engine unwinds whatever a failing frontier has written.
\<close>

subsection \<open>State passing with persistent state on error\<close>

type_synonym ('s, 'a) st = "'s \<Rightarrow> 'a fres \<times> 's"

definition st_return :: "'a \<Rightarrow> ('s, 'a) st" where
  "st_return a s = (Ok a, s)"

definition st_lift :: "'a fres \<Rightarrow> ('s, 'a) st" where
  "st_lift r s = (r, s)"

definition st_get :: "('s \<Rightarrow> 'a) \<Rightarrow> ('s, 'a) st" where
  "st_get f s = (Ok (f s), s)"

definition st_modify :: "('s \<Rightarrow> 's) \<Rightarrow> ('s, unit) st" where
  "st_modify f s = (Ok (), f s)"

definition st_bind :: "('s, 'a) st \<Rightarrow> ('a \<Rightarrow> ('s, 'b) st) \<Rightarrow> ('s, 'b) st" where
  "st_bind m f s = (case m s of
     (Ok a, s') \<Rightarrow> f a s' | (Err e, s') \<Rightarrow> (Err e, s') | (Panic, s') \<Rightarrow> (Panic, s'))"

fun st_for :: "'x list \<Rightarrow> ('x \<Rightarrow> ('s, unit) st) \<Rightarrow> ('s, unit) st" where
  "st_for [] f = st_return ()"
| "st_for (x # xs) f = st_bind (f x) (\<lambda>_. st_for xs f)"

fun st_fold :: "'x list \<Rightarrow> 'b \<Rightarrow> ('x \<Rightarrow> 'b \<Rightarrow> ('s, 'b) st) \<Rightarrow> ('s, 'b) st" where
  "st_fold [] b f = st_return b"
| "st_fold (x # xs) b f = st_bind (f x b) (\<lambda>b'. st_fold xs b' f)"

lemma st_bind_cong [fundef_cong]:
  "m s = m' s' \<Longrightarrow> (\<And>a t. m' s' = (Ok a, t) \<Longrightarrow> f a t = f' a t) \<Longrightarrow> st_bind m f s = st_bind m' f' s'"
  by (auto simp: st_bind_def split: prod.split rust.split)

text \<open>A loop without state, in the result type.\<close>

fun rust_fold :: "'x list \<Rightarrow> 'b \<Rightarrow> ('x \<Rightarrow> 'b \<Rightarrow> 'b fres) \<Rightarrow> 'b fres" where
  "rust_fold [] b f = Ok b"
| "rust_fold (x # xs) b f = rust_bind (f x b) (\<lambda>b'. rust_fold xs b' f)"

subsection \<open>Accumulation and consolidation\<close>

definition accumulate :: "counts \<Rightarrow> row \<Rightarrow> i64 \<Rightarrow> counts" where
  "accumulate = accum_with AList.update AList.delete"

definition accumulate_btree :: "counts \<Rightarrow> row \<Rightarrow> i64 \<Rightarrow> counts" where
  "accumulate_btree = accum_with (bt_insert row_key) AList.delete"

type_synonym net = "(nat \<times> counts) list"

text \<open>The per-relation map of a net change; a relation keeps its (empty) entry when all cancels.\<close>

definition consolidate_one :: "source_change \<Rightarrow> net \<Rightarrow> net" where
  "consolidate_one ch n =
     (let m = (case map_of n (sc_relation ch) of None \<Rightarrow> [] | Some m \<Rightarrow> m)
      in bt_insert (\<lambda>k. k) (sc_relation ch) (accumulate_btree m (sc_row ch) (sign_weight (sc_sign ch))) n)"

definition consolidate :: "source_change list \<Rightarrow> net" where
  "consolidate chs = fold consolidate_one chs []"

definition validate_change :: "engine \<Rightarrow> source_change \<Rightarrow> unit fres" where
  "validate_change e ch =
     rust_bind (relation_at e (sc_relation ch) Validate) (\<lambda>rel.
       if rel_arity rel \<noteq> length (sc_row ch)
       then Err \<lparr>fe_stage = Validate, fe_kind = ArityMismatch (rel_arity rel) (length (sc_row ch)),
                 fe_relation = Some (rel_name rel), fe_output = None\<rparr>
       else Ok ())"

text \<open>Rows of one value currently present.\<close>

definition present :: "relation \<Rightarrow> row \<Rightarrow> i64" where
  "present rel row = (case map_of (rel_by_value rel) row of None \<Rightarrow> 0 | Some ids \<Rightarrow> of_nat (length ids))"

definition check_removal :: "relation \<Rightarrow> row \<times> i64 \<Rightarrow> unit fres" where
  "check_removal rel rw =
     (if sint (snd rw) < 0 \<and> sint (present rel (fst rw) + snd rw) < 0
      then Err \<lparr>fe_stage = Validate, fe_kind = Internal (RemovalExceeds (fst rw) (present rel (fst rw))),
                fe_relation = Some (rel_name rel), fe_output = None\<rparr>
      else Ok ())"

definition check_net :: "engine \<Rightarrow> nat \<times> counts \<Rightarrow> unit fres" where
  "check_net e rn = rust_bind (relation_at e (fst rn) Validate) (\<lambda>rel.
     rust_fold (snd rn) () (\<lambda>rw _. check_removal rel rw))"

subsection \<open>Source writes\<close>

definition put_relation :: "nat \<Rightarrow> relation \<Rightarrow> engine \<Rightarrow> engine" where
  "put_relation r rel e = e\<lparr>en_relations := (en_relations e)[r := rel]\<rparr>"

definition push_undo :: "undo \<Rightarrow> engine \<Rightarrow> engine" where
  "push_undo u e = e\<lparr>en_journal := en_journal e @ [u]\<rparr>"

definition insert_slot :: "row \<Rightarrow> relation \<Rightarrow> nat \<times> bool \<times> relation" where
  "insert_slot row rel =
     (let (slot, recycled, rows, free) =
        (if rel_free rel \<noteq> [] then (last (rel_free rel), True, rel_rows rel, butlast (rel_free rel))
         else (length (rel_rows rel), False, rel_rows rel @ [None], []));
        ids = (case map_of (rel_by_value rel) row of None \<Rightarrow> [] | Some ids \<Rightarrow> ids)
      in (slot, recycled, rel\<lparr>rel_rows := rows[slot := Some row], rel_free := free,
            rel_by_value := AList.update row (ids @ [slot]) (rel_by_value rel)\<rparr>))"

definition insert_row :: "nat \<Rightarrow> row \<Rightarrow> (engine, nat) st" where
  "insert_row r row e =
     (case relation_at e r Source of
        Err er \<Rightarrow> (Err er, e) | Panic \<Rightarrow> (Panic, e)
      | Ok rel \<Rightarrow>
          (let (slot, recycled, rel') = insert_slot row rel
           in if slot < length (rel_rows rel')
              then (Ok slot, push_undo (UInsert r slot recycled) (put_relation r rel' e))
              else (Panic, e)))"

definition remove_row :: "nat \<Rightarrow> row \<Rightarrow> (engine, nat option) st" where
  "remove_row r row e =
     (case relation_at e r Source of
        Err er \<Rightarrow> (Err er, e) | Panic \<Rightarrow> (Panic, e)
      | Ok rel \<Rightarrow>
          (case map_of (rel_by_value rel) row of
             None \<Rightarrow> (Ok None, e)
           | Some ids \<Rightarrow>
               if ids = [] then (Panic, e)
               else
                 (let slot = last ids; rest = butlast ids;
                      bv = (if rest = [] then AList.delete row (rel_by_value rel)
                            else AList.update row rest (rel_by_value rel))
                  in if slot < length (rel_rows rel)
                     then (Ok (Some slot), push_undo (URemove r slot row)
                            (put_relation r (rel\<lparr>rel_rows := (rel_rows rel)[slot := None],
                               rel_free := rel_free rel @ [slot], rel_by_value := bv\<rparr>) e))
                     else (Panic, e))))"

definition write_source :: "nat \<Rightarrow> counts \<Rightarrow> (engine, unit) st" where
  "write_source r net =
     st_for net (\<lambda>(row, weight).
       st_bind (st_for [0..<nat (sint weight)] (\<lambda>_. st_bind (insert_row r row) (\<lambda>_. st_return ()))) (\<lambda>_.
       st_for [0..<nat (sint (- weight))] (\<lambda>_. st_bind (remove_row r row) (\<lambda>_. st_return ()))))"

subsection \<open>Propagation\<close>

text \<open>
  The propagation borrows the nodes of one program and the journal, and memoises the delta of
  every node it has run.
\<close>

record prop_state =
  pr_nodes :: "node list"
  pr_journal :: "undo list"
  pr_memo :: "nat \<rightharpoonup> counts"

definition pr_push :: "undo \<Rightarrow> prop_state \<Rightarrow> prop_state" where
  "pr_push u s = s\<lparr>pr_journal := pr_journal s @ [u]\<rparr>"

definition pr_put :: "nat \<Rightarrow> node \<Rightarrow> prop_state \<Rightarrow> prop_state" where
  "pr_put i n s = s\<lparr>pr_nodes := (pr_nodes s)[i := n]\<rparr>"

definition join_key :: "row \<Rightarrow> nat \<Rightarrow> row fres" where
  "join_key r col = rust_bind (vec_index r col) (\<lambda>c. Ok [c])"

definition pick_cols :: "nat list \<Rightarrow> row \<Rightarrow> row fres" where
  "pick_cols cs r = map_rust (vec_index r) cs"

definition apply_count :: "nat \<Rightarrow> nat \<Rightarrow> row \<times> i64 \<Rightarrow> (prop_state, unit) st" where
  "apply_count p i rw s =
     (case vec_get (pr_nodes s) i of None \<Rightarrow> (Panic, s)
      | Some n \<Rightarrow>
        (case node_counts n of None \<Rightarrow> (Panic, s)
         | Some c \<Rightarrow>
            (let previous = map_of c (fst rw);
                 next = (case previous of None \<Rightarrow> 0 | Some v \<Rightarrow> v) + snd rw
             in if sint next < 0 then (Err (ferr Maintain (Internal (SupportNegative (fst rw) next))), s)
                else (Ok (), pr_put i
                        (set_counts (if next = 0 then AList.delete (fst rw) c else AList.update (fst rw) next c) n)
                        (pr_push (UCounts p i (fst rw) previous) s)))))"

definition apply_counts :: "nat \<Rightarrow> nat \<Rightarrow> counts \<Rightarrow> (prop_state, unit) st" where
  "apply_counts p i delta = st_for delta (apply_count p i)"

fun node_index :: "bool \<Rightarrow> node \<Rightarrow> key_index option" where
  "node_index True (NJoin _ _ _ _ _ li _) = Some li"
| "node_index False (NJoin _ _ _ _ _ _ ri) = Some ri"
| "node_index _ _ = None"

fun set_index :: "bool \<Rightarrow> key_index \<Rightarrow> node \<Rightarrow> node" where
  "set_index True x (NJoin l r a b c _ ri) = NJoin l r a b c x ri"
| "set_index False x (NJoin l r a b c li _) = NJoin l r a b c li x"
| "set_index _ _ n = n"

text \<open>
  \<open>entry(key).or_default()\<close> inserts the empty inner map before the sign check, so it stays behind
  when the check fails.
\<close>

definition index_update_one :: "nat \<Rightarrow> nat \<Rightarrow> bool \<Rightarrow> nat \<Rightarrow> row \<times> i64 \<Rightarrow> (prop_state, unit) st" where
  "index_update_one p i left key_col rw s =
     (case join_key (fst rw) key_col of Err e \<Rightarrow> (Err e, s) | Panic \<Rightarrow> (Panic, s)
      | Ok key \<Rightarrow>
        (case vec_get (pr_nodes s) i of None \<Rightarrow> (Panic, s)
         | Some n \<Rightarrow>
           (case node_index left n of None \<Rightarrow> (Panic, s)
            | Some x \<Rightarrow>
               (let x1 = (if map_of x key = None then AList.update key [] x else x);
                    entry = (case map_of x1 key of None \<Rightarrow> [] | Some en \<Rightarrow> en);
                    previous = map_of entry (fst rw);
                    next = (case previous of None \<Rightarrow> 0 | Some v \<Rightarrow> v) + snd rw
                in if sint next < 0
                   then (Err (ferr Maintain (Internal (IndexNegative key next))), pr_put i (set_index left x1 n) s)
                   else
                     (let entry' = (if next = 0 then AList.delete (fst rw) entry else AList.update (fst rw) next entry);
                          x2 = (if entry' = [] then AList.delete key x1 else AList.update key entry' x1)
                      in (Ok (), pr_put i (set_index left x2 n)
                            (pr_push (UKeyIndex p i left key (fst rw) previous) s)))))))"

definition index_update :: "nat \<Rightarrow> nat \<Rightarrow> bool \<Rightarrow> counts \<Rightarrow> nat \<Rightarrow> (prop_state, unit) st" where
  "index_update p i left delta key_col = st_for delta (index_update_one p i left key_col)"

definition index_rows :: "key_index \<Rightarrow> row \<Rightarrow> counts" where
  "index_rows x key = (case map_of x key of None \<Rightarrow> [] | Some en \<Rightarrow> en)"

text \<open>Term 1 reads the right side after the frontier, term 2 the left side before it.\<close>

definition join_term1 :: "key_index \<Rightarrow> counts \<Rightarrow> nat \<Rightarrow> counts \<Rightarrow> counts fres" where
  "join_term1 ri dl on_left out =
     rust_fold dl out (\<lambda>(lrow, weight) acc.
       rust_bind (join_key lrow on_left) (\<lambda>key.
         Ok (fold (\<lambda>(rrow, rw) acc. accumulate acc (lrow @ rrow) (weight * rw)) (index_rows ri key) acc)))"

definition join_term2 :: "key_index \<Rightarrow> counts \<Rightarrow> counts \<Rightarrow> nat \<Rightarrow> counts \<Rightarrow> counts fres" where
  "join_term2 li dl dr on_right out =
     rust_fold dr out (\<lambda>(rrow, weight) acc.
       rust_bind (join_key rrow on_right) (\<lambda>key.
         Ok (fold (\<lambda>(lrow, lw) acc.
               let pre = lw - zget dl lrow
               in if pre \<noteq> 0 then accumulate acc (lrow @ rrow) (pre * weight) else acc)
             (index_rows li key) acc)))"

definition join_delta :: "nat \<Rightarrow> counts \<Rightarrow> counts \<Rightarrow> nat \<Rightarrow> nat \<Rightarrow> prop_state \<Rightarrow> counts fres" where
  "join_delta i dl dr on_left on_right s =
     (case vec_get (pr_nodes s) i of
        Some (NJoin _ _ _ _ _ li ri) \<Rightarrow>
          rust_bind (join_term1 ri dl on_left []) (join_term2 li dl dr on_right)
      | _ \<Rightarrow> Panic)"

text \<open>Per-group count and sum changes of an aggregate's input delta.\<close>

definition group_deltas :: "nat list \<Rightarrow> nat option \<Rightarrow> counts \<Rightarrow> (counts \<times> counts) fres" where
  "group_deltas group_by sm incoming =
     rust_fold incoming ([], []) (\<lambda>(row, weight) (cs, ss).
       rust_bind (pick_cols group_by row) (\<lambda>key.
         case sm of
           None \<Rightarrow> Ok (accumulate_btree cs key weight, ss)
         | Some col \<Rightarrow> rust_bind (vec_index row col) (\<lambda>cell.
             Ok (accumulate_btree cs key weight, accumulate_btree ss key (weight * cell)))))"

definition group_keys :: "counts \<Rightarrow> counts \<Rightarrow> row list" where
  "group_keys cs ss = map fst (fold (\<lambda>k m. bt_insert row_key k () m) (map fst cs @ map fst ss) [])"

definition update_group ::
  "nat \<Rightarrow> nat \<Rightarrow> bool \<Rightarrow> nat option \<Rightarrow> counts \<Rightarrow> counts \<Rightarrow> row \<Rightarrow> counts \<Rightarrow> (prop_state, counts) st" where
  "update_group p i cnt sm cs ss key out s =
     (case vec_get (pr_nodes s) i of
        Some (NAggregate input group_by cnt' sm' groups) \<Rightarrow>
          (let previous = map_of groups key;
               old = (case previous of None \<Rightarrow> \<lparr>g_count = 0, g_sum = 0\<rparr> | Some g \<Rightarrow> g);
               new = \<lparr>g_count = g_count old + zget cs key, g_sum = g_sum old + zget ss key\<rparr>
           in if sint (g_count new) < 0 then (Err (ferr Maintain (Internal (GroupNegative key))), s)
              else if previous = Some new then (Ok out, s)
              else
                (let groups' = (if g_count new = 0 then AList.delete key groups else AList.update key new groups);
                     s' = pr_put i (NAggregate input group_by cnt' sm' groups') (pr_push (UGroup p i key previous) s);
                     was = (case previous of None \<Rightarrow> False | Some g \<Rightarrow> 0 < sint (g_count g));
                     row_of = group_row cnt sm key
                 in (Ok (if was then
                           (if 0 < sint (g_count new)
                            then accumulate (accumulate out (row_of old) (- 1)) (row_of new) 1
                            else accumulate out (row_of old) (- 1))
                         else (if 0 < sint (g_count new) then accumulate out (row_of new) 1 else out)), s')))
      | _ \<Rightarrow> (Panic, s))"

definition project_delta :: "nat list \<Rightarrow> counts \<Rightarrow> counts fres" where
  "project_delta columns incoming =
     rust_fold incoming [] (\<lambda>(row, weight) out.
       rust_bind (pick_cols columns row) (\<lambda>projected. Ok (accumulate out projected weight)))"

definition merge_delta :: "counts \<Rightarrow> counts \<Rightarrow> counts" where
  "merge_delta out delta = fold (\<lambda>(row, weight) t. accumulate t row weight) delta out"

text \<open>
  \<open>step\<close> of one node, with \<open>run\<close> of its children as an argument; \<open>run\<close> ties the knot. The fuel
  bounds the depth of the recursion: a cyclic arena overflows the stack, which is a panic here.
\<close>

definition step_node ::
  "net \<Rightarrow> nat \<Rightarrow> (nat \<Rightarrow> (prop_state, counts) st) \<Rightarrow> nat \<Rightarrow> (prop_state, counts) st" where
  "step_node deltas p run i =
     st_bind (st_get (\<lambda>s. vec_get (pr_nodes s) i)) (\<lambda>n.
     case n of
       None \<Rightarrow> st_lift Panic
     | Some (NScan r) \<Rightarrow> st_return (case map_of deltas r of None \<Rightarrow> [] | Some net \<Rightarrow> net)
     | Some (NUnion inputs _) \<Rightarrow>
         st_bind (st_fold inputs [] (\<lambda>child acc.
           st_bind (run child) (\<lambda>d. st_return (merge_delta acc d)))) (\<lambda>out.
         st_bind (apply_counts p i out) (\<lambda>_. st_return out))
     | Some (NJoin l r on_left on_right _ _ _) \<Rightarrow>
         st_bind (run l) (\<lambda>dl.
         st_bind (run r) (\<lambda>dr.
         st_bind (index_update p i True dl on_left) (\<lambda>_.
         st_bind (index_update p i False dr on_right) (\<lambda>_.
         st_bind (\<lambda>s. (join_delta i dl dr on_left on_right s, s)) (\<lambda>out.
         st_bind (apply_counts p i out) (\<lambda>_. st_return out))))))
     | Some (NAggregate input group_by cnt sm _) \<Rightarrow>
         st_bind (run input) (\<lambda>incoming.
         st_bind (st_lift (group_deltas group_by sm incoming)) (\<lambda>(cs, ss).
         st_fold (group_keys cs ss) [] (update_group p i cnt sm cs ss)))
     | Some (NProject input columns _) \<Rightarrow>
         st_bind (run input) (\<lambda>incoming.
         st_bind (st_lift (project_delta columns incoming)) (\<lambda>out.
         st_bind (apply_counts p i out) (\<lambda>_. st_return out))))"

fun run_node :: "net \<Rightarrow> nat \<Rightarrow> nat \<Rightarrow> nat \<Rightarrow> (prop_state, counts) st" where
  "run_node deltas p 0 i = st_lift Panic"
| "run_node deltas p (Suc fuel) i =
     st_bind (st_get (\<lambda>s. pr_memo s i)) (\<lambda>m.
     case m of
       Some delta \<Rightarrow> st_return delta
     | None \<Rightarrow>
         st_bind (step_node deltas p (run_node deltas p fuel) i) (\<lambda>delta.
         st_bind (st_modify (\<lambda>s. s\<lparr>pr_memo := (pr_memo s)(i \<mapsto> delta)\<rparr>)) (\<lambda>_. st_return delta)))"

subsection \<open>The frontier\<close>

definition scan_counts :: "relation \<Rightarrow> counts" where
  "scan_counts rel = map (\<lambda>(row, ids). (row, of_nat (length ids))) (rel_by_value rel)"

text \<open>Output changes from the state after the frontier and the delta at the output's root.\<close>

definition output_changes :: "relation list \<Rightarrow> node list \<Rightarrow> output_state \<Rightarrow> counts \<Rightarrow> (output_change list) fres" where
  "output_changes rels nodes os delta =
     (let changes =
        (if os_distinct os then
           rust_bind (vec_index nodes (os_root os)) (\<lambda>n.
             (case n of
                NScan r \<Rightarrow> rust_bind (vec_index rels r) (\<lambda>rel. Ok (distinct_transitions (scan_counts rel) delta))
              | _ \<Rightarrow> (case node_counts n of None \<Rightarrow> Panic | Some c \<Rightarrow> Ok (distinct_transitions c delta))))
         else Ok (map (\<lambda>(row, weight). \<lparr>oc_sign = (if 0 < sint weight then Plus else Minus), oc_row = row\<rparr>) delta))
      in rust_bind changes (\<lambda>cs. Ok (sort_by (\<lambda>a b. row_cmp (oc_row a) (oc_row b)) cs)))"

definition propagate :: "net \<Rightarrow> nat \<Rightarrow> program_state \<Rightarrow> (engine, output_delta list) st" where
  "propagate deltas p ps e =
     (let (r, s) = st_for (map os_root (ps_outputs ps))
            (\<lambda>root. st_bind (run_node deltas p (Suc (length (ps_nodes ps))) root) (\<lambda>_. st_return ()))
            \<lparr>pr_nodes = ps_nodes ps, pr_journal = en_journal e, pr_memo = Map.empty\<rparr>;
          e' = e\<lparr>en_programs := (en_programs e)[p := Some (ps\<lparr>ps_nodes := pr_nodes s\<rparr>)],
                 en_journal := pr_journal s\<rparr>
      in case r of Err er \<Rightarrow> (Err er, e') | Panic \<Rightarrow> (Panic, e')
         | Ok _ \<Rightarrow>
             (case map_rust (\<lambda>os.
                case pr_memo s (os_root os) of None \<Rightarrow> Panic
                | Some delta \<Rightarrow>
                    rust_bind (output_changes (en_relations e) (pr_nodes s) os delta)
                      (\<lambda>cs. Ok \<lparr>od_output = os_name os, od_changes = cs\<rparr>)) (ps_outputs ps) of
                Err er \<Rightarrow> (Err er, e') | Panic \<Rightarrow> (Panic, e')
              | Ok ds \<Rightarrow> (Ok ds, e'\<lparr>en_frontiers_applied := en_frontiers_applied e + 1\<rparr>)))"

definition apply_frontier :: "nat \<Rightarrow> frontier \<Rightarrow> (engine, output_delta list) st" where
  "apply_frontier p fr e =
     (let checked =
        rust_bind (rust_fold (fr_changes fr) () (\<lambda>ch _. validate_change e ch)) (\<lambda>_.
        let consolidated = consolidate (fr_changes fr) in
        rust_bind (rust_fold consolidated () (\<lambda>rn _. check_net e rn)) (\<lambda>_.
        rust_bind (program_at e p) (\<lambda>ps. Ok (consolidated, ps))))
      in case checked of Err er \<Rightarrow> (Err er, e) | Panic \<Rightarrow> (Panic, e)
         | Ok (consolidated, ps) \<Rightarrow>
             (if \<not> list_ex (\<lambda>r. r \<in> set (map fst consolidated)) (ps_dependencies ps)
              then (Ok (map (\<lambda>os. \<lparr>od_output = os_name os, od_changes = []\<rparr>) (ps_outputs ps)),
                    e\<lparr>en_frontiers_applied := en_frontiers_applied e + 1\<rparr>)
              else st_bind (st_for consolidated (\<lambda>(r, net). write_source r net))
                     (\<lambda>_. propagate consolidated p ps) e))"

end
