(* ===== verification/Frontier_Tx.thy ===== *)
theory Frontier_Tx
  imports Frontier_Apply
begin

text \<open>
  Transaction scopes (\<open>3_tx.rs\<close>): \<open>unwind\<close> replays the undo journal in reverse to a mark; a scope is a
  mark on the mark stack. A \<open>Transaction\<close> or \<open>Savepoint\<close> value is the exclusive borrow of the engine,
  so its operations are functions of the engine; dropping an unsettled scope is \<open>scope_drop\<close>.
\<close>

subsection \<open>Undoing one mutation\<close>

definition undo_nodes :: "nat \<Rightarrow> (node \<Rightarrow> node fres) \<Rightarrow> nat \<Rightarrow> engine \<Rightarrow> engine fres" where
  "undo_nodes i f p e =
     (case vec_get (en_programs e) p of
        Some (Some ps) \<Rightarrow>
          rust_bind (vec_index (ps_nodes ps) i) (\<lambda>n.
          rust_bind (f n) (\<lambda>n'.
            Ok (e\<lparr>en_programs := (en_programs e)[p := Some (ps\<lparr>ps_nodes := (ps_nodes ps)[i := n']\<rparr>)]\<rparr>)))
      | _ \<Rightarrow> Panic)"

fun undo_node :: "undo \<Rightarrow> node \<Rightarrow> node fres" where
  "undo_node (UCounts _ _ row previous) n =
     (case node_counts n of None \<Rightarrow> Panic
      | Some c \<Rightarrow> Ok (set_counts
          (case previous of Some v \<Rightarrow> AList.update row v c | None \<Rightarrow> AList.delete row c) n))"
| "undo_node (UKeyIndex _ _ left key row previous) n =
     (case node_index left n of None \<Rightarrow> Panic
      | Some x \<Rightarrow> Ok (set_index left
          (case previous of
             Some v \<Rightarrow> AList.update key (AList.update row v (index_rows x key)) x
           | None \<Rightarrow>
               (case map_of x key of None \<Rightarrow> x
                | Some entry \<Rightarrow>
                    (if AList.delete row entry = [] then AList.delete key x
                     else AList.update key (AList.delete row entry) x))) n))"
| "undo_node (UGroup _ _ key previous) n =
     (case n of
        NAggregate input group_by cnt sm groups \<Rightarrow>
          Ok (NAggregate input group_by cnt sm
                (case previous of Some g \<Rightarrow> AList.update key g groups | None \<Rightarrow> AList.delete key groups))
      | _ \<Rightarrow> Panic)"
| "undo_node (UInsert _ _ _) n = Panic"
| "undo_node (URemove _ _ _) n = Panic"

definition undo_insert :: "nat \<Rightarrow> bool \<Rightarrow> relation \<Rightarrow> relation fres" where
  "undo_insert slot recycled rel =
     (case vec_get (rel_rows rel) slot of
        Some (Some row) \<Rightarrow>
          (case map_of (rel_by_value rel) row of
             None \<Rightarrow> Panic
           | Some ids \<Rightarrow>
               if ids = [] then Panic
               else
                 (let rows = (rel_rows rel)[slot := None]
                  in Ok (rel\<lparr>rel_rows := (if recycled then rows else butlast rows),
                           rel_free := (if recycled then rel_free rel @ [slot] else rel_free rel),
                           rel_by_value := (if butlast ids = [] then AList.delete row (rel_by_value rel)
                                            else AList.update row (butlast ids) (rel_by_value rel))\<rparr>)))
      | _ \<Rightarrow> Panic)"

definition undo_remove :: "nat \<Rightarrow> row \<Rightarrow> relation \<Rightarrow> relation fres" where
  "undo_remove slot row rel =
     (if rel_free rel = [] \<or> slot \<ge> length (rel_rows rel) then Panic
      else Ok (rel\<lparr>rel_free := butlast (rel_free rel), rel_rows := (rel_rows rel)[slot := Some row],
             rel_by_value := AList.update row
               ((case map_of (rel_by_value rel) row of None \<Rightarrow> [] | Some ids \<Rightarrow> ids) @ [slot])
               (rel_by_value rel)\<rparr>))"

fun undo_one :: "undo \<Rightarrow> engine \<Rightarrow> engine fres" where
  "undo_one (UInsert r slot recycled) e =
     (case vec_get (en_relations e) r of None \<Rightarrow> Panic
      | Some rel \<Rightarrow> rust_bind (undo_insert slot recycled rel) (\<lambda>rel'. Ok (put_relation r rel' e)))"
| "undo_one (URemove r slot row) e =
     (case vec_get (en_relations e) r of None \<Rightarrow> Panic
      | Some rel \<Rightarrow> rust_bind (undo_remove slot row rel) (\<lambda>rel'. Ok (put_relation r rel' e)))"
| "undo_one (UCounts p i row previous) e = undo_nodes i (undo_node (UCounts p i row previous)) p e"
| "undo_one (UKeyIndex p i left key row previous) e =
     undo_nodes i (undo_node (UKeyIndex p i left key row previous)) p e"
| "undo_one (UGroup p i key previous) e = undo_nodes i (undo_node (UGroup p i key previous)) p e"

text \<open>
  \<open>while journal.len() > mark\<close>: each round pops the last entry and undoes it, so the loop runs
  \<open>length journal - mark\<close> times.
\<close>

fun unwind_rounds :: "nat \<Rightarrow> engine \<Rightarrow> engine fres" where
  "unwind_rounds 0 e = Ok e"
| "unwind_rounds (Suc n) e =
     (if en_journal e = [] then Panic
      else rust_bind (undo_one (last (en_journal e)) (e\<lparr>en_journal := butlast (en_journal e)\<rparr>)) (unwind_rounds n))"

definition unwind :: "nat \<Rightarrow> engine \<Rightarrow> engine fres" where
  "unwind mark e =
     rust_bind (unwind_rounds (length (en_journal e) - mark) e)
       (\<lambda>e'. Ok (e'\<lparr>en_journal := take mark (en_journal e')\<rparr>))"

subsection \<open>Scopes\<close>

definition scope_open :: "engine \<Rightarrow> engine" where
  "scope_open e = e\<lparr>en_marks := en_marks e @ [length (en_journal e)]\<rparr>"

definition pop_mark :: "engine \<Rightarrow> (nat \<times> engine) fres" where
  "pop_mark e = (if en_marks e = [] then Panic
     else Ok (last (en_marks e), e\<lparr>en_marks := butlast (en_marks e)\<rparr>))"

text \<open>\<open>commit\<close> of a transaction and \<open>release\<close> of a savepoint pop the mark and keep the work.\<close>

definition scope_commit :: "engine \<Rightarrow> engine fres" where
  "scope_commit e = rust_bind (pop_mark e) (\<lambda>(_, e'). Ok e')"

text \<open>\<open>rollback\<close>, \<open>rollback_to\<close> and the drop of an unsettled scope unwind to it.\<close>

definition scope_rollback :: "engine \<Rightarrow> engine fres" where
  "scope_rollback e = rust_bind (pop_mark e) (\<lambda>(mark, e'). unwind mark e')"

definition scope_drop :: "bool \<Rightarrow> engine \<Rightarrow> engine fres" where
  "scope_drop settled e = (if settled then Ok e else scope_rollback e)"

text \<open>
  One frontier inside any scope, and the autocommit \<open>apply\<close> of \<open>FrontierEngine\<close>: its own mark,
  unwound alone on error. Both return the frontier's result and leave the engine as \<open>unwind\<close> does.
\<close>

definition apply_scoped :: "nat \<Rightarrow> frontier \<Rightarrow> engine \<Rightarrow> (output_delta list fres \<times> engine) fres" where
  "apply_scoped p fr e =
     (case apply_frontier p fr (scope_open e) of
        (result, e1) \<Rightarrow>
          rust_bind (pop_mark e1) (\<lambda>(mark, e2).
            case result of
              Err er \<Rightarrow> rust_bind (unwind mark e2) (\<lambda>e3. Ok (Err er, e3))
            | Panic \<Rightarrow> Panic
            | Ok ds \<Rightarrow> Ok (Ok ds, e2)))"

definition engine_apply :: "nat \<Rightarrow> frontier \<Rightarrow> engine \<Rightarrow> (output_delta list fres \<times> engine) fres" where
  "engine_apply p fr e =
     (let e0 = e\<lparr>en_marks := en_marks e @ [length (en_journal e)]\<rparr>
      in case apply_frontier p fr e0 of
        (Err er, e1) \<Rightarrow> rust_bind (pop_mark e1) (\<lambda>(mark, e2). rust_bind (unwind mark e2) (\<lambda>e3. Ok (Err er, e3)))
      | (Ok ds, e1) \<Rightarrow> rust_bind (pop_mark e1) (\<lambda>(_, e2). Ok (Ok ds, e2))
      | (Panic, _) \<Rightarrow> Panic)"

end
