(* ===== verification/Zset.thy ===== *)
theory Zset
  imports Containers
begin

text \<open>
  Z-sets as functions of finite support into a ring, and the integral \<open>zint z f\<close> of a function
  against a Z-set. Every relational operator is such an integral, so its linearity (and a join's
  bilinearity) is the linearity of \<open>zint\<close>; a weighted association list integrates by a sum over
  its entries.
\<close>

definition zfin :: "('a \<Rightarrow> 'b::zero) \<Rightarrow> bool" where
  "zfin z = finite {x. z x \<noteq> 0}"

definition zint :: "('a \<Rightarrow> 'b::comm_ring_1) \<Rightarrow> ('a \<Rightarrow> 'b) \<Rightarrow> 'b" where
  "zint z f = (\<Sum>x | z x \<noteq> 0. z x * f x)"

lemma zfin_zget [simp]: "zfin (zget m)"
  by (simp add: zfin_def)

lemma zfin_zero [simp]: "zfin (\<lambda>_. 0)"
  by (simp add: zfin_def)

lemma zfin_add: "zfin a \<Longrightarrow> zfin b \<Longrightarrow> zfin (\<lambda>x. a x + b x :: 'b::comm_ring_1)"
  unfolding zfin_def
  by (rule finite_subset [of _ "{x. a x \<noteq> 0} \<union> {x. b x \<noteq> 0}"]) auto

lemma zfin_diff: "zfin a \<Longrightarrow> zfin b \<Longrightarrow> zfin (\<lambda>x. a x - b x :: 'b::comm_ring_1)"
  unfolding zfin_def
  by (rule finite_subset [of _ "{x. a x \<noteq> 0} \<union> {x. b x \<noteq> 0}"]) auto

lemma zfin_sum_list:
  "(\<And>p. p \<in> set ps \<Longrightarrow> zfin (f p)) \<Longrightarrow> zfin (\<lambda>x. \<Sum>p\<leftarrow>ps. f p x :: 'b::comm_ring_1)"
  by (induction ps) (auto intro: zfin_add)

lemma zint_superset: "finite S \<Longrightarrow> (\<And>x. z x \<noteq> 0 \<Longrightarrow> x \<in> S) \<Longrightarrow> zint z f = (\<Sum>x\<in>S. z x * f x)"
  unfolding zint_def by (rule sum.mono_neutral_left) auto

lemma zint_add: "zfin a \<Longrightarrow> zfin b \<Longrightarrow> zint (\<lambda>x. a x + b x) f = zint a f + zint b f"
proof -
  assume ab: "zfin a" "zfin b"
  let ?S = "{x. a x \<noteq> 0} \<union> {x. b x \<noteq> 0}"
  have "finite ?S" using ab by (simp add: zfin_def)
  then have "zint (\<lambda>x. a x + b x) f = (\<Sum>x\<in>?S. (a x + b x) * f x)"
    "zint a f = (\<Sum>x\<in>?S. a x * f x)" "zint b f = (\<Sum>x\<in>?S. b x * f x)"
    by (auto intro!: zint_superset)
  then show ?thesis by (simp add: sum.distrib algebra_simps)
qed

lemma zint_minus: "zint (\<lambda>x. - a x) f = - zint a f"
  by (simp add: zint_def sum_negf)

lemma zint_diff: "zfin a \<Longrightarrow> zfin b \<Longrightarrow> zint (\<lambda>x. a x - b x) f = zint a f - zint b f"
proof -
  assume ab: "zfin a" "zfin b"
  then have "zfin (\<lambda>x. - b x)" by (simp add: zfin_def)
  from zint_add [OF ab(1) this, of f] show ?thesis by (simp add: zint_minus)
qed

lemma zint_zero_left [simp]: "zint (\<lambda>_. 0) f = 0"
  by (simp add: zint_def)

lemma zint_zero_right [simp]: "zint z (\<lambda>_. 0) = 0"
  by (simp add: zint_def)

lemma zint_add_right: "zint z (\<lambda>x. f x + g x) = zint z f + zint z g"
  by (simp add: zint_def algebra_simps sum.distrib)

lemma zint_diff_right: "zint z (\<lambda>x. f x - g x) = zint z f - zint z g"
  by (simp add: zint_def algebra_simps sum_subtractf)

lemma zint_cmul_right: "zint z (\<lambda>x. c * f x) = c * zint z f"
  by (simp add: zint_def sum_distrib_left algebra_simps)

lemma zint_cong: "(\<And>x. z x \<noteq> 0 \<Longrightarrow> f x = g x) \<Longrightarrow> zint z f = zint z g"
  by (simp add: zint_def)

lemma zint_point: "zfin z \<Longrightarrow> zint z (\<lambda>x. if x = a then c else 0) = z a * c"
proof -
  assume "zfin z"
  then have "finite (insert a {x. z x \<noteq> 0})" by (simp add: zfin_def)
  then have "zint z (\<lambda>x. if x = a then c else 0) =
      (\<Sum>x\<in>insert a {x. z x \<noteq> 0}. z x * (if x = a then c else 0))"
    by (rule zint_superset) auto
  also have "\<dots> = (\<Sum>x\<in>insert a {x. z x \<noteq> 0}. if x = a then z x * c else 0)"
    by (rule sum.cong) auto
  also have "\<dots> = z a * c"
    using \<open>finite (insert a _)\<close> by (simp add: sum.delta)
  finally show ?thesis .
qed

lemma zint_nonzero_ex: "zint z f \<noteq> 0 \<Longrightarrow> \<exists>x. z x \<noteq> 0 \<and> f x \<noteq> 0"
  unfolding zint_def by (metis (mono_tags, lifting) mem_Collect_eq mult_zero_right sum.neutral)

text \<open>An association list as a Z-set.\<close>

lemma zint_zget:
  assumes "distinct (map fst m)"
  shows "zint (zget m) f = (\<Sum>(k, w)\<leftarrow>m. w * f k)"
proof -
  have "zint (zget m) f = (\<Sum>k\<in>fst ` set m. zget m k * f k)"
    by (rule zint_superset) (auto dest!: zget_nonzero_mem simp: image_iff, force)
  also have "\<dots> = (\<Sum>k\<leftarrow>map fst m. zget m k * f k)"
    using sum_list_distinct_conv_sum_set [OF assms, of "\<lambda>k. zget m k * f k"] by (simp only: set_map)
  also have "\<dots> = (\<Sum>x\<leftarrow>m. zget m (fst x) * f (fst x))"
    by (simp add: comp_def)
  also have "\<dots> = (\<Sum>(k, w)\<leftarrow>m. w * f k)"
    using assms by (intro arg_cong [where f = sum_list] map_cong) (auto simp: zget_mem)
  finally show ?thesis .
qed

lemma sum_list_if_zint:
  "distinct (map fst m) \<Longrightarrow> (\<Sum>(k, w)\<leftarrow>m. if P k then w * c k else 0) = zint (zget m) (\<lambda>k. if P k then c k else 0)"
  unfolding zint_zget by (intro arg_cong [where f = sum_list] map_cong) auto

lemma zfin_image_zint: "zfin z \<Longrightarrow> zfin (\<lambda>y. zint z (\<lambda>x. if g x = y then c x else 0))"
  unfolding zfin_def
  by (rule finite_subset [of _ "g ` {x. z x \<noteq> 0}"])
    (auto dest!: zint_nonzero_ex split: if_splits)

end
