(* ===== verification/Frontier_Sem.thy ===== *)
theory Frontier_Sem
  imports Frontier_Tx Zset
begin

text \<open>
  What a plan means: the Z-set it denotes over the current source rows, computed from scratch. A
  maintained arrangement is right when it holds this Z-set; a delta is right when it is the
  difference of the Z-sets after and before the frontier. Arities and column checks are those of
  \<open>install\<close>, over the relations' arities alone.
\<close>

subsection \<open>Denotation\<close>

definition cols_of :: "nat list \<Rightarrow> row \<Rightarrow> row" where
  "cols_of cs r = map ((!) r) cs"

definition zproject :: "nat list \<Rightarrow> (row \<Rightarrow> i64) \<Rightarrow> row \<Rightarrow> i64" where
  "zproject cs z row = zint z (\<lambda>x. if cols_of cs x = row then 1 else 0)"

definition zjoin :: "nat \<Rightarrow> nat \<Rightarrow> (row \<Rightarrow> i64) \<Rightarrow> (row \<Rightarrow> i64) \<Rightarrow> row \<Rightarrow> i64" where
  "zjoin a b zl zr row =
     zint zl (\<lambda>x. zint zr (\<lambda>y. if x ! a = y ! b \<and> x @ y = row then 1 else 0))"

definition zgroup_count :: "nat list \<Rightarrow> (row \<Rightarrow> i64) \<Rightarrow> row \<Rightarrow> i64" where
  "zgroup_count gb z key = zint z (\<lambda>x. if cols_of gb x = key then 1 else 0)"

definition zgroup_sum :: "nat list \<Rightarrow> nat option \<Rightarrow> (row \<Rightarrow> i64) \<Rightarrow> row \<Rightarrow> i64" where
  "zgroup_sum gb sm z key =
     (case sm of None \<Rightarrow> 0 | Some c \<Rightarrow> zint z (\<lambda>x. if cols_of gb x = key then x ! c else 0))"

definition zgroup :: "nat list \<Rightarrow> nat option \<Rightarrow> (row \<Rightarrow> i64) \<Rightarrow> row \<Rightarrow> group option" where
  "zgroup gb sm z key =
     (if zgroup_count gb z key = 0 then None
      else Some \<lparr>g_count = zgroup_count gb z key, g_sum = zgroup_sum gb sm z key\<rparr>)"

text \<open>One output row per live group.\<close>

definition zaggregate :: "nat list \<Rightarrow> bool \<Rightarrow> nat option \<Rightarrow> (row \<Rightarrow> i64) \<Rightarrow> row \<Rightarrow> i64" where
  "zaggregate gb cnt sm z row =
     (case zgroup gb sm z (take (length gb) row) of
        None \<Rightarrow> 0
      | Some g \<Rightarrow> if row = group_row cnt sm (take (length gb) row) g then 1 else 0)"

fun plan_sem :: "(nat \<Rightarrow> row \<Rightarrow> i64) \<Rightarrow> plan_node \<Rightarrow> row \<Rightarrow> i64" where
  "plan_sem src (PScan r) = src r"
| "plan_sem src (PUnion ps) = (\<lambda>row. \<Sum>p\<leftarrow>ps. plan_sem src p row)"
| "plan_sem src (PJoin l r a b) = zjoin a b (plan_sem src l) (plan_sem src r)"
| "plan_sem src (PAggregate p gb cnt sm) = zaggregate gb cnt sm (plan_sem src p)"
| "plan_sem src (PProject p cs) = zproject cs (plan_sem src p)"
| "plan_sem src (PDifference _ _) = (\<lambda>_. 0)"

text \<open>The Z-set of a relation's live rows.\<close>

definition source_sem :: "relation list \<Rightarrow> nat \<Rightarrow> row \<Rightarrow> i64" where
  "source_sem rels r row = (case vec_get rels r of None \<Rightarrow> 0 | Some rel \<Rightarrow> present rel row)"

subsection \<open>Arities and checked columns\<close>

fun plan_arity :: "nat list \<Rightarrow> plan_node \<Rightarrow> nat option"
  and plans_arity :: "nat list \<Rightarrow> nat option \<Rightarrow> plan_node list \<Rightarrow> nat option option" where
  "plan_arity ar (PScan r) = vec_get ar r"
| "plan_arity ar (PUnion ps) = map_option (\<lambda>a. case a of None \<Rightarrow> 0 | Some n \<Rightarrow> n) (plans_arity ar None ps)"
| "plan_arity ar (PJoin l r _ _) =
     (case plan_arity ar l of None \<Rightarrow> None | Some a \<Rightarrow> map_option ((+) a) (plan_arity ar r))"
| "plan_arity ar (PAggregate _ gb cnt sm) =
     Some (length gb + (if cnt then 1 else 0) + (if sm = None then 0 else 1))"
| "plan_arity ar (PProject _ cs) = Some (length cs)"
| "plan_arity ar (PDifference _ _) = None"
| "plans_arity ar a [] = Some a"
| "plans_arity ar a (p # ps) =
     (case plan_arity ar p of None \<Rightarrow> None
      | Some c \<Rightarrow> (case a of None \<Rightarrow> plans_arity ar (Some c) ps
                  | Some s \<Rightarrow> if s = c then plans_arity ar (Some s) ps else None))"

fun plan_ok :: "nat list \<Rightarrow> plan_node \<Rightarrow> bool" where
  "plan_ok ar (PScan r) = (r < length ar)"
| "plan_ok ar (PUnion ps) = list_all (plan_ok ar) ps"
| "plan_ok ar (PJoin l r a b) =
     (plan_ok ar l \<and> plan_ok ar r \<and>
      (\<exists>n. plan_arity ar l = Some n \<and> a < n) \<and> (\<exists>n. plan_arity ar r = Some n \<and> b < n))"
| "plan_ok ar (PAggregate p gb cnt sm) =
     (plan_ok ar p \<and> gb \<noteq> [] \<and>
      (\<exists>n. plan_arity ar p = Some n \<and> (\<forall>c \<in> set gb \<union> set_option sm. c < n)))"
| "plan_ok ar (PProject p cs) =
     (plan_ok ar p \<and> (\<exists>n. plan_arity ar p = Some n \<and> (\<forall>c \<in> set cs. c < n)))"
| "plan_ok ar (PDifference _ _) = False"

definition arities :: "engine \<Rightarrow> nat list" where
  "arities e = map rel_arity (en_relations e)"

lemma relation_at_Ok_iff [simp]:
  "relation_at e r st = Ok rel \<longleftrightarrow> r < length (en_relations e) \<and> en_relations e ! r = rel"
  by (auto simp: relation_at_def vec_get_def)

lemma relation_at_not_Panic [simp]: "relation_at e r st \<noteq> Panic"
  by (auto simp: relation_at_def vec_get_def)

lemma node_arity_plan_arity:
  "node_arity e p = Ok n \<Longrightarrow> plan_arity (arities e) p = Some n"
  "union_arity e a ps = Ok b \<Longrightarrow> plans_arity (arities e) a ps = Some b"
  by (induction p and a ps arbitrary: n and b rule: node_arity_union_arity.induct)
    (auto simp: rust_simps arities_def split: option.splits if_splits)

lemma node_arity_not_Panic:
  "node_arity e p \<noteq> Panic" "union_arity e a ps \<noteq> Panic"
  by (induction p and a ps rule: node_arity_union_arity.induct)
    (auto simp: rust_simps split: option.splits)

subsection \<open>Finite support and row lengths\<close>

lemma zfin_zproject: "zfin z \<Longrightarrow> zfin (zproject cs z)"
  unfolding zproject_def [abs_def] by (rule zfin_image_zint)

lemma zjoin_nonzeroD: "zjoin a b zl zr row \<noteq> 0 \<Longrightarrow> \<exists>x y. zl x \<noteq> 0 \<and> zr y \<noteq> 0 \<and> row = x @ y \<and> x ! a = y ! b"
  unfolding zjoin_def by (auto dest!: zint_nonzero_ex split: if_splits) blast

lemma zfin_zjoin: "zfin zl \<Longrightarrow> zfin zr \<Longrightarrow> zfin (zjoin a b zl zr)"
  unfolding zfin_def
  by (rule finite_subset [of _ "(\<lambda>(x, y). x @ y) ` ({x. zl x \<noteq> 0} \<times> {y. zr y \<noteq> 0})"])
    (auto dest!: zjoin_nonzeroD)

lemma zgroup_count_nonzeroD: "zgroup_count gb z key \<noteq> 0 \<Longrightarrow> \<exists>x. z x \<noteq> 0 \<and> cols_of gb x = key"
  unfolding zgroup_count_def by (auto dest!: zint_nonzero_ex split: if_splits)

lemma zaggregate_nonzeroD:
  "zaggregate gb cnt sm z row \<noteq> 0 \<Longrightarrow>
     \<exists>key g. zgroup gb sm z key = Some g \<and> row = group_row cnt sm key g \<and> length key = length gb"
proof -
  assume nz: "zaggregate gb cnt sm z row \<noteq> 0"
  let ?k = "take (length gb) row"
  from nz obtain g where g: "zgroup gb sm z ?k = Some g" "row = group_row cnt sm ?k g"
    by (auto simp: zaggregate_def split: option.splits if_splits)
  then have "zgroup_count gb z ?k \<noteq> 0" by (simp add: zgroup_def split: if_splits)
  then have "length ?k = length gb" by (metis zgroup_count_nonzeroD length_map cols_of_def)
  with g show ?thesis by blast
qed

lemma zfin_zaggregate: "zfin z \<Longrightarrow> zfin (zaggregate gb cnt sm z)"
  unfolding zfin_def
proof (rule finite_subset)
  assume fin: "finite {x. z x \<noteq> 0}"
  show "finite ((\<lambda>x. group_row cnt sm (cols_of gb x) (the (zgroup gb sm z (cols_of gb x)))) ` {x. z x \<noteq> 0})"
    using fin by simp
  show "{row. zaggregate gb cnt sm z row \<noteq> 0} \<subseteq>
    (\<lambda>x. group_row cnt sm (cols_of gb x) (the (zgroup gb sm z (cols_of gb x)))) ` {x. z x \<noteq> 0}"
  proof
    fix row assume "row \<in> {row. zaggregate gb cnt sm z row \<noteq> 0}"
    then obtain key g where k: "zgroup gb sm z key = Some g" "row = group_row cnt sm key g"
      by (auto dest!: zaggregate_nonzeroD)
    then have "zgroup_count gb z key \<noteq> 0" by (simp add: zgroup_def split: if_splits)
    then obtain x where "z x \<noteq> 0" "cols_of gb x = key" by (auto dest: zgroup_count_nonzeroD)
    with k show "row \<in> (\<lambda>x. group_row cnt sm (cols_of gb x) (the (zgroup gb sm z (cols_of gb x)))) ` {x. z x \<noteq> 0}"
      by (intro image_eqI [of _ _ x]) auto
  qed
qed

lemma zfin_plan_sem: "(\<And>r. zfin (src r)) \<Longrightarrow> zfin (plan_sem src p)"
  by (induction p)
    (auto intro: zfin_sum_list zfin_zjoin zfin_zaggregate zfin_zproject)

lemma length_cols_of [simp]: "length (cols_of cs x) = length cs"
  by (simp add: cols_of_def)

lemma length_group_row:
  "length (group_row cnt sm key g) = length key + (if cnt then 1 else 0) + (if sm = None then 0 else 1)"
  by (auto simp: group_row_def)

lemma plans_arity_all:
  "plans_arity ar a ps = Some b \<Longrightarrow> p \<in> set ps \<Longrightarrow> \<exists>n. plan_arity ar p = Some n \<and> b = Some n"
  "plans_arity ar (Some m) ps = Some b \<Longrightarrow> b = Some m"
proof -
  show snd: "plans_arity ar (Some m) ps = Some b \<Longrightarrow> b = Some m" for m ps
    by (induction ps) (auto split: option.splits if_splits)
  show "plans_arity ar a ps = Some b \<Longrightarrow> p \<in> set ps \<Longrightarrow> \<exists>n. plan_arity ar p = Some n \<and> b = Some n"
  proof (induction ps arbitrary: a)
    case Nil
    then show ?case by simp
  next
    case (Cons q qs)
    from Cons.prems(1) obtain c where c: "plan_arity ar q = Some c" "plans_arity ar (Some c) qs = Some b"
      by (auto split: option.splits if_splits)
    then have "b = Some c" by (auto dest: snd)
    with c Cons show ?case by auto
  qed
qed

lemma sum_list_nonzero_ex: "(\<Sum>p\<leftarrow>ps. f p) \<noteq> (0 :: 'a::comm_monoid_add) \<Longrightarrow> \<exists>p \<in> set ps. f p \<noteq> 0"
  by (induction ps) auto

lemma plan_sem_length:
  assumes "\<And>r row. src r row \<noteq> 0 \<Longrightarrow> r < length ar \<Longrightarrow> length row = ar ! r"
  shows "plan_arity ar p = Some n \<Longrightarrow> plan_sem src p row \<noteq> 0 \<Longrightarrow> length row = n"
proof (induction p arbitrary: n row)
  case (PScan r)
  then show ?case using assms by auto
next
  case (PUnion ps)
  from PUnion.prems(2) obtain p where p: "p \<in> set ps" "plan_sem src p row \<noteq> 0"
    by (auto dest: sum_list_nonzero_ex)
  from PUnion.prems(1) p(1) have "plan_arity ar p = Some n"
    by (auto dest: plans_arity_all)
  with PUnion.IH p show ?case by blast
next
  case (PJoin l r a b)
  then show ?case by (fastforce dest!: zjoin_nonzeroD split: option.splits)
next
  case (PAggregate p gb cnt sm)
  then show ?case by (auto dest!: zaggregate_nonzeroD simp: length_group_row)
next
  case (PProject p cs)
  then show ?case by (auto simp: zproject_def dest!: zint_nonzero_ex split: if_splits)
qed auto

end
