(* ===== verification/Frontier_Undo.thy ===== *)
theory Frontier_Undo
  imports Frontier_Sem
begin

text \<open>
  The undo journal is exact. States are compared up to the representation of hash maps
  (\<open>engine_eq\<close>); every operation of a frontier relates the state before and after by
  \<open>logged\<close>: the journal only grows, and undoing what it gained leads back, from any state equal to the
  one after. \<open>logged\<close> is reflexive and transitive, so it passes through loops, binds and the
  recursion of \<open>run_node\<close>; the contract for that is the locale \<open>st_preorder\<close>.
\<close>

subsection \<open>Operations that move along a preorder of states\<close>

locale st_preorder =
  fixes R :: "'s \<Rightarrow> 's \<Rightarrow> bool"
  assumes R_refl: "R s s"
    and R_trans: "R s t \<Longrightarrow> R t u \<Longrightarrow> R s u"
begin

lemma bind: "(\<And>s. R s (snd (m s))) \<Longrightarrow> (\<And>a s. R s (snd (f a s))) \<Longrightarrow> R s (snd (st_bind m f s))"
proof -
  assume m: "\<And>s. R s (snd (m s))" and f: "\<And>a s. R s (snd (f a s))"
  obtain r t where mt: "m s = (r, t)" by (cases "m s")
  with m [of s] have "R s t" by simp
  then show ?thesis
    using f R_trans by (cases r) (auto simp: st_bind_def mt)
qed

lemma loop: "(\<And>x s. x \<in> set xs \<Longrightarrow> R s (snd (f x s))) \<Longrightarrow> R s (snd (st_for xs f s))"
  by (induction xs arbitrary: s) (auto simp: st_return_def R_refl intro!: bind)

lemma floop: "(\<And>x b s. x \<in> set xs \<Longrightarrow> R s (snd (f x b s))) \<Longrightarrow> R s (snd (st_fold xs b f s))"
  by (induction xs arbitrary: b s) (auto simp: st_return_def R_refl intro!: bind)

lemma pure: "R s (snd (st_return a s))" "R s (snd (st_lift r s))" "R s (snd (st_get g s))"
  by (simp_all add: st_return_def st_lift_def st_get_def R_refl)

end

subsection \<open>Nodes up to hash-map representation\<close>

datatype anode =
    AScan nat
  | AUnion "nat list" "row \<rightharpoonup> i64"
  | AJoin nat nat nat nat "row \<rightharpoonup> i64" "row \<Rightarrow> row \<rightharpoonup> i64" "row \<Rightarrow> row \<rightharpoonup> i64"
  | AAggregate nat "nat list" bool "nat option" "row \<rightharpoonup> group"
  | AProject nat "nat list" "row \<rightharpoonup> i64"

definition kidx :: "key_index \<Rightarrow> row \<Rightarrow> row \<rightharpoonup> i64" where
  "kidx x key = map_of (index_rows x key)"

fun nabs :: "node \<Rightarrow> anode" where
  "nabs (NScan r) = AScan r"
| "nabs (NUnion is c) = AUnion is (map_of c)"
| "nabs (NJoin l r a b c li ri) = AJoin l r a b (map_of c) (kidx li) (kidx ri)"
| "nabs (NAggregate i gb cnt sm gs) = AAggregate i gb cnt sm (map_of gs)"
| "nabs (NProject i cs c) = AProject i cs (map_of c)"

definition index_inv :: "key_index \<Rightarrow> bool" where
  "index_inv x \<longleftrightarrow> hm_inv x \<and> (\<forall>en \<in> snd ` set x. hm_inv en)"

fun node_inv :: "node \<Rightarrow> bool" where
  "node_inv (NScan r) = True"
| "node_inv (NUnion is c) = hm_inv c"
| "node_inv (NJoin l r a b c li ri) = (hm_inv c \<and> index_inv li \<and> index_inv ri)"
| "node_inv (NAggregate i gb cnt sm gs) = hm_inv gs"
| "node_inv (NProject i cs c) = hm_inv c"

definition nodes_inv :: "node list \<Rightarrow> bool" where
  "nodes_inv ns \<longleftrightarrow> (\<forall>n \<in> set ns. node_inv n)"

definition nodes_eq :: "node list \<Rightarrow> node list \<Rightarrow> bool" where
  "nodes_eq ns ns' \<longleftrightarrow> map nabs ns = map nabs ns'"

lemma nodes_eq_refl [simp]: "nodes_eq ns ns"
  by (simp add: nodes_eq_def)

lemma nodes_eq_nth: "nodes_eq ns ns' \<Longrightarrow> i < length ns' \<Longrightarrow> i < length ns \<and> nabs (ns ! i) = nabs (ns' ! i)"
  unfolding nodes_eq_def by (metis length_map nth_map)

lemma nodes_eq_update:
  "nodes_eq ns ns' \<Longrightarrow> nabs n = nabs n' \<Longrightarrow> nodes_eq (ns[i := n]) (ns'[i := n'])"
  by (simp add: nodes_eq_def map_update)

lemma nodes_eq_undo:
  "nodes_eq ns (ns0[i := n']) \<Longrightarrow> i < length ns0 \<Longrightarrow> nabs m = nabs (ns0 ! i) \<Longrightarrow> nodes_eq (ns[i := m]) ns0"
  unfolding nodes_eq_def by (metis length_list_update length_map list_update_id list_update_overwrite map_update)

lemma nodes_inv_update: "nodes_inv ns \<Longrightarrow> node_inv n \<Longrightarrow> nodes_inv (ns[i := n])"
  unfolding nodes_inv_def using set_update_subset_insert by fastforce

lemma nodes_inv_nth: "nodes_inv ns \<Longrightarrow> i < length ns \<Longrightarrow> node_inv (ns ! i)"
  by (simp add: nodes_inv_def)

text \<open>Restoring one entry of a hash map.\<close>

definition hm_restore :: "'k \<Rightarrow> 'v option \<Rightarrow> ('k \<times> 'v) list \<Rightarrow> ('k \<times> 'v) list" where
  "hm_restore k previous m = (case previous of Some v \<Rightarrow> AList.update k v m | None \<Rightarrow> AList.delete k m)"

lemma map_of_update [simp]: "map_of (AList.update k v m) = (map_of m)(k \<mapsto> v)"
  by (simp add: update_conv')

lemma map_of_delete [simp]: "map_of (AList.delete k m) = (map_of m)(k := None)"
  by (simp add: delete_conv')

lemma map_of_hm_restore: "map_of (hm_restore k previous m) = (map_of m)(k := previous)"
  by (auto simp: hm_restore_def split: option.split)

lemma hm_inv_restore: "hm_inv m \<Longrightarrow> hm_inv (hm_restore k previous m)"
  by (auto simp: hm_restore_def split: option.split)

lemma index_rows_update: "index_rows (AList.update k en x) key = (if key = k then en else index_rows x key)"
  by (simp add: index_rows_def)

lemma index_rows_delete: "index_rows (AList.delete k x) key = (if key = k then [] else index_rows x key)"
  by (simp add: index_rows_def)

lemma index_inv_rows: "index_inv x \<Longrightarrow> hm_inv (index_rows x key)"
  by (force simp: index_inv_def index_rows_def dest: map_of_SomeD split: option.split)

lemma set_AList_update: "snd ` set (AList.update k v m) \<subseteq> insert v (snd ` set m)"
  by (induction m) auto

lemma index_inv_update: "index_inv x \<Longrightarrow> hm_inv en \<Longrightarrow> index_inv (AList.update k en x)"
proof -
  assume x: "index_inv x" and en: "hm_inv en"
  have "hm_inv b" if "b \<in> snd ` set (AList.update k en x)" for b
    using that set_AList_update [of k en x] x en unfolding index_inv_def by blast
  with x show ?thesis by (simp add: index_inv_def)
qed

lemma index_inv_delete: "index_inv x \<Longrightarrow> index_inv (AList.delete k x)"
proof -
  assume x: "index_inv x"
  have "set (AList.delete k x) \<subseteq> set x" by (auto simp: AList.delete_eq)
  with x show ?thesis unfolding index_inv_def by (auto intro: hm_inv_delete)
qed

definition index_restore :: "row \<Rightarrow> row \<Rightarrow> i64 option \<Rightarrow> key_index \<Rightarrow> key_index" where
  "index_restore key row previous x =
     (case previous of
        Some v \<Rightarrow> AList.update key (AList.update row v (index_rows x key)) x
      | None \<Rightarrow>
          (case map_of x key of None \<Rightarrow> x
           | Some entry \<Rightarrow>
               (if AList.delete row entry = [] then AList.delete key x
                else AList.update key (AList.delete row entry) x)))"

lemma kidx_restore: "kidx (index_restore key row previous x) = (kidx x)(key := (kidx x key)(row := previous))"
proof (cases previous)
  case None
  show ?thesis
  proof (cases "map_of x key")
    case (Some entry)
    have "AList.delete row entry = [] \<Longrightarrow> (map_of entry)(row := None) = Map.empty"
      by (metis map_of_delete map_of.simps(1))
    with None Some show ?thesis
      by (auto simp: index_restore_def kidx_def index_rows_update index_rows_delete index_rows_def fun_eq_iff)
  qed (use None in \<open>auto simp: index_restore_def kidx_def index_rows_def fun_eq_iff\<close>)
next
  case (Some v)
  then show ?thesis by (auto simp: index_restore_def kidx_def index_rows_update fun_eq_iff)
qed

lemma index_inv_restore: "index_inv x \<Longrightarrow> index_inv (index_restore key row previous x)"
  using index_inv_rows [of x key]
  by (auto simp: index_restore_def index_rows_def split: option.split
      intro!: index_inv_update index_inv_delete) (simp add: hm_inv_def)


subsection \<open>Undoing a list of node entries\<close>

lemma undo_node_eqs:
  "undo_node (UCounts p i row pv) n =
     (case node_counts n of None \<Rightarrow> Panic | Some c \<Rightarrow> Ok (set_counts (hm_restore row pv c) n))"
  "undo_node (UKeyIndex p i left key row pv) n =
     (case node_index left n of None \<Rightarrow> Panic | Some x \<Rightarrow> Ok (set_index left (index_restore key row pv x) n))"
  "undo_node (UGroup p i key g) (NAggregate j gb cnt sm groups) =
     Ok (NAggregate j gb cnt sm (hm_restore key g groups))"
  by (simp_all add: hm_restore_def index_restore_def split: option.split)

declare undo_node.simps [simp del]

fun undo_target :: "undo \<Rightarrow> (nat \<times> nat) option" where
  "undo_target (UCounts p i _ _) = Some (p, i)"
| "undo_target (UKeyIndex p i _ _ _ _) = Some (p, i)"
| "undo_target (UGroup p i _ _) = Some (p, i)"
| "undo_target _ = None"

definition undo_on :: "undo \<Rightarrow> node list \<Rightarrow> node list fres" where
  "undo_on u ns = (case undo_target u of None \<Rightarrow> Panic
     | Some (p, i) \<Rightarrow> rust_bind (vec_index ns i) (\<lambda>n. rust_bind (undo_node u n) (\<lambda>n'. Ok (ns[i := n']))))"

text \<open>Later entries are undone first.\<close>

fun undo_rev :: "undo list \<Rightarrow> node list \<Rightarrow> node list fres" where
  "undo_rev [] ns = Ok ns"
| "undo_rev (u # us) ns = rust_bind (undo_rev us ns) (undo_on u)"

lemma undo_rev_append: "undo_rev (us @ vs) ns = rust_bind (undo_rev vs ns) (undo_rev us)"
  by (induction us) (cases "undo_rev vs ns"; simp)+

text \<open>Undoing \<open>us\<close> leads from (anything equal to) \<open>ns'\<close> back to \<open>ns\<close>.\<close>

definition undoes :: "nat \<Rightarrow> undo list \<Rightarrow> node list \<Rightarrow> node list \<Rightarrow> bool" where
  "undoes p us ns' ns \<longleftrightarrow>
     (\<forall>u \<in> set us. \<exists>i. undo_target u = Some (p, i)) \<and>
     (\<forall>xs. nodes_inv xs \<longrightarrow> nodes_eq xs ns' \<longrightarrow>
        (\<exists>ys. undo_rev us xs = Ok ys \<and> nodes_inv ys \<and> nodes_eq ys ns))"

lemma undoes_Nil [simp]: "undoes p [] ns ns"
  by (simp add: undoes_def)

lemma undoes_append: "undoes p us b a \<Longrightarrow> undoes p vs c b \<Longrightarrow> undoes p (us @ vs) c a"
  unfolding undoes_def by (fastforce simp: undo_rev_append rust_simps)

lemma undoes_one:
  assumes "undo_target u = Some (p, i)" and "i < length ns"
    and "\<And>m. node_inv m \<Longrightarrow> nabs m = nabs n' \<Longrightarrow>
      \<exists>m'. undo_node u m = Ok m' \<and> node_inv m' \<and> nabs m' = nabs (ns ! i)"
  shows "undoes p [u] (ns[i := n']) ns"
  unfolding undoes_def
proof (intro conjI allI impI)
  show "\<forall>u \<in> set [u]. \<exists>i. undo_target u = Some (p, i)" using assms(1) by simp
next
  fix xs assume xs: "nodes_inv xs" "nodes_eq xs (ns[i := n'])"
  with assms(2) have i: "i < length xs" "nabs (xs ! i) = nabs n'"
    using nodes_eq_nth [OF xs(2), of i] by auto
  with xs(1) obtain m' where m': "undo_node u (xs ! i) = Ok m'" "node_inv m'" "nabs m' = nabs (ns ! i)"
    using assms(3) [of "xs ! i"] by (auto simp: nodes_inv_nth)
  have "undo_rev [u] xs = Ok (xs[i := m'])"
    using assms(1) i m' by (simp add: undo_on_def vec_index_def)
  with m' xs assms(2) show "\<exists>ys. undo_rev [u] xs = Ok ys \<and> nodes_inv ys \<and> nodes_eq ys ns"
    by (auto intro: nodes_inv_update nodes_eq_undo)
qed

definition logged :: "nat \<Rightarrow> prop_state \<Rightarrow> prop_state \<Rightarrow> bool" where
  "logged p s s' \<longleftrightarrow> (nodes_inv (pr_nodes s) \<longrightarrow>
     nodes_inv (pr_nodes s') \<and> length (pr_nodes s') = length (pr_nodes s) \<and>
     (\<exists>us. pr_journal s' = pr_journal s @ us \<and> undoes p us (pr_nodes s') (pr_nodes s)))"

interpretation lg: st_preorder "logged p"
proof
  show "logged p s s" for s
    unfolding logged_def by (metis append_Nil2 undoes_Nil)
  show "logged p s u" if "logged p s t" "logged p t u" for s t u
    using that unfolding logged_def by (metis append.assoc undoes_append)
qed

lemma logged_put:
  assumes "i < length (pr_nodes s)" and "undo_target u = Some (p, i)"
    and "node_inv (pr_nodes s ! i) \<Longrightarrow> node_inv n'"
    and "\<And>m. node_inv (pr_nodes s ! i) \<Longrightarrow> node_inv m \<Longrightarrow> nabs m = nabs n' \<Longrightarrow>
      \<exists>m'. undo_node u m = Ok m' \<and> node_inv m' \<and> nabs m' = nabs (pr_nodes s ! i)"
  shows "logged p s (pr_put i n' (pr_push u s))"
  unfolding logged_def
proof (intro impI conjI)
  assume inv: "nodes_inv (pr_nodes s)"
  with assms(1) have n: "node_inv (pr_nodes s ! i)" by (simp add: nodes_inv_nth)
  show "nodes_inv (pr_nodes (pr_put i n' (pr_push u s)))"
    using inv assms(3) [OF n] by (simp add: pr_put_def pr_push_def nodes_inv_update)
  have "undoes p [u] ((pr_nodes s)[i := n']) (pr_nodes s)"
    using assms(1,2) assms(4) [OF n] by (intro undoes_one) auto
  then show "\<exists>us. pr_journal (pr_put i n' (pr_push u s)) = pr_journal s @ us \<and>
      undoes p us (pr_nodes (pr_put i n' (pr_push u s))) (pr_nodes s)"
    by (auto simp: pr_put_def pr_push_def)
qed (simp add: pr_put_def pr_push_def)

text \<open>The three kinds of node entry.\<close>

lemma undo_counts_exact:
  assumes "node_counts n = Some c" and "map_of c' = (map_of c)(row := w)"
    and "node_inv m" and "nabs m = nabs (set_counts c' n)"
  shows "\<exists>m'. undo_node (UCounts p i row (map_of c row)) m = Ok m' \<and> node_inv m' \<and> nabs m' = nabs n"
  using assms by (cases n; cases m)
    (auto simp: undo_node_eqs map_of_hm_restore hm_inv_restore fun_upd_idem)

lemma undo_index_exact:
  assumes "node_index left n = Some x" and "kidx x' = (kidx x)(key := (kidx x key)(row := w))"
    and "node_inv m" and "nabs m = nabs (set_index left x' n)"
  shows "\<exists>m'. undo_node (UKeyIndex p i left key row (kidx x key row)) m = Ok m' \<and> node_inv m' \<and> nabs m' = nabs n"
  using assms by (cases n; cases m; cases left)
    (auto simp: undo_node_eqs kidx_restore index_inv_restore fun_upd_idem)

lemma undo_group_exact:
  assumes "map_of groups' = (map_of groups)(key := w)"
    and "node_inv m" and "nabs m = nabs (NAggregate j gb cnt sm groups')"
  shows "\<exists>m'. undo_node (UGroup p i key (map_of groups key)) m = Ok m' \<and> node_inv m' \<and>
    nabs m' = nabs (NAggregate j gb cnt sm groups)"
  using assms by (cases m) (auto simp: undo_node_eqs map_of_hm_restore hm_inv_restore fun_upd_idem)


subsection \<open>Every operation of the propagation is logged\<close>

lemma node_counts_inv: "node_inv n \<Longrightarrow> node_counts n = Some c \<Longrightarrow> hm_inv c"
  by (cases n) auto

lemma node_inv_set_counts: "node_inv n \<Longrightarrow> hm_inv c \<Longrightarrow> node_inv (set_counts c n)"
  by (cases n) auto

lemma node_index_inv: "node_inv n \<Longrightarrow> node_index left n = Some x \<Longrightarrow> index_inv x"
  by (cases n; cases left) auto

lemma node_inv_set_index: "node_inv n \<Longrightarrow> index_inv x \<Longrightarrow> node_inv (set_index left x n)"
  by (cases n; cases left) auto

lemma logged_apply_count: "logged p s (snd (apply_count p i rw s))"
proof -
  obtain row w where rw: "rw = (row, w)" by (cases rw)
  show ?thesis
  proof (cases "\<exists>c. i < length (pr_nodes s) \<and> node_counts (pr_nodes s ! i) = Some c")
    case True
    then obtain c where i: "i < length (pr_nodes s)" and c: "node_counts (pr_nodes s ! i) = Some c"
      by blast
    define nx where "nx = (case map_of c row of None \<Rightarrow> 0 | Some v \<Rightarrow> v) + w"
    define c' where "c' = (if nx = 0 then AList.delete row c else AList.update row nx c)"
    have c': "map_of c' = (map_of c)(row := (if nx = 0 then None else Some nx))"
      by (simp add: c'_def)
    have "snd (apply_count p i rw s) = (if sint nx < 0 then s
        else pr_put i (set_counts c' (pr_nodes s ! i)) (pr_push (UCounts p i row (map_of c row)) s))"
      using i c by (simp add: apply_count_def vec_get_def rw nx_def c'_def Let_def)
    moreover have "logged p s (pr_put i (set_counts c' (pr_nodes s ! i)) (pr_push (UCounts p i row (map_of c row)) s))"
      using i c c' by (intro logged_put)
        (auto simp: c'_def intro!: node_inv_set_counts undo_counts_exact dest: node_counts_inv)
    ultimately show ?thesis by (simp add: lg.R_refl)
  next
    case False
    then have "snd (apply_count p i rw s) = s"
      by (auto simp: apply_count_def vec_get_def split: option.split)
    then show ?thesis by (simp add: lg.R_refl)
  qed
qed

lemma logged_apply_counts: "logged p s (snd (apply_counts p i delta s))"
  unfolding apply_counts_def by (intro lg.loop logged_apply_count)

lemma logged_same_abs:
  "i < length (pr_nodes s) \<Longrightarrow> nabs n' = nabs (pr_nodes s ! i) \<Longrightarrow>
     (node_inv (pr_nodes s ! i) \<Longrightarrow> node_inv n') \<Longrightarrow> logged p s (pr_put i n' s)"
  unfolding logged_def
proof (intro impI conjI)
  assume a: "i < length (pr_nodes s)" "nabs n' = nabs (pr_nodes s ! i)"
    "node_inv (pr_nodes s ! i) \<Longrightarrow> node_inv n'" "nodes_inv (pr_nodes s)"
  then show "nodes_inv (pr_nodes (pr_put i n' s))"
    by (simp add: pr_put_def nodes_inv_update nodes_inv_nth)
  have "nodes_eq ((pr_nodes s)[i := n']) (pr_nodes s)"
    using a(1,2) by (simp add: nodes_eq_def map_update) (metis length_map list_update_id nth_map)
  then have "undoes p [] (pr_nodes (pr_put i n' s)) (pr_nodes s)"
    by (auto simp: undoes_def pr_put_def nodes_eq_def)
  then show "\<exists>us. pr_journal (pr_put i n' s) = pr_journal s @ us \<and>
      undoes p us (pr_nodes (pr_put i n' s)) (pr_nodes s)"
    by (auto simp: pr_put_def)
qed (simp add: pr_put_def)

lemma nabs_set_index_same: "node_index left n = Some x \<Longrightarrow> kidx x' = kidx x \<Longrightarrow> nabs (set_index left x' n) = nabs n"
  by (cases n; cases left) auto

lemma logged_index_update_one: "logged p s (snd (index_update_one p i left col rw s))"
proof -
  obtain row w where rw: "rw = (row, w)" by (cases rw)
  show ?thesis
  proof (cases "\<exists>key x. join_key row col = Ok key \<and> i < length (pr_nodes s) \<and> node_index left (pr_nodes s ! i) = Some x")
    case True
    then obtain key x where k: "join_key row col = Ok key" and i: "i < length (pr_nodes s)"
      and x: "node_index left (pr_nodes s ! i) = Some x" by blast
    define x1 where "x1 = (if map_of x key = None then AList.update key [] x else x)"
    define entry where "entry = index_rows x1 key"
    define nx where "nx = (case map_of entry row of None \<Rightarrow> 0 | Some v \<Rightarrow> v) + w"
    define entry' where "entry' = (if nx = 0 then AList.delete row entry else AList.update row nx entry)"
    define x2 where "x2 = (if entry' = [] then AList.delete key x1 else AList.update key entry' x1)"
    have k1: "kidx x1 = kidx x"
      by (auto simp: x1_def kidx_def index_rows_update index_rows_def fun_eq_iff)
    have e: "map_of entry = kidx x key" unfolding entry_def k1 [symmetric] kidx_def ..
    have i1: "index_inv x \<Longrightarrow> index_inv x1" by (simp add: x1_def index_inv_update)
    have i2: "index_inv x \<Longrightarrow> index_inv x2"
      using i1 index_inv_rows [of x1 key]
      by (auto simp: x2_def entry'_def entry_def intro!: index_inv_delete index_inv_update)
    have "map_of entry' = (kidx x key)(row := (if nx = 0 then None else Some nx))"
      by (simp add: entry'_def e)
    moreover have "kidx x2 = (kidx x)(key := map_of entry')"
      by (auto simp: x2_def kidx_def index_rows_update index_rows_delete fun_eq_iff k1 [unfolded kidx_def fun_eq_iff])
    ultimately have k2: "kidx x2 = (kidx x)(key := (kidx x key)(row := (if nx = 0 then None else Some nx)))"
      by simp
    have "snd (index_update_one p i left col rw s) =
       (if sint nx < 0 then pr_put i (set_index left x1 (pr_nodes s ! i)) s
        else pr_put i (set_index left x2 (pr_nodes s ! i)) (pr_push (UKeyIndex p i left key row (kidx x key row)) s))"
      using k i x by (auto simp: index_update_one_def vec_get_def rw Let_def x1_def [symmetric]
          index_rows_def [symmetric] entry_def [symmetric] nx_def [symmetric] entry'_def x2_def e [symmetric])
    moreover have "logged p s (pr_put i (set_index left x2 (pr_nodes s ! i)) (pr_push (UKeyIndex p i left key row (kidx x key row)) s))"
      using i x k2 by (intro logged_put)
        (auto intro!: node_inv_set_index undo_index_exact i2 dest: node_index_inv)
    moreover have "logged p s (pr_put i (set_index left x1 (pr_nodes s ! i)) s)"
      using i x k1 by (intro logged_same_abs)
        (auto intro!: node_inv_set_index i1 nabs_set_index_same dest: node_index_inv)
    ultimately show ?thesis by simp
  next
    case False
    then have "snd (index_update_one p i left col rw s) = s"
      by (auto simp: index_update_one_def vec_get_def rw split: option.split rust.split)
    then show ?thesis by (simp add: lg.R_refl)
  qed
qed

lemma logged_index_update: "logged p s (snd (index_update p i left delta col s))"
  unfolding index_update_def by (intro lg.loop logged_index_update_one)

lemma logged_update_group: "logged p s (snd (update_group p i cnt sm cs ss key out s))"
proof (cases "\<exists>j gb c' sm' groups. i < length (pr_nodes s) \<and> pr_nodes s ! i = NAggregate j gb c' sm' groups")
  case True
  then obtain j gb c' sm' groups where i: "i < length (pr_nodes s)"
    and n: "pr_nodes s ! i = NAggregate j gb c' sm' groups" by blast
  define old where "old = (case map_of groups key of None \<Rightarrow> \<lparr>g_count = 0, g_sum = 0\<rparr> | Some g \<Rightarrow> g)"
  define new where "new = \<lparr>g_count = g_count old + zget cs key, g_sum = g_sum old + zget ss key\<rparr>"
  define groups' where "groups' = (if g_count new = 0 then AList.delete key groups else AList.update key new groups)"
  have m: "map_of groups' = (map_of groups)(key := (if g_count new = 0 then None else Some new))"
    by (simp add: groups'_def)
  have "snd (update_group p i cnt sm cs ss key out s) \<in>
      {s, pr_put i (NAggregate j gb c' sm' groups') (pr_push (UGroup p i key (map_of groups key)) s)}"
    using i n by (auto simp: update_group_def vec_get_def Let_def groups'_def new_def old_def)
  moreover have "logged p s (pr_put i (NAggregate j gb c' sm' groups') (pr_push (UGroup p i key (map_of groups key)) s))"
  proof (rule logged_put)
    fix m' assume "node_inv m'" "nabs m' = nabs (NAggregate j gb c' sm' groups')"
    then show "\<exists>m''. undo_node (UGroup p i key (map_of groups key)) m' = Ok m'' \<and> node_inv m'' \<and>
        nabs m'' = nabs (pr_nodes s ! i)"
      unfolding n by (rule undo_group_exact [OF m])
  qed (use i n in \<open>simp_all add: groups'_def\<close>)
  ultimately show ?thesis by (auto simp: lg.R_refl)
next
  case False
  then have "snd (update_group p i cnt sm cs ss key out s) = s"
    by (auto simp: update_group_def vec_get_def split: option.split node.split)
  then show ?thesis by (simp add: lg.R_refl)
qed

lemmas logged_ops = logged_apply_counts logged_index_update logged_update_group lg.pure

lemma logged_step_node:
  assumes "\<And>j s. logged p s (snd (run j s))"
  shows "logged p s (snd (step_node deltas p run i s))"
  unfolding step_node_def
  by (intro lg.bind lg.pure) (auto split: option.split node.split prod.split
      intro!: lg.bind lg.floop logged_ops assms simp: lg.R_refl)

lemma logged_run_node: "logged p s (snd (run_node deltas p fuel i s))"
proof (induction fuel arbitrary: i s)
  case 0
  show ?case by (simp add: lg.pure)
next
  case (Suc fuel)
  have "logged p s (snd (st_modify (\<lambda>s. s\<lparr>pr_memo := f s\<rparr>) s))" for f s
    by (auto simp: st_modify_def logged_def)
  then show ?case
    unfolding run_node.simps
    by (intro lg.bind lg.pure) (auto split: option.split intro!: lg.bind lg.pure logged_step_node Suc.IH)
qed

end
