(* ===== verification/Frontier_Rollback.thy ===== *)
theory Frontier_Rollback
  imports Frontier_Undo
begin

text \<open>
  Row arenas and rollback. \<open>rel_inv\<close> ties a relation's arena, free list and value index together
  and every source write keeps it; \<open>elogged\<close> lifts the exactness of the undo journal from the nodes
  of a program to the engine, through \<open>apply_frontier\<close> and through the scopes of a transaction.
\<close>

subsection \<open>Relations\<close>

definition slots :: "'a option list \<Rightarrow> 'a option \<Rightarrow> nat set" where
  "slots rows v = {i. i < length rows \<and> rows ! i = v}"

definition ids_of :: "relation \<Rightarrow> row \<Rightarrow> nat list" where
  "ids_of rel row = (case map_of (rel_by_value rel) row of None \<Rightarrow> [] | Some ids \<Rightarrow> ids)"

definition rel_inv :: "relation \<Rightarrow> bool" where
  "rel_inv rel \<longleftrightarrow> hm_inv (rel_by_value rel) \<and> (\<forall>row. map_of (rel_by_value rel) row \<noteq> Some []) \<and>
     (\<forall>row. distinct (ids_of rel row) \<and> set (ids_of rel row) = slots (rel_rows rel) (Some row)) \<and>
     distinct (rel_free rel) \<and> set (rel_free rel) = slots (rel_rows rel) None"

definition rel_eq :: "relation \<Rightarrow> relation \<Rightarrow> bool" where
  "rel_eq a b \<longleftrightarrow> rel_name a = rel_name b \<and> rel_arity a = rel_arity b \<and> rel_rows a = rel_rows b \<and>
     rel_free a = rel_free b \<and> map_of (rel_by_value a) = map_of (rel_by_value b)"

lemma rel_eq_refl [simp]: "rel_eq r r"
  by (simp add: rel_eq_def)

lemma slots_update: "i < length rows \<Longrightarrow> slots (rows[i := v]) w = (if v = w then insert i (slots rows w) else slots rows w - {i})"
  by (auto simp: slots_def nth_list_update split: if_splits)

lemma slots_append: "slots (rows @ [v]) w = (if v = w then insert (length rows) (slots rows w) else slots rows w)"
  by (auto simp: slots_def nth_append split: if_splits)

lemma set_butlast_distinct: "distinct xs \<Longrightarrow> xs \<noteq> [] \<Longrightarrow> set (butlast xs) = set xs - {last xs}"
  by (induction xs rule: rev_induct) auto

lemma rel_inv_new: "rel_inv (relation_new name arity)"
  by (simp add: rel_inv_def relation_new_def ids_of_def slots_def)

lemma ids_of_update: "ids_of (rel\<lparr>rel_rows := rs, rel_free := fr, rel_by_value := AList.update row ids (rel_by_value rel)\<rparr>) row' =
    (if row' = row then ids else ids_of rel row')"
  by (auto simp: ids_of_def)

lemma last_free_slot: "rel_inv rel \<Longrightarrow> rel_free rel \<noteq> [] \<Longrightarrow>
    last (rel_free rel) < length (rel_rows rel) \<and> rel_rows rel ! last (rel_free rel) = None"
  using last_in_set [of "rel_free rel"] by (auto simp: rel_inv_def slots_def)

lemma insert_slot_cases:
  assumes "insert_slot row rel = (slot, recycled, rel')"
  obtains (recycled) "rel_free rel \<noteq> []" "recycled" "slot = last (rel_free rel)"
      "rel' = rel\<lparr>rel_rows := (rel_rows rel)[slot := Some row], rel_free := butlast (rel_free rel),
                  rel_by_value := AList.update row (ids_of rel row @ [slot]) (rel_by_value rel)\<rparr>"
  | (grown) "rel_free rel = []" "\<not> recycled" "slot = length (rel_rows rel)"
      "rel' = rel\<lparr>rel_rows := rel_rows rel @ [Some row], rel_free := [],
                  rel_by_value := AList.update row (ids_of rel row @ [slot]) (rel_by_value rel)\<rparr>"
  using assms by (auto simp: insert_slot_def ids_of_def split: if_splits prod.splits)

lemma insert_slot_inv:
  assumes inv: "rel_inv rel" and ins: "insert_slot row rel = (slot, recycled, rel')"
  shows "rel_inv rel' \<and> slot < length (rel_rows rel') \<and> slot \<notin> set (ids_of rel row')"
  using ins
proof (cases rule: insert_slot_cases)
  case recycled
  note slot = last_free_slot [OF inv recycled(1), folded recycled(3)]
  have "slot \<notin> slots (rel_rows rel) (Some r)" for r using slot by (simp add: slots_def)
  with slot inv recycled show ?thesis
    by (auto simp: rel_inv_def ids_of_update slots_update set_butlast_distinct distinct_butlast)
next
  case grown
  have "slot \<notin> slots (rel_rows rel) (Some r)" for r by (simp add: slots_def grown)
  with inv grown show ?thesis
    by (auto simp: rel_inv_def ids_of_update slots_append)
qed

text \<open>Taking the newest instance of a value back.\<close>

definition drop_last_id :: "row \<Rightarrow> (row \<times> nat list) list \<Rightarrow> nat list \<Rightarrow> (row \<times> nat list) list" where
  "drop_last_id row bv ids = (if butlast ids = [] then AList.delete row bv else AList.update row (butlast ids) bv)"

lemma map_of_drop_last_id:
  "map_of (drop_last_id row bv ids) = (map_of bv)(row := (if butlast ids = [] then None else Some (butlast ids)))"
  by (simp add: drop_last_id_def)

lemma hm_inv_drop_last_id: "hm_inv bv \<Longrightarrow> hm_inv (drop_last_id row bv ids)"
  by (simp add: drop_last_id_def)

lemma remove_slot_inv:
  assumes inv: "rel_inv rel" and ids: "map_of (rel_by_value rel) row = Some ids"
  defines "slot \<equiv> last ids"
  shows "ids \<noteq> [] \<and> slot < length (rel_rows rel) \<and> rel_rows rel ! slot = Some row \<and>
    rel_inv (rel\<lparr>rel_rows := (rel_rows rel)[slot := None], rel_free := rel_free rel @ [slot],
                 rel_by_value := drop_last_id row (rel_by_value rel) ids\<rparr>)"
proof -
  have ne: "ids \<noteq> []" using inv ids by (auto simp: rel_inv_def)
  have io: "ids_of rel row = ids" by (simp add: ids_of_def ids)
  then have d: "distinct ids" "set ids = slots (rel_rows rel) (Some row)" using inv by (auto simp: rel_inv_def)
  with ne have s: "slot < length (rel_rows rel)" "rel_rows rel ! slot = Some row"
    using last_in_set [of ids] by (auto simp: slot_def slots_def)
  let ?rel = "rel\<lparr>rel_rows := (rel_rows rel)[slot := None], rel_free := rel_free rel @ [slot],
                 rel_by_value := drop_last_id row (rel_by_value rel) ids\<rparr>"
  have io': "ids_of ?rel r = (if r = row then butlast ids else ids_of rel r)" for r
    by (auto simp: ids_of_def map_of_drop_last_id)
  have "slot \<notin> slots (rel_rows rel) (Some r)" if "r \<noteq> row" for r using s that by (simp add: slots_def)
  moreover have "slot \<notin> slots (rel_rows rel) None" using s by (simp add: slots_def)
  moreover have "set (butlast ids) = slots (rel_rows rel) (Some row) - {slot}"
    using d ne by (simp add: set_butlast_distinct slot_def)
  moreover from this have "butlast ids = [] \<Longrightarrow> slots (rel_rows rel) (Some row) \<subseteq> {slot}" by auto
  ultimately have "rel_inv ?rel"
    using inv s d ne unfolding rel_inv_def io'
    by (auto simp: hm_inv_drop_last_id map_of_drop_last_id slots_update set_butlast_distinct
        distinct_butlast slot_def [symmetric])
  with ne s show ?thesis by blast
qed

subsection \<open>Undoing source writes\<close>

lemma undo_insert_exact:
  assumes inv: "rel_inv rel" and ins: "insert_slot row rel = (slot, recycled, rel')"
    and x: "rel_inv x" "rel_eq x rel'"
  shows "\<exists>y. undo_insert slot recycled x = Ok y \<and> rel_inv y \<and> rel_eq y rel"
proof -
  have rows: "rel_rows x = rel_rows rel'" and free: "rel_free x = rel_free rel'"
    and bv: "map_of (rel_by_value x) = map_of (rel_by_value rel')"
    using x(2) by (auto simp: rel_eq_def)
  have bvx: "map_of (rel_by_value x) = (map_of (rel_by_value rel))(row \<mapsto> ids_of rel row @ [slot])"
    using ins unfolding bv by (cases rule: insert_slot_cases) auto
  have row_at: "slot < length (rel_rows x)" "rel_rows x ! slot = Some row"
    using insert_slot_inv [OF inv ins] ins unfolding rows
    by (auto elim!: insert_slot_cases simp: last_free_slot [OF inv])
  define y where "y = x\<lparr>rel_rows := rel_rows rel, rel_free := rel_free rel,
    rel_by_value := drop_last_id row (rel_by_value x) (ids_of rel row @ [slot])\<rparr>"
  have nempty: "map_of (rel_by_value rel) row \<noteq> Some []" using inv by (simp add: rel_inv_def)
  have mapy: "map_of (rel_by_value y) = map_of (rel_by_value rel)"
    using nempty by (auto simp: y_def map_of_drop_last_id bvx ids_of_def fun_eq_iff split: option.split)
  have "rel_eq y rel" using x(2) ins mapy
    by (auto elim!: insert_slot_cases simp: rel_eq_def y_def)
  moreover have "rel_inv y"
    using inv x(1) mapy by (auto simp: rel_inv_def ids_of_def y_def hm_inv_drop_last_id)
  moreover have "undo_insert slot recycled x = Ok y"
    using ins
  proof (cases rule: insert_slot_cases)
    case recycled
    note sl = last_free_slot [OF inv recycled(1), folded recycled(3)]
    have "(rel_rows x)[slot := None] = rel_rows rel"
      unfolding rows using sl recycled by (simp add: list_update_same_conv)
    moreover have "rel_free x @ [slot] = rel_free rel"
      unfolding free using recycled by simp
    ultimately show ?thesis
      using row_at recycled(2) bvx by (simp add: undo_insert_def vec_get_def y_def drop_last_id_def)
  next
    case grown
    have "butlast ((rel_rows x)[slot := None]) = rel_rows rel"
      unfolding rows using grown by (simp add: butlast_list_update)
    moreover have "rel_free x = rel_free rel"
      unfolding free using grown by simp
    ultimately show ?thesis
      using row_at grown(2) bvx by (simp add: undo_insert_def vec_get_def y_def drop_last_id_def)
  qed
  ultimately show ?thesis by blast
qed

lemma undo_remove_exact:
  assumes inv: "rel_inv rel" and ids: "map_of (rel_by_value rel) row = Some ids"
    and x: "rel_inv x" "rel_eq x (rel\<lparr>rel_rows := (rel_rows rel)[last ids := None],
      rel_free := rel_free rel @ [last ids], rel_by_value := drop_last_id row (rel_by_value rel) ids\<rparr>)"
  shows "\<exists>y. undo_remove (last ids) row x = Ok y \<and> rel_inv y \<and> rel_eq y rel"
proof -
  from remove_slot_inv [OF inv ids] have ne: "ids \<noteq> []" and s: "last ids < length (rel_rows rel)"
    "rel_rows rel ! last ids = Some row" by auto
  have rows: "rel_rows x = (rel_rows rel)[last ids := None]" and free: "rel_free x = rel_free rel @ [last ids]"
    and bv: "map_of (rel_by_value x) = (map_of (rel_by_value rel))(row := (if butlast ids = [] then None else Some (butlast ids)))"
    using x(2) by (auto simp: rel_eq_def map_of_drop_last_id)
  have single: "butlast ids = [] \<Longrightarrow> [last ids] = ids" "butlast ids @ [last ids] = ids"
    using ne append_butlast_last_id [OF ne] by auto
  define y where "y = x\<lparr>rel_free := rel_free rel, rel_rows := rel_rows rel,
    rel_by_value := AList.update row ids (rel_by_value x)\<rparr>"
  have mapy: "map_of (rel_by_value y) = map_of (rel_by_value rel)"
    using ids by (simp add: y_def bv fun_upd_idem)
  have "undo_remove (last ids) row x = Ok y"
    using s single by (auto simp: undo_remove_def rows free bv y_def list_update_same_conv)
  moreover have "rel_eq y rel" using x(2) mapy by (auto simp: rel_eq_def y_def)
  moreover have "rel_inv y" using inv x(1) mapy by (auto simp: rel_inv_def ids_of_def y_def)
  ultimately show ?thesis by blast
qed

end
