(* ===== verification/Frontier_Scopes.thy ===== *)
theory Frontier_Scopes
  imports Frontier_Rollback
begin

text \<open>
  Rollback of the whole engine. \<open>elogged\<close> lifts the exactness of the undo journal from relations and
  from the nodes of one program to engines; \<open>apply_frontier\<close> satisfies it, whatever its result, so
  a failed frontier and a rolled-back scope restore the engine up to hash-map representation
  (\<open>engine_eq\<close>), which no reading can see.
\<close>

subsection \<open>Engines up to hash-map representation\<close>

definition ps_eq :: "program_state \<Rightarrow> program_state \<Rightarrow> bool" where
  "ps_eq a b \<longleftrightarrow> nodes_eq (ps_nodes a) (ps_nodes b) \<and> ps_outputs a = ps_outputs b \<and>
     ps_dependencies a = ps_dependencies b \<and> ps_operators a = ps_operators b \<and>
     ps_arrangements a = ps_arrangements b"

definition engine_eq :: "engine \<Rightarrow> engine \<Rightarrow> bool" where
  "engine_eq a b \<longleftrightarrow> list_all2 rel_eq (en_relations a) (en_relations b) \<and>
     list_all2 (rel_option ps_eq) (en_programs a) (en_programs b) \<and> en_next_program a = en_next_program b"

definition engine_inv :: "engine \<Rightarrow> bool" where
  "engine_inv e \<longleftrightarrow> (\<forall>rel \<in> set (en_relations e). rel_inv rel) \<and>
     (\<forall>ps. Some ps \<in> set (en_programs e) \<longrightarrow> nodes_inv (ps_nodes ps))"

lemma ps_eq_refl [simp]: "ps_eq a a"
  by (simp add: ps_eq_def)

lemma engine_eq_refl [simp]: "engine_eq e e"
  by (simp add: engine_eq_def list_all2_refl option.rel_refl)

lemma rel_eq_trans: "rel_eq a b \<Longrightarrow> rel_eq b c \<Longrightarrow> rel_eq a c"
  by (simp add: rel_eq_def)

lemma ps_eq_trans: "ps_eq a b \<Longrightarrow> ps_eq b c \<Longrightarrow> ps_eq a c"
  by (simp add: ps_eq_def nodes_eq_def)

lemma rel_option_trans: "(\<And>a b c. R a b \<Longrightarrow> R b c \<Longrightarrow> R a c) \<Longrightarrow> rel_option R x y \<Longrightarrow> rel_option R y z \<Longrightarrow> rel_option R x z"
  by (cases x; cases y; cases z) auto

lemma engine_eq_trans: "engine_eq a b \<Longrightarrow> engine_eq b c \<Longrightarrow> engine_eq a c"
  unfolding engine_eq_def list_all2_conv_all_nth
  by (metis (mono_tags) ps_eq_trans rel_eq_trans rel_option_trans [of ps_eq])

text \<open>The fields a scope's bookkeeping writes are not part of the comparison.\<close>

lemma engine_eq_book [simp]:
  "engine_eq (a\<lparr>en_journal := j\<rparr>) b = engine_eq a b" "engine_eq a (b\<lparr>en_journal := j\<rparr>) = engine_eq a b"
  "engine_eq (a\<lparr>en_marks := m\<rparr>) b = engine_eq a b" "engine_eq a (b\<lparr>en_marks := m\<rparr>) = engine_eq a b"
  "engine_eq (a\<lparr>en_frontiers_applied := n\<rparr>) b = engine_eq a b"
  "engine_eq a (b\<lparr>en_frontiers_applied := n\<rparr>) = engine_eq a b"
  by (simp_all add: engine_eq_def)

lemma engine_inv_book [simp]:
  "engine_inv (a\<lparr>en_journal := j\<rparr>) = engine_inv a" "engine_inv (a\<lparr>en_marks := m\<rparr>) = engine_inv a"
  "engine_inv (a\<lparr>en_frontiers_applied := n\<rparr>) = engine_inv a"
  by (simp_all add: engine_inv_def)

lemma engine_eq_relation:
  "engine_eq x e \<Longrightarrow> r < length (en_relations e) \<Longrightarrow>
     r < length (en_relations x) \<and> rel_eq (en_relations x ! r) (en_relations e ! r)"
  by (auto simp: engine_eq_def list_all2_conv_all_nth)

lemma engine_eq_program:
  "engine_eq x e \<Longrightarrow> vec_get (en_programs e) p = Some (Some ps) \<Longrightarrow>
     \<exists>qs. vec_get (en_programs x) p = Some (Some qs) \<and> ps_eq qs ps"
  by (auto simp: engine_eq_def list_all2_conv_all_nth option_rel_Some2)

lemma engine_inv_relation: "engine_inv e \<Longrightarrow> r < length (en_relations e) \<Longrightarrow> rel_inv (en_relations e ! r)"
  by (simp add: engine_inv_def)

lemma engine_inv_program: "engine_inv e \<Longrightarrow> vec_get (en_programs e) p = Some (Some ps) \<Longrightarrow> nodes_inv (ps_nodes ps)"
  unfolding engine_inv_def by (metis nth_mem vec_get_Some_iff)

lemma engine_inv_put: "engine_inv e \<Longrightarrow> rel_inv rel \<Longrightarrow> engine_inv (put_relation r rel e)"
  using set_update_subset_insert [of "en_relations e" r rel] by (auto simp: engine_inv_def put_relation_def)

lemma engine_inv_put_program:
  "engine_inv e \<Longrightarrow> nodes_inv (ps_nodes ps) \<Longrightarrow> engine_inv (e\<lparr>en_programs := (en_programs e)[p := Some ps]\<rparr>)"
  using set_update_subset_insert [of "en_programs e" p "Some ps"] by (auto simp: engine_inv_def)

lemma list_all2_undo:
  "list_all2 R xs (ys[i := b]) \<Longrightarrow> i < length ys \<Longrightarrow> R a (ys ! i) \<Longrightarrow> list_all2 R (xs[i := a]) ys"
  by (auto simp: list_all2_conv_all_nth nth_list_update split: if_splits)

lemma engine_eq_undo_relation:
  "engine_eq x (put_relation r rel' e) \<Longrightarrow> r < length (en_relations e) \<Longrightarrow> rel_eq y (en_relations e ! r) \<Longrightarrow>
     engine_eq (put_relation r y x) e"
  by (auto simp: engine_eq_def put_relation_def intro: list_all2_undo)

lemma engine_eq_undo_program:
  "engine_eq x (e\<lparr>en_programs := (en_programs e)[p := Some ps']\<rparr>) \<Longrightarrow>
     vec_get (en_programs e) p = Some (Some ps) \<Longrightarrow> ps_eq y ps \<Longrightarrow>
     engine_eq (x\<lparr>en_programs := (en_programs x)[p := Some y]\<rparr>) e"
  by (auto simp: engine_eq_def intro: list_all2_undo)

subsection \<open>Undoing a list of entries\<close>

fun undo_all :: "undo list \<Rightarrow> engine \<Rightarrow> engine fres" where
  "undo_all [] e = Ok e"
| "undo_all (u # us) e = rust_bind (undo_all us e) (undo_one u)"

lemma undo_all_append: "undo_all (us @ vs) e = rust_bind (undo_all vs e) (undo_all us)"
  by (induction us) (cases "undo_all vs e"; simp)+

lemma engine_update_swap:
  "e\<lparr>en_journal := j, en_relations := rs\<rparr> = e\<lparr>en_relations := rs, en_journal := j\<rparr>"
  "e\<lparr>en_journal := j, en_programs := ps\<rparr> = e\<lparr>en_programs := ps, en_journal := j\<rparr>"
  by simp_all

lemma undo_one_journal: "undo_one u (e\<lparr>en_journal := j\<rparr>) = rust_bind (undo_one u e) (\<lambda>x. Ok (x\<lparr>en_journal := j\<rparr>))"
  by (cases u) (auto simp: undo_nodes_def vec_index_def put_relation_def rust_bind_assoc engine_update_swap split: option.split)

lemma undo_one_keeps:
  "undo_one u e = Ok e' \<Longrightarrow> en_journal e' = en_journal e \<and> en_marks e' = en_marks e"
  by (cases u) (auto simp: undo_nodes_def put_relation_def rust_simps split: option.splits)

lemma undo_all_keeps:
  "undo_all us e = Ok e' \<Longrightarrow> en_journal e' = en_journal e \<and> en_marks e' = en_marks e"
  by (induction us arbitrary: e') (auto simp: rust_simps dest!: undo_one_keeps)

lemma unwind_rounds_undo_all:
  "en_journal e = j @ us \<Longrightarrow> unwind_rounds (length us) e = undo_all us (e\<lparr>en_journal := j\<rparr>)"
proof (induction us arbitrary: e rule: rev_induct)
  case Nil
  then show ?case by simp
next
  case (snoc u us)
  let ?e = "e\<lparr>en_journal := j @ us\<rparr>"
  have "unwind_rounds (length (us @ [u])) e = rust_bind (undo_one u ?e) (unwind_rounds (length us))"
    using snoc.prems by (simp add: butlast_append)
  also have "\<dots> = rust_bind (undo_one u ?e) (\<lambda>x. undo_all us (x\<lparr>en_journal := j\<rparr>))"
    by (rule rust_bind_cong [OF refl], rule snoc.IH) (auto dest: undo_one_keeps)
  also have "\<dots> = rust_bind (undo_one u (?e\<lparr>en_journal := j\<rparr>)) (undo_all us)"
    unfolding undo_one_journal [where e = ?e] by (cases "undo_one u ?e") simp_all
  also have "\<dots> = undo_all (us @ [u]) (e\<lparr>en_journal := j\<rparr>)"
    by (simp add: undo_all_append)
  finally show ?case .
qed

lemma unwind_undo_all:
  "en_journal e = j @ us \<Longrightarrow> unwind (length j) e = undo_all us (e\<lparr>en_journal := j\<rparr>)"
proof -
  assume j: "en_journal e = j @ us"
  have "unwind (length j) e = rust_bind (undo_all us (e\<lparr>en_journal := j\<rparr>))
      (\<lambda>e'. Ok (e'\<lparr>en_journal := take (length j) (en_journal e')\<rparr>))"
    using unwind_rounds_undo_all [OF j] by (simp add: unwind_def j)
  also have "\<dots> = rust_bind (undo_all us (e\<lparr>en_journal := j\<rparr>)) Ok"
  proof (rule rust_bind_cong [OF refl])
    fix x assume "undo_all us (e\<lparr>en_journal := j\<rparr>) = Ok x"
    then have "en_journal x = j" by (simp add: undo_all_keeps)
    then have "x\<lparr>en_journal := take (length j) (en_journal x)\<rparr> = x" by simp
    then show "Ok (x\<lparr>en_journal := take (length j) (en_journal x)\<rparr>) = Ok x" by simp
  qed
  also have "\<dots> = undo_all us (e\<lparr>en_journal := j\<rparr>)"
    by (cases "undo_all us (e\<lparr>en_journal := j\<rparr>)") simp_all
  finally show ?thesis .
qed

subsection \<open>Logged operations\<close>

definition elogged :: "engine \<Rightarrow> engine \<Rightarrow> bool" where
  "elogged e e' \<longleftrightarrow> (engine_inv e \<longrightarrow> engine_inv e' \<and> en_marks e' = en_marks e \<and>
     (\<exists>us. en_journal e' = en_journal e @ us \<and>
       (\<forall>x. engine_inv x \<longrightarrow> engine_eq x e' \<longrightarrow>
          (\<exists>y. undo_all us x = Ok y \<and> engine_inv y \<and> engine_eq y e))))"

interpretation elg: st_preorder elogged
proof
  show "elogged e e" for e
    unfolding elogged_def by (metis append_Nil2 undo_all.simps(1))
next
  fix a b c assume ab: "elogged a b" and bc: "elogged b c"
  show "elogged a c"
    unfolding elogged_def
  proof
    assume a: "engine_inv a"
    with ab obtain us where us: "engine_inv b" "en_marks b = en_marks a" "en_journal b = en_journal a @ us"
      "\<And>x. engine_inv x \<Longrightarrow> engine_eq x b \<Longrightarrow> \<exists>y. undo_all us x = Ok y \<and> engine_inv y \<and> engine_eq y a"
      unfolding elogged_def by blast
    with bc obtain vs where vs: "engine_inv c" "en_marks c = en_marks b" "en_journal c = en_journal b @ vs"
      "\<And>x. engine_inv x \<Longrightarrow> engine_eq x c \<Longrightarrow> \<exists>y. undo_all vs x = Ok y \<and> engine_inv y \<and> engine_eq y b"
      unfolding elogged_def by blast
    have "\<exists>y. undo_all (us @ vs) x = Ok y \<and> engine_inv y \<and> engine_eq y a"
      if x: "engine_inv x" "engine_eq x c" for x
      using vs(4) [OF x] us(4) by (force simp: undo_all_append)
    with us(1-3) vs(1-3) show "engine_inv c \<and> en_marks c = en_marks a \<and>
      (\<exists>us. en_journal c = en_journal a @ us \<and> (\<forall>x. engine_inv x \<longrightarrow> engine_eq x c \<longrightarrow>
         (\<exists>y. undo_all us x = Ok y \<and> engine_inv y \<and> engine_eq y a)))"
      by (intro conjI exI [of _ "us @ vs"]) auto
  qed
qed

lemma elogged_one:
  assumes "engine_inv e \<Longrightarrow> engine_inv e'" and "en_marks e' = en_marks e"
    and "en_journal e' = en_journal e @ [u]"
    and "\<And>x. engine_inv e \<Longrightarrow> engine_inv x \<Longrightarrow> engine_eq x e' \<Longrightarrow> \<exists>y. undo_one u x = Ok y \<and> engine_inv y \<and> engine_eq y e"
  shows "elogged e e'"
  unfolding elogged_def using assms by (intro impI conjI exI [of _ "[u]"]) auto

lemma elogged_relation:
  assumes r: "r < length (en_relations e)" and inv: "rel_inv (en_relations e ! r) \<Longrightarrow> rel_inv rel'"
    and undo: "\<And>x rx. rel_inv (en_relations e ! r) \<Longrightarrow> vec_get (en_relations x) r = Some rx \<Longrightarrow> rel_inv rx \<Longrightarrow>
      rel_eq rx rel' \<Longrightarrow> \<exists>y. undo_one u x = Ok (put_relation r y x) \<and> rel_inv y \<and> rel_eq y (en_relations e ! r)"
  shows "elogged e (push_undo u (put_relation r rel' e))"
proof (rule elogged_one)
  show "engine_inv (push_undo u (put_relation r rel' e))" if "engine_inv e"
    using engine_inv_put [OF that inv [OF engine_inv_relation [OF that r]]] by (simp add: push_undo_def)
  fix x assume e: "engine_inv e" and x: "engine_inv x" "engine_eq x (push_undo u (put_relation r rel' e))"
  then have eq: "engine_eq x (put_relation r rel' e)" by (simp add: push_undo_def)
  with r have rx: "r < length (en_relations x)" "rel_eq (en_relations x ! r) rel'"
    using engine_eq_relation [OF eq, of r] by (auto simp: put_relation_def)
  then obtain y where y: "undo_one u x = Ok (put_relation r y x)" "rel_inv y" "rel_eq y (en_relations e ! r)"
    using undo [of x "en_relations x ! r"] engine_inv_relation [OF e r] engine_inv_relation [OF x(1) rx(1)] by auto
  then show "\<exists>y. undo_one u x = Ok y \<and> engine_inv y \<and> engine_eq y e"
    using engine_inv_put [OF x(1) y(2)] engine_eq_undo_relation [OF eq r y(3)] by auto
qed (simp_all add: push_undo_def put_relation_def)

lemma elogged_insert_row: "elogged e (snd (insert_row r row e))"
proof (cases "r < length (en_relations e)")
  case True
  obtain slot recycled rel' where ins: "insert_slot row (en_relations e ! r) = (slot, recycled, rel')"
    by (metis prod_cases3)
  have "elogged e (push_undo (UInsert r slot recycled) (put_relation r rel' e))"
  proof (rule elogged_relation [OF True])
    fix x :: engine and rx
    assume "rel_inv (en_relations e ! r)" "vec_get (en_relations x) r = Some rx" "rel_inv rx" "rel_eq rx rel'"
    then show "\<exists>y. undo_one (UInsert r slot recycled) x = Ok (put_relation r y x) \<and> rel_inv y \<and> rel_eq y (en_relations e ! r)"
      using undo_insert_exact [OF _ ins, of rx] by (auto simp: rust_simps vec_get_def)
  qed (use insert_slot_inv [OF _ ins] in blast)
  then show ?thesis
    using True ins by (simp add: insert_row_def relation_at_def vec_get_def elg.R_refl)
qed (simp add: insert_row_def relation_at_def vec_get_def elg.R_refl)

lemma elogged_remove_row: "elogged e (snd (remove_row r row e))"
proof (cases "\<exists>ids. r < length (en_relations e) \<and> map_of (rel_by_value (en_relations e ! r)) row = Some ids \<and>
    ids \<noteq> [] \<and> last ids < length (rel_rows (en_relations e ! r))")
  case True
  then obtain ids where r: "r < length (en_relations e)" and
    ids: "map_of (rel_by_value (en_relations e ! r)) row = Some ids" "ids \<noteq> []"
      "last ids < length (rel_rows (en_relations e ! r))" by blast
  define rel' where "rel' = (en_relations e ! r)\<lparr>rel_rows := (rel_rows (en_relations e ! r))[last ids := None],
    rel_free := rel_free (en_relations e ! r) @ [last ids],
    rel_by_value := drop_last_id row (rel_by_value (en_relations e ! r)) ids\<rparr>"
  have "elogged e (push_undo (URemove r (last ids) row) (put_relation r rel' e))"
  proof (rule elogged_relation [OF r])
    fix x :: engine and rx
    assume "rel_inv (en_relations e ! r)" "vec_get (en_relations x) r = Some rx" "rel_inv rx" "rel_eq rx rel'"
    then show "\<exists>y. undo_one (URemove r (last ids) row) x = Ok (put_relation r y x) \<and> rel_inv y \<and> rel_eq y (en_relations e ! r)"
      using undo_remove_exact [OF _ ids(1), of rx] unfolding rel'_def by (auto simp: rust_simps vec_get_def)
  qed (use remove_slot_inv [OF _ ids(1)] in \<open>auto simp: rel'_def\<close>)
  then show ?thesis
    using r ids by (simp add: remove_row_def relation_at_def vec_get_def rel'_def drop_last_id_def Let_def)
next
  case False
  then have "snd (remove_row r row e) = e"
    by (auto simp: remove_row_def relation_at_def vec_get_def Let_def split: option.split)
  then show ?thesis by (simp add: elg.R_refl)
qed

lemma elogged_write_source: "elogged e (snd (write_source r net e))"
  unfolding write_source_def
  by (intro elg.loop) (auto intro!: elg.bind elg.loop elogged_insert_row elogged_remove_row elg.pure)

subsection \<open>The propagation, seen from the engine\<close>

lemma undo_all_nodes:
  assumes "vec_get (en_programs e) p = Some (Some ps)"
  shows "undo_rev us (ps_nodes ps) = Ok ns \<Longrightarrow> (\<forall>u \<in> set us. \<exists>i. undo_target u = Some (p, i)) \<Longrightarrow>
    undo_all us e = Ok (e\<lparr>en_programs := (en_programs e)[p := Some (ps\<lparr>ps_nodes := ns\<rparr>)]\<rparr>)"
proof (induction us arbitrary: ns)
  case Nil
  from Nil assms have "(en_programs e)[p := Some (ps\<lparr>ps_nodes := ns\<rparr>)] = en_programs e"
    by (simp add: list_update_same_conv)
  with Nil show ?case by simp
next
  case (Cons u us)
  from Cons.prems obtain ms where ms: "undo_rev us (ps_nodes ps) = Ok ms" "undo_on u ms = Ok ns"
    by (auto simp: rust_simps)
  let ?e = "e\<lparr>en_programs := (en_programs e)[p := Some (ps\<lparr>ps_nodes := ms\<rparr>)]\<rparr>"
  from Cons ms have "undo_all us e = Ok ?e" by simp
  moreover have "undo_one u ?e = Ok (e\<lparr>en_programs := (en_programs e)[p := Some (ps\<lparr>ps_nodes := ns\<rparr>)]\<rparr>)"
    using ms(2) Cons.prems(2) assms by (cases u) (auto simp: undo_on_def undo_nodes_def rust_simps vec_get_def vec_index_def split: if_splits)
  ultimately show ?case by simp
qed

lemma elogged_program:
  assumes ps: "vec_get (en_programs e) p = Some (Some ps)"
    and lg: "logged p \<lparr>pr_nodes = ps_nodes ps, pr_journal = en_journal e, pr_memo = memo\<rparr> s"
  shows "elogged e (e\<lparr>en_programs := (en_programs e)[p := Some (ps\<lparr>ps_nodes := pr_nodes s\<rparr>)], en_journal := pr_journal s\<rparr>)"
    (is "elogged e ?e'")
  unfolding elogged_def
proof
  assume e: "engine_inv e"
  with lg obtain us where us: "nodes_inv (pr_nodes s)" "pr_journal s = en_journal e @ us"
    "undoes p us (pr_nodes s) (ps_nodes ps)"
    using engine_inv_program [OF e ps] unfolding logged_def by auto
  have "\<exists>y. undo_all us x = Ok y \<and> engine_inv y \<and> engine_eq y e"
    if x: "engine_inv x" "engine_eq x ?e'" for x
  proof -
    let ?ps' = "ps\<lparr>ps_nodes := pr_nodes s\<rparr>"
    have "engine_eq x (e\<lparr>en_programs := (en_programs e)[p := Some ?ps']\<rparr>)"
      using x(2) by (simp add: engine_eq_def)
    moreover from this obtain qs where qs: "vec_get (en_programs x) p = Some (Some qs)" "ps_eq qs ?ps'"
      using engine_eq_program [of x "e\<lparr>en_programs := (en_programs e)[p := Some ?ps']\<rparr>" p ?ps'] ps by auto
    moreover obtain ns where ns: "undo_rev us (ps_nodes qs) = Ok ns" "nodes_inv ns" "nodes_eq ns (ps_nodes ps)"
      using us(3) qs engine_inv_program [OF x(1) qs(1)] unfolding undoes_def ps_eq_def by auto
    moreover have "ps_eq (qs\<lparr>ps_nodes := ns\<rparr>) ps" using qs(2) ns(3) by (simp add: ps_eq_def)
    ultimately show ?thesis
      using undo_all_nodes [OF qs(1) ns(1)] us(3) engine_inv_put_program [OF x(1), of "qs\<lparr>ps_nodes := ns\<rparr>" p]
        engine_eq_undo_program [OF _ ps, of x ?ps' "qs\<lparr>ps_nodes := ns\<rparr>"]
      unfolding undoes_def by auto
  qed
  with us engine_inv_put_program [OF e, of "ps\<lparr>ps_nodes := pr_nodes s\<rparr>" p]
  show "engine_inv ?e' \<and> en_marks ?e' = en_marks e \<and> (\<exists>us. en_journal ?e' = en_journal e @ us \<and>
     (\<forall>x. engine_inv x \<longrightarrow> engine_eq x ?e' \<longrightarrow> (\<exists>y. undo_all us x = Ok y \<and> engine_inv y \<and> engine_eq y e)))"
    by auto
qed

lemma logged_outputs:
  "logged p s (snd (st_for roots (\<lambda>root. st_bind (run_node deltas p fuel root) (\<lambda>_. st_return ())) s))"
  by (intro lg.loop lg.bind logged_run_node lg.pure)

lemma elogged_frontiers_applied: "elogged e e' \<Longrightarrow> elogged e (e'\<lparr>en_frontiers_applied := n\<rparr>)"
  by (simp add: elogged_def)

lemma elogged_propagate:
  assumes "vec_get (en_programs e) p = Some (Some ps)"
  shows "elogged e (snd (propagate deltas p ps e))"
proof -
  let ?s0 = "\<lparr>pr_nodes = ps_nodes ps, pr_journal = en_journal e, pr_memo = Map.empty\<rparr>"
  obtain r s where rs: "st_for (map os_root (ps_outputs ps))
      (\<lambda>root. st_bind (run_node deltas p (Suc (length (ps_nodes ps))) root) (\<lambda>_. st_return ())) ?s0 = (r, s)"
    (is "?run = _") by (cases ?run)
  have "logged p ?s0 s"
    using logged_outputs [of p ?s0 "map os_root (ps_outputs ps)" deltas "Suc (length (ps_nodes ps))"] unfolding rs by simp
  from elogged_program [OF assms this] show ?thesis
    unfolding propagate_def rs by (auto simp: Let_def intro: elogged_frontiers_applied split: rust.split)
qed

lemma insert_row_programs [simp]: "en_programs (snd (insert_row r row e)) = en_programs e"
  by (auto simp: insert_row_def push_undo_def put_relation_def split: rust.split prod.split)

lemma remove_row_programs [simp]: "en_programs (snd (remove_row r row e)) = en_programs e"
  by (auto simp: remove_row_def push_undo_def put_relation_def Let_def split: rust.split option.split)

definition same_programs :: "engine \<Rightarrow> engine \<Rightarrow> bool" where
  "same_programs e e' \<longleftrightarrow> en_programs e' = en_programs e"

interpretation sp: st_preorder same_programs
  by unfold_locales (simp_all add: same_programs_def)

lemma same_programs_rows: "same_programs e (snd (insert_row r row e))" "same_programs e (snd (remove_row r row e))"
  by (simp_all add: same_programs_def)

lemma same_programs_write_source: "same_programs e (snd (write_source r net e))"
  unfolding write_source_def
  by (intro sp.loop) (auto intro!: sp.bind sp.loop sp.pure same_programs_rows)

lemma elogged_apply_frontier: "elogged e (snd (apply_frontier p fr e))"
proof -
  have "elogged e (snd (st_bind (st_for ns (\<lambda>(r, net). write_source r net)) (\<lambda>_. propagate ns p ps) e))"
    if ps: "program_at e p = Ok ps" for ns ps
  proof -
    obtain r e1 where w: "st_for ns (\<lambda>(r, net). write_source r net) e = (r, e1)"
      by (cases "st_for ns (\<lambda>(r, net). write_source r net) e")
    have "elogged e (snd (st_for ns (\<lambda>(r, net). write_source r net) e))"
      by (intro elg.loop) (auto intro: elogged_write_source)
    moreover have "same_programs e (snd (st_for ns (\<lambda>(r, net). write_source r net) e))"
      by (intro sp.loop) (auto intro: same_programs_write_source)
    ultimately have e1: "elogged e e1" "en_programs e1 = en_programs e"
      by (simp_all add: w same_programs_def)
    with ps have "elogged e1 (snd (propagate ns p ps e1))"
      by (intro elogged_propagate) (auto simp: program_at_def split: option.splits)
    with e1(1) show ?thesis
      by (cases r) (auto simp: st_bind_def w intro: elg.R_trans)
  qed
  then show ?thesis
    unfolding apply_frontier_def Let_def
    by (auto split: rust.split simp: rust_simps elg.R_refl intro: elogged_frontiers_applied)
qed

subsection \<open>Scopes\<close>

text \<open>
  What a client can do inside a scope: apply frontiers, and open nested scopes that it releases
  (\<open>keep\<close>) or rolls back, explicitly or by dropping them.
\<close>

datatype scope_op =
    OpApply nat frontier
  | OpScope "scope_op list" bool

fun run_op :: "scope_op \<Rightarrow> engine \<Rightarrow> engine fres"
  and run_ops :: "scope_op list \<Rightarrow> engine \<Rightarrow> engine fres" where
  "run_op (OpApply p fr) e = rust_bind (apply_scoped p fr e) (\<lambda>(_, e'). Ok e')"
| "run_op (OpScope ops keep) e =
     rust_bind (run_ops ops (scope_open e)) (if keep then scope_commit else scope_rollback)"
| "run_ops [] e = Ok e"
| "run_ops (op # ops) e = rust_bind (run_op op e) (run_ops ops)"

lemma elogged_open_close:
  assumes "elogged (scope_open e) e'" and e: "engine_inv e"
  shows "\<exists>us e2. pop_mark e' = Ok (length (en_journal e), e2) \<and> en_journal e2 = en_journal e @ us \<and>
    en_marks e2 = en_marks e \<and> elogged e e2 \<and> engine_inv e2 \<and>
    (\<exists>e3. unwind (length (en_journal e)) e2 = Ok e3 \<and> engine_inv e3 \<and> engine_eq e3 e \<and>
      en_journal e3 = en_journal e \<and> en_marks e3 = en_marks e)"
proof -
  have so: "engine_inv (scope_open e)" "engine_eq x (scope_open e) = engine_eq x e" for x
    using e by (simp_all add: scope_open_def)
  with assms obtain us where us: "engine_inv e'" "en_marks e' = en_marks (scope_open e)"
    "en_journal e' = en_journal e @ us"
    "\<And>x. engine_inv x \<Longrightarrow> engine_eq x e' \<Longrightarrow> \<exists>y. undo_all us x = Ok y \<and> engine_inv y \<and> engine_eq y e"
    unfolding elogged_def by (auto simp: scope_open_def)
  define e2 where "e2 = e'\<lparr>en_marks := en_marks e\<rparr>"
  have pm: "pop_mark e' = Ok (length (en_journal e), e2)"
    using us(2) by (simp add: pop_mark_def scope_open_def e2_def)
  have e2: "engine_inv e2" "engine_eq x e2 = engine_eq x e'" "en_journal e2 = en_journal e @ us" for x
    using us by (simp_all add: e2_def)
  then have "elogged e e2" unfolding elogged_def using us(4) by (auto simp: e2_def)
  moreover obtain e3 where e3: "undo_all us (e2\<lparr>en_journal := en_journal e\<rparr>) = Ok e3" "engine_inv e3" "engine_eq e3 e"
    using us(4) [of "e2\<lparr>en_journal := en_journal e\<rparr>"] e2 by (auto simp: e2_def)
  moreover from this have "en_journal e3 = en_journal e" "en_marks e3 = en_marks e"
    using undo_all_keeps [OF e3(1)] by (simp_all add: e2_def)
  ultimately show ?thesis
    using pm e2 unwind_undo_all [OF e2(3)] by (auto simp: e2_def)
qed

lemma elogged_restored: "engine_inv e' \<Longrightarrow> engine_eq e' e \<Longrightarrow> en_journal e' = en_journal e \<Longrightarrow> en_marks e' = en_marks e \<Longrightarrow> elogged e e'"
  unfolding elogged_def by (auto intro!: exI [of _ "[]"] intro: engine_eq_trans)

lemma apply_scoped_elogged:
  assumes "engine_inv e" and "apply_scoped p fr e = Ok (result, e')"
  shows "elogged e e' \<and> (\<forall>er. result = Err er \<longrightarrow> engine_eq e' e \<and> en_journal e' = en_journal e \<and> en_marks e' = en_marks e)"
proof -
  obtain r e1 where a: "apply_frontier p fr (scope_open e) = (r, e1)"
    by (cases "apply_frontier p fr (scope_open e)")
  have "elogged (scope_open e) e1"
    using elogged_apply_frontier [of "scope_open e" p fr] by (simp add: a)
  from elogged_open_close [OF this assms(1)] assms(2) show ?thesis
    by (cases r) (auto simp: apply_scoped_def a intro: elogged_restored)
qed

lemma run_ops_elogged:
  "engine_inv e \<Longrightarrow> run_op op e = Ok e' \<Longrightarrow> elogged e e'"
  "engine_inv e \<Longrightarrow> run_ops ops e = Ok e' \<Longrightarrow> elogged e e'"
proof (induction op e and ops e arbitrary: e' and e' rule: run_op_run_ops.induct)
  case (1 p fr e)
  then show ?case by (auto simp: rust_simps dest: apply_scoped_elogged)
next
  case (2 ops keep e)
  from 2 obtain e1 where e1: "run_ops ops (scope_open e) = Ok e1" "(if keep then scope_commit else scope_rollback) e1 = Ok e'"
    by (auto simp: rust_simps)
  have "engine_inv (scope_open e)" using 2 by (simp add: scope_open_def)
  with 2 e1 have "elogged (scope_open e) e1" by blast
  from elogged_open_close [OF this] 2 e1(2) show ?case
    by (auto simp: scope_commit_def scope_rollback_def intro: elogged_restored split: if_splits)
next
  case (3 e)
  then show ?case by (simp add: elg.R_refl)
next
  case (4 op ops e)
  from 4 obtain e1 where e1: "run_op op e = Ok e1" "run_ops ops e1 = Ok e'"
    by (auto simp: rust_simps)
  with 4 have "elogged e e1" by blast
  with 4 e1 have "elogged e1 e'" unfolding elogged_def by blast
  with \<open>elogged e e1\<close> show ?case by (rule elg.R_trans)
qed

text \<open>Equal maps with distinct keys hold the same entries.\<close>

lemma hm_mset: "hm_inv m \<Longrightarrow> hm_inv m' \<Longrightarrow> map_of m = map_of m' \<Longrightarrow> mset m = mset m'"
proof -
  assume m: "hm_inv m" "hm_inv m'" "map_of m = map_of m'"
  then have "set m = set m'"
    unfolding hm_inv_def by (metis map_of_inject_set)
  moreover have "distinct m" "distinct m'"
    using m by (simp_all add: hm_inv_def distinct_map)
  ultimately show ?thesis by (simp add: set_eq_iff_mset_eq_distinct)
qed

subsection \<open>Readings cannot tell equal engines apart\<close>

lemma support_cmp_key: "support_cmp a b = cmp (row_key (fst a), sint (snd a)) (row_key (fst b), sint (snd b))"
  by (auto simp: support_cmp_def row_cmp_def cell_cmp_def cmp_def less_prod_def)

lemma node_support_engine_eq:
  assumes "engine_inv a" and "engine_inv b" and eq: "engine_eq a b"
    and "node_inv m" and "node_inv n" and mn: "nabs m = nabs n"
  shows "node_support a m = Panic \<and> node_support b n = Panic \<or>
    (\<exists>er. node_support a m = Err er \<and> node_support b n = Err er) \<or>
    (\<exists>xs ys. node_support a m = Ok xs \<and> node_support b n = Ok ys \<and> mset xs = mset ys)"
proof (cases n)
  case (NScan r)
  with mn have m: "m = NScan r" by (cases m) auto
  from eq have len: "length (en_relations a) = length (en_relations b)"
    by (auto simp: engine_eq_def dest: list_all2_lengthD)
  show ?thesis
  proof (cases "r < length (en_relations b)")
    case True
    then have "mset (rel_by_value (en_relations a ! r)) = mset (rel_by_value (en_relations b ! r))"
      using engine_eq_relation [OF eq True] engine_inv_relation [OF assms(1)] engine_inv_relation [OF assms(2) True]
      by (intro hm_mset) (auto simp: rel_eq_def rel_inv_def)
    from mset_map_filter [OF this] show ?thesis
      using True len by (simp add: NScan m relation_at_def vec_get_def del: mset_map mset_filter)
  qed (use len in \<open>simp add: NScan m relation_at_def vec_get_def\<close>)
next
  case (NAggregate i gb cnt sm gs)
  with mn obtain gs' where "m = NAggregate i gb cnt sm gs'" "map_of gs' = map_of gs" by (cases m) auto
  moreover from this have "mset gs' = mset gs" using assms NAggregate by (intro hm_mset) auto
  ultimately show ?thesis by (simp add: NAggregate)
qed (use assms in \<open>cases m; auto intro!: arg_cong [where f = "filter_mset _"] hm_mset\<close>)+

lemma sort_support: "mset xs = mset ys \<Longrightarrow> sort_by support_cmp xs = sort_by support_cmp ys"
  by (rule sort_by_mset [where f = "\<lambda>a. (row_key (fst a), sint (snd a))"])
    (auto simp: support_cmp_key inj_def)

lemma sort_rows: "mset xs = mset ys \<Longrightarrow> sort_by row_cmp xs = sort_by row_cmp ys"
  by (rule sort_by_mset [where f = row_key]) (auto simp: row_cmp_def inj_row_key)

lemma sort_support_rows: "mset xs = mset ys \<Longrightarrow> sort_by row_cmp (map fst xs) = sort_by row_cmp (map fst ys)"
  by (rule sort_rows) simp

lemma snapshot_engine_eq:
  assumes a: "engine_inv a" and b: "engine_inv b" and eq: "engine_eq a b"
  shows "snapshot_support p name a = snapshot_support p name b \<and> snapshot p name a = snapshot p name b"
proof (cases "\<exists>ps. vec_get (en_programs b) p = Some (Some ps)")
  case False
  then have "\<not> (\<exists>ps. vec_get (en_programs a) p = Some (Some ps))"
    using eq by (auto simp: engine_eq_def list_all2_conv_all_nth option_rel_Some1)
  with False show ?thesis
    by (auto simp: snapshot_support_def snapshot_def program_at_def split: option.split)
next
  case True
  then obtain ps where ps: "vec_get (en_programs b) p = Some (Some ps)" by blast
  from engine_eq_program [OF eq ps] obtain qs where qs: "vec_get (en_programs a) p = Some (Some qs)" "ps_eq qs ps" by blast
  show ?thesis
  proof (cases "find_output name ps")
    case (Ok os)
    with qs(2) have os: "find_output name qs = Ok os" by (simp add: find_output_def ps_eq_def)
    have len: "length (ps_nodes qs) = length (ps_nodes ps)"
      using qs(2) unfolding ps_eq_def nodes_eq_def by (metis length_map)
    show ?thesis
    proof (cases "os_root os < length (ps_nodes ps)")
      case True
      have "nabs (ps_nodes qs ! os_root os) = nabs (ps_nodes ps ! os_root os)"
        using qs(2) nodes_eq_nth True unfolding ps_eq_def by blast
      with node_support_engine_eq [OF a b eq, of "ps_nodes qs ! os_root os" "ps_nodes ps ! os_root os"]
      have "node_support a (ps_nodes qs ! os_root os) = Panic \<and> node_support b (ps_nodes ps ! os_root os) = Panic \<or>
        (\<exists>er. node_support a (ps_nodes qs ! os_root os) = Err er \<and> node_support b (ps_nodes ps ! os_root os) = Err er) \<or>
        (\<exists>xs ys. node_support a (ps_nodes qs ! os_root os) = Ok xs \<and> node_support b (ps_nodes ps ! os_root os) = Ok ys \<and>
           mset xs = mset ys)"
        using engine_inv_program [OF a qs(1)] engine_inv_program [OF b ps] True len by (auto simp: nodes_inv_nth)
      then show ?thesis
        using ps qs Ok os True len
        by (auto simp: snapshot_support_def snapshot_def program_at_def vec_index_def
            intro: sort_support sort_support_rows)
    qed (use ps qs Ok os len in \<open>auto simp: snapshot_support_def snapshot_def program_at_def vec_index_def\<close>)
  qed (use ps qs in \<open>auto simp: snapshot_support_def snapshot_def program_at_def find_output_def ps_eq_def
      split: option.splits\<close>)
qed

lemma source_engine_eq:
  assumes "engine_eq a b"
  shows "source_row r i a = source_row r i b \<and> source_row_ids r a = source_row_ids r b"
proof (cases "r < length (en_relations b)")
  case True
  then show ?thesis
    using engine_eq_relation [OF assms True]
    by (auto simp: source_row_def source_row_ids_def relation_at_def vec_get_def rel_eq_def)
next
  case False
  then have "\<not> r < length (en_relations a)"
    using assms by (auto simp: engine_eq_def dest: list_all2_lengthD)
  with False show ?thesis by (simp add: source_row_def source_row_ids_def relation_at_def vec_get_def)
qed

end
