(* ===== verification/Frontier_Node.thy ===== *)
theory Frontier_Node
  imports Frontier_Undo
begin

text \<open>
  What one node keeps, and what one step does to it. \<open>counts_are\<close>, \<open>index_are\<close> and \<open>groups_are\<close> say
  that an arrangement holds a Z-set; folding a net delta into an arrangement adds the delta or
  reports a negative weight (the locale \<open>delta_fold\<close>, interpreted for the multiset of a node and for
  both indexes of a join).
\<close>

subsection \<open>Arrangements that hold a Z-set\<close>

definition support_map :: "('k \<Rightarrow> i64) \<Rightarrow> 'k \<Rightarrow> i64 option" where
  "support_map z k = (if z k = 0 then None else Some (z k))"

definition counts_are :: "counts \<Rightarrow> (row \<Rightarrow> i64) \<Rightarrow> bool" where
  "counts_are c z \<longleftrightarrow> hm_inv c \<and> map_of c = support_map z"

definition index_are :: "key_index \<Rightarrow> nat \<Rightarrow> (row \<Rightarrow> i64) \<Rightarrow> bool" where
  "index_are x a z \<longleftrightarrow> index_inv x \<and> kidx x = (\<lambda>key row. if key = [row ! a] then support_map z row else None)"

definition groups_are :: "(row \<times> group) list \<Rightarrow> nat list \<Rightarrow> nat option \<Rightarrow> (row \<Rightarrow> i64) \<Rightarrow> bool" where
  "groups_are gs gb sm z \<longleftrightarrow> hm_inv gs \<and> map_of gs = zgroup gb sm z"

lemma support_map_zero [simp]: "support_map (\<lambda>_. 0) = Map.empty"
  by (simp add: support_map_def fun_eq_iff)

lemma counts_are_Nil [simp]: "counts_are [] (\<lambda>_. 0)"
  by (simp add: counts_are_def)

lemma counts_are_zget: "counts_are c z \<Longrightarrow> zget c = z"
  by (auto simp: counts_are_def zget_def support_map_def)

lemma counts_are_inv: "counts_are c z \<Longrightarrow> hm_inv c"
  by (simp add: counts_are_def)

lemma support_map_upd: "support_map (z(k := w)) = (support_map z)(k := (if w = 0 then None else Some w))"
  by (auto simp: support_map_def)

lemma support_map_or_zero: "(case support_map z k of None \<Rightarrow> 0 | Some v \<Rightarrow> v) = z k"
  by (simp add: support_map_def)

subsection \<open>Folding a delta into an arrangement\<close>

definition put_node :: "nat \<Rightarrow> node \<Rightarrow> undo list \<Rightarrow> prop_state \<Rightarrow> prop_state" where
  "put_node i n j s = s\<lparr>pr_nodes := (pr_nodes s)[i := n], pr_journal := j\<rparr>"

lemma put_node_simps [simp]:
  "pr_nodes (put_node i n j s) = (pr_nodes s)[i := n]" "pr_memo (put_node i n j s) = pr_memo s"
  "pr_journal (put_node i n j s) = j"
  "put_node i n j (put_node i n' j' s) = put_node i n j s"
  by (simp_all add: put_node_def)

lemma put_node_same: "pr_nodes s ! i = n \<Longrightarrow> put_node i n (pr_journal s) s = s"
  by (auto simp: put_node_def)

lemma pr_put_push: "pr_put i n (pr_push u s) = put_node i n (pr_journal s @ [u]) s"
  by (simp add: pr_put_def pr_push_def put_node_def)

locale delta_fold =
  fixes step :: "row \<times> i64 \<Rightarrow> (prop_state, unit) st" and i :: nat
    and keeps :: "node \<Rightarrow> (row \<Rightarrow> i64) \<Rightarrow> bool" and frame :: "node \<Rightarrow> node \<Rightarrow> bool" and fits :: "row \<Rightarrow> bool"
  assumes frame_refl: "keeps n z \<Longrightarrow> frame n n"
    and frame_trans: "frame n n' \<Longrightarrow> frame n' n'' \<Longrightarrow> frame n n''"
    and one: "i < length (pr_nodes s) \<Longrightarrow> keeps (pr_nodes s ! i) z \<Longrightarrow> fits row \<Longrightarrow>
      (\<exists>n' j. step (row, w) s = (Ok (), put_node i n' j s) \<and> keeps n' (z(row := z row + w)) \<and> frame (pr_nodes s ! i) n')
      \<or> (\<exists>er s'. step (row, w) s = (Err er, s') \<and> fe_stage er = Maintain \<and> sint (z row + w) < 0)"
begin

lemma fold:
  assumes "i < length (pr_nodes s)" and "keeps (pr_nodes s ! i) z" and "distinct (map fst delta)"
    and "\<forall>d \<in> set delta. fits (fst d)"
  shows "(\<exists>n' j. st_for delta step s = (Ok (), put_node i n' j s) \<and> keeps n' (\<lambda>row. z row + zget delta row) \<and>
      frame (pr_nodes s ! i) n')
    \<or> (\<exists>er s' row. st_for delta step s = (Err er, s') \<and> fe_stage er = Maintain \<and> sint (z row + zget delta row) < 0)"
  using assms
proof (induction delta arbitrary: s z)
  case Nil
  then have "st_for [] step s = (Ok (), put_node i (pr_nodes s ! i) (pr_journal s) s)"
    by (simp add: st_return_def put_node_def)
  with Nil show ?case by (auto simp: frame_refl)
next
  case (Cons d delta)
  obtain row w where d: "d = (row, w)" by (cases d)
  have fresh: "zget delta row = 0"
    using Cons.prems(3) by (simp add: d zget_def map_of_eq_None_iff [THEN iffD2])
  have "fits row" using Cons.prems(4) by (simp add: d)
  from one [OF Cons.prems(1,2) this, of w] consider
    (ok) n' j where "step (row, w) s = (Ok (), put_node i n' j s)" "keeps n' (z(row := z row + w))" "frame (pr_nodes s ! i) n'"
    | (bad) er s' where "step (row, w) s = (Err er, s')" "fe_stage er = Maintain" "sint (z row + w) < 0"
    by auto
  then show ?case
  proof cases
    case ok
    let ?s = "put_node i n' j s" and ?z = "z(row := z row + w)"
    have z: "?z r + zget delta r = z r + zget (d # delta) r" for r
      using fresh by (simp add: d zget_Cons)
    have "(\<exists>n'' j. st_for delta step ?s = (Ok (), put_node i n'' j ?s) \<and> keeps n'' (\<lambda>r. ?z r + zget delta r) \<and>
        frame (pr_nodes ?s ! i) n'')
      \<or> (\<exists>er s' r. st_for delta step ?s = (Err er, s') \<and> fe_stage er = Maintain \<and> sint (?z r + zget delta r) < 0)"
      using Cons.prems ok by (intro Cons.IH) (auto simp: fun_upd_def)
    then show ?thesis
      using ok(1,3) Cons.prems(1) unfolding z by (auto simp: d st_bind_def intro: frame_trans)
  next
    case bad
    then have "sint (z row + zget (d # delta) row) < 0" by (simp add: d zget_Cons)
    with bad show ?thesis by (auto simp: d st_bind_def)
  qed
qed

end

definition node_counts_are :: "node \<Rightarrow> (row \<Rightarrow> i64) \<Rightarrow> bool" where
  "node_counts_are n z \<longleftrightarrow> (\<exists>c. node_counts n = Some c \<and> counts_are c z)"

definition node_index_are :: "bool \<Rightarrow> nat \<Rightarrow> node \<Rightarrow> (row \<Rightarrow> i64) \<Rightarrow> bool" where
  "node_index_are left a n z \<longleftrightarrow> (\<exists>x. node_index left n = Some x \<and> index_are x a z)"

lemma node_counts_set [simp]: "node_counts n = Some c \<Longrightarrow> node_counts (set_counts c' n) = Some c'"
  by (cases n) auto

lemma set_counts_set [simp]: "set_counts c' (set_counts c n) = set_counts c' n"
  by (cases n) auto

lemma node_index_set [simp]: "node_index left n = Some x \<Longrightarrow> node_index left (set_index left x' n) = Some x'"
  by (cases n; cases left) auto

lemma set_index_set [simp]: "set_index left x' (set_index left x n) = set_index left x' n"
  by (cases n; cases left) auto

lemma set_counts_same: "node_counts n = Some c \<Longrightarrow> set_counts c n = n"
  by (cases n) auto

lemma set_index_same: "node_index left n = Some x \<Longrightarrow> set_index left x n = n"
  by (cases n; cases left) auto

interpretation cf: delta_fold "apply_count p i" i node_counts_are "\<lambda>n n'. \<exists>c. n' = set_counts c n" "\<lambda>_. True"
proof
  show "\<exists>c. n = set_counts c n" if "node_counts_are n z" for n z
    using that set_counts_same by (metis node_counts_are_def)
  show "\<exists>c. n'' = set_counts c n" if "\<exists>c. n' = set_counts c n" "\<exists>c. n'' = set_counts c n'" for n n' n''
    using that by auto
next
  fix s :: prop_state and z :: "row \<Rightarrow> i64" and row :: row and w :: i64
  assume i: "i < length (pr_nodes s)" and "node_counts_are (pr_nodes s ! i) z"
  then obtain c where c: "node_counts (pr_nodes s ! i) = Some c" "hm_inv c" "map_of c = support_map z"
    by (auto simp: node_counts_are_def counts_are_def)
  let ?c = "if z row + w = 0 then AList.delete row c else AList.update row (z row + w) c"
  have "counts_are ?c (z(row := z row + w))"
    using c by (simp add: counts_are_def support_map_upd)
  moreover have "apply_count p i (row, w) s =
      (if sint (z row + w) < 0 then (Err (ferr Maintain (Internal (SupportNegative row (z row + w)))), s)
       else (Ok (), put_node i (set_counts ?c (pr_nodes s ! i)) (pr_journal s @ [UCounts p i row (map_of c row)]) s))"
    using i c by (simp add: apply_count_def Let_def pr_put_push support_map_or_zero)
  ultimately show "(\<exists>n' j. apply_count p i (row, w) s = (Ok (), put_node i n' j s) \<and> node_counts_are n' (z(row := z row + w)) \<and>
        (\<exists>c. n' = set_counts c (pr_nodes s ! i)))
      \<or> (\<exists>er s'. apply_count p i (row, w) s = (Err er, s') \<and> fe_stage er = Maintain \<and> sint (z row + w) < 0)"
    using c(1) by (auto simp: node_counts_are_def ferr_def)
qed

lemma index_are_rows: "index_are x a z \<Longrightarrow> map_of (index_rows x key) row = (if key = [row ! a] then support_map z row else None)"
  by (simp add: index_are_def kidx_def fun_eq_iff)

interpretation xf: delta_fold "index_update_one p i left a" i "node_index_are left a"
    "\<lambda>n n'. \<exists>x. n' = set_index left x n" "\<lambda>row. a < length row"
proof
  show "\<exists>x. n = set_index left x n" if "node_index_are left a n z" for n z
    using that set_index_same by (metis node_index_are_def)
  show "\<exists>x. n'' = set_index left x n" if "\<exists>x. n' = set_index left x n" "\<exists>x. n'' = set_index left x n'" for n n' n''
    using that by auto
next
  fix s :: prop_state and z :: "row \<Rightarrow> i64" and row :: row and w :: i64
  assume i: "i < length (pr_nodes s)" and "node_index_are left a (pr_nodes s ! i) z" and a: "a < length row"
  then obtain x where x: "node_index left (pr_nodes s ! i) = Some x" "index_are x a z"
    by (auto simp: node_index_are_def)
  define key where "key = [row ! a]"
  define x1 where "x1 = (if map_of x key = None then AList.update key [] x else x)"
  define entry where "entry = index_rows x1 key"
  define nx where "nx = z row + w"
  define entry' where "entry' = (if nx = 0 then AList.delete row entry else AList.update row nx entry)"
  define x2 where "x2 = (if entry' = [] then AList.delete key x1 else AList.update key entry' x1)"
  have k1: "index_rows x1 k = index_rows x k" for k
    by (auto simp: x1_def index_rows_update index_rows_def)
  have e: "map_of entry row = support_map z row" "hm_inv entry"
    using x(2) index_inv_rows [of x key] by (simp_all add: entry_def k1 index_are_rows key_def index_are_def)
  have inv2: "index_inv x2"
    using x(2) e(2) by (auto simp: x2_def x1_def entry'_def index_are_def
        intro!: index_inv_delete index_inv_update)
  have "kidx x2 k = (if k = key then map_of entry' else kidx x k)" for k
    by (auto simp: x2_def kidx_def index_rows_update index_rows_delete k1)
  moreover have "map_of entry' = (kidx x key)(row := (if nx = 0 then None else Some nx))"
    by (simp add: entry'_def entry_def k1 kidx_def)
  ultimately have "kidx x2 = (\<lambda>k r. if k = [r ! a] then support_map (z(row := nx)) r else None)"
    using x(2) by (auto simp: fun_eq_iff support_map_upd index_are_def key_def)
  with inv2 have x2: "index_are x2 a (z(row := nx))" by (simp add: index_are_def)
  have "\<exists>s'. index_update_one p i left a (row, w) s =
      (if sint nx < 0 then (Err (ferr Maintain (Internal (IndexNegative key nx))), s')
       else (Ok (), put_node i (set_index left x2 (pr_nodes s ! i)) (pr_journal s @ [UKeyIndex p i left key row (map_of entry row)]) s))"
    using i x(1) a
    by (auto simp: index_update_one_def Let_def join_key_def pr_put_push key_def [symmetric] x1_def [symmetric]
        index_rows_def [of x1, symmetric] entry_def [symmetric] e(1) support_map_or_zero nx_def [symmetric]
        entry'_def x2_def)
  with x2 x(1) show "(\<exists>n' j. index_update_one p i left a (row, w) s = (Ok (), put_node i n' j s) \<and>
        node_index_are left a n' (z(row := z row + w)) \<and> (\<exists>x. n' = set_index left x (pr_nodes s ! i)))
      \<or> (\<exists>er s'. index_update_one p i left a (row, w) s = (Err er, s') \<and> fe_stage er = Maintain \<and> sint (z row + w) < 0)"
    by (auto simp: node_index_are_def nx_def ferr_def split: if_splits)
qed

end
