(* ===== verification/Frontier_Delta.thy ===== *)
theory Frontier_Delta
  imports Frontier_Node
begin

text \<open>
  The delta each operator computes from its children's deltas, as a Z-set: union and projection are
  linear, an aggregate's count and sum changes are, and the join computes \<open>\<Delta>L \<bowtie> R'\<close> plus
  \<open>L \<bowtie> \<Delta>R\<close> over those rows of \<open>L\<close> that are still there after the frontier.
\<close>

definition delta_ok :: "counts \<Rightarrow> (row \<Rightarrow> i64) \<Rightarrow> (row \<Rightarrow> i64) \<Rightarrow> bool" where
  "delta_ok d z z' \<longleftrightarrow> distinct (map fst d) \<and> nonzero d \<and> zget d = (\<lambda>row. z' row - z row)"

lemma delta_ok_distinct: "delta_ok d z z' \<Longrightarrow> distinct (map fst d)"
  by (simp add: delta_ok_def)

lemma delta_ok_add: "delta_ok d z z' \<Longrightarrow> (\<lambda>row. z row + zget d row) = z'"
  by (simp add: delta_ok_def)

lemma delta_ok_mem: "delta_ok d z z' \<Longrightarrow> (row, w) \<in> set d \<Longrightarrow> z row \<noteq> 0 \<or> z' row \<noteq> 0"
  unfolding delta_ok_def nonzero_def
  by (metis (mono_tags) diff_zero zget_mem)

text \<open>A fold whose steps each add to the weights.\<close>

definition weights_ok :: "counts \<Rightarrow> bool" where
  "weights_ok m \<longleftrightarrow> hm_inv m \<and> nonzero m"

lemma weights_ok_Nil [simp]: "weights_ok []"
  by (simp add: weights_ok_def)

lemma weights_ok_accumulate [simp]: "weights_ok m \<Longrightarrow> weights_ok (accumulate m row w)"
  by (simp add: weights_ok_def accumulate_def hmw.inv_accum hmw.nonzero_accum)

lemma zget_accumulate [simp]:
  "weights_ok m \<Longrightarrow> zget (accumulate m row w) row' = zget m row' + (if row' = row then w else 0)"
  by (simp add: weights_ok_def accumulate_def hmw.zget_accum)

lemma weights_fold:
  assumes "\<And>x m. x \<in> set xs \<Longrightarrow> weights_ok m \<Longrightarrow> weights_ok (g x m) \<and> zget (g x m) = (\<lambda>k. zget m k + h x k)"
    and "weights_ok m"
  shows "weights_ok (fold g xs m) \<and> zget (fold g xs m) = (\<lambda>k. zget m k + (\<Sum>x\<leftarrow>xs. h x k))"
  using assms
proof (induction xs arbitrary: m)
  case (Cons x xs)
  then have "weights_ok (g x m)" "zget (g x m) = (\<lambda>k. zget m k + h x k)" by auto
  with Cons.IH [OF _ this(1)] Cons.prems(1) show ?case by (simp add: add.assoc)
qed simp

lemma rust_fold_Ok:
  "(\<And>x b. x \<in> set xs \<Longrightarrow> f x b = Ok (g x b)) \<Longrightarrow> rust_fold xs b f = Ok (fold g xs b)"
  by (induction xs arbitrary: b) auto

lemma accumulate_fold:
  "weights_ok m \<Longrightarrow> weights_ok (fold (\<lambda>(k, w) m. accumulate m (f k) (g k w)) xs m) \<and>
     zget (fold (\<lambda>(k, w) m. accumulate m (f k) (g k w)) xs m) =
       (\<lambda>row. zget m row + (\<Sum>(k, w)\<leftarrow>xs. if f k = row then g k w else 0))"
proof -
  assume "weights_ok m"
  then have "weights_ok (fold (\<lambda>(k, w) m. accumulate m (f k) (g k w)) xs m) \<and>
     zget (fold (\<lambda>(k, w) m. accumulate m (f k) (g k w)) xs m) =
       (\<lambda>row. zget m row + (\<Sum>x\<leftarrow>xs. (\<lambda>(k, w) row. if f k = row then g k w else 0) x row))"
    by (intro weights_fold) auto
  then show ?thesis by (simp add: case_prod_unfold)
qed

lemma sum_list_if_one:
  "distinct (map fst m) \<Longrightarrow> (\<Sum>(k, w)\<leftarrow>m. if P k then w else 0) = zint (zget m) (\<lambda>k. if P k then 1 else 0)"
  using sum_list_if_zint [of m P "\<lambda>_. 1"] by (simp only: mult_1_right)

subsection \<open>Union\<close>

lemma merge_delta_ok:
  assumes "weights_ok m" and "distinct (map fst d)"
  shows "weights_ok (merge_delta m d) \<and> zget (merge_delta m d) = (\<lambda>row. zget m row + zget d row)"
proof -
  have "(\<Sum>(k, w)\<leftarrow>d. if k = row then w else 0) = zget d row" for row
    using assms(2) by (induction d) (force simp: zget_Cons zget_def map_of_eq_None_iff image_iff split: option.split)+
  then show ?thesis
    using accumulate_fold [OF assms(1), of "\<lambda>k. k" "\<lambda>k w. w" d] by (simp add: merge_delta_def)
qed

subsection \<open>Projection\<close>

lemma pick_cols_Ok: "(\<And>c. c \<in> set cs \<Longrightarrow> c < length r) \<Longrightarrow> pick_cols cs r = Ok (cols_of cs r)"
  unfolding pick_cols_def cols_of_def by (rule map_rust_OkI) auto

lemma zproject_diff: "zfin z \<Longrightarrow> zfin z' \<Longrightarrow> zproject cs (\<lambda>x. z' x - z x) row = zproject cs z' row - zproject cs z row"
  by (simp add: zproject_def zint_diff)

lemma project_delta_ok:
  assumes d: "delta_ok d z z'" and fin: "zfin z" "zfin z'"
    and len: "\<And>row w c. (row, w) \<in> set d \<Longrightarrow> c \<in> set cs \<Longrightarrow> c < length row"
  shows "\<exists>out. project_delta cs d = Ok out \<and> hm_inv out \<and> delta_ok out (zproject cs z) (zproject cs z')"
proof -
  let ?out = "fold (\<lambda>(row, w) out. accumulate out (cols_of cs row) w) d []"
  have "project_delta cs d = Ok ?out"
    unfolding project_delta_def by (rule rust_fold_Ok) (auto simp: pick_cols_Ok len)
  moreover have "weights_ok ?out" "zget ?out = zproject cs (zget d)"
    using accumulate_fold [OF weights_ok_Nil, of "cols_of cs" "\<lambda>k w. w" d]
      sum_list_if_one [OF delta_ok_distinct [OF d]]
    by (simp_all add: zproject_def fun_eq_iff)
  ultimately show ?thesis
    using d fin by (auto simp: delta_ok_def weights_ok_def hm_inv_def zproject_diff)
qed

subsection \<open>Join\<close>

lemma zint_swap:
  assumes "zfin a" and "zfin b"
  shows "zint a (\<lambda>x. zint b (f x)) = zint b (\<lambda>y. zint a (\<lambda>x. f x y))"
  unfolding zint_def sum_distrib_left
  by (subst sum.swap) (simp add: algebra_simps)

lemma zjoin_swap:
  "zfin a \<Longrightarrow> zfin b \<Longrightarrow> zjoin i j a b row = zint b (\<lambda>y. zint a (\<lambda>x. if x ! i = y ! j \<and> x @ y = row then 1 else 0))"
  unfolding zjoin_def by (rule zint_swap)

lemma zjoin_add_left: "zfin a \<Longrightarrow> zfin a' \<Longrightarrow> zjoin i j (\<lambda>x. a x + a' x) b row = zjoin i j a b row + zjoin i j a' b row"
  by (simp add: zjoin_def zint_add)

lemma zjoin_diff_left: "zfin a \<Longrightarrow> zfin a' \<Longrightarrow> zjoin i j (\<lambda>x. a' x - a x) b row = zjoin i j a' b row - zjoin i j a b row"
  by (simp add: zjoin_def zint_diff)

lemma zjoin_diff_right:
  "zfin b \<Longrightarrow> zfin b' \<Longrightarrow> zjoin i j a (\<lambda>x. b' x - b x) row = zjoin i j a b' row - zjoin i j a b row"
  by (simp add: zjoin_def zint_diff zint_diff_right)

text \<open>The rows of \<open>zl\<close> that the index still holds after the frontier.\<close>

definition zkept :: "('a \<Rightarrow> i64) \<Rightarrow> ('a \<Rightarrow> i64) \<Rightarrow> 'a \<Rightarrow> i64" where
  "zkept z z' x = (if z' x = 0 then 0 else z x)"

lemma zfin_zkept: "zfin z \<Longrightarrow> zfin (zkept z z')"
  unfolding zfin_def by (rule finite_subset [of _ "{x. z x \<noteq> 0}"]) (auto simp: zkept_def)

lemma sum_index:
  assumes "hm_inv m" and "\<And>k. map_of m k = (if Q k then support_map z k else None)"
  shows "(\<Sum>(k, w)\<leftarrow>m. g k w) = (\<Sum>k | z k \<noteq> 0 \<and> Q k. g k (z k :: i64))"
proof -
  have keys: "fst ` set m = {k. z k \<noteq> 0 \<and> Q k}"
    using assms(2) unfolding dom_map_of_conv_image_fst [symmetric] by (auto simp: dom_def support_map_def split: if_splits)
  have "(\<Sum>(k, w)\<leftarrow>m. g k w) = (\<Sum>x\<leftarrow>m. g (fst x) (z (fst x)))"
  proof (intro arg_cong [where f = sum_list] map_cong refl)
    fix x assume x: "x \<in> set m"
    obtain k w where kw: "x = (k, w)" by (cases x)
    from x assms(1) have "map_of m k = Some w" by (simp add: kw hm_inv_def)
    with assms(2) [of k] have "w = z k" by (auto simp: support_map_def split: if_splits)
    then show "(case x of (k, w) \<Rightarrow> g k w) = g (fst x) (z (fst x))" by (simp add: kw)
  qed
  also have "\<dots> = (\<Sum>k\<leftarrow>map fst m. g k (z k))" by (simp add: comp_def)
  also have "\<dots> = (\<Sum>k\<in>fst ` set m. g k (z k))"
    using assms(1) sum_list_distinct_conv_sum_set [of "map fst m" "\<lambda>k. g k (z k)"]
    by (simp add: hm_inv_def)
  finally show ?thesis by (simp add: keys)
qed

lemma join_term1_ok:
  assumes ri: "index_are ri b zr" and fin: "zfin zr" and dist: "distinct (map fst dl)" and out: "weights_ok out"
    and len: "\<forall>x \<in> set dl. a < length (fst x)"
  shows "\<exists>out'. join_term1 ri dl a out = Ok out' \<and> weights_ok out' \<and>
    zget out' = (\<lambda>row. zget out row + zjoin a b (zget dl) zr row)"
proof -
  let ?in = "\<lambda>lrow w. fold (\<lambda>(rrow, rw) acc. accumulate acc (lrow @ rrow) (w * rw)) (index_rows ri [lrow ! a])"
  let ?h = "\<lambda>lrow row. zint zr (\<lambda>y. if lrow ! a = y ! b \<and> lrow @ y = row then 1 else 0)"
  have inner: "weights_ok (?in lrow w m) \<and> zget (?in lrow w m) = (\<lambda>row. zget m row + w * ?h lrow row)"
    if m: "weights_ok m" for lrow w m
  proof -
    have rows: "hm_inv (index_rows ri [lrow ! a])"
      "map_of (index_rows ri [lrow ! a]) y = (if lrow ! a = y ! b then support_map zr y else None)" for y
      using ri index_inv_rows [of ri "[lrow ! a]"] by (simp_all add: index_are_rows) (simp add: index_are_def)
    have "(\<Sum>(y, rw)\<leftarrow>index_rows ri [lrow ! a]. if lrow @ y = row then w * rw else 0) =
        (\<Sum>y | zr y \<noteq> 0 \<and> lrow ! a = y ! b. if lrow @ y = row then w * zr y else 0)" for row
      by (rule sum_index [OF rows])
    also have "\<dots> row = w * ?h lrow row" for row
      unfolding zint_def sum_distrib_left using fin
      by (intro sum.mono_neutral_cong_left) (auto simp: zfin_def)
    finally show ?thesis
      using accumulate_fold [OF m, of "\<lambda>y. lrow @ y" "\<lambda>_ rw. w * rw"] by simp
  qed
  have "join_term1 ri dl a out = Ok (fold (\<lambda>(lrow, w). ?in lrow w) dl out)"
    unfolding join_term1_def by (rule rust_fold_Ok) (use len in \<open>auto simp: join_key_def\<close>)
  moreover have "weights_ok (fold (\<lambda>(lrow, w). ?in lrow w) dl out) \<and>
      zget (fold (\<lambda>(lrow, w). ?in lrow w) dl out) = (\<lambda>row. zget out row + (\<Sum>x\<leftarrow>dl. (\<lambda>(lrow, w) row. w * ?h lrow row) x row))"
    by (rule weights_fold [OF _ out]) (use inner in \<open>auto split: prod.split\<close>)
  moreover have "(\<Sum>x\<leftarrow>dl. (\<lambda>(lrow, w) row. w * ?h lrow row) x row) = zjoin a b (zget dl) zr row" for row
    unfolding zjoin_def zint_zget [OF dist] by (simp add: case_prod_unfold)
  ultimately show ?thesis by auto
qed

lemma join_term2_ok:
  assumes li: "index_are li a zl'" and fin: "zfin zl" "zfin zl'" and dl: "delta_ok dl zl zl'"
    and dist: "distinct (map fst dr)" and out: "weights_ok out"
    and len: "\<forall>x \<in> set dr. b < length (fst x)"
  shows "\<exists>out'. join_term2 li dl dr b out = Ok out' \<and> weights_ok out' \<and>
    zget out' = (\<lambda>row. zget out row + zjoin a b (zkept zl zl') (zget dr) row)"
proof -
  let ?g = "\<lambda>rrow w (lrow, lw) acc. let pre = lw - zget dl lrow
    in if pre \<noteq> 0 then accumulate acc (lrow @ rrow) (pre * w) else acc"
  let ?in = "\<lambda>rrow w. fold (?g rrow w) (index_rows li [rrow ! b])"
  let ?z = "zkept zl zl'"
  let ?h = "\<lambda>rrow row. zint ?z (\<lambda>x. if x ! a = rrow ! b \<and> x @ rrow = row then 1 else 0)"
  have pre: "zl' x - zget dl x = zl x" for x using dl by (simp add: delta_ok_def)
  have inner: "weights_ok (?in rrow w m) \<and> zget (?in rrow w m) = (\<lambda>row. zget m row + w * ?h rrow row)"
    if m: "weights_ok m" for rrow w m
  proof -
    have rows: "hm_inv (index_rows li [rrow ! b])"
      "map_of (index_rows li [rrow ! b]) x = (if x ! a = rrow ! b then support_map zl' x else None)" for x
      using li index_inv_rows [of li "[rrow ! b]"] by (auto simp: index_are_rows) (simp add: index_are_def)
    have "(\<Sum>(x, lw)\<leftarrow>index_rows li [rrow ! b]. if x @ rrow = row then (lw - zget dl x) * w else 0) =
        (\<Sum>x | zl' x \<noteq> 0 \<and> x ! a = rrow ! b. if x @ rrow = row then (zl' x - zget dl x) * w else 0)" for row
      by (rule sum_index [OF rows])
    also have "\<dots> row = w * ?h rrow row" for row
      unfolding zint_def sum_distrib_left pre using fin
      by (intro sum.mono_neutral_cong) (auto simp: zfin_def zkept_def)
    finally have sum: "(\<Sum>(x, lw)\<leftarrow>index_rows li [rrow ! b]. if x @ rrow = row then (lw - zget dl x) * w else 0) =
        w * ?h rrow row" for row .
    have "weights_ok (?in rrow w m) \<and> zget (?in rrow w m) = (\<lambda>row. zget m row +
        (\<Sum>y\<leftarrow>index_rows li [rrow ! b]. (\<lambda>(x, lw) row. if x @ rrow = row then (lw - zget dl x) * w else 0) y row))"
      by (rule weights_fold [OF _ m]) (auto simp: Let_def split: prod.split)
    with sum show ?thesis by (simp add: case_prod_unfold)
  qed
  have "join_term2 li dl dr b out = Ok (fold (\<lambda>(rrow, w). ?in rrow w) dr out)"
    unfolding join_term2_def by (rule rust_fold_Ok) (use len in \<open>auto simp: join_key_def\<close>)
  moreover have "weights_ok (fold (\<lambda>(rrow, w). ?in rrow w) dr out) \<and>
      zget (fold (\<lambda>(rrow, w). ?in rrow w) dr out) = (\<lambda>row. zget out row + (\<Sum>x\<leftarrow>dr. (\<lambda>(rrow, w) row. w * ?h rrow row) x row))"
    by (rule weights_fold [OF _ out]) (use inner in \<open>auto split: prod.split\<close>)
  moreover have "(\<Sum>x\<leftarrow>dr. (\<lambda>(rrow, w) row. w * ?h rrow row) x row) = zjoin a b ?z (zget dr) row" for row
    unfolding zjoin_swap [OF zfin_zkept [OF fin(1)] zfin_zget] zint_zget [OF dist] by (simp add: case_prod_unfold)
  ultimately show ?thesis by auto
qed

text \<open>
  A left row that the frontier removes for good must not meet a right row the frontier changes:
  then, and in general only then, the two terms add up to the change of the join.
\<close>

definition join_safe :: "nat \<Rightarrow> nat \<Rightarrow> (row \<Rightarrow> i64) \<Rightarrow> (row \<Rightarrow> i64) \<Rightarrow> (row \<Rightarrow> i64) \<Rightarrow> (row \<Rightarrow> i64) \<Rightarrow> bool" where
  "join_safe a b zl zl' zr zr' \<longleftrightarrow>
     (\<forall>x y. zl x \<noteq> 0 \<longrightarrow> zl' x = 0 \<longrightarrow> zr y \<noteq> zr' y \<longrightarrow> x ! a \<noteq> y ! b)"

lemma zjoin_kept:
  assumes "zfin zl" and "zfin zr" and "zfin zr'" and "join_safe a b zl zl' zr zr'"
  shows "zjoin a b (zkept zl zl') (\<lambda>y. zr' y - zr y) row = zjoin a b zl (\<lambda>y. zr' y - zr y) row"
proof -
  have fin: "zfin (\<lambda>y. zr' y - zr y)" using assms by (intro zfin_diff)
  show ?thesis
    unfolding zjoin_swap [OF zfin_zkept [OF assms(1)] fin] zjoin_swap [OF assms(1) fin]
  proof (rule zint_cong)
    fix y assume y: "zr' y - zr y \<noteq> 0"
    have "zint zl (\<lambda>x. if x ! a = y ! b \<and> x @ y = row then 1 else 0) - zint (zkept zl zl') (\<lambda>x. if x ! a = y ! b \<and> x @ y = row then 1 else 0)
        = zint (\<lambda>x. zl x - zkept zl zl' x) (\<lambda>x. if x ! a = y ! b \<and> x @ y = row then 1 else 0)"
      using assms(1) zfin_zkept by (intro zint_diff [symmetric])
    also have "\<dots> = zint (\<lambda>x. zl x - zkept zl zl' x) (\<lambda>x. 0)"
      using assms(4) y by (intro zint_cong) (auto simp: join_safe_def zkept_def split: if_splits)
    finally show "zint (zkept zl zl') (\<lambda>x. if x ! a = y ! b \<and> x @ y = row then 1 else 0) =
        zint zl (\<lambda>x. if x ! a = y ! b \<and> x @ y = row then 1 else 0)" by simp
  qed
qed

lemma join_delta_ok:
  assumes li: "index_are li a zl'" and ri: "index_are ri b zr'"
    and fin: "zfin zl" "zfin zl'" "zfin zr" "zfin zr'"
    and dl: "delta_ok dl zl zl'" and dr: "delta_ok dr zr zr'" and safe: "join_safe a b zl zl' zr zr'"
    and len: "\<forall>x \<in> set dl. a < length (fst x)" "\<forall>x \<in> set dr. b < length (fst x)"
    and node: "vec_get (pr_nodes s) i = Some (NJoin l r a b c li ri)"
  shows "\<exists>out. join_delta i dl dr a b s = Ok out \<and> hm_inv out \<and> delta_ok out (zjoin a b zl zr) (zjoin a b zl' zr')"
proof -
  obtain o1 where o1: "join_term1 ri dl a [] = Ok o1" "weights_ok o1" "zget o1 = (\<lambda>row. zjoin a b (zget dl) zr' row)"
    using join_term1_ok [OF ri fin(4) delta_ok_distinct [OF dl] weights_ok_Nil, of a] len(1) by auto
  obtain o2 where o2: "join_term2 li dl dr b o1 = Ok o2" "weights_ok o2"
    "zget o2 = (\<lambda>row. zget o1 row + zjoin a b (zkept zl zl') (zget dr) row)"
    using join_term2_ok [OF li fin(1,2) dl delta_ok_distinct [OF dr] o1(2), of b] len(2) by auto
  have "zget dl = (\<lambda>x. zl' x - zl x)" "zget dr = (\<lambda>x. zr' x - zr x)"
    using dl dr by (simp_all add: delta_ok_def)
  then have "zget o2 row = zjoin a b zl' zr' row - zjoin a b zl zr row" for row
    unfolding o2(3) o1(3) using zjoin_kept [OF fin(1,3,4) safe] fin
    by (simp add: zjoin_diff_left zjoin_diff_right)
  with o1 o2 node show ?thesis
    by (simp add: join_delta_def delta_ok_def weights_ok_def hm_inv_def)
qed

end
