(* ===== verification/Frontier_Group.thy ===== *)
theory Frontier_Group
  imports Frontier_Delta
begin

text \<open>
  The aggregate step: the change of every touched group's count and sum, and the fold that updates
  the groups and emits the old and new output rows of each.
\<close>

subsection \<open>Counts and sums per group\<close>

definition bt_weights_ok :: "counts \<Rightarrow> bool" where
  "bt_weights_ok m \<longleftrightarrow> bt_inv row_key m \<and> nonzero m"

lemma fold_pair: "fold (\<lambda>x (a, b). (f x a, g x b)) xs (a, b) = (fold f xs a, fold g xs b)"
  by (induction xs arbitrary: a b) auto

lemma btree_fold:
  "bt_weights_ok (fold (\<lambda>(k, w) m. accumulate_btree m (f k) (g k w)) xs [])"
  "zget (fold (\<lambda>(k, w) m. accumulate_btree m (f k) (g k w)) xs []) key = (\<Sum>(k, w)\<leftarrow>xs. if f k = key then g k w else 0)"
  using btw.fold_accum [of "[]" f g xs] by (simp_all add: bt_weights_ok_def accumulate_btree_def)

lemma zgroup_count_diff: "zfin z \<Longrightarrow> zfin z' \<Longrightarrow>
    zgroup_count gb (\<lambda>x. z' x - z x) key = zgroup_count gb z' key - zgroup_count gb z key"
  by (simp add: zgroup_count_def zint_diff)

lemma zgroup_sum_diff: "zfin z \<Longrightarrow> zfin z' \<Longrightarrow>
    zgroup_sum gb sm (\<lambda>x. z' x - z x) key = zgroup_sum gb sm z' key - zgroup_sum gb sm z key"
  by (simp add: zgroup_sum_def zint_diff split: option.split)

lemma zgroup_length:
  "zgroup_count gb z key \<noteq> 0 \<or> zgroup_sum gb sm z key \<noteq> 0 \<Longrightarrow> length key = length gb"
  by (auto simp: zgroup_count_def zgroup_sum_def dest!: zint_nonzero_ex split: option.splits if_splits)

lemma group_deltas_ok:
  assumes d: "delta_ok d z z'" and fin: "zfin z" "zfin z'"
    and len: "\<And>row w c. (row, w) \<in> set d \<Longrightarrow> c \<in> set gb \<union> set_option sm \<Longrightarrow> c < length row"
  shows "\<exists>cs ss. group_deltas gb sm d = Ok (cs, ss) \<and> bt_weights_ok cs \<and> bt_weights_ok ss \<and>
    zget cs = (\<lambda>key. zgroup_count gb z' key - zgroup_count gb z key) \<and>
    zget ss = (\<lambda>key. zgroup_sum gb sm z' key - zgroup_sum gb sm z key)"
proof -
  let ?c = "\<lambda>(row, w) m. accumulate_btree m (cols_of gb row) w"
  let ?s = "\<lambda>(row, w) m. case sm of None \<Rightarrow> m | Some c \<Rightarrow> accumulate_btree m (cols_of gb row) (w * row ! c)"
  have "group_deltas gb sm d = Ok (fold (\<lambda>x (a, b). (?c x a, ?s x b)) d ([], []))"
    unfolding group_deltas_def
  proof (rule rust_fold_Ok)
    fix x :: "row \<times> i64" and b :: "counts \<times> counts"
    assume x: "x \<in> set d"
    obtain row w cs ss where xb: "x = (row, w)" "b = (cs, ss)" by (cases x; cases b)
    with x len have "pick_cols gb row = Ok (cols_of gb row)" by (auto intro!: pick_cols_Ok)
    then show "(case x of (row, w) \<Rightarrow> \<lambda>(cs, ss). rust_bind (pick_cols gb row) (\<lambda>key.
         case sm of None \<Rightarrow> Ok (accumulate_btree cs key w, ss)
         | Some col \<Rightarrow> rust_bind (vec_index row col) (\<lambda>cell.
             Ok (accumulate_btree cs key w, accumulate_btree ss key (w * cell))))) b =
        Ok (case b of (a, b) \<Rightarrow> (?c x a, ?s x b))"
      using x len [of row w] by (auto simp: xb split: option.split)
  qed
  also have "\<dots> = Ok (fold ?c d [], fold ?s d [])"
    unfolding fold_pair ..
  finally have gd: "group_deltas gb sm d = Ok (fold ?c d [], fold ?s d [])" .
  have zc: "zget (fold ?c d []) = zgroup_count gb (zget d)"
    using btree_fold(2) [of "cols_of gb" "\<lambda>k w. w" d] sum_list_if_one [OF delta_ok_distinct [OF d]]
    by (simp add: zgroup_count_def fun_eq_iff)
  have zs: "bt_weights_ok (fold ?s d []) \<and> zget (fold ?s d []) = zgroup_sum gb sm (zget d)"
  proof (cases sm)
    case None
    have "fold ?s d [] = []" unfolding None by (induction d) auto
    then show ?thesis by (simp add: bt_weights_ok_def zgroup_sum_def None fun_eq_iff)
  next
    case (Some c)
    show ?thesis
      using btree_fold [of "cols_of gb" "\<lambda>k w. w * k ! c" d] sum_list_if_zint [OF delta_ok_distinct [OF d], of _ "\<lambda>x. x ! c"]
      by (simp add: zgroup_sum_def Some fun_eq_iff)
  qed
  have "zget d = (\<lambda>x. z' x - z x)" using d by (simp add: delta_ok_def)
  with gd zc zs show ?thesis
    using btree_fold(1) [of "cols_of gb" "\<lambda>k w. w" d] fin
    by (auto simp: zgroup_count_diff zgroup_sum_diff fun_eq_iff)
qed

lemma group_keys_set: "bt_inv row_key m \<Longrightarrow>
    bt_inv row_key (fold (\<lambda>k m. bt_insert row_key k () m) ks m) \<and>
    fst ` set (fold (\<lambda>k m. bt_insert row_key k () m) ks m) = set ks \<union> fst ` set m"
proof (induction ks arbitrary: m)
  case (Cons k ks)
  have "fst ` set (bt_insert row_key k () m) = insert k (fst ` set m)"
    using map_of_bt_insert [OF inj_row_key Cons.prems, of k "()"]
    by (simp flip: dom_map_of_conv_image_fst)
  with Cons.IH [of "bt_insert row_key k () m"] Cons.prems show ?case by auto
qed simp

lemma group_keys_ok:
  "distinct (group_keys cs ss)" "set (group_keys cs ss) = fst ` set cs \<union> fst ` set ss"
  using group_keys_set [of "[]" "map fst cs @ map fst ss"]
  by (auto simp: group_keys_def bt_inv_distinct)

lemma bt_weights_mem: "bt_weights_ok m \<Longrightarrow> key \<in> fst ` set m \<longleftrightarrow> zget m key \<noteq> 0"
  unfolding bt_weights_ok_def
  by (metis bt_inv_distinct map_of_eq_None_iff nonzero_get option.distinct(1))

subsection \<open>Updating the groups\<close>

text \<open>No group has wrapped: a count of zero means no rows, and no count is negative.\<close>

definition agg_ok :: "nat list \<Rightarrow> nat option \<Rightarrow> (row \<Rightarrow> i64) \<Rightarrow> bool" where
  "agg_ok gb sm z \<longleftrightarrow> (\<forall>key. 0 \<le> sint (zgroup_count gb z key) \<and>
     (zgroup_count gb z key = 0 \<longrightarrow> zgroup_sum gb sm z key = 0))"

lemma agg_ok_pos: "agg_ok gb sm z \<Longrightarrow> zgroup gb sm z key = Some g \<Longrightarrow> 0 < sint (g_count g)"
  unfolding agg_ok_def zgroup_def
  by (auto split: if_splits) (metis order_le_less signed_0 sint_eq_iff)

lemma take_group_row: "length key = n \<Longrightarrow> take n (group_row cnt sm key g) = key"
  by (simp add: group_row_def)

lemma update_group_one:
  assumes i: "i < length (pr_nodes s)" and n: "pr_nodes s ! i = NAggregate j gb cnt sm groups"
    and gs: "hm_inv groups" "map_of groups key = zgroup gb sm z key" and ok: "agg_ok gb sm z"
    and cs: "zget cs key = zgroup_count gb z' key - zgroup_count gb z key"
    and ss: "zget ss key = zgroup_sum gb sm z' key - zgroup_sum gb sm z key"
    and key: "length key = length gb" and out: "weights_ok out"
  shows "(\<exists>groups' out' jr. update_group p i cnt sm cs ss key out s =
        (Ok out', put_node i (NAggregate j gb cnt sm groups') jr s) \<and> hm_inv groups' \<and>
        map_of groups' = (map_of groups)(key := zgroup gb sm z' key) \<and> weights_ok out' \<and>
        zget out' = (\<lambda>row. zget out row +
          (if take (length gb) row = key then zaggregate gb cnt sm z' row - zaggregate gb cnt sm z row else 0)))
    \<or> (\<exists>er s'. update_group p i cnt sm cs ss key out s = (Err er, s') \<and> fe_stage er = Maintain \<and>
        sint (zgroup_count gb z' key) < 0)"
proof -
  define new where "new = \<lparr>g_count = zgroup_count gb z' key, g_sum = zgroup_sum gb sm z' key\<rparr>"
  define old where "old = (case zgroup gb sm z key of None \<Rightarrow> \<lparr>g_count = 0, g_sum = 0\<rparr> | Some g \<Rightarrow> g)"
  have "old = \<lparr>g_count = zgroup_count gb z key, g_sum = zgroup_sum gb sm z key\<rparr>"
    using ok by (auto simp: old_def zgroup_def agg_ok_def)
  then have new: "g_count old + zget cs key = g_count new" "g_sum old + zget ss key = g_sum new"
    "\<lparr>g_count = g_count new, g_sum = g_sum new\<rparr> = new"
    by (simp_all add: new_def cs ss)
  have old': "(case map_of groups key of None \<Rightarrow> \<lparr>g_count = 0, g_sum = 0\<rparr> | Some g \<Rightarrow> g) = old"
    by (simp add: old_def gs)
  have zn: "zgroup gb sm z' key = (if g_count new = 0 then None else Some new)"
    by (simp add: zgroup_def new_def)
  have zo: "zgroup gb sm z key = None \<or> zgroup gb sm z key = Some old \<and> 0 < sint (g_count old)"
    using agg_ok_pos [OF ok, of key] by (auto simp: old_def split: option.splits)
  have agg: "zaggregate gb cnt sm x row = (case zgroup gb sm x key of None \<Rightarrow> 0
       | Some g \<Rightarrow> if row = group_row cnt sm key g then 1 else 0)" if "take (length gb) row = key" for x row
    unfolding zaggregate_def that ..
  note tk = take_group_row [OF key, of cnt sm]
  define groups' where "groups' = (if g_count new = 0 then AList.delete key groups else AList.update key new groups)"
  define was where "was = (case map_of groups key of None \<Rightarrow> False | Some g \<Rightarrow> 0 < sint (g_count g))"
  define out' where "out' = (if was then
      (if 0 < sint (g_count new) then accumulate (accumulate out (group_row cnt sm key old) (- 1)) (group_row cnt sm key new) 1
       else accumulate out (group_row cnt sm key old) (- 1))
    else (if 0 < sint (g_count new) then accumulate out (group_row cnt sm key new) 1 else out))"
  have ug: "update_group p i cnt sm cs ss key out s =
     (if sint (g_count new) < 0 then (Err (ferr Maintain (Internal (GroupNegative key))), s)
      else if map_of groups key = Some new then (Ok out, s)
      else (Ok out', put_node i (NAggregate j gb cnt sm groups') (pr_journal s @ [UGroup p i key (map_of groups key)]) s))"
    by (simp only: update_group_def Let_def i n old' new group.simps vec_in_range option.case node.case
        pr_put_push was_def out'_def groups'_def)
  have was: "was \<longleftrightarrow> zgroup gb sm z key \<noteq> None"
    using zo by (auto simp: was_def gs)
  show ?thesis
  proof (cases "sint (g_count new) < 0")
    case True
    then show ?thesis by (simp add: ug new_def ferr_def)
  next
    case nneg: False
    show ?thesis
    proof (cases "zgroup gb sm z key = Some new")
      case True
      then have "update_group p i cnt sm cs ss key out s = (Ok out, s)"
        using nneg by (simp add: ug gs)
      moreover have "s = put_node i (NAggregate j gb cnt sm groups) (pr_journal s) s"
        using n by (simp add: put_node_same)
      moreover have same: "zgroup gb sm z' key = zgroup gb sm z key"
        using True zo zn by auto
      ultimately show ?thesis
        using gs out by (intro disjI1 exI [of _ groups] exI [of _ out] exI [of _ "pr_journal s"])
          (auto simp: agg fun_upd_idem)
    next
      case False
      have pos: "0 < sint (g_count new) \<longleftrightarrow> g_count new \<noteq> 0"
        using nneg by (metis linorder_cases order_less_irrefl signed_0 sint_eq_iff)
      have "update_group p i cnt sm cs ss key out s = (Ok out', put_node i (NAggregate j gb cnt sm groups')
          (pr_journal s @ [UGroup p i key (map_of groups key)]) s)"
        using nneg False by (simp add: ug gs)
      moreover have "hm_inv groups'" "map_of groups' = (map_of groups)(key := zgroup gb sm z' key)"
        using gs by (simp_all add: groups'_def zn)
      moreover have "weights_ok out'" using out by (simp add: out'_def)
      moreover have "zget out' row = zget out row +
          (if take (length gb) row = key then zaggregate gb cnt sm z' row - zaggregate gb cnt sm z row else 0)" for row
      proof (cases "take (length gb) row = key")
        case True
        show ?thesis
          using zo out by (auto simp: True agg [OF True] out'_def was zn pos)
      next
        case False
        then have "row \<noteq> group_row cnt sm key g" for g using tk by auto
        with out show ?thesis by (auto simp: False out'_def)
      qed
      ultimately show ?thesis by blast
    qed
  qed
qed

lemma update_groups:
  assumes ok: "agg_ok gb sm z" and out: "weights_ok out" and inv: "hm_inv groups"
    and i: "i < length (pr_nodes s)" and n: "pr_nodes s ! i = NAggregate j gb cnt sm groups"
    and ks: "distinct ks" "\<forall>key \<in> set ks. map_of groups key = zgroup gb sm z key \<and> length key = length gb"
    and cs: "\<And>key. zget cs key = zgroup_count gb z' key - zgroup_count gb z key"
    and ss: "\<And>key. zget ss key = zgroup_sum gb sm z' key - zgroup_sum gb sm z key"
  shows "(\<exists>groups' out' jr. st_fold ks out (update_group p i cnt sm cs ss) s =
        (Ok out', put_node i (NAggregate j gb cnt sm groups') jr s) \<and> hm_inv groups' \<and>
        map_of groups' = (\<lambda>key. if key \<in> set ks then zgroup gb sm z' key else map_of groups key) \<and> weights_ok out' \<and>
        zget out' = (\<lambda>row. zget out row +
          (if take (length gb) row \<in> set ks then zaggregate gb cnt sm z' row - zaggregate gb cnt sm z row else 0)))
    \<or> (\<exists>er s' key. st_fold ks out (update_group p i cnt sm cs ss) s = (Err er, s') \<and> fe_stage er = Maintain \<and>
        sint (zgroup_count gb z' key) < 0)"
  using out inv i n ks
proof (induction ks arbitrary: out groups s)
  case Nil
  then have "st_fold [] out (update_group p i cnt sm cs ss) s = (Ok out, put_node i (NAggregate j gb cnt sm groups) (pr_journal s) s)"
    by (simp add: st_return_def put_node_same)
  with Nil.prems show ?case
    by (intro disjI1 exI [of _ groups] exI [of _ out] exI [of _ "pr_journal s"]) simp
next
  case (Cons key ks)
  from Cons.prems have k: "map_of groups key = zgroup gb sm z key" "length key = length gb" by auto
  from update_group_one [OF Cons.prems(3,4,2) k(1) ok cs ss k(2) Cons.prems(1), where p = p] consider
    (good) groups' out' jr where "update_group p i cnt sm cs ss key out s = (Ok out', put_node i (NAggregate j gb cnt sm groups') jr s)"
      "hm_inv groups'" "map_of groups' = (map_of groups)(key := zgroup gb sm z' key)" "weights_ok out'"
      "zget out' = (\<lambda>row. zget out row +
          (if take (length gb) row = key then zaggregate gb cnt sm z' row - zaggregate gb cnt sm z row else 0))"
    | (bad) er s' where "update_group p i cnt sm cs ss key out s = (Err er, s')" "fe_stage er = Maintain"
      "sint (zgroup_count gb z' key) < 0"
    by blast
  then show ?case
  proof cases
    case good
    let ?s = "put_node i (NAggregate j gb cnt sm groups') jr s"
    have ks: "\<forall>k \<in> set ks. map_of groups' k = zgroup gb sm z k \<and> length k = length gb"
      using Cons.prems(5,6) by (auto simp: good(3))
    have "i < length (pr_nodes ?s)" "pr_nodes ?s ! i = NAggregate j gb cnt sm groups'" "distinct ks"
      using Cons.prems by simp_all
    from Cons.IH [OF good(4,2) this ks] have IH: "(\<exists>groups'' out'' jr'. st_fold ks out' (update_group p i cnt sm cs ss) ?s =
        (Ok out'', put_node i (NAggregate j gb cnt sm groups'') jr' s) \<and> hm_inv groups'' \<and>
        map_of groups'' = (\<lambda>k. if k \<in> set ks then zgroup gb sm z' k else map_of groups' k) \<and> weights_ok out'' \<and>
        zget out'' = (\<lambda>row. zget out' row +
          (if take (length gb) row \<in> set ks then zaggregate gb cnt sm z' row - zaggregate gb cnt sm z row else 0)))
      \<or> (\<exists>er s' key. st_fold ks out' (update_group p i cnt sm cs ss) ?s = (Err er, s') \<and> fe_stage er = Maintain \<and>
        sint (zgroup_count gb z' key) < 0)"
      by simp
    have step: "st_fold (key # ks) out (update_group p i cnt sm cs ss) s = st_fold ks out' (update_group p i cnt sm cs ss) ?s"
      by (simp add: st_bind_def good(1))
    have fresh: "key \<notin> set ks" using Cons.prems(5) by simp
    show ?thesis
      unfolding step using IH
    proof (elim disjE exE conjE)
      fix groups'' out'' jr'
      assume r: "st_fold ks out' (update_group p i cnt sm cs ss) ?s = (Ok out'', put_node i (NAggregate j gb cnt sm groups'') jr' s)"
        "hm_inv groups''" "weights_ok out''"
        and m: "map_of groups'' = (\<lambda>k. if k \<in> set ks then zgroup gb sm z' k else map_of groups' k)"
        and o: "zget out'' = (\<lambda>row. zget out' row +
          (if take (length gb) row \<in> set ks then zaggregate gb cnt sm z' row - zaggregate gb cnt sm z row else 0))"
      have "map_of groups'' = (\<lambda>k. if k \<in> set (key # ks) then zgroup gb sm z' k else map_of groups k)"
        using fresh by (auto simp: m good(3))
      moreover have "zget out'' = (\<lambda>row. zget out row +
          (if take (length gb) row \<in> set (key # ks) then zaggregate gb cnt sm z' row - zaggregate gb cnt sm z row else 0))"
        using fresh by (auto simp: o good(5) fun_eq_iff)
      ultimately show "(\<exists>groups' out'a jr. st_fold ks out' (update_group p i cnt sm cs ss) ?s =
        (Ok out'a, put_node i (NAggregate j gb cnt sm groups') jr s) \<and> hm_inv groups' \<and>
        map_of groups' = (\<lambda>k. if k \<in> set (key # ks) then zgroup gb sm z' k else map_of groups k) \<and> weights_ok out'a \<and>
        zget out'a = (\<lambda>row. zget out row +
          (if take (length gb) row \<in> set (key # ks) then zaggregate gb cnt sm z' row - zaggregate gb cnt sm z row else 0)))
        \<or> (\<exists>er s' key. st_fold ks out' (update_group p i cnt sm cs ss) ?s = (Err er, s') \<and> fe_stage er = Maintain \<and>
        sint (zgroup_count gb z' key) < 0)"
        using r by blast
    qed blast
  next
    case bad
    then show ?thesis by (auto simp: st_bind_def)
  qed
qed

lemma zaggregate_same_group:
  "zgroup gb sm z (take (length gb) row) = zgroup gb sm z' (take (length gb) row) \<Longrightarrow>
     zaggregate gb cnt sm z row = zaggregate gb cnt sm z' row"
  by (simp add: zaggregate_def)

lemma aggregate_ok:
  assumes ok: "agg_ok gb sm z" and gs: "groups_are groups gb sm z"
    and i: "i < length (pr_nodes s)" and n: "pr_nodes s ! i = NAggregate j gb cnt sm groups"
    and cs: "bt_weights_ok cs" "zget cs = (\<lambda>key. zgroup_count gb z' key - zgroup_count gb z key)"
    and ss: "bt_weights_ok ss" "zget ss = (\<lambda>key. zgroup_sum gb sm z' key - zgroup_sum gb sm z key)"
  shows "(\<exists>groups' out jr. st_fold (group_keys cs ss) [] (update_group p i cnt sm cs ss) s =
        (Ok out, put_node i (NAggregate j gb cnt sm groups') jr s) \<and> groups_are groups' gb sm z' \<and>
        delta_ok out (zaggregate gb cnt sm z) (zaggregate gb cnt sm z'))
    \<or> (\<exists>er s' key. st_fold (group_keys cs ss) [] (update_group p i cnt sm cs ss) s = (Err er, s') \<and>
        fe_stage er = Maintain \<and> sint (zgroup_count gb z' key) < 0)"
proof -
  have keys: "key \<in> set (group_keys cs ss) \<longleftrightarrow> zget cs key \<noteq> 0 \<or> zget ss key \<noteq> 0" for key
    using bt_weights_mem [OF cs(1)] bt_weights_mem [OF ss(1)] by (simp add: group_keys_ok(2))
  have len: "length key = length gb" if "key \<in> set (group_keys cs ss)" for key
  proof (rule ccontr)
    assume "length key \<noteq> length gb"
    then have "zgroup_count gb x key = 0 \<and> zgroup_sum gb sm x key = 0" for x
      using zgroup_length [of gb x key sm] by blast
    with that show False by (simp add: keys cs ss)
  qed
  have same: "zgroup gb sm z key = zgroup gb sm z' key" if "key \<notin> set (group_keys cs ss)" for key
    using that by (auto simp: keys cs ss zgroup_def)
  have mo: "map_of groups = zgroup gb sm z" "hm_inv groups" using gs by (simp_all add: groups_are_def)
  have pre: "\<forall>key \<in> set (group_keys cs ss). map_of groups key = zgroup gb sm z key \<and> length key = length gb"
    by (simp add: mo len)
  have all: "(\<lambda>key. if key \<in> set (group_keys cs ss) then zgroup gb sm z' key else zgroup gb sm z key) = zgroup gb sm z'"
    using same by auto
  have rows: "(\<lambda>row. if take (length gb) row \<in> set (group_keys cs ss)
      then zaggregate gb cnt sm z' row - zaggregate gb cnt sm z row else 0) =
      (\<lambda>row. zaggregate gb cnt sm z' row - zaggregate gb cnt sm z row)"
    by (rule ext) (simp add: zaggregate_same_group [OF same])
  have "zget cs key = zgroup_count gb z' key - zgroup_count gb z key"
    "zget ss key = zgroup_sum gb sm z' key - zgroup_sum gb sm z key" for key
    by (simp_all add: cs ss)
  from update_groups [OF ok weights_ok_Nil mo(2) i n group_keys_ok(1) pre this, where p = p] show ?thesis
    unfolding mo(1) all zget_Nil add_0_left rows
  proof (elim disjE exE conjE)
    fix groups' out jr
    assume r: "st_fold (group_keys cs ss) [] (update_group p i cnt sm cs ss) s = (Ok out, put_node i (NAggregate j gb cnt sm groups') jr s)"
      and "hm_inv groups'" "map_of groups' = zgroup gb sm z'" "weights_ok out"
        "zget out = (\<lambda>row. zaggregate gb cnt sm z' row - zaggregate gb cnt sm z row)"
    then have "groups_are groups' gb sm z'" "delta_ok out (zaggregate gb cnt sm z) (zaggregate gb cnt sm z')"
      by (simp_all add: groups_are_def delta_ok_def weights_ok_def hm_inv_def)
    with r show ?thesis by (intro disjI1 exI conjI)
  next
    fix er s' key
    assume "st_fold (group_keys cs ss) [] (update_group p i cnt sm cs ss) s = (Err er, s')"
      "fe_stage er = Maintain" "sint (zgroup_count gb z' key) < 0"
    then show ?thesis by (intro disjI2 exI conjI)
  qed
qed

end
