(* ===== verification/Frontier_Run.thy ===== *)
theory Frontier_Run
  imports Frontier_Group
begin

text \<open>
  One propagation over the node arena. \<open>holds\<close> says that the nodes \<open>lo..i\<close> are a plan in post-order
  whose arrangements hold what the plan denotes; \<open>run_node\<close> turns nodes that hold it for the sources
  before the frontier into nodes that hold it for the sources after, returns the difference, and
  touches nothing else.
\<close>

subsection \<open>A plan in the arena\<close>

fun holds :: "(nat \<Rightarrow> row \<Rightarrow> i64) \<Rightarrow> node list \<Rightarrow> nat \<Rightarrow> nat \<Rightarrow> plan_node \<Rightarrow> bool"
  and holds_all :: "(nat \<Rightarrow> row \<Rightarrow> i64) \<Rightarrow> node list \<Rightarrow> nat \<Rightarrow> nat \<Rightarrow> plan_node list \<Rightarrow> nat list \<Rightarrow> bool" where
  "holds src ns lo i (PScan r) \<longleftrightarrow> i = lo \<and> i < length ns \<and> ns ! i = NScan r"
| "holds src ns lo i (PUnion ps) \<longleftrightarrow>
     (\<exists>is c. i < length ns \<and> ns ! i = NUnion is c \<and> counts_are c (plan_sem src (PUnion ps)) \<and> holds_all src ns lo i ps is)"
| "holds src ns lo i (PJoin l r a b) \<longleftrightarrow>
     (\<exists>j k c li ri. i < length ns \<and> ns ! i = NJoin j k a b c li ri \<and> counts_are c (plan_sem src (PJoin l r a b)) \<and>
        index_are li a (plan_sem src l) \<and> index_are ri b (plan_sem src r) \<and>
        holds src ns lo j l \<and> holds src ns (Suc j) k r \<and> i = Suc k)"
| "holds src ns lo i (PAggregate q gb cnt sm) \<longleftrightarrow>
     (\<exists>j gs. i < length ns \<and> ns ! i = NAggregate j gb cnt sm gs \<and> groups_are gs gb sm (plan_sem src q) \<and>
        holds src ns lo j q \<and> i = Suc j)"
| "holds src ns lo i (PProject q cs) \<longleftrightarrow>
     (\<exists>j c. i < length ns \<and> ns ! i = NProject j cs c \<and> counts_are c (plan_sem src (PProject q cs)) \<and>
        holds src ns lo j q \<and> i = Suc j)"
| "holds src ns lo i (PDifference l r) \<longleftrightarrow> False"
| "holds_all src ns lo hi [] is \<longleftrightarrow> is = [] \<and> lo = hi"
| "holds_all src ns lo hi (p # ps) is \<longleftrightarrow>
     (\<exists>j js. is = j # js \<and> holds src ns lo j p \<and> holds_all src ns (Suc j) hi ps js)"

lemma holds_range:
  "holds src ns lo i p \<Longrightarrow> lo \<le> i \<and> i < length ns"
  "holds_all src ns lo hi ps is \<Longrightarrow> lo \<le> hi"
  by (induction src ns lo i p and src ns lo hi ps "is" rule: holds_holds_all.induct) fastforce+

lemma holds_frame:
  "holds src ns lo i p \<Longrightarrow> length ns \<le> length ns' \<Longrightarrow> (\<And>k. lo \<le> k \<Longrightarrow> k \<le> i \<Longrightarrow> ns' ! k = ns ! k) \<Longrightarrow> holds src ns' lo i p"
  "holds_all src ns lo hi ps is \<Longrightarrow> length ns \<le> length ns' \<Longrightarrow> (\<And>k. lo \<le> k \<Longrightarrow> k < hi \<Longrightarrow> ns' ! k = ns ! k) \<Longrightarrow> holds_all src ns' lo hi ps is"
proof (induction src ns lo i p and src ns lo hi ps "is" rule: holds_holds_all.induct)
  case (2 src ns lo i ps)
  then obtain "is" c where u: "i < length ns" "ns ! i = NUnion is c" "counts_are c (plan_sem src (PUnion ps))" "holds_all src ns lo i ps is"
    by auto
  moreover from this have "lo \<le> i" by (auto dest: holds_range)
  moreover have "holds_all src ns' lo i ps is" using 2 u by auto
  ultimately show ?case using 2 by auto
next
  case (3 src ns lo i l r a b)
  then obtain j k c li ri where n: "i < length ns" "ns ! i = NJoin j k a b c li ri"
    "counts_are c (plan_sem src (PJoin l r a b))" "index_are li a (plan_sem src l)" "index_are ri b (plan_sem src r)"
    "holds src ns lo j l" "holds src ns (Suc j) k r" "i = Suc k" by auto
  then have rg: "lo \<le> j" "j < k" by (auto dest!: holds_range)
  then have "holds src ns' lo j l" "holds src ns' (Suc j) k r"
    using 3 n by auto
  with n rg 3 show ?case by auto
next
  case (4 src ns lo i q gb cnt sm)
  then obtain j gs where n: "i < length ns" "ns ! i = NAggregate j gb cnt sm gs" "groups_are gs gb sm (plan_sem src q)"
    "holds src ns lo j q" "i = Suc j" by auto
  then have "lo \<le> j" by (auto dest!: holds_range)
  moreover have "holds src ns' lo j q" using 4 n by auto
  ultimately show ?case using n 4 by auto
next
  case (5 src ns lo i q cs)
  then obtain j c where n: "i < length ns" "ns ! i = NProject j cs c" "counts_are c (plan_sem src (PProject q cs))"
    "holds src ns lo j q" "i = Suc j" by auto
  then have "lo \<le> j" by (auto dest!: holds_range)
  moreover have "holds src ns' lo j q" using 5 n by auto
  ultimately show ?case using n 5 by auto
next
  case (8 src ns lo hi p ps "is")
  then obtain j js where n: "is = j # js" "holds src ns lo j p" "holds_all src ns (Suc j) hi ps js" by auto
  then have "lo \<le> j" "j < hi" by (auto dest!: holds_range)
  then show ?case using n 8 by auto
qed auto

subsection \<open>Conditions on the sources\<close>

definition src_ok :: "nat list \<Rightarrow> (nat \<Rightarrow> row \<Rightarrow> i64) \<Rightarrow> bool" where
  "src_ok ar src \<longleftrightarrow> (\<forall>r. zfin (src r)) \<and> (\<forall>r row. src r row \<noteq> 0 \<longrightarrow> r < length ar \<longrightarrow> length row = ar ! r)"

definition net_of :: "net \<Rightarrow> nat \<Rightarrow> counts" where
  "net_of deltas r = (case map_of deltas r of None \<Rightarrow> [] | Some net \<Rightarrow> net)"

definition net_ok :: "net \<Rightarrow> (nat \<Rightarrow> row \<Rightarrow> i64) \<Rightarrow> (nat \<Rightarrow> row \<Rightarrow> i64) \<Rightarrow> bool" where
  "net_ok deltas src src' \<longleftrightarrow> (\<forall>r. delta_ok (net_of deltas r) (src r) (src' r))"

text \<open>No arrangement of the plan holds a negative weight, and no group has wrapped.\<close>

fun plan_valid :: "(nat \<Rightarrow> row \<Rightarrow> i64) \<Rightarrow> plan_node \<Rightarrow> bool" where
  "plan_valid src (PScan r) \<longleftrightarrow> (\<forall>row. 0 \<le> sint (src r row))"
| "plan_valid src (PUnion ps) \<longleftrightarrow> list_all (plan_valid src) ps \<and> (\<forall>row. 0 \<le> sint (plan_sem src (PUnion ps) row))"
| "plan_valid src (PJoin l r a b) \<longleftrightarrow>
     plan_valid src l \<and> plan_valid src r \<and> (\<forall>row. 0 \<le> sint (plan_sem src (PJoin l r a b) row))"
| "plan_valid src (PAggregate q gb cnt sm) \<longleftrightarrow> plan_valid src q \<and> agg_ok gb sm (plan_sem src q)"
| "plan_valid src (PProject q cs) \<longleftrightarrow> plan_valid src q \<and> (\<forall>row. 0 \<le> sint (plan_sem src (PProject q cs) row))"
| "plan_valid src (PDifference l r) \<longleftrightarrow> False"

fun plan_safe :: "(nat \<Rightarrow> row \<Rightarrow> i64) \<Rightarrow> (nat \<Rightarrow> row \<Rightarrow> i64) \<Rightarrow> plan_node \<Rightarrow> bool" where
  "plan_safe src src' (PScan r) \<longleftrightarrow> True"
| "plan_safe src src' (PUnion ps) \<longleftrightarrow> list_all (plan_safe src src') ps"
| "plan_safe src src' (PJoin l r a b) \<longleftrightarrow> plan_safe src src' l \<and> plan_safe src src' r \<and>
     join_safe a b (plan_sem src l) (plan_sem src' l) (plan_sem src r) (plan_sem src' r)"
| "plan_safe src src' (PAggregate q gb cnt sm) \<longleftrightarrow> plan_safe src src' q"
| "plan_safe src src' (PProject q cs) \<longleftrightarrow> plan_safe src src' q"
| "plan_safe src src' (PDifference l r) \<longleftrightarrow> True"

lemma plan_valid_nonneg: "plan_valid src p \<Longrightarrow> 0 \<le> sint (plan_sem src p row)"
  by (cases p) (auto simp: zaggregate_def split: option.split)

lemma src_ok_fin: "src_ok ar src \<Longrightarrow> zfin (plan_sem src p)"
  by (rule zfin_plan_sem) (simp add: src_ok_def)

lemma src_ok_length: "src_ok ar src \<Longrightarrow> plan_arity ar p = Some n \<Longrightarrow> plan_sem src p row \<noteq> 0 \<Longrightarrow> length row = n"
  by (rule plan_sem_length) (auto simp: src_ok_def)

lemma delta_length:
  "src_ok ar src \<Longrightarrow> src_ok ar src' \<Longrightarrow> plan_arity ar p = Some n \<Longrightarrow>
     delta_ok d (plan_sem src p) (plan_sem src' p) \<Longrightarrow> (row, w) \<in> set d \<Longrightarrow> length row = n"
  by (metis delta_ok_mem src_ok_length)

subsection \<open>One run\<close>

definition framed :: "nat \<Rightarrow> nat \<Rightarrow> prop_state \<Rightarrow> prop_state \<Rightarrow> bool" where
  "framed lo hi s s' \<longleftrightarrow> length (pr_nodes s') = length (pr_nodes s) \<and>
     (\<forall>k. k < lo \<or> hi \<le> k \<longrightarrow> pr_nodes s' ! k = pr_nodes s ! k \<and> pr_memo s' k = pr_memo s k)"

lemma framed_refl [simp]: "framed lo hi s s"
  by (simp add: framed_def)

lemma framed_trans: "framed lo m s t \<Longrightarrow> framed m hi t u \<Longrightarrow> lo \<le> m \<Longrightarrow> m \<le> hi \<Longrightarrow> framed lo hi s u"
  by (auto simp: framed_def)

lemma framed_put: "framed lo i s t \<Longrightarrow> lo \<le> i \<Longrightarrow> framed lo (Suc i) s (put_node i n j t)"
  by (auto simp: framed_def)

definition ran :: "(nat \<Rightarrow> row \<Rightarrow> i64) \<Rightarrow> (nat \<Rightarrow> row \<Rightarrow> i64) \<Rightarrow> plan_node \<Rightarrow> nat \<Rightarrow> nat \<Rightarrow> prop_state \<Rightarrow>
    counts fres \<times> prop_state \<Rightarrow> bool" where
  "ran src src' p lo i s rs \<longleftrightarrow>
     (\<exists>d s'. rs = (Ok d, s') \<and> delta_ok d (plan_sem src p) (plan_sem src' p) \<and>
        holds src' (pr_nodes s') lo i p \<and> framed lo (Suc i) s s' \<and> pr_memo s' i = Some d) \<or>
     (\<exists>er s'. rs = (Err er, s') \<and> fe_stage er = Maintain \<and> \<not> plan_valid src' p)"

text \<open>The same of \<open>step_node\<close>, before the memo is written.\<close>

definition stepped :: "(nat \<Rightarrow> row \<Rightarrow> i64) \<Rightarrow> (nat \<Rightarrow> row \<Rightarrow> i64) \<Rightarrow> plan_node \<Rightarrow> nat \<Rightarrow> nat \<Rightarrow> prop_state \<Rightarrow>
    counts fres \<times> prop_state \<Rightarrow> bool" where
  "stepped src src' p lo i s rs \<longleftrightarrow>
     (\<exists>d s'. rs = (Ok d, s') \<and> delta_ok d (plan_sem src p) (plan_sem src' p) \<and>
        holds src' (pr_nodes s') lo i p \<and> framed lo (Suc i) s s') \<or>
     (\<exists>er s'. rs = (Err er, s') \<and> fe_stage er = Maintain \<and> \<not> plan_valid src' p)"

lemma run_node_stepped:
  assumes "stepped src src' p lo i s (step_node deltas q (run_node deltas q fuel) i s)"
    and "pr_memo s i = None" and "lo \<le> i"
  shows "ran src src' p lo i s (run_node deltas q (Suc fuel) i s)"
  using assms unfolding stepped_def ran_def
  by (elim disjE exE conjE)
    (auto simp: st_bind_def st_get_def st_modify_def st_return_def framed_def)

lemma apply_counts_ok:
  assumes i: "i < length (pr_nodes s)" and n: "node_counts (pr_nodes s ! i) = Some c" and c: "counts_are c z"
    and d: "delta_ok d z z'"
  shows "(\<exists>c' j. apply_counts q i d s = (Ok (), put_node i (set_counts c' (pr_nodes s ! i)) j s) \<and> counts_are c' z')
    \<or> (\<exists>er s' row. apply_counts q i d s = (Err er, s') \<and> fe_stage er = Maintain \<and> sint (z' row) < 0)"
proof -
  have "node_counts_are (pr_nodes s ! i) z" using n c by (auto simp: node_counts_are_def)
  moreover have "\<forall>x \<in> set d. True" by simp
  ultimately have "node_counts_are (pr_nodes s ! i) z" "\<forall>x \<in> set d. True" by auto
  note cf.fold [OF i this(1) delta_ok_distinct [OF d] this(2), where p = q]
  then show ?thesis
    unfolding apply_counts_def node_counts_are_def delta_ok_add [OF d] fun_cong [OF delta_ok_add [OF d]]
    by (elim disjE exE conjE) (auto simp: n)
qed

lemma index_update_ok:
  assumes i: "i < length (pr_nodes s)" and n: "node_index left (pr_nodes s ! i) = Some x" and x: "index_are x a z"
    and d: "delta_ok d z z'" and len: "\<forall>x \<in> set d. a < length (fst x)"
  shows "(\<exists>x' j. index_update q i left d a s = (Ok (), put_node i (set_index left x' (pr_nodes s ! i)) j s) \<and> index_are x' a z')
    \<or> (\<exists>er s' row. index_update q i left d a s = (Err er, s') \<and> fe_stage er = Maintain \<and> sint (z' row) < 0)"
proof -
  have "node_index_are left a (pr_nodes s ! i) z" "\<forall>x \<in> set d. a < length (fst x)"
    using n x len by (auto simp: node_index_are_def)
  from xf.fold [OF i this(1) delta_ok_distinct [OF d] this(2), where p = q] show ?thesis
    unfolding index_update_def node_index_are_def delta_ok_add [OF d] fun_cong [OF delta_ok_add [OF d]]
    by (elim disjE exE conjE) (auto simp: n)
qed

subsection \<open>The operators\<close>

definition fresh_memo :: "nat \<Rightarrow> nat \<Rightarrow> prop_state \<Rightarrow> bool" where
  "fresh_memo lo hi s \<longleftrightarrow> (\<forall>k. lo \<le> k \<longrightarrow> k < hi \<longrightarrow> pr_memo s k = None)"

definition runs :: "(nat \<Rightarrow> row \<Rightarrow> i64) \<Rightarrow> (nat \<Rightarrow> row \<Rightarrow> i64) \<Rightarrow> (nat \<Rightarrow> (prop_state, counts) st) \<Rightarrow> nat \<Rightarrow> nat \<Rightarrow> plan_node \<Rightarrow> bool" where
  "runs src src' run lo0 hi0 p \<longleftrightarrow> (\<forall>lo j s. holds src (pr_nodes s) lo j p \<longrightarrow> lo0 \<le> lo \<longrightarrow> j < hi0 \<longrightarrow>
     fresh_memo lo (Suc j) s \<longrightarrow> ran src src' p lo j s (run j s))"

definition ran_all :: "(nat \<Rightarrow> row \<Rightarrow> i64) \<Rightarrow> (nat \<Rightarrow> row \<Rightarrow> i64) \<Rightarrow> plan_node list \<Rightarrow> nat list \<Rightarrow> nat \<Rightarrow> nat \<Rightarrow> counts \<Rightarrow>
    prop_state \<Rightarrow> counts fres \<times> prop_state \<Rightarrow> bool" where
  "ran_all src src' ps is lo hi acc s rs \<longleftrightarrow>
     (\<exists>out s'. rs = (Ok out, s') \<and> weights_ok out \<and>
        zget out = (\<lambda>row. zget acc row + (\<Sum>p\<leftarrow>ps. plan_sem src' p row - plan_sem src p row)) \<and>
        holds_all src' (pr_nodes s') lo hi ps is \<and> framed lo hi s s') \<or>
     (\<exists>er s'. rs = (Err er, s') \<and> fe_stage er = Maintain \<and> \<not> list_all (plan_valid src') ps)"

abbreviation run_child :: "(nat \<Rightarrow> (prop_state, counts) st) \<Rightarrow> nat \<Rightarrow> counts \<Rightarrow> (prop_state, counts) st" where
  "run_child run child acc \<equiv> st_bind (run child) (\<lambda>d. st_return (merge_delta acc d))"

lemma children_ok:
  assumes "\<forall>p \<in> set ps. runs src src' run lo0 hi0 p"
    and "holds_all src (pr_nodes s) lo hi0 ps is" and "lo0 \<le> lo"
    and "fresh_memo lo hi0 s" and "weights_ok acc"
  shows "ran_all src src' ps is lo hi0 acc s (st_fold is acc (run_child run) s)"
  using assms
proof (induction ps arbitrary: s lo "is" acc)
  case Nil
  then show ?case by (simp add: st_return_def ran_all_def)
next
  case (Cons p ps)
  from Cons.prems(2) obtain j js where js: "is = j # js" "holds src (pr_nodes s) lo j p" "holds_all src (pr_nodes s) (Suc j) hi0 ps js"
    by auto
  have rg: "lo \<le> j" "j < hi0" using js(2,3) by (auto dest!: holds_range)
  have "fresh_memo lo (Suc j) s" using Cons.prems(4) rg by (auto simp: fresh_memo_def)
  with Cons.prems(1,3) js rg have "ran src src' p lo j s (run j s)" by (auto simp: runs_def)
  then consider (ok) d t where "run j s = (Ok d, t)" "delta_ok d (plan_sem src p) (plan_sem src' p)"
      "holds src' (pr_nodes t) lo j p" "framed lo (Suc j) s t"
    | (bad) er t where "run j s = (Err er, t)" "fe_stage er = Maintain" "\<not> plan_valid src' p"
    unfolding ran_def by blast
  then show ?case
  proof cases
    case ok
    from merge_delta_ok [OF Cons.prems(5) delta_ok_distinct [OF ok(2)]]
    have m: "weights_ok (merge_delta acc d)" "zget (merge_delta acc d) = (\<lambda>row. zget acc row + zget d row)" by auto
    have zd: "zget d = (\<lambda>row. plan_sem src' p row - plan_sem src p row)" using ok(2) by (simp add: delta_ok_def)
    have h: "holds_all src (pr_nodes t) (Suc j) hi0 ps js"
      using ok(4) by (intro holds_frame(2) [OF js(3)]) (auto simp: framed_def)
    have memo: "fresh_memo (Suc j) hi0 t"
      using rg Cons.prems(4) ok(4) by (auto simp: framed_def fresh_memo_def)
    have step: "st_fold is acc (run_child run) s = st_fold js (merge_delta acc d) (run_child run) t"
      by (simp add: js(1) st_bind_def ok(1) st_return_def)
    have "ran_all src src' ps js (Suc j) hi0 (merge_delta acc d) t (st_fold js (merge_delta acc d) (run_child run) t)"
      using Cons.prems(1,3) rg by (intro Cons.IH h memo m(1)) auto
    then show ?thesis
      unfolding step ran_all_def
    proof (elim disjE exE conjE)
      fix out u
      assume u: "st_fold js (merge_delta acc d) (run_child run) t = (Ok out, u)" "weights_ok out"
        "zget out = (\<lambda>row. zget (merge_delta acc d) row + (\<Sum>p\<leftarrow>ps. plan_sem src' p row - plan_sem src p row))"
        "holds_all src' (pr_nodes u) (Suc j) hi0 ps js" "framed (Suc j) hi0 t u"
      have "holds src' (pr_nodes u) lo j p"
        using u(5) by (intro holds_frame(1) [OF ok(3)]) (auto simp: framed_def)
      then have "holds_all src' (pr_nodes u) lo hi0 (p # ps) is" using u(4) js(1) by auto
      moreover have "framed lo hi0 s u" using ok(4) u(5) rg by (intro framed_trans [OF ok(4) u(5)]) auto
      moreover have "zget out = (\<lambda>row. zget acc row + (\<Sum>p\<leftarrow>p # ps. plan_sem src' p row - plan_sem src p row))"
        unfolding u(3) m(2) zd by (simp add: add.assoc)
      ultimately show "(\<exists>out s'. st_fold js (merge_delta acc d) (run_child run) t = (Ok out, s') \<and> weights_ok out \<and>
          zget out = (\<lambda>row. zget acc row + (\<Sum>p\<leftarrow>p # ps. plan_sem src' p row - plan_sem src p row)) \<and>
          holds_all src' (pr_nodes s') lo hi0 (p # ps) is \<and> framed lo hi0 s s') \<or>
        (\<exists>er s'. st_fold js (merge_delta acc d) (run_child run) t = (Err er, s') \<and> fe_stage er = Maintain \<and>
          \<not> list_all (plan_valid src') (p # ps))"
        using u(1,2) by blast
    qed auto
  next
    case bad
    then show ?thesis by (simp add: js(1) st_bind_def ran_all_def)
  qed
qed

end
