(* ===== verification/Frontier_Propagate.thy ===== *)
theory Frontier_Propagate
  imports Frontier_Run
begin

text \<open>
  Each operator's step from its children's runs, and by induction on the plan the whole run.
\<close>

lemma finish_counts:
  assumes i: "i < length (pr_nodes t)" and n: "node_counts (pr_nodes t ! i) = Some c"
    and c: "counts_are c (plan_sem src p)" and d: "delta_ok out (plan_sem src p) (plan_sem src' p)"
    and h: "\<And>c' j. counts_are c' (plan_sem src' p) \<Longrightarrow> holds src' ((pr_nodes t)[i := set_counts c' (pr_nodes t ! i)]) lo i p"
    and fr: "framed lo (Suc i) s t" and le: "lo \<le> i"
  shows "stepped src src' p lo i s (st_bind (apply_counts q i out) (\<lambda>_. st_return out) t)"
  using apply_counts_ok [OF i n c d, where q = q] unfolding stepped_def
proof (elim disjE exE conjE)
  fix c' j
  assume "apply_counts q i out t = (Ok (), put_node i (set_counts c' (pr_nodes t ! i)) j t)" and "counts_are c' (plan_sem src' p)"
  moreover have "framed lo (Suc i) s (put_node i n' j t)" for n'
    using fr le by (auto simp: framed_def)
  ultimately show "(\<exists>d s'. st_bind (apply_counts q i out) (\<lambda>_. st_return out) t = (Ok d, s') \<and>
        delta_ok d (plan_sem src p) (plan_sem src' p) \<and> holds src' (pr_nodes s') lo i p \<and> framed lo (Suc i) s s') \<or>
      (\<exists>er s'. st_bind (apply_counts q i out) (\<lambda>_. st_return out) t = (Err er, s') \<and> fe_stage er = Maintain \<and> \<not> plan_valid src' p)"
    using h d by (simp add: st_bind_def st_return_def)
next
  fix er s' row
  assume "apply_counts q i out t = (Err er, s')" "fe_stage er = Maintain" "sint (plan_sem src' p row) < 0"
  moreover from this have "\<not> plan_valid src' p"
    using plan_valid_nonneg [of src' p row] by auto
  ultimately show "(\<exists>d s'. st_bind (apply_counts q i out) (\<lambda>_. st_return out) t = (Ok d, s') \<and>
        delta_ok d (plan_sem src p) (plan_sem src' p) \<and> holds src' (pr_nodes s') lo i p \<and> framed lo (Suc i) s s') \<or>
      (\<exists>er s'. st_bind (apply_counts q i out) (\<lambda>_. st_return out) t = (Err er, s') \<and> fe_stage er = Maintain \<and> \<not> plan_valid src' p)"
    by (simp add: st_bind_def)
qed

lemma framed_Suc: "framed lo i s t \<Longrightarrow> framed lo (Suc i) s t"
  by (simp add: framed_def)

lemma framed_length: "framed lo hi s t \<Longrightarrow> length (pr_nodes t) = length (pr_nodes s)"
  by (simp add: framed_def)

lemma framed_nth: "framed lo hi s t \<Longrightarrow> hi \<le> k \<Longrightarrow> pr_nodes t ! k = pr_nodes s ! k"
  by (simp add: framed_def)

text \<open>Running one child.\<close>

lemma runs_child:
  assumes "runs src src' run lo i p" and "holds src (pr_nodes s) lo' j p" and "lo \<le> lo'" and "j < i"
    and "fresh_memo lo' (Suc i) s"
  shows "(\<exists>d t. run j s = (Ok d, t) \<and> delta_ok d (plan_sem src p) (plan_sem src' p) \<and> holds src' (pr_nodes t) lo' j p \<and>
      framed lo' (Suc j) s t) \<or> (\<exists>er t. run j s = (Err er, t) \<and> fe_stage er = Maintain \<and> \<not> plan_valid src' p)"
proof -
  have "fresh_memo lo' (Suc j) s" using assms by (auto simp: fresh_memo_def)
  with assms have "ran src src' p lo' j s (run j s)" by (simp add: runs_def)
  then show ?thesis unfolding ran_def by blast
qed

lemma step_scan:
  assumes "holds src (pr_nodes s) lo i (PScan r)" and "net_ok deltas src src'"
  shows "stepped src src' (PScan r) lo i s (step_node deltas q run i s)"
  using assms by (auto simp: stepped_def step_node_def st_bind_def st_get_def st_return_def net_ok_def net_of_def)

lemma step_union:
  assumes h: "holds src (pr_nodes s) lo i (PUnion ps)" and fr: "fresh_memo lo (Suc i) s"
    and run: "\<forall>p \<in> set ps. runs src src' run lo i p"
  shows "stepped src src' (PUnion ps) lo i s (step_node deltas q run i s)"
proof -
  from h obtain "is" c where n: "i < length (pr_nodes s)" "pr_nodes s ! i = NUnion is c" "counts_are c (plan_sem src (PUnion ps))"
    "holds_all src (pr_nodes s) lo i ps is" by auto
  have le: "lo \<le> i" using holds_range(1) [OF h] by simp
  have step: "step_node deltas q run i s =
      st_bind (st_fold is [] (run_child run)) (\<lambda>out. st_bind (apply_counts q i out) (\<lambda>_. st_return out)) s"
    using n by (simp add: step_node_def st_bind_def st_get_def)
  have "fresh_memo lo i s" using fr by (simp add: fresh_memo_def)
  from children_ok [OF run n(4) order_refl this weights_ok_Nil] consider
    (ok) out t where "st_fold is [] (run_child run) s = (Ok out, t)" "weights_ok out"
      "zget out = (\<lambda>row. \<Sum>p\<leftarrow>ps. plan_sem src' p row - plan_sem src p row)" "holds_all src' (pr_nodes t) lo i ps is" "framed lo i s t"
    | (bad) er t where "st_fold is [] (run_child run) s = (Err er, t)" "fe_stage er = Maintain" "\<not> list_all (plan_valid src') ps"
    unfolding ran_all_def by auto
  then show ?thesis
  proof cases
    case ok
    have d: "delta_ok out (plan_sem src (PUnion ps)) (plan_sem src' (PUnion ps))"
      using ok(2,3) by (simp add: delta_ok_def weights_ok_def hm_inv_def sum_list_subtractf)
    have t: "i < length (pr_nodes t)" "pr_nodes t ! i = NUnion is c"
      using n framed_length [OF ok(5)] framed_nth [OF ok(5), of i] by simp_all
    have "stepped src src' (PUnion ps) lo i s (st_bind (apply_counts q i out) (\<lambda>_. st_return out) t)"
    proof (rule finish_counts [OF t(1) _ n(3) d _ framed_Suc [OF ok(5)] le])
      fix c' assume "counts_are c' (plan_sem src' (PUnion ps))"
      moreover have "holds_all src' ((pr_nodes t)[i := NUnion is c']) lo i ps is"
        by (rule holds_frame(2) [OF ok(4)]) simp_all
      ultimately show "holds src' ((pr_nodes t)[i := set_counts c' (pr_nodes t ! i)]) lo i (PUnion ps)"
        using t by simp
    qed (simp add: t)
    then show ?thesis by (simp add: step st_bind_def ok(1))
  next
    case bad
    then show ?thesis by (simp add: step st_bind_def stepped_def)
  qed
qed

lemma step_project:
  assumes h: "holds src (pr_nodes s) lo i (PProject p cs)" and fr: "fresh_memo lo (Suc i) s"
    and run: "runs src src' run lo i p"
    and src: "src_ok ar src" "src_ok ar src'" and ok: "plan_ok ar (PProject p cs)"
  shows "stepped src src' (PProject p cs) lo i s (step_node deltas q run i s)"
proof -
  from h obtain j c where n: "i < length (pr_nodes s)" "pr_nodes s ! i = NProject j cs c" "counts_are c (plan_sem src (PProject p cs))"
    "holds src (pr_nodes s) lo j p" "i = Suc j" by auto
  have le: "lo \<le> j" using holds_range(1) [OF n(4)] by simp
  have step: "step_node deltas q run i s = st_bind (run j) (\<lambda>incoming. st_bind (st_lift (project_delta cs incoming)) (\<lambda>out.
      st_bind (apply_counts q i out) (\<lambda>_. st_return out))) s"
    using n by (simp add: step_node_def st_bind_def st_get_def)
  from runs_child [OF run n(4) order_refl _ fr] n(5) consider
    (ok) d t where "run j s = (Ok d, t)" "delta_ok d (plan_sem src p) (plan_sem src' p)" "holds src' (pr_nodes t) lo j p" "framed lo i s t"
    | (bad) er t where "run j s = (Err er, t)" "fe_stage er = Maintain" "\<not> plan_valid src' p"
    by auto
  then show ?thesis
  proof cases
    case run: ok
    from ok obtain m where m: "plan_arity ar p = Some m" "\<forall>c \<in> set cs. c < m" by auto
    have "\<exists>out. project_delta cs d = Ok out \<and> hm_inv out \<and>
        delta_ok out (zproject cs (plan_sem src p)) (zproject cs (plan_sem src' p))"
      by (rule project_delta_ok [OF run(2) src_ok_fin [OF src(1)] src_ok_fin [OF src(2)]])
        (use m delta_length [OF src m(1) run(2)] in auto)
    then obtain out where out: "project_delta cs d = Ok out" "delta_ok out (plan_sem src (PProject p cs)) (plan_sem src' (PProject p cs))"
      by auto
    have t: "i < length (pr_nodes t)" "pr_nodes t ! i = NProject j cs c"
      using n framed_length [OF run(4)] framed_nth [OF run(4), of i] by simp_all
    have "stepped src src' (PProject p cs) lo i s (st_bind (apply_counts q i out) (\<lambda>_. st_return out) t)"
    proof (rule finish_counts [OF t(1) _ n(3) out(2) _ framed_Suc [OF run(4)]])
      fix c' assume "counts_are c' (plan_sem src' (PProject p cs))"
      moreover have "holds src' ((pr_nodes t)[i := NProject j cs c']) lo j p"
        by (rule holds_frame(1) [OF run(3)]) (simp_all add: n(5))
      ultimately show "holds src' ((pr_nodes t)[i := set_counts c' (pr_nodes t ! i)]) lo i (PProject p cs)"
        using t n(5) by simp
    qed (use t le n(5) in simp_all)
    then show ?thesis by (simp add: step st_bind_def run(1) st_lift_def out(1))
  next
    case bad
    then show ?thesis by (simp add: step st_bind_def stepped_def)
  qed
qed

lemma step_aggregate:
  assumes h: "holds src (pr_nodes s) lo i (PAggregate p gb cnt sm)" and fr: "fresh_memo lo (Suc i) s"
    and run: "runs src src' run lo i p"
    and src: "src_ok ar src" "src_ok ar src'" and ok: "plan_ok ar (PAggregate p gb cnt sm)"
    and valid: "plan_valid src (PAggregate p gb cnt sm)"
  shows "stepped src src' (PAggregate p gb cnt sm) lo i s (step_node deltas q run i s)"
proof -
  from h obtain j gs where n: "i < length (pr_nodes s)" "pr_nodes s ! i = NAggregate j gb cnt sm gs" "groups_are gs gb sm (plan_sem src p)"
    "holds src (pr_nodes s) lo j p" "i = Suc j" by auto
  have le: "lo \<le> j" using holds_range(1) [OF n(4)] by simp
  have step: "step_node deltas q run i s = st_bind (run j) (\<lambda>incoming. st_bind (st_lift (group_deltas gb sm incoming))
      (\<lambda>(cs, ss). st_fold (group_keys cs ss) [] (update_group q i cnt sm cs ss))) s"
    using n by (simp add: step_node_def st_bind_def st_get_def)
  from runs_child [OF run n(4) order_refl _ fr] n(5) consider
    (ok) d t where "run j s = (Ok d, t)" "delta_ok d (plan_sem src p) (plan_sem src' p)" "holds src' (pr_nodes t) lo j p" "framed lo i s t"
    | (bad) er t where "run j s = (Err er, t)" "fe_stage er = Maintain" "\<not> plan_valid src' p"
    by auto
  then show ?thesis
  proof cases
    case run: ok
    from ok obtain m where m: "plan_arity ar p = Some m" "\<forall>c \<in> set gb \<union> set_option sm. c < m" by auto
    have "\<exists>cs ss. group_deltas gb sm d = Ok (cs, ss) \<and> bt_weights_ok cs \<and> bt_weights_ok ss \<and>
        zget cs = (\<lambda>key. zgroup_count gb (plan_sem src' p) key - zgroup_count gb (plan_sem src p) key) \<and>
        zget ss = (\<lambda>key. zgroup_sum gb sm (plan_sem src' p) key - zgroup_sum gb sm (plan_sem src p) key)"
      by (rule group_deltas_ok [OF run(2) src_ok_fin [OF src(1)] src_ok_fin [OF src(2)]])
        (use m delta_length [OF src m(1) run(2)] in auto)
    then obtain cs ss where g: "group_deltas gb sm d = Ok (cs, ss)" "bt_weights_ok cs" "bt_weights_ok ss"
      "zget cs = (\<lambda>key. zgroup_count gb (plan_sem src' p) key - zgroup_count gb (plan_sem src p) key)"
      "zget ss = (\<lambda>key. zgroup_sum gb sm (plan_sem src' p) key - zgroup_sum gb sm (plan_sem src p) key)" by auto
    have t: "i < length (pr_nodes t)" "pr_nodes t ! i = NAggregate j gb cnt sm gs"
      using n framed_length [OF run(4)] framed_nth [OF run(4), of i] by simp_all
    have "agg_ok gb sm (plan_sem src p)" using valid by simp
    from aggregate_ok [OF this n(3) t g(2,4,3,5), where p = q]
    have "stepped src src' (PAggregate p gb cnt sm) lo i s (st_fold (group_keys cs ss) [] (update_group q i cnt sm cs ss) t)"
      unfolding stepped_def
    proof (elim disjE exE conjE)
      fix gs' out jr
      assume r: "st_fold (group_keys cs ss) [] (update_group q i cnt sm cs ss) t = (Ok out, put_node i (NAggregate j gb cnt sm gs') jr t)"
        "groups_are gs' gb sm (plan_sem src' p)" "delta_ok out (zaggregate gb cnt sm (plan_sem src p)) (zaggregate gb cnt sm (plan_sem src' p))"
      have "holds src' ((pr_nodes t)[i := NAggregate j gb cnt sm gs']) lo j p"
        by (rule holds_frame(1) [OF run(3)]) (simp_all add: n(5))
      with r t n(5) have "holds src' (pr_nodes (put_node i (NAggregate j gb cnt sm gs') jr t)) lo i (PAggregate p gb cnt sm)"
        by simp
      moreover have "framed lo (Suc i) s (put_node i (NAggregate j gb cnt sm gs') jr t)"
        using framed_put [OF run(4)] le n(5) by simp
      ultimately show "(\<exists>d s'. st_fold (group_keys cs ss) [] (update_group q i cnt sm cs ss) t = (Ok d, s') \<and>
          delta_ok d (plan_sem src (PAggregate p gb cnt sm)) (plan_sem src' (PAggregate p gb cnt sm)) \<and>
          holds src' (pr_nodes s') lo i (PAggregate p gb cnt sm) \<and> framed lo (Suc i) s s') \<or>
        (\<exists>er s'. st_fold (group_keys cs ss) [] (update_group q i cnt sm cs ss) t = (Err er, s') \<and> fe_stage er = Maintain \<and>
          \<not> plan_valid src' (PAggregate p gb cnt sm))"
        using r by auto
    next
      fix er s' key
      assume "st_fold (group_keys cs ss) [] (update_group q i cnt sm cs ss) t = (Err er, s')" "fe_stage er = Maintain"
        and neg: "sint (zgroup_count gb (plan_sem src' p) key) < 0"
      moreover from neg have "\<not> plan_valid src' (PAggregate p gb cnt sm)"
        by (auto simp: agg_ok_def not_le [symmetric])
      ultimately show "(\<exists>d s'. st_fold (group_keys cs ss) [] (update_group q i cnt sm cs ss) t = (Ok d, s') \<and>
          delta_ok d (plan_sem src (PAggregate p gb cnt sm)) (plan_sem src' (PAggregate p gb cnt sm)) \<and>
          holds src' (pr_nodes s') lo i (PAggregate p gb cnt sm) \<and> framed lo (Suc i) s s') \<or>
        (\<exists>er s'. st_fold (group_keys cs ss) [] (update_group q i cnt sm cs ss) t = (Err er, s') \<and> fe_stage er = Maintain \<and>
          \<not> plan_valid src' (PAggregate p gb cnt sm))"
        by blast
    qed
    then show ?thesis by (simp add: step st_bind_def run(1) st_lift_def g(1))
  next
    case bad
    then show ?thesis by (simp add: step st_bind_def stepped_def)
  qed
qed

lemma step_join:
  assumes h: "holds src (pr_nodes s) lo i (PJoin l r a b)" and fr: "fresh_memo lo (Suc i) s"
    and run: "runs src src' run lo i l" "runs src src' run lo i r"
    and src: "src_ok ar src" "src_ok ar src'" and ok: "plan_ok ar (PJoin l r a b)"
    and safe: "join_safe a b (plan_sem src l) (plan_sem src' l) (plan_sem src r) (plan_sem src' r)"
  shows "stepped src src' (PJoin l r a b) lo i s (step_node deltas q run i s)"
proof -
  let ?p = "PJoin l r a b"
  from h obtain j k c li ri where n: "i < length (pr_nodes s)" "pr_nodes s ! i = NJoin j k a b c li ri"
    "counts_are c (plan_sem src ?p)" "index_are li a (plan_sem src l)" "index_are ri b (plan_sem src r)"
    "holds src (pr_nodes s) lo j l" "holds src (pr_nodes s) (Suc j) k r" "i = Suc k" by auto
  have le: "lo \<le> j" "j < k" using holds_range(1) [OF n(6)] holds_range(1) [OF n(7)] by simp_all
  have step: "step_node deltas q run i s = st_bind (run j) (\<lambda>dl. st_bind (run k) (\<lambda>dr.
      st_bind (index_update q i True dl a) (\<lambda>_. st_bind (index_update q i False dr b) (\<lambda>_.
      st_bind (\<lambda>s. (join_delta i dl dr a b s, s)) (\<lambda>out.
      st_bind (apply_counts q i out) (\<lambda>_. st_return out)))))) s"
    using n by (simp add: step_node_def st_bind_def st_get_def)
  have fail: "stepped src src' ?p lo i s rs" if "rs = (Err er, t)" "fe_stage er = Maintain"
    "\<not> plan_valid src' l \<or> \<not> plan_valid src' r" for rs er t
    using that by (auto simp: stepped_def)
  have neg: "sint (plan_sem src' p row) < 0 \<Longrightarrow> \<not> plan_valid src' p" for p row
    using plan_valid_nonneg [of src' p row] by auto
  from runs_child [OF run(1) n(6) order_refl _ fr] le n(8) consider
    (ok) dl t where "run j s = (Ok dl, t)" "delta_ok dl (plan_sem src l) (plan_sem src' l)" "holds src' (pr_nodes t) lo j l" "framed lo (Suc j) s t"
    | (bad) er t where "run j s = (Err er, t)" "fe_stage er = Maintain" "\<not> plan_valid src' l"
    by auto
  then show ?thesis
  proof cases
    case bad
    show ?thesis by (rule fail [where er = er and t = t]) (simp_all add: step st_bind_def bad)
  next
    case l: ok
    have hr: "holds src (pr_nodes t) (Suc j) k r"
      using l(4) by (intro holds_frame(1) [OF n(7)]) (auto simp: framed_def)
    have frt: "fresh_memo (Suc j) (Suc i) t" using fr l(4) le by (auto simp: fresh_memo_def framed_def)
    from runs_child [OF run(2) hr _ _ frt] le n(8) consider
      (ok) dr u where "run k t = (Ok dr, u)" "delta_ok dr (plan_sem src r) (plan_sem src' r)" "holds src' (pr_nodes u) (Suc j) k r" "framed (Suc j) i t u"
      | (bad) er u where "run k t = (Err er, u)" "fe_stage er = Maintain" "\<not> plan_valid src' r"
      by auto
    then show ?thesis
    proof cases
      case bad
      show ?thesis by (rule fail [where er = er and t = u]) (simp_all add: step st_bind_def l(1) bad)
    next
      case r: ok
      have fu: "framed lo i s u" using framed_trans [OF l(4) r(4)] le n(8) by simp
      have hl: "holds src' (pr_nodes u) lo j l"
        using r(4) by (intro holds_frame(1) [OF l(3)]) (auto simp: framed_def)
      have un: "i < length (pr_nodes u)" "pr_nodes u ! i = NJoin j k a b c li ri"
        using n framed_length [OF fu] framed_nth [OF fu, of i] by simp_all
      from ok obtain ml mr where m: "plan_arity ar l = Some ml" "a < ml" "plan_arity ar r = Some mr" "b < mr" by auto
      have lenl: "\<forall>x \<in> set dl. a < length (fst x)"
        using m delta_length [OF src m(1) l(2)] by fastforce
      have lenr: "\<forall>x \<in> set dr. b < length (fst x)"
        using m delta_length [OF src m(3) r(2)] by fastforce
      from index_update_ok [OF un(1) _ n(4) l(2) lenl, where left = True and q = q] un(2) consider
        (ok) li' j1 where "index_update q i True dl a u = (Ok (), put_node i (NJoin j k a b c li' ri) j1 u)" "index_are li' a (plan_sem src' l)"
        | (bad) er v row where "index_update q i True dl a u = (Err er, v)" "fe_stage er = Maintain" "sint (plan_sem src' l row) < 0"
        by auto
      then show ?thesis
      proof cases
        case bad
        show ?thesis
          by (rule fail [where er = er and t = v]) (use bad neg in \<open>simp_all add: step st_bind_def l(1) r(1)\<close>)
      next
        case li: ok
        let ?v = "put_node i (NJoin j k a b c li' ri) j1 u"
        have vn: "i < length (pr_nodes ?v)" "pr_nodes ?v ! i = NJoin j k a b c li' ri" using un by simp_all
        from index_update_ok [OF vn(1) _ n(5) r(2) lenr, where left = False and q = q] vn(2) consider
          (ok) ri' j2 where "index_update q i False dr b ?v = (Ok (), put_node i (NJoin j k a b c li' ri') j2 u)" "index_are ri' b (plan_sem src' r)"
          | (bad) er w row where "index_update q i False dr b ?v = (Err er, w)" "fe_stage er = Maintain" "sint (plan_sem src' r row) < 0"
          by auto
        then show ?thesis
        proof cases
          case bad
          show ?thesis
            by (rule fail [where er = er and t = w]) (use bad neg in \<open>simp_all add: step st_bind_def l(1) r(1) li(1)\<close>)
        next
          case ri: ok
          let ?w = "put_node i (NJoin j k a b c li' ri') j2 u"
          have wn: "i < length (pr_nodes ?w)" "pr_nodes ?w ! i = NJoin j k a b c li' ri'" using un by simp_all
          have "vec_get (pr_nodes ?w) i = Some (NJoin j k a b c li' ri')" using wn by simp
          from join_delta_ok [OF li(2) ri(2) src_ok_fin [OF src(1)] src_ok_fin [OF src(2)] src_ok_fin [OF src(1)]
              src_ok_fin [OF src(2)] l(2) r(2) safe lenl lenr this]
          obtain out where out: "join_delta i dl dr a b ?w = Ok out" "delta_ok out (plan_sem src ?p) (plan_sem src' ?p)"
            by auto
          have "stepped src src' ?p lo i s (st_bind (apply_counts q i out) (\<lambda>_. st_return out) ?w)"
          proof (rule finish_counts [OF wn(1) _ n(3) out(2)])
            fix c' assume "counts_are c' (plan_sem src' ?p)"
            moreover have "holds src' ((pr_nodes u)[i := NJoin j k a b c' li' ri']) lo j l"
              by (rule holds_frame(1) [OF hl]) (use le n(8) in simp_all)
            moreover have "holds src' ((pr_nodes u)[i := NJoin j k a b c' li' ri']) (Suc j) k r"
              by (rule holds_frame(1) [OF r(3)]) (use le n(8) in simp_all)
            ultimately show "holds src' ((pr_nodes ?w)[i := set_counts c' (pr_nodes ?w ! i)]) lo i ?p"
              using un n(8) li(2) ri(2) by simp
          next
            show "framed lo (Suc i) s ?w" using framed_put [OF fu] le n(8) by simp
          qed (use wn le n(8) in simp_all)
          then show ?thesis by (simp add: step st_bind_def l(1) r(1) li(1) ri(1) out(1))
        qed
      qed
    qed
  qed
qed

subsection \<open>The run of a plan\<close>

lemma runs_ok:
  assumes net: "net_ok deltas src src'" and src: "src_ok ar src" "src_ok ar src'"
  shows "plan_ok ar p \<Longrightarrow> plan_valid src p \<Longrightarrow> plan_safe src src' p \<Longrightarrow> hi - lo \<le> fuel \<Longrightarrow>
    runs src src' (run_node deltas q fuel) lo hi p"
proof (induction fuel arbitrary: p lo hi)
  case 0
  then show ?case by (auto simp: runs_def dest!: holds_range(1))
next
  case (Suc fuel)
  show ?case
    unfolding runs_def
  proof (intro allI impI)
    fix lo' i s
    assume h: "holds src (pr_nodes s) lo' i p" and le: "lo \<le> lo'" "i < hi" and fr: "fresh_memo lo' (Suc i) s"
    have sub: "runs src src' (run_node deltas q fuel) lo' m p'"
      if "m \<le> i" "plan_ok ar p'" "plan_valid src p'" "plan_safe src src' p'" for p' m
      using that Suc.prems(4) le by (intro Suc.IH) auto
    have "stepped src src' p lo' i s (step_node deltas q (run_node deltas q fuel) i s)"
    proof (cases p)
      case (PScan r)
      with h net show ?thesis by (auto intro: step_scan)
    next
      case (PUnion ps)
      then show ?thesis
        using h fr Suc.prems by (auto intro!: step_union sub simp: list_all_iff)
    next
      case (PJoin l r a b)
      then show ?thesis
        using h fr Suc.prems src by (auto intro!: step_join sub)
    next
      case (PAggregate p' gb cnt sm)
      then show ?thesis
        using h fr Suc.prems src by (auto intro!: step_aggregate sub)
    next
      case (PProject p' cs)
      then show ?thesis
        using h fr Suc.prems src by (auto intro!: step_project sub)
    next
      case (PDifference l r)
      with h show ?thesis by simp
    qed
    then show "ran src src' p lo' i s (run_node deltas q (Suc fuel) i s)"
      using fr holds_range(1) [OF h] by (intro run_node_stepped) (auto simp: fresh_memo_def)
  qed
qed

end
