(* ===== verification/Frontier_Source.thy ===== *)
theory Frontier_Source
  imports Frontier_Scopes Frontier_Propagate
begin

text \<open>
  Validation and source writes: what \<open>consolidate\<close> computes, what the checks before the first write
  guarantee, and that writing a checked net change moves every multiplicity by its net weight.
\<close>

subsection \<open>Consolidation\<close>

definition change_weight :: "nat \<Rightarrow> row \<Rightarrow> source_change list \<Rightarrow> i64" where
  "change_weight r row chs = (\<Sum>ch\<leftarrow>chs. if sc_relation ch = r \<and> sc_row ch = row then sign_weight (sc_sign ch) else 0)"

definition cons_inv :: "net \<Rightarrow> bool" where
  "cons_inv n \<longleftrightarrow> bt_inv (\<lambda>k::nat. k) n \<and> (\<forall>m \<in> snd ` set n. bt_weights_ok m)"

lemma map_of_bt_nat: "bt_inv (\<lambda>k::nat. k) n \<Longrightarrow> map_of (bt_insert (\<lambda>k. k) r m n) = (map_of n)(r \<mapsto> m)"
  by (rule map_of_bt_insert) simp_all

lemma bt_insert_snd: "snd ` set (bt_insert key r m n) \<subseteq> insert m (snd ` set n)"
  by (induction n) (force split: if_splits)+

lemma cons_inv_net_of: "cons_inv n \<Longrightarrow> bt_weights_ok (net_of n r)"
  unfolding cons_inv_def net_of_def
  by (auto simp: bt_weights_ok_def split: option.split dest!: map_of_SomeD)

lemma consolidate_one_ok:
  assumes "cons_inv n"
  shows "cons_inv (consolidate_one ch n) \<and> zget (net_of (consolidate_one ch n) r) row =
    zget (net_of n r) row + (if sc_relation ch = r \<and> sc_row ch = row then sign_weight (sc_sign ch) else 0) \<and>
    fst ` set (consolidate_one ch n) = insert (sc_relation ch) (fst ` set n)"
proof -
  let ?m = "accumulate_btree (net_of n (sc_relation ch)) (sc_row ch) (sign_weight (sc_sign ch))"
  have one: "consolidate_one ch n = bt_insert (\<lambda>k. k) (sc_relation ch) ?m n"
    by (simp add: consolidate_one_def net_of_def Let_def)
  have bt: "bt_inv (\<lambda>k::nat. k) n" using assms by (simp add: cons_inv_def)
  have ok: "bt_weights_ok (net_of n (sc_relation ch))" by (rule cons_inv_net_of [OF assms])
  then have m: "bt_weights_ok ?m"
    by (simp add: bt_weights_ok_def accumulate_btree_def btw.inv_accum btw.nonzero_accum)
  have "bt_weights_ok b" if "b \<in> snd ` set (bt_insert (\<lambda>k. k) (sc_relation ch) ?m n)" for b
  proof -
    from that bt_insert_snd [of "\<lambda>k. k" "sc_relation ch" ?m n] have "b = ?m \<or> b \<in> snd ` set n" by (meson insertE subsetD)
    with assms m show ?thesis unfolding cons_inv_def by blast
  qed
  with bt have "cons_inv (consolidate_one ch n)" unfolding one cons_inv_def by simp
  moreover have "zget ?m row = zget (net_of n (sc_relation ch)) row + (if sc_row ch = row then sign_weight (sc_sign ch) else 0)"
    using ok by (auto simp: bt_weights_ok_def accumulate_btree_def btw.zget_accum)
  then have "zget (net_of (consolidate_one ch n) r) row =
    zget (net_of n r) row + (if sc_relation ch = r \<and> sc_row ch = row then sign_weight (sc_sign ch) else 0)"
    unfolding one by (auto simp: net_of_def map_of_bt_nat [OF bt])
  moreover have "fst ` set (consolidate_one ch n) = insert (sc_relation ch) (fst ` set n)"
    unfolding one dom_map_of_conv_image_fst [symmetric] map_of_bt_nat [OF bt] by simp
  ultimately show ?thesis by blast
qed

lemma consolidate_fold:
  "cons_inv n \<Longrightarrow> cons_inv (fold consolidate_one chs n) \<and>
     (\<forall>r row. zget (net_of (fold consolidate_one chs n) r) row = zget (net_of n r) row + change_weight r row chs) \<and>
     fst ` set (fold consolidate_one chs n) = sc_relation ` set chs \<union> fst ` set n"
proof (induction chs arbitrary: n)
  case (Cons ch chs)
  from Cons.IH [of "consolidate_one ch n"] consolidate_one_ok [OF Cons.prems, of ch] show ?case
    by (auto simp: change_weight_def add.assoc)
qed (simp add: change_weight_def)

lemma consolidate_ok:
  "cons_inv (consolidate chs)" "zget (net_of (consolidate chs) r) row = change_weight r row chs"
  "fst ` set (consolidate chs) = sc_relation ` set chs"
  using consolidate_fold [of "[]" chs] by (simp_all add: consolidate_def cons_inv_def net_of_def)

lemma net_of_mem: "cons_inv n \<Longrightarrow> (r, m) \<in> set n \<Longrightarrow> net_of n r = m"
  using bt_inv_distinct [of "\<lambda>k::nat. k" n] by (simp add: cons_inv_def net_of_def)

lemma change_weight_nonzeroD: "change_weight r row chs \<noteq> 0 \<Longrightarrow> \<exists>ch \<in> set chs. sc_relation ch = r \<and> sc_row ch = row"
  unfolding change_weight_def by (drule sum_list_nonzero_ex) (auto split: if_splits)

subsection \<open>Multiplicities\<close>

definition src_len :: "engine \<Rightarrow> nat \<Rightarrow> row \<Rightarrow> nat" where
  "src_len e r row = (case vec_get (en_relations e) r of None \<Rightarrow> 0 | Some rel \<Rightarrow> length (ids_of rel row))"

lemma source_sem_len: "source_sem (en_relations e) r row = of_nat (src_len e r row)"
  by (auto simp: source_sem_def src_len_def present_def ids_of_def split: option.split)

text \<open>Everything but rows and journal stays as it is.\<close>

definition same_shape :: "engine \<Rightarrow> engine \<Rightarrow> bool" where
  "same_shape e e' \<longleftrightarrow> map rel_arity (en_relations e') = map rel_arity (en_relations e) \<and>
     map rel_name (en_relations e') = map rel_name (en_relations e) \<and> en_programs e' = en_programs e \<and>
     en_next_program e' = en_next_program e \<and> en_frontiers_applied e' = en_frontiers_applied e"

lemma same_shape_refl [simp]: "same_shape e e"
  by (simp add: same_shape_def)

lemma same_shape_trans: "same_shape a b \<Longrightarrow> same_shape b c \<Longrightarrow> same_shape a c"
  by (simp add: same_shape_def)

lemma same_shape_length: "same_shape e e' \<Longrightarrow> length (en_relations e') = length (en_relations e)"
  unfolding same_shape_def by (metis length_map)

lemma same_shape_put:
  "rel_arity rel = rel_arity (en_relations e ! r) \<Longrightarrow> rel_name rel = rel_name (en_relations e ! r) \<Longrightarrow>
     same_shape e (push_undo u (put_relation r rel e))"
  by (cases "r < length (en_relations e)")
    (simp_all add: same_shape_def push_undo_def put_relation_def map_update list_update_same_conv list_update_beyond)

lemma src_len_put:
  "r < length (en_relations e) \<Longrightarrow> src_len (push_undo u (put_relation r rel e)) r' row =
     (if r' = r then length (ids_of rel row) else src_len e r' row)"
  by (auto simp: src_len_def push_undo_def put_relation_def vec_get_def)

definition moved :: "engine \<Rightarrow> engine \<Rightarrow> nat \<Rightarrow> row \<Rightarrow> nat \<Rightarrow> bool" where
  "moved e e' r row n \<longleftrightarrow> engine_inv e' \<and> same_shape e e' \<and>
     (\<forall>r' row'. src_len e' r' row' = (if r' = r \<and> row' = row then n else src_len e r' row'))"

lemma moved_trans: "moved a b r row n \<Longrightarrow> moved b c r row m \<Longrightarrow> moved a c r row m"
  by (auto simp: moved_def intro: same_shape_trans)

lemma moved_refl: "engine_inv e \<Longrightarrow> moved e e r row (src_len e r row)"
  by (simp add: moved_def)

lemma engine_inv_push [simp]: "engine_inv (push_undo u e) = engine_inv e"
  by (simp add: push_undo_def)

lemma insert_row_ok:
  assumes inv: "engine_inv e" and r: "r < length (en_relations e)"
  shows "\<exists>slot e'. insert_row r row e = (Ok slot, e') \<and> moved e e' r row (Suc (src_len e r row))"
proof -
  let ?rel = "en_relations e ! r"
  obtain slot recycled rel' where ins: "insert_slot row ?rel = (slot, recycled, rel')"
    by (metis prod_cases3)
  let ?e = "push_undo (UInsert r slot recycled) (put_relation r rel' e)"
  have ids: "ids_of rel' row' = (if row' = row then ids_of ?rel row @ [slot] else ids_of ?rel row')" for row'
    using ins by (cases rule: insert_slot_cases) (simp_all add: ids_of_update)
  have shape: "rel_arity rel' = rel_arity ?rel" "rel_name rel' = rel_name ?rel"
    using ins by (cases rule: insert_slot_cases; simp)+
  note li = insert_slot_inv [OF engine_inv_relation [OF inv r] ins]
  have "engine_inv ?e" using engine_inv_put [OF inv] li by simp
  with ids have "moved e ?e r row (Suc (src_len e r row))"
    by (auto simp: moved_def src_len_put [OF r] same_shape_put [OF shape]) (simp_all add: src_len_def r)
  moreover have "insert_row r row e = (Ok slot, ?e)"
    using li r by (simp add: insert_row_def relation_at_def ins)
  ultimately show ?thesis by blast
qed

lemma remove_row_ok:
  assumes inv: "engine_inv e" and r: "r < length (en_relations e)" and n: "src_len e r row = Suc n"
  shows "\<exists>slot e'. remove_row r row e = (Ok (Some slot), e') \<and> moved e e' r row n"
proof -
  let ?rel = "en_relations e ! r"
  have "length (ids_of ?rel row) = Suc n" using n r by (simp add: src_len_def)
  then obtain ids where ids: "map_of (rel_by_value ?rel) row = Some ids" "length ids = Suc n"
    by (auto simp: ids_of_def split: option.splits)
  note ok = remove_slot_inv [OF engine_inv_relation [OF inv r] ids(1)]
  let ?rel' = "?rel\<lparr>rel_rows := (rel_rows ?rel)[last ids := None], rel_free := rel_free ?rel @ [last ids],
    rel_by_value := drop_last_id row (rel_by_value ?rel) ids\<rparr>"
  let ?e = "push_undo (URemove r (last ids) row) (put_relation r ?rel' e)"
  have "ids_of ?rel' row' = (if row' = row then butlast ids else ids_of ?rel row')" for row'
    by (auto simp: ids_of_def map_of_drop_last_id)
  moreover have "engine_inv ?e" using engine_inv_put [OF inv] ok by simp
  moreover have "same_shape e ?e" by (rule same_shape_put) simp_all
  ultimately have "moved e ?e r row n"
    using ids by (auto simp: moved_def src_len_put [OF r]) (simp_all add: src_len_def r)
  moreover have "remove_row r row e = (Ok (Some (last ids)), ?e)"
    using ok r ids by (simp add: remove_row_def relation_at_def Let_def drop_last_id_def)
  ultimately show ?thesis by blast
qed

lemma insert_loop:
  assumes "engine_inv e" and "r < length (en_relations e)"
  shows "\<exists>e'. st_for xs (\<lambda>_. st_bind (insert_row r row) (\<lambda>_. st_return ())) e = (Ok (), e') \<and>
    moved e e' r row (src_len e r row + length xs)"
  using assms
proof (induction xs arbitrary: e)
  case Nil
  then show ?case by (simp add: st_return_def moved_refl)
next
  case (Cons x xs)
  obtain slot e1 where e1: "insert_row r row e = (Ok slot, e1)" "moved e e1 r row (Suc (src_len e r row))"
    using insert_row_ok [OF Cons.prems] by blast
  then have "engine_inv e1" "r < length (en_relations e1)" "src_len e1 r row = Suc (src_len e r row)"
    using Cons.prems by (auto simp: moved_def dest: same_shape_length)
  with Cons.IH [of e1] e1 show ?case
    by (auto simp: st_bind_def st_return_def intro: moved_trans)
qed

lemma remove_loop:
  assumes "engine_inv e" and "r < length (en_relations e)" and "length xs \<le> src_len e r row"
  shows "\<exists>e'. st_for xs (\<lambda>_. st_bind (remove_row r row) (\<lambda>_. st_return ())) e = (Ok (), e') \<and>
    moved e e' r row (src_len e r row - length xs)"
  using assms
proof (induction xs arbitrary: e)
  case Nil
  then show ?case by (simp add: st_return_def moved_refl)
next
  case (Cons x xs)
  then obtain n where n: "src_len e r row = Suc n" by (cases "src_len e r row") auto
  obtain slot e1 where e1: "remove_row r row e = (Ok (Some slot), e1)" "moved e e1 r row n"
    using remove_row_ok [OF Cons.prems(1,2) n] by blast
  then have "engine_inv e1" "r < length (en_relations e1)" "src_len e1 r row = n"
    using Cons.prems by (auto simp: moved_def dest: same_shape_length)
  with Cons.IH [of e1] Cons.prems n e1 show ?case
    by (auto simp: st_bind_def st_return_def intro: moved_trans)
qed

subsection \<open>Writing a net change\<close>

text \<open>Several multiplicities at once.\<close>

definition wrote :: "engine \<Rightarrow> engine \<Rightarrow> (nat \<Rightarrow> row \<Rightarrow> nat) \<Rightarrow> bool" where
  "wrote e e' f \<longleftrightarrow> engine_inv e' \<and> same_shape e e' \<and> src_len e' = f"

lemma wrote_refl: "engine_inv e \<Longrightarrow> wrote e e (src_len e)"
  by (simp add: wrote_def)

lemma wrote_trans: "wrote a b f \<Longrightarrow> wrote b c g \<Longrightarrow> wrote a c g"
  by (auto simp: wrote_def intro: same_shape_trans)

lemma moved_wrote: "moved e e' r row n \<Longrightarrow> wrote e e' ((src_len e)(r := (src_len e r)(row := n)))"
  by (auto simp: moved_def wrote_def fun_eq_iff)

definition plus_weight :: "nat \<Rightarrow> i64 \<Rightarrow> nat" where
  "plus_weight n w = nat (int n + sint w)"

lemma plus_weight_zero [simp]: "plus_weight n 0 = n"
  by (simp add: plus_weight_def)

lemma of_nat_plus_weight: "0 \<le> int n + sint w \<Longrightarrow> (of_nat (plus_weight n w) :: i64) = of_nat n + w"
proof -
  assume "0 \<le> int n + sint w"
  then have "(of_nat (plus_weight n w) :: i64) = of_int (int n + sint w)"
    by (metis nat_0_le of_int_of_nat_eq plus_weight_def)
  also have "\<dots> = of_nat n + w" by simp
  finally show ?thesis .
qed

lemma sint_neg_i64: "sint (w :: i64) \<noteq> - (2 ^ 63) \<Longrightarrow> sint (- w) = - sint w"
  using sint_i64_ge [of w] sint_i64_le [of w]
  by (simp add: sint_word_ariths signed_take_bit_int_eq_self)

lemma st_bind_Ok: "m s = (Ok a, t) \<Longrightarrow> st_bind m f s = f a t"
  by (simp add: st_bind_def)

lemma write_row_ok:
  assumes inv: "engine_inv e" and r: "r < length (en_relations e)"
    and len: "src_len e r row < 2 ^ 63" and ok: "0 \<le> int (src_len e r row) + sint w"
  shows "\<exists>e'. st_bind (st_for [0..<nat (sint w)] (\<lambda>_. st_bind (insert_row r row) (\<lambda>_. st_return ()))) (\<lambda>_.
       st_for [0..<nat (sint (- w))] (\<lambda>_. st_bind (remove_row r row) (\<lambda>_. st_return ()))) e = (Ok (), e') \<and>
    moved e e' r row (plus_weight (src_len e r row) w)"
proof -
  from len have "int (src_len e r row) < int (2 ^ 63)" by (simp only: of_nat_less_iff)
  with ok have neg: "sint (- w) = - sint w" by (intro sint_neg_i64) auto
  obtain e1 where e1: "st_for [0..<nat (sint w)] (\<lambda>_. st_bind (insert_row r row) (\<lambda>_. st_return ())) e = (Ok (), e1)"
    "moved e e1 r row (src_len e r row + nat (sint w))"
    using insert_loop [OF inv r, of "[0..<nat (sint w)]" row] by auto
  then have m: "engine_inv e1" "r < length (en_relations e1)" "src_len e1 r row = src_len e r row + nat (sint w)"
    using r by (auto simp: moved_def dest: same_shape_length)
  then have "length [0..<nat (sint (- w))] \<le> src_len e1 r row" using ok neg by simp
  from remove_loop [OF m(1,2) this] obtain e2 where
    e2: "st_for [0..<nat (sint (- w))] (\<lambda>_. st_bind (remove_row r row) (\<lambda>_. st_return ())) e1 = (Ok (), e2)"
    "moved e1 e2 r row (src_len e1 r row - nat (sint (- w)))" by auto
  have "src_len e1 r row - nat (sint (- w)) = plus_weight (src_len e r row) w"
    using ok m(3) neg by (simp add: plus_weight_def)
  with e1 e2 show ?thesis by (auto simp: st_bind_def intro: moved_trans)
qed

lemma write_source_ok:
  assumes "engine_inv e" and "r < length (en_relations e)" and "distinct (map fst net)"
    and "\<forall>(row, w) \<in> set net. src_len e r row < 2 ^ 63 \<and> 0 \<le> int (src_len e r row) + sint w"
  shows "\<exists>e'. write_source r net e = (Ok (), e') \<and>
    wrote e e' ((src_len e)(r := (\<lambda>row. plus_weight (src_len e r row) (zget net row))))"
  using assms unfolding write_source_def
proof (induction net arbitrary: e)
  case Nil
  then show ?case by (simp add: st_return_def wrote_refl)
next
  case (Cons x net)
  obtain row w where x: "x = (row, w)" by (cases x)
  let ?w = "\<lambda>(row, weight). st_bind (st_for [0..<nat (sint weight)] (\<lambda>_. st_bind (insert_row r row) (\<lambda>_. st_return ())))
      (\<lambda>_. st_for [0..<nat (sint (- weight))] (\<lambda>_. st_bind (remove_row r row) (\<lambda>_. st_return ())))"
  obtain e1 where e1: "?w (row, w) e = (Ok (), e1)" "moved e e1 r row (plus_weight (src_len e r row) w)"
    using write_row_ok [OF Cons.prems(1,2), of row w] Cons.prems(4) by (auto simp: x)
  then have m: "engine_inv e1" "r < length (en_relations e1)"
    "src_len e1 r row' = (if row' = row then plus_weight (src_len e r row) w else src_len e r row')" for row'
    using Cons.prems(2) by (auto simp: moved_def dest: same_shape_length)
  have fresh: "row \<notin> fst ` set net" "zget net row = 0"
    using Cons.prems(3) by (auto simp: x zget_def map_of_eq_None_iff [THEN iffD2])
  have dist: "distinct (map fst net)" using Cons.prems(3) by (simp add: x)
  have rest: "\<forall>(row', w') \<in> set net. src_len e1 r row' < 2 ^ 63 \<and> 0 \<le> int (src_len e1 r row') + sint w'"
  proof clarify
    fix row' w' assume mem: "(row', w') \<in> set net"
    then have "row' \<noteq> row" using fresh(1) by (metis fst_conv image_eqI)
    with mem Cons.prems(4) show "src_len e1 r row' < 2 ^ 63 \<and> 0 \<le> int (src_len e1 r row') + sint w'"
      by (auto simp: m(3) x)
  qed
  from Cons.IH [OF m(1,2) dist rest] obtain e' where e': "st_for net ?w e1 = (Ok (), e')"
    "wrote e1 e' ((src_len e1)(r := (\<lambda>row. plus_weight (src_len e1 r row) (zget net row))))" by blast
  have other: "src_len e1 r' = src_len e r'" if "r' \<noteq> r" for r'
    using that e1(2) by (auto simp: moved_def)
  have same: "plus_weight (src_len e1 r row') (zget net row') = plus_weight (src_len e r row') (zget (x # net) row')" for row'
    by (simp add: m(3) x zget_Cons fresh(2))
  have "(src_len e1)(r := (\<lambda>row. plus_weight (src_len e1 r row) (zget net row))) =
      (src_len e)(r := (\<lambda>row. plus_weight (src_len e r row) (zget (x # net) row)))"
    unfolding same using other by (rule_tac ext) simp
  with wrote_trans [OF moved_wrote [OF e1(2)] e'(2)]
  have "wrote e e' ((src_len e)(r := (\<lambda>row. plus_weight (src_len e r row) (zget (x # net) row))))" by simp
  moreover have "st_for (x # net) ?w e = st_for net ?w e1"
    unfolding st_for.simps x by (rule st_bind_Ok [where m = "?w (row, w)" and s = e, OF e1(1)])
  ultimately show ?case by (intro exI [of _ e'] conjI) (simp only: e'(1))
qed

text \<open>The checks made before the first write.\<close>

definition len_ok :: "engine \<Rightarrow> bool" where
  "len_ok e \<longleftrightarrow> (\<forall>r row. src_len e r row < 2 ^ 63)"

definition net_fits :: "engine \<Rightarrow> nat \<Rightarrow> counts \<Rightarrow> bool" where
  "net_fits e r net \<longleftrightarrow> r < length (en_relations e) \<and> (\<forall>(row, w) \<in> set net. 0 \<le> int (src_len e r row) + sint w)"

lemma rust_fold_unit: "rust_fold xs () (\<lambda>x _. f x) = Ok () \<longleftrightarrow> (\<forall>x \<in> set xs. f x = Ok ())"
  by (induction xs) (auto simp: rust_simps)

lemma rust_fold_unit_Panic: "rust_fold xs () (\<lambda>x _. f x) = Panic \<Longrightarrow> \<exists>x \<in> set xs. f x = Panic"
  by (induction xs) (auto simp: rust_simps)

lemma rust_fold_unit_Err: "rust_fold xs () (\<lambda>x _. f x) = Err er \<Longrightarrow> \<exists>x \<in> set xs. f x = Err er"
  by (induction xs) (auto simp: rust_simps)

lemma sint_present:
  assumes "n < 2 ^ 63"
  shows "sint (of_nat n :: i64) = int n"
proof -
  have "int n < 2 ^ 63" using assms by (metis of_nat_less_iff of_nat_numeral of_nat_power)
  then show ?thesis by (simp add: signed_of_nat signed_take_bit_int_eq_self)
qed

lemma check_removal_iff:
  assumes "r < length (en_relations e)" and len: "src_len e r row < 2 ^ 63"
  shows "check_removal (en_relations e ! r) (row, w) = Ok () \<longleftrightarrow> 0 \<le> int (src_len e r row) + sint w"
proof -
  have p: "present (en_relations e ! r) row = of_nat (src_len e r row)"
    using assms by (auto simp: present_def src_len_def ids_of_def split: option.split)
  show ?thesis
  proof (cases "sint w < 0")
    case True
    have "int (src_len e r row) < 2 ^ 63" using len by (metis of_nat_less_iff of_nat_numeral of_nat_power)
    then have "sint (present (en_relations e ! r) row + w) = int (src_len e r row) + sint w"
      using True sint_i64_ge [of w] by (subst sint_add_i64) (auto simp: p sint_present len)
    with True show ?thesis by (simp add: check_removal_def)
  qed (simp add: check_removal_def)
qed

lemma check_net_iff:
  assumes "len_ok e"
  shows "check_net e (r, net) = Ok () \<longleftrightarrow> net_fits e r net"
  using check_removal_iff [of r e] assms
  by (auto simp: check_net_def net_fits_def rust_simps rust_fold_unit len_ok_def case_prod_unfold
      intro!: exI [of _ "en_relations e ! r"])

text \<open>All relations of a consolidated frontier.\<close>

definition post_len :: "engine \<Rightarrow> net \<Rightarrow> nat \<Rightarrow> row \<Rightarrow> nat" where
  "post_len e n r row = plus_weight (src_len e r row) (zget (net_of n r) row)"

lemma write_all_ok:
  assumes "engine_inv e" and "len_ok e" and "distinct (map fst n)"
    and "\<forall>(r, m) \<in> set n. distinct (map fst m) \<and> net_fits e r m"
  shows "\<exists>e'. st_for n (\<lambda>(r, net). write_source r net) e = (Ok (), e') \<and> wrote e e' (post_len e n)"
proof -
  have "\<exists>e'. st_for n (\<lambda>(r, net). write_source r net) e1 = (Ok (), e') \<and>
      wrote e1 e' (\<lambda>r row. plus_weight (src_len e1 r row) (zget (net_of n r) row))"
    if "engine_inv e1" "length (en_relations e1) = length (en_relations e)" "distinct (map fst n)"
      "\<forall>(r, m) \<in> set n. distinct (map fst m) \<and> net_fits e r m" "\<forall>r \<in> fst ` set n. src_len e1 r = src_len e r" for e1 n
    using that
  proof (induction n arbitrary: e1)
    case Nil
    then show ?case by (simp add: st_return_def net_of_def wrote_refl)
  next
    case (Cons x n)
    obtain r m where x: "x = (r, m)" by (cases x)
    from Cons.prems have len: "src_len e1 r = src_len e r" and dm: "distinct (map fst m)" and fits: "net_fits e r m"
      by (auto simp: x)
    then have r: "r < length (en_relations e1)" using Cons.prems(2) by (simp add: net_fits_def)
    have "\<forall>(row, w) \<in> set m. src_len e1 r row < 2 ^ 63 \<and> 0 \<le> int (src_len e1 r row) + sint w"
      using fits assms(2) by (auto simp: net_fits_def len len_ok_def)
    from write_source_ok [OF Cons.prems(1) r dm this] obtain e2 where
      e2: "write_source r m e1 = (Ok (), e2)"
        "wrote e1 e2 ((src_len e1)(r := (\<lambda>row. plus_weight (src_len e1 r row) (zget m row))))" by blast
    have inv2: "engine_inv e2" "length (en_relations e2) = length (en_relations e)"
      using e2(2) Cons.prems(2) by (auto simp: wrote_def dest: same_shape_length)
    have len2: "src_len e2 r' = (if r' = r then (\<lambda>row. plus_weight (src_len e1 r row) (zget m row)) else src_len e1 r')" for r'
      using e2(2) by (auto simp: wrote_def)
    have fresh: "r \<notin> fst ` set n" using Cons.prems(3) by (simp add: x)
    have "\<forall>r' \<in> fst ` set n. src_len e2 r' = src_len e r'"
      using Cons.prems(5) fresh by (auto simp: len2 x)
    moreover have "distinct (map fst n)" "\<forall>(r, m) \<in> set n. distinct (map fst m) \<and> net_fits e r m"
      using Cons.prems(3,4) by (auto simp: x)
    ultimately obtain e' where e': "st_for n (\<lambda>(r, net). write_source r net) e2 = (Ok (), e')"
      "wrote e2 e' (\<lambda>r row. plus_weight (src_len e2 r row) (zget (net_of n r) row))"
      using Cons.IH [OF inv2] by blast
    have "net_of n r = []" using fresh by (simp add: net_of_def map_of_eq_None_iff [THEN iffD2])
    then have "plus_weight (src_len e2 r' row) (zget (net_of n r') row) =
        plus_weight (src_len e1 r' row) (zget (net_of (x # n) r') row)" for r' row
      by (auto simp: len2 net_of_def x)
    with wrote_trans [OF e2(2) e'(2)]
    have "wrote e1 e' (\<lambda>r row. plus_weight (src_len e1 r row) (zget (net_of (x # n) r) row))" by simp
    moreover have "st_for (x # n) (\<lambda>(r, net). write_source r net) e1 = st_for n (\<lambda>(r, net). write_source r net) e2"
      by (simp add: x st_bind_def e2(1))
    ultimately show ?case by (intro exI [of _ e'] conjI) (simp only: e'(1))
  qed
  from this [OF assms(1) refl assms(3,4)] show ?thesis by (simp add: post_len_def [abs_def])
qed

subsection \<open>Validation\<close>

definition changes_typed :: "engine \<Rightarrow> source_change list \<Rightarrow> bool" where
  "changes_typed e chs \<longleftrightarrow> (\<forall>ch \<in> set chs. sc_relation ch < length (en_relations e) \<and>
     length (sc_row ch) = rel_arity (en_relations e ! sc_relation ch))"

definition changes_fit :: "engine \<Rightarrow> source_change list \<Rightarrow> bool" where
  "changes_fit e chs \<longleftrightarrow> (\<forall>r row. 0 \<le> int (src_len e r row) + sint (change_weight r row chs))"

lemma validate_fold: "rust_fold chs () (\<lambda>ch _. validate_change e ch) = Ok () \<longleftrightarrow> changes_typed e chs"
  unfolding rust_fold_unit changes_typed_def
  by (auto simp: validate_change_def rust_simps split: if_splits)

lemma consolidated_fits:
  assumes "changes_typed e chs"
  shows "(\<forall>(r, m) \<in> set (consolidate chs). net_fits e r m) \<longleftrightarrow> changes_fit e chs"
proof
  let ?n = "consolidate chs"
  note cons = consolidate_ok [of chs]
  assume fits: "\<forall>(r, m) \<in> set ?n. net_fits e r m"
  show "changes_fit e chs"
    unfolding changes_fit_def
  proof (intro allI)
    fix r row
    show "0 \<le> int (src_len e r row) + sint (change_weight r row chs)"
    proof (cases "change_weight r row chs = 0")
      case False
      then have z: "zget (net_of ?n r) row \<noteq> 0" by (simp add: cons)
      then obtain m where m: "map_of ?n r = Some m" by (auto simp: net_of_def split: option.splits)
      then have "(r, m) \<in> set ?n" "net_of ?n r = m" by (auto simp: net_of_def dest: map_of_SomeD)
      with fits z zget_nonzero_mem [OF z] show ?thesis
        by (fastforce simp: net_fits_def cons(2) [symmetric])
    qed simp
  qed
next
  let ?n = "consolidate chs"
  note cons = consolidate_ok [of chs]
  assume fit: "changes_fit e chs"
  show "\<forall>(r, m) \<in> set ?n. net_fits e r m"
  proof clarify
    fix r m assume mem: "(r, m) \<in> set ?n"
    then have nm: "net_of ?n r = m" using net_of_mem [OF cons(1)] by blast
    have dm: "distinct (map fst m)"
      using cons_inv_net_of [OF cons(1), of r] bt_inv_distinct [of row_key m] by (simp add: nm bt_weights_ok_def)
    from mem have "r \<in> fst ` set ?n" by force
    then have "r < length (en_relations e)" using assms by (auto simp: cons changes_typed_def)
    moreover have "0 \<le> int (src_len e r row) + sint w" if "(row, w) \<in> set m" for row w
      using fit zget_mem [OF dm that] cons(2) [of r row] by (simp add: changes_fit_def nm)
    ultimately show "net_fits e r m" by (auto simp: net_fits_def)
  qed
qed

lemma check_fold:
  assumes "len_ok e" and "changes_typed e chs"
  shows "rust_fold (consolidate chs) () (\<lambda>rn _. check_net e rn) = Ok () \<longleftrightarrow> changes_fit e chs"
  unfolding rust_fold_unit consolidated_fits [OF assms(2), symmetric]
  using check_net_iff [OF assms(1)] by (auto split: prod.splits)

text \<open>Everything a validation can report is a validation error.\<close>

lemma validate_fold_Err: "rust_fold chs () (\<lambda>ch _. validate_change e ch) = Err er \<Longrightarrow> fe_stage er = Validate"
  by (drule rust_fold_unit_Err)
    (auto simp: validate_change_def rust_simps relation_at_def ferr_def split: if_splits option.splits)

lemma check_fold_Err: "rust_fold n () (\<lambda>rn _. check_net e rn) = Err er \<Longrightarrow> fe_stage er = Validate"
  by (drule rust_fold_unit_Err)
    (auto simp: check_net_def check_removal_def rust_simps relation_at_def ferr_def
      split: if_splits option.splits dest!: rust_fold_unit_Err)

lemma validate_fold_Panic: "rust_fold chs () (\<lambda>ch _. validate_change e ch) \<noteq> Panic"
  by (auto simp: validate_change_def rust_simps dest!: rust_fold_unit_Panic split: if_splits)

lemma check_fold_Panic: "rust_fold n () (\<lambda>rn _. check_net e rn) \<noteq> Panic"
  by (auto simp: check_net_def check_removal_def rust_simps dest!: rust_fold_unit_Panic split: if_splits)

lemma program_at_Err: "program_at e p = Err er \<Longrightarrow> fe_stage er = Validate"
  by (auto simp: program_at_def ferr_def split: option.splits)

lemma program_at_not_Panic: "program_at e p \<noteq> Panic"
  by (auto simp: program_at_def split: option.splits)

lemma program_at_Ok_iff: "program_at e p = Ok ps \<longleftrightarrow> vec_get (en_programs e) p = Some (Some ps)"
  by (auto simp: program_at_def split: option.splits)

end
