(* ===== verification/Frontier_Output.thy ===== *)
theory Frontier_Output
  imports Frontier_Source
begin

text \<open>
  Outputs. A row of an output is visible when its weight is positive; the changes a frontier
  returns for an output are the rows whose visibility it flips, each once, in row order, and a
  snapshot is the visible rows in order.
\<close>

definition visible :: "(row \<Rightarrow> i64) \<Rightarrow> row \<Rightarrow> bool" where
  "visible z row \<longleftrightarrow> 0 < sint (z row)"

definition flips :: "(row \<Rightarrow> i64) \<Rightarrow> (row \<Rightarrow> i64) \<Rightarrow> output_change list \<Rightarrow> bool" where
  "flips z z' cs \<longleftrightarrow> sorted_by (\<lambda>a b. row_cmp (oc_row a) (oc_row b)) cs \<and> distinct (map oc_row cs) \<and>
     (\<forall>row. \<lparr>oc_sign = Plus, oc_row = row\<rparr> \<in> set cs \<longleftrightarrow> \<not> visible z row \<and> visible z' row) \<and>
     (\<forall>row. \<lparr>oc_sign = Minus, oc_row = row\<rparr> \<in> set cs \<longleftrightarrow> visible z row \<and> \<not> visible z' row)"

interpretation oc: comparator_on "\<lambda>_. True" "\<lambda>a b. row_cmp (oc_row a) (oc_row b)"
  by (rule comparator_on_key [where f = "\<lambda>a. row_key (oc_row a)"]) (simp add: row_cmp_def)

lemma distinct_map_sort_by [simp]: "distinct (map f (sort_by c xs)) = distinct (map f xs)"
  by (metis mset_eq_imp_distinct_iff mset_map mset_sort_by)

lemma distinct_map_filter:
  assumes "distinct (map fst d)" and "\<And>x y. f x = Some y \<Longrightarrow> g y = fst x"
  shows "distinct (map g (List.map_filter f d))"
proof -
  have "map g (List.map_filter f d) = map fst (filter (\<lambda>x. f x \<noteq> None) d)"
    using assms(2) by (induction d) (auto simp: List.map_filter_simps split: option.split)
  with assms(1) show ?thesis by (simp add: distinct_map_filter)
qed

lemma set_map_filter': "set (List.map_filter f xs) = {y. \<exists>x \<in> set xs. f x = Some y}"
  by (auto simp: List.map_filter_def image_iff) force+

lemma distinct_transitions_ok:
  assumes d: "delta_ok d z z'" and c: "\<And>row. zget c row = z' row"
  shows "flips z z' (sort_by (\<lambda>a b. row_cmp (oc_row a) (oc_row b)) (distinct_transitions c d))"
proof -
  define f where "f = (\<lambda>(row, weight).
      let post = zget c row; pre = post - weight
      in if \<not> 0 < sint pre \<and> 0 < sint post then Some \<lparr>oc_sign = Plus, oc_row = row\<rparr>
         else if 0 < sint pre \<and> \<not> 0 < sint post then Some \<lparr>oc_sign = Minus, oc_row = row\<rparr>
         else None)"
  have f: "f (row, w) = (if \<not> visible z row \<and> visible z' row then Some \<lparr>oc_sign = Plus, oc_row = row\<rparr>
      else if visible z row \<and> \<not> visible z' row then Some \<lparr>oc_sign = Minus, oc_row = row\<rparr> else None)"
    if "(row, w) \<in> set d" for row w
  proof -
    have "w = z' row - z row" using d zget_mem [OF delta_ok_distinct [OF d] that] by (simp add: delta_ok_def)
    then show ?thesis by (simp add: f_def Let_def c visible_def)
  qed
  have mem: "\<exists>w. (row, w) \<in> set d" if "visible z row \<noteq> visible z' row" for row
  proof -
    have "zget d row \<noteq> 0" using that d by (auto simp: delta_ok_def visible_def)
    then show ?thesis by (blast dest: zget_nonzero_mem)
  qed
  have dt: "distinct_transitions c d = sort_by (\<lambda>a b. row_cmp (oc_row a) (oc_row b)) (List.map_filter f d)"
    by (simp add: distinct_transitions_def f_def)
  have "distinct (map oc_row (List.map_filter f d))"
    by (rule distinct_map_filter [OF delta_ok_distinct [OF d]]) (auto simp: f_def Let_def split: if_splits)
  moreover have fs: "f (row, w) = Some c \<longleftrightarrow>
      (\<not> visible z row \<and> visible z' row \<and> c = \<lparr>oc_sign = Plus, oc_row = row\<rparr> \<or>
       visible z row \<and> \<not> visible z' row \<and> c = \<lparr>oc_sign = Minus, oc_row = row\<rparr>)" if "(row, w) \<in> set d" for row w c
    using f [OF that] by auto
  have in_d: "c \<in> set (List.map_filter f d) \<longleftrightarrow> (\<exists>row w. (row, w) \<in> set d \<and>
      (\<not> visible z row \<and> visible z' row \<and> c = \<lparr>oc_sign = Plus, oc_row = row\<rparr> \<or>
       visible z row \<and> \<not> visible z' row \<and> c = \<lparr>oc_sign = Minus, oc_row = row\<rparr>))" for c
    unfolding set_map_filter' by (simp add: Bex_def split_paired_Ex fs cong: conj_cong)
  have "\<lparr>oc_sign = Plus, oc_row = row\<rparr> \<in> set (List.map_filter f d) \<longleftrightarrow> \<not> visible z row \<and> visible z' row" for row
    unfolding in_d using mem [of row] by auto
  moreover have "\<lparr>oc_sign = Minus, oc_row = row\<rparr> \<in> set (List.map_filter f d) \<longleftrightarrow> visible z row \<and> \<not> visible z' row" for row
    unfolding in_d using mem [of row] by auto
  ultimately show ?thesis
    unfolding flips_def dt by (simp add: oc.sorted_sort_by)
qed

text \<open>Weights of an aggregate are zero or one, so its delta is signed by visibility.\<close>

lemma unit_delta_ok:
  assumes d: "delta_ok d z z'" and z: "\<And>row. z row \<in> {0, 1}" "\<And>row. z' row \<in> {0, 1}"
  shows "flips z z' (sort_by (\<lambda>a b. row_cmp (oc_row a) (oc_row b))
    (map (\<lambda>(row, weight). \<lparr>oc_sign = (if 0 < sint weight then Plus else Minus), oc_row = row\<rparr>) d))"
proof -
  have w: "w = z' row - z row \<and> w \<noteq> 0" if "(row, w) \<in> set d" for row w
    using that d zget_mem [OF delta_ok_distinct [OF d] that] by (auto simp: delta_ok_def nonzero_def)
  have mem: "(row, z' row - z row) \<in> set d" if "z row \<noteq> z' row" for row
  proof -
    have "zget d row = z' row - z row" using d by (simp add: delta_ok_def)
    with that show ?thesis using zget_nonzero_mem [of d row] by simp
  qed
  define ch where "ch = map (\<lambda>(row, weight). \<lparr>oc_sign = (if 0 < sint weight then Plus else Minus), oc_row = row\<rparr>) d"
  have in_ch: "\<lparr>oc_sign = s, oc_row = row\<rparr> \<in> set ch \<longleftrightarrow> z row \<noteq> z' row \<and> s = (if 0 < sint (z' row - z row) then Plus else Minus)"
    for s row
  proof
    assume "\<lparr>oc_sign = s, oc_row = row\<rparr> \<in> set ch"
    then obtain w where "(row, w) \<in> set d" "s = (if 0 < sint w then Plus else Minus)" by (auto simp: ch_def)
    with w [OF this(1)] show "z row \<noteq> z' row \<and> s = (if 0 < sint (z' row - z row) then Plus else Minus)" by auto
  next
    assume s: "z row \<noteq> z' row \<and> s = (if 0 < sint (z' row - z row) then Plus else Minus)"
    with mem [of row] show "\<lparr>oc_sign = s, oc_row = row\<rparr> \<in> set ch" by (force simp: ch_def)
  qed
  have vis: "visible z row \<longleftrightarrow> z row = 1" "visible z' row \<longleftrightarrow> z' row = 1" for row
    using z(1) [of row] z(2) [of row] by (auto simp: visible_def)
  have pos: "0 < sint (z' row - z row) \<longleftrightarrow> z' row = 1 \<and> z row = 0" for row
    using z(1) [of row] z(2) [of row] by auto
  have "distinct (map oc_row ch)"
    using delta_ok_distinct [OF d] by (simp add: ch_def comp_def case_prod_unfold)
  moreover have "\<lparr>oc_sign = Plus, oc_row = row\<rparr> \<in> set ch \<longleftrightarrow> \<not> visible z row \<and> visible z' row"
    "\<lparr>oc_sign = Minus, oc_row = row\<rparr> \<in> set ch \<longleftrightarrow> visible z row \<and> \<not> visible z' row" for row
    using z(1) [of row] z(2) [of row] unfolding in_ch vis pos by auto
  ultimately show ?thesis
    unfolding flips_def ch_def [symmetric] by (simp add: oc.sorted_sort_by)
qed

end
