(* ===== verification/Frontier_Correct.thy ===== *)
theory Frontier_Correct
  imports Frontier_Output
begin

text \<open>
  A frontier on an installed program, end to end: when the program's arrangements hold what its
  plans denote over the stored rows, a frontier that passes validation moves the stored rows by its
  net change and the arrangements with them, and returns the visibility flips of every output.
\<close>

subsection \<open>All outputs of a program\<close>

fun outs_hold :: "(nat \<Rightarrow> row \<Rightarrow> i64) \<Rightarrow> node list \<Rightarrow> nat \<Rightarrow> output_decl list \<Rightarrow> output_state list \<Rightarrow> bool" where
  "outs_hold src ns lo [] os \<longleftrightarrow> os = []"
| "outs_hold src ns lo (d # ds) os \<longleftrightarrow> (\<exists>o1 os'. os = o1 # os' \<and> os_name o1 = decl_name d \<and>
     os_distinct o1 = (\<not> is_aggregate (decl_plan d)) \<and> holds src ns lo (os_root o1) (decl_plan d) \<and>
     outs_hold src ns (Suc (os_root o1)) ds os')"

definition plans :: "output_decl list \<Rightarrow> plan_node set" where
  "plans ds = decl_plan ` set ds"

lemma outs_hold_frame:
  "outs_hold src ns lo ds os \<Longrightarrow> length ns \<le> length ns' \<Longrightarrow> (\<And>k. lo \<le> k \<Longrightarrow> ns' ! k = ns ! k) \<Longrightarrow> outs_hold src ns' lo ds os"
proof (induction ds arbitrary: lo os)
  case (Cons d ds)
  then obtain o1 os' where o: "os = o1 # os'" "os_name o1 = decl_name d" "os_distinct o1 = (\<not> is_aggregate (decl_plan d))"
    "holds src ns lo (os_root o1) (decl_plan d)" "outs_hold src ns (Suc (os_root o1)) ds os'" by auto
  have "lo \<le> os_root o1" using holds_range(1) [OF o(4)] by simp
  then have "outs_hold src ns' (Suc (os_root o1)) ds os'" using Cons.prems(2,3) by (intro Cons.IH [OF o(5)]) auto
  moreover have "holds src ns' lo (os_root o1) (decl_plan d)"
    using Cons.prems(2,3) by (intro holds_frame(1) [OF o(4)]) auto
  ultimately show ?case using o by simp
qed simp

definition out_deltas :: "(nat \<Rightarrow> row \<Rightarrow> i64) \<Rightarrow> (nat \<Rightarrow> row \<Rightarrow> i64) \<Rightarrow> prop_state \<Rightarrow> output_decl list \<Rightarrow> output_state list \<Rightarrow> bool" where
  "out_deltas src src' s ds os \<longleftrightarrow> list_all2 (\<lambda>d o1. \<exists>dl. pr_memo s (os_root o1) = Some dl \<and>
     delta_ok dl (plan_sem src (decl_plan d)) (plan_sem src' (decl_plan d))) ds os"

abbreviation run_root :: "(nat \<Rightarrow> (prop_state, counts) st) \<Rightarrow> nat \<Rightarrow> (prop_state, unit) st" where
  "run_root run root \<equiv> st_bind (run root) (\<lambda>_. st_return ())"

lemma roots_ok:
  assumes "outs_hold src (pr_nodes s) lo ds os" and "\<forall>k \<ge> lo. pr_memo s k = None"
    and "\<forall>p \<in> plans ds. runs src src' run 0 (length (pr_nodes s)) p"
  shows "(\<exists>s'. st_for (map os_root os) (run_root run) s = (Ok (), s') \<and> outs_hold src' (pr_nodes s') lo ds os \<and>
      length (pr_nodes s') = length (pr_nodes s) \<and> (\<forall>k < lo. pr_nodes s' ! k = pr_nodes s ! k \<and> pr_memo s' k = pr_memo s k) \<and>
      out_deltas src src' s' ds os)
    \<or> (\<exists>er s'. st_for (map os_root os) (run_root run) s = (Err er, s') \<and> fe_stage er = Maintain \<and>
      (\<exists>p \<in> plans ds. \<not> plan_valid src' p))"
  using assms
proof (induction ds arbitrary: s lo os)
  case Nil
  then show ?case by (simp add: st_return_def out_deltas_def)
next
  case (Cons d ds)
  let ?p = "decl_plan d"
  from Cons.prems(1) obtain o1 os' where o: "os = o1 # os'" "os_name o1 = decl_name d" "os_distinct o1 = (\<not> is_aggregate ?p)"
    "holds src (pr_nodes s) lo (os_root o1) ?p" "outs_hold src (pr_nodes s) (Suc (os_root o1)) ds os'" by auto
  let ?i = "os_root o1"
  have rg: "lo \<le> ?i" "?i < length (pr_nodes s)" using holds_range(1) [OF o(4)] by simp_all
  have "fresh_memo lo (Suc ?i) s" using Cons.prems(2) by (simp add: fresh_memo_def)
  then have "ran src src' ?p lo ?i s (run ?i s)"
    using Cons.prems(3) o(4) rg by (auto simp: runs_def plans_def)
  then consider (ok) dl t where "run ?i s = (Ok dl, t)" "delta_ok dl (plan_sem src ?p) (plan_sem src' ?p)"
      "holds src' (pr_nodes t) lo ?i ?p" "framed lo (Suc ?i) s t" "pr_memo t ?i = Some dl"
    | (bad) er t where "run ?i s = (Err er, t)" "fe_stage er = Maintain" "\<not> plan_valid src' ?p"
    unfolding ran_def by blast
  then show ?case
  proof cases
    case ok
    have step: "st_for (map os_root os) (run_root run) s = st_for (map os_root os') (run_root run) t"
      by (simp add: o(1) st_bind_def ok(1) st_return_def)
    have "outs_hold src (pr_nodes t) (Suc ?i) ds os'"
      using ok(4) by (intro outs_hold_frame [OF o(5)]) (auto simp: framed_def)
    moreover have "\<forall>k \<ge> Suc ?i. pr_memo t k = None" using Cons.prems(2) rg ok(4) by (auto simp: framed_def)
    moreover have "\<forall>p \<in> plans ds. runs src src' run 0 (length (pr_nodes t)) p"
      using Cons.prems(3) framed_length [OF ok(4)] by (simp add: plans_def)
    ultimately consider (good) u where "st_for (map os_root os') (run_root run) t = (Ok (), u)" "outs_hold src' (pr_nodes u) (Suc ?i) ds os'"
        "length (pr_nodes u) = length (pr_nodes t)" "\<forall>k < Suc ?i. pr_nodes u ! k = pr_nodes t ! k \<and> pr_memo u k = pr_memo t k"
        "out_deltas src src' u ds os'"
      | (ill) er u where "st_for (map os_root os') (run_root run) t = (Err er, u)" "fe_stage er = Maintain"
        "\<exists>p \<in> plans ds. \<not> plan_valid src' p"
      using Cons.IH [of t "Suc ?i" os'] by blast
    then show ?thesis
    proof cases
      case good
      have "holds src' (pr_nodes u) lo ?i ?p"
        using good(3,4) by (intro holds_frame(1) [OF ok(3)]) auto
      then have "outs_hold src' (pr_nodes u) lo (d # ds) os" using o good(2) by simp
      moreover have "out_deltas src src' u (d # ds) os"
        using ok(2,5) good(4,5) o(1) by (simp add: out_deltas_def)
      moreover have "\<forall>k < lo. pr_nodes u ! k = pr_nodes s ! k \<and> pr_memo u k = pr_memo s k"
        using ok(4) good(4) rg by (auto simp: framed_def)
      ultimately show ?thesis
        unfolding step using good(1,3) framed_length [OF ok(4)] by auto
    next
      case ill
      then show ?thesis unfolding step by (auto simp: plans_def)
    qed
  next
    case bad
    then show ?thesis by (auto simp: o(1) st_bind_def plans_def)
  qed
qed

subsection \<open>The changes of one output\<close>

lemma zaggregate_unit: "zaggregate gb cnt sm z row \<in> {0, 1}"
  by (auto simp: zaggregate_def split: option.split)

lemma scan_counts_zget: "zget (scan_counts rel) row = present rel row"
proof -
  have "map_of (scan_counts rel) row = map_option (\<lambda>ids. of_nat (length ids)) (map_of (rel_by_value rel) row)"
    unfolding scan_counts_def by (simp add: map_of_map)
  then show ?thesis by (simp add: zget_def present_def split: option.split)
qed

lemma output_changes_ok:
  assumes h: "holds (source_sem rels) ns lo (os_root o1) p" and dist: "os_distinct o1 = (\<not> is_aggregate p)"
    and ok: "plan_ok (map rel_arity rels) p" and d: "delta_ok dl z (plan_sem (source_sem rels) p)" and z: "z = plan_sem src p"
  shows "\<exists>cs. output_changes rels ns o1 dl = Ok cs \<and> flips z (plan_sem (source_sem rels) p) cs"
proof (cases "is_aggregate p")
  case True
  then obtain q gb cnt sm where p: "p = PAggregate q gb cnt sm" by (cases p) auto
  have "z row \<in> {0, 1}" "plan_sem (source_sem rels) p row \<in> {0, 1}" for row
    unfolding z p plan_sem.simps by (rule zaggregate_unit)+
  from unit_delta_ok [OF d this] True dist show ?thesis by (simp add: output_changes_def)
next
  case False
  have rg: "os_root o1 < length ns" using holds_range(1) [OF h] by simp
  define n where "n = ns ! os_root o1"
  have "\<exists>c. (case n of
        NScan r \<Rightarrow> rust_bind (vec_index rels r) (\<lambda>rel. Ok (distinct_transitions (scan_counts rel) dl))
      | _ \<Rightarrow> (case node_counts n of None \<Rightarrow> Panic | Some c \<Rightarrow> Ok (distinct_transitions c dl))) =
        (Ok (distinct_transitions c dl) :: output_change list fres) \<and>
      (\<forall>row. zget c row = plan_sem (source_sem rels) p row)"
    (is "\<exists>c. ?L = Ok _ \<and> ?Z c")
  proof (cases p)
    case (PScan r)
    with h ok have "n = NScan r" "r < length rels" by (auto simp: n_def)
    then show ?thesis
      by (intro exI [of _ "scan_counts (rels ! r)"]) (simp add: scan_counts_zget source_sem_def PScan)
  qed (use h ok False in \<open>auto simp: counts_are_zget n_def\<close>)
  then obtain c where c: "?L = Ok (distinct_transitions c dl)" "?Z c" by blast
  have "flips z (plan_sem (source_sem rels) p) (sort_by (\<lambda>a b. row_cmp (oc_row a) (oc_row b)) (distinct_transitions c dl))"
    using distinct_transitions_ok [OF d] c(2) by blast
  with c(1) [unfolded n_def] rg False dist show ?thesis by (simp add: output_changes_def)
qed

subsection \<open>The frontier\<close>

definition post_src :: "engine \<Rightarrow> frontier \<Rightarrow> nat \<Rightarrow> row \<Rightarrow> i64" where
  "post_src e fr r row = source_sem (en_relations e) r row + change_weight r row (fr_changes fr)"

definition engine_typed :: "engine \<Rightarrow> bool" where
  "engine_typed e \<longleftrightarrow> (\<forall>r row. src_len e r row \<noteq> 0 \<longrightarrow> length row = rel_arity (en_relations e ! r))"

definition engine_ok :: "engine \<Rightarrow> bool" where
  "engine_ok e \<longleftrightarrow> engine_inv e \<and> engine_typed e \<and> len_ok e"

definition program_ok :: "engine \<Rightarrow> nat \<Rightarrow> output_decl list \<Rightarrow> bool" where
  "program_ok e p ds \<longleftrightarrow> (\<exists>ps. program_at e p = Ok ps \<and>
     outs_hold (source_sem (en_relations e)) (ps_nodes ps) 0 ds (ps_outputs ps)) \<and>
     (\<forall>q \<in> plans ds. plan_ok (arities e) q)"

definition frontier_ok :: "engine \<Rightarrow> frontier \<Rightarrow> bool" where
  "frontier_ok e fr \<longleftrightarrow> changes_typed e (fr_changes fr) \<and> changes_fit e (fr_changes fr)"

definition output_ok :: "(nat \<Rightarrow> row \<Rightarrow> i64) \<Rightarrow> (nat \<Rightarrow> row \<Rightarrow> i64) \<Rightarrow> output_decl \<Rightarrow> output_delta \<Rightarrow> bool" where
  "output_ok src src' d od \<longleftrightarrow> od_output od = decl_name d \<and>
     flips (plan_sem src (decl_plan d)) (plan_sem src' (decl_plan d)) (od_changes od)"

lemma src_len_finite: "finite {row. src_len e r row \<noteq> 0}"
proof (cases "vec_get (en_relations e) r")
  case (Some rel)
  have "{row. src_len e r row \<noteq> 0} \<subseteq> fst ` set (rel_by_value rel)"
    using Some by (auto simp: src_len_def ids_of_def map_of_eq_None_iff split: option.splits
        dest: map_of_SomeD)
  then show ?thesis using finite_subset by blast
qed (simp add: src_len_def vec_get_def)

lemma src_ok_source: "engine_typed e \<Longrightarrow> src_ok (arities e) (source_sem (en_relations e))"
proof -
  assume t: "engine_typed e"
  have nz: "src_len e r row \<noteq> 0" if "source_sem (en_relations e) r row \<noteq> 0" for r row
    using that by (cases "src_len e r row = 0") (simp_all add: source_sem_len)
  have "zfin (source_sem (en_relations e) r)" for r
    unfolding zfin_def by (rule finite_subset [OF _ src_len_finite [of e r]]) (auto dest: nz)
  moreover have "length row = arities e ! r" if "source_sem (en_relations e) r row \<noteq> 0" "r < length (arities e)" for r row
    using t nz [OF that(1)] that(2) by (simp add: engine_typed_def arities_def)
  ultimately show ?thesis by (simp add: src_ok_def)
qed

lemma post_len_src:
  assumes "frontier_ok e fr" and "src_len e' = post_len e (consolidate (fr_changes fr))"
  shows "source_sem (en_relations e') = post_src e fr"
proof (intro ext)
  fix r row
  show "source_sem (en_relations e') r row = post_src e fr r row"
    using assms unfolding source_sem_len post_src_def
    by (simp add: post_len_def consolidate_ok(2) of_nat_plus_weight frontier_ok_def changes_fit_def)
qed

lemma post_typed:
  assumes e: "engine_typed e" and fr: "frontier_ok e fr" and shape: "same_shape e e'"
    and len: "src_len e' = post_len e (consolidate (fr_changes fr))"
  shows "engine_typed e'"
  unfolding engine_typed_def
proof (intro allI impI)
  fix r row assume nz: "src_len e' r row \<noteq> 0"
  have ar: "rel_arity (en_relations e' ! k) = rel_arity (en_relations e ! k)" if "k < length (en_relations e)" for k
    using shape that same_shape_length [OF shape] unfolding same_shape_def by (metis nth_map)
  show "length row = rel_arity (en_relations e' ! r)"
  proof (cases "src_len e r row = 0")
    case True
    with nz have "change_weight r row (fr_changes fr) \<noteq> 0"
      by (auto simp: len post_len_def consolidate_ok(2))
    then obtain ch where "ch \<in> set (fr_changes fr)" "sc_relation ch = r" "sc_row ch = row"
      by (blast dest: change_weight_nonzeroD)
    then show ?thesis using fr ar by (auto simp: frontier_ok_def changes_typed_def)
  next
    case False
    then have "r < length (en_relations e)" by (auto simp: src_len_def split: option.splits)
    with False e ar show ?thesis by (simp add: engine_typed_def)
  qed
qed

lemma net_ok_consolidate: "net_ok (consolidate (fr_changes fr)) (source_sem (en_relations e)) (post_src e fr)"
  unfolding net_ok_def
proof
  fix r
  have "bt_weights_ok (net_of (consolidate (fr_changes fr)) r)"
    by (rule cons_inv_net_of [OF consolidate_ok(1)])
  then show "delta_ok (net_of (consolidate (fr_changes fr)) r) (source_sem (en_relations e) r) (post_src e fr r)"
    using bt_inv_distinct [of row_key]
    by (auto simp: delta_ok_def bt_weights_ok_def post_src_def consolidate_ok(2) fun_eq_iff)
qed

lemma map_rust_list_all2:
  "list_all2 (\<lambda>x d. \<exists>y. f x = Ok y \<and> P d y) xs ds \<Longrightarrow> \<exists>ys. map_rust f xs = Ok ys \<and> list_all2 P ds ys"
  by (induction xs ds rule: list_all2_induct) auto

lemma outs_hold_list:
  "outs_hold src ns lo ds os \<Longrightarrow> list_all2 (\<lambda>d o1. os_name o1 = decl_name d \<and> os_distinct o1 = (\<not> is_aggregate (decl_plan d)) \<and>
     (\<exists>lo. holds src ns lo (os_root o1) (decl_plan d))) ds os"
  by (induction ds arbitrary: lo os) auto

text \<open>The propagation, on an engine whose rows are already written.\<close>

lemma propagate_ok:
  assumes typed: "src_ok (arities e) src" "src_ok (arities e) (source_sem (en_relations e))"
    and net: "net_ok deltas src (source_sem (en_relations e))"
    and ps: "program_at e p = Ok ps" and h: "outs_hold src (ps_nodes ps) 0 ds (ps_outputs ps)"
    and ok: "\<forall>q \<in> plans ds. plan_ok (arities e) q \<and> plan_valid src q \<and> plan_safe src (source_sem (en_relations e)) q"
  shows "(\<exists>outs e'. propagate deltas p ps e = (Ok outs, e') \<and> en_relations e' = en_relations e \<and> program_ok e' p ds \<and>
      list_all2 (output_ok src (source_sem (en_relations e))) ds outs)
    \<or> (\<exists>er e'. propagate deltas p ps e = (Err er, e') \<and> fe_stage er = Maintain \<and>
      (\<exists>q \<in> plans ds. \<not> plan_valid (source_sem (en_relations e)) q))"
proof -
  let ?src' = "source_sem (en_relations e)"
  let ?s0 = "\<lparr>pr_nodes = ps_nodes ps, pr_journal = en_journal e, pr_memo = Map.empty\<rparr>"
  let ?run = "run_node deltas p (Suc (length (ps_nodes ps)))"
  have runs: "\<forall>q \<in> plans ds. runs src ?src' ?run 0 (length (pr_nodes ?s0)) q"
    using ok by (auto intro!: runs_ok [OF net typed])
  have "outs_hold src (pr_nodes ?s0) 0 ds (ps_outputs ps)" "\<forall>k \<ge> 0. pr_memo ?s0 k = None" using h by simp_all
  from roots_ok [OF this runs] consider
    (good) s where "st_for (map os_root (ps_outputs ps)) (run_root ?run) ?s0 = (Ok (), s)" "outs_hold ?src' (pr_nodes s) 0 ds (ps_outputs ps)"
      "out_deltas src ?src' s ds (ps_outputs ps)"
    | (bad) er s where "st_for (map os_root (ps_outputs ps)) (run_root ?run) ?s0 = (Err er, s)" "fe_stage er = Maintain"
      "\<exists>q \<in> plans ds. \<not> plan_valid ?src' q"
    by blast
  then show ?thesis
  proof cases
    case good
    let ?e = "e\<lparr>en_programs := (en_programs e)[p := Some (ps\<lparr>ps_nodes := pr_nodes s\<rparr>)], en_journal := pr_journal s\<rparr>"
    define change :: "output_state \<Rightarrow> output_delta fres" where "change = (\<lambda>os. case pr_memo s (os_root os) of None \<Rightarrow> Panic
      | Some delta \<Rightarrow> rust_bind (output_changes (en_relations e) (pr_nodes s) os delta)
          (\<lambda>cs. Ok \<lparr>od_output = os_name os, od_changes = cs\<rparr>))"
    have "list_all2 (\<lambda>os d. \<exists>y. change os = Ok y \<and> output_ok src ?src' d y) (ps_outputs ps) ds"
      unfolding list_all2_conv_all_nth
    proof (intro conjI allI impI)
      from good(3) show len: "length (ps_outputs ps) = length ds"
        by (simp add: out_deltas_def list_all2_lengthD)
      fix i assume i: "i < length (ps_outputs ps)"
      let ?o = "ps_outputs ps ! i" and ?d = "ds ! i"
      have mem: "decl_plan ?d \<in> plans ds" using i len by (simp add: plans_def)
      obtain dl where dl: "pr_memo s (os_root ?o) = Some dl" "delta_ok dl (plan_sem src (decl_plan ?d)) (plan_sem ?src' (decl_plan ?d))"
        using good(3) i len by (auto simp: out_deltas_def list_all2_conv_all_nth)
      obtain lo where o: "os_name ?o = decl_name ?d" "os_distinct ?o = (\<not> is_aggregate (decl_plan ?d))"
        "holds ?src' (pr_nodes s) lo (os_root ?o) (decl_plan ?d)"
        using outs_hold_list [OF good(2)] i len by (auto simp: list_all2_conv_all_nth)
      have "plan_ok (map rel_arity (en_relations e)) (decl_plan ?d)" using ok mem by (simp add: arities_def)
      from output_changes_ok [OF o(3,2) this dl(2) refl] obtain cs where
        "output_changes (en_relations e) (pr_nodes s) ?o dl = Ok cs" "flips (plan_sem src (decl_plan ?d)) (plan_sem ?src' (decl_plan ?d)) cs"
        by blast
      then show "\<exists>y. change ?o = Ok y \<and> output_ok src ?src' ?d y"
        using dl(1) o(1) by (simp add: change_def output_ok_def)
    qed
    from map_rust_list_all2 [OF this] obtain outs where outs: "map_rust change (ps_outputs ps) = Ok outs"
      "list_all2 (output_ok src ?src') ds outs" by blast
    have "propagate deltas p ps e = (Ok outs, ?e\<lparr>en_frontiers_applied := en_frontiers_applied e + 1\<rparr>)"
      unfolding propagate_def good(1) using outs(1) [unfolded change_def] by (simp add: Let_def)
    moreover have "program_ok (?e\<lparr>en_frontiers_applied := en_frontiers_applied e + 1\<rparr>) p ds"
      using good(2) ps ok by (auto simp: program_ok_def program_at_Ok_iff arities_def)
    ultimately show ?thesis using outs(2) by (intro disjI1 exI conjI) auto
  next
    case bad
    then show ?thesis unfolding propagate_def bad(1) by (simp add: Let_def)
  qed
qed

definition touches :: "engine \<Rightarrow> nat \<Rightarrow> frontier \<Rightarrow> bool" where
  "touches e p fr \<longleftrightarrow> (\<exists>ps. program_at e p = Ok ps \<and> (\<exists>r \<in> set (ps_dependencies ps). r \<in> sc_relation ` set (fr_changes fr)))"

lemma apply_frontier_checked:
  assumes "len_ok e" and "frontier_ok e fr" and "program_at e p = Ok ps"
  shows "apply_frontier p fr e =
    (if \<not> touches e p fr
     then (Ok (map (\<lambda>os. \<lparr>od_output = os_name os, od_changes = []\<rparr>) (ps_outputs ps)),
           e\<lparr>en_frontiers_applied := en_frontiers_applied e + 1\<rparr>)
     else st_bind (st_for (consolidate (fr_changes fr)) (\<lambda>(r, net). write_source r net))
            (\<lambda>_. propagate (consolidate (fr_changes fr)) p ps) e)"
proof -
  have "rust_fold (fr_changes fr) () (\<lambda>ch _. validate_change e ch) = Ok ()"
    "rust_fold (consolidate (fr_changes fr)) () (\<lambda>rn _. check_net e rn) = Ok ()"
    using assms check_fold by (auto simp: frontier_ok_def validate_fold)
  moreover have "list_ex (\<lambda>r. r \<in> set (map fst (consolidate (fr_changes fr)))) (ps_dependencies ps) = touches e p fr"
    using assms(3) by (simp add: touches_def list_ex_iff consolidate_ok(3))
  ultimately show ?thesis by (simp add: apply_frontier_def assms(3))
qed

lemma apply_frontier_rejected:
  assumes "len_ok e" and "\<not> frontier_ok e fr"
  shows "\<exists>er. apply_frontier p fr e = (Err er, e) \<and> fe_stage er = Validate"
proof (cases "rust_fold (fr_changes fr) () (\<lambda>ch _. validate_change e ch)")
  case (Ok u)
  then have typed: "changes_typed e (fr_changes fr)" by (simp add: validate_fold)
  with assms have "rust_fold (consolidate (fr_changes fr)) () (\<lambda>rn _. check_net e rn) \<noteq> Ok ()"
    by (simp add: check_fold frontier_ok_def)
  then obtain er where "rust_fold (consolidate (fr_changes fr)) () (\<lambda>rn _. check_net e rn) = Err er"
    using check_fold_Panic by (cases "rust_fold (consolidate (fr_changes fr)) () (\<lambda>rn _. check_net e rn)") auto
  with Ok show ?thesis by (auto simp: apply_frontier_def dest: check_fold_Err)
next
  case (Err er)
  then show ?thesis by (auto simp: apply_frontier_def dest: validate_fold_Err)
qed (use validate_fold_Panic in blast)

lemma consolidate_nets: "\<forall>(r, m) \<in> set (consolidate chs). distinct (map fst m)"
proof clarify
  fix r m assume "(r, m) \<in> set (consolidate chs)"
  then have "bt_weights_ok m"
    using cons_inv_net_of [OF consolidate_ok(1), of chs r] net_of_mem [OF consolidate_ok(1)] by metis
  then show "distinct (map fst m)" using bt_inv_distinct [of row_key m] by (simp add: bt_weights_ok_def)
qed

lemma write_consolidated:
  assumes "engine_ok e" and "frontier_ok e fr"
  shows "\<exists>e'. st_for (consolidate (fr_changes fr)) (\<lambda>(r, net). write_source r net) e = (Ok (), e') \<and>
    engine_inv e' \<and> engine_typed e' \<and> same_shape e e' \<and> source_sem (en_relations e') = post_src e fr \<and>
    src_len e' = post_len e (consolidate (fr_changes fr))"
proof -
  have e: "engine_inv e" "len_ok e" "engine_typed e" using assms(1) by (simp_all add: engine_ok_def)
  let ?n = "consolidate (fr_changes fr)"
  have "distinct (map fst ?n)"
    using consolidate_ok(1) [of "fr_changes fr"] bt_inv_distinct [of "\<lambda>k::nat. k" ?n] by (simp add: cons_inv_def)
  moreover have "\<forall>(r, m) \<in> set ?n. distinct (map fst m) \<and> net_fits e r m"
    using consolidate_nets [of "fr_changes fr"] consolidated_fits [of e "fr_changes fr"] assms(2)
    unfolding frontier_ok_def by blast
  ultimately obtain e' where e': "st_for ?n (\<lambda>(r, net). write_source r net) e = (Ok (), e')" "wrote e e' (post_len e ?n)"
    using write_all_ok [OF e(1,2)] by blast
  then show ?thesis
    using post_len_src [OF assms(2), of e'] post_typed [OF e(3) assms(2), of e']
    by (intro exI [of _ e']) (auto simp: wrote_def)
qed

lemma apply_frontier_ok:
  assumes e: "engine_ok e" and fr: "frontier_ok e fr" and prog: "program_ok e p ds" and t: "touches e p fr"
    and ok: "\<forall>q \<in> plans ds. plan_valid (source_sem (en_relations e)) q \<and>
      plan_safe (source_sem (en_relations e)) (post_src e fr) q"
  shows "(\<exists>outs e'. apply_frontier p fr e = (Ok outs, e') \<and> source_sem (en_relations e') = post_src e fr \<and>
      src_len e' = post_len e (consolidate (fr_changes fr)) \<and>
      program_ok e' p ds \<and> engine_inv e' \<and> engine_typed e' \<and>
      list_all2 (output_ok (source_sem (en_relations e)) (post_src e fr)) ds outs)
    \<or> (\<exists>er e'. apply_frontier p fr e = (Err er, e') \<and> fe_stage er = Maintain \<and>
      (\<exists>q \<in> plans ds. \<not> plan_valid (post_src e fr) q))"
proof -
  from prog obtain ps where ps: "program_at e p = Ok ps" "outs_hold (source_sem (en_relations e)) (ps_nodes ps) 0 ds (ps_outputs ps)"
    and pok: "\<forall>q \<in> plans ds. plan_ok (arities e) q" by (auto simp: program_ok_def)
  let ?n = "consolidate (fr_changes fr)"
  obtain e1 where e1: "st_for ?n (\<lambda>(r, net). write_source r net) e = (Ok (), e1)"
    "engine_inv e1" "engine_typed e1" "same_shape e e1" and src: "source_sem (en_relations e1) = post_src e fr"
    and len: "src_len e1 = post_len e ?n"
    using write_consolidated [OF e fr] by blast
  have "len_ok e" "engine_typed e" using e by (simp_all add: engine_ok_def)
  have ap: "apply_frontier p fr e = propagate ?n p ps e1"
    using apply_frontier_checked [OF \<open>len_ok e\<close> fr ps(1)] t e1(1) by (simp add: st_bind_def)
  have same: "arities e1 = arities e" "program_at e1 p = Ok ps"
    using e1(4) ps(1) by (simp_all add: same_shape_def arities_def program_at_def)
  have typed: "src_ok (arities e1) (source_sem (en_relations e))" "src_ok (arities e1) (source_sem (en_relations e1))"
    using src_ok_source [OF \<open>engine_typed e\<close>] src_ok_source [OF e1(3)] by (simp_all add: same)
  have net: "net_ok ?n (source_sem (en_relations e)) (source_sem (en_relations e1))"
    unfolding src by (rule net_ok_consolidate)
  have all: "\<forall>q \<in> plans ds. plan_ok (arities e1) q \<and> plan_valid (source_sem (en_relations e)) q \<and>
      plan_safe (source_sem (en_relations e)) (source_sem (en_relations e1)) q"
    using ok pok by (simp add: same src)
  have lg: "elogged e1 (snd (propagate ?n p ps e1))"
    using same(2) by (intro elogged_propagate) (simp add: program_at_Ok_iff)
  from propagate_ok [OF typed net same(2) ps(2) all, unfolded src] show ?thesis
  proof (elim disjE exE conjE)
    fix outs e'
    assume r: "propagate ?n p ps e1 = (Ok outs, e')" "en_relations e' = en_relations e1" "program_ok e' p ds"
      "list_all2 (output_ok (source_sem (en_relations e)) (post_src e fr)) ds outs"
    moreover have "engine_inv e'" using lg e1(2) r(1) by (simp add: elogged_def)
    moreover have "engine_typed e'" using e1(3) r(2) by (simp add: engine_typed_def src_len_def)
    moreover have "src_len e' = post_len e ?n" using len r(2) by (simp add: src_len_def fun_eq_iff)
    ultimately show ?thesis using src by (intro disjI1 exI [of _ outs] exI [of _ e']) (simp add: ap)
  next
    fix er e'
    assume "propagate ?n p ps e1 = (Err er, e')" "fe_stage er = Maintain" "\<exists>q \<in> plans ds. \<not> plan_valid (post_src e fr) q"
    then show ?thesis by (intro disjI2 exI [of _ er] exI [of _ e']) (simp add: ap)
  qed
qed

end
