(* ===== verification/Frontier_Install.thy ===== *)
theory Frontier_Install
  imports Frontier_Correct
begin

text \<open>
  Installing a program and reading it. \<open>install\<close> lays every plan out in post-order, accepts a plan
  only when its columns are in range, and starts from empty arrangements, so a program installed
  over empty relations is correct from the start; a snapshot of a correct program is the visible
  rows of the plan.
\<close>

subsection \<open>Installation\<close>

lemma zproject_zero [simp]: "zproject cs (\<lambda>_. 0) = (\<lambda>_. 0)"
  by (simp add: zproject_def fun_eq_iff)

lemma zjoin_zero [simp]: "zjoin a b (\<lambda>_. 0) z = (\<lambda>_. 0)"
  by (simp add: zjoin_def fun_eq_iff)

lemma zgroup_zero [simp]: "zgroup gb sm (\<lambda>_. 0) = Map.empty"
  by (simp add: zgroup_def zgroup_count_def fun_eq_iff)

lemma zaggregate_zero [simp]: "zaggregate gb cnt sm (\<lambda>_. 0) = (\<lambda>_. 0)"
  by (simp add: zaggregate_def fun_eq_iff)

abbreviation no_rows :: "nat \<Rightarrow> row \<Rightarrow> i64" where
  "no_rows \<equiv> \<lambda>_ _. 0"

lemma plan_sem_zero [simp]: "plan_sem no_rows p = (\<lambda>_. 0)"
proof (induction p)
  case (PUnion ps)
  then have "(\<Sum>p\<leftarrow>ps. plan_sem no_rows p row) = 0" for row
    by (induction ps) auto
  then show ?case by simp
qed simp_all

lemma index_are_Nil [simp]: "index_are [] a (\<lambda>_. 0)"
  by (simp add: index_are_def index_inv_def kidx_def index_rows_def fun_eq_iff)

lemma groups_are_Nil [simp]: "groups_are [] gb sm (\<lambda>_. 0)"
  by (simp add: groups_are_def)

lemma holds_append:
  "holds src ns lo i p \<Longrightarrow> holds src (ns @ xs) lo i p"
  "holds_all src ns lo hi ps is \<Longrightarrow> hi \<le> length ns \<Longrightarrow> holds_all src (ns @ xs) lo hi ps is"
  using holds_range(1) [of src ns lo i p] holds_frame(1) [of src ns lo i p "ns @ xs"]
    holds_frame(2) [of src ns lo hi ps "is" "ns @ xs"]
  by (auto simp: nth_append)

definition built :: "engine \<Rightarrow> arena \<Rightarrow> plan_node \<Rightarrow> nat \<Rightarrow> arena \<Rightarrow> bool" where
  "built e a p i a' \<longleftrightarrow> (\<exists>new. fst a' = fst a @ new) \<and> length (fst a') = Suc i \<and>
     holds no_rows (fst a') (length (fst a)) i p \<and> plan_ok (arities e) p"

definition built_all :: "engine \<Rightarrow> arena \<Rightarrow> plan_node list \<Rightarrow> nat list \<Rightarrow> arena \<Rightarrow> bool" where
  "built_all e a ps is a' \<longleftrightarrow> (\<exists>new. fst a' = fst a @ new) \<and>
     holds_all no_rows (fst a') (length (fst a)) (length (fst a')) ps is \<and> list_all (plan_ok (arities e)) ps"

lemma fst_push_node [simp]: "fst (snd (push_node n a)) = fst a @ [n]" "fst (push_node n a) = length (fst a)"
  by (simp_all add: push_node_def)

lemma push_node_eq: "push_node n a = (i, a') \<longleftrightarrow> i = length (fst a) \<and> a' = (fst a @ [n], snd a)"
  by (auto simp: push_node_def)

lemma built_push:
  assumes b: "built e a q j a1" and p: "holds no_rows (fst a1 @ [n]) (length (fst a)) (Suc j) p" "plan_ok (arities e) p"
    and "push_node n a1 = (i, a')"
  shows "built e a p i a'"
proof -
  obtain new where "fst a1 = fst a @ new" "length (fst a1) = Suc j" using b by (auto simp: built_def)
  then have "\<exists>new. fst a1 @ [n] = fst a @ new" by simp
  with b assms show ?thesis unfolding built_def push_node_eq by (simp del: holds.simps plan_ok.simps)
qed

lemma built_last: "built e a q j a1 \<Longrightarrow> (fst a1 @ [n]) ! Suc j = n"
  using nth_append_length [of "fst a1" n "[]"] by (simp add: built_def)

lemma worst_in_range: "\<not> max_or_zero xs \<ge> n \<Longrightarrow> c \<in> set xs \<Longrightarrow> c < n"
  using max_or_zero_less by (meson not_le)

lemma build_node_built:
  "build_node e p a = Ok (i, a') \<Longrightarrow> built e a p i a'"
  "build_nodes e ps a = Ok (is, a') \<Longrightarrow> built_all e a ps is a'"
proof (induction p a and ps a arbitrary: i a' and "is" a' rule: build_node_build_nodes.induct)
  case (1 e r a)
  then show ?case by (auto simp: rust_simps built_def push_node_eq arities_def)
next
  case (2 e ps a)
  then obtain "is" a1 where a1: "build_nodes e ps a = Ok (is, a1)" "push_node (NUnion is []) a1 = (i, a')"
    by (auto simp: rust_simps)
  with 2 have b: "built_all e a ps is a1" by simp
  then have "holds_all no_rows (fst a1 @ [NUnion is []]) (length (fst a)) (length (fst a1)) ps is"
    by (intro holds_append(2)) (auto simp: built_all_def)
  with b a1(2) show ?case
    by (auto simp: built_def built_all_def push_node_eq)
next
  case (3 e l r x y a)
  then obtain la ra j a1 k a2 where c: "node_arity e l = Ok la" "node_arity e r = Ok ra" "x < la" "y < ra"
    "build_node e l a = Ok (j, a1)" "build_node e r a1 = Ok (k, a2)" "push_node (NJoin j k x y [] [] []) a2 = (i, a')"
    by (auto simp: rust_simps not_le split: if_splits)
  with 3 have b: "built e a l j a1" "built e a1 r k a2" by auto
  let ?n = "NJoin j k x y [] [] []"
  obtain new1 new2 where nw: "fst a1 = fst a @ new1" "fst a2 = fst a1 @ new2" using b by (auto simp: built_def)
  have "holds no_rows (fst a2 @ [?n]) (length (fst a)) j l"
    using b(1) holds_append(1) [of no_rows "fst a1" "length (fst a)" j l "new2 @ [?n]"] nw by (simp add: built_def)
  moreover have "holds no_rows (fst a2 @ [?n]) (Suc j) k r"
    using b holds_append(1) [of no_rows "fst a2" "Suc j" k r "[?n]"] by (simp add: built_def)
  moreover have "(fst a2 @ [?n]) ! Suc k = ?n" 
    using b(2) nth_append_length [of "fst a2" ?n "[]"] by (simp add: built_def)
  ultimately have "holds no_rows (fst a2 @ [?n]) (length (fst a)) (Suc k) (PJoin l r x y)"
    using b(2) by (simp add: built_def)
  moreover have "plan_ok (arities e) (PJoin l r x y)"
    using b c by (auto simp: built_def node_arity_plan_arity)
  moreover have "\<exists>new. fst a2 @ [?n] = fst a @ new" using nw by simp
  ultimately show ?case
    using b(2) c(7) unfolding built_def push_node_eq by (simp del: holds.simps plan_ok.simps)
next
  case (4 e q gb cnt sm a)
  then obtain ia j a1 where c: "gb \<noteq> []" "node_arity e q = Ok ia"
    "\<not> max_or_zero (gb @ (case sm of None \<Rightarrow> [] | Some c \<Rightarrow> [c])) \<ge> ia"
    "build_node e q a = Ok (j, a1)" "push_node (NAggregate j gb cnt sm []) a1 = (i, a')" "cnt \<or> sm \<noteq> None"
    by (auto simp: rust_simps Let_def split: if_splits)
  with 4 have b: "built e a q j a1" by (auto simp: Let_def)
  have "holds no_rows (fst a1 @ [NAggregate j gb cnt sm []]) (length (fst a)) j q"
    using b holds_append(1) by (auto simp: built_def)
  moreover have "\<forall>c \<in> set gb \<union> set_option sm. c < ia"
    using worst_in_range [OF c(3)] by (auto split: option.split)
  ultimately show ?case
    using c b node_arity_plan_arity(1) [OF c(2)] built_last [OF b]
    by (intro built_push [OF b _ _ c(5)]) (auto simp: built_def)
next
  case (5 e q cs a)
  then obtain ia j a1 where c: "node_arity e q = Ok ia" "\<not> max_or_zero cs \<ge> ia"
    "build_node e q a = Ok (j, a1)" "push_node (NProject j cs []) a1 = (i, a')"
    by (auto simp: rust_simps Let_def split: if_splits)
  with 5 have b: "built e a q j a1" by (auto simp: Let_def)
  have "holds no_rows (fst a1 @ [NProject j cs []]) (length (fst a)) j q"
    using b holds_append(1) by (auto simp: built_def)
  moreover have "\<forall>c \<in> set cs. c < ia" using worst_in_range [OF c(2)] by auto
  ultimately show ?case
    using c b node_arity_plan_arity(1) [OF c(1)] built_last [OF b]
    by (intro built_push [OF b _ _ c(4)]) (auto simp: built_def)
next
  case (6 e l r a)
  then show ?case by simp
next
  case (7 e a)
  then show ?case by (simp add: built_all_def)
next
  case (8 e p ps a)
  then obtain j a1 js where c: "build_node e p a = Ok (j, a1)" "build_nodes e ps a1 = Ok (js, a')" "is = j # js"
    by (auto simp: rust_simps)
  with 8 have b: "built e a p j a1" "built_all e a1 ps js a'" by auto
  then obtain new where new: "fst a' = fst a1 @ new" by (auto simp: built_all_def)
  have "holds no_rows (fst a') (length (fst a)) j p"
    using b(1) unfolding new built_def by (intro holds_append(1)) simp
  with b c(3) show ?case by (auto simp: built_def built_all_def)
qed

lemma outs_hold_append: "outs_hold src ns lo ds os \<Longrightarrow> lo \<le> length ns \<Longrightarrow> outs_hold src (ns @ xs) lo ds os"
proof (induction ds arbitrary: lo os)
  case (Cons d ds)
  then obtain o1 os' where o: "os = o1 # os'" "os_name o1 = decl_name d" "os_distinct o1 = (\<not> is_aggregate (decl_plan d))"
    "holds src ns lo (os_root o1) (decl_plan d)" "outs_hold src ns (Suc (os_root o1)) ds os'" by auto
  moreover have "Suc (os_root o1) \<le> length ns" using holds_range(1) [OF o(4)] by simp
  ultimately show ?case using Cons.IH [OF o(5)] holds_append(1) [OF o(4)] by simp
qed simp

lemma build_outputs_hold:
  "build_outputs e ds a = Ok (os, a') \<Longrightarrow> (\<exists>new. fst a' = fst a @ new) \<and> outs_hold no_rows (fst a') (length (fst a)) ds os \<and>
     (\<forall>q \<in> plans ds. plan_ok (arities e) q)"
proof (induction ds arbitrary: a os)
  case Nil
  then show ?case by (simp add: plans_def)
next
  case (Cons d ds)
  then obtain root a1 os' where c: "name_output (decl_name d) (build_node e (decl_plan d) a) = Ok (root, a1)"
    "build_outputs e ds a1 = Ok (os', a')"
    "os = \<lparr>os_name = decl_name d, os_root = root, os_distinct = \<not> is_aggregate (decl_plan d)\<rparr> # os'"
    by (auto simp: rust_simps)
  then have "build_node e (decl_plan d) a = Ok (root, a1)"
    by (cases "build_node e (decl_plan d) a") auto
  then have b: "built e a (decl_plan d) root a1" by (rule build_node_built)
  from Cons.IH [OF c(2)] obtain new where new: "fst a' = fst a1 @ new"
    and os': "outs_hold no_rows (fst a') (length (fst a1)) ds os'" "\<forall>q \<in> plans ds. plan_ok (arities e) q" by auto
  have "holds no_rows (fst a') (length (fst a)) root (decl_plan d)"
    using b unfolding new built_def by (intro holds_append(1)) simp
  with b new os' c(3) show ?case by (auto simp: built_def plans_def)
qed

definition relations_empty :: "engine \<Rightarrow> bool" where
  "relations_empty e \<longleftrightarrow> (\<forall>r row. source_sem (en_relations e) r row = 0)"

lemma install_ok:
  assumes "install prog e = Ok (p, e')" and "relations_empty e"
  shows "program_ok e' p (prog_outputs prog)"
proof -
  from assms(1) obtain os ns deps where b: "build_outputs e (prog_outputs prog) ([], []) = Ok (os, ns, deps)"
    by (auto simp: install_def rust_simps)
  note h = build_outputs_hold [OF b]
  have src: "source_sem (en_relations e) = no_rows" using assms(2) by (simp add: relations_empty_def fun_eq_iff)
  from assms(1) b have "en_relations e' = en_relations e" "\<exists>ps. vec_get (en_programs e') p = Some (Some ps) \<and> ps_nodes ps = ns \<and> ps_outputs ps = os"
    by (auto simp: install_def rust_simps Let_def vec_get_def split: if_splits)
  with h show ?thesis by (auto simp: program_ok_def program_at_Ok_iff arities_def src)
qed

lemma build_node_not_Panic: "build_node e p a \<noteq> Panic" "build_nodes e ps a \<noteq> Panic"
  by (induction p a and ps a rule: build_node_build_nodes.induct)
    (auto simp: rust_simps node_arity_not_Panic Let_def split: if_splits)

subsection \<open>Snapshots\<close>

definition shows_rows :: "(row \<Rightarrow> i64) \<Rightarrow> row list \<Rightarrow> bool" where
  "shows_rows z rows \<longleftrightarrow> sorted_by row_cmp rows \<and> distinct rows \<and> (\<forall>row. row \<in> set rows \<longleftrightarrow> visible z row)"

lemma counts_visible:
  assumes "counts_are c z"
  shows "distinct (map fst (filter (\<lambda>(_, w). 0 < sint w) c)) \<and>
    (\<forall>row. row \<in> fst ` set (filter (\<lambda>(_, w). 0 < sint w) c) \<longleftrightarrow> visible z row)"
proof (intro conjI allI)
  have d: "distinct (map fst c)" using assms by (simp add: counts_are_def hm_inv_def)
  then show "distinct (map fst (filter (\<lambda>(_, w). 0 < sint w) c))" by (simp add: List.distinct_map_filter)
  have mem: "(row, w) \<in> set c \<longleftrightarrow> w = z row \<and> z row \<noteq> 0" for row w
    using assms map_of_eq_Some_iff [OF d, of row w] by (auto simp: counts_are_def support_map_def split: if_splits)
  show "row \<in> fst ` set (filter (\<lambda>(_, w). 0 < sint w) c) \<longleftrightarrow> visible z row" for row
    by (force simp: visible_def mem image_iff)
qed

lemma groups_visible:
  assumes gs: "groups_are gs gb sm z" and ok: "agg_ok gb sm z"
  shows "distinct (map (\<lambda>(key, g). group_row cnt sm key g) gs) \<and>
    (\<forall>row. row \<in> (\<lambda>(key, g). group_row cnt sm key g) ` set gs \<longleftrightarrow> visible (zaggregate gb cnt sm z) row)"
proof
  have d: "distinct (map fst gs)" using gs by (simp add: groups_are_def hm_inv_def)
  have mem: "(key, g) \<in> set gs \<longleftrightarrow> zgroup gb sm z key = Some g" for key g
    using gs map_of_eq_Some_iff [OF d] by (simp add: groups_are_def)
  have len: "length key = length gb" if "zgroup gb sm z key = Some g" for key g
    using that zgroup_length [of gb z key sm] by (auto simp: zgroup_def split: if_splits)
  have "inj_on (\<lambda>(key, g). group_row cnt sm key g) (set gs)"
  proof (rule inj_onI, clarify)
    fix k g k' g' assume m: "(k, g) \<in> set gs" "(k', g') \<in> set gs" and eq: "group_row cnt sm k g = group_row cnt sm k' g'"
    then have "k = k'" using len mem by (metis take_group_row)
    with m mem show "k = k' \<and> g = g'" by auto
  qed
  moreover have "distinct gs" using d by (simp add: distinct_map)
  ultimately show "distinct (map (\<lambda>(key, g). group_row cnt sm key g) gs)" by (simp add: distinct_map)
  show "\<forall>row. row \<in> (\<lambda>(key, g). group_row cnt sm key g) ` set gs \<longleftrightarrow> visible (zaggregate gb cnt sm z) row"
  proof
    fix row
    have "visible (zaggregate gb cnt sm z) row \<longleftrightarrow> zaggregate gb cnt sm z row \<noteq> 0"
      using zaggregate_unit [of gb cnt sm z row] by (auto simp: visible_def)
    also have "\<dots> \<longleftrightarrow> (\<exists>key g. zgroup gb sm z key = Some g \<and> row = group_row cnt sm key g)"
    proof
      assume "zaggregate gb cnt sm z row \<noteq> 0"
      then show "\<exists>key g. zgroup gb sm z key = Some g \<and> row = group_row cnt sm key g"
        by (blast dest: zaggregate_nonzeroD)
    next
      assume "\<exists>key g. zgroup gb sm z key = Some g \<and> row = group_row cnt sm key g"
      then obtain key g where k: "zgroup gb sm z key = Some g" "row = group_row cnt sm key g" by blast
      then have "take (length gb) row = key" using len by (simp add: take_group_row)
      with k show "zaggregate gb cnt sm z row \<noteq> 0" by (simp add: zaggregate_def)
    qed
    also have "\<dots> \<longleftrightarrow> row \<in> (\<lambda>(key, g). group_row cnt sm key g) ` set gs"
      unfolding mem [symmetric] by (simp add: image_iff Bex_def split_paired_Ex)
    finally show "row \<in> (\<lambda>(key, g). group_row cnt sm key g) ` set gs \<longleftrightarrow> visible (zaggregate gb cnt sm z) row" ..
  qed
qed

lemma scan_visible:
  assumes e: "engine_ok e" and r: "r < length (en_relations e)"
  defines "bv \<equiv> filter (\<lambda>(_, ids). ids \<noteq> []) (rel_by_value (en_relations e ! r))"
  shows "distinct (map fst bv) \<and> (\<forall>row. row \<in> fst ` set bv \<longleftrightarrow> visible (source_sem (en_relations e) r) row)"
proof (intro conjI allI)
  let ?bv = "rel_by_value (en_relations e ! r)"
  have d: "distinct (map fst ?bv)"
    using e engine_inv_relation [of e r] r by (simp add: engine_ok_def rel_inv_def hm_inv_def)
  then show "distinct (map fst bv)" by (simp add: bv_def List.distinct_map_filter)
  fix row
  have len: "src_len e r row < 2 ^ 63" using e by (simp add: engine_ok_def len_ok_def)
  have "visible (source_sem (en_relations e) r) row \<longleftrightarrow> src_len e r row \<noteq> 0"
    by (simp add: visible_def source_sem_len sint_present [OF len])
  also have "\<dots> \<longleftrightarrow> (\<exists>ids. map_of ?bv row = Some ids \<and> ids \<noteq> [])"
    using r by (auto simp: src_len_def ids_of_def split: option.split)
  also have "\<dots> \<longleftrightarrow> row \<in> fst ` set bv"
    using map_of_eq_Some_iff [OF d] by (force simp: bv_def image_iff)
  finally show "row \<in> fst ` set bv \<longleftrightarrow> visible (source_sem (en_relations e) r) row" ..
qed

lemma node_support_ok:
  assumes e: "engine_ok e" and h: "holds (source_sem (en_relations e)) ns lo i p"
    and ok: "plan_ok (arities e) p" and valid: "plan_valid (source_sem (en_relations e)) p"
  shows "\<exists>rows. node_support e (ns ! i) = Ok rows \<and> distinct (map fst rows) \<and>
    (\<forall>row. row \<in> fst ` set rows \<longleftrightarrow> visible (plan_sem (source_sem (en_relations e)) p) row)"
proof (cases p)
  case (PScan r)
  with h ok have n: "ns ! i = NScan r" "r < length (en_relations e)" by (auto simp: arities_def)
  have "map fst (map (\<lambda>(row, ids). (row, (of_nat (length ids) :: i64))) xs) = map fst xs" for xs :: "(row \<times> nat list) list"
    by auto
  then show ?thesis
    using scan_visible [OF e n(2)] n by (auto simp: PScan relation_at_def image_image case_prod_unfold comp_def)
next
  case (PAggregate q gb cnt sm)
  with h obtain j gs where n: "ns ! i = NAggregate j gb cnt sm gs" "groups_are gs gb sm (plan_sem (source_sem (en_relations e)) q)"
    by auto
  have "agg_ok gb sm (plan_sem (source_sem (en_relations e)) q)" using valid PAggregate by simp
  from groups_visible [OF n(2) this, of cnt] show ?thesis
    by (simp add: PAggregate n(1) image_image case_prod_unfold comp_def)
qed (use h counts_visible in \<open>auto\<close>)

lemma find_list_all2:
  "list_all2 R ds os \<Longrightarrow> (\<And>d o1. R d o1 \<Longrightarrow> f d = g o1) \<Longrightarrow> find f ds = Some d \<Longrightarrow> \<exists>o1. find g os = Some o1 \<and> R d o1"
  by (induction ds os rule: list_all2_induct) (auto split: if_splits)

lemma snapshot_ok:
  assumes e: "engine_ok e" and prog: "program_ok e p ds" and d: "find (\<lambda>d. decl_name d = name) ds = Some d"
    and valid: "plan_valid (source_sem (en_relations e)) (decl_plan d)"
  shows "\<exists>rows. snapshot p name e = Ok rows \<and> shows_rows (plan_sem (source_sem (en_relations e)) (decl_plan d)) rows"
proof -
  from prog obtain ps where ps: "program_at e p = Ok ps" "outs_hold (source_sem (en_relations e)) (ps_nodes ps) 0 ds (ps_outputs ps)"
    and ok: "\<forall>q \<in> plans ds. plan_ok (arities e) q" by (auto simp: program_ok_def)
  from find_list_all2 [OF outs_hold_list [OF ps(2)] _ d, of "\<lambda>o1. os_name o1 = name"] obtain o1 lo where
    o: "find (\<lambda>o1. os_name o1 = name) (ps_outputs ps) = Some o1" "holds (source_sem (en_relations e)) (ps_nodes ps) lo (os_root o1) (decl_plan d)"
    by auto
  have "d \<in> set ds" using d by (auto simp: find_Some_iff)
  then have pok: "plan_ok (arities e) (decl_plan d)" using ok by (simp add: plans_def)
  obtain rows where rows: "node_support e (ps_nodes ps ! os_root o1) = Ok rows" "distinct (map fst rows)"
    "\<forall>row. row \<in> fst ` set rows \<longleftrightarrow> visible (plan_sem (source_sem (en_relations e)) (decl_plan d)) row"
    using node_support_ok [OF e o(2) pok valid] by blast
  have "snapshot p name e = Ok (sort_by row_cmp (map fst rows))"
    using holds_range(1) [OF o(2)] by (simp add: snapshot_def ps(1) find_output_def o(1) rows(1))
  then show ?thesis
    using rows(2,3) by (simp add: shows_rows_def row.sorted_sort_by)
qed

end
