(* ===== verification/Frontier_Bag.thy ===== *)
theory Frontier_Bag
  imports Frontier_Install
begin

text \<open>
  Bag semantics with unbounded multiplicities, the meaning a reader of a query has in mind, and
  its agreement with the engine's wrapping weights: as long as every multiplicity the plan goes
  through stays below \<open>2 ^ 63\<close>, the wrapped weights are the true ones, none is negative and no
  group count is mistaken for zero.
\<close>

subsection \<open>Unbounded semantics\<close>

definition bag_count :: "nat list \<Rightarrow> (row \<Rightarrow> int) \<Rightarrow> row \<Rightarrow> int" where
  "bag_count gb z key = zint z (\<lambda>x. if cols_of gb x = key then 1 else 0)"

definition bag_sum :: "nat list \<Rightarrow> nat option \<Rightarrow> (row \<Rightarrow> int) \<Rightarrow> row \<Rightarrow> int" where
  "bag_sum gb sm z key =
     (case sm of None \<Rightarrow> 0 | Some c \<Rightarrow> zint z (\<lambda>x. if cols_of gb x = key then sint (x ! c) else 0))"

text \<open>The cells of an aggregate's output row are 64-bit: an output sum is the sum modulo \<open>2 ^ 64\<close>.\<close>

definition bag_group :: "nat list \<Rightarrow> nat option \<Rightarrow> (row \<Rightarrow> int) \<Rightarrow> row \<Rightarrow> group" where
  "bag_group gb sm z key = \<lparr>g_count = of_int (bag_count gb z key), g_sum = of_int (bag_sum gb sm z key)\<rparr>"

definition bag_aggregate :: "nat list \<Rightarrow> bool \<Rightarrow> nat option \<Rightarrow> (row \<Rightarrow> int) \<Rightarrow> row \<Rightarrow> int" where
  "bag_aggregate gb cnt sm z row =
     (let key = take (length gb) row
      in if bag_count gb z key \<noteq> 0 \<and> row = group_row cnt sm key (bag_group gb sm z key) then 1 else 0)"

fun bag_sem :: "(nat \<Rightarrow> row \<Rightarrow> int) \<Rightarrow> plan_node \<Rightarrow> row \<Rightarrow> int" where
  "bag_sem bag (PScan r) = bag r"
| "bag_sem bag (PUnion ps) = (\<lambda>row. \<Sum>p\<leftarrow>ps. bag_sem bag p row)"
| "bag_sem bag (PJoin l r a b) =
     (\<lambda>row. zint (bag_sem bag l) (\<lambda>x. zint (bag_sem bag r) (\<lambda>y. if x ! a = y ! b \<and> x @ y = row then 1 else 0)))"
| "bag_sem bag (PAggregate p gb cnt sm) = bag_aggregate gb cnt sm (bag_sem bag p)"
| "bag_sem bag (PProject p cs) = (\<lambda>row. zint (bag_sem bag p) (\<lambda>x. if cols_of cs x = row then 1 else 0))"
| "bag_sem bag (PDifference _ _) = (\<lambda>_. 0)"

fun plan_fits :: "(nat \<Rightarrow> row \<Rightarrow> int) \<Rightarrow> plan_node \<Rightarrow> bool" where
  "plan_fits bag (PScan r) \<longleftrightarrow> (\<forall>row. bag r row < 2 ^ 63)"
| "plan_fits bag (PUnion ps) \<longleftrightarrow> list_all (plan_fits bag) ps \<and> (\<forall>row. bag_sem bag (PUnion ps) row < 2 ^ 63)"
| "plan_fits bag (PJoin l r a b) \<longleftrightarrow> plan_fits bag l \<and> plan_fits bag r \<and> (\<forall>row. bag_sem bag (PJoin l r a b) row < 2 ^ 63)"
| "plan_fits bag (PAggregate p gb cnt sm) \<longleftrightarrow> plan_fits bag p \<and> (\<forall>key. bag_count gb (bag_sem bag p) key < 2 ^ 63)"
| "plan_fits bag (PProject p cs) \<longleftrightarrow> plan_fits bag p \<and> (\<forall>row. bag_sem bag (PProject p cs) row < 2 ^ 63)"
| "plan_fits bag (PDifference _ _) \<longleftrightarrow> False"

subsection \<open>Non-negative and finite\<close>

lemma zint_nonneg: "(\<And>x. 0 \<le> z x) \<Longrightarrow> (\<And>x. 0 \<le> f x) \<Longrightarrow> 0 \<le> zint z (f :: 'a \<Rightarrow> int)"
  by (simp add: zint_def sum_nonneg)

lemma bag_sem_nonneg:
  assumes "\<And>r row. 0 \<le> bag r row"
  shows "0 \<le> bag_sem bag p row"
proof (induction p arbitrary: row)
  case (PUnion ps)
  then show ?case by (auto intro!: sum_list_nonneg)
qed (auto intro!: zint_nonneg simp: assms bag_aggregate_def Let_def)

lemma bag_join_nonzeroD:
  "zint zl (\<lambda>x. zint zr (\<lambda>y. if x ! a = y ! b \<and> x @ y = row then 1 else 0)) \<noteq> (0 :: int) \<Longrightarrow>
     \<exists>x y. zl x \<noteq> 0 \<and> zr y \<noteq> 0 \<and> row = x @ y"
  by (auto dest!: zint_nonzero_ex split: if_splits) blast

lemma bag_count_nonzeroD: "bag_count gb z key \<noteq> 0 \<Longrightarrow> \<exists>x. z x \<noteq> 0 \<and> cols_of gb x = key"
  unfolding bag_count_def by (auto dest!: zint_nonzero_ex split: if_splits)

lemma zfin_bag_sem: "(\<And>r. zfin (bag r)) \<Longrightarrow> zfin (bag_sem bag p)"
proof (induction p)
  case (PJoin l r a b)
  then have "zfin (bag_sem bag l)" "zfin (bag_sem bag r)" by auto
  then have "finite ((\<lambda>(x, y). x @ y) ` ({x. bag_sem bag l x \<noteq> 0} \<times> {y. bag_sem bag r y \<noteq> 0}))"
    by (simp add: zfin_def)
  then show ?case
    unfolding zfin_def by (rule finite_subset [rotated]) (auto dest!: bag_join_nonzeroD)
next
  case (PAggregate p gb cnt sm)
  let ?z = "bag_sem bag p"
  from PAggregate have "finite ((\<lambda>x. group_row cnt sm (cols_of gb x) (bag_group gb sm ?z (cols_of gb x))) ` {x. ?z x \<noteq> 0})"
    by (simp add: zfin_def)
  then show ?case
    unfolding zfin_def
  proof (rule finite_subset [rotated], intro subsetI)
    fix row assume "row \<in> {x. bag_sem bag (PAggregate p gb cnt sm) x \<noteq> 0}"
    then have c: "bag_count gb ?z (take (length gb) row) \<noteq> 0"
      and row: "row = group_row cnt sm (take (length gb) row) (bag_group gb sm ?z (take (length gb) row))"
      by (auto simp: bag_aggregate_def Let_def split: if_splits)
    from bag_count_nonzeroD [OF c] obtain x where "?z x \<noteq> 0" "cols_of gb x = take (length gb) row" by blast
    with row show "row \<in> (\<lambda>x. group_row cnt sm (cols_of gb x) (bag_group gb sm ?z (cols_of gb x))) ` {x. ?z x \<noteq> 0}"
      by (intro image_eqI [of _ _ x]) auto
  qed
qed (auto intro: zfin_sum_list zfin_image_zint)

subsection \<open>Agreement\<close>

lemma zint_of_int:
  assumes "zfin z"
  shows "zint (\<lambda>x. of_int (z x)) (\<lambda>x. of_int (f x)) = (of_int (zint z f) :: i64)"
proof -
  have "zint (\<lambda>x. of_int (z x) :: i64) (\<lambda>x. of_int (f x)) = (\<Sum>x | z x \<noteq> 0. of_int (z x) * of_int (f x))"
    using assms by (intro zint_superset) (auto simp: zfin_def)
  then show ?thesis by (simp add: zint_def)
qed

lemma of_int_if: "(if P then 1 else 0) = (of_int (if P then 1 else 0) :: i64)"
  by simp

lemma sint_of_int_i64: "0 \<le> n \<Longrightarrow> n < 2 ^ 63 \<Longrightarrow> sint (of_int n :: i64) = n"
  by (simp add: signed_of_int signed_take_bit_int_eq_self)

lemma of_int_zero_i64: "0 \<le> n \<Longrightarrow> n < 2 ^ 63 \<Longrightarrow> (of_int n :: i64) = 0 \<longleftrightarrow> n = 0"
  by (metis sint_of_int_i64 of_int_0 signed_0)

lemma zgroup_bag:
  assumes fin: "zfin z" and nn: "\<And>x. 0 \<le> z x" and le: "\<And>key. bag_count gb z key < 2 ^ 63"
  shows "zgroup_count gb (\<lambda>x. of_int (z x)) key = of_int (bag_count gb z key)"
    "zgroup_sum gb sm (\<lambda>x. of_int (z x)) key = of_int (bag_sum gb sm z key)"
    "zgroup gb sm (\<lambda>x. of_int (z x)) key = (if bag_count gb z key = 0 then None else Some (bag_group gb sm z key))"
    "agg_ok gb sm (\<lambda>x. of_int (z x))"
proof -
  show c: "zgroup_count gb (\<lambda>x. of_int (z x)) key = of_int (bag_count gb z key)" for key
    unfolding zgroup_count_def bag_count_def of_int_if by (rule zint_of_int [OF fin])
  have cell: "(if cols_of gb x = key then x ! k else 0) = (of_int (if cols_of gb x = key then sint (x ! k) else 0) :: i64)"
    for x :: row and k key by simp
  show s: "zgroup_sum gb sm (\<lambda>x. of_int (z x)) key = of_int (bag_sum gb sm z key)" for key
    unfolding zgroup_sum_def bag_sum_def cell
    by (auto simp: zint_of_int [OF fin] simp del: of_int_if split: option.split)
  have pos: "0 \<le> bag_count gb z key" for key
    unfolding bag_count_def by (rule zint_nonneg) (simp_all add: nn)
  have zero: "(of_int (bag_count gb z key) :: i64) = 0 \<longleftrightarrow> bag_count gb z key = 0" for key
    by (rule of_int_zero_i64 [OF pos le])
  show "zgroup gb sm (\<lambda>x. of_int (z x)) key = (if bag_count gb z key = 0 then None else Some (bag_group gb sm z key))"
    by (simp add: zgroup_def c s zero bag_group_def)
  have none: "bag_sum gb sm z key = 0" if "bag_count gb z key = 0" for key
  proof -
    have "z x * (if cols_of gb x = key then 1 else 0) = 0" if "z x \<noteq> 0" for x
      using \<open>bag_count gb z key = 0\<close> fin nn that unfolding bag_count_def zint_def zfin_def
      by (subst (asm) sum_nonneg_eq_0_iff) auto
    then have out: "cols_of gb x \<noteq> key" if "z x \<noteq> 0" for x using that by fastforce
    have "zint z (\<lambda>x. if cols_of gb x = key then sint (x ! k) else 0) = zint z (\<lambda>_. 0)" for k
      by (rule zint_cong) (use out in auto)
    then show ?thesis by (simp add: bag_sum_def split: option.split)
  qed
  show "agg_ok gb sm (\<lambda>x. of_int (z x))"
    unfolding agg_ok_def c s zero
  proof (intro allI conjI impI)
    show "0 \<le> sint (of_int (bag_count gb z key) :: i64)" for key
      using sint_of_int_i64 [OF pos le] pos by (metis (full_types))
    show "(of_int (bag_sum gb sm z key) :: i64) = 0" if "bag_count gb z key = 0" for key
      by (simp add: none that)
  qed
qed

lemma bag_agrees:
  assumes nn: "\<And>r row. 0 \<le> bag r row" and fin: "\<And>r. zfin (bag r)"
  shows "plan_fits bag p \<Longrightarrow> plan_sem (\<lambda>r row. of_int (bag r row)) p = (\<lambda>row. of_int (bag_sem bag p row)) \<and>
    plan_valid (\<lambda>r row. of_int (bag r row)) p"
proof (induction p)
  case (PScan r)
  then show ?case by (simp add: sint_of_int_i64 nn)
next
  case (PUnion ps)
  have sub: "plan_sem (\<lambda>r row. of_int (bag r row)) p = (\<lambda>row. of_int (bag_sem bag p row))"
    "plan_valid (\<lambda>r row. of_int (bag r row)) p" if "p \<in> set ps" for p
    using PUnion that by (auto simp: list_all_iff)
  have "(\<Sum>p\<leftarrow>ps. plan_sem (\<lambda>r row. of_int (bag r row)) p row) = of_int (\<Sum>p\<leftarrow>ps. bag_sem bag p row)" for row
    using sub(1) by (induction ps) auto
  then have eq: "plan_sem (\<lambda>r row. of_int (bag r row)) (PUnion ps) = (\<lambda>row. of_int (bag_sem bag (PUnion ps) row))"
    by simp
  have "0 \<le> sint (of_int (bag_sem bag (PUnion ps) row) :: i64)" for row
    using PUnion.prems bag_sem_nonneg [of bag "PUnion ps" row, OF nn] by (subst sint_of_int_i64) auto
  with eq sub(2) show ?case by (simp add: list_all_iff)
next
  case (PJoin l r a b)
  let ?f = "\<lambda>row. zint (bag_sem bag l) (\<lambda>x. zint (bag_sem bag r) (\<lambda>y. if x ! a = y ! b \<and> x @ y = row then 1 else 0))"
  have "zjoin a b (\<lambda>x. of_int (bag_sem bag l x)) (\<lambda>x. of_int (bag_sem bag r x)) row = of_int (?f row)" for row
    unfolding zjoin_def of_int_if zint_of_int [OF zfin_bag_sem [OF fin]] ..
  with PJoin have eq: "plan_sem (\<lambda>r row. of_int (bag r row)) (PJoin l r a b) = (\<lambda>row. of_int (bag_sem bag (PJoin l r a b) row))"
    by (intro ext) simp
  have "0 \<le> sint (of_int (bag_sem bag (PJoin l r a b) row) :: i64)" for row
    using PJoin.prems bag_sem_nonneg [of bag "PJoin l r a b" row, OF nn] by (subst sint_of_int_i64) auto
  with eq PJoin show ?case by simp
next
  case (PAggregate p gb cnt sm)
  then have IH: "plan_sem (\<lambda>r row. of_int (bag r row)) p = (\<lambda>row. of_int (bag_sem bag p row))"
    "plan_valid (\<lambda>r row. of_int (bag r row)) p" by auto
  have le: "\<And>key. bag_count gb (bag_sem bag p) key < 2 ^ 63" using PAggregate.prems by simp
  note g = zgroup_bag [OF zfin_bag_sem [OF fin] bag_sem_nonneg [OF nn] le]
  have "zaggregate gb cnt sm (\<lambda>row. of_int (bag_sem bag p row)) row = of_int (bag_aggregate gb cnt sm (bag_sem bag p) row)" for row
    by (simp add: zaggregate_def bag_aggregate_def Let_def g(3))
  with IH g(4) show ?case by simp
next
  case (PProject p cs)
  have "zproject cs (\<lambda>x. of_int (bag_sem bag p x)) row = of_int (zint (bag_sem bag p) (\<lambda>x. if cols_of cs x = row then 1 else 0))" for row
    unfolding zproject_def of_int_if by (rule zint_of_int [OF zfin_bag_sem [OF fin]])
  with PProject have eq: "plan_sem (\<lambda>r row. of_int (bag r row)) (PProject p cs) = (\<lambda>row. of_int (bag_sem bag (PProject p cs) row))"
    by (intro ext) simp
  have "0 \<le> sint (of_int (bag_sem bag (PProject p cs) row) :: i64)" for row
    using PProject.prems bag_sem_nonneg [of bag "PProject p cs" row, OF nn] by (subst sint_of_int_i64) auto
  with eq PProject show ?case by simp
qed simp

text \<open>The stored rows of an engine as bags.\<close>

definition engine_bag :: "engine \<Rightarrow> nat \<Rightarrow> row \<Rightarrow> int" where
  "engine_bag e r row = int (src_len e r row)"

definition post_bag :: "engine \<Rightarrow> frontier \<Rightarrow> nat \<Rightarrow> row \<Rightarrow> int" where
  "post_bag e fr r row = engine_bag e r row + sint (change_weight r row (fr_changes fr))"

lemma engine_bag_agrees:
  assumes "plan_fits (engine_bag e) p"
  shows "plan_sem (source_sem (en_relations e)) p = (\<lambda>row. of_int (bag_sem (engine_bag e) p row))"
    "plan_valid (source_sem (en_relations e)) p"
proof -
  have "source_sem (en_relations e) = (\<lambda>r row. of_int (engine_bag e r row))"
    by (simp add: engine_bag_def source_sem_len fun_eq_iff)
  moreover have "zfin (engine_bag e r)" for r
    using src_len_finite [of e r] by (simp add: zfin_def engine_bag_def)
  ultimately show "plan_sem (source_sem (en_relations e)) p = (\<lambda>row. of_int (bag_sem (engine_bag e) p row))"
    "plan_valid (source_sem (en_relations e)) p"
    using bag_agrees [OF _ _ assms] by (simp_all add: engine_bag_def)
qed

lemma change_weight_finite: "finite {row. change_weight r row chs \<noteq> 0}"
  by (rule finite_subset [of _ "sc_row ` set chs"]) (auto dest: change_weight_nonzeroD)

lemma post_bag_agrees:
  assumes "frontier_ok e fr" and "plan_fits (post_bag e fr) p"
  shows "plan_sem (post_src e fr) p = (\<lambda>row. of_int (bag_sem (post_bag e fr) p row))"
    "plan_valid (post_src e fr) p"
proof -
  have "post_src e fr = (\<lambda>r row. of_int (post_bag e fr r row))"
    by (simp add: post_src_def post_bag_def engine_bag_def source_sem_len fun_eq_iff)
  moreover have "zfin (post_bag e fr r)" for r
    unfolding zfin_def post_bag_def engine_bag_def
    by (rule finite_subset [of _ "{row. src_len e r row \<noteq> 0} \<union> {row. change_weight r row (fr_changes fr) \<noteq> 0}"])
      (auto simp: src_len_finite change_weight_finite simp del: neq0_conv)
  moreover have "0 \<le> post_bag e fr r row" for r row
    using assms(1) by (simp add: frontier_ok_def changes_fit_def post_bag_def engine_bag_def)
  ultimately show "plan_sem (post_src e fr) p = (\<lambda>row. of_int (bag_sem (post_bag e fr) p row))"
    "plan_valid (post_src e fr) p"
    using bag_agrees [OF _ _ assms(2)] by simp_all
qed

text \<open>Visibility is presence in the bag.\<close>

lemma plan_fits_bound: "(\<And>r row. 0 \<le> bag r row) \<Longrightarrow> plan_fits bag p \<Longrightarrow> bag_sem bag p row < 2 ^ 63"
  by (cases p) (auto simp: bag_aggregate_def Let_def)

lemma visible_bag:
  "(\<And>r row. 0 \<le> bag r row) \<Longrightarrow> plan_fits bag p \<Longrightarrow> visible (\<lambda>row. of_int (bag_sem bag p row)) row \<longleftrightarrow> 0 < bag_sem bag p row"
  using sint_of_int_i64 [OF bag_sem_nonneg plan_fits_bound, of bag p row] by (simp add: visible_def)

end
