(* ===== verification/Frontier_Bound.thy ===== *)
theory Frontier_Bound
  imports Frontier_Bag
begin

text \<open>
  A bound on every multiplicity a plan goes through, from the number of stored rows: a scan has at
  most the rows of its relation, a union adds, a join multiplies, projection and aggregation do
  not add rows. It turns the overflow condition of the engine into arithmetic on row counts.
\<close>

fun plan_rows :: "nat \<Rightarrow> plan_node \<Rightarrow> nat" where
  "plan_rows n (PScan r) = n"
| "plan_rows n (PUnion ps) = sum_list (map (plan_rows n) ps)"
| "plan_rows n (PJoin l r _ _) = max (plan_rows n l * plan_rows n r) (max (plan_rows n l) (plan_rows n r))"
| "plan_rows n (PAggregate p _ _ _) = plan_rows n p"
| "plan_rows n (PProject p _) = plan_rows n p"
| "plan_rows n (PDifference _ _) = 2 ^ 63"

definition total_le :: "(row \<Rightarrow> int) \<Rightarrow> int \<Rightarrow> bool" where
  "total_le z n \<longleftrightarrow> (\<forall>Y. finite Y \<longrightarrow> (\<Sum>y\<in>Y. z y) \<le> n)"

lemma total_le_weight: "total_le z n \<Longrightarrow> z y \<le> n"
  unfolding total_le_def by (elim allE [of _ "{y}"]) simp

lemma total_le_mono: "total_le z n \<Longrightarrow> n \<le> m \<Longrightarrow> total_le z m"
  unfolding total_le_def by force

lemma total_le_smaller: "total_le b n \<Longrightarrow> (\<And>x. a x \<le> b x) \<Longrightarrow> total_le a n"
  unfolding total_le_def by (meson order_trans sum_mono)

lemma total_le_add: "total_le a n \<Longrightarrow> total_le b m \<Longrightarrow> total_le (\<lambda>x. a x + b x) (n + m)"
  unfolding total_le_def by (simp add: sum.distrib add_mono)

lemma total_le_zint: "zfin z \<Longrightarrow> total_le z n \<Longrightarrow> zint z (\<lambda>_. c) \<le> c * n" if "0 \<le> c"
proof -
  assume z: "zfin z" "total_le z n"
  then have "(\<Sum>x | z x \<noteq> 0. z x) \<le> n" by (simp add: total_le_def zfin_def)
  moreover have "zint z (\<lambda>_. c) = c * (\<Sum>x | z x \<noteq> 0. z x)"
    by (simp add: zint_def sum_distrib_left mult.commute)
  ultimately show ?thesis using that by (simp add: mult_left_mono)
qed

text \<open>Summing an integral over its values integrates once.\<close>

lemma sum_zint: "(\<Sum>y\<in>Y. zint z (f y)) = zint z (\<lambda>x. \<Sum>y\<in>Y. f y x)"
  unfolding zint_def sum_distrib_left by (rule sum.swap)

lemma zint_mono: "(\<And>x. 0 \<le> z x) \<Longrightarrow> (\<And>x. f x \<le> g x) \<Longrightarrow> zint z f \<le> zint z (g :: 'a \<Rightarrow> int)"
  by (simp add: zint_def sum_mono mult_left_mono)

lemma sum_point_le: "finite Y \<Longrightarrow> (\<Sum>y\<in>Y. if P \<and> g = y then 1 else 0) \<le> (1 :: int)"
  by (cases P) (simp_all add: sum.delta)

lemma total_le_image:
  assumes nn: "\<And>x. 0 \<le> z x" and fin: "zfin z" and t: "total_le z n"
  shows "total_le (\<lambda>y. zint z (\<lambda>x. if P x \<and> g x = y then 1 else 0)) n"
  unfolding total_le_def
proof (intro allI impI)
  fix Y :: "row set" assume Y: "finite Y"
  have "(\<Sum>y\<in>Y. zint z (\<lambda>x. if P x \<and> g x = y then 1 else 0)) = zint z (\<lambda>x. \<Sum>y\<in>Y. if P x \<and> g x = y then 1 else 0)"
    by (rule sum_zint)
  also have "\<dots> \<le> zint z (\<lambda>_. 1)" by (rule zint_mono [OF nn sum_point_le [OF Y]])
  also have "\<dots> \<le> n" using total_le_zint [OF _ fin t, of 1] by simp
  finally show "(\<Sum>y\<in>Y. zint z (\<lambda>x. if P x \<and> g x = y then 1 else 0)) \<le> n" .
qed

lemma total_le_join:
  assumes nn: "\<And>x. 0 \<le> zl x" "\<And>x. 0 \<le> zr x" and fin: "zfin zl" "zfin zr"
    and t: "total_le zl n" "total_le zr m" and m: "0 \<le> m"
  shows "total_le (\<lambda>row. zint zl (\<lambda>x. zint zr (\<lambda>y. if x ! a = y ! b \<and> x @ y = row then 1 else 0))) (n * m)"
  unfolding total_le_def
proof (intro allI impI)
  fix Y :: "row set" assume Y: "finite Y"
  have "(\<Sum>row\<in>Y. zint zl (\<lambda>x. zint zr (\<lambda>y. if x ! a = y ! b \<and> x @ y = row then 1 else 0))) =
      zint zl (\<lambda>x. zint zr (\<lambda>y. \<Sum>row\<in>Y. if x ! a = y ! b \<and> x @ y = row then 1 else 0))"
    by (simp add: sum_zint)
  also have "\<dots> \<le> zint zl (\<lambda>x. zint zr (\<lambda>_. 1))"
    by (intro zint_mono nn sum_point_le [OF Y])
  also have "\<dots> \<le> zint zl (\<lambda>_. m)"
    using total_le_zint [OF _ fin(2) t(2), of 1] by (intro zint_mono nn) simp
  also have "\<dots> \<le> n * m" using total_le_zint [OF m fin(1) t(1)] by (simp add: mult.commute)
  finally show "(\<Sum>row\<in>Y. zint zl (\<lambda>x. zint zr (\<lambda>y. if x ! a = y ! b \<and> x @ y = row then 1 else 0))) \<le> n * m" .
qed

lemma total_le_aggregate:
  assumes nn: "\<And>x. 0 \<le> z x" and fin: "zfin z" and t: "total_le z n"
  shows "total_le (bag_aggregate gb cnt sm z) n"
proof -
  let ?g = "\<lambda>x. group_row cnt sm (cols_of gb x) (bag_group gb sm z (cols_of gb x))"
  have le: "bag_aggregate gb cnt sm z row \<le> zint z (\<lambda>x. if True \<and> ?g x = row then 1 else 0)" for row
  proof (cases "bag_aggregate gb cnt sm z row = 0")
    case True
    then show ?thesis using nn by (simp add: zint_nonneg)
  next
    case False
    let ?k = "take (length gb) row"
    from False have c: "bag_count gb z ?k \<noteq> 0" and row: "row = group_row cnt sm ?k (bag_group gb sm z ?k)"
      and one: "bag_aggregate gb cnt sm z row = 1"
      by (auto simp: bag_aggregate_def Let_def split: if_splits)
    have "0 \<le> bag_count gb z ?k" unfolding bag_count_def by (rule zint_nonneg) (simp_all add: nn)
    with c have "1 \<le> bag_count gb z ?k" by simp
    also have "\<dots> \<le> zint z (\<lambda>x. if True \<and> ?g x = row then 1 else 0)"
      unfolding bag_count_def using row by (intro zint_mono nn) auto
    finally show ?thesis using one by simp
  qed
  have "total_le (\<lambda>row. zint z (\<lambda>x. if True \<and> ?g x = row then 1 else 0)) n"
    by (rule total_le_image [OF nn fin t])
  then show ?thesis using le by (rule total_le_smaller)
qed

lemma plan_rows_total:
  assumes nn: "\<And>r row. 0 \<le> bag r row" and fin: "\<And>r. zfin (bag r)" and t: "\<And>r. total_le (bag r) (int n)"
  shows "total_le (bag_sem bag p) (int (plan_rows n p))"
proof (induction p)
  case (PUnion ps)
  then show ?case
  proof (induction ps)
    case Nil
    then show ?case by (simp add: total_le_def)
  next
    case (Cons p ps)
    then have "total_le (bag_sem bag p) (int (plan_rows n p))" "total_le (bag_sem bag (PUnion ps)) (int (plan_rows n (PUnion ps)))"
      by auto
    then show ?case using total_le_add by fastforce
  qed
next
  case (PJoin l r a b)
  have "total_le (bag_sem bag (PJoin l r a b)) (int (plan_rows n l) * int (plan_rows n r))"
    using total_le_join [OF bag_sem_nonneg bag_sem_nonneg zfin_bag_sem zfin_bag_sem PJoin, of a b] nn fin by simp
  then show ?case by (rule total_le_mono) (simp add: of_nat_max)
next
  case (PAggregate p gb cnt sm)
  from total_le_aggregate [OF bag_sem_nonneg zfin_bag_sem PAggregate] nn fin show ?case by simp
next
  case (PProject p cs)
  from total_le_image [OF bag_sem_nonneg zfin_bag_sem PProject, of "\<lambda>_. True" "cols_of cs"] nn fin show ?case by simp
next
  case (PDifference l r)
  show ?case by (simp add: total_le_def)
qed (simp add: t)

lemma bag_count_le: "(\<And>x. 0 \<le> z x) \<Longrightarrow> zfin z \<Longrightarrow> total_le z n \<Longrightarrow> bag_count gb z key \<le> n"
  using total_le_weight [OF total_le_image, of z n "\<lambda>_. True" "cols_of gb" key] by (simp add: bag_count_def)

fun no_difference :: "plan_node \<Rightarrow> bool" where
  "no_difference (PUnion ps) = list_all no_difference ps"
| "no_difference (PJoin l r _ _) = (no_difference l \<and> no_difference r)"
| "no_difference (PAggregate p _ _ _) = no_difference p"
| "no_difference (PProject p _) = no_difference p"
| "no_difference (PDifference _ _) = False"
| "no_difference (PScan _) = True"

lemma plan_ok_no_difference: "plan_ok ar p \<Longrightarrow> no_difference p"
  by (induction p) (auto simp: list_all_iff)

lemma int_less_63: "m < 2 ^ 63 \<Longrightarrow> int m < 2 ^ 63"
  by (metis of_nat_less_iff of_nat_numeral of_nat_power)

lemma plan_rows_fits:
  assumes nn: "\<And>r row. 0 \<le> bag r row" and fin: "\<And>r. zfin (bag r)" and t: "\<And>r. total_le (bag r) (int n)"
  shows "no_difference p \<Longrightarrow> plan_rows n p < 2 ^ 63 \<Longrightarrow> plan_fits bag p"
proof (induction p)
  case (PUnion ps)
  have "plan_fits bag p" if "p \<in> set ps" for p
    using that PUnion member_le_sum_list [of "plan_rows n p" "map (plan_rows n) ps"] by (auto simp: list_all_iff)
  moreover have "bag_sem bag (PUnion ps) row < 2 ^ 63" for row
    using total_le_weight [OF plan_rows_total [of bag n "PUnion ps", OF nn fin t], of row] PUnion.prems(2) by simp
  ultimately show ?case by (simp add: list_all_iff)
next
  case (PJoin l r a b)
  have "bag_sem bag (PJoin l r a b) row < 2 ^ 63" for row
    using total_le_weight [OF plan_rows_total [of bag n "PJoin l r a b", OF nn fin t], of row] int_less_63 [OF PJoin.prems(2)]
    by (rule le_less_trans)
  with PJoin show ?case by simp
next
  case (PAggregate p gb cnt sm)
  have "bag_count gb (bag_sem bag p) key < 2 ^ 63" for key
    using bag_count_le [OF bag_sem_nonneg zfin_bag_sem plan_rows_total [of bag n p, OF nn fin t], of gb key] nn fin PAggregate.prems(2)
    by simp
  with PAggregate show ?case by simp
next
  case (PProject p cs)
  have "bag_sem bag (PProject p cs) row < 2 ^ 63" for row
    using total_le_weight [OF plan_rows_total [of bag n "PProject p cs", OF nn fin t], of row] PProject.prems(2) by simp
  with PProject show ?case by simp
next
  case (PScan r)
  then have "int n < 2 ^ 63" using int_less_63 by simp
  then show ?case using total_le_weight [OF t, of r] by (auto intro: le_less_trans simp del: of_nat_less_numeral_iff)
qed simp

subsection \<open>Stored rows\<close>

lemma src_len_total:
  assumes inv: "engine_inv e" and r: "r < length (en_relations e)"
  shows "total_le (engine_bag e r) (int (length (rel_rows (en_relations e ! r))))"
  unfolding total_le_def
proof (intro allI impI)
  fix Y :: "row set" assume Y: "finite Y"
  let ?rel = "en_relations e ! r"
  have ri: "rel_inv ?rel" by (rule engine_inv_relation [OF inv r])
  have card: "src_len e r row = card (slots (rel_rows ?rel) (Some row))" for row
    using ri distinct_card [of "ids_of ?rel row"] r by (auto simp: rel_inv_def src_len_def)
  have fin: "finite (slots (rel_rows ?rel) v)" for v by (simp add: slots_def)
  have "(\<Sum>row\<in>Y. card (slots (rel_rows ?rel) (Some row))) = card (\<Union>row\<in>Y. slots (rel_rows ?rel) (Some row))"
    using Y fin by (subst card_UN_disjoint) (auto simp: slots_def)
  also have "\<dots> \<le> card {..<length (rel_rows ?rel)}"
    by (intro card_mono) (auto simp: slots_def)
  finally have "(\<Sum>row\<in>Y. src_len e r row) \<le> length (rel_rows ?rel)" by (simp add: card)
  then show "(\<Sum>row\<in>Y. engine_bag e r row) \<le> int (length (rel_rows ?rel))"
    by (simp add: engine_bag_def flip: of_nat_sum)
qed

definition arenas_le :: "engine \<Rightarrow> nat \<Rightarrow> bool" where
  "arenas_le e n \<longleftrightarrow> (\<forall>rel \<in> set (en_relations e). length (rel_rows rel) \<le> n)"

lemma engine_bag_total: "engine_inv e \<Longrightarrow> arenas_le e n \<Longrightarrow> total_le (engine_bag e r) (int n)"
proof (cases "r < length (en_relations e)")
  case True
  assume "engine_inv e" "arenas_le e n"
  then show ?thesis using src_len_total [OF _ True] True total_le_mono by (fastforce simp: arenas_le_def)
next
  case False
  then show ?thesis by (simp add: total_le_def engine_bag_def src_len_def vec_get_def)
qed

lemma arenas_len_ok: "engine_inv e \<Longrightarrow> arenas_le e n \<Longrightarrow> n < 2 ^ 63 \<Longrightarrow> len_ok e"
proof -
  assume e: "engine_inv e" "arenas_le e n" and n: "n < 2 ^ 63"
  have "int (src_len e r row) \<le> int n" for r row
    using total_le_weight [OF engine_bag_total [OF e], of r row] by (simp add: engine_bag_def)
  then have "src_len e r row \<le> n" for r row by simp
  with n show ?thesis unfolding len_ok_def by (meson le_less_trans)
qed

lemma zfin_engine_bag: "zfin (engine_bag e r)"
  using src_len_finite [of e r] by (simp add: zfin_def engine_bag_def)

lemma engine_bag_nonneg: "0 \<le> engine_bag e r row"
  by (simp add: engine_bag_def)

lemma engine_fits:
  "engine_inv e \<Longrightarrow> arenas_le e n \<Longrightarrow> no_difference p \<Longrightarrow> plan_rows n p < 2 ^ 63 \<Longrightarrow> plan_fits (engine_bag e) p"
  by (rule plan_rows_fits [OF engine_bag_nonneg zfin_engine_bag engine_bag_total])

text \<open>The rows a frontier can add.\<close>

lemma change_weight_le:
  assumes "length chs < 2 ^ 63"
  shows "sint (change_weight r row chs) \<le> int (length (filter (\<lambda>ch. sc_relation ch = r \<and> sc_row ch = row) chs)) \<and>
    - int (length chs) \<le> sint (change_weight r row chs)"
  using assms
proof (induction chs)
  case Nil
  then show ?case by (simp add: change_weight_def)
next
  case (Cons ch chs)
  let ?w = "if sc_relation ch = r \<and> sc_row ch = row then sign_weight (sc_sign ch) else 0"
  have le: "length (filter (\<lambda>ch. sc_relation ch = r \<and> sc_row ch = row) chs) \<le> length chs" by simp
  have w: "change_weight r row (ch # chs) = ?w + change_weight r row chs" by (simp add: change_weight_def)
  have sw: "sint ?w \<le> (if sc_relation ch = r \<and> sc_row ch = row then 1 else 0)" "- 1 \<le> sint ?w"
    by (cases "sc_sign ch"; simp)+
  have IH: "sint (change_weight r row chs) \<le> int (length (filter (\<lambda>ch. sc_relation ch = r \<and> sc_row ch = row) chs))"
    "- int (length chs) \<le> sint (change_weight r row chs)" using Cons by auto
  have n: "int (length chs) < 2 ^ 63 - 1" using int_less_63 [OF Cons.prems] by simp
  have le': "int (length (filter (\<lambda>ch. sc_relation ch = r \<and> sc_row ch = row) chs)) \<le> int (length chs)"
    using le by (simp only: of_nat_le_iff)
  have "sint (?w + change_weight r row chs) = sint ?w + sint (change_weight r row chs)"
    using sw IH n le' by (intro sint_add_i64; (simp only: split: if_splits; linarith))
  with sw IH show ?case unfolding w by (auto split: if_splits)
qed

lemma post_bag_total:
  assumes e: "engine_inv e" "arenas_le e n" and len: "length (fr_changes fr) < 2 ^ 63"
  shows "total_le (post_bag e fr r) (int (n + length (fr_changes fr)))"
proof -
  let ?chs = "fr_changes fr"
  let ?f = "\<lambda>row. int (length (filter (\<lambda>ch. sc_relation ch = r \<and> sc_row ch = row) ?chs))"
  have "total_le ?f (int (length ?chs))"
    unfolding total_le_def
  proof (intro allI impI)
    fix Y :: "row set" assume Y: "finite Y"
    have "(\<Sum>row\<in>Y. length (filter (\<lambda>ch. sc_relation ch = r \<and> sc_row ch = row) chs)) \<le> length chs" for chs
    proof (induction chs)
      case (Cons ch chs)
      have "(\<Sum>row\<in>Y. length (filter (\<lambda>ch. sc_relation ch = r \<and> sc_row ch = row) (ch # chs))) =
          (\<Sum>row\<in>Y. (if sc_relation ch = r \<and> sc_row ch = row then 1 else 0) + length (filter (\<lambda>ch. sc_relation ch = r \<and> sc_row ch = row) chs))"
        by (intro sum.cong) auto
      also have "\<dots> = (\<Sum>row\<in>Y. if sc_relation ch = r \<and> sc_row ch = row then 1 else 0) +
          (\<Sum>row\<in>Y. length (filter (\<lambda>ch. sc_relation ch = r \<and> sc_row ch = row) chs))"
        by (rule sum.distrib)
      also have "(\<Sum>row\<in>Y. if sc_relation ch = r \<and> sc_row ch = row then 1 else (0::nat)) \<le> 1"
        using Y by (cases "sc_relation ch = r") (simp_all add: sum.delta)
      finally show ?case using Cons by simp
    qed simp
    then show "(\<Sum>row\<in>Y. ?f row) \<le> int (length ?chs)" by (simp flip: of_nat_sum)
  qed
  from total_le_add [OF engine_bag_total [OF e] this]
  have "total_le (\<lambda>row. engine_bag e r row + ?f row) (int (n + length ?chs))" by simp
  moreover have "post_bag e fr r row \<le> engine_bag e r row + ?f row" for row
    using change_weight_le [OF len, of r row] by (simp add: post_bag_def)
  ultimately show ?thesis
    by (rule total_le_smaller)
qed

lemma post_fits:
  assumes "engine_inv e" and "arenas_le e n" and "frontier_ok e fr" and "length (fr_changes fr) < 2 ^ 63"
    and "no_difference p" and "plan_rows (n + length (fr_changes fr)) p < 2 ^ 63"
  shows "plan_fits (post_bag e fr) p"
proof (rule plan_rows_fits [OF _ _ _ assms(5,6)])
  show "0 \<le> post_bag e fr r row" for r row
    using assms(3) by (simp add: frontier_ok_def changes_fit_def post_bag_def engine_bag_def)
  show "zfin (post_bag e fr r)" for r
    unfolding zfin_def post_bag_def engine_bag_def
    by (rule finite_subset [of _ "{row. src_len e r row \<noteq> 0} \<union> {row. change_weight r row (fr_changes fr) \<noteq> 0}"])
      (auto simp: src_len_finite change_weight_finite simp del: neq0_conv)
  show "total_le (post_bag e fr r) (int (n + length (fr_changes fr)))" for r
    by (rule post_bag_total [OF assms(1,2,4)])
qed

lemma plan_rows_mono: "n \<le> m \<Longrightarrow> plan_rows n p \<le> plan_rows m p"
proof (induction p)
  case (PUnion ps)
  then show ?case by (auto intro!: sum_list_mono)
next
  case (PJoin l r a b)
  then have "plan_rows n l \<le> plan_rows m l" "plan_rows n r \<le> plan_rows m r" by auto
  then show ?case by (auto intro: mult_le_mono le_max_iff_disj [THEN iffD2])
qed auto

end
