(* ===== verification/Frontier_Reach.thy ===== *)
theory Frontier_Reach
  imports Frontier_Bound
begin

text \<open>
  The engine's public operations as a transition system: whatever a client does through
  \<open>FrontierEngine\<close>, the representation invariant holds, every stored row has its relation's arity,
  no scope stays open and the next program id is the number of program slots.
\<close>

subsection \<open>Stored rows keep their arity\<close>

definition keeps_typed :: "nat list \<Rightarrow> engine \<Rightarrow> engine \<Rightarrow> bool" where
  "keeps_typed A s t \<longleftrightarrow> (engine_inv s \<longrightarrow> arities s = A \<longrightarrow> engine_inv t \<and> arities t = A \<and> (engine_typed s \<longrightarrow> engine_typed t))"

interpretation kt: st_preorder "keeps_typed A" for A
  by unfold_locales (auto simp: keeps_typed_def)

lemma arities_nth: "r < length (en_relations e) \<Longrightarrow> arities e ! r = rel_arity (en_relations e ! r)"
  by (simp add: arities_def)

lemma length_arities: "length (arities e) = length (en_relations e)"
  by (simp add: arities_def)

lemma src_len_range: "src_len e r row \<noteq> 0 \<Longrightarrow> r < length (en_relations e)"
  by (auto simp: src_len_def vec_get_def split: if_splits)

lemma engine_typed_arities: "engine_typed e \<longleftrightarrow> (\<forall>r row. src_len e r row \<noteq> 0 \<longrightarrow> length row = arities e ! r)"
  using src_len_range [of e] by (fastforce simp: engine_typed_def arities_nth)

lemma same_shape_arities: "same_shape e e' \<Longrightarrow> arities e' = arities e"
  by (simp add: same_shape_def arities_def)

lemma keeps_typed_moved:
  assumes "moved s t r row n" and "n \<noteq> 0 \<longrightarrow> src_len s r row \<noteq> 0 \<or> length row = A ! r"
  shows "keeps_typed A s t"
  using assms same_shape_arities [of s t]
  by (auto simp: keeps_typed_def moved_def engine_typed_arities)

lemma keeps_typed_insert: "length row = A ! r \<Longrightarrow> keeps_typed A s (snd (insert_row r row s))"
proof (cases "engine_inv s \<and> r < length (en_relations s)")
  case True
  assume "length row = A ! r"
  moreover from True obtain slot e' where "insert_row r row s = (Ok slot, e')" "moved s e' r row (Suc (src_len s r row))"
    using insert_row_ok by blast
  ultimately show ?thesis using keeps_typed_moved by auto
next
  case False
  then have "engine_inv s \<longrightarrow> snd (insert_row r row s) = s" by (auto simp: insert_row_def relation_at_def vec_get_def)
  then show ?thesis by (auto simp: keeps_typed_def)
qed

lemma keeps_typed_remove: "keeps_typed A s (snd (remove_row r row s))"
proof (cases "engine_inv s \<and> r < length (en_relations s) \<and> src_len s r row \<noteq> 0")
  case True
  then obtain n where "src_len s r row = Suc n" using not0_implies_Suc by blast
  then obtain slot e' where "remove_row r row s = (Ok (Some slot), e')" "moved s e' r row n"
    using True remove_row_ok by blast
  with True show ?thesis using keeps_typed_moved [of s e' r row n A] by simp
next
  case False
  have "snd (remove_row r row s) = s" if inv: "engine_inv s"
  proof (cases "r < length (en_relations s)")
    case True
    then have "ids_of (en_relations s ! r) row = []" using False inv by (simp add: src_len_def)
    moreover have "map_of (rel_by_value (en_relations s ! r)) row \<noteq> Some []"
      using engine_inv_relation [OF inv True] by (simp add: rel_inv_def)
    ultimately have "map_of (rel_by_value (en_relations s ! r)) row = None"
      by (auto simp: ids_of_def split: option.splits)
    with True show ?thesis by (simp add: remove_row_def relation_at_def)
  qed (simp add: remove_row_def relation_at_def vec_get_def)
  then show ?thesis by (auto simp: keeps_typed_def)
qed

lemma keeps_typed_write_source:
  "(\<And>row w. (row, w) \<in> set net \<Longrightarrow> length row = A ! r) \<Longrightarrow> keeps_typed A s (snd (write_source r net s))"
  unfolding write_source_def
  by (intro kt.loop) (auto intro!: kt.bind kt.loop kt.pure keeps_typed_insert keeps_typed_remove)

lemma propagate_relations [simp]: "en_relations (snd (propagate deltas p ps e)) = en_relations e"
  by (auto simp: propagate_def Let_def split: prod.split rust.split)

lemma keeps_typed_propagate: "program_at e p = Ok ps \<Longrightarrow> keeps_typed A e (snd (propagate deltas p ps e))"
  using elogged_propagate [of e p ps deltas]
  by (auto simp: keeps_typed_def elogged_def program_at_Ok_iff engine_typed_arities src_len_def arities_def)

lemma consolidated_rows:
  assumes "(r, m) \<in> set (consolidate chs)" and "(row, w) \<in> set m"
  shows "\<exists>ch \<in> set chs. sc_relation ch = r \<and> sc_row ch = row"
proof -
  have inv: "cons_inv (consolidate chs)" by (rule consolidate_ok(1))
  have m: "net_of (consolidate chs) r = m" using net_of_mem [OF inv assms(1)] by simp
  then have ok: "bt_weights_ok m" using cons_inv_net_of [OF inv, of r] by simp
  then have "map_of m row = Some w"
    using assms(2) bt_inv_distinct [of row_key m] by (simp add: bt_weights_ok_def)
  then have "zget m row \<noteq> 0"
    using ok assms(2) by (auto simp: bt_weights_ok_def nonzero_def zget_def)
  then have "change_weight r row chs \<noteq> 0" using m consolidate_ok(2) [of chs r row] by simp
  then show ?thesis by (blast dest: change_weight_nonzeroD)
qed

lemma keeps_typed_apply_frontier: "keeps_typed (arities e) e (snd (apply_frontier p fr e))"
proof -
  have "keeps_typed (arities e) e (snd (st_bind (st_for ns (\<lambda>(r, net). write_source r net)) (\<lambda>_. propagate ns p ps) e))"
    if ps: "program_at e p = Ok ps" and typed: "changes_typed e (fr_changes fr)" and ns: "ns = consolidate (fr_changes fr)" for ns ps
  proof -
    obtain r e1 where w: "st_for ns (\<lambda>(r, net). write_source r net) e = (r, e1)"
      by (cases "st_for ns (\<lambda>(r, net). write_source r net) e")
    have len: "length row = arities e ! r" if "(r, m) \<in> set ns" "(row, w) \<in> set m" for r m row w
      using consolidated_rows [of r m "fr_changes fr" row w] that typed by (auto simp: ns changes_typed_def arities_nth)
    have "keeps_typed (arities e) e (snd (st_for ns (\<lambda>(r, net). write_source r net) e))"
      using len by (intro kt.loop) (auto intro!: keeps_typed_write_source)
    moreover have "same_programs e (snd (st_for ns (\<lambda>(r, net). write_source r net) e))"
      by (intro sp.loop) (auto intro: same_programs_write_source)
    ultimately have e1: "keeps_typed (arities e) e e1" "program_at e1 p = Ok ps"
      using ps by (simp_all add: w same_programs_def program_at_def)
    with keeps_typed_propagate [OF e1(2)] show ?thesis
      by (cases r) (auto simp: st_bind_def w intro: kt.R_trans)
  qed
  moreover have "keeps_typed (arities e) e (e\<lparr>en_frontiers_applied := n\<rparr>)" for n
    by (simp add: keeps_typed_def engine_typed_def src_len_def arities_def)
  ultimately show ?thesis
    unfolding apply_frontier_def Let_def
    by (auto split: rust.split simp: rust_simps kt.R_refl validate_fold)
qed

subsection \<open>Program slots\<close>

definition keeps_slots :: "engine \<Rightarrow> engine \<Rightarrow> bool" where
  "keeps_slots s t \<longleftrightarrow> length (en_programs t) = length (en_programs s) \<and> en_next_program t = en_next_program s"

interpretation ks: st_preorder keeps_slots
  by unfold_locales (auto simp: keeps_slots_def)

lemma keeps_slots_rows: "keeps_slots e (snd (insert_row r row e))" "keeps_slots e (snd (remove_row r row e))"
  by (auto simp: keeps_slots_def insert_row_def remove_row_def push_undo_def put_relation_def Let_def
      split: rust.split prod.split option.split)

lemma keeps_slots_write_source: "keeps_slots e (snd (write_source r net e))"
  unfolding write_source_def
  by (intro ks.loop) (auto intro!: ks.bind ks.loop ks.pure keeps_slots_rows)

lemma keeps_slots_propagate: "keeps_slots e (snd (propagate deltas p ps e))"
  by (auto simp: keeps_slots_def propagate_def Let_def split: prod.split rust.split)

lemma keeps_slots_apply_frontier: "keeps_slots e (snd (apply_frontier p fr e))"
proof -
  have "keeps_slots e (snd (st_bind (st_for ns (\<lambda>(r, net). write_source r net)) (\<lambda>_. propagate ns p ps) e))" for ns ps
    by (intro ks.bind ks.loop) (auto intro: keeps_slots_write_source keeps_slots_propagate)
  moreover have "keeps_slots e (e\<lparr>en_frontiers_applied := n\<rparr>)" for n by (simp add: keeps_slots_def)
  ultimately show ?thesis
    unfolding apply_frontier_def Let_def by (auto split: rust.split simp: ks.R_refl)
qed

lemma engine_eq_slots: "engine_eq a b \<Longrightarrow> keeps_slots b a"
  by (auto simp: engine_eq_def keeps_slots_def dest: list_all2_lengthD)

lemma engine_eq_src_len:
  assumes "engine_eq a b"
  shows "src_len a = src_len b" "arities a = arities b"
proof -
  have l: "length (en_relations a) = length (en_relations b)"
    using assms by (auto simp: engine_eq_def dest: list_all2_lengthD)
  show "src_len a = src_len b"
    using engine_eq_relation [OF assms] l by (auto simp: src_len_def fun_eq_iff vec_get_def rel_eq_def ids_of_def)
  show "arities a = arities b"
    using engine_eq_relation [OF assms] l by (auto simp: arities_def rel_eq_def intro!: nth_equalityI)
qed

subsection \<open>Scopes keep the invariant\<close>

definition engine_wf :: "engine \<Rightarrow> bool" where
  "engine_wf e \<longleftrightarrow> engine_inv e \<and> engine_typed e \<and> en_next_program e = length (en_programs e)"

lemma engine_wf_book [simp]:
  "engine_wf (e\<lparr>en_journal := j\<rparr>) = engine_wf e" "engine_wf (e\<lparr>en_marks := m\<rparr>) = engine_wf e"
  "engine_wf (scope_open e) = engine_wf e"
  by (simp_all add: engine_wf_def engine_typed_def src_len_def scope_open_def)

lemma engine_wf_eq: "engine_inv a \<Longrightarrow> engine_eq a b \<Longrightarrow> engine_wf b \<Longrightarrow> engine_wf a"
  using engine_eq_src_len [of a b] engine_eq_slots [of a b]
  by (simp add: engine_wf_def engine_typed_arities keeps_slots_def)

lemma apply_frontier_wf: "engine_wf e \<Longrightarrow> engine_wf (snd (apply_frontier p fr e))"
  using keeps_typed_apply_frontier [of e p fr] keeps_slots_apply_frontier [of e p fr]
  by (simp add: engine_wf_def keeps_typed_def keeps_slots_def)

lemma pop_mark_wf: "pop_mark e = Ok (m, e') \<Longrightarrow> engine_wf e' = engine_wf e"
  by (auto simp: pop_mark_def split: if_splits)

lemma apply_scoped_wf:
  assumes wf: "engine_wf e" and r: "apply_scoped p fr e = Ok (result, e')"
  shows "engine_wf e'"
proof (cases result)
  case (Err er)
  have "engine_inv e" using wf by (simp add: engine_wf_def)
  with r Err show ?thesis
    using apply_scoped_elogged [OF _ r] engine_wf_eq [OF _ _ wf, of e'] by (auto simp: elogged_def)
next
  case (Ok ds)
  obtain a e1 where a: "apply_frontier p fr (scope_open e) = (a, e1)" by (cases "apply_frontier p fr (scope_open e)")
  have "engine_wf e1" using apply_frontier_wf [of "scope_open e" p fr] wf by (simp add: a)
  moreover have "\<exists>m. pop_mark e1 = Ok (m, e')"
    using r Ok by (cases a) (auto simp: apply_scoped_def a rust_simps)
  ultimately show ?thesis using pop_mark_wf by blast
next
  case Panic
  obtain a e1 where a: "apply_frontier p fr (scope_open e) = (a, e1)" by (cases "apply_frontier p fr (scope_open e)")
  with r Panic show ?thesis by (cases a) (auto simp: apply_scoped_def a rust_simps)
qed

lemma run_ops_wf:
  "engine_wf e \<Longrightarrow> run_op op e = Ok e' \<Longrightarrow> engine_wf e'"
  "engine_wf e \<Longrightarrow> run_ops ops e = Ok e' \<Longrightarrow> engine_wf e'"
proof (induction op e and ops e arbitrary: e' and e' rule: run_op_run_ops.induct)
  case (1 p fr e)
  then show ?case by (auto simp: rust_simps dest: apply_scoped_wf)
next
  case (2 ops keep e)
  from 2(3) obtain e1 where e1: "run_ops ops (scope_open e) = Ok e1" "(if keep then scope_commit else scope_rollback) e1 = Ok e'"
    by (auto simp: rust_simps)
  have inv: "engine_inv e" using 2(2) by (simp add: engine_wf_def)
  then have "engine_inv (scope_open e)" by (simp add: scope_open_def)
  then have "elogged (scope_open e) e1" by (rule run_ops_elogged(2) [OF _ e1(1)])
  from elogged_open_close [OF this inv] obtain us e2 e3 where
    x: "pop_mark e1 = Ok (length (en_journal e), e2)" "unwind (length (en_journal e)) e2 = Ok e3" "engine_inv e3" "engine_eq e3 e"
    by blast
  have "engine_wf e1" using 2(1) [OF _ e1(1)] 2(2) by simp
  then have "engine_wf e2" using x(1) pop_mark_wf by blast
  moreover have "engine_wf e3" using engine_wf_eq [OF x(3,4) 2(2)] .
  ultimately show ?case
    using e1(2) x(1,2) by (auto simp: scope_commit_def scope_rollback_def split: if_splits)
qed (auto simp: rust_simps)

subsection \<open>The engine as a transition system\<close>

lemma nodes_inv_snoc [simp]: "nodes_inv (ns @ [n]) \<longleftrightarrow> nodes_inv ns \<and> node_inv n"
  by (auto simp: nodes_inv_def)

lemma empty_maps_inv [simp]: "hm_inv []" "index_inv []"
  by (simp_all add: index_inv_def hm_inv_def)

lemma build_node_inv:
  "build_node e p a = Ok (i, a') \<Longrightarrow> nodes_inv (fst a) \<Longrightarrow> nodes_inv (fst a')"
  "build_nodes e ps a = Ok (is, a') \<Longrightarrow> nodes_inv (fst a) \<Longrightarrow> nodes_inv (fst a')"
proof (induction p a and ps a arbitrary: i a' and "is" a' rule: build_node_build_nodes.induct)
  case (3 e l r x y a)
  then obtain j a1 k a2 where c: "build_node e l a = Ok (j, a1)" "build_node e r a1 = Ok (k, a2)"
      "push_node (NJoin j k x y [] [] []) a2 = (i, a')"
    by (auto simp: rust_simps not_le split: if_splits)
  with 3 have "nodes_inv (fst a2)" by (auto simp: rust_simps not_le split: if_splits)
  with c show ?case by (auto simp: push_node_eq)
next
  case (4 e q gb cnt sm a)
  then obtain j a1 where c: "build_node e q a = Ok (j, a1)" "push_node (NAggregate j gb cnt sm []) a1 = (i, a')"
    by (auto simp: rust_simps Let_def split: if_splits)
  with 4 have "nodes_inv (fst a1)" by (auto simp: rust_simps Let_def split: if_splits)
  with c show ?case by (auto simp: push_node_eq)
next
  case (5 e q cs a)
  then obtain j a1 where c: "build_node e q a = Ok (j, a1)" "push_node (NProject j cs []) a1 = (i, a')"
    by (auto simp: rust_simps Let_def split: if_splits)
  with 5 have "nodes_inv (fst a1)" by (auto simp: rust_simps Let_def split: if_splits)
  with c show ?case by (auto simp: push_node_eq)
next
  case (8 e p ps a)
  then obtain j a1 js where c: "build_node e p a = Ok (j, a1)" "build_nodes e ps a1 = Ok (js, a')"
    by (auto simp: rust_simps)
  with 8 show ?case by blast
qed (auto simp: rust_simps push_node_eq)

lemma build_outputs_inv: "build_outputs e ds a = Ok (os, a') \<Longrightarrow> nodes_inv (fst a) \<Longrightarrow> nodes_inv (fst a')"
proof (induction ds arbitrary: a os)
  case (Cons d ds)
  then obtain root a1 os' where c: "name_output (decl_name d) (build_node e (decl_plan d) a) = Ok (root, a1)"
    "build_outputs e ds a1 = Ok (os', a')"
    by (auto simp: rust_simps)
  then have "build_node e (decl_plan d) a = Ok (root, a1)"
    by (cases "build_node e (decl_plan d) a") auto
  then have "nodes_inv (fst a1)" using build_node_inv(1) Cons.prems(2) by blast
  with Cons.IH [OF c(2)] show ?case .
qed simp

lemma install_wf:
  assumes wf: "engine_wf e" and r: "install prog e = Ok (p, e')"
  shows "engine_wf e' \<and> p = en_next_program e \<and> en_next_program e' = Suc (en_next_program e) \<and> en_marks e' = en_marks e"
proof -
  obtain os ns deps where b: "build_outputs e (prog_outputs prog) ([], []) = Ok (os, ns, deps)"
    using r by (auto simp: install_def rust_simps)
  have ns: "nodes_inv ns" using build_outputs_inv [OF b] by (simp add: nodes_inv_def)
  have len: "en_next_program e = length (en_programs e)" using wf by (simp add: engine_wf_def)
  from r b ns wf show ?thesis
    by (auto simp: install_def rust_simps Let_def engine_wf_def engine_inv_def engine_typed_def src_len_def len
        list_update_append split: if_splits)
qed

lemma install_not_Panic: "engine_wf e \<Longrightarrow> install prog e \<noteq> Panic"
proof -
  assume "engine_wf e"
  moreover have "build_outputs e ds a \<noteq> Panic" for ds a
  proof (induction ds arbitrary: a)
    case (Cons d ds)
    have "name_output (decl_name d) (build_node e (decl_plan d) a) \<noteq> Panic"
      using build_node_not_Panic(1) [of e "decl_plan d" a] by (cases "build_node e (decl_plan d) a") auto
    with Cons show ?case by (auto simp: rust_simps)
  qed simp
  ultimately show ?thesis
    by (auto simp: install_def rust_simps Let_def engine_wf_def)
qed

inductive engine_reach :: "engine \<Rightarrow> bool" where
  reach_new: "engine_reach engine_new"
| reach_define: "engine_reach e \<Longrightarrow> engine_reach (snd (define_relation name arity e))"
| reach_install: "engine_reach e \<Longrightarrow> install prog e = Ok (p, e') \<Longrightarrow> engine_reach e'"
| reach_uninstall: "engine_reach e \<Longrightarrow> uninstall p e = Ok e' \<Longrightarrow> engine_reach e'"
| reach_apply: "engine_reach e \<Longrightarrow> engine_apply p fr e = Ok (result, e') \<Longrightarrow> engine_reach e'"
| reach_scope: "engine_reach e \<Longrightarrow> run_op (OpScope ops keep) e = Ok e' \<Longrightarrow> engine_reach e'"

lemma engine_apply_scoped: "engine_apply p fr e = apply_scoped p fr e"
  by (auto simp: engine_apply_def apply_scoped_def scope_open_def Let_def pop_mark_def split: prod.split rust.split)

lemma define_relation_wf: "engine_wf e \<Longrightarrow> engine_wf (snd (define_relation name arity e))"
proof -
  assume wf: "engine_wf e"
  let ?e = "snd (define_relation name arity e)"
  have "rel_inv (relation_new name arity)"
    by (auto simp: rel_inv_def relation_new_def hm_inv_def ids_of_def slots_def)
  moreover have "src_len ?e r row = src_len e r row" for r row
    by (auto simp: src_len_def define_relation_def vec_get_def nth_append relation_new_def ids_of_def)
  moreover have "arities ?e ! r = arities e ! r" if "r < length (en_relations e)" for r
    using that by (simp add: arities_def define_relation_def nth_append)
  ultimately show ?thesis
    using wf src_len_range [of e]
    by (auto simp: engine_wf_def engine_inv_def engine_typed_arities define_relation_def)
qed

lemma uninstall_wf: "engine_wf e \<Longrightarrow> uninstall p e = Ok e' \<Longrightarrow> engine_wf e' \<and> en_marks e' = en_marks e"
  using set_update_subset_insert [of "en_programs e" p None]
  by (auto simp: uninstall_def rust_simps engine_wf_def engine_inv_def engine_typed_def src_len_def)

lemma engine_reach_wf: "engine_reach e \<Longrightarrow> engine_wf e \<and> en_marks e = []"
proof (induction rule: engine_reach.induct)
  case reach_new
  show ?case by (simp add: engine_new_def engine_wf_def engine_inv_def engine_typed_def src_len_def vec_get_def)
next
  case (reach_define e name arity)
  then show ?case using define_relation_wf by (simp add: define_relation_def)
next
  case (reach_install e prog p e')
  then show ?case using install_wf by metis
next
  case (reach_uninstall e p e')
  then show ?case using uninstall_wf by metis
next
  case (reach_apply e p fr result e')
  then have "apply_scoped p fr e = Ok (result, e')" "engine_inv e" by (simp_all add: engine_apply_scoped engine_wf_def)
  with reach_apply show ?case using apply_scoped_wf apply_scoped_elogged [of e p fr result e'] by (auto simp: elogged_def)
next
  case (reach_scope e ops keep e')
  then have "engine_wf e'" "elogged e e'"
    using run_ops_wf(1) [OF _ reach_scope(2)] run_ops_elogged(1) [OF _ reach_scope(2)] reach_scope(3) by (simp_all add: engine_wf_def)
  with reach_scope show ?case by (simp add: elogged_def engine_wf_def)
qed

end
