(* ===== verification/Frontier_Theorems.thy ===== *)
theory Frontier_Theorems
  imports Frontier_Reach
begin

text \<open>
  The properties of the frontier engine: what \<open>apply\<close> returns and leaves behind on every outcome,
  what a scope restores, what a snapshot shows, and where the join's delta rule is not the
  difference of the joins.
\<close>

subsection \<open>Opening the scope of an autocommit frontier\<close>

lemma scope_open_same [simp]:
  "en_relations (scope_open e) = en_relations e" "en_programs (scope_open e) = en_programs e"
  "program_at (scope_open e) p = program_at e p" "arities (scope_open e) = arities e"
  "src_len (scope_open e) = src_len e" "engine_inv (scope_open e) = engine_inv e"
  "engine_typed (scope_open e) = engine_typed e" "len_ok (scope_open e) = len_ok e"
  "program_ok (scope_open e) p ds = program_ok e p ds" "frontier_ok (scope_open e) fr = frontier_ok e fr"
  "touches (scope_open e) p fr = touches e p fr" "post_src (scope_open e) fr = post_src e fr"
  by (simp_all add: scope_open_def program_at_def arities_def src_len_def engine_typed_def len_ok_def program_ok_def
      frontier_ok_def changes_typed_def changes_fit_def touches_def post_src_def fun_eq_iff)

lemma pop_mark_after:
  assumes "engine_inv e" and "apply_frontier p fr (scope_open e) = (r, e1)"
  shows "pop_mark e1 = Ok (length (en_journal e), e1\<lparr>en_marks := en_marks e\<rparr>)"
proof -
  have "elogged (scope_open e) e1" using elogged_apply_frontier [of "scope_open e" p fr] assms(2) by simp
  with assms(1) show ?thesis by (auto simp: elogged_def pop_mark_def scope_open_def)
qed

lemma program_ok_marks [simp]: "program_ok (e\<lparr>en_marks := m\<rparr>) p ds = program_ok e p ds"
  by (simp add: program_ok_def program_at_def arities_def)

lemma src_len_marks [simp]: "src_len (e\<lparr>en_marks := m\<rparr>) = src_len e"
  by (simp add: src_len_def fun_eq_iff)

lemma engine_bag_marks [simp]: "engine_bag (e\<lparr>en_marks := m\<rparr>) = engine_bag e"
  by (simp add: engine_bag_def fun_eq_iff)

definition bag_flips :: "(row \<Rightarrow> int) \<Rightarrow> (row \<Rightarrow> int) \<Rightarrow> output_change list \<Rightarrow> bool" where
  "bag_flips z z' cs \<longleftrightarrow> sorted_by (\<lambda>a b. row_cmp (oc_row a) (oc_row b)) cs \<and> distinct (map oc_row cs) \<and>
     (\<forall>row. (\<lparr>oc_sign = Plus, oc_row = row\<rparr> \<in> set cs \<longleftrightarrow> z row = 0 \<and> 0 < z' row) \<and>
            (\<lparr>oc_sign = Minus, oc_row = row\<rparr> \<in> set cs \<longleftrightarrow> 0 < z row \<and> z' row = 0))"

definition output_flips :: "(nat \<Rightarrow> row \<Rightarrow> int) \<Rightarrow> (nat \<Rightarrow> row \<Rightarrow> int) \<Rightarrow> output_decl \<Rightarrow> output_delta \<Rightarrow> bool" where
  "output_flips bag bag' d od \<longleftrightarrow> od_output od = decl_name d \<and>
     bag_flips (bag_sem bag (decl_plan d)) (bag_sem bag' (decl_plan d)) (od_changes od)"

lemma post_len_bag:
  assumes "frontier_ok e fr" and "src_len e' = post_len e (consolidate (fr_changes fr))"
  shows "engine_bag e' = post_bag e fr"
  using assms
  by (auto simp: engine_bag_def post_bag_def post_len_def plus_weight_def consolidate_ok(2) fun_eq_iff
      frontier_ok_def changes_fit_def)

lemma flips_bag:
  assumes nn: "\<And>r row. 0 \<le> bag r row" "\<And>r row. 0 \<le> bag' r row" and fits: "plan_fits bag p" "plan_fits bag' p"
    and f: "flips (\<lambda>row. of_int (bag_sem bag p row)) (\<lambda>row. of_int (bag_sem bag' p row)) cs"
  shows "bag_flips (bag_sem bag p) (bag_sem bag' p) cs"
proof -
  have "\<not> 0 < bag_sem bag p row \<longleftrightarrow> bag_sem bag p row = 0" "\<not> 0 < bag_sem bag' p row \<longleftrightarrow> bag_sem bag' p row = 0" for row
    using bag_sem_nonneg [of bag p row, OF nn(1)] bag_sem_nonneg [of bag' p row, OF nn(2)] by linarith+
  with f show ?thesis
    unfolding flips_def bag_flips_def visible_bag [OF nn(1) fits(1)] visible_bag [OF nn(2) fits(2)] by auto
qed

lemma post_bag_nonneg: "frontier_ok e fr \<Longrightarrow> 0 \<le> post_bag e fr r row"
  by (simp add: frontier_ok_def changes_fit_def post_bag_def engine_bag_def)

lemma applied_frontier:
  assumes wf: "engine_wf e" and arena: "arenas_le e n" and prog: "program_ok e p ds"
    and fr: "frontier_ok e fr" and t: "touches e p fr" and len: "n + length (fr_changes fr) < 2 ^ 63"
    and plans: "\<forall>q \<in> plans ds. plan_rows (n + length (fr_changes fr)) q < 2 ^ 63 \<and>
      plan_safe (source_sem (en_relations e)) (post_src e fr) q"
  shows "\<exists>outs e'. engine_apply p fr e = Ok (Ok outs, e') \<and> engine_wf e' \<and> en_marks e' = en_marks e \<and>
    engine_bag e' = post_bag e fr \<and> program_ok e' p ds \<and>
    list_all2 (output_flips (engine_bag e) (engine_bag e')) ds outs"
proof -
  have inv: "engine_inv e" "engine_typed e" using wf by (simp_all add: engine_wf_def)
  have eok: "engine_ok e" using inv arenas_len_ok [OF inv(1) arena] len by (simp add: engine_ok_def)
  have nd: "no_difference q" if "q \<in> plans ds" for q
    using prog that by (auto simp: program_ok_def dest: plan_ok_no_difference)
  have fits: "plan_fits (engine_bag e) q" "plan_fits (post_bag e fr) q" if "q \<in> plans ds" for q
  proof -
    have "plan_rows n q < 2 ^ 63" using that plans plan_rows_mono [of n "n + length (fr_changes fr)" q] by force
    then show "plan_fits (engine_bag e) q" using engine_fits [OF inv(1) arena nd [OF that]] by blast
    show "plan_fits (post_bag e fr) q" using post_fits [OF inv(1) arena fr _ nd [OF that]] len plans that by simp
  qed
  have ok: "\<forall>q \<in> plans ds. plan_valid (source_sem (en_relations (scope_open e))) q \<and>
      plan_safe (source_sem (en_relations (scope_open e))) (post_src (scope_open e) fr) q"
    using engine_bag_agrees(2) fits(1) plans by simp
  from apply_frontier_ok [of "scope_open e" fr p ds] eok fr prog t ok have
    "(\<exists>outs e1. apply_frontier p fr (scope_open e) = (Ok outs, e1) \<and>
      src_len e1 = post_len (scope_open e) (consolidate (fr_changes fr)) \<and> program_ok e1 p ds \<and>
      list_all2 (output_ok (source_sem (en_relations e)) (post_src e fr)) ds outs)
    \<or> (\<exists>q \<in> plans ds. \<not> plan_valid (post_src e fr) q)"
    unfolding engine_ok_def scope_open_same by blast
  then obtain outs e1 where a: "apply_frontier p fr (scope_open e) = (Ok outs, e1)"
    "src_len e1 = post_len (scope_open e) (consolidate (fr_changes fr))" "program_ok e1 p ds"
    "list_all2 (output_ok (source_sem (en_relations e)) (post_src e fr)) ds outs"
    using post_bag_agrees(2) [OF fr fits(2)] by blast
  have bag: "engine_bag e1 = post_bag e fr"
    using a(2) by (intro post_len_bag [OF fr]) (simp add: post_len_def fun_eq_iff)
  have flip: "output_flips (engine_bag e) (engine_bag e1) d od"
    if "d \<in> set ds" and "output_ok (source_sem (en_relations e)) (post_src e fr) d od" for d od
  proof -
    have q: "decl_plan d \<in> plans ds" using that(1) by (simp add: plans_def)
    note agree = engine_bag_agrees(1) [OF fits(1) [OF q]] post_bag_agrees(1) [OF fr fits(2) [OF q]]
    show ?thesis
      using that(2) flips_bag [OF engine_bag_nonneg post_bag_nonneg [OF fr] fits(1) [OF q] fits(2) [OF q]]
      unfolding output_ok_def output_flips_def agree bag by blast
  qed
  have "list_all2 (output_flips (engine_bag e) (engine_bag e1)) ds outs"
    using a(4) flip by (auto simp: list_all2_conv_all_nth)
  moreover have "engine_wf e1" using apply_frontier_wf [of "scope_open e" p fr] wf a(1) by simp
  ultimately show ?thesis
    using pop_mark_after [OF inv(1) a(1)] a(1,3) bag
    by (auto simp: engine_apply_scoped apply_scoped_def)
qed

text \<open>
  C1: A frontier that passes validation and touches a relation the program reads is applied: the
  stored rows become the old multiset plus the net of the changes, every arrangement of the program
  is maintained to what its plan denotes over the new rows, and the deltas returned for the outputs
  are exactly the rows that appear in or disappear from each output under unbounded bag semantics,
  in row order, each once. This holds under two conditions. Bounds on the arenas and on the rows the
  plans can denote keep every multiplicity below \<open>2 ^ 63\<close>. And every join of the program is safe
  for the frontier (\<open>plan_safe\<close>): no left row the frontier removes entirely has a matching right row
  whose weight it changes, which is when the join's two-term delta rule is exact (\<open>join_delta_rule\<close>);
  without it a valid frontier can be applied wrongly or refused, as the demonstrations below show.
\<close>

theorem frontier_apply_correct:
  assumes wf: "engine_wf e" and arena: "arenas_le e n" and prog: "program_ok e p ds"
    and fr: "frontier_ok e fr" and t: "touches e p fr" and len: "n + length (fr_changes fr) < 2 ^ 63"
    and plans: "\<forall>q \<in> plans ds. plan_rows (n + length (fr_changes fr)) q < 2 ^ 63 \<and>
      plan_safe (source_sem (en_relations e)) (post_src e fr) q"
  shows "\<exists>outs e'. engine_apply p fr e = Ok (Ok outs, e') \<and> engine_wf e' \<and> en_marks e' = en_marks e \<and>
    engine_bag e' = post_bag e fr \<and> program_ok e' p ds \<and>
    list_all2 (output_flips (engine_bag e) (engine_bag e')) ds outs"
  using assms by (rule applied_frontier)

text \<open>
  C2: Rolling a scope back restores the engine, whatever was done inside it: frontiers that
  succeeded or failed, and nested scopes, kept or dropped. Relations, arenas, free lists,
  arrangements, programs, journal and marks are as before it was opened, so every snapshot and every
  source row reads the same.
\<close>

theorem scope_rollback_restores:
  assumes wf: "engine_wf e" and r: "run_op (OpScope ops False) e = Ok e'"
  shows "engine_eq e' e \<and> en_journal e' = en_journal e \<and> en_marks e' = en_marks e \<and> engine_wf e' \<and>
    snapshot p name e' = snapshot p name e \<and> snapshot_support p name e' = snapshot_support p name e \<and>
    source_row k i e' = source_row k i e \<and> source_row_ids k e' = source_row_ids k e"
proof -
  have inv: "engine_inv e" "engine_inv (scope_open e)" using wf by (simp_all add: engine_wf_def)
  from r obtain e1 where e1: "run_ops ops (scope_open e) = Ok e1" "scope_rollback e1 = Ok e'" by (auto simp: rust_simps)
  from elogged_open_close [OF run_ops_elogged(2) [OF inv(2) e1(1)] inv(1)] e1(2) have
    eq: "engine_eq e' e" "en_journal e' = en_journal e" "en_marks e' = en_marks e" "engine_inv e'"
    by (auto simp: scope_rollback_def)
  with snapshot_engine_eq [OF eq(4) inv(1) eq(1)] source_engine_eq [OF eq(1)] show ?thesis
    using engine_wf_eq [OF eq(4,1) wf] by blast
qed

text \<open>
  C3: A frontier that fails, at whatever stage, leaves no trace: the autocommit \<open>apply\<close> returns the
  error and an engine equal to the one it was given.
\<close>

theorem failed_apply_restores:
  assumes wf: "engine_wf e" and r: "engine_apply q fr e = Ok (Err er, e')"
  shows "engine_eq e' e \<and> en_journal e' = en_journal e \<and> en_marks e' = en_marks e \<and> engine_wf e' \<and>
    snapshot p name e' = snapshot p name e \<and> source_row k i e' = source_row k i e \<and>
    source_row_ids k e' = source_row_ids k e"
proof -
  have inv: "engine_inv e" using wf by (simp add: engine_wf_def)
  from r have r': "apply_scoped q fr e = Ok (Err er, e')" by (simp add: engine_apply_scoped)
  from apply_scoped_elogged [OF inv r'] have eq: "engine_eq e' e" "en_journal e' = en_journal e" "en_marks e' = en_marks e" "engine_inv e'"
    using inv by (auto simp: elogged_def)
  with snapshot_engine_eq [OF eq(4) inv eq(1)] source_engine_eq [OF eq(1)] show ?thesis
    using engine_wf_eq [OF eq(4,1) wf] by blast
qed

text \<open>Running frontiers one after the other, each with its outcome.\<close>

fun replay :: "nat \<Rightarrow> frontier list \<Rightarrow> engine \<Rightarrow> (output_delta list fres list \<times> engine) fres" where
  "replay p [] e = Ok ([], e)"
| "replay p (f # fs) e = rust_bind (engine_apply p f e) (\<lambda>(r, e1).
     rust_bind (replay p fs e1) (\<lambda>(rs, e2). Ok (r # rs, e2)))"

text \<open>
  The frontiers of a run each meet the conditions of \<open>applied_frontier\<close> on the engine their
  predecessors leave behind; \<open>run_bag\<close> is the multiset of all their changes.
\<close>

fun good_run :: "nat \<Rightarrow> output_decl list \<Rightarrow> nat \<Rightarrow> engine \<Rightarrow> frontier list \<Rightarrow> bool" where
  "good_run p ds n e [] \<longleftrightarrow> arenas_le e n"
| "good_run p ds n e (fr # frs) \<longleftrightarrow> arenas_le e n \<and> frontier_ok e fr \<and> touches e p fr \<and>
     n + length (fr_changes fr) < 2 ^ 63 \<and>
     (\<forall>q \<in> plans ds. plan_rows (n + length (fr_changes fr)) q < 2 ^ 63 \<and>
        plan_safe (source_sem (en_relations e)) (post_src e fr) q) \<and>
     (case engine_apply p fr e of Ok (_, e1) \<Rightarrow> good_run p ds n e1 frs | _ \<Rightarrow> True)"

definition run_bag :: "frontier list \<Rightarrow> nat \<Rightarrow> row \<Rightarrow> int" where
  "run_bag frs r row = (\<Sum>fr\<leftarrow>frs. sint (change_weight r row (fr_changes fr)))"

lemma good_run_arenas: "good_run p ds n e frs \<Longrightarrow> arenas_le e n"
  by (cases frs) auto

lemma replay_good_run:
  assumes "engine_wf e" and "program_ok e p ds" and "good_run p ds n e frs"
  shows "\<exists>outs e'. replay p frs e = Ok (map Ok outs, e') \<and> engine_wf e' \<and> program_ok e' p ds \<and> arenas_le e' n \<and>
    engine_bag e' = (\<lambda>r row. engine_bag e r row + run_bag frs r row)"
  using assms
proof (induction frs arbitrary: e)
  case Nil
  then show ?case by (auto simp: run_bag_def intro!: exI [of _ "[]"])
next
  case (Cons fr frs)
  obtain outs e1 where a: "engine_apply p fr e = Ok (Ok outs, e1)" "engine_wf e1" "engine_bag e1 = post_bag e fr"
    "program_ok e1 p ds"
    using applied_frontier [OF Cons.prems(1) _ Cons.prems(2), of n fr] Cons.prems(3) by auto
  moreover have "good_run p ds n e1 frs" using Cons.prems(3) a(1) by simp
  ultimately obtain outss e2 where r: "replay p frs e1 = Ok (map Ok outss, e2)" "engine_wf e2" "program_ok e2 p ds"
    "arenas_le e2 n" "engine_bag e2 = (\<lambda>r row. engine_bag e1 r row + run_bag frs r row)"
    using Cons.IH [of e1] by blast
  with a show ?case by (intro exI [of _ "outs # outss"] exI [of _ e2]) (simp add: run_bag_def post_bag_def add.assoc)
qed

lemma snapshot_maintained:
  assumes wf: "engine_wf e" and arena: "arenas_le e n" and n: "n < 2 ^ 63" and prog: "program_ok e p ds"
    and d: "find (\<lambda>d. decl_name d = name) ds = Some d" and rows: "plan_rows n (decl_plan d) < 2 ^ 63"
  shows "\<exists>rows. snapshot p name e = Ok rows \<and> sorted_by row_cmp rows \<and> distinct rows \<and>
    set rows = {row. 0 < bag_sem (engine_bag e) (decl_plan d) row}"
proof -
  have inv: "engine_inv e" "engine_typed e" using wf by (simp_all add: engine_wf_def)
  have eok: "engine_ok e" using inv arenas_len_ok [OF inv(1) arena n] by (simp add: engine_ok_def)
  have "d \<in> set ds" using d by (auto simp: find_Some_iff)
  then have "no_difference (decl_plan d)"
    using prog by (auto simp: program_ok_def plans_def dest: plan_ok_no_difference)
  then have fits: "plan_fits (engine_bag e) (decl_plan d)" using engine_fits [OF inv(1) arena _ rows] by blast
  from snapshot_ok [OF eok prog d engine_bag_agrees(2) [OF fits]] show ?thesis
    unfolding shows_rows_def engine_bag_agrees(1) [OF fits] visible_bag [OF engine_bag_nonneg fits] by blast
qed

lemma install_relations: "install prog e = Ok (p, e') \<Longrightarrow> en_relations e' = en_relations e"
  by (auto simp: install_def rust_simps Let_def split: if_splits)

lemma empty_engine_bag:
  assumes "engine_inv e" and "arenas_le e n" and "n < 2 ^ 63" and "relations_empty e"
  shows "engine_bag e = (\<lambda>_ _. 0)"
proof (intro ext)
  fix r row
  have "int (src_len e r row) < 2 ^ 63" using arenas_len_ok [OF assms(1-3)] by (simp add: len_ok_def)
  then have "sint (of_nat (src_len e r row) :: i64) = int (src_len e r row)"
    using sint_of_int_i64 [of "int (src_len e r row)"] by simp
  moreover have "(of_nat (src_len e r row) :: i64) = 0"
    using assms(4) by (simp add: relations_empty_def source_sem_len)
  ultimately show "engine_bag e r row = 0" by (simp add: engine_bag_def)
qed

text \<open>
  C4: Install a program over relations without rows and run any sequence of frontiers, each of which
  passes validation, touches the program, keeps the multiplicities bounded and is safe for the program's
  joins (\<open>good_run\<close>). Every one of them is accepted, the stored rows are the multiset of all
  the changes, and a snapshot of an output then lists exactly the rows its plan contains over that
  multiset, under unbounded bag semantics, each once and in row order.
\<close>

theorem snapshot_correct:
  assumes wf: "engine_wf e0" and empty: "relations_empty e0" and prog: "install prog e0 = Ok (p, e1)"
    and run: "good_run p (prog_outputs prog) n e1 frs" and n: "n < 2 ^ 63"
    and d: "find (\<lambda>d. decl_name d = name) (prog_outputs prog) = Some d" and rows: "plan_rows n (decl_plan d) < 2 ^ 63"
  shows "\<exists>outs e rows. replay p frs e1 = Ok (map Ok outs, e) \<and> engine_bag e = run_bag frs \<and>
    snapshot p name e = Ok rows \<and> sorted_by row_cmp rows \<and> distinct rows \<and>
    set rows = {row. 0 < bag_sem (run_bag frs) (decl_plan d) row}"
proof -
  have wf1: "engine_wf e1" and ok1: "program_ok e1 p (prog_outputs prog)"
    using install_wf [OF wf prog] install_ok [OF prog empty] by simp_all
  have "relations_empty e1" using empty install_relations [OF prog] by (simp add: relations_empty_def)
  then have bag0: "engine_bag e1 = (\<lambda>_ _. 0)"
    using empty_engine_bag [OF _ good_run_arenas [OF run] n] wf1 by (simp add: engine_wf_def)
  obtain outs e where r: "replay p frs e1 = Ok (map Ok outs, e)" "engine_wf e" "program_ok e p (prog_outputs prog)"
    "arenas_le e n" "engine_bag e = run_bag frs"
    using replay_good_run [OF wf1 ok1 run] unfolding bag0 by auto
  from snapshot_maintained [OF r(2,4) n r(3) d rows] r(1,5) show ?thesis by auto
qed

text \<open>
  C5: Whatever sequence of public operations built the engine, its indexes and free lists agree with
  its arenas, every stored row has its relation's arity, no scope is left open, the next program id
  is fresh, and installing a program does not panic.
\<close>

theorem engine_reach_invariant:
  assumes "engine_reach e"
  shows "engine_wf e \<and> en_marks e = [] \<and> install prog e \<noteq> Panic \<and> vec_get (en_programs e) (en_next_program e) = None"
  using engine_reach_wf [OF assms] install_not_Panic [of e prog] by (auto simp: engine_wf_def vec_get_def)

lemma install_plans_ok: "install prog e = Ok (p, e') \<Longrightarrow> q \<in> plans (prog_outputs prog) \<Longrightarrow> plan_ok (arities e) q"
  by (auto simp: install_def rust_simps dest: build_outputs_hold)

text \<open>
  C6: Over any engine, \<open>install\<close> accepts a program only when every column its plans name is in range
  for the arities of the stored relations and no plan holds a difference; it takes the next id and
  leaves the relations and the well-formedness of the engine as they are. When the relations hold no
  rows, the installed program is correct: every arrangement is what its plan denotes.
\<close>

theorem install_correct:
  assumes wf: "engine_wf e" and r: "install prog e = Ok (p, e')"
  shows "p = en_next_program e \<and> engine_wf e' \<and> en_relations e' = en_relations e \<and>
    (\<forall>q \<in> plans (prog_outputs prog). plan_ok (arities e) q \<and> no_difference q) \<and>
    (relations_empty e \<longrightarrow> program_ok e' p (prog_outputs prog))"
  using install_wf [OF wf r] install_ok [OF r] install_plans_ok [OF r] install_relations [OF r]
  by (auto dest: plan_ok_no_difference)

text \<open>
  A frontier that names an unknown relation, a row of the wrong width or more removals of a row
  than are present is rejected with a validation error and the engine is not written at all.
\<close>

theorem invalid_frontier_rejected:
  assumes wf: "engine_wf e" and arena: "arenas_le e n" and n: "n < 2 ^ 63" and bad: "\<not> frontier_ok e fr"
  shows "\<exists>er. engine_apply p fr e = Ok (Err er, e) \<and> fe_stage er = Validate"
proof -
  have inv: "engine_inv e" using wf by (simp add: engine_wf_def)
  have len: "len_ok (scope_open e)" using arenas_len_ok [OF inv arena n] by simp
  obtain er where er: "apply_frontier p fr (scope_open e) = (Err er, scope_open e)" "fe_stage er = Validate"
    using apply_frontier_rejected [OF len, of fr p] bad by auto
  have pm: "pop_mark (scope_open e) = Ok (length (en_journal e), e)"
    using pop_mark_after [OF inv er(1)] by (simp add: scope_open_def)
  have "unwind (length (en_journal e)) e = Ok e" by (simp add: unwind_def)
  with er pm show ?thesis by (simp add: engine_apply_scoped apply_scoped_def)
qed

text \<open>
  A valid frontier that touches only relations the program does not read is acknowledged with
  empty deltas, and none of its rows is stored.
\<close>

theorem uncovered_frontier_not_stored:
  assumes wf: "engine_wf e" and arena: "arenas_le e n" and n: "n < 2 ^ 63" and fr: "frontier_ok e fr"
    and ps: "program_at e p = Ok ps" and t: "\<not> touches e p fr"
  shows "engine_apply p fr e =
    Ok (Ok (map (\<lambda>os. \<lparr>od_output = os_name os, od_changes = []\<rparr>) (ps_outputs ps)),
        e\<lparr>en_frontiers_applied := en_frontiers_applied e + 1\<rparr>)"
proof -
  have inv: "engine_inv e" using wf by (simp add: engine_wf_def)
  have len: "len_ok (scope_open e)" using arenas_len_ok [OF inv arena n] by simp
  have "apply_frontier p fr (scope_open e) = (Ok (map (\<lambda>os. \<lparr>od_output = os_name os, od_changes = []\<rparr>) (ps_outputs ps)),
      (scope_open e)\<lparr>en_frontiers_applied := en_frontiers_applied (scope_open e) + 1\<rparr>)"
    using apply_frontier_checked [OF len, of fr p ps] fr ps t by simp
  then show ?thesis
    using pop_mark_after [OF inv] by (simp add: engine_apply_scoped apply_scoped_def scope_open_def)
qed

definition changes_of :: "sign \<Rightarrow> nat \<Rightarrow> row \<Rightarrow> source_change list \<Rightarrow> nat" where
  "changes_of sg r row chs = length (filter (\<lambda>ch. sc_relation ch = r \<and> sc_row ch = row \<and> sc_sign ch = sg) chs)"

lemma change_weight_count:
  "change_weight r row chs = of_nat (changes_of Plus r row chs) - of_nat (changes_of Minus r row chs)"
proof (induction chs)
  case (Cons ch chs)
  then show ?case by (cases "sc_sign ch") (auto simp: change_weight_def changes_of_def)
qed (simp add: change_weight_def changes_of_def)

text \<open>
  Consolidation nets a list of changes: one entry per relation that occurs, in ascending order
  of relation; in it the rows in row order, each once and with its number of insertions minus its
  number of deletions, rows whose changes cancel dropped.
\<close>

theorem consolidate_nets_changes:
  "bt_inv (\<lambda>k::nat. k) (consolidate chs) \<and> fst ` set (consolidate chs) = sc_relation ` set chs \<and>
   (\<forall>m \<in> snd ` set (consolidate chs). bt_weights_ok m) \<and>
   (\<forall>r row. zget (net_of (consolidate chs) r) row =
      of_nat (changes_of Plus r row chs) - of_nat (changes_of Minus r row chs))"
  using consolidate_ok [of chs] by (simp add: cons_inv_def change_weight_count)

text \<open>
  Row slots are recycled last in, first out: the slot a removal frees is the slot the next
  insertion takes, and the removal of a row takes its most recent copy.
\<close>

theorem row_slots_lifo:
  assumes r: "insert_row r row e = (Ok slot, e1)"
  shows "\<exists>e2 e3. remove_row r row e1 = (Ok (Some slot), e2) \<and> insert_row r row' e2 = (Ok slot, e3) \<and>
    source_row r slot e3 = Ok (Some row')"
proof -
  have rl: "r < length (en_relations e)"
    using r by (auto simp: insert_row_def relation_at_def vec_get_def split: if_splits)
  obtain recycled rel' where ins: "insert_slot row (en_relations e ! r) = (slot, recycled, rel')"
    and slot: "slot < length (rel_rows rel')"
    and e1: "e1 = push_undo (UInsert r slot recycled) (put_relation r rel' e)"
    using r rl by (auto simp: insert_row_def relation_at_def split: prod.splits if_splits)
  have bv: "\<exists>ids. map_of (rel_by_value rel') row = Some (ids @ [slot])"
    using ins by (auto simp: insert_slot_def Let_def split: if_splits)
  then obtain ids where ids: "map_of (rel_by_value rel') row = Some (ids @ [slot])" ..
  have at1: "relation_at e1 r st = Ok rel'" for st
    using rl by (simp add: e1 push_undo_def put_relation_def)
  then obtain e2 rel2 where e2: "remove_row r row e1 = (Ok (Some slot), e2)"
    "e2 = push_undo (URemove r slot row) (put_relation r rel2 e1)"
    "rel_free rel2 = rel_free rel' @ [slot]" "length (rel_rows rel2) = length (rel_rows rel')"
    using ids slot by (simp add: remove_row_def Let_def)
  have at2: "relation_at e2 r st = Ok rel2" for st
    using rl by (simp add: e2(2) e1 push_undo_def put_relation_def)
  obtain rel3 where i3: "insert_slot row' rel2 = (slot, True, rel3)" "rel_rows rel3 = (rel_rows rel2)[slot := Some row']"
    using e2(3) by (simp add: insert_slot_def Let_def)
  then have "insert_row r row' e2 = (Ok slot, push_undo (UInsert r slot True) (put_relation r rel3 e2))"
    unfolding insert_row_def at2 using slot e2(4) by simp
  moreover have "source_row r slot (push_undo (UInsert r slot True) (put_relation r rel3 e2)) = Ok (Some row')"
    using rl i3(2) slot e2(4) by (simp add: source_row_def relation_at_def push_undo_def put_relation_def e2(2) e1 vec_get_def)
  ultimately show ?thesis using e2(1) by blast
qed

lemma join_delta_rule:
  assumes li: "index_are li a zl'" and ri: "index_are ri b zr'"
    and fin: "zfin zl" "zfin zl'" "zfin zr" "zfin zr'"
    and dl: "delta_ok dl zl zl'" and dr: "delta_ok dr zr zr'"
    and len: "\<forall>x \<in> set dl. a < length (fst x)" "\<forall>x \<in> set dr. b < length (fst x)"
    and node: "vec_get (pr_nodes s) i = Some (NJoin l r a b c li ri)"
  shows "\<exists>out. join_delta i dl dr a b s = Ok out \<and> weights_ok out \<and>
    (\<forall>row. zget out row = (zjoin a b zl' zr' row - zjoin a b zl zr row) -
       zjoin a b (\<lambda>x. if zl' x = 0 then zl x else 0) (\<lambda>y. zr' y - zr y) row)"
proof -
  obtain o1 where o1: "join_term1 ri dl a [] = Ok o1" "weights_ok o1" "zget o1 = (\<lambda>row. zjoin a b (zget dl) zr' row)"
    using join_term1_ok [OF ri fin(4) delta_ok_distinct [OF dl] weights_ok_Nil, of a] len(1) by auto
  obtain o2 where o2: "join_term2 li dl dr b o1 = Ok o2" "weights_ok o2"
    "zget o2 = (\<lambda>row. zget o1 row + zjoin a b (zkept zl zl') (zget dr) row)"
    using join_term2_ok [OF li fin(1,2) dl delta_ok_distinct [OF dr] o1(2), of b] len(2) by auto
  have d: "zget dl = (\<lambda>x. zl' x - zl x)" "zget dr = (\<lambda>x. zr' x - zr x)"
    using dl dr by (simp_all add: delta_ok_def)
  have gone: "(\<lambda>x. if zl' x = 0 then zl x else 0) = (\<lambda>x. zl x - zkept zl zl' x)"
    by (simp add: zkept_def fun_eq_iff)
  have "zfin (\<lambda>y. zr' y - zr y)" using fin by (intro zfin_diff)
  then have "zget o2 row = (zjoin a b zl' zr' row - zjoin a b zl zr row) -
      zjoin a b (\<lambda>x. zl x - zkept zl zl' x) (\<lambda>y. zr' y - zr y) row" for row
    unfolding o2(3) o1(3) d using fin zfin_zkept [OF fin(1)]
    by (simp add: zjoin_diff_left zjoin_diff_right)
  with o1 o2 node show ?thesis unfolding gone by (intro exI [of _ o2]) (simp add: join_delta_def)
qed

lemma zjoin_pair:
  assumes fin: "zfin zl" "zfin zr" and len: "\<And>u. zl u \<noteq> 0 \<Longrightarrow> length u = length x"
  shows "zjoin a b zl zr (x @ y) = (if x ! a = y ! b then zl x * zr y else 0)"
proof -
  have "zint zr (\<lambda>v. if u ! a = v ! b \<and> u @ v = x @ y then 1 else 0) =
      (if u = x \<and> x ! a = y ! b then zr y else 0)" if "zl u \<noteq> 0" for u
  proof -
    have "(u @ v = x @ y) = (u = x \<and> v = y)" for v using len [OF that] by auto
    then have "zint zr (\<lambda>v. if u ! a = v ! b \<and> u @ v = x @ y then 1 else 0) =
        zint zr (\<lambda>v. if v = y then (if u = x \<and> x ! a = y ! b then 1 else 0) else 0)"
      by (intro zint_cong) auto
    then show ?thesis using zint_point [OF fin(2), of y] by simp
  qed
  then have "zjoin a b zl zr (x @ y) = zint zl (\<lambda>u. if u = x then (if x ! a = y ! b then zr y else 0) else 0)"
    unfolding zjoin_def by (intro zint_cong) auto
  then show ?thesis using zint_point [OF fin(1), of x] by simp
qed

text \<open>
  C7: What the join's delta rule computes in general. After both sides' indexes have moved, the
  two terms add up to the change of the join minus one term: the old weights of the left rows the
  frontier removes entirely, joined with the change of the right side, because the second term
  enumerates the left index after the frontier. The rule is exact when that product is empty.
\<close>

theorem join_delta_exact:
  assumes li: "index_are li a zl'" and ri: "index_are ri b zr'"
    and fin: "zfin zl" "zfin zl'" "zfin zr" "zfin zr'"
    and dl: "delta_ok dl zl zl'" and dr: "delta_ok dr zr zr'"
    and len: "\<forall>x \<in> set dl. a < length (fst x)" "\<forall>x \<in> set dr. b < length (fst x)"
    and node: "vec_get (pr_nodes s) i = Some (NJoin l r a b c li ri)"
  shows "\<exists>out. join_delta i dl dr a b s = Ok out \<and> weights_ok out \<and>
    (\<forall>row. zget out row = (zjoin a b zl' zr' row - zjoin a b zl zr row) -
       zjoin a b (\<lambda>x. if zl' x = 0 then zl x else 0) (\<lambda>y. zr' y - zr y) row)"
  using assms by (rule join_delta_rule)

text \<open>
  C8: Where that rule goes wrong, for any join: take a left row \<open>x\<close> that the frontier removes entirely
  and a matching right row \<open>y\<close>. The weight of the joined row should fall by its old weight, the
  product of the old weights, but the delta takes the old left weight times the new right weight
  from it. So when the frontier also deletes \<open>y\<close> entirely nothing is taken and the joined row stays,
  and when it inserts \<open>y\<close>, which was absent, the delta takes weight from a row that has none.
\<close>

theorem join_delta_removed_left:
  assumes li: "index_are li a zl'" and ri: "index_are ri b zr'"
    and fin: "zfin zl" "zfin zl'" "zfin zr" "zfin zr'"
    and dl: "delta_ok dl zl zl'" and dr: "delta_ok dr zr zr'"
    and len: "\<forall>x \<in> set dl. a < length (fst x)" "\<forall>x \<in> set dr. b < length (fst x)"
    and node: "vec_get (pr_nodes s) i = Some (NJoin l r a b c li ri)"
    and left: "\<forall>u. zl u \<noteq> 0 \<or> zl' u \<noteq> 0 \<longrightarrow> length u = length x"
    and gone: "zl' x = 0" and pair: "x ! a = y ! b"
  shows "\<exists>out. join_delta i dl dr a b s = Ok out \<and>
    zjoin a b zl' zr' (x @ y) - zjoin a b zl zr (x @ y) = - (zl x * zr y) \<and>
    zget out (x @ y) = - (zl x * zr' y)"
proof -
  obtain out where out: "join_delta i dl dr a b s = Ok out"
    "\<And>row. zget out row = (zjoin a b zl' zr' row - zjoin a b zl zr row) -
       zjoin a b (\<lambda>x. if zl' x = 0 then zl x else 0) (\<lambda>y. zr' y - zr y) row"
    using join_delta_rule [OF li ri fin dl dr len node] by blast
  have lens: "length u = length x" if "zl u \<noteq> 0 \<or> zl' u \<noteq> 0" for u using left that by blast
  have gfin: "zfin (\<lambda>x. if zl' x = 0 then zl x else 0)"
    unfolding zfin_def by (rule finite_subset [OF _ fin(1) [unfolded zfin_def]]) auto
  have dfin: "zfin (\<lambda>y. zr' y - zr y)" using fin by (intro zfin_diff)
  have "zjoin a b (\<lambda>x. if zl' x = 0 then zl x else 0) (\<lambda>y. zr' y - zr y) (x @ y) = zl x * (zr' y - zr y)"
    by (subst zjoin_pair [OF gfin dfin]) (use lens gone pair in \<open>auto split: if_splits\<close>)
  moreover have "zjoin a b zl zr (x @ y) = zl x * zr y" "zjoin a b zl' zr' (x @ y) = 0"
    using gone pair
    by (subst zjoin_pair [OF fin(1,3)], auto intro: lens) (subst zjoin_pair [OF fin(2,4)], auto intro: lens)
  ultimately have "zget out (x @ y) = - (zl x * zr' y)"
    "zjoin a b zl' zr' (x @ y) - zjoin a b zl zr (x @ y) = - (zl x * zr y)"
    unfolding out(2) [of "x @ y"] by (simp_all only: right_diff_distrib) simp_all
  with out(1) show ?thesis by blast
qed

subsection \<open>A two-relation join\<close>

definition demo_program :: plan_program where
  "demo_program = program_one ''j'' (PJoin (PScan 0) (PScan 1) 1 0)"

definition demo_base :: engine where
  "demo_base = snd (define_relation ''r'' 2 (snd (define_relation ''l'' 2 engine_new)))"

definition demo_engine :: engine where
  "demo_engine = (case install demo_program demo_base of Ok (_, e) \<Rightarrow> e | _ \<Rightarrow> demo_base)"

definition demo_change :: "sign \<Rightarrow> nat \<Rightarrow> row \<Rightarrow> source_change" where
  "demo_change sg r row = \<lparr>sc_relation = r, sc_sign = sg, sc_row = row\<rparr>"

definition demo_insert :: frontier where
  "demo_insert = \<lparr>fr_id = ''f1'', fr_changes = [demo_change Plus 0 [1, 2], demo_change Plus 1 [2, 3]]\<rparr>"

definition demo_delete :: frontier where
  "demo_delete = \<lparr>fr_id = ''f2'', fr_changes = [demo_change Minus 0 [1, 2], demo_change Minus 1 [2, 3]]\<rparr>"

definition demo_left :: frontier where
  "demo_left = \<lparr>fr_id = ''f3'', fr_changes = [demo_change Plus 0 [1, 2]]\<rparr>"

definition demo_swap :: frontier where
  "demo_swap = \<lparr>fr_id = ''f4'', fr_changes = [demo_change Minus 0 [1, 2], demo_change Plus 1 [2, 3]]\<rparr>"

definition demo_narrow :: frontier where
  "demo_narrow = \<lparr>fr_id = ''f5'', fr_changes = [demo_change Plus 0 [7, 8], demo_change Plus 0 [1]]\<rparr>"

lemma demo_install: "install demo_program demo_base = Ok (0, demo_engine)"
  by code_simp

lemma demo_base_reach: "engine_reach demo_base"
  unfolding demo_base_def by (intro reach_define reach_new)

lemma demo_reach: "engine_reach demo_engine"
  by (rule reach_install [OF demo_base_reach demo_install])

lemma demo_wf: "engine_wf demo_engine" "engine_wf demo_base"
  using engine_reach_wf demo_reach demo_base_reach by blast+

lemma demo_relations: "en_relations demo_engine = [relation_new ''l'' 2, relation_new ''r'' 2]"
  "en_relations demo_base = [relation_new ''l'' 2, relation_new ''r'' 2]"
  by code_simp+

lemma demo_arenas: "arenas_le demo_engine n"
  by (simp add: arenas_le_def demo_relations relation_new_def)

lemma relations_empty_new: "(\<And>rel. rel \<in> set (en_relations e) \<Longrightarrow> rel_by_value rel = []) \<Longrightarrow> relations_empty e"
  by (auto simp: relations_empty_def source_sem_def present_def vec_get_def)

lemma demo_empty: "relations_empty demo_base" "relations_empty demo_engine"
  by (rule relations_empty_new; auto simp: demo_relations relation_new_def)+

lemma demo_program_ok: "program_ok demo_engine 0 (prog_outputs demo_program)"
  by (rule install_ok [OF demo_install demo_empty(1)])

lemma changes_fit_inserts:
  assumes "\<forall>ch \<in> set chs. sc_sign ch = Plus" and "length chs < 2 ^ 63"
  shows "changes_fit e chs"
proof -
  have "changes_of Minus r row chs = 0" for r row using assms(1) by (auto simp: changes_of_def filter_empty_conv)
  moreover have "changes_of Plus r row chs \<le> length chs" for r row by (simp add: changes_of_def)
  then have "int (changes_of Plus r row chs) < 2 ^ 63" for r row
    using assms(2) int_less_63 by (meson le_less_trans)
  then have "sint (of_nat (changes_of Plus r row chs) :: i64) = int (changes_of Plus r row chs)" for r row
    using sint_of_int_i64 [of "int (changes_of Plus r row chs)"] by simp
  ultimately show ?thesis by (simp add: changes_fit_def change_weight_count)
qed

lemma demo_frontier_ok: "frontier_ok demo_engine demo_insert"
  unfolding frontier_ok_def
  by (rule conjI [OF _ changes_fit_inserts])
    (auto simp: changes_typed_def demo_relations demo_insert_def demo_change_def relation_new_def)

lemma demo_ps: "\<exists>ps. program_at demo_engine 0 = Ok ps \<and> set (ps_dependencies ps) = {0, 1}"
proof -
  have "rust_bind (program_at demo_engine 0) (\<lambda>ps. Ok (ps_dependencies ps)) = Ok [1, 0]" by code_simp
  then show ?thesis by (auto simp: rust_simps)
qed

lemma demo_touches: "touches demo_engine 0 demo_insert"
  using demo_ps by (auto simp: touches_def demo_insert_def demo_change_def)

lemma demo_sources: "source_sem (en_relations demo_engine) = no_rows"
  using demo_empty(2) by (simp add: relations_empty_def fun_eq_iff)

lemma demo_safe: "plan_safe no_rows src (PJoin (PScan 0) (PScan 1) 1 0)"
  by (simp add: join_safe_def)

lemma demo_plans: "plans (prog_outputs demo_program) = {PJoin (PScan 0) (PScan 1) 1 0}"
  by (simp add: plans_def demo_program_def program_one_def)

lemma demo_bounds:
  "0 + length (fr_changes demo_insert) < 2 ^ 63"
  "\<forall>q \<in> plans (prog_outputs demo_program). plan_rows (0 + length (fr_changes demo_insert)) q < 2 ^ 63 \<and>
     plan_safe (source_sem (en_relations demo_engine)) (post_src demo_engine demo_insert) q"
  unfolding demo_plans demo_sources using demo_safe by (simp_all add: demo_insert_def del: plan_safe.simps)

theorem frontier_apply_correct_witness:
  "\<exists>outs e'. engine_apply 0 demo_insert demo_engine = Ok (Ok outs, e') \<and> engine_bag e' = post_bag demo_engine demo_insert \<and>
    list_all2 (output_flips (engine_bag demo_engine) (engine_bag e')) (prog_outputs demo_program) outs"
  using frontier_apply_correct [OF demo_wf(1) demo_arenas [of 0] demo_program_ok demo_frontier_ok demo_touches demo_bounds]
  by blast

text \<open>What a client reads of the demonstration engine after a run: the join and both relations.\<close>

definition demo_readings :: "frontier list \<Rightarrow> (output_delta list fres list \<times> row list \<times> nat list \<times> nat list) fres" where
  "demo_readings fs = rust_bind (replay 0 fs demo_engine) (\<lambda>(rs, e).
     rust_bind (snapshot 0 ''j'' e) (\<lambda>rows.
     rust_bind (source_row_ids 0 e) (\<lambda>left.
     rust_bind (source_row_ids 1 e) (\<lambda>right. Ok (rs, rows, left, right)))))"

text \<open>
  On this engine, deleting both sides of the joined pair in one frontier leaves the joined row behind: the frontier
  is accepted, both relations are empty afterwards, no output change is reported and the snapshot
  still shows the row.
\<close>

lemma join_keeps_row_deleted_on_both_sides:
  "demo_readings [demo_insert, demo_delete] =
     Ok ([Ok [\<lparr>od_output = ''j'', od_changes = [\<lparr>oc_sign = Plus, oc_row = [1, 2, 2, 3]\<rparr>]\<rparr>],
          Ok [\<lparr>od_output = ''j'', od_changes = []\<rparr>]], [[1, 2, 2, 3]], [], [])"
  by code_simp

text \<open>
  On this engine, deleting a left row and inserting a right row that matches it, in one frontier, is refused with
  a maintenance error about negative support, although the frontier is valid and the join is empty
  before and after it.
\<close>

lemma join_refuses_valid_frontier:
  "demo_readings [demo_left, demo_swap] =
     Ok ([Ok [\<lparr>od_output = ''j'', od_changes = []\<rparr>],
          Err (ferr Maintain (Internal (SupportNegative [1, 2, 2, 3] (- 1))))], [], [0], [])"
  by code_simp

subsection \<open>The properties at work\<close>

definition demo_filled :: engine where
  "demo_filled = (case engine_apply 0 demo_insert demo_engine of Ok (Ok _, e) \<Rightarrow> e | _ \<Rightarrow> demo_engine)"

lemma demo_filled_ok:
  "engine_wf demo_filled \<and> program_ok demo_filled 0 (prog_outputs demo_program) \<and>
   engine_bag demo_filled = post_bag demo_engine demo_insert"
  using applied_frontier [OF demo_wf(1) demo_arenas [of 0] demo_program_ok demo_frontier_ok demo_touches demo_bounds]
  by (auto simp: demo_filled_def)

lemma demo_filled_arenas: "arenas_le demo_filled 1"
  by code_simp

theorem scope_rollback_restores_witness:
  "\<exists>e'. run_op (OpScope [OpApply 0 demo_delete, OpScope [OpApply 0 demo_insert] True] False) demo_filled = Ok e' \<and>
     engine_eq e' demo_filled \<and> snapshot 0 ''j'' e' = snapshot 0 ''j'' demo_filled"
proof -
  have "rust_bind (run_op (OpScope [OpApply 0 demo_delete, OpScope [OpApply 0 demo_insert] True] False) demo_filled) (\<lambda>_. Ok ()) = Ok ()"
    by code_simp
  then obtain e' where "run_op (OpScope [OpApply 0 demo_delete, OpScope [OpApply 0 demo_insert] True] False) demo_filled = Ok e'"
    by (auto simp: rust_simps)
  with scope_rollback_restores [OF _ this] demo_filled_ok show ?thesis by blast
qed

definition demo_half :: engine where
  "demo_half = (case engine_apply 0 demo_left demo_engine of Ok (Ok _, e) \<Rightarrow> e | _ \<Rightarrow> demo_engine)"

lemma demo_half_fails: "\<exists>er e'. engine_apply 0 demo_swap demo_half = Ok (Err er, e') \<and> fe_stage er = Maintain"
proof -
  have "rust_bind (engine_apply 0 demo_swap demo_half)
      (\<lambda>(r, _). Ok (case r of Err er \<Rightarrow> fe_stage er = Maintain | _ \<Rightarrow> False)) = Ok True"
    by code_simp
  then obtain r e' where "engine_apply 0 demo_swap demo_half = Ok (r, e')"
    "(case r of Err er \<Rightarrow> fe_stage er = Maintain | _ \<Rightarrow> False)"
    by (auto simp: rust_simps)
  then show ?thesis by (cases r) auto
qed

theorem failed_apply_restores_witness:
  "\<exists>er e'. engine_apply 0 demo_swap demo_half = Ok (Err er, e') \<and> engine_eq e' demo_half \<and>
     snapshot 0 ''j'' e' = snapshot 0 ''j'' demo_half"
proof -
  have "engine_reach demo_half"
    unfolding demo_half_def using demo_reach by (auto split: rust.split intro: reach_apply)
  then have wf: "engine_wf demo_half" using engine_reach_wf by blast
  obtain er e' where r: "engine_apply 0 demo_swap demo_half = Ok (Err er, e')" using demo_half_fails by blast
  from failed_apply_restores [OF wf r] r show ?thesis by blast
qed

lemma demo_good_run: "good_run 0 (prog_outputs demo_program) 1 demo_engine [demo_insert]"
proof -
  have "\<forall>q \<in> plans (prog_outputs demo_program). plan_rows (1 + length (fr_changes demo_insert)) q < 2 ^ 63"
    unfolding demo_plans by (simp add: demo_insert_def)
  moreover have "case engine_apply 0 demo_insert demo_engine of Ok (_, e1) \<Rightarrow> arenas_le e1 1 | _ \<Rightarrow> True"
    by code_simp
  then have "case engine_apply 0 demo_insert demo_engine of
      Ok (_, e1) \<Rightarrow> good_run 0 (prog_outputs demo_program) 1 e1 [] | _ \<Rightarrow> True"
    by (simp only: good_run.simps(1))
  moreover have "1 + length (fr_changes demo_insert) < 2 ^ 63" by (simp add: demo_insert_def)
  ultimately show ?thesis
    unfolding good_run.simps(2) using demo_arenas demo_frontier_ok demo_touches demo_bounds(2) by blast
qed

theorem snapshot_correct_witness:
  "\<exists>outs e rows. replay 0 [demo_insert] demo_engine = Ok (map Ok outs, e) \<and> snapshot 0 ''j'' e = Ok rows \<and>
     set rows = {row. 0 < bag_sem (run_bag [demo_insert]) (PJoin (PScan 0) (PScan 1) 1 0) row}"
proof -
  let ?d = "\<lparr>decl_name = ''j'', decl_plan = PJoin (PScan 0) (PScan 1) 1 0\<rparr>"
  have "find (\<lambda>d. decl_name d = ''j'') (prog_outputs demo_program) = Some ?d"
    by (simp add: demo_program_def program_one_def)
  from snapshot_correct [OF demo_wf(2) demo_empty(1) demo_install demo_good_run _ this] show ?thesis by auto
qed

theorem engine_reach_invariant_witness:
  "engine_wf demo_engine \<and> en_marks demo_engine = [] \<and> install demo_program demo_engine \<noteq> Panic"
  using engine_reach_invariant [OF demo_reach] by blast

theorem install_correct_witness:
  "plan_ok (arities demo_base) (PJoin (PScan 0) (PScan 1) 1 0) \<and> program_ok demo_engine 0 (prog_outputs demo_program)"
  using install_correct [OF demo_wf(2) demo_install] demo_empty(1) demo_plans by blast

theorem invalid_frontier_rejected_witness:
  "\<exists>er. engine_apply 0 demo_narrow demo_engine = Ok (Err er, demo_engine) \<and> fe_stage er = Validate"
proof -
  have "\<not> frontier_ok demo_engine demo_narrow"
    by (simp add: frontier_ok_def changes_typed_def demo_narrow_def demo_change_def demo_relations relation_new_def)
  from invalid_frontier_rejected [OF demo_wf(1) demo_arenas [of 0] _ this] show ?thesis by simp
qed

definition demo_scan :: engine where
  "demo_scan = (case install (program_one ''s'' (PScan 1)) demo_base of Ok (_, e) \<Rightarrow> e | _ \<Rightarrow> demo_base)"

theorem uncovered_frontier_not_stored_witness:
  "\<exists>outs. engine_apply 0 demo_left demo_scan = Ok (Ok outs, demo_scan\<lparr>en_frontiers_applied := en_frontiers_applied demo_scan + 1\<rparr>)"
proof -
  have "engine_reach demo_scan"
    unfolding demo_scan_def using demo_base_reach by (auto split: rust.split intro: reach_install)
  then have wf: "engine_wf demo_scan" using engine_reach_wf by blast
  have rels: "en_relations demo_scan = [relation_new ''l'' 2, relation_new ''r'' 2]" by code_simp
  have ar: "arenas_le demo_scan 0" by code_simp
  have fr: "frontier_ok demo_scan demo_left"
    unfolding frontier_ok_def
    by (rule conjI [OF _ changes_fit_inserts])
      (auto simp: changes_typed_def rels demo_left_def demo_change_def relation_new_def)
  have "rust_bind (program_at demo_scan 0) (\<lambda>ps. Ok (ps_dependencies ps)) = Ok [1]" by code_simp
  then obtain ps where ps: "program_at demo_scan 0 = Ok ps" "ps_dependencies ps = [1]" by (auto simp: rust_simps)
  then have "\<not> touches demo_scan 0 demo_left" by (simp add: touches_def demo_left_def demo_change_def)
  from uncovered_frontier_not_stored [OF wf ar _ fr ps(1) this] show ?thesis by auto
qed

theorem row_slots_lifo_witness:
  "\<exists>e1 e2 e3. insert_row 0 [5, 6] demo_base = (Ok 0, e1) \<and> remove_row 0 [5, 6] e1 = (Ok (Some 0), e2) \<and>
     insert_row 0 [7, 8] e2 = (Ok 0, e3)"
proof -
  have "fst (insert_row 0 [5, 6] demo_base) = Ok 0" by code_simp
  then obtain e1 where r: "insert_row 0 [5, 6] demo_base = (Ok 0, e1)" by (metis prod.collapse)
  from row_slots_lifo [OF r, of "[7, 8]"] r show ?thesis by blast
qed

definition one_row :: "row \<Rightarrow> row \<Rightarrow> i64" where
  "one_row x row = (if row = x then 1 else 0)"

theorem join_delta_exact_witness:
  "\<exists>out. join_delta 0 [([1, 2], - 1)] [([2, 3], - 1)] 1 0 \<lparr>pr_nodes = [NJoin 1 2 1 0 [] [] []], pr_journal = [], pr_memo = Map.empty\<rparr> = Ok out \<and>
     (\<forall>row. zget out row = (zjoin 1 0 (\<lambda>_. 0) (\<lambda>_. 0) row - zjoin 1 0 (one_row [1, 2]) (one_row [2, 3]) row) -
        zjoin 1 0 (\<lambda>x. if (\<lambda>_. 0 :: i64) x = 0 then one_row [1, 2] x else 0) (\<lambda>y. 0 - one_row [2, 3] y) row)"
proof -
  have fin: "zfin (one_row x)" "zfin (\<lambda>_ :: row. 0)" for x by (simp_all add: zfin_def one_row_def)
  have dl: "delta_ok [(x, - 1)] (one_row x) (\<lambda>_. 0)" for x
    by (auto simp: delta_ok_def one_row_def zget_def nonzero_def fun_eq_iff)
  have node: "vec_get (pr_nodes \<lparr>pr_nodes = [NJoin 1 2 1 0 [] [] []], pr_journal = [], pr_memo = Map.empty\<rparr>) 0 =
      Some (NJoin 1 2 1 0 [] [] [])" by simp
  have len: "\<forall>x \<in> set [([1, 2], - 1 :: i64)]. 1 < length (fst x)" "\<forall>x \<in> set [([2, 3], - 1 :: i64)]. 0 < length (fst x)"
    by simp_all
  from join_delta_exact [OF index_are_Nil index_are_Nil fin(1,2,1,2) dl dl len node]
  show ?thesis by blast
qed

theorem join_delta_removed_left_witness:
  "\<exists>out. join_delta 0 [([1, 2], - 1)] [([2, 3], - 1)] 1 0 \<lparr>pr_nodes = [NJoin 1 2 1 0 [] [] []], pr_journal = [], pr_memo = Map.empty\<rparr> = Ok out \<and>
     zjoin 1 0 (\<lambda>_. 0) (\<lambda>_. 0) ([1, 2] @ [2, 3]) - zjoin 1 0 (one_row [1, 2]) (one_row [2, 3]) ([1, 2] @ [2, 3]) = - 1 \<and>
     zget out ([1, 2] @ [2, 3]) = 0"
proof -
  have fin: "zfin (one_row x)" "zfin (\<lambda>_ :: row. 0)" for x by (simp_all add: zfin_def one_row_def)
  have dl: "delta_ok [(x, - 1)] (one_row x) (\<lambda>_. 0)" for x
    by (auto simp: delta_ok_def one_row_def zget_def nonzero_def fun_eq_iff)
  have node: "vec_get (pr_nodes \<lparr>pr_nodes = [NJoin 1 2 1 0 [] [] []], pr_journal = [], pr_memo = Map.empty\<rparr>) 0 =
      Some (NJoin 1 2 1 0 [] [] [])" by simp
  have len: "\<forall>x \<in> set [([1, 2], - 1 :: i64)]. 1 < length (fst x)" "\<forall>x \<in> set [([2, 3], - 1 :: i64)]. 0 < length (fst x)"
    by simp_all
  have left: "\<forall>u. one_row [1, 2] u \<noteq> 0 \<or> (\<lambda>_ :: row. 0 :: i64) u \<noteq> 0 \<longrightarrow> length u = length [1 :: i64, 2]"
    by (simp add: one_row_def)
  from join_delta_removed_left [OF index_are_Nil index_are_Nil fin(1,2,1,2) dl dl len node left _ _, of "[2, 3]"]
  show ?thesis by (simp only: one_row_def [of "[1, 2]" "[1, 2]"] one_row_def [of "[2, 3]" "[2, 3]"]) simp
qed

theorem consolidate_nets_changes_witness:
  "zget (net_of (consolidate [demo_change Plus 0 [1], demo_change Minus 1 [2], demo_change Plus 0 [1]]) 0) [1] = 2 \<and>
   bt_inv (\<lambda>k::nat. k) (consolidate [demo_change Plus 0 [1], demo_change Minus 1 [2], demo_change Plus 0 [1]])"
  using consolidate_nets_changes [of "[demo_change Plus 0 [1], demo_change Minus 1 [2], demo_change Plus 0 [1]]"]
  by (simp add: changes_of_def demo_change_def)

end
