(* ===== verification/Ir_Strings.thy ===== *)
theory Ir_Strings
  imports Prelude
begin

text \<open>
  String operations of the program representation (\<open>crates/ivm-ir/src/2_strings.rs\<close> and
  \<open>3_str_ops.rs\<close>). A Rust \<open>str\<close> is its UTF-8 bytes, a \<open>char list\<close>; \<open>utf8_chars\<close> splits it at the bytes
  that start a character. Tables of the Unicode standard and the case conversions and escapes of
  crates outside the repository are fields of a \<open>text_lib\<close> argument.
\<close>

subsection \<open>Values and operations\<close>

datatype str_kind = KText | KInt

datatype str_val = VText string | VInt i64

datatype str_out = OutText string | OutInt i64 | OutHolds

datatype str_op =
    SLen | SLower | SUpper | SLcfirst | SUcfirst | STrim | SStripPrefix | SStripSuffix
  | SReplace | SSplit | SToStr | SToInt | SStartsWith | SContains
  | SSnake | SCamel | SPascal | SKebab | SEscape | SJson

definition str_all :: "str_op list" where
  "str_all = [SLen, SLower, SUpper, SLcfirst, SUcfirst, STrim, SStripPrefix, SStripSuffix,
     SReplace, SSplit, SToStr, SToInt, SStartsWith, SContains, SSnake, SCamel, SPascal, SKebab,
     SEscape, SJson]"

fun str_name :: "str_op \<Rightarrow> string" where
  "str_name SLen = ''str.len''"
| "str_name SLower = ''str.lower''"
| "str_name SUpper = ''str.upper''"
| "str_name SLcfirst = ''str.lcfirst''"
| "str_name SUcfirst = ''str.ucfirst''"
| "str_name STrim = ''str.trim''"
| "str_name SStripPrefix = ''str.strip_prefix''"
| "str_name SStripSuffix = ''str.strip_suffix''"
| "str_name SReplace = ''str.replace''"
| "str_name SSplit = ''str.split''"
| "str_name SToStr = ''int.to_str''"
| "str_name SToInt = ''str.to_int''"
| "str_name SStartsWith = ''str.starts_with''"
| "str_name SContains = ''str.contains''"
| "str_name SSnake = ''str.snake''"
| "str_name SCamel = ''str.camel''"
| "str_name SPascal = ''str.pascal''"
| "str_name SKebab = ''str.kebab''"
| "str_name SEscape = ''str.escape''"
| "str_name SJson = ''str.json''"

text \<open>The arms of \<open>from_name\<close>, in order.\<close>

definition str_names :: "(string \<times> str_op) list" where
  "str_names =
    [(''str.len'', SLen), (''str.lower'', SLower), (''str.upper'', SUpper), (''str.lcfirst'', SLcfirst),
     (''str.ucfirst'', SUcfirst), (''str.trim'', STrim), (''str.strip_prefix'', SStripPrefix),
     (''str.strip_suffix'', SStripSuffix), (''str.replace'', SReplace), (''str.split'', SSplit),
     (''int.to_str'', SToStr), (''str.to_int'', SToInt), (''str.starts_with'', SStartsWith),
     (''str.contains'', SContains), (''str.snake'', SSnake), (''str.camel'', SCamel),
     (''str.pascal'', SPascal), (''str.kebab'', SKebab), (''str.escape'', SEscape), (''str.json'', SJson)]"

definition str_from_name :: "string \<Rightarrow> str_op option" where
  "str_from_name name = map_of str_names name"

fun str_args :: "str_op \<Rightarrow> str_kind list" where
  "str_args SStripPrefix = [KText, KText]"
| "str_args SStripSuffix = [KText, KText]"
| "str_args SReplace = [KText, KText, KText]"
| "str_args SSplit = [KText, KText, KInt]"
| "str_args SToStr = [KInt]"
| "str_args SStartsWith = [KText, KText]"
| "str_args SContains = [KText, KText]"
| "str_args _ = [KText]"

fun str_result :: "str_op \<Rightarrow> str_kind option" where
  "str_result SLen = Some KInt"
| "str_result SToInt = Some KInt"
| "str_result SStartsWith = None"
| "str_result SContains = None"
| "str_result _ = Some KText"

subsection \<open>Characters and slices\<close>

text \<open>A continuation byte is \<open>10xxxxxx\<close>.\<close>

definition utf8_cont :: "char \<Rightarrow> bool" where
  "utf8_cont c \<longleftrightarrow> 128 \<le> (of_char c :: nat) \<and> (of_char c :: nat) < 192"

fun utf8_chars :: "string \<Rightarrow> string list" where
  "utf8_chars [] = []"
| "utf8_chars (c # cs) =
     (case utf8_chars cs of
        [] \<Rightarrow> [[c]]
      | w # ws \<Rightarrow> if utf8_cont (hd w) then (c # w) # ws else [c] # w # ws)"

definition white_space :: "string \<Rightarrow> bool" where
  "white_space w \<longleftrightarrow> map of_char w \<in> set
     ([[9], [10], [11], [12], [13], [32], [194, 133], [194, 160], [225, 154, 128],
       [226, 128, 168], [226, 128, 169], [226, 128, 175], [226, 129, 159], [227, 128, 128 :: nat]] @
      map (\<lambda>b. [226, 128, b]) [128..<139])"

definition str_trim :: "string \<Rightarrow> string" where
  "str_trim s = concat (rev (dropWhile white_space (rev (dropWhile white_space (utf8_chars s)))))"

fun strip_prefix :: "string \<Rightarrow> string \<Rightarrow> string option" where
  "strip_prefix [] s = Some s"
| "strip_prefix (p # ps) [] = None"
| "strip_prefix (p # ps) (c # cs) = (if p = c then strip_prefix ps cs else None)"

definition strip_suffix :: "string \<Rightarrow> string \<Rightarrow> string option" where
  "strip_suffix p s = map_option rev (strip_prefix (rev p) (rev s))"

fun str_contains :: "string \<Rightarrow> string \<Rightarrow> bool" where
  "str_contains p [] \<longleftrightarrow> p = []"
| "str_contains p (c # cs) \<longleftrightarrow> strip_prefix p (c # cs) \<noteq> None \<or> str_contains p cs"

lemma strip_prefix_Some_iff: "strip_prefix p s = Some t \<longleftrightarrow> s = p @ t"
  by (induction p s rule: strip_prefix.induct) auto

text \<open>
  \<open>split\<close> by a pattern: the pieces between its leftmost non-overlapping matches. The empty pattern
  matches at every character boundary, so its pieces are the characters between two empty ones.
\<close>

function split_pieces :: "char \<Rightarrow> string \<Rightarrow> string \<Rightarrow> string \<Rightarrow> string list" where
  "split_pieces p ps piece [] = [piece]"
| "split_pieces p ps piece (c # cs) =
     (case strip_prefix (p # ps) (c # cs) of
        Some rest \<Rightarrow> piece # split_pieces p ps [] rest
      | None \<Rightarrow> split_pieces p ps (piece @ [c]) cs)"
  by pat_completeness auto
termination
  by (relation "measure (\<lambda>(p, ps, piece, s). length s)") (auto simp: strip_prefix_Some_iff split: if_splits)

definition str_split :: "string \<Rightarrow> string \<Rightarrow> string list" where
  "str_split s pat = (case pat of [] \<Rightarrow> [] # utf8_chars s @ [[]] | p # ps \<Rightarrow> split_pieces p ps [] s)"

fun str_join :: "string \<Rightarrow> string list \<Rightarrow> string" where
  "str_join sep [] = []"
| "str_join sep [w] = w"
| "str_join sep (w # v # ws) = w @ sep @ str_join sep (v # ws)"

definition str_replace :: "string \<Rightarrow> string \<Rightarrow> string \<Rightarrow> string" where
  "str_replace s from to = str_join to (str_split s from)"

subsection \<open>Decimal integers\<close>

fun digit_char :: "nat \<Rightarrow> char" where
  "digit_char d = char_of (48 + d)"

fun nat_digits :: "nat \<Rightarrow> string" where
  "nat_digits n = (if n < 10 then [digit_char n] else nat_digits (n div 10) @ [digit_char (n mod 10)])"

declare nat_digits.simps [simp del]

definition int_string :: "i64 \<Rightarrow> string" where
  "int_string i = (if sint i < 0 then CHR ''-'' # nat_digits (nat (- sint i)) else nat_digits (nat (sint i)))"

definition char_digit :: "char \<Rightarrow> nat option" where
  "char_digit c = (let n = of_char c in if 48 \<le> n \<and> n < 58 then Some (n - 48) else None)"

fun parse_digits :: "string \<Rightarrow> nat \<Rightarrow> nat option" where
  "parse_digits [] acc = Some acc"
| "parse_digits (c # cs) acc = (case char_digit c of None \<Rightarrow> None | Some d \<Rightarrow> parse_digits cs (10 * acc + d))"

definition parse_nat :: "string \<Rightarrow> nat option" where
  "parse_nat s = (if s = [] then None else parse_digits s 0)"

text \<open>\<open>parse::<i64>\<close>: an optional sign, at least one digit, and no overflow.\<close>

definition parse_i64 :: "string \<Rightarrow> i64 option" where
  "parse_i64 s =
     (let (neg, ds) = (case s of c # cs \<Rightarrow> if c = CHR ''-'' then (True, cs) else if c = CHR ''+'' then (False, cs) else (False, s)
                       | [] \<Rightarrow> (False, s))
      in case parse_nat ds of None \<Rightarrow> None
         | Some n \<Rightarrow>
             (let i = (if neg then - int n else int n)
              in if - (2 ^ 63) \<le> i \<and> i < 2 ^ 63 then Some (of_int i) else None))"

subsection \<open>Applying an operation\<close>

text \<open>
  Code that is not in the repository: Unicode case mapping and debug escaping of the standard
  library, \<open>heck\<close>'s case conversions and \<open>serde_json\<close>.
\<close>

record text_lib =
  tl_lower :: "string \<Rightarrow> string"
  tl_upper :: "string \<Rightarrow> string"
  tl_char_lower :: "string \<Rightarrow> string"
  tl_char_upper :: "string \<Rightarrow> string"
  tl_snake :: "string \<Rightarrow> string"
  tl_camel :: "string \<Rightarrow> string"
  tl_pascal :: "string \<Rightarrow> string"
  tl_kebab :: "string \<Rightarrow> string"
  tl_escape :: "string \<Rightarrow> string"
  tl_json :: "string \<Rightarrow> string option"

definition text_arg :: "str_val list \<Rightarrow> nat \<Rightarrow> string option" where
  "text_arg args i = (case vec_get args i of Some (VText s) \<Rightarrow> Some s | _ \<Rightarrow> None)"

definition int_arg :: "str_val list \<Rightarrow> nat \<Rightarrow> i64 option" where
  "int_arg args i = (case vec_get args i of Some (VInt n) \<Rightarrow> Some n | _ \<Rightarrow> None)"

definition with_text :: "str_val list \<Rightarrow> nat \<Rightarrow> (string \<Rightarrow> 'a option) \<Rightarrow> 'a option" where
  "with_text args i f = Option.bind (text_arg args i) f"

text \<open>\<open>chars.next().map(|first| f(first).chain(chars))\<close>, the empty string staying empty.\<close>

definition map_first :: "(string \<Rightarrow> string) \<Rightarrow> string \<Rightarrow> string" where
  "map_first f s = (case utf8_chars s of [] \<Rightarrow> [] | w # ws \<Rightarrow> f w @ concat ws)"

text \<open>\<open>checked_add\<close> on \<open>i64\<close>, and \<open>usize::try_from\<close>.\<close>

definition checked_add :: "i64 \<Rightarrow> i64 \<Rightarrow> i64 option" where
  "checked_add a b = (let s = sint a + sint b in if - (2 ^ 63) \<le> s \<and> s < 2 ^ 63 then Some (a + b) else None)"

definition try_usize :: "i64 \<Rightarrow> nat option" where
  "try_usize a = (if sint a < 0 then None else Some (nat (sint a)))"

definition split_part :: "string \<Rightarrow> string \<Rightarrow> i64 \<Rightarrow> string option" where
  "split_part s pat i =
     (let parts = str_split s pat
      in Option.bind (if sint i < 0 then checked_add i (of_nat (length parts)) else Some i)
           (\<lambda>k. Option.bind (try_usize k) (vec_get parts)))"

fun str_apply :: "text_lib \<Rightarrow> str_op \<Rightarrow> str_val list \<Rightarrow> str_out option" where
  "str_apply lib SLen args = with_text args 0 (\<lambda>a. Some (OutInt (of_nat (length (utf8_chars a)))))"
| "str_apply lib SLower args = with_text args 0 (\<lambda>a. Some (OutText (tl_lower lib a)))"
| "str_apply lib SUpper args = with_text args 0 (\<lambda>a. Some (OutText (tl_upper lib a)))"
| "str_apply lib SLcfirst args = with_text args 0 (\<lambda>a. Some (OutText (map_first (tl_char_lower lib) a)))"
| "str_apply lib SUcfirst args = with_text args 0 (\<lambda>a. Some (OutText (map_first (tl_char_upper lib) a)))"
| "str_apply lib STrim args = with_text args 0 (\<lambda>a. Some (OutText (str_trim a)))"
| "str_apply lib SStripPrefix args = with_text args 0 (\<lambda>a. with_text args 1 (\<lambda>b.
     Some (OutText (case strip_prefix b a of Some t \<Rightarrow> t | None \<Rightarrow> a))))"
| "str_apply lib SStripSuffix args = with_text args 0 (\<lambda>a. with_text args 1 (\<lambda>b.
     Some (OutText (case strip_suffix b a of Some t \<Rightarrow> t | None \<Rightarrow> a))))"
| "str_apply lib SReplace args = with_text args 0 (\<lambda>a. with_text args 1 (\<lambda>b. with_text args 2 (\<lambda>c.
     Some (OutText (str_replace a b c)))))"
| "str_apply lib SSplit args = with_text args 0 (\<lambda>a. with_text args 1 (\<lambda>b.
     Option.bind (int_arg args 2) (\<lambda>i. map_option OutText (split_part a b i))))"
| "str_apply lib SToStr args = Option.bind (int_arg args 0) (\<lambda>i. Some (OutText (int_string i)))"
| "str_apply lib SToInt args = with_text args 0 (\<lambda>a. map_option OutInt (parse_i64 a))"
| "str_apply lib SStartsWith args = with_text args 0 (\<lambda>a. with_text args 1 (\<lambda>b.
     if strip_prefix b a \<noteq> None then Some OutHolds else None))"
| "str_apply lib SContains args = with_text args 0 (\<lambda>a. with_text args 1 (\<lambda>b.
     if str_contains b a then Some OutHolds else None))"
| "str_apply lib SSnake args = with_text args 0 (\<lambda>a. Some (OutText (tl_snake lib a)))"
| "str_apply lib SCamel args = with_text args 0 (\<lambda>a. Some (OutText (tl_camel lib a)))"
| "str_apply lib SPascal args = with_text args 0 (\<lambda>a. Some (OutText (tl_pascal lib a)))"
| "str_apply lib SKebab args = with_text args 0 (\<lambda>a. Some (OutText (tl_kebab lib a)))"
| "str_apply lib SEscape args = with_text args 0 (\<lambda>a. Some (OutText (tl_escape lib a)))"
| "str_apply lib SJson args = with_text args 0 (\<lambda>a. map_option OutText (tl_json lib a))"

subsection \<open>Parsing what was printed\<close>

lemma char_digit_digit_char: "d < 10 \<Longrightarrow> char_digit (digit_char d) = Some d"
  by (simp add: char_digit_def Let_def)

lemma parse_digits_append: "parse_digits (a @ b) acc = Option.bind (parse_digits a acc) (parse_digits b)"
  by (induction a arbitrary: acc) (auto split: option.split)

lemma parse_nat_digits: "\<exists>k. \<forall>acc. parse_digits (nat_digits n) acc = Some (acc * 10 ^ k + n)"
proof (induction n rule: nat_digits.induct)
  case (1 n)
  show ?case
  proof (cases "n < 10")
    case True
    then show ?thesis
      by (subst nat_digits.simps) (auto simp: char_digit_digit_char simp del: digit_char.simps intro!: exI [of _ 1])
  next
    case False
    then obtain k where k: "\<forall>acc. parse_digits (nat_digits (n div 10)) acc = Some (acc * 10 ^ k + n div 10)"
      using 1 by auto
    have "parse_digits (nat_digits n) acc = Some (acc * 10 ^ Suc k + n)" for acc
      using False
      by (subst nat_digits.simps)
        (simp add: parse_digits_append k char_digit_digit_char algebra_simps del: digit_char.simps)
    then show ?thesis by blast
  qed
qed

lemma nat_digits_nonempty [simp]: "nat_digits n \<noteq> []"
  by (subst nat_digits.simps) simp

lemma parse_nat_nat_digits: "parse_nat (nat_digits n) = Some n"
  using parse_nat_digits [of n] by (auto simp: parse_nat_def)

lemma nat_digits_hd: "\<exists>d cs. d < 10 \<and> nat_digits n = digit_char d # cs"
proof (induction n rule: nat_digits.induct)
  case (1 n)
  show ?case
  proof (cases "n < 10")
    case True
    then show ?thesis by (subst nat_digits.simps) auto
  next
    case False
    with 1 obtain d cs where "d < 10" "nat_digits (n div 10) = digit_char d # cs" by auto
    with False show ?thesis by (subst nat_digits.simps) auto
  qed
qed

lemma digit_char_sign: "d < 10 \<Longrightarrow> digit_char d \<noteq> CHR ''-'' \<and> digit_char d \<noteq> CHR ''+''"
proof -
  assume d: "d < 10"
  then have "of_char (digit_char d) = 48 + d" by simp
  moreover have "of_char (CHR ''-'') = (45 :: nat)" "of_char (CHR ''+'') = (43 :: nat)" by simp_all
  ultimately show ?thesis by (auto simp del: digit_char.simps)
qed

lemma parse_i64_int_string: "parse_i64 (int_string i) = Some i"
proof (cases "sint i < 0")
  case True
  then show ?thesis
    using sint_i64_ge [of i] sint_i64_le [of i]
    by (simp add: int_string_def parse_i64_def parse_nat_nat_digits)
next
  case False
  obtain d cs where d: "d < 10" "nat_digits (nat (sint i)) = digit_char d # cs"
    using nat_digits_hd by blast
  then show ?thesis
    using False sint_i64_ge [of i] sint_i64_le [of i] digit_char_sign [OF d(1)] parse_nat_nat_digits [of "nat (sint i)"]
    by (simp add: int_string_def parse_i64_def del: digit_char.simps)
qed

subsection \<open>Splitting and joining\<close>

lemma concat_utf8_chars: "concat (utf8_chars s) = s"
  by (induction s) (auto split: list.split)

lemma utf8_chars_nonempty: "w \<in> set (utf8_chars s) \<Longrightarrow> w \<noteq> []"
  by (induction s arbitrary: w) (auto split: list.splits if_splits)

lemma str_join_Nil: "str_join [] ws = concat ws"
  by (induction "[] :: string" ws rule: str_join.induct) auto

lemma str_join_Cons: "ws \<noteq> [] \<Longrightarrow> str_join sep (w # ws) = w @ sep @ str_join sep ws"
  by (cases ws) auto

lemma split_pieces_nonempty [simp]: "split_pieces p ps piece s \<noteq> []"
  by (induction p ps piece s rule: split_pieces.induct) (auto split: option.split)

lemma join_split_pieces: "str_join (p # ps) (split_pieces p ps piece s) = piece @ s"
proof (induction p ps piece s rule: split_pieces.induct)
  case (2 p ps piece c cs)
  show ?case
  proof (cases "strip_prefix (p # ps) (c # cs)")
    case None
    with 2 show ?thesis by simp
  next
    case (Some rest)
    with 2 show ?thesis
      using strip_prefix_Some_iff [of "p # ps" "c # cs" rest] by (simp add: str_join_Cons)
  qed
qed simp

lemma join_split: "str_join pat (str_split s pat) = s"
  by (cases pat) (auto simp: str_split_def str_join_Nil concat_utf8_chars join_split_pieces)

text \<open>No piece contains the pattern, unless the pattern is empty.\<close>

lemma str_contains_iff: "str_contains p s \<longleftrightarrow> (\<exists>a b. s = a @ p @ b)"
proof (induction p s rule: str_contains.induct)
  case (2 p c cs)
  have "(\<exists>t. strip_prefix p (c # cs) = Some t) \<longleftrightarrow> (\<exists>b. c # cs = p @ b)"
    by (simp add: strip_prefix_Some_iff)
  moreover have "(\<exists>a b. c # cs = a @ p @ b) \<longleftrightarrow> (\<exists>b. c # cs = p @ b) \<or> (\<exists>a b. cs = a @ p @ b)"
    by (metis append_Cons append_Nil list.exhaust list.inject)
  ultimately show ?case using 2 by auto
qed auto

lemma no_match_own:
  assumes "\<forall>a b. piece = a @ b \<longrightarrow> b \<noteq> [] \<longrightarrow> strip_prefix (p # ps) (b @ s) = None"
  shows "\<not> str_contains (p # ps) piece"
proof
  assume "str_contains (p # ps) piece"
  then obtain a b where "piece = a @ (p # ps) @ b" by (auto simp: str_contains_iff)
  with assms have "strip_prefix (p # ps) (((p # ps) @ b) @ s) = None" by blast
  moreover have "strip_prefix (p # ps) (((p # ps) @ b) @ s) = Some (b @ s)"
    by (simp only: strip_prefix_Some_iff append_assoc)
  ultimately show False by simp
qed

lemma no_match_in_pieces:
  assumes "\<forall>a b. piece = a @ b \<longrightarrow> b \<noteq> [] \<longrightarrow> strip_prefix (p # ps) (b @ s) = None" and "w \<in> set (split_pieces p ps piece s)"
  shows "\<not> str_contains (p # ps) w"
  using assms
proof (induction p ps piece s rule: split_pieces.induct)
  case (1 p ps piece)
  then show ?case using no_match_own [of piece p ps "[]"] by simp
next
  case (2 p ps piece c cs)
  have own: "\<not> str_contains (p # ps) piece" by (rule no_match_own [OF 2(3)])
  show ?case
  proof (cases "strip_prefix (p # ps) (c # cs)")
    case (Some rest)
    then have "w = piece \<or> w \<in> set (split_pieces p ps [] rest)" using 2(4) by (simp del: strip_prefix.simps)
    then show ?thesis using 2(2) [OF Some] own by auto
  next
    case None
    have "strip_prefix (p # ps) (b @ cs) = None" if "piece @ [c] = a @ b" "b \<noteq> []" for a b
    proof -
      from that obtain b0 where b: "b = b0 @ [c]" "piece = a @ b0" by (cases b rule: rev_cases) auto
      show ?thesis using 2(3) b None by (cases "b0 = []") auto
    qed
    with 2(1) [OF None] 2(4) None show ?thesis by simp
  qed
qed

subsection \<open>Properties\<close>

text \<open>
  \<open>from_name\<close> inverts \<open>name\<close>: every operation has one name, no two share one, and no other
  string names an operation.
\<close>

theorem str_name_roundtrip: "str_from_name n = Some op \<longleftrightarrow> str_name op = n"
  by (cases op) (auto simp: str_from_name_def str_names_def)

definition kind_of :: "str_val \<Rightarrow> str_kind" where
  "kind_of v = (case v of VText _ \<Rightarrow> KText | VInt _ \<Rightarrow> KInt)"

lemma kind_of_iffs [simp]:
  "kind_of v = KText \<longleftrightarrow> (\<exists>s. v = VText s)" "kind_of v = KInt \<longleftrightarrow> (\<exists>i. v = VInt i)"
  by (auto simp: kind_of_def split: str_val.split)

lemma arg_simps [simp]:
  "text_arg (v # vs) 0 = (case v of VText s \<Rightarrow> Some s | _ \<Rightarrow> None)" "text_arg (v # vs) (Suc i) = text_arg vs i"
  "int_arg (v # vs) 0 = (case v of VInt n \<Rightarrow> Some n | _ \<Rightarrow> None)" "int_arg (v # vs) (Suc i) = int_arg vs i"
  by (simp_all add: text_arg_def int_arg_def vec_get_def)

definition out_kind :: "str_out \<Rightarrow> str_kind option" where
  "out_kind out = (case out of OutText _ \<Rightarrow> Some KText | OutInt _ \<Rightarrow> Some KInt | OutHolds \<Rightarrow> None)"

definition partial_ops :: "str_op set" where
  "partial_ops = {SSplit, SToInt, SStartsWith, SContains, SJson}"

text \<open>
  Applying an operation to arguments of the kinds it declares gives a result of the kind it
  declares, or a miss; only splitting, parsing, the two tests and JSON quoting can miss.
\<close>

theorem str_apply_typed:
  assumes "map kind_of args = str_args op"
  shows "(case str_apply lib op args of Some out \<Rightarrow> out_kind out = str_result op | None \<Rightarrow> op \<in> partial_ops)"
  using assms
  by (cases op)
    (auto simp: map_eq_Cons_conv out_kind_def partial_ops_def with_text_def numeral_2_eq_2 split: option.split if_splits)

definition plain_lib :: text_lib where
  "plain_lib = \<lparr>tl_lower = (\<lambda>s. s), tl_upper = (\<lambda>s. s), tl_char_lower = (\<lambda>s. s), tl_char_upper = (\<lambda>s. s), tl_snake = (\<lambda>s. s),
     tl_camel = (\<lambda>s. s), tl_pascal = (\<lambda>s. s), tl_kebab = (\<lambda>s. s), tl_escape = (\<lambda>s. s), tl_json = (\<lambda>_. None)\<rparr>"

theorem str_apply_typed_witness:
  "case str_apply plain_lib SContains [VText ''abc'', VText ''bc''] of Some out \<Rightarrow> out_kind out = None | None \<Rightarrow> SContains \<in> partial_ops"
  using str_apply_typed [of "[VText ''abc'', VText ''bc'']" SContains plain_lib]
  by (simp del: str_apply.simps split: option.split_asm option.split)

text \<open>
  Printing an integer and parsing it back is the identity on all of \<open>i64\<close>, the least one
  included.
\<close>

theorem int_text_roundtrip:
  "\<exists>s. str_apply lib SToStr [VInt i] = Some (OutText s) \<and> str_apply lib SToInt [VText s] = Some (OutInt i)"
  by (simp add: int_arg_def with_text_def text_arg_def parse_i64_int_string)

text \<open>
  Splitting loses nothing and leaves no match behind: the pieces joined by the pattern are the
  text, no piece contains a non-empty pattern, and replacing a pattern by itself changes nothing.
\<close>

theorem str_split_join:
  "str_join pat (str_split s pat) = s \<and> str_replace s pat pat = s \<and>
   {w \<in> set (str_split s pat). str_contains pat w} = (if pat = [] then set (str_split s pat) else {})"
proof -
  have "\<not> str_contains pat w" if "pat = p # ps" "w \<in> set (str_split s pat)" for p ps w
    using no_match_in_pieces [of "[]" p ps s w] that by (simp add: str_split_def)
  moreover have "str_contains [] w" for w by (cases w) simp_all
  ultimately show ?thesis by (cases pat) (auto simp: join_split str_replace_def)
qed

end
