(* ===== verification/Ir_Values.thy ===== *)
theory Ir_Values
  imports Prelude Complex_Main
begin

text \<open>
  SQLite storage classes and their cross-class order (\<open>AnyValue\<close>, \<open>int_real\<close> and \<open>sqlite_cmp\<close> of
  \<open>crates/ivm-ir/src/0_ir.rs\<close>). A \<open>Real\<close> is the bits of an \<open>f64\<close>; \<open>f64_of_bits\<close> is the IEEE 754
  reading of them, a NaN, an infinity or a rational.
\<close>

subsection \<open>Double-precision numbers\<close>

datatype f64 = FNan | FInf bool | FFin rat

definition f64_scale :: "int \<Rightarrow> int \<Rightarrow> rat" where
  "f64_scale m k = (if 0 \<le> k then of_int m * 2 ^ nat k else of_int m / 2 ^ nat (- k))"

definition f64_of_bits :: "u64 \<Rightarrow> f64" where
  "f64_of_bits b =
     (let neg = bit b 63; e = uint (take_bit 11 (drop_bit 52 b)); m = uint (take_bit 52 b)
      in if e = 2047 then (if m = 0 then FInf neg else FNan)
         else FFin ((if neg then - 1 else 1) * (if e = 0 then f64_scale m (- 1074) else f64_scale (2 ^ 52 + m) (e - 1075))))"

text \<open>Order of the numbers that are not a NaN; both zeros are the rational 0.\<close>

definition f64_key :: "f64 \<Rightarrow> int \<times> rat" where
  "f64_key x = (case x of FNan \<Rightarrow> (0, 0) | FInf neg \<Rightarrow> (if neg then - 1 else 1, 0) | FFin q \<Rightarrow> (0, q))"

definition f64_partial_cmp :: "f64 \<Rightarrow> f64 \<Rightarrow> ordering option" where
  "f64_partial_cmp a b = (if a = FNan \<or> b = FNan then None else Some (cmp (f64_key a) (f64_key b)))"

text \<open>Truncation towards zero.\<close>

definition rat_trunc :: "rat \<Rightarrow> int" where
  "rat_trunc q = (if 0 \<le> q then \<lfloor>q\<rfloor> else \<lceil>q\<rceil>)"

subsection \<open>Values\<close>

datatype any_value = ANull | AInteger i64 | AReal u64 | AText string | ABlob "u8 list"

definition int_real :: "i64 \<Rightarrow> f64 \<Rightarrow> ordering" where
  "int_real i r =
     (case r of
        FNan \<Rightarrow> Greater
      | FInf neg \<Rightarrow> if neg then Greater else Less
      | FFin q \<Rightarrow>
          if q \<ge> 9223372036854775808 then Less
          else if q < - 9223372036854775808 then Greater
          else ord_then (cell_cmp i (of_int (rat_trunc q)))
                 (let fract = q - of_int (rat_trunc q)
                  in if 0 < fract then Less else if fract < 0 then Greater else Equal))"

fun any_class :: "any_value \<Rightarrow> nat" where
  "any_class ANull = 0"
| "any_class (AInteger _) = 1"
| "any_class (AReal _) = 1"
| "any_class (AText _) = 2"
| "any_class (ABlob _) = 3"

fun sqlite_cmp_within :: "any_value \<Rightarrow> any_value \<Rightarrow> ordering" where
  "sqlite_cmp_within (AInteger a) (AInteger b) = cell_cmp a b"
| "sqlite_cmp_within (AReal a) (AReal b) =
     (case f64_partial_cmp (f64_of_bits a) (f64_of_bits b) of Some o1 \<Rightarrow> o1 | None \<Rightarrow> Equal)"
| "sqlite_cmp_within (AInteger a) (AReal b) = int_real a (f64_of_bits b)"
| "sqlite_cmp_within (AReal a) (AInteger b) = ord_reverse (int_real b (f64_of_bits a))"
| "sqlite_cmp_within (AText a) (AText b) = cmp a b"
| "sqlite_cmp_within (ABlob a) (ABlob b) = cmp a b"
| "sqlite_cmp_within _ _ = Equal"

definition sqlite_cmp :: "any_value \<Rightarrow> any_value \<Rightarrow> ordering" where
  "sqlite_cmp a b = ord_then (cmp (any_class a) (any_class b)) (sqlite_cmp_within a b)"

subsection \<open>The comparison of an integer with a double is exact\<close>

lemma rat_trunc_range:
  assumes "- 9223372036854775808 \<le> q" and "q < 9223372036854775808"
  shows "- 9223372036854775808 \<le> rat_trunc q \<and> rat_trunc q < 9223372036854775808"
proof (cases "0 \<le> q")
  case True
  then show ?thesis using assms by (simp add: rat_trunc_def floor_less_iff le_floor_iff)
next
  case False
  then show ?thesis using assms by (simp add: rat_trunc_def ceiling_less_iff le_ceiling_iff)
qed

lemma int_rat_trunc: "n < rat_trunc q \<or> n = rat_trunc q \<and> 0 < q - of_int (rat_trunc q) \<longleftrightarrow> of_int n < q"
proof (cases "0 \<le> q")
  case True
  have "of_int \<lfloor>q\<rfloor> \<le> q" "q < of_int (\<lfloor>q\<rfloor> + 1)" by linarith+
  with True show ?thesis
    by (auto simp: rat_trunc_def less_le) (metis floor_of_int le_floor_iff less_eq_rat_def not_le)+
next
  case False
  have "q \<le> of_int \<lceil>q\<rceil>" by linarith
  with False show ?thesis
    by (auto simp: rat_trunc_def less_ceiling_iff)
qed

definition i64_key :: "i64 \<Rightarrow> int \<times> rat" where
  "i64_key i = (0, of_int (sint i))"

lemma i64_rat_bounds:
  "of_int (sint (i :: i64)) < (9223372036854775808 :: rat)" "- 9223372036854775808 \<le> (of_int (sint i) :: rat)"
proof -
  have "sint i < 9223372036854775808" "- 9223372036854775808 \<le> sint i"
    using sint_i64_le [of i] sint_i64_ge [of i] by simp_all
  then have "(of_int (sint i) :: rat) < of_int 9223372036854775808" "of_int (- 9223372036854775808) \<le> (of_int (sint i) :: rat)"
    by (simp_all only: of_int_less_iff of_int_le_iff)
  then show "of_int (sint i) < (9223372036854775808 :: rat)" "- 9223372036854775808 \<le> (of_int (sint i) :: rat)"
    by simp_all
qed

lemma int_real_key: "r \<noteq> FNan \<Longrightarrow> int_real i r = cmp (i64_key i) (f64_key r)"
proof (cases r)
  case (FInf neg)
  then show ?thesis by (cases neg) (simp_all add: int_real_def i64_key_def f64_key_def cmp_def less_prod_def)
next
  case (FFin q)
  have key: "cmp (i64_key i) (f64_key r) = cmp (of_int (sint i) :: rat) q"
    by (simp add: FFin i64_key_def f64_key_def cmp_def less_prod_def)
  note lt = i64_rat_bounds [of i]
  consider "9223372036854775808 \<le> q" | "q < - 9223372036854775808" | "- 9223372036854775808 \<le> q" "q < 9223372036854775808"
    by linarith
  then show ?thesis
  proof cases
    case 1
    then show ?thesis using lt unfolding key by (simp add: FFin int_real_def cmp_def)
  next
    case 2
    then show ?thesis using lt unfolding key by (simp add: FFin int_real_def cmp_def)
  next
    case 3
    let ?t = "rat_trunc q"
    have t: "sint (of_int ?t :: i64) = ?t"
      using rat_trunc_range [OF 3] by (simp add: sint_sbintrunc' signed_take_bit_int_eq_self)
    have "int_real i r = ord_then (cmp (sint i) ?t)
        (if 0 < q - of_int ?t then Less else if q - of_int ?t < 0 then Greater else Equal)"
      using 3 by (simp add: FFin int_real_def cell_cmp_def t)
    also have "\<dots> = cmp (of_int (sint i)) q"
    proof -
      have eq: "sint i = ?t \<and> q - of_int ?t = 0 \<longleftrightarrow> of_int (sint i) = q"
        by (auto simp: rat_trunc_def simp del: of_int_sint)
      show ?thesis
        using int_rat_trunc [of "sint i" q] eq by (auto simp: cmp_def)
    qed
    finally show ?thesis unfolding key .
  qed
qed simp

definition any_number :: "any_value \<Rightarrow> int \<times> rat" where
  "any_number v = (case v of AInteger i \<Rightarrow> i64_key i | AReal b \<Rightarrow> f64_key (f64_of_bits b) | _ \<Rightarrow> (0, 0))"

definition any_key :: "any_value \<Rightarrow> nat \<times> (int \<times> rat) \<times> string \<times> u8 list" where
  "any_key v = (any_class v, any_number v, (case v of AText s \<Rightarrow> s | _ \<Rightarrow> []), (case v of ABlob b \<Rightarrow> b | _ \<Rightarrow> []))"

definition no_nan :: "any_value \<Rightarrow> bool" where
  "no_nan v \<longleftrightarrow> (case v of AReal b \<Rightarrow> f64_of_bits b \<noteq> FNan | _ \<Rightarrow> True)"

lemma cmp_prod: "cmp (a, b) (c, d) = ord_then (cmp a c) (cmp b d)"
  by (auto simp: cmp_def less_prod_def)

lemma cmp_known: "a < b \<Longrightarrow> cmp a b = Less" "b < a \<Longrightarrow> cmp a b = Greater"
  by simp_all

lemma cell_cmp_key: "cell_cmp a b = cmp (i64_key a) (i64_key b)"
  by (auto simp: cell_cmp_def i64_key_def cmp_def simp del: of_int_sint)

lemma f64_partial_cmp_key: "a \<noteq> FNan \<Longrightarrow> b \<noteq> FNan \<Longrightarrow> f64_partial_cmp a b = Some (cmp (f64_key a) (f64_key b))"
  by (simp add: f64_partial_cmp_def)

lemma sqlite_cmp_key: "no_nan a \<Longrightarrow> no_nan b \<Longrightarrow> sqlite_cmp a b = cmp (any_key a) (any_key b)"
  by (cases a; cases b)
    (simp_all add: sqlite_cmp_def any_key_def cmp_prod any_number_def no_nan_def int_real_key f64_partial_cmp_key cell_cmp_key
      cmp_flip [symmetric] cmp_known del: cmp_iffs)

interpretation any: comparator_on no_nan sqlite_cmp
  by (rule comparator_on_key [where f = any_key]) (rule sqlite_cmp_key)

subsection \<open>Properties\<close>

text \<open>
  C21: Comparing a 64-bit integer with a double decides the order of the two numbers exactly: no
  rounding of the integer to a double, infinities beyond every integer, and both zeros equal to 0.
\<close>

theorem int_real_exact:
  assumes "f64_of_bits b = FFin q"
  shows "int_real i (f64_of_bits b) = cmp (of_int (sint i)) q \<and> int_real i (FInf False) = Less \<and> int_real i (FInf True) = Greater"
proof -
  have "int_real i (FFin q) = cmp (of_int (sint i)) q"
    using int_real_key [of "FFin q" i] by (simp add: i64_key_def f64_key_def cmp_prod)
  then show ?thesis using assms by (simp add: int_real_def)
qed

text \<open>
  C20: SQLite's order over NULL, numbers, text and blobs is a total preorder on the values that are
  not a NaN: comparing twice the other way round reverses, and the order is transitive across
  storage classes and across integers and doubles.
\<close>

theorem sqlite_cmp_total_preorder:
  assumes "no_nan a" and "no_nan b" and "no_nan c"
  shows "sqlite_cmp a a = Equal \<and> sqlite_cmp b a = ord_reverse (sqlite_cmp a b) \<and>
    (sqlite_cmp a b = Greater \<or> sqlite_cmp b c = Greater \<or> sqlite_cmp a c \<noteq> Greater)"
  using any.refl [of a] any.flip [of a b] any.le_trans [of a b c] assms by blast

theorem int_real_exact_witness:
  "int_real 9007199254740993 (f64_of_bits 4845873199050653696) = Greater"
proof -
  have "f64_of_bits 4845873199050653696 = FFin 9007199254740992"
    by (simp add: f64_of_bits_def Let_def f64_scale_def)
  from int_real_exact [OF this] show ?thesis by (simp add: cmp_def)
qed

theorem sqlite_cmp_total_preorder_witness:
  "sqlite_cmp (AText ''b'') (AInteger 3) = ord_reverse (sqlite_cmp (AInteger 3) (AText ''b''))"
  using sqlite_cmp_total_preorder [of "AInteger 3" "AText ''b''" ANull] by (simp add: no_nan_def)

end
