(* ===== verification/Ir_Types.thy ===== *)
theory Ir_Types
  imports Ir_Strings Ir_Values
begin

text \<open>
  The program representation every engine reads (\<open>crates/ivm-ir/src/0_ir.rs\<close>): column types,
  relations, scalar expressions, operators, strata and programs, with the walks over them that
  do not compute types. Relation, node and column numbers and table indexes are naturals; a cell
  is an \<open>i64\<close>.
\<close>

subsection \<open>Programs\<close>

type_synonym cell = i64
type_synonym ir_row = "i64 list"

datatype ty = TInt | TId | TText | TReal | TAny

datatype rel_kind = KSource | KDerived | KConstructor

record ir_relation =
  ir_id :: nat
  ir_name :: string
  ir_cols :: "ty list"
  ir_kind :: rel_kind

datatype func =
    FEq | FNe | FLt | FLe | FGt | FGe | FAdd | FSub | FAnd | FOr | FNot | FTermLt | FStrNil

datatype expr = ECol nat | ELit i64 | EText nat | ECall func "expr list" | ETerm nat

datatype term_arg = TaTerm nat | TaText nat | TaRaw i64

record term_lit =
  lit_functor :: nat
  lit_args :: "term_arg list"

datatype str_mode = Construct nat nat | Decompose nat

datatype vec_op = VBuild | VIter | VLen | VGet

datatype agg = ACount | ASum nat | AMin nat | AMax nat

record order_by =
  ob_col :: nat
  ob_desc :: bool

datatype win_fn = WRowNumber | WRank | WDenseRank | WLag nat | WLead nat | WSum nat | WCount

datatype ir_op =
    OGet nat
  | OMint nat nat "nat list"                          \<comment> \<open>input, functor, args\<close>
  | OStrCons nat str_mode
  | OStr nat str_op "nat list"
  | OVec nat vec_op "nat list"
  | OMfp nat "expr list" "expr list" "nat list"       \<comment> \<open>input, filter, map, project\<close>
  | OUnion "nat list"
  | ONegate nat
  | OJoin "nat list" "(nat \<times> nat) list list" "nat list" \<comment> \<open>inputs, equivalences, project\<close>
  | OAntijoin nat nat "nat list" "nat list"           \<comment> \<open>l, r, lk, rk\<close>
  | OReduce nat "nat list" "agg list"
  | OThreshold nat
  | OTopK nat "nat list" "order_by list" nat          \<comment> \<open>input, key, order, limit\<close>
  | OWindow nat "nat list" "order_by list" win_fn     \<comment> \<open>input, partition, order, func\<close>
  | ODelay nat

datatype let_rec = LetRec (rec_ids: "nat list") (rec_bodies: "nat list") (rec_limit: "nat option") (rec_nested: "let_rec list")

datatype stratum = SLet nat nat | SLetRec let_rec

record ir_program =
  pr_texts :: "string list"
  pr_terms :: "term_lit list"
  pr_rels :: "ir_relation list"
  pr_nodes :: "ir_op list"
  pr_strata :: "stratum list"
  pr_outputs :: "nat list"

record ir_change =
  ic_rel :: nat
  ic_row :: ir_row
  ic_w :: i64

type_synonym ir_frontier = "ir_change list"

record ir_delta =
  id_tick :: nat
  id_changes :: "(nat \<times> ir_row \<times> i64) list"

subsection \<open>Reading a program\<close>

text \<open>\<open>resize\<close> of a vector that is too short.\<close>

definition vec_resize :: "'a list \<Rightarrow> nat \<Rightarrow> 'a \<Rightarrow> 'a list" where
  "vec_resize xs n d = (if length xs < n then xs @ replicate (n - length xs) d else xs)"

lemma vec_out_of_range [simp]: "length xs \<le> i \<Longrightarrow> vec_get xs i = None"
  by simp

fun type_inputs :: "ir_op \<Rightarrow> nat list" where
  "type_inputs (OGet _) = []"
| "type_inputs (OMint i _ _) = [i]"
| "type_inputs (OStrCons i _) = [i]"
| "type_inputs (OStr i _ _) = [i]"
| "type_inputs (OVec i _ _) = [i]"
| "type_inputs (OMfp i _ _ _) = [i]"
| "type_inputs (ONegate i) = [i]"
| "type_inputs (OThreshold i) = [i]"
| "type_inputs (ODelay i) = [i]"
| "type_inputs (OReduce i _ _) = [i]"
| "type_inputs (OTopK i _ _ _) = [i]"
| "type_inputs (OWindow i _ _ _) = [i]"
| "type_inputs (OAntijoin l _ _ _) = [l]"
| "type_inputs (OUnion is) = take (min (length is) 1) is"
| "type_inputs (OJoin is _ _) = is"

definition rec_binds :: "let_rec \<Rightarrow> nat \<Rightarrow> bool" where
  "rec_binds r rel \<longleftrightarrow> rel \<in> set (rec_ids r) \<or> list_ex (\<lambda>inner. rel \<in> set (rec_ids inner)) (rec_nested r)"

definition ir_rel :: "ir_program \<Rightarrow> nat \<Rightarrow> ir_relation option" where
  "ir_rel p i = find (\<lambda>r. ir_id r = i) (pr_rels p)"

text \<open>
  \<open>reads_strings\<close> keeps a vector of expressions to visit and pops its last; here the last is the
  head, so the arguments of a call are pushed reversed.
\<close>

function reads_strings_walk :: "expr list \<Rightarrow> bool" where
  "reads_strings_walk [] \<longleftrightarrow> False"
| "reads_strings_walk (next1 # walk) \<longleftrightarrow>
     (case next1 of
        EText _ \<Rightarrow> True
      | ECall f args \<Rightarrow> if f = FStrNil then True else reads_strings_walk (rev args @ walk)
      | _ \<Rightarrow> reads_strings_walk walk)"
  by pat_completeness auto
termination
  by (relation "measure (size_list size)") (auto simp: size_list_conv_sum_list sum_list_rev rev_map [symmetric])

definition reads_strings :: "expr \<Rightarrow> bool" where
  "reads_strings e = reads_strings_walk [e]"

definition uses_strings :: "ir_program \<Rightarrow> bool" where
  "uses_strings p \<longleftrightarrow> pr_texts p \<noteq> [] \<or>
     list_ex (\<lambda>op. case op of
         OStrCons _ _ \<Rightarrow> True | OStr _ _ _ \<Rightarrow> True
       | OMfp _ fs ms _ \<Rightarrow> list_ex reads_strings (fs @ ms)
       | _ \<Rightarrow> False) (pr_nodes p)"

subsection \<open>The walk finds exactly the expressions that read text\<close>

text \<open>The subexpressions of an expression.\<close>

fun subexprs :: "expr \<Rightarrow> expr set" where
  "subexprs (ECall f args) = insert (ECall f args) (\<Union>a \<in> set args. subexprs a)"
| "subexprs e = {e}"

definition text_node :: "expr \<Rightarrow> bool" where
  "text_node e \<longleftrightarrow> (case e of EText _ \<Rightarrow> True | ECall f _ \<Rightarrow> f = FStrNil | _ \<Rightarrow> False)"

lemma reads_strings_walk_iff: "reads_strings_walk es \<longleftrightarrow> (\<exists>e \<in> set es. \<exists>s \<in> subexprs e. text_node s)"
proof (induction es rule: reads_strings_walk.induct)
  case (2 e walk)
  show ?case
  proof (cases e)
    case (ECall f args)
    then show ?thesis using 2(3) [OF ECall] by (cases "f = FStrNil") (auto simp: text_node_def)
  qed (use 2 in \<open>auto simp: text_node_def\<close>)
qed simp

lemma reads_strings_iff: "reads_strings e \<longleftrightarrow> (\<exists>s \<in> subexprs e. text_node s)"
  by (simp add: reads_strings_def reads_strings_walk_iff)

text \<open>
  An engine mints the empty string at install exactly when the program can read text: it has
  a text table, a string operator, or an expression with a text or empty-string node at any depth.
\<close>

theorem uses_strings_iff:
  "uses_strings p \<longleftrightarrow> 0 < length (pr_texts p) \<or> (\<exists>op \<in> set (pr_nodes p). (\<exists>i m. op = OStrCons i m) \<or> (\<exists>i s a. op = OStr i s a) \<or>
     (\<exists>i fs ms pj. op = OMfp i fs ms pj \<and> (\<exists>e \<in> set (fs @ ms). \<exists>s \<in> subexprs e. text_node s)))"
proof -
  have "(case op of OStrCons _ _ \<Rightarrow> True | OStr _ _ _ \<Rightarrow> True
       | OMfp _ fs ms _ \<Rightarrow> list_ex reads_strings (fs @ ms) | _ \<Rightarrow> False) \<longleftrightarrow>
     (\<exists>i m. op = OStrCons i m) \<or> (\<exists>i s a. op = OStr i s a) \<or>
     (\<exists>i fs ms pj. op = OMfp i fs ms pj \<and> (\<exists>e \<in> set (fs @ ms). \<exists>s \<in> subexprs e. text_node s))" for op
    by (cases op) (auto simp: list_ex_iff reads_strings_iff)
  then show ?thesis by (simp add: uses_strings_def list_ex_iff)
qed

end
