(* ===== verification/Ir_Typing.thy ===== *)
theory Ir_Typing
  imports Ir_Types
begin

text \<open>
  Column types (\<open>expr_type\<close> and \<open>Program::node_types\<close> of \<open>crates/ivm-ir/src/0_ir.rs\<close>). Both walks
  run on an explicit stack, modelled as the loop it is (the top of the stack is the head of the
  list), and are shown to compute the typing that the structure of the expression, or of the node
  graph, defines.
\<close>

subsection \<open>Expressions\<close>

definition sum_ty :: "ty \<Rightarrow> ty \<Rightarrow> ty" where
  "sum_ty left right = (if left = TReal \<or> right = TReal then TReal else TInt)"

fun expr_node_type :: "expr \<Rightarrow> ty list \<Rightarrow> ty option list \<Rightarrow> ty option" where
  "expr_node_type (ECol c) cols operands = vec_get cols c"
| "expr_node_type (EText _) cols operands = Some TText"
| "expr_node_type (ELit _) cols operands = Some TInt"
| "expr_node_type (ETerm _) cols operands = Some TId"
| "expr_node_type (ECall f _) cols operands =
     (if f = FStrNil then Some TText
      else if f = FAdd \<or> f = FSub then
        (case operands of [Some left, Some right] \<Rightarrow> Some (sum_ty left right) | _ \<Rightarrow> None)
      else Some TInt)"

fun type_operands :: "expr \<Rightarrow> expr list" where
  "type_operands (ECall f args) = (if f = FAdd \<or> f = FSub then take (min (length args) 2) args else [])"
| "type_operands _ = []"

lemma type_operands_size: "size_list size (type_operands e) \<le> size e"
proof (cases e)
  case (ECall f args)
  have "size_list size (take n args) \<le> size_list size args" for n
    by (induction args arbitrary: n) (auto simp: take_Cons split: nat.split)
  then show ?thesis using ECall by (auto intro: le_SucI)
qed auto

lemma size_member: "z \<in> set xs \<Longrightarrow> size z < size_list size xs"
  by (induction xs) auto

text \<open>\<open>order\<close>: every expression whose type is read, in the order the stack visits them.\<close>

function type_order :: "expr list \<Rightarrow> expr list" where
  "type_order [] = []"
| "type_order (next1 # walk) = next1 # type_order (rev (type_operands next1) @ walk)"
  by pat_completeness auto
termination
proof (relation "measure (size_list size)")
  fix e :: expr and walk
  have "size_list size (rev xs) = size_list size xs" for xs :: "expr list"
    by (simp add: size_list_conv_sum_list sum_list_rev rev_map [symmetric])
  then show "(rev (type_operands e) @ walk, e # walk) \<in> measure (size_list size)"
    using type_operands_size [of e] by simp
qed simp

fun type_done :: "ty list \<Rightarrow> expr list \<Rightarrow> ty option list \<Rightarrow> ty option list" where
  "type_done cols [] done1 = done1"
| "type_done cols (e # es) done1 =
     (let base = length done1 - length (type_operands e)
      in type_done cols es (take base done1 @ [expr_node_type e cols (drop base done1)]))"

definition expr_type :: "expr \<Rightarrow> ty list \<Rightarrow> ty option" where
  "expr_type e cols =
     (let operands = type_operands e
      in if list_all (\<lambda>o1. type_operands o1 = []) operands
         then expr_node_type e cols
                (take (length operands) (map (\<lambda>i. Option.bind (vec_get operands i) (\<lambda>o1. expr_node_type o1 cols [])) [0, 1]))
         else (case rev (type_done cols (rev (type_order [e])) []) of [] \<Rightarrow> None | t # _ \<Rightarrow> t))"

subsection \<open>The type of an expression, by its structure\<close>

function expr_typing :: "ty list \<Rightarrow> expr \<Rightarrow> ty option" where
  "expr_typing cols e = expr_node_type e cols (map (expr_typing cols) (type_operands e))"
  by pat_completeness auto
termination
proof (relation "measure (\<lambda>(cols, e). size e)")
  fix cols e z
  assume "z \<in> set (type_operands e)"
  then have "size z < size_list size (type_operands e)" by (rule size_member)
  then show "((cols, z), cols, e) \<in> measure (\<lambda>(cols, e). size e)"
    using type_operands_size [of e] by simp
qed simp

declare expr_typing.simps [simp del]

lemmas expr_typing_simps =
  expr_typing.simps [of _ "ECall f args" for f args] expr_typing.simps [of _ "ECol c" for c] expr_typing.simps [of _ "ELit v" for v]
  expr_typing.simps [of _ "EText i" for i] expr_typing.simps [of _ "ETerm i" for i]

lemma type_done_append: "type_done cols (es @ fs) d = type_done cols fs (type_done cols es d)"
  by (induction es arbitrary: d) (auto simp: Let_def)

lemma type_done_order:
  "type_done cols (rev (type_order es)) d = d @ map (expr_typing cols) (rev es)"
proof (induction es arbitrary: d rule: type_order.induct)
  case (2 e walk)
  then have "type_done cols (rev (type_order (rev (type_operands e) @ walk))) d =
      d @ map (expr_typing cols) (rev walk) @ map (expr_typing cols) (type_operands e)" by simp
  then show ?case by (simp add: type_done_append expr_typing.simps [of cols e])
qed simp

lemma expr_type_typing: "expr_type e cols = expr_typing cols e"
proof (cases "list_all (\<lambda>o1. type_operands o1 = []) (type_operands e)")
  case False
  have "type_done cols (rev (type_order [e])) [] = [expr_typing cols e]"
    using type_done_order [of cols "[e]" "[]"] by simp
  with False show ?thesis by (simp add: expr_type_def del: type_order.simps)
next
  case True
  have short: "length (type_operands e) \<le> 2" by (cases e) auto
  have leaf: "expr_typing cols o1 = expr_node_type o1 cols []" if "o1 \<in> set (type_operands e)" for o1
    using True that by (subst expr_typing.simps) (auto simp: list_all_iff)
  have "take (length ops) (map (\<lambda>i. Option.bind (vec_get ops i) (\<lambda>o1. expr_node_type o1 cols [])) [0, 1]) =
      map (expr_typing cols) ops" if "ops = type_operands e" for ops
  proof -
    from short that consider "ops = []" | a where "ops = [a]" | a b where "ops = [a, b]"
      by (metis length_0_conv length_Suc_conv le_Suc_eq le_zero_eq numeral_2_eq_2)
    then show ?thesis by cases (use leaf that in \<open>auto simp: vec_get_def\<close>)
  qed
  then show ?thesis using True by (simp add: expr_type_def Let_def expr_typing.simps [of cols e])
qed

text \<open>
  The type of an expression, computed with an explicit stack and a shortcut for flat sums, is
  the one its structure gives: each node's type from the types of the operands it reads.
\<close>

theorem expr_type_structural:
  "expr_type e cols = expr_node_type e cols (map (\<lambda>o1. expr_type o1 cols) (type_operands e))"
  unfolding expr_type_typing by (rule expr_typing.simps)

subsection \<open>Operators\<close>

definition project_types :: "ty list \<Rightarrow> nat list \<Rightarrow> ty list option" where
  "project_types cols project = (if project = [] then Some cols else map_option_list (vec_get cols) project)"

fun push_types :: "ty list \<Rightarrow> expr list \<Rightarrow> ty list option" where
  "push_types cols [] = Some cols"
| "push_types cols (e # es) = Option.bind (expr_type e cols) (\<lambda>t. push_types (cols @ [t]) es)"

fun agg_type :: "ty list \<Rightarrow> agg \<Rightarrow> ty option" where
  "agg_type cols (AMin c) = vec_get cols c"
| "agg_type cols (AMax c) = vec_get cols c"
| "agg_type cols ACount = Some TInt"
| "agg_type cols (ASum c) =
     map_option (\<lambda>t. if t = TReal then TReal else if t = TAny then TAny else TInt) (vec_get cols c)"

fun op_types :: "ir_program \<Rightarrow> ir_op \<Rightarrow> (nat \<Rightarrow> ty list option) \<Rightarrow> ty list option" where
  "op_types p (OGet rel) types_of = map_option ir_cols (ir_rel p rel)"
| "op_types p (OMint i _ _) types_of = map_option (\<lambda>cols. cols @ [TId]) (types_of i)"
| "op_types p (OStrCons i mode) types_of =
     map_option (\<lambda>cols. cols @ replicate (case mode of Construct _ _ \<Rightarrow> 1 | Decompose _ \<Rightarrow> 2) TId) (types_of i)"
| "op_types p (OStr i op _) types_of =
     map_option (\<lambda>cols. case str_result op of Some KText \<Rightarrow> cols @ [TId] | Some KInt \<Rightarrow> cols @ [TInt] | None \<Rightarrow> cols) (types_of i)"
| "op_types p (OVec i op _) types_of =
     map_option (\<lambda>cols. case op of VBuild \<Rightarrow> cols @ [TId] | VIter \<Rightarrow> cols @ [TInt, TId]
                                | VLen \<Rightarrow> cols @ [TInt] | VGet \<Rightarrow> cols @ [TId]) (types_of i)"
| "op_types p (OMfp i _ exprs project) types_of =
     Option.bind (types_of i) (\<lambda>cols0. Option.bind (push_types cols0 exprs) (\<lambda>cols. project_types cols project))"
| "op_types p (OUnion ins) types_of = (case ins of [] \<Rightarrow> None | i # _ \<Rightarrow> types_of i)"
| "op_types p (ONegate i) types_of = types_of i"
| "op_types p (OThreshold i) types_of = types_of i"
| "op_types p (ODelay i) types_of = types_of i"
| "op_types p (OJoin ins _ project) types_of =
     Option.bind (map_option_list types_of ins) (\<lambda>colss. project_types (concat colss) project)"
| "op_types p (OAntijoin l _ _ _) types_of = types_of l"
| "op_types p (OReduce i key aggs) types_of =
     Option.bind (types_of i) (\<lambda>cols. Option.bind (map_option_list (vec_get cols) key)
       (\<lambda>out. map_option (\<lambda>ags. out @ ags) (map_option_list (agg_type cols) aggs)))"
| "op_types p (OTopK i _ _ _) types_of = types_of i"
| "op_types p (OWindow i _ ord func) types_of =
     Option.bind (types_of i) (\<lambda>cols.
       let value1 = (case ord of [] \<Rightarrow> 0 | o1 # _ \<Rightarrow> ob_col o1)
       in map_option (\<lambda>t. cols @ [t])
            (case func of WSum c \<Rightarrow> vec_get cols c | WLag _ \<Rightarrow> vec_get cols value1
                        | WLead _ \<Rightarrow> vec_get cols value1 | _ \<Rightarrow> Some TInt))"

lemma op_types_cong:
  "(\<And>i. i \<in> set (type_inputs op) \<Longrightarrow> f i = g i) \<Longrightarrow> op_types p op f = op_types p op g"
proof (cases op)
  case (OJoin ins eqs project)
  assume "\<And>i. i \<in> set (type_inputs op) \<Longrightarrow> f i = g i"
  with OJoin have "map_option_list f ins = map_option_list g ins" by (intro map_option_list_cong) auto
  with OJoin show ?thesis by simp
next
  case (OUnion ins)
  assume "\<And>i. i \<in> set (type_inputs op) \<Longrightarrow> f i = g i"
  with OUnion show ?thesis by (cases ins) auto
qed auto

subsection \<open>Nodes, with an explicit stack\<close>

datatype type_step = TEnter nat nat | TBuild nat

text \<open>\<open>inputs.iter().position(|x| *x == n)?\<close>, then the slot of \<open>done\<close> it stands for.\<close>

definition input_types :: "nat list \<Rightarrow> 'a option list \<Rightarrow> nat \<Rightarrow> 'a option" where
  "input_types inputs types n = (case map_of (zip inputs types) n of None \<Rightarrow> None | Some ts \<Rightarrow> ts)"

definition step_height :: "ir_program \<Rightarrow> type_step \<Rightarrow> nat" where
  "step_height p step = (case step of TEnter _ depth \<Rightarrow> length (pr_nodes p) + 2 - depth | TBuild _ \<Rightarrow> 0)"

function node_types_loop :: "ir_program \<Rightarrow> type_step list \<Rightarrow> ty list option list \<Rightarrow> ty list option" where
  "node_types_loop p [] done1 = (case rev done1 of [] \<Rightarrow> None | ts # _ \<Rightarrow> ts)"
| "node_types_loop p (TEnter node depth # steps) done1 =
     (if depth > length (pr_nodes p) then None
      else case vec_get (pr_nodes p) node of
             None \<Rightarrow> node_types_loop p steps (done1 @ [None])
           | Some op \<Rightarrow> node_types_loop p (map (\<lambda>n. TEnter n (depth + 1)) (type_inputs op) @ TBuild node # steps) done1)"
| "node_types_loop p (TBuild node # steps) done1 =
     (let op = pr_nodes p ! node; inputs = type_inputs op; base = length done1 - length inputs;
          types = op_types p op (input_types inputs (drop base done1))
      in node_types_loop p steps (take base done1 @ [types]))"
  by pat_completeness auto
termination
proof (relation "inv_image (mult less_than) (\<lambda>(p, steps, done1). image_mset (step_height p) (mset steps))")
  show "wf (inv_image (mult less_than) (\<lambda>(p, steps, done1). image_mset (step_height p) (mset steps)))"
    by (intro wf_inv_image wf_mult wf_less_than)
next
  fix p :: ir_program and node depth steps and done1 :: "ty list option list"
  show "((p, steps, done1 @ [None]), p, TEnter node depth # steps, done1) \<in>
      inv_image (mult less_than) (\<lambda>(p, steps, done1). image_mset (step_height p) (mset steps))"
    by (auto intro: subset_implies_mult)
next
  fix p :: ir_program and node depth steps and done1 :: "ty list option list" and op
  assume d: "\<not> length (pr_nodes p) < depth"
  let ?K = "image_mset (step_height p) (mset (map (\<lambda>n. TEnter n (depth + 1)) (type_inputs op) @ [TBuild node]))"
  have "(image_mset (step_height p) (mset steps) + ?K, image_mset (step_height p) (mset steps) + {#step_height p (TEnter node depth)#}) \<in> mult less_than"
    using d by (intro one_step_implies_mult) (auto simp: step_height_def)
  then show "((p, map (\<lambda>n. TEnter n (depth + 1)) (type_inputs op) @ TBuild node # steps, done1), p, TEnter node depth # steps, done1) \<in>
      inv_image (mult less_than) (\<lambda>(p, steps, done1). image_mset (step_height p) (mset steps))"
    by (simp add: ac_simps)
next
  fix p :: ir_program and node steps and done1 done2 :: "ty list option list"
  show "((p, steps, done2), p, TBuild node # steps, done1) \<in>
      inv_image (mult less_than) (\<lambda>(p, steps, done1). image_mset (step_height p) (mset steps))"
    by (auto intro: subset_implies_mult)
qed

definition node_types :: "ir_program \<Rightarrow> nat \<Rightarrow> ty list option" where
  "node_types p i = node_types_loop p [TEnter i 0] []"

subsection \<open>The typing of the node graph\<close>

fun types_fuel :: "ir_program \<Rightarrow> nat \<Rightarrow> nat \<Rightarrow> ty list option option" where
  "types_fuel p 0 i = None"
| "types_fuel p (Suc k) i =
     (case vec_get (pr_nodes p) i of None \<Rightarrow> Some None
      | Some op \<Rightarrow> map_option (\<lambda>tss. op_types p op (input_types (type_inputs op) tss))
                    (map_option_list (types_fuel p k) (type_inputs op)))"

lemma node_types_loop_enter:
  assumes "\<And>i steps done1. node_types_loop p (TEnter i d # steps) done1 =
      (case types_fuel p k i of None \<Rightarrow> None | Some ts \<Rightarrow> node_types_loop p steps (done1 @ [ts]))"
  shows "node_types_loop p (map (\<lambda>n. TEnter n d) ins @ steps) done1 =
      (case map_option_list (types_fuel p k) ins of None \<Rightarrow> None | Some tss \<Rightarrow> node_types_loop p steps (done1 @ tss))"
  by (induction ins arbitrary: done1)
    (simp_all add: assms del: node_types_loop.simps split: option.split)

lemma node_types_loop_fuel:
  "k = length (pr_nodes p) + 1 - d \<Longrightarrow> node_types_loop p (TEnter i d # steps) done1 =
     (case types_fuel p k i of None \<Rightarrow> None | Some ts \<Rightarrow> node_types_loop p steps (done1 @ [ts]))"
proof (induction k arbitrary: d i steps done1)
  case 0
  then show ?case by simp
next
  case (Suc k)
  then have d: "\<not> length (pr_nodes p) < d" and k: "k = length (pr_nodes p) + 1 - (d + 1)" by simp_all
  show ?case
  proof (cases "vec_get (pr_nodes p) i")
    case None
    with d show ?thesis by simp
  next
    case (Some op)
    let ?ins = "type_inputs op"
    have "node_types_loop p (TEnter i d # steps) done1 =
        node_types_loop p (map (\<lambda>n. TEnter n (d + 1)) ?ins @ TBuild i # steps) done1"
      using d Some by simp
    also have "\<dots> = (case map_option_list (types_fuel p k) ?ins of None \<Rightarrow> None
        | Some tss \<Rightarrow> node_types_loop p (TBuild i # steps) (done1 @ tss))"
      by (rule node_types_loop_enter [OF Suc.IH [OF k]])
    also have "\<dots> = (case map_option_list (types_fuel p k) ?ins of None \<Rightarrow> None
        | Some tss \<Rightarrow> node_types_loop p steps (done1 @ [op_types p op (input_types ?ins tss)]))"
      using Some by (auto split: option.split simp: Let_def dest: map_option_list_length)
    finally show ?thesis
      using Some by (cases "map_option_list (types_fuel p k) ?ins") simp_all
  qed
qed

lemma node_types_fuel:
  "node_types p i = (case types_fuel p (length (pr_nodes p) + 1) i of None \<Rightarrow> None | Some ts \<Rightarrow> ts)"
  unfolding node_types_def by (subst node_types_loop_fuel [OF refl]) (simp split: option.split)

text \<open>Edges of the graph go from a node to the inputs whose types it reads.\<close>

definition node_edges :: "ir_program \<Rightarrow> (nat \<times> nat) set" where
  "node_edges p = {(u, v). u < length (pr_nodes p) \<and> v \<in> set (type_inputs (pr_nodes p ! u))}"

definition cyclic_from :: "ir_program \<Rightarrow> nat \<Rightarrow> bool" where
  "cyclic_from p i \<longleftrightarrow> (\<exists>x. (i, x) \<in> (node_edges p)\<^sup>* \<and> (x, x) \<in> (node_edges p)\<^sup>+)"

lemma types_fuel_None_iff: "types_fuel p k i = None \<longleftrightarrow> (\<exists>y. (i, y) \<in> node_edges p ^^ k)"
proof (induction k arbitrary: i)
  case (Suc k)
  have collect: "map_option_list f xs = None \<longleftrightarrow> (\<exists>x \<in> set xs. f x = None)" for f :: "nat \<Rightarrow> ty list option option" and xs
    by (induction xs) (auto split: option.split)
  have "(\<exists>y. (i, y) \<in> node_edges p ^^ Suc k) \<longleftrightarrow> (\<exists>v. (i, v) \<in> node_edges p \<and> (\<exists>y. (v, y) \<in> node_edges p ^^ k))"
    by (meson relpow_Suc_D2 relpow_Suc_I2)
  also have "\<dots> \<longleftrightarrow> (\<exists>v. (i, v) \<in> node_edges p \<and> types_fuel p k v = None)"
    by (simp add: Suc.IH)
  also have "\<dots> \<longleftrightarrow> types_fuel p (Suc k) i = None"
    by (auto simp: node_edges_def collect split: option.split)
  finally show ?case by simp
qed auto

lemma acyclic_path_bound:
  assumes "(i, y) \<in> node_edges p ^^ k" and "\<not> cyclic_from p i"
  shows "k \<le> card ({x. (i, x) \<in> (node_edges p)\<^sup>*} \<inter> {..<length (pr_nodes p)})"
  using assms
proof (induction k arbitrary: i)
  case (Suc k)
  then obtain v where v: "(i, v) \<in> node_edges p" "(v, y) \<in> node_edges p ^^ k"
    by (meson relpow_Suc_D2)
  let ?R = "\<lambda>i. {x. (i, x) \<in> (node_edges p)\<^sup>*} \<inter> {..<length (pr_nodes p)}"
  have "\<not> cyclic_from p v"
    using Suc.prems(2) v(1) by (auto simp: cyclic_from_def intro: converse_rtrancl_into_rtrancl)
  then have k: "k \<le> card (?R v)" by (rule Suc.IH [OF v(2)])
  have "i \<notin> ?R v"
    using Suc.prems(2) v(1) by (auto simp: cyclic_from_def dest: rtrancl_into_trancl2)
  moreover have "insert i (?R v) \<subseteq> ?R i"
    using v(1) by (auto simp: node_edges_def intro: converse_rtrancl_into_rtrancl)
  ultimately have "card (?R v) < card (?R i)"
    by (intro psubset_card_mono) auto
  with k show ?case by simp
qed simp

lemma types_fuel_cyclic:
  "types_fuel p (length (pr_nodes p) + 1) i = None \<longleftrightarrow> cyclic_from p i"
proof
  assume "types_fuel p (length (pr_nodes p) + 1) i = None"
  then obtain y where y: "(i, y) \<in> node_edges p ^^ (length (pr_nodes p) + 1)"
    unfolding types_fuel_None_iff by blast
  show "cyclic_from p i"
  proof (rule ccontr)
    assume "\<not> cyclic_from p i"
    from acyclic_path_bound [OF y this]
    have "length (pr_nodes p) + 1 \<le> card {..<length (pr_nodes p)}"
      by (meson card_mono finite_lessThan inf_le2 order_trans)
    then show False by simp
  qed
next
  have far: "\<exists>y. (x, y) \<in> node_edges p ^^ k \<and> (x, x) \<in> (node_edges p)\<^sup>+"
    if "(x, x) \<in> (node_edges p)\<^sup>+" for x k
  proof -
    have "\<exists>y. (x, y) \<in> node_edges p ^^ k \<and> (y, y) \<in> (node_edges p)\<^sup>+"
    proof (induction k)
      case (Suc k)
      then obtain y where y: "(x, y) \<in> node_edges p ^^ k" "(y, y) \<in> (node_edges p)\<^sup>+" by blast
      then obtain z where "(y, z) \<in> node_edges p" "(z, y) \<in> (node_edges p)\<^sup>*"
        by (meson tranclD)
      with y show ?case by (auto intro!: exI [of _ z] dest: rtrancl_into_trancl1)
    qed (use that in auto)
    with that show ?thesis by blast
  qed
  assume "cyclic_from p i"
  then obtain x where x: "(i, x) \<in> (node_edges p)\<^sup>*" "(x, x) \<in> (node_edges p)\<^sup>+"
    by (auto simp: cyclic_from_def)
  then obtain m where m: "(i, x) \<in> node_edges p ^^ m" by (auto dest: rtrancl_imp_relpow)
  have "\<exists>y. (i, y) \<in> node_edges p ^^ k" for k
  proof -
    from far [OF x(2), of k] obtain y where "(x, y) \<in> node_edges p ^^ k" by blast
    with m have "(i, y) \<in> node_edges p ^^ (k + m)" by (auto simp: relpow_add add.commute [of k])
    then have "(i, y) \<in> node_edges p ^^ k O node_edges p ^^ m" by (simp add: relpow_add)
    then show ?thesis by blast
  qed
  then show "types_fuel p (length (pr_nodes p) + 1) i = None" by (simp only: types_fuel_None_iff)
qed

lemma types_fuel_mono: "types_fuel p k i = Some ts \<Longrightarrow> k \<le> k' \<Longrightarrow> types_fuel p k' i = Some ts"
proof (induction k arbitrary: i ts k')
  case (Suc k)
  then obtain k'' where k'': "k' = Suc k''" "k \<le> k''" by (cases k') auto
  show ?case
  proof (cases "vec_get (pr_nodes p) i")
    case (Some op)
    with Suc.prems obtain tss where tss: "map_option_list (types_fuel p k) (type_inputs op) = Some tss"
      "ts = op_types p op (input_types (type_inputs op) tss)" by auto
    then have "map_option_list (types_fuel p k'') (type_inputs op) = Some tss"
      using Suc.IH k''(2) unfolding map_option_list_Some_iff by (metis (mono_tags, lifting) list_all2_mono)
    with Some tss k''(1) show ?thesis by simp
  qed (use Suc.prems k'' in auto)
qed simp

lemma input_types_map:
  "n \<in> set ins \<Longrightarrow> input_types ins (map f ins) n = f n"
  by (simp add: input_types_def map_of_zip_map)

lemma node_types_step:
  assumes "\<not> cyclic_from p i"
  shows "node_types p i = Option.bind (vec_get (pr_nodes p) i) (\<lambda>op. op_types p op (node_types p))"
proof (cases "vec_get (pr_nodes p) i")
  case None
  then show ?thesis by (simp add: node_types_fuel)
next
  case (Some op)
  let ?n = "length (pr_nodes p)"
  from assms obtain ts where ts: "types_fuel p (?n + 1) i = Some ts"
    using types_fuel_cyclic [of p i] by auto
  with Some obtain tss where tss: "map_option_list (types_fuel p ?n) (type_inputs op) = Some tss"
    "ts = op_types p op (input_types (type_inputs op) tss)" by auto
  have "node_types p x = t" if "types_fuel p ?n x = Some t" for x t
    using types_fuel_mono [OF that, of "?n + 1"] by (simp add: node_types_fuel del: types_fuel.simps)
  then have "tss = map (node_types p) (type_inputs op)"
    using tss(1) unfolding map_option_list_Some_iff list_all2_conv_all_nth
    by (auto intro!: nth_equalityI simp del: types_fuel.simps)
  then have "ts = op_types p op (node_types p)"
    unfolding tss(2) by (auto intro: op_types_cong simp: input_types_map)
  with ts Some show ?thesis by (simp add: node_types_fuel del: types_fuel.simps)
qed

lemma node_types_cyclic: "cyclic_from p i \<Longrightarrow> node_types p i = None"
  using types_fuel_cyclic [of p i] by (simp add: node_types_fuel)

text \<open>
  C10: The stack walk over the node graph always returns, and it computes the typing of the graph:
  on a node from which no cycle of inputs is reachable, the operator's types from its inputs'
  types (a node that does not exist has none), and no types where a cycle is reachable.
\<close>

theorem node_types_correct:
  "node_types p i =
     (if cyclic_from p i then None else Option.bind (vec_get (pr_nodes p) i) (\<lambda>op. op_types p op (node_types p)))"
proof (cases "cyclic_from p i")
  case True
  then show ?thesis by (simp add: node_types_cyclic)
next
  case False
  then show ?thesis by (simp add: node_types_step [symmetric])
qed

end
