(* ===== verification/Ir_Memo.thy ===== *)
theory Ir_Memo
  imports Ir_Typing
begin

text \<open>
  \<open>Program::node_types_memo\<close> of \<open>crates/ivm-ir/src/0_ir.rs\<close>: the typing of many nodes of one
  program through a table that is filled once per node, by a depth-first walk that stops at a
  node it meets again before it is typed. It is shown to agree with \<open>node_types\<close>.
\<close>

subsection \<open>The walk\<close>

type_synonym type_memo = "ty list option option list"

definition memo_get :: "type_memo \<Rightarrow> nat \<Rightarrow> ty list option" where
  "memo_get memo n = (case vec_get memo n of Some (Some ts) \<Rightarrow> ts | _ \<Rightarrow> None)"

definition unopened :: "ir_program \<Rightarrow> bool list \<Rightarrow> nat set" where
  "unopened p opn = {i. i < length (pr_nodes p) \<and> \<not> (i < length opn \<and> opn ! i)}"

text \<open>The flag of the result tells a walk that emptied its stack from an early return.\<close>

function memo_loop :: "ir_program \<Rightarrow> type_memo \<Rightarrow> bool list \<Rightarrow> (nat \<times> bool) list \<Rightarrow> bool \<times> type_memo" where
  "memo_loop p memo opn [] = (True, memo)"
| "memo_loop p memo opn ((node, expanded) # stack) =
     (case vec_get (pr_nodes p) node of
        None \<Rightarrow> (False, memo)
      | Some op \<Rightarrow>
          if memo ! node \<noteq> None then memo_loop p memo opn stack
          else if expanded then memo_loop p (memo[node := Some (op_types p op (memo_get memo))]) opn stack
          else
            (let opn1 = vec_resize opn (length (pr_nodes p)) False
             in if opn1 ! node then (False, memo)
                else memo_loop p memo (opn1[node := True])
                       (rev (map (\<lambda>n. (n, False)) (filter (\<lambda>n. vec_get memo n = Some None) (type_inputs op))) @
                        (node, True) # stack)))"
  by pat_completeness auto
termination
proof (relation "measures [\<lambda>(p, memo, opn, stack). card (unopened p opn), \<lambda>(p, memo, opn, stack). length stack]")
  fix p :: ir_program and memo :: type_memo and opn opn1 stack node expanded op
  assume op: "vec_get (pr_nodes p) node = Some op" and opn1: "opn1 = vec_resize opn (length (pr_nodes p)) False"
    and closed: "\<not> opn1 ! node"
  have node: "node < length (pr_nodes p)" using op by simp
  have nth: "opn1 ! i = (i < length opn \<and> opn ! i)" and len: "length (pr_nodes p) \<le> length opn1" if "i < length (pr_nodes p)" for i
    using that unfolding opn1 by (simp_all add: vec_resize_def nth_append)
  have "node \<in> unopened p opn" using node closed nth [OF node] by (simp add: unopened_def)
  moreover have "node \<notin> unopened p (opn1[node := True])" using node len [OF node] by (simp add: unopened_def)
  moreover have "unopened p (opn1[node := True]) \<subseteq> unopened p opn"
  proof
    fix i
    assume "i \<in> unopened p (opn1[node := True])"
    then have i: "i < length (pr_nodes p)" and "\<not> opn1[node := True] ! i"
      using len [OF node] by (auto simp: unopened_def)
    then have "\<not> opn1 ! i" using len [OF node] by (cases "i = node") auto
    with i nth [OF i] show "i \<in> unopened p opn" by (simp add: unopened_def)
  qed
  ultimately have "unopened p (opn1[node := True]) \<subset> unopened p opn" by blast
  then have "card (unopened p (opn1[node := True])) < card (unopened p opn)"
    by (intro psubset_card_mono) (auto simp: unopened_def)
  then show "((p, memo, opn1[node := True],
       rev (map (\<lambda>n. (n, False)) (filter (\<lambda>n. vec_get memo n = Some None) (type_inputs op))) @ (node, True) # stack),
      p, memo, opn, (node, expanded) # stack)
     \<in> measures [\<lambda>(p, memo, opn, stack). card (unopened p opn), \<lambda>(p, memo, opn, stack). length stack]"
    by simp
qed auto

definition node_types_memo :: "ir_program \<Rightarrow> nat \<Rightarrow> type_memo \<Rightarrow> ty list option \<times> type_memo" where
  "node_types_memo p i memo =
     (let (finished, memo1) = memo_loop p (vec_resize memo (length (pr_nodes p)) None) [] [(i, False)]
      in (if finished then memo_get memo1 i else None, memo1))"

subsection \<open>What the table and the stack hold\<close>

definition memo_ok :: "ir_program \<Rightarrow> type_memo \<Rightarrow> bool" where
  "memo_ok p memo \<longleftrightarrow> length memo \<le> length (pr_nodes p) \<and>
     (\<forall>i ts. i < length memo \<longrightarrow> memo ! i = Some ts \<longrightarrow> \<not> cyclic_from p i \<and> ts = node_types p i)"

text \<open>The expanded nodes of the stack form a path; what lies above one is an input of it.\<close>

fun top_expanded :: "(nat \<times> bool) list \<Rightarrow> nat option" where
  "top_expanded [] = None"
| "top_expanded ((v, e) # st) = (if e then Some v else top_expanded st)"

fun path_shape :: "ir_program \<Rightarrow> (nat \<times> bool) list \<Rightarrow> bool" where
  "path_shape p [] = True"
| "path_shape p (x # st) \<longleftrightarrow>
     (case top_expanded st of None \<Rightarrow> True | Some u \<Rightarrow> (u, fst x) \<in> node_edges p) \<and> path_shape p st"

text \<open>Every input of an expanded node is typed or lies above it.\<close>

fun inputs_above :: "ir_program \<Rightarrow> type_memo \<Rightarrow> nat set \<Rightarrow> (nat \<times> bool) list \<Rightarrow> bool" where
  "inputs_above p memo hi [] = True"
| "inputs_above p memo hi ((v, e) # st) \<longleftrightarrow>
     (e \<longrightarrow> (\<forall>w. (v, w) \<in> node_edges p \<longrightarrow> w < length (pr_nodes p) \<longrightarrow> w \<in> hi \<or> memo ! w \<noteq> None)) \<and>
     inputs_above p memo (insert v hi) st"

lemma path_shape_cycle:
  "path_shape p (x # st) \<Longrightarrow> (v, True) \<in> set st \<Longrightarrow> (v, fst x) \<in> (node_edges p)\<^sup>+"
proof (induction st arbitrary: x)
  case (Cons y st)
  show ?case
  proof (cases "snd y")
    case True
    then obtain u where y: "y = (u, True)" by (cases y) auto
    with Cons.prems have edge: "(u, fst x) \<in> node_edges p" by simp
    show ?thesis
    proof (cases "v = u")
      case False
      with Cons.prems y have "(v, fst y) \<in> (node_edges p)\<^sup>+" by (intro Cons.IH) auto
      with y edge show ?thesis by (auto intro: trancl_into_trancl)
    qed (use edge in auto)
  next
    case False
    then obtain u where "y = (u, False)" by (cases y) auto
    with Cons.prems have "path_shape p (x # st)" "(v, True) \<in> set st" by auto
    then show ?thesis by (rule Cons.IH)
  qed
qed simp

lemma inputs_above_mono:
  "inputs_above p memo A st \<Longrightarrow> (\<And>w. w < length (pr_nodes p) \<Longrightarrow> w \<in> A \<or> memo ! w \<noteq> None \<Longrightarrow> w \<in> B \<or> memo' ! w \<noteq> None) \<Longrightarrow>
   (\<And>w. memo ! w \<noteq> None \<Longrightarrow> w < length (pr_nodes p) \<Longrightarrow> memo' ! w \<noteq> None) \<Longrightarrow>
   inputs_above p memo' B st"
proof (induction p memo A st arbitrary: B rule: inputs_above.induct)
  case (2 p memo A v e st)
  have "inputs_above p memo' (insert v B) st"
    by (rule 2(1)) (use 2(2-) in auto)
  moreover have "\<forall>w. (v, w) \<in> node_edges p \<longrightarrow> w < length (pr_nodes p) \<longrightarrow> w \<in> B \<or> memo' ! w \<noteq> None" if e
    using that 2(2) 2(3) by (auto simp del: not_None_eq)
  ultimately show ?case by simp
qed simp

lemma inputs_above_unexpanded:
  "inputs_above p memo A (map (\<lambda>n. (n, False)) ns @ st) \<longleftrightarrow> inputs_above p memo (set ns \<union> A) st"
  by (induction ns arbitrary: A) auto

lemma top_expanded_unexpanded: "top_expanded (map (\<lambda>n. (n, False)) ns @ st) = top_expanded st"
  by (induction ns) auto

lemma path_shape_unexpanded:
  "path_shape p (map (\<lambda>n. (n, False)) ns @ (v, True) # st) \<longleftrightarrow>
     (\<forall>n \<in> set ns. (v, n) \<in> node_edges p) \<and> path_shape p ((v, True) # st)"
  by (induction ns) (auto simp: top_expanded_unexpanded)

definition memo_inv :: "ir_program \<Rightarrow> nat \<Rightarrow> type_memo \<Rightarrow> bool list \<Rightarrow> (nat \<times> bool) list \<Rightarrow> bool" where
  "memo_inv p start memo opn stack \<longleftrightarrow>
     length memo = length (pr_nodes p) \<and> memo_ok p memo \<and> path_shape p stack \<and> inputs_above p memo {} stack \<and>
     (opn = [] \<or> length opn = length (pr_nodes p)) \<and>
     (\<forall>v < length opn. opn ! v \<longrightarrow> memo ! v = None \<longrightarrow> (v, True) \<in> set stack) \<and>
     (\<forall>x \<in> set stack. (start, fst x) \<in> (node_edges p)\<^sup>* \<and> fst x < length (pr_nodes p)) \<and>
     (start \<in> fst ` set stack \<or> memo ! start \<noteq> None)"

lemma cyclic_from_range: "length (pr_nodes p) \<le> i \<Longrightarrow> \<not> cyclic_from p i"
proof
  assume i: "length (pr_nodes p) \<le> i" and "cyclic_from p i"
  then obtain x where x: "(i, x) \<in> (node_edges p)\<^sup>*" "(x, x) \<in> (node_edges p)\<^sup>+" by (auto simp: cyclic_from_def)
  have no: "(i, y) \<notin> node_edges p" for y using i by (simp add: node_edges_def)
  with x(1) have "x = i" by (auto elim: converse_rtranclE)
  with x(2) no show False by (auto dest: tranclD)
qed

lemma cyclic_from_input:
  assumes "cyclic_from p v"
  obtains w where "(v, w) \<in> node_edges p" "cyclic_from p w"
proof -
  obtain x where x: "(v, x) \<in> (node_edges p)\<^sup>*" "(x, x) \<in> (node_edges p)\<^sup>+"
    using assms by (auto simp: cyclic_from_def)
  obtain w where "(v, w) \<in> node_edges p" "(w, x) \<in> (node_edges p)\<^sup>*"
  proof (cases "v = x")
    case True
    with x(2) show ?thesis using that by (auto dest: tranclD)
  next
    case False
    with x(1) show ?thesis using that by (auto elim: converse_rtranclE)
  qed
  with x(2) that show ?thesis by (auto simp: cyclic_from_def)
qed

lemma memo_typed:
  assumes "memo_ok p memo" and "length memo = length (pr_nodes p)" and "v < length (pr_nodes p)"
    and "\<And>w. (v, w) \<in> node_edges p \<Longrightarrow> w < length (pr_nodes p) \<Longrightarrow> memo ! w \<noteq> None"
  shows "\<not> cyclic_from p v" and "op_types p (pr_nodes p ! v) (memo_get memo) = node_types p v"
proof -
  have input: "\<not> cyclic_from p w \<and> memo_get memo w = node_types p w" if "(v, w) \<in> node_edges p" for w
  proof (cases "w < length (pr_nodes p)")
    case True
    with assms(4) [OF that] obtain ts where "memo ! w = Some ts" by auto
    with True assms(1,2) show ?thesis by (auto simp: memo_ok_def memo_get_def)
  next
    case False
    then show ?thesis
      using assms(2) cyclic_from_range [of p w] node_types_step [of p w] by (simp add: memo_get_def)
  qed
  show nc: "\<not> cyclic_from p v"
    using input by (auto elim: cyclic_from_input)
  have "op_types p (pr_nodes p ! v) (memo_get memo) = op_types p (pr_nodes p ! v) (node_types p)"
    by (rule op_types_cong) (use input assms(3) in \<open>auto simp: node_edges_def\<close>)
  then show "op_types p (pr_nodes p ! v) (memo_get memo) = node_types p v"
    using node_types_step [OF nc] assms(3) by simp
qed

lemma memo_inv_skip:
  assumes "memo_inv p start memo opn ((v, e) # stack)" and "memo ! v \<noteq> None"
  shows "memo_inv p start memo opn stack"
proof -
  have "inputs_above p memo {v} stack" using assms(1) by (simp add: memo_inv_def)
  then have "inputs_above p memo {} stack" by (rule inputs_above_mono) (use assms(2) in auto)
  then show ?thesis using assms by (auto simp: memo_inv_def)
qed

lemma memo_inv_build:
  assumes inv: "memo_inv p start memo opn ((v, True) # stack)"
  shows "memo_inv p start (memo[v := Some (op_types p (pr_nodes p ! v) (memo_get memo))]) opn stack"
proof -
  let ?memo = "memo[v := Some (op_types p (pr_nodes p ! v) (memo_get memo))]"
  have v: "v < length (pr_nodes p)" and len: "length memo = length (pr_nodes p)" and ok: "memo_ok p memo"
    using inv by (auto simp: memo_inv_def)
  have ins: "memo ! w \<noteq> None" if "(v, w) \<in> node_edges p" "w < length (pr_nodes p)" for w
    using inv that by (simp add: memo_inv_def)
  note typed = memo_typed [OF ok len v ins]
  have "memo_ok p ?memo"
    using ok len typed v by (auto simp: memo_ok_def nth_list_update split: if_splits)
  moreover have "inputs_above p memo {v} stack" using inv by (simp add: memo_inv_def)
  then have "inputs_above p ?memo {} stack"
    by (rule inputs_above_mono) (use len v in \<open>auto simp: nth_list_update\<close>)
  ultimately show ?thesis
    using inv len by (auto simp: memo_inv_def nth_list_update)
qed

lemma memo_inv_expand:
  assumes inv: "memo_inv p start memo opn ((v, False) # stack)" and "memo ! v = None"
    and opn1: "opn1 = vec_resize opn (length (pr_nodes p)) False"
  shows "memo_inv p start memo (opn1[v := True])
    (rev (map (\<lambda>n. (n, False)) (filter (\<lambda>n. vec_get memo n = Some None) (type_inputs (pr_nodes p ! v)))) @ (v, True) # stack)"
proof -
  let ?ns = "rev (filter (\<lambda>n. vec_get memo n = Some None) (type_inputs (pr_nodes p ! v)))"
  have v: "v < length (pr_nodes p)" and len: "length memo = length (pr_nodes p)"
    using inv by (auto simp: memo_inv_def)
  have ns: "w \<in> set ?ns \<longleftrightarrow> (v, w) \<in> node_edges p \<and> w < length (pr_nodes p) \<and> memo ! w = None" for w
    using v len by (auto simp: node_edges_def)
  have "path_shape p (map (\<lambda>n. (n, False)) ?ns @ (v, True) # stack)"
  proof -
    have "path_shape p ((v, True) # stack)"
      using inv by (cases "top_expanded stack") (simp_all add: memo_inv_def)
    then show ?thesis unfolding path_shape_unexpanded using ns by (simp del: set_rev)
  qed
  moreover have "inputs_above p memo {} (map (\<lambda>n. (n, False)) ?ns @ (v, True) # stack)"
  proof -
    have "inputs_above p memo {v} stack" using inv by (simp add: memo_inv_def)
    then have "inputs_above p memo (insert v (set ?ns)) stack" by (rule inputs_above_mono) auto
    moreover have "w \<in> set ?ns \<or> memo ! w \<noteq> None" if "(v, w) \<in> node_edges p" "w < length (pr_nodes p)" for w
      using ns [of w] that by (cases "memo ! w") (simp_all del: set_rev)
    ultimately show ?thesis unfolding inputs_above_unexpanded by (simp del: set_rev)
  qed
  moreover have "(start, w) \<in> (node_edges p)\<^sup>*" if "w \<in> set ?ns" for w
  proof -
    have "(start, v) \<in> (node_edges p)\<^sup>*" using inv by (simp add: memo_inv_def)
    with that ns show ?thesis by (auto intro: rtrancl_into_rtrancl simp del: set_rev)
  qed
  ultimately show ?thesis
    using inv ns v by (auto simp: memo_inv_def opn1 vec_resize_def rev_map nth_list_update simp del: set_rev split: if_splits)
qed

lemma memo_loop_correct:
  "memo_inv p start memo opn stack \<Longrightarrow> memo_loop p memo opn stack = (fin, memo') \<Longrightarrow>
   length memo' = length (pr_nodes p) \<and> memo_ok p memo' \<and> (if fin then memo' ! start \<noteq> None else cyclic_from p start)"
proof (induction p memo opn stack rule: memo_loop.induct)
  case (1 p memo opn)
  then show ?case by (auto simp: memo_inv_def)
next
  case (2 p memo opn v e stack)
  then have v: "v < length (pr_nodes p)" by (auto simp: memo_inv_def)
  then have op: "vec_get (pr_nodes p) v = Some (pr_nodes p ! v)" by simp
  let ?opn1 = "vec_resize opn (length (pr_nodes p)) False"
  consider "memo ! v \<noteq> None" | "memo ! v = None" e | "memo ! v = None" "\<not> e" "?opn1 ! v"
    | "memo ! v = None" "\<not> e" "\<not> ?opn1 ! v" by blast
  then show ?case
  proof cases
    case 1
    with 2(5) op have "memo_loop p memo opn stack = (fin, memo')" by simp
    with 2(1) [OF op 1] memo_inv_skip [OF 2(4) 1] show ?thesis by blast
  next
    case 2
    show ?thesis
      by (rule "2.IH"(2) [OF op]) (use 2 "2.prems" op memo_inv_build [of p start memo opn v stack] in auto)
  next
    case 3
    with 2(5) op have fin: "fin = False" "memo' = memo" by auto
    have "(v, True) \<in> set stack"
      using 3 2(4) v by (auto simp: memo_inv_def vec_resize_def split: if_splits)
    then have "(v, v) \<in> (node_edges p)\<^sup>+"
      using path_shape_cycle [of p "(v, e)" stack v] 2(4) by (auto simp: memo_inv_def)
    moreover have "(start, v) \<in> (node_edges p)\<^sup>*" using 2(4) by (simp add: memo_inv_def)
    ultimately have "cyclic_from p start" by (auto simp: cyclic_from_def)
    with fin 2(4) show ?thesis by (simp add: memo_inv_def)
  next
    case 4
    show ?thesis
      by (rule "2.IH"(3) [OF op _ _ refl]) (use 4 "2.prems" op memo_inv_expand [of p start memo opn v stack] in \<open>auto simp: Let_def\<close>)
  qed
qed

subsection \<open>Properties\<close>

text \<open>
  C9: Typing through the shared table agrees with typing from scratch, whatever the table already
  holds: the answer is \<open>node_types\<close>'s, on a reachable cycle and on an unknown node included, and
  the table stays correct for the next call.
\<close>

theorem node_types_memo_correct:
  assumes "memo_ok p memo" and "node_types_memo p i memo = (ts, memo')"
  shows "ts = node_types p i \<and> memo_ok p memo'"
proof -
  let ?memo = "vec_resize memo (length (pr_nodes p)) None"
  have ok: "memo_ok p ?memo" and len: "length ?memo = length (pr_nodes p)"
    using assms(1) by (auto simp: memo_ok_def vec_resize_def nth_append split: if_splits)
  obtain fin where loop: "memo_loop p ?memo [] [(i, False)] = (fin, memo')" and ts: "ts = (if fin then memo_get memo' i else None)"
    using assms(2) by (auto simp: node_types_memo_def split: prod.splits)
  show ?thesis
  proof (cases "i < length (pr_nodes p)")
    case True
    then have "memo_inv p i ?memo [] [(i, False)]" using ok len by (simp add: memo_inv_def)
    from memo_loop_correct [OF this loop] have res: "memo_ok p memo'" "length memo' = length (pr_nodes p)"
      "if fin then memo' ! i \<noteq> None else cyclic_from p i" by blast+
    show ?thesis
    proof (cases fin)
      case f: True
      with res(3) obtain t where "memo' ! i = Some t" by auto
      with f res(1,2) True ts show ?thesis by (auto simp: memo_ok_def memo_get_def)
    next
      case False
      with res ts show ?thesis by (simp add: node_types_cyclic)
    qed
  next
    case False
    with loop have "fin = False" "memo' = ?memo" by auto
    moreover have "node_types p i = None" using False cyclic_from_range [of p i] node_types_step [of p i] by simp
    ultimately show ?thesis using ok ts by simp
  qed
qed

text \<open>A join of a table with its own projection.\<close>

definition demo_types :: ir_program where
  "demo_types = \<lparr>pr_texts = [], pr_terms = [],
     pr_rels = [\<lparr>ir_id = 0, ir_name = ''edge'', ir_cols = [TInt, TText], ir_kind = KSource\<rparr>],
     pr_nodes = [OGet 0, OMfp 0 [] [ECall FAdd [ECol 0, ELit 1]] [2, 1], OJoin [0, 1] [[(0, 1), (1, 1)]] [], ONegate 3],
     pr_strata = [], pr_outputs = []\<rparr>"

theorem node_types_memo_correct_witness:
  "\<exists>memo'. node_types_memo demo_types 2 [] = (Some [TInt, TText, TInt, TText], memo') \<and>
     node_types demo_types 2 = Some [TInt, TText, TInt, TText] \<and> memo_ok demo_types memo'"
proof -
  have ok: "memo_ok demo_types []" by (simp add: memo_ok_def)
  have run: "node_types_memo demo_types 2 [] = (Some [TInt, TText, TInt, TText],
      [Some (Some [TInt, TText]), Some (Some [TInt, TText]), Some (Some [TInt, TText, TInt, TText]), None])"
    by code_simp
  from node_types_memo_correct [OF ok run] run show ?thesis by auto
qed

end
