(* ===== verification/Ir_Float.thy ===== *)
theory Ir_Float
  imports Ir_Values
begin

text \<open>
  The double-precision arithmetic the evaluators use, on the bits of the numbers: conversion from
  an integer, addition, subtraction and multiplication, rounded to nearest with ties to even. The
  standard library leaves the bits of a NaN open; here they are those of the quiet NaN.
\<close>

subsection \<open>Rounding\<close>

fun bit_length :: "nat \<Rightarrow> nat" where
  "bit_length n = (if n = 0 then 0 else Suc (bit_length (n div 2)))"

declare bit_length.simps [simp del]

definition round_even :: "rat \<Rightarrow> int" where
  "round_even x =
     (let r = \<lfloor>x\<rfloor>; d = x - of_int r
      in if d < 1 / 2 \<or> d = 1 / 2 \<and> even r then r else r + 1)"

text \<open>The exponent of a positive number: \<open>2 ^ e \<le> a < 2 ^ (e + 1)\<close>.\<close>

definition rat_exponent :: "rat \<Rightarrow> int" where
  "rat_exponent a =
     (let (n, d) = quotient_of a; k = int (bit_length (nat n)) - int (bit_length (nat d))
      in if f64_scale 1 k \<le> a then k else k - 1)"

definition f64_inf :: u64 where "f64_inf = 0x7FF0000000000000"
definition f64_nan :: u64 where "f64_nan = 0x7FF8000000000000"
definition f64_sign :: "bool \<Rightarrow> u64" where "f64_sign neg = (if neg then 0x8000000000000000 else 0)"

definition f64_encode :: "bool \<Rightarrow> rat \<Rightarrow> u64" where
  "f64_encode neg a =
     (let e = max (rat_exponent a) (- 1022);
          m = round_even (a * f64_scale 1 (52 - e));
          b = (e + 1022) * 2 ^ 52 + m
      in f64_sign neg + (if uint f64_inf \<le> b then f64_inf else of_int b))"

subsection \<open>Operations\<close>

definition f64_of_rat :: "bool \<Rightarrow> rat \<Rightarrow> u64" where
  "f64_of_rat neg q = (if q = 0 then f64_sign neg else f64_encode (q < 0) \<bar>q\<bar>)"

definition f64_of_int :: "i64 \<Rightarrow> u64" where
  "f64_of_int i = f64_of_rat False (of_int (sint i))"

definition f64_add :: "u64 \<Rightarrow> u64 \<Rightarrow> u64" where
  "f64_add a b =
     (case (f64_of_bits a, f64_of_bits b) of
        (FNan, _) \<Rightarrow> f64_nan
      | (_, FNan) \<Rightarrow> f64_nan
      | (FInf s, FInf t) \<Rightarrow> if s = t then a else f64_nan
      | (FInf _, FFin _) \<Rightarrow> a
      | (FFin _, FInf _) \<Rightarrow> b
      | (FFin x, FFin y) \<Rightarrow> f64_of_rat (bit a 63 \<and> bit b 63) (x + y))"

definition f64_neg :: "u64 \<Rightarrow> u64" where
  "f64_neg a = a + 0x8000000000000000"

definition f64_sub :: "u64 \<Rightarrow> u64 \<Rightarrow> u64" where
  "f64_sub a b = f64_add a (f64_neg b)"

definition f64_mul :: "u64 \<Rightarrow> u64 \<Rightarrow> u64" where
  "f64_mul a b =
     (let neg = (bit a 63 \<noteq> bit b 63)
      in case (f64_of_bits a, f64_of_bits b) of
        (FNan, _) \<Rightarrow> f64_nan
      | (_, FNan) \<Rightarrow> f64_nan
      | (FInf _, FInf _) \<Rightarrow> f64_sign neg + f64_inf
      | (FInf _, FFin y) \<Rightarrow> if y = 0 then f64_nan else f64_sign neg + f64_inf
      | (FFin x, FInf _) \<Rightarrow> if x = 0 then f64_nan else f64_sign neg + f64_inf
      | (FFin x, FFin y) \<Rightarrow> f64_of_rat neg (x * y))"

end
