(* ===== verification/Ir_Expr.thy ===== *)
theory Ir_Expr
  imports Ir_Typing Ir_Float
begin

text \<open>
  The scalar evaluator every engine shares (\<open>walk_expr\<close>, \<open>eval_with_text\<close> and
  \<open>eval_typed_with_text\<close> of \<open>crates/ivm-engine/src/1_rel.rs\<close>). The walk is modelled as written,
  with its two shortcuts and its pair of stacks; the callers' closures may panic. It is shown to
  be the structural evaluation, and the typed evaluation to carry the types of \<open>expr_type\<close>.
\<close>

subsection \<open>The walk\<close>

definition is_leaf :: "expr \<Rightarrow> bool" where
  "is_leaf e = (case e of ECall f _ \<Rightarrow> f = FStrNil | _ \<Rightarrow> True)"

definition is_flat :: "expr \<Rightarrow> bool" where
  "is_flat e = (case e of ECall f args \<Rightarrow> f \<noteq> FStrNil \<longrightarrow> length args \<le> 2 \<and> list_all is_leaf args | _ \<Rightarrow> True)"

definition flat_value :: "(expr \<Rightarrow> ('e, 'v) rust) \<Rightarrow> (func \<Rightarrow> 'v list \<Rightarrow> ('e, 'v) rust) \<Rightarrow> expr \<Rightarrow> ('e, 'v) rust" where
  "flat_value leaf apply1 e =
     (case e of
        ECall f args \<Rightarrow> if f \<noteq> FStrNil then rust_bind (map_rust leaf args) (apply1 f) else leaf e
      | _ \<Rightarrow> leaf e)"

datatype expr_step = EEnter expr | EApply func nat

definition expr_step_size :: "expr_step \<Rightarrow> nat" where
  "expr_step_size s = (case s of EEnter e \<Rightarrow> 2 * size e + 1 | EApply _ _ \<Rightarrow> 1)"

lemma enter_sizes: "(\<Sum>a\<leftarrow>args. expr_step_size (EEnter a)) \<le> 2 * size_list size args"
  by (induction args) (auto simp: expr_step_size_def)

text \<open>The top of the step stack is the head of the list; vals are pushed at the end.\<close>

function walk_steps :: "(expr \<Rightarrow> ('e, 'v) rust) \<Rightarrow> (func \<Rightarrow> 'v list \<Rightarrow> ('e, 'v) rust) \<Rightarrow> expr_step list \<Rightarrow> 'v list \<Rightarrow> ('e, 'v list) rust" where
  "walk_steps leaf apply1 [] vals = Ok vals"
| "walk_steps leaf apply1 (EEnter e # steps) vals =
     (case e of
        ECall f args \<Rightarrow>
          if f \<noteq> FStrNil then walk_steps leaf apply1 (map EEnter args @ EApply f (length args) # steps) vals
          else rust_bind (leaf e) (\<lambda>v. walk_steps leaf apply1 steps (vals @ [v]))
      | _ \<Rightarrow> rust_bind (leaf e) (\<lambda>v. walk_steps leaf apply1 steps (vals @ [v])))"
| "walk_steps leaf apply1 (EApply f arity # steps) vals =
     (let base = length vals - arity
      in rust_bind (apply1 f (drop base vals)) (\<lambda>v. walk_steps leaf apply1 steps (take base vals @ [v])))"
  by pat_completeness auto
termination
proof (relation "measure (\<lambda>(leaf, apply1, steps, vals). \<Sum>s\<leftarrow>steps. expr_step_size s)")
  fix leaf :: "expr \<Rightarrow> ('e, 'v) rust" and apply1 e steps f args and vals :: "'v list"
  assume "e = ECall f args"
  then show "((leaf, apply1, map EEnter args @ EApply f (length args) # steps, vals), leaf, apply1, EEnter e # steps, vals)
      \<in> measure (\<lambda>(leaf, apply1, steps, vals). \<Sum>s\<leftarrow>steps. expr_step_size s)"
    using enter_sizes [of args] by (simp add: expr_step_size_def comp_def)
qed (auto simp: expr_step_size_def)

definition walk_expr :: "(expr \<Rightarrow> ('e, 'v) rust) \<Rightarrow> (func \<Rightarrow> 'v list \<Rightarrow> ('e, 'v) rust) \<Rightarrow> expr \<Rightarrow> ('e, 'v) rust" where
  "walk_expr leaf apply1 e =
     (let slow = rust_bind (walk_steps leaf apply1 [EEnter e] []) (\<lambda>vals. vec_index vals 0)
      in if is_flat e then flat_value leaf apply1 e
         else (case e of
                 ECall f args \<Rightarrow>
                   if length args \<le> 2 \<and> list_all is_flat args
                   then rust_bind (map_rust (flat_value leaf apply1) args) (apply1 f) else slow
               | _ \<Rightarrow> slow))"

subsection \<open>Evaluation\<close>

text \<open>\<open>a[0]\<close> and \<open>a[1]\<close> of the operands, and the panics of the callers without a dictionary.\<close>

definition on_two :: "'v list \<Rightarrow> ('v \<Rightarrow> 'v \<Rightarrow> ('e, 'w) rust) \<Rightarrow> ('e, 'w) rust" where
  "on_two a f = rust_bind (vec_index a 0) (\<lambda>x. rust_bind (vec_index a 1) (f x))"

fun eval_apply :: "(i64 \<Rightarrow> i64 \<Rightarrow> ('e, bool) rust) \<Rightarrow> func \<Rightarrow> i64 list \<Rightarrow> ('e, i64) rust" where
  "eval_apply term_lt FEq a = on_two a (\<lambda>x y. Ok (bool_cell (x = y)))"
| "eval_apply term_lt FNe a = on_two a (\<lambda>x y. Ok (bool_cell (x \<noteq> y)))"
| "eval_apply term_lt FLt a = on_two a (\<lambda>x y. Ok (bool_cell (sint x < sint y)))"
| "eval_apply term_lt FLe a = on_two a (\<lambda>x y. Ok (bool_cell (sint x \<le> sint y)))"
| "eval_apply term_lt FGt a = on_two a (\<lambda>x y. Ok (bool_cell (sint x > sint y)))"
| "eval_apply term_lt FGe a = on_two a (\<lambda>x y. Ok (bool_cell (sint x \<ge> sint y)))"
| "eval_apply term_lt FAdd a = on_two a (\<lambda>x y. Ok (x + y))"
| "eval_apply term_lt FSub a = on_two a (\<lambda>x y. Ok (x - y))"
| "eval_apply term_lt FAnd a = rust_bind (vec_index a 0) (\<lambda>x. if x = 0 then Ok 0 else rust_bind (vec_index a 1) (\<lambda>y. Ok (bool_cell (y \<noteq> 0))))"
| "eval_apply term_lt FOr a = rust_bind (vec_index a 0) (\<lambda>x. if x \<noteq> 0 then Ok 1 else rust_bind (vec_index a 1) (\<lambda>y. Ok (bool_cell (y \<noteq> 0))))"
| "eval_apply term_lt FNot a = rust_bind (vec_index a 0) (\<lambda>x. Ok (bool_cell (x = 0)))"
| "eval_apply term_lt FTermLt a = on_two a (\<lambda>x y. rust_bind (term_lt x y) (\<lambda>b. Ok (bool_cell b)))"
| "eval_apply term_lt FStrNil a = Panic"

definition eval_leaf :: "i64 list \<Rightarrow> (nat \<Rightarrow> ('e, i64) rust) \<Rightarrow> (nat \<Rightarrow> ('e, i64) rust) \<Rightarrow> ('e, i64) rust \<Rightarrow> expr \<Rightarrow> ('e, i64) rust" where
  "eval_leaf row text1 term1 nil e =
     (case e of ECol c \<Rightarrow> vec_index row c | ELit v \<Rightarrow> Ok v | EText i \<Rightarrow> text1 i | ETerm i \<Rightarrow> term1 i | ECall _ _ \<Rightarrow> nil)"

definition eval_with_text where
  "eval_with_text e row term_lt text1 term1 nil = walk_expr (eval_leaf row text1 term1 nil) (eval_apply term_lt) e"

definition eval_with where
  "eval_with e row term_lt = eval_with_text e row term_lt (\<lambda>_. Panic) (\<lambda>_. Panic) Panic"

definition eval_expr :: "expr \<Rightarrow> i64 list \<Rightarrow> (unit, i64) rust" where
  "eval_expr e row = eval_with e row (\<lambda>_ _. Panic)"

subsection \<open>Evaluation with types\<close>

type_synonym typed_cell = "i64 \<times> ty option"

text \<open>Arguments of the typed evaluator other than the expression, the row and its types.\<close>

record 'e eval_env =
  env_term_lt :: "i64 \<Rightarrow> i64 \<Rightarrow> ('e, bool) rust"
  env_text :: "nat \<Rightarrow> ('e, i64) rust"
  env_term :: "nat \<Rightarrow> ('e, i64) rust"
  env_nil :: "('e, i64) rust"
  env_compare :: "ty \<Rightarrow> i64 \<Rightarrow> ty \<Rightarrow> i64 \<Rightarrow> ('e, ordering) rust"

definition typed_leaf :: "'e eval_env \<Rightarrow> i64 list \<Rightarrow> ty list \<Rightarrow> expr \<Rightarrow> ('e, typed_cell) rust" where
  "typed_leaf env row types e =
     (case e of
        ECol c \<Rightarrow> rust_bind (vec_index row c) (\<lambda>v. Ok (v, vec_get types c))
      | ELit v \<Rightarrow> Ok (v, Some TInt)
      | EText i \<Rightarrow> rust_bind (env_text env i) (\<lambda>v. Ok (v, Some TText))
      | ETerm i \<Rightarrow> rust_bind (env_term env i) (\<lambda>v. Ok (v, Some TId))
      | ECall _ _ \<Rightarrow> rust_bind (env_nil env) (\<lambda>v. Ok (v, Some TText)))"

definition option_unwrap :: "'a option \<Rightarrow> ('e, 'a) rust" where
  "option_unwrap x = (case x of None \<Rightarrow> Panic | Some a \<Rightarrow> Ok a)"

definition typed_cmp :: "'e eval_env \<Rightarrow> typed_cell list \<Rightarrow> (ordering \<Rightarrow> bool) \<Rightarrow> ('e, i64) rust" where
  "typed_cmp env a test =
     on_two a (\<lambda>(x, tx) (y, ty1). rust_bind (option_unwrap tx) (\<lambda>tx. rust_bind (option_unwrap ty1) (\<lambda>ty1.
       rust_bind (env_compare env tx x ty1 y) (\<lambda>o1. Ok (bool_cell (test o1))))))"

definition call_type :: "func \<Rightarrow> typed_cell list \<Rightarrow> ty option" where
  "call_type f a =
     (if f = FAdd \<or> f = FSub
      then (case a of (_, Some left) # (_, Some right) # _ \<Rightarrow> Some (sum_ty left right) | _ \<Rightarrow> None)
      else Some TInt)"

definition as_number :: "typed_cell \<Rightarrow> u64" where
  "as_number x = (if snd x = Some TReal then fst x else f64_of_int (fst x))"

definition typed_apply :: "'e eval_env \<Rightarrow> func \<Rightarrow> typed_cell list \<Rightarrow> ('e, typed_cell) rust" where
  "typed_apply env f a =
     (let t = call_type f a;
          value1 =
            (case f of
               FEq \<Rightarrow> typed_cmp env a (\<lambda>o1. o1 = Equal)
             | FNe \<Rightarrow> typed_cmp env a (\<lambda>o1. o1 \<noteq> Equal)
             | FLt \<Rightarrow> typed_cmp env a (\<lambda>o1. o1 = Less)
             | FLe \<Rightarrow> typed_cmp env a (\<lambda>o1. o1 \<noteq> Greater)
             | FGt \<Rightarrow> typed_cmp env a (\<lambda>o1. o1 = Greater)
             | FGe \<Rightarrow> typed_cmp env a (\<lambda>o1. o1 \<noteq> Less)
             | FAdd \<Rightarrow> on_two a (\<lambda>x y. Ok (if t = Some TReal then f64_add (as_number x) (as_number y) else fst x + fst y))
             | FSub \<Rightarrow> on_two a (\<lambda>x y. Ok (if t = Some TReal then f64_sub (as_number x) (as_number y) else fst x - fst y))
             | _ \<Rightarrow> eval_apply (env_term_lt env) f (map fst a))
      in rust_bind value1 (\<lambda>v. Ok (v, t)))"

definition eval_typed_with_text :: "'e eval_env \<Rightarrow> expr \<Rightarrow> i64 list \<Rightarrow> ty list \<Rightarrow> ('e, i64) rust" where
  "eval_typed_with_text env e row types =
     rust_bind (walk_expr (typed_leaf env row types) (typed_apply env) e) (\<lambda>r. Ok (fst r))"

subsection \<open>The walk is structural evaluation\<close>

fun eval_tree :: "(expr \<Rightarrow> ('e, 'v) rust) \<Rightarrow> (func \<Rightarrow> 'v list \<Rightarrow> ('e, 'v) rust) \<Rightarrow> expr \<Rightarrow> ('e, 'v) rust" where
  "eval_tree leaf apply1 (ECall f args) =
     (if f = FStrNil then leaf (ECall f args) else rust_bind (map_rust (eval_tree leaf apply1) args) (apply1 f))"
| "eval_tree leaf apply1 e = leaf e"

lemma eval_tree_leaf: "is_leaf e \<Longrightarrow> eval_tree leaf apply1 e = leaf e"
  by (cases e) (auto simp: is_leaf_def)

lemma eval_tree_flat: "is_flat e \<Longrightarrow> flat_value leaf apply1 e = eval_tree leaf apply1 e"
proof (cases e)
  case (ECall f args)
  assume flat: "is_flat e"
  show ?thesis
  proof (cases "f = FStrNil")
    case False
    with ECall flat have "map_rust leaf args = map_rust (eval_tree leaf apply1) args"
      by (intro map_rust_cong) (auto simp: is_flat_def list_all_iff eval_tree_leaf)
    with ECall False show ?thesis by (simp add: flat_value_def)
  qed (simp add: ECall flat_value_def)
qed (simp_all add: flat_value_def)

lemma walk_steps_enter_all:
  assumes "\<And>e steps vals. e \<in> set es \<Longrightarrow> walk_steps leaf apply1 (EEnter e # steps) vals =
      rust_bind (eval_tree leaf apply1 e) (\<lambda>v. walk_steps leaf apply1 steps (vals @ [v]))"
  shows "walk_steps leaf apply1 (map EEnter es @ steps) vals =
      rust_bind (map_rust (eval_tree leaf apply1) es) (\<lambda>vs. walk_steps leaf apply1 steps (vals @ vs))"
  using assms
proof (induction es arbitrary: vals)
  case (Cons e es)
  have "walk_steps leaf apply1 (EEnter e # map EEnter es @ steps) vals =
      rust_bind (eval_tree leaf apply1 e) (\<lambda>v. walk_steps leaf apply1 (map EEnter es @ steps) (vals @ [v]))"
    by (rule Cons.prems) simp
  also have "\<dots> = rust_bind (eval_tree leaf apply1 e) (\<lambda>v. rust_bind (map_rust (eval_tree leaf apply1) es)
      (\<lambda>vs. walk_steps leaf apply1 steps (vals @ v # vs)))"
    using Cons.IH [OF Cons.prems] by simp
  finally show ?case by (simp add: rust_bind_assoc del: walk_steps.simps)
qed simp

lemma walk_steps_enter:
  "walk_steps leaf apply1 (EEnter e # steps) vals =
     rust_bind (eval_tree leaf apply1 e) (\<lambda>v. walk_steps leaf apply1 steps (vals @ [v]))"
proof (induction e arbitrary: steps vals)
  case (ECall f args)
  show ?case
  proof (cases "f = FStrNil")
    case False
    have "walk_steps leaf apply1 (EEnter (ECall f args) # steps) vals =
        walk_steps leaf apply1 (map EEnter args @ EApply f (length args) # steps) vals"
      using False by simp
    also have "\<dots> = rust_bind (map_rust (eval_tree leaf apply1) args)
        (\<lambda>vs. walk_steps leaf apply1 (EApply f (length args) # steps) (vals @ vs))"
      by (rule walk_steps_enter_all) (rule ECall)
    also have "\<dots> = rust_bind (map_rust (eval_tree leaf apply1) args)
        (\<lambda>vs. rust_bind (apply1 f vs) (\<lambda>v. walk_steps leaf apply1 steps (vals @ [v])))"
      by (rule rust_bind_cong [OF refl]) (auto dest: map_rust_length)
    finally show ?thesis using False by (simp add: rust_bind_assoc)
  qed simp
qed simp_all

lemma walk_expr_tree: "walk_expr leaf apply1 e = eval_tree leaf apply1 e"
proof (cases "is_flat e")
  case True
  then show ?thesis by (simp add: walk_expr_def eval_tree_flat)
next
  case False
  then obtain f args where e: "e = ECall f args" and f: "f \<noteq> FStrNil"
    by (cases e) (auto simp: is_flat_def)
  have slow: "rust_bind (walk_steps leaf apply1 [EEnter e] []) (\<lambda>vals. vec_index vals 0) = eval_tree leaf apply1 e"
    by (cases "eval_tree leaf apply1 e") (simp_all add: walk_steps_enter del: walk_steps.simps(2))
  have "rust_bind (map_rust (flat_value leaf apply1) args) (apply1 f) = eval_tree leaf apply1 e" if "list_all is_flat args"
  proof -
    have "map_rust (flat_value leaf apply1) args = map_rust (eval_tree leaf apply1) args"
      using that by (intro map_rust_cong) (auto simp: list_all_iff eval_tree_flat)
    with e f show ?thesis by simp
  qed
  with False slow e show ?thesis by (simp add: walk_expr_def del: walk_steps.simps eval_tree.simps)
qed

text \<open>
  C11: The evaluator's shortcuts and stacks are the structural evaluation: operands left to right,
  then the function, with the same panics in the same order, on every expression.
\<close>

theorem walk_expr_structural:
  "walk_expr leaf apply1 e =
     (case e of ECall f args \<Rightarrow> if f = FStrNil then leaf e else rust_bind (map_rust (walk_expr leaf apply1) args) (apply1 f)
      | _ \<Rightarrow> leaf e)"
  by (cases e) (simp_all add: walk_expr_tree cong: map_rust_cong)

subsection \<open>The typed walk carries the static types\<close>

lemma typed_apply_type: "typed_apply env f a = Ok (v, t) \<Longrightarrow> t = call_type f a"
  by (auto simp: typed_apply_def Let_def rust_simps)

lemma typed_tree_type:
  "eval_tree (typed_leaf env row types) (typed_apply env) e = Ok (v, t) \<Longrightarrow> t = expr_typing types e"
proof (induction e arbitrary: v t)
  case (ECall f args)
  show ?case
  proof (cases "f = FStrNil")
    case True
    with ECall show ?thesis by (auto simp: typed_leaf_def rust_simps expr_typing_simps)
  next
    case False
    with ECall.prems obtain vs where vs: "map_rust (eval_tree (typed_leaf env row types) (typed_apply env)) args = Ok vs"
      and t: "t = call_type f vs" by (auto simp: rust_simps dest: typed_apply_type)
    have len: "length vs = length args" using map_rust_length [OF vs] .
    have typed: "snd (vs ! i) = expr_typing types (args ! i)" if "i < length args" for i
      using map_rust_OkD [OF vs] that ECall.IH [of "args ! i" "fst (vs ! i)" "snd (vs ! i)"]
      by (auto simp: list_all2_conv_all_nth)
    show ?thesis
    proof (cases "f = FAdd \<or> f = FSub")
      case True
      consider "args = []" | a where "args = [a]" | a b rest where "args = a # b # rest"
        by (cases args rule: list.exhaust; cases "tl args") auto
      then show ?thesis
      proof cases
        case 3
        then obtain x y ws where ws: "vs = x # y # ws" using len by (cases vs; cases "tl vs") auto
        have "snd x = expr_typing types a" "snd y = expr_typing types b"
          using typed [of 0] typed [of 1] 3 ws by auto
        then show ?thesis
          using True 3 ws t by (auto simp: call_type_def expr_typing_simps split: prod.splits option.splits)
      qed (use True t len in \<open>auto simp: call_type_def length_Suc_conv expr_typing_simps split: option.splits\<close>)
    qed (use False t in \<open>auto simp: call_type_def expr_typing_simps\<close>)
  qed
qed (auto simp: typed_leaf_def rust_simps expr_typing_simps)

text \<open>
  C12: Whatever a typed evaluation returns, the type it carries along is the static type of the
  expression, so the comparison of two operands is the one their static types select.
\<close>

theorem typed_walk_types:
  assumes "walk_expr (typed_leaf env row types) (typed_apply env) e = Ok (v, t)"
  shows "t = expr_type e types \<and> eval_typed_with_text env e row types = Ok v"
  using assms typed_tree_type [of env row types e v t]
  by (simp add: eval_typed_with_text_def walk_expr_tree expr_type_typing)

definition demo_env :: "unit eval_env" where
  "demo_env = \<lparr>env_term_lt = (\<lambda>_ _. Panic), env_text = (\<lambda>_. Panic), env_term = (\<lambda>_. Panic), env_nil = Panic,
     env_compare = (\<lambda>_ a _ b. Ok (cell_cmp a b))\<rparr>"

theorem typed_walk_types_witness:
  "expr_type (ECall FSub [ECall FAdd [ECol 0, ELit 1], ECall FLt [ECol 0, ELit 9]]) [TInt] = Some TInt \<and>
   eval_typed_with_text demo_env (ECall FSub [ECall FAdd [ECol 0, ELit 1], ECall FLt [ECol 0, ELit 9]]) [4] [TInt] = Ok 4"
proof -
  have run: "walk_expr (typed_leaf demo_env [4] [TInt]) (typed_apply demo_env)
      (ECall FSub [ECall FAdd [ECol 0, ELit 1], ECall FLt [ECol 0, ELit 9]]) = Ok (4, Some TInt)"
    by code_simp
  from typed_walk_types [OF run] show ?thesis by simp
qed

text \<open>
  Integer arithmetic in an expression wraps at 64 bits and a comparison is signed; logic reads
  any non-zero cell as true, yields 0 or 1 and does not look at its second operand when the first
  decides.
\<close>

theorem eval_scalar_semantics:
  "eval_with (ECall FAdd [ELit a, ELit b]) row lt = Ok (a + b) \<and>
   eval_with (ECall FLt [ELit a, ELit b]) row lt = Ok (bool_cell (sint a < sint b)) \<and>
   eval_with (ECall FAnd [ELit 0]) row lt = Ok 0 \<and>
   eval_with (ECall FAnd [ELit a, ELit b]) row lt = Ok (bool_cell (a \<noteq> 0 \<and> b \<noteq> 0)) \<and>
   eval_with (ECall FOr [ELit a, ELit b]) row lt = Ok (bool_cell (\<not> (a = 0 \<and> b = 0))) \<and>
   eval_with (ECall FNot [ELit a]) row lt = Ok (bool_cell (a = 0)) \<and>
   eval_with (ECall FEq [ELit a]) row lt = Panic"
  by (simp add: eval_with_def eval_with_text_def walk_expr_tree eval_leaf_def on_two_def vec_index_def)

end
