(* ===== verification/Ir_Dict.thy ===== *)
theory Ir_Dict
  imports Ir_Types
begin

text \<open>
  The dictionary (\<open>Interner\<close> of \<open>crates/ivm-ir/src/1_terms.rs\<close>): one space of positive ids for
  constructor terms, texts, vectors and values. A \<open>HashMap\<close> or \<open>BTreeMap\<close> that is only looked up is
  a map; \<open>by_id\<close> is the vector it is. An exhausted id space is a panic. The hash of a vector is an
  argument: nothing but the speed of a lookup depends on it.
\<close>

subsection \<open>State\<close>

record ir_term =
  tm_functor :: string
  tm_args :: ir_row
  tm_types :: "ty list"
  tm_text :: "string option"

record interner =
  in_functors :: "string list"
  in_by_key :: "string \<times> ir_row \<Rightarrow> i64 option"
  in_by_id :: "ir_term option list"
  in_terms :: nat
  in_by_text :: "string \<Rightarrow> i64 option"
  in_by_any :: "any_value \<Rightarrow> i64 option"
  in_any_by_id :: "(i64 \<times> any_value) list"
  in_next :: i64
  in_pending :: "(string \<times> ir_row) list"
  in_vec_cells :: "i64 list"
  in_vec_at :: "i64 \<Rightarrow> (nat \<times> nat) option"
  in_vec_by_hash :: "u64 \<Rightarrow> i64 list option"

definition dict_empty :: interner where
  "dict_empty = \<lparr>in_functors = [], in_by_key = (\<lambda>_. None), in_by_id = [], in_terms = 0, in_by_text = (\<lambda>_. None),
     in_by_any = (\<lambda>_. None), in_any_by_id = [], in_next = 0, in_pending = [], in_vec_cells = [],
     in_vec_at = (\<lambda>_. None), in_vec_by_hash = (\<lambda>_. None)\<rparr>"

definition text_term :: "string \<Rightarrow> ir_term" where
  "text_term s = \<lparr>tm_functor = [], tm_args = [], tm_types = [], tm_text = Some s\<rparr>"

subsection \<open>Operations\<close>

definition dict_len :: "interner \<Rightarrow> nat" where
  "dict_len i = in_terms i + length (in_any_by_id i)"

definition dict_put :: "i64 \<Rightarrow> ir_term \<Rightarrow> interner \<Rightarrow> ('e, interner) rust" where
  "dict_put n t i =
     (case try_usize n of
        None \<Rightarrow> Panic
      | Some slot \<Rightarrow>
          (let by_id = vec_resize (in_by_id i) (slot + 1) None
           in Ok (i\<lparr>in_by_id := by_id[slot := Some t], in_terms := in_terms i + 1\<rparr>)))"

definition fresh_id :: "interner \<Rightarrow> ('e, i64 \<times> interner) rust" where
  "fresh_id i = (case checked_add (in_next i) 1 of None \<Rightarrow> Panic | Some n \<Rightarrow> Ok (n, i\<lparr>in_next := n\<rparr>))"

definition mint :: "string \<Rightarrow> ir_row \<Rightarrow> ty list \<Rightarrow> interner \<Rightarrow> ('e, i64 \<times> interner) rust" where
  "mint functor args types i =
     (case in_by_key i (functor, args) of
        Some n \<Rightarrow> Ok (n, i)
      | None \<Rightarrow>
          rust_bind (fresh_id (i\<lparr>in_functors := List.insert functor (in_functors i)\<rparr>)) (\<lambda>(n, i1).
          rust_bind (dict_put n \<lparr>tm_functor = functor, tm_args = args, tm_types = types, tm_text = None\<rparr>
            (i1\<lparr>in_by_key := (in_by_key i1)((functor, args) \<mapsto> n)\<rparr>)) (\<lambda>i2.
          Ok (n, i2\<lparr>in_pending := in_pending i2 @ [(functor, n # args)]\<rparr>))))"

definition mint_text :: "string \<Rightarrow> interner \<Rightarrow> ('e, i64 \<times> interner) rust" where
  "mint_text s i =
     (case in_by_text i s of
        Some n \<Rightarrow> Ok (n, i)
      | None \<Rightarrow>
          rust_bind (fresh_id i) (\<lambda>(n, i1).
          rust_bind (dict_put n (text_term s) (i1\<lparr>in_by_text := (in_by_text i1)(s \<mapsto> n)\<rparr>)) (\<lambda>i2. Ok (n, i2))))"

definition mint_shared_text :: "string \<Rightarrow> interner \<Rightarrow> ('e, i64 \<times> interner) rust" where
  "mint_shared_text s i =
     (case in_by_text i s of
        Some n \<Rightarrow> Ok (n, i)
      | None \<Rightarrow>
          rust_bind (fresh_id i) (\<lambda>(n, i1).
          rust_bind (dict_put n (text_term s) (i1\<lparr>in_by_text := (in_by_text i1)(s \<mapsto> n)\<rparr>)) (\<lambda>i2. Ok (n, i2))))"

definition vec_items :: "interner \<Rightarrow> i64 \<Rightarrow> i64 list option" where
  "vec_items i n = map_option (\<lambda>(start, fin). take (fin - start) (drop start (in_vec_cells i))) (in_vec_at i n)"

definition mint_vec :: "(i64 list \<Rightarrow> u64) \<Rightarrow> i64 list \<Rightarrow> interner \<Rightarrow> ('e, i64 \<times> interner) rust" where
  "mint_vec hash items i =
     (let h = hash items
      in case Option.bind (in_vec_by_hash i h) (find (\<lambda>n. vec_items i n = Some items)) of
           Some n \<Rightarrow> Ok (n, i)
         | None \<Rightarrow>
             rust_bind (fresh_id i) (\<lambda>(n, i1).
               let start = length (in_vec_cells i1); cells = in_vec_cells i1 @ items
               in Ok (n, i1\<lparr>in_vec_cells := cells, in_vec_at := (in_vec_at i1)(n \<mapsto> (start, length cells)),
                    in_vec_by_hash := (in_vec_by_hash i1)(h \<mapsto> (case in_vec_by_hash i1 h of None \<Rightarrow> [] | Some ns \<Rightarrow> ns) @ [n])\<rparr>)))"

definition insert_any :: "any_value \<Rightarrow> interner \<Rightarrow> ('e, i64 \<times> interner) rust" where
  "insert_any v i =
     rust_bind (fresh_id i) (\<lambda>(n, i1).
       Ok (n, i1\<lparr>in_by_any := (in_by_any i1)(v \<mapsto> n), in_any_by_id := AList.update n v (in_any_by_id i1)\<rparr>))"

text \<open>
  The integer a double stands for: finite, in the range of \<open>i64\<close>, and without a fraction (the
  truncated double converts back exactly, so the round trip through \<open>i64\<close> tests just that).
\<close>

definition integral_real :: "u64 \<Rightarrow> i64 option" where
  "integral_real bits =
     (case f64_of_bits bits of
        FFin q \<Rightarrow> if - 9223372036854775808 \<le> q \<and> q < 9223372036854775808 \<and> of_int (rat_trunc q) = q
                  then Some (of_int (rat_trunc q)) else None
      | _ \<Rightarrow> None)"

definition any_norm :: "any_value \<Rightarrow> any_value" where
  "any_norm v = (case v of AReal bits \<Rightarrow> if f64_of_bits bits = FNan then ANull else v | _ \<Rightarrow> v)"

definition mint_any :: "any_value \<Rightarrow> interner \<Rightarrow> ('e, i64 \<times> interner) rust" where
  "mint_any value0 i =
     (let v = any_norm value0
      in case in_by_any i v of
           Some n \<Rightarrow> Ok (n, i)
         | None \<Rightarrow>
             rust_bind
               (case v of
                  AReal bits \<Rightarrow>
                    (case integral_real bits of
                       Some k \<Rightarrow> if in_by_any i (AInteger k) = None
                                 then rust_bind (insert_any (AInteger k) i) (\<lambda>(_, i1). Ok i1) else Ok i
                     | None \<Rightarrow> Ok i)
                | _ \<Rightarrow> Ok i)
               (insert_any v))"

definition dict_get :: "interner \<Rightarrow> i64 \<Rightarrow> ir_term option" where
  "dict_get i n = Option.bind (try_usize n) (\<lambda>slot. Option.bind (vec_get (in_by_id i) slot) (\<lambda>t. t))"

definition dict_text :: "interner \<Rightarrow> i64 \<Rightarrow> string option" where
  "dict_text i n = Option.bind (dict_get i n) tm_text"

definition text_id :: "interner \<Rightarrow> string \<Rightarrow> i64 option" where
  "text_id i s = in_by_text i s"

definition dict_any :: "interner \<Rightarrow> i64 \<Rightarrow> any_value option" where
  "dict_any i n = map_of (in_any_by_id i) n"

definition any_cell_key :: "interner \<Rightarrow> i64 \<Rightarrow> i64 option" where
  "any_cell_key i n =
     Option.bind (dict_any i n) (\<lambda>v.
       case v of AReal bits \<Rightarrow> (case integral_real bits of Some k \<Rightarrow> in_by_any i (AInteger k) | None \<Rightarrow> Some n)
       | _ \<Rightarrow> Some n)"

definition drain_pending :: "interner \<Rightarrow> (string \<times> ir_row) list \<times> interner" where
  "drain_pending i = (in_pending i, i\<lparr>in_pending := []\<rparr>)"

definition dict_entries :: "interner \<Rightarrow> (i64 \<times> ir_term) list" where
  "dict_entries i = List.map_filter (\<lambda>(n, t). map_option (\<lambda>t. (of_nat n, t)) t) (zip [0..<length (in_by_id i)] (in_by_id i))"

definition snapshot_row :: "i64 \<times> ir_term \<Rightarrow> ir_row \<times> i64" where
  "snapshot_row x = (fst x # tm_args (snd x), 1)"

definition dict_snapshot :: "interner \<Rightarrow> string \<Rightarrow> (ir_row \<times> i64) list" where
  "dict_snapshot i functor = map snapshot_row (filter (\<lambda>x. tm_functor (snd x) = functor) (dict_entries i))"

text \<open>\<open>slots.entry(functor).or_default().push(index)\<close> for each functor, then one pass.\<close>

fun snapshot_slots :: "nat \<Rightarrow> string list \<Rightarrow> (string \<Rightarrow> nat list option) \<Rightarrow> string \<Rightarrow> nat list option" where
  "snapshot_slots k [] slots = slots"
| "snapshot_slots k (f # fs) slots =
     snapshot_slots (Suc k) fs (slots(f \<mapsto> (case slots f of None \<Rightarrow> [] | Some ks \<Rightarrow> ks) @ [k]))"

definition push_row :: "ir_row \<times> i64 \<Rightarrow> nat \<Rightarrow> (ir_row \<times> i64) list list \<Rightarrow> (ir_row \<times> i64) list list" where
  "push_row r k out = out[k := out ! k @ [r]]"

fun snapshot_pass :: "(string \<Rightarrow> nat list option) \<Rightarrow> (i64 \<times> ir_term) list \<Rightarrow> (ir_row \<times> i64) list list \<Rightarrow> (ir_row \<times> i64) list list" where
  "snapshot_pass slots [] out = out"
| "snapshot_pass slots (x # xs) out =
     snapshot_pass slots xs
       (case slots (tm_functor (snd x)) of None \<Rightarrow> out | Some ks \<Rightarrow> fold (push_row (snapshot_row x)) ks out)"

definition dict_snapshots :: "interner \<Rightarrow> string list \<Rightarrow> (ir_row \<times> i64) list list" where
  "dict_snapshots i functors =
     snapshot_pass (snapshot_slots 0 functors (\<lambda>_. None)) (dict_entries i) (replicate (length functors) [])"

end
