(* ===== verification/Ir_Dict_Laws.thy ===== *)
theory Ir_Dict_Laws
  imports Ir_Dict
begin

text \<open>
  What the dictionary promises: one id per term, text, vector and value, never reused and never
  changed. The locale \<open>intern_table\<close> states the contract of an interning operation over a state;
  the four operations of the dictionary are its interpretations.
\<close>

subsection \<open>The contract of interning\<close>

locale intern_table =
  fixes inv :: "'s \<Rightarrow> bool"
    and grows :: "'s \<Rightarrow> 's \<Rightarrow> bool"
    and intern :: "'k \<Rightarrow> 's \<Rightarrow> (unit, 'i \<times> 's) rust"
    and key_of :: "'s \<Rightarrow> 'i \<Rightarrow> 'k option"
    and norm :: "'k \<Rightarrow> 'k"
  assumes keep_inv: "inv s \<Longrightarrow> intern k s = Ok (n, s') \<Longrightarrow> inv s'"
    and grow: "inv s \<Longrightarrow> intern k s = Ok (n, s') \<Longrightarrow> grows s s'"
    and stored: "inv s \<Longrightarrow> intern k s = Ok (n, s') \<Longrightarrow> key_of s' n = Some (norm k)"
    and known: "inv s \<Longrightarrow> key_of s n = Some (norm k) \<Longrightarrow> intern k s = Ok (n, s)"
    and grows_refl: "grows s s"
    and grows_trans: "grows s s' \<Longrightarrow> grows s' s'' \<Longrightarrow> grows s s''"
    and lasting: "grows s s' \<Longrightarrow> key_of s n = Some k \<Longrightarrow> key_of s' n = Some k"
begin

text \<open>Interning again, however much the table has grown since, gives the same id and no change.\<close>

lemma idempotent:
  "inv s \<Longrightarrow> intern k s = Ok (n, s') \<Longrightarrow> grows s' s'' \<Longrightarrow> inv s'' \<Longrightarrow> intern k s'' = Ok (n, s'')"
  using known [of s'' n k] lasting [of s' s'' n "norm k"] stored [of s k n s'] by blast

lemma injective:
  assumes "inv s" and "intern k s = Ok (n, s1)" and "grows s1 s2" and "inv s2" and "intern k' s2 = Ok (n', s3)"
  shows "n = n' \<longleftrightarrow> norm k = norm k'"
proof
  assume "norm k = norm k'"
  with idempotent [OF assms(1-4)] stored [OF assms(1,2)] lasting [OF assms(3), of n "norm k"] known [OF assms(4), of n k'] assms(5)
  show "n = n'" by simp
next
  assume "n = n'"
  with stored [OF assms(4,5)] lasting [of s1 s3 n "norm k"] stored [OF assms(1,2)] grow [OF assms(4,5)] assms(3)
  show "norm k = norm k'" using grows_trans [of s1 s2 s3] by simp
qed

end

subsection \<open>The invariant\<close>

definition used_id :: "interner \<Rightarrow> i64 \<Rightarrow> bool" where
  "used_id i n \<longleftrightarrow> 0 < sint n \<and> sint n \<le> sint (in_next i)"

definition get_ok :: "interner \<Rightarrow> bool" where
  "get_ok i \<longleftrightarrow>
     (\<forall>n t. dict_get i n = Some t \<longrightarrow> used_id i n) \<and>
     (\<forall>n t. dict_get i n = Some t \<longrightarrow> tm_text t = None \<longrightarrow> in_by_key i (tm_functor t, tm_args t) = Some n) \<and>
     (\<forall>n t s. dict_get i n = Some t \<longrightarrow> tm_text t = Some s \<longrightarrow> t = text_term s \<and> in_by_text i s = Some n)"

definition tables_ok :: "interner \<Rightarrow> bool" where
  "tables_ok i \<longleftrightarrow>
     (\<forall>f a n. in_by_key i (f, a) = Some n \<longrightarrow> (\<exists>ts. dict_get i n = Some \<lparr>tm_functor = f, tm_args = a, tm_types = ts, tm_text = None\<rparr>)) \<and>
     (\<forall>s n. in_by_text i s = Some n \<longrightarrow> dict_get i n = Some (text_term s))"

definition any_ok :: "interner \<Rightarrow> bool" where
  "any_ok i \<longleftrightarrow> (\<forall>v n. in_by_any i v = Some n \<longleftrightarrow> dict_any i n = Some v) \<and>
     (\<forall>n v. dict_any i n = Some v \<longrightarrow> used_id i n \<and> dict_get i n = None \<and> any_norm v = v) \<and>
     (\<forall>bits k. in_by_any i (AReal bits) \<noteq> None \<longrightarrow> integral_real bits = Some k \<longrightarrow> in_by_any i (AInteger k) \<noteq> None)"

definition vec_ok :: "(i64 list \<Rightarrow> u64) \<Rightarrow> interner \<Rightarrow> bool" where
  "vec_ok hash i \<longleftrightarrow>
     (\<forall>n a b. in_vec_at i n = Some (a, b) \<longrightarrow> a \<le> b \<and> b \<le> length (in_vec_cells i) \<and> used_id i n \<and> dict_get i n = None \<and> dict_any i n = None) \<and>
     (\<forall>h n. (\<exists>ns. in_vec_by_hash i h = Some ns \<and> n \<in> set ns) \<longleftrightarrow> (\<exists>items. vec_items i n = Some items \<and> hash items = h)) \<and>
     (\<forall>n m items. vec_items i n = Some items \<longrightarrow> vec_items i m = Some items \<longrightarrow> n = m)"

definition dict_ok :: "(i64 list \<Rightarrow> u64) \<Rightarrow> interner \<Rightarrow> bool" where
  "dict_ok hash i \<longleftrightarrow> 0 \<le> sint (in_next i) \<and> int (length (in_by_id i)) \<le> sint (in_next i) + 1 \<and>
     get_ok i \<and> tables_ok i \<and> any_ok i \<and> vec_ok hash i"

definition dict_grows :: "interner \<Rightarrow> interner \<Rightarrow> bool" where
  "dict_grows i i' \<longleftrightarrow> sint (in_next i) \<le> sint (in_next i') \<and>
     (\<forall>n t. dict_get i n = Some t \<longrightarrow> dict_get i' n = Some t) \<and>
     (\<forall>n v. dict_any i n = Some v \<longrightarrow> dict_any i' n = Some v) \<and>
     (\<forall>n items. vec_items i n = Some items \<longrightarrow> vec_items i' n = Some items)"

lemma dict_okD:
  assumes "dict_ok hash i"
  shows "dict_get i n = Some t \<Longrightarrow> used_id i n"
    and "dict_get i n = Some t \<Longrightarrow> tm_text t = None \<Longrightarrow> in_by_key i (tm_functor t, tm_args t) = Some n"
    and "dict_get i n = Some t \<Longrightarrow> tm_text t = Some s \<Longrightarrow> t = text_term s \<and> in_by_text i s = Some n"
    and "in_by_key i (f, a) = Some n \<Longrightarrow> \<exists>ts. dict_get i n = Some \<lparr>tm_functor = f, tm_args = a, tm_types = ts, tm_text = None\<rparr>"
    and "in_by_text i s = Some n \<Longrightarrow> dict_get i n = Some (text_term s)"
  using assms unfolding dict_ok_def get_ok_def tables_ok_def by blast+

lemma lookups_frame [simp]:
  "dict_get (i\<lparr>in_pending := q\<rparr>) = dict_get i" "dict_get (i\<lparr>in_by_key := ks\<rparr>) = dict_get i"
  "dict_get (i\<lparr>in_next := m\<rparr>) = dict_get i" "dict_get (i\<lparr>in_functors := fs\<rparr>) = dict_get i"
  "dict_get (i\<lparr>in_by_text := txt\<rparr>) = dict_get i" "dict_get (i\<lparr>in_by_any := av\<rparr>) = dict_get i"
  "dict_get (i\<lparr>in_any_by_id := al\<rparr>) = dict_get i" "dict_get (i\<lparr>in_vec_cells := cs\<rparr>) = dict_get i"
  "dict_get (i\<lparr>in_vec_at := va\<rparr>) = dict_get i" "dict_get (i\<lparr>in_vec_by_hash := hs\<rparr>) = dict_get i"
  "dict_get (i\<lparr>in_terms := tn\<rparr>) = dict_get i"
  by (simp_all add: dict_get_def fun_eq_iff)

lemma dict_grows_refl: "dict_grows i i"
  by (simp add: dict_grows_def)

lemma dict_grows_trans: "dict_grows i j \<Longrightarrow> dict_grows j k \<Longrightarrow> dict_grows i k"
  unfolding dict_grows_def by (meson order_trans)

lemma dict_empty_ok: "dict_ok hash dict_empty"
  by (auto simp: dict_ok_def dict_empty_def get_ok_def tables_ok_def any_ok_def vec_ok_def dict_get_def dict_any_def vec_items_def
      bind_eq_Some_conv)

subsection \<open>One allocation\<close>

lemma fresh_id_Ok:
  assumes "0 \<le> sint (in_next i)" and "fresh_id i = Ok (n, i')"
  shows "sint n = sint (in_next i) + 1 \<and> i' = i\<lparr>in_next := n\<rparr>"
proof -
  have "sint (in_next i) + 1 < 2 ^ 63" and n: "n = in_next i + 1" and i': "i' = i\<lparr>in_next := n\<rparr>"
    using assms(2) by (auto simp: fresh_id_def checked_add_def Let_def split: option.splits if_splits)
  then have "sint (in_next i + 1) = sint (in_next i) + sint (1 :: i64)"
    using assms(1) by (intro sint_add_i64) simp_all
  with n i' show ?thesis by simp
qed

lemma try_usize_iff: "try_usize n = Some slot \<longleftrightarrow> 0 \<le> sint n \<and> slot = nat (sint n)"
  by (auto simp: try_usize_def)

text \<open>What \<open>put\<close> changes, read through the lookups.\<close>

definition put_view :: "i64 \<Rightarrow> ir_term \<Rightarrow> interner \<Rightarrow> interner \<Rightarrow> bool" where
  "put_view n t i i' \<longleftrightarrow> (\<exists>slots. i' = i\<lparr>in_by_id := slots, in_terms := in_terms i + 1\<rparr>) \<and>
     (\<forall>m. dict_get i' m = (if m = n then Some t else dict_get i m)) \<and>
     length (in_by_id i') = max (length (in_by_id i)) (nat (sint n) + 1)"

lemma dict_put_view:
  assumes "0 \<le> sint n" and "dict_put n t i = Ok i'"
  shows "put_view n t i i'"
proof -
  let ?by = "vec_resize (in_by_id i) (nat (sint n) + 1) None"
  have i': "i' = i\<lparr>in_by_id := ?by[nat (sint n) := Some t], in_terms := in_terms i + 1\<rparr>"
    using assms by (simp add: dict_put_def try_usize_def Let_def)
  have len: "nat (sint n) < length ?by" by (simp add: vec_resize_def)
  have "dict_get i' m = (if m = n then Some t else dict_get i m)" for m
  proof (cases "0 \<le> sint m")
    case True
    have "nat (sint m) = nat (sint n) \<longleftrightarrow> m = n" using True assms(1) by (simp add: eq_nat_nat_iff)
    with True len show ?thesis
      by (auto simp: dict_get_def i' try_usize_def vec_get_def vec_resize_def nth_append nth_list_update)
  next
    case False
    with assms(1) show ?thesis by (auto simp: dict_get_def try_usize_def)
  qed
  moreover have "length (in_by_id i') = max (length (in_by_id i)) (nat (sint n) + 1)"
    by (simp add: i' vec_resize_def)
  ultimately show ?thesis unfolding put_view_def using i' by blast
qed

lemma dict_put_total: "0 \<le> sint n \<Longrightarrow> \<exists>i'. dict_put n t i = Ok i'"
  by (simp add: dict_put_def try_usize_def Let_def)

lemma fresh_unused:
  assumes "dict_ok hash i" and "sint n = sint (in_next i) + 1"
  shows "dict_get i n = None" "dict_any i n = None" "in_vec_at i n = None" "vec_items i n = None"
proof -
  have "\<not> used_id i n" using assms(2) by (simp add: used_id_def)
  with assms(1) show "dict_get i n = None" "dict_any i n = None" "in_vec_at i n = None"
    unfolding dict_ok_def get_ok_def any_ok_def vec_ok_def by (metis not_None_eq surj_pair)+
  then show "vec_items i n = None" by (simp add: vec_items_def)
qed

lemma any_ok_frame:
  assumes "any_ok i" and "in_by_any i' = in_by_any i" and "dict_any i' = dict_any i"
    and "\<And>n v. dict_any i n = Some v \<Longrightarrow> used_id i n \<Longrightarrow> dict_get i n = None \<Longrightarrow> used_id i' n \<and> dict_get i' n = None"
  shows "any_ok i'"
  using assms(1,4) unfolding any_ok_def assms(2,3) by blast

subsection \<open>Interning a term\<close>

definition mint_view :: "string \<Rightarrow> ir_row \<Rightarrow> ty list \<Rightarrow> i64 \<Rightarrow> interner \<Rightarrow> interner \<Rightarrow> bool" where
  "mint_view f a ts n i i' \<longleftrightarrow> sint n = sint (in_next i) + 1 \<and> in_next i' = n \<and>
     (\<forall>m. dict_get i' m = (if m = n then Some \<lparr>tm_functor = f, tm_args = a, tm_types = ts, tm_text = None\<rparr> else dict_get i m)) \<and>
     length (in_by_id i') = max (length (in_by_id i)) (nat (sint n) + 1) \<and>
     in_by_key i' = (in_by_key i)((f, a) \<mapsto> n) \<and> in_by_text i' = in_by_text i \<and> in_by_any i' = in_by_any i \<and>
     in_any_by_id i' = in_any_by_id i \<and> in_vec_at i' = in_vec_at i \<and> in_vec_cells i' = in_vec_cells i \<and>
     in_vec_by_hash i' = in_vec_by_hash i \<and> in_terms i' = in_terms i + 1 \<and> in_pending i' = in_pending i @ [(f, n # a)]"

lemma mint_new:
  assumes "dict_ok hash i" and "in_by_key i (f, a) = None" and "(mint f a ts i :: ('e, i64 \<times> interner) rust) = Ok (n, i')"
  shows "mint_view f a ts n i i'"
proof -
  let ?t = "\<lparr>tm_functor = f, tm_args = a, tm_types = ts, tm_text = None\<rparr>"
  let ?i0 = "i\<lparr>in_functors := List.insert f (in_functors i)\<rparr>"
  obtain i1 i2 where i1: "(fresh_id ?i0 :: ('e, i64 \<times> interner) rust) = Ok (n, i1)"
    and i2: "(dict_put n ?t (i1\<lparr>in_by_key := (in_by_key i1)((f, a) \<mapsto> n)\<rparr>) :: ('e, interner) rust) = Ok i2"
    and i': "i' = i2\<lparr>in_pending := in_pending i2 @ [(f, n # a)]\<rparr>"
    using assms(2,3) by (auto simp: mint_def rust_simps split: prod.splits)
  have n: "sint n = sint (in_next i) + 1" "i1 = ?i0\<lparr>in_next := n\<rparr>"
    using fresh_id_Ok [OF _ i1] assms(1) by (simp_all add: dict_ok_def)
  then have "put_view n ?t (i1\<lparr>in_by_key := (in_by_key i1)((f, a) \<mapsto> n)\<rparr>) i2"
    using assms(1) by (intro dict_put_view [OF _ i2]) (simp add: dict_ok_def)
  then show ?thesis
    using n(1) unfolding put_view_def mint_view_def n(2) i' by (elim conjE exE) simp
qed

lemma lookups_eq:
  "in_any_by_id i' = in_any_by_id i \<Longrightarrow> dict_any i' = dict_any i"
  "in_vec_at i' = in_vec_at i \<Longrightarrow> in_vec_cells i' = in_vec_cells i \<Longrightarrow> vec_items i' = vec_items i"
  by (simp_all add: dict_any_def vec_items_def fun_eq_iff)

lemma mint_new_ok:
  assumes ok: "dict_ok hash i" and new: "in_by_key i (f, a) = None" and v: "mint_view f a ts n i i'"
  shows "dict_ok hash i'" and "dict_grows i i'"
proof -
  let ?t = "\<lparr>tm_functor = f, tm_args = a, tm_types = ts, tm_text = None\<rparr>"
  have n: "sint n = sint (in_next i) + 1" and nxt: "in_next i' = n" using v by (simp_all add: mint_view_def)
  note unused = fresh_unused [OF ok n]
  have get: "dict_get i' m = (if m = n then Some ?t else dict_get i m)" for m using v by (simp add: mint_view_def)
  have same: "dict_any i' = dict_any i" "vec_items i' = vec_items i" "in_vec_at i' = in_vec_at i"
    "in_by_any i' = in_by_any i" "in_vec_cells i' = in_vec_cells i" "in_vec_by_hash i' = in_vec_by_hash i" "in_by_text i' = in_by_text i"
    using v by (auto simp: mint_view_def intro!: lookups_eq)
  have key: "in_by_key i' = (in_by_key i)((f, a) \<mapsto> n)" using v by (simp add: mint_view_def)
  have used: "used_id i m \<Longrightarrow> used_id i' m" for m using n nxt by (simp add: used_id_def)
  have usedn: "used_id i' n" using n nxt ok by (simp add: used_id_def dict_ok_def)
  have "get_ok i'"
    using new usedn unfolding get_ok_def get key same
    by (auto dest: dict_okD(1-3) [OF ok] intro: used)
  moreover have "tables_ok i'"
    using unused(1) unfolding tables_ok_def get key same by (auto dest: dict_okD(4-5) [OF ok])
  moreover have "any_ok i'"
    by (rule any_ok_frame [of i]) (use ok unused(2) used in \<open>auto simp: same get dict_ok_def\<close>)
  moreover have "vec_ok hash i'"
    using ok unused(3) used unfolding vec_ok_def dict_ok_def get same by auto
  ultimately show "dict_ok hash i'"
    using ok v n by (simp add: dict_ok_def mint_view_def of_nat_max)
  show "dict_grows i i'"
    using n nxt unused(1) unfolding dict_grows_def get same by auto
qed

lemma mint_ok:
  assumes "dict_ok hash i" and "mint f a ts i = Ok (n, i')"
  shows "dict_ok hash i'" and "dict_grows i i'"
    and "\<exists>us. dict_get i' n = Some \<lparr>tm_functor = f, tm_args = a, tm_types = us, tm_text = None\<rparr>"
proof -
  consider "in_by_key i (f, a) = Some n" "i' = i" | "in_by_key i (f, a) = None" "mint_view f a ts n i i'"
    using assms mint_new [OF assms(1), of f a ts n i'] by (cases "in_by_key i (f, a)") (auto simp: mint_def)
  note cases = this
  show "dict_ok hash i'" by (cases rule: cases) (use assms(1) mint_new_ok in auto)
  show "dict_grows i i'" by (cases rule: cases) (use assms(1) mint_new_ok dict_grows_refl in auto)
  show "\<exists>us. dict_get i' n = Some \<lparr>tm_functor = f, tm_args = a, tm_types = us, tm_text = None\<rparr>"
    by (cases rule: cases) (use assms(1) in \<open>auto simp: dict_ok_def tables_ok_def mint_view_def\<close>)
qed

subsection \<open>Interning a text\<close>

lemma mint_text_ok:
  assumes ok: "dict_ok hash i" and run: "(mint_text s i :: ('e, i64 \<times> interner) rust) = Ok (n, i')"
  shows "dict_ok hash i' \<and> dict_grows i i' \<and> dict_text i' n = Some s \<and> in_pending i' = in_pending i"
proof (cases "in_by_text i s")
  case (Some m)
  with run have "m = n" "i' = i" by (auto simp: mint_text_def)
  with Some ok show ?thesis by (auto simp: dict_grows_refl dict_ok_def tables_ok_def dict_text_def text_term_def)
next
  case None
  obtain i1 where i1: "(fresh_id i :: ('e, i64 \<times> interner) rust) = Ok (n, i1)"
    and put: "(dict_put n (text_term s) (i1\<lparr>in_by_text := (in_by_text i1)(s \<mapsto> n)\<rparr>) :: ('e, interner) rust) = Ok i'"
    using None run by (auto simp: mint_text_def rust_simps split: prod.splits)
  have n: "sint n = sint (in_next i) + 1" "i1 = i\<lparr>in_next := n\<rparr>"
    using fresh_id_Ok [OF _ i1] ok by (simp_all add: dict_ok_def)
  then have "put_view n (text_term s) (i\<lparr>in_next := n, in_by_text := (in_by_text i)(s \<mapsto> n)\<rparr>) i'"
    using ok dict_put_view [OF _ put] by (simp add: dict_ok_def)
  then obtain slots where i': "i' = i\<lparr>in_next := n, in_by_text := (in_by_text i)(s \<mapsto> n), in_by_id := slots, in_terms := in_terms i + 1\<rparr>"
    and get: "dict_get i' m = (if m = n then Some (text_term s) else dict_get i m)"
    and len: "length (in_by_id i') = max (length (in_by_id i)) (nat (sint n) + 1)" for m
    unfolding put_view_def by auto
  note unused = fresh_unused [OF ok n(1)]
  have same: "dict_any i' = dict_any i" "vec_items i' = vec_items i" "in_vec_at i' = in_vec_at i" "in_by_key i' = in_by_key i"
    "in_by_any i' = in_by_any i" "in_vec_cells i' = in_vec_cells i" "in_vec_by_hash i' = in_vec_by_hash i"
    unfolding i' by (auto intro!: lookups_eq)
  have bt: "in_by_text i' = (in_by_text i)(s \<mapsto> n)" and nxt: "in_next i' = n" and pend: "in_pending i' = in_pending i"
    unfolding i' by simp_all
  have used: "used_id i m \<Longrightarrow> used_id i' m" for m using n nxt by (simp add: used_id_def)
  have usedn: "used_id i' n" using n nxt ok by (simp add: used_id_def dict_ok_def)
  have "get_ok i'"
    using None usedn unfolding get_ok_def get bt same
    by (auto dest: dict_okD(1-3) [OF ok] intro: used simp: text_term_def)
  moreover have "tables_ok i'"
    using unused(1) unfolding tables_ok_def get bt same by (auto dest: dict_okD(4-5) [OF ok])
  moreover have "any_ok i'"
    by (rule any_ok_frame [of i]) (use ok unused(2) used in \<open>auto simp: same get dict_ok_def\<close>)
  moreover have "vec_ok hash i'"
    using ok unused(3) used unfolding vec_ok_def dict_ok_def get same by auto
  ultimately have "dict_ok hash i'"
    using ok len n nxt by (simp add: dict_ok_def of_nat_max)
  moreover have "dict_grows i i'"
    using n nxt unused(1) unfolding dict_grows_def get same by auto
  ultimately show ?thesis using pend get [of n] by (simp add: dict_text_def text_term_def)
qed

subsection \<open>Interning a vector\<close>

lemma mint_vec_known:
  assumes ok: "dict_ok hash i" and "vec_items i n = Some items"
  shows "mint_vec hash items i = Ok (n, i)"
proof -
  have iff: "(\<exists>ns. in_vec_by_hash i h = Some ns \<and> m \<in> set ns) \<longleftrightarrow> (\<exists>items. vec_items i m = Some items \<and> hash items = h)" for h m
    using ok unfolding dict_ok_def vec_ok_def by blast
  have inj: "vec_items i m = Some xs \<Longrightarrow> vec_items i k = Some xs \<Longrightarrow> m = k" for m k xs
    using ok unfolding dict_ok_def vec_ok_def by blast
  from iff [of "hash items" n] assms(2) obtain ns where ns: "in_vec_by_hash i (hash items) = Some ns" "n \<in> set ns" by auto
  have "find (\<lambda>m. vec_items i m = Some items) ns = Some n"
  proof (cases "find (\<lambda>m. vec_items i m = Some items) ns")
    case None
    with ns(2) assms(2) show ?thesis by (auto simp: find_None_iff)
  next
    case (Some m)
    then have "vec_items i m = Some items" by (auto simp: find_Some_iff)
    with inj assms(2) Some show ?thesis by simp
  qed
  with ns(1) show ?thesis by (simp add: mint_vec_def)
qed

lemma mint_vec_ok:
  assumes ok: "dict_ok hash i" and run: "(mint_vec hash items i :: ('e, i64 \<times> interner) rust) = Ok (n, i')"
  shows "dict_ok hash i' \<and> dict_grows i i' \<and> vec_items i' n = Some items \<and> in_pending i' = in_pending i"
proof (cases "Option.bind (in_vec_by_hash i (hash items)) (find (\<lambda>m. vec_items i m = Some items))")
  case (Some m)
  with run have "m = n" "i' = i" by (auto simp: mint_vec_def)
  with Some ok show ?thesis by (auto simp: dict_grows_refl bind_eq_Some_conv find_Some_iff)
next
  case None
  have iff: "(\<exists>ns. in_vec_by_hash i h = Some ns \<and> m \<in> set ns) \<longleftrightarrow> (\<exists>items. vec_items i m = Some items \<and> hash items = h)" for h m
    using ok unfolding dict_ok_def vec_ok_def by blast
  have absent: "vec_items i m \<noteq> Some items" for m
  proof
    assume m: "vec_items i m = Some items"
    with iff [of "hash items" m] obtain ns where "in_vec_by_hash i (hash items) = Some ns" "m \<in> set ns" by auto
    with None m show False by (auto simp: find_None_iff)
  qed
  obtain i1 where i1: "(fresh_id i :: ('e, i64 \<times> interner) rust) = Ok (n, i1)"
    and i': "i' = i1\<lparr>in_vec_cells := in_vec_cells i1 @ items, in_vec_at := (in_vec_at i1)(n \<mapsto> (length (in_vec_cells i1), length (in_vec_cells i1 @ items))),
        in_vec_by_hash := (in_vec_by_hash i1)(hash items \<mapsto> (case in_vec_by_hash i1 (hash items) of None \<Rightarrow> [] | Some ns \<Rightarrow> ns) @ [n])\<rparr>"
    using None run by (auto simp: mint_vec_def rust_simps Let_def split: prod.splits)
  have n: "sint n = sint (in_next i) + 1" and i1': "i1 = i\<lparr>in_next := n\<rparr>"
    using fresh_id_Ok [OF _ i1] ok by (simp_all add: dict_ok_def)
  note unused = fresh_unused [OF ok n]
  have at: "in_vec_at i m = Some (a, b) \<Longrightarrow> a \<le> b \<and> b \<le> length (in_vec_cells i)" for m a b
    using ok unfolding dict_ok_def vec_ok_def by blast
  have items: "vec_items i' m = (if m = n then Some items else vec_items i m)" for m
    using at [of m] by (cases "in_vec_at i m") (auto simp: vec_items_def i' i1')
  have hashes: "(\<exists>ns. in_vec_by_hash i' h = Some ns \<and> m \<in> set ns) \<longleftrightarrow>
      (\<exists>ns. in_vec_by_hash i h = Some ns \<and> m \<in> set ns) \<or> h = hash items \<and> m = n" for h m
    by (cases "in_vec_by_hash i (hash items)") (auto simp: i' i1')
  have same: "dict_get i' = dict_get i" "dict_any i' = dict_any i" "in_by_key i' = in_by_key i" "in_by_text i' = in_by_text i"
    "in_by_any i' = in_by_any i" "in_by_id i' = in_by_id i" "in_next i' = n" "in_pending i' = in_pending i"
    unfolding i' i1' by (auto intro!: lookups_eq)
  have used: "used_id i m \<Longrightarrow> used_id i' m" for m using n same by (simp add: used_id_def)
  have usedn: "used_id i' n" using n same ok by (simp add: used_id_def dict_ok_def)
  have "get_ok i'" unfolding get_ok_def same by (auto dest: dict_okD(1-3) [OF ok] intro: used)
  moreover have "tables_ok i'" unfolding tables_ok_def same by (auto dest: dict_okD(4-5) [OF ok])
  moreover have "any_ok i'" by (rule any_ok_frame [of i]) (use ok used in \<open>auto simp: same dict_ok_def\<close>)
  moreover have "vec_ok hash i'"
  proof -
    have range: "a \<le> b \<and> b \<le> length (in_vec_cells i') \<and> used_id i' m \<and> dict_get i' m = None \<and> dict_any i' m = None"
      if "in_vec_at i' m = Some (a, b)" for m a b
    proof (cases "m = n")
      case True
      have "in_vec_at i' n = Some (length (in_vec_cells i), length (in_vec_cells i'))" by (simp add: i' i1')
      with that True have "a = length (in_vec_cells i) \<and> b = length (in_vec_cells i')" by simp
      moreover have "length (in_vec_cells i) \<le> length (in_vec_cells i')" by (simp add: i' i1')
      ultimately show ?thesis using unused usedn True same by simp
    next
      case False
      with that have old: "in_vec_at i m = Some (a, b)" by (simp add: i' i1')
      then have "used_id i m \<and> dict_get i m = None \<and> dict_any i m = None"
        using ok unfolding dict_ok_def vec_ok_def by blast
      moreover have "length (in_vec_cells i) \<le> length (in_vec_cells i')" by (simp add: i' i1')
      ultimately show ?thesis using at [OF old] used same by simp
    qed
    have inj: "vec_items i m = Some xs \<Longrightarrow> vec_items i k = Some xs \<Longrightarrow> m = k" for m k xs
      using ok unfolding dict_ok_def vec_ok_def by blast
    show ?thesis
      unfolding vec_ok_def hashes iff items
      using range inj absent unused(4) by (auto split: if_splits)
  qed
  ultimately have "dict_ok hash i'"
    using ok n by (simp add: dict_ok_def same)
  moreover have "dict_grows i i'"
    using n unused(4) unfolding dict_grows_def same items by auto
  ultimately show ?thesis using items same by simp
qed

subsection \<open>Interning a value\<close>

lemma insert_any_ok:
  assumes ok: "dict_ok hash i" and new: "in_by_any i v = None" and norm: "any_norm v = v"
    and int: "\<forall>bits k. v = AReal bits \<longrightarrow> integral_real bits = Some k \<longrightarrow> in_by_any i (AInteger k) \<noteq> None"
    and run: "(insert_any v i :: ('e, i64 \<times> interner) rust) = Ok (n, i')"
  shows "dict_ok hash i' \<and> dict_grows i i' \<and> dict_any i' n = Some v \<and> in_pending i' = in_pending i \<and> in_by_any i' = (in_by_any i)(v \<mapsto> n)"
proof -
  obtain i1 where i1: "(fresh_id i :: ('e, i64 \<times> interner) rust) = Ok (n, i1)"
    and i': "i' = i1\<lparr>in_by_any := (in_by_any i1)(v \<mapsto> n), in_any_by_id := AList.update n v (in_any_by_id i1)\<rparr>"
    using run by (auto simp: insert_any_def rust_simps split: prod.splits)
  have n: "sint n = sint (in_next i) + 1" and i1': "i1 = i\<lparr>in_next := n\<rparr>"
    using fresh_id_Ok [OF _ i1] ok by (simp_all add: dict_ok_def)
  note unused = fresh_unused [OF ok n]
  have any: "dict_any i' m = (if m = n then Some v else dict_any i m)" for m
    by (simp add: dict_any_def i' i1' update_conv')
  have same: "dict_get i' = dict_get i" "in_by_key i' = in_by_key i" "in_by_text i' = in_by_text i" "vec_items i' = vec_items i"
    "in_vec_at i' = in_vec_at i" "in_vec_cells i' = in_vec_cells i" "in_vec_by_hash i' = in_vec_by_hash i" "in_by_any i' = (in_by_any i)(v \<mapsto> n)"
    "in_by_id i' = in_by_id i" "in_next i' = n" "in_pending i' = in_pending i"
    unfolding i' i1' by (auto intro!: lookups_eq)
  have used: "used_id i m \<Longrightarrow> used_id i' m" for m using n same by (simp add: used_id_def)
  have usedn: "used_id i' n" using n same ok by (simp add: used_id_def dict_ok_def)
  have old: "in_by_any i w = Some m \<longleftrightarrow> dict_any i m = Some w" for w m
    using ok unfolding dict_ok_def any_ok_def by blast
  have "get_ok i'" unfolding get_ok_def same by (auto dest: dict_okD(1-3) [OF ok] intro: used)
  moreover have "tables_ok i'" unfolding tables_ok_def same by (auto dest: dict_okD(4-5) [OF ok])
  moreover have "any_ok i'"
  proof -
    have "in_by_any i' w = Some m \<longleftrightarrow> dict_any i' m = Some w" for w m
      using old [of w m] old [of v m] old [of w n] new unused(2) by (auto simp: same any)
    moreover have "used_id i' m \<and> dict_get i' m = None \<and> any_norm w = w" if "dict_any i' m = Some w" for m w
    proof (cases "m = n")
      case True
      with that any usedn unused(1) norm same show ?thesis by simp
    next
      case False
      with that any have "dict_any i m = Some w" by simp
      then have "used_id i m \<and> dict_get i m = None \<and> any_norm w = w"
        using ok unfolding dict_ok_def any_ok_def by blast
      with used same show ?thesis by simp
    qed
    moreover have "in_by_any i' (AInteger k) \<noteq> None" if "in_by_any i' (AReal bits) \<noteq> None" "integral_real bits = Some k" for bits k
    proof -
      have "in_by_any i (AInteger k) \<noteq> None"
      proof (cases "v = AReal bits")
        case True
        with int that show ?thesis by blast
      next
        case False
        with that(1) same have "in_by_any i (AReal bits) \<noteq> None" by auto
        with that(2) ok show ?thesis unfolding dict_ok_def any_ok_def by blast
      qed
      then show ?thesis by (simp add: same)
    qed
    ultimately show ?thesis unfolding any_ok_def by blast
  qed
  moreover have "vec_ok hash i'"
  proof -
    have "a \<le> b \<and> b \<le> length (in_vec_cells i) \<and> used_id i' m \<and> dict_get i m = None \<and> dict_any i' m = None"
      if "in_vec_at i m = Some (a, b)" for m a b
    proof -
      have "a \<le> b \<and> b \<le> length (in_vec_cells i) \<and> used_id i m \<and> dict_get i m = None \<and> dict_any i m = None"
        using ok that unfolding dict_ok_def vec_ok_def by blast
      with that unused(3) used any show ?thesis by auto
    qed
    with ok show ?thesis unfolding vec_ok_def dict_ok_def same by blast
  qed
  ultimately have "dict_ok hash i'" using ok n by (simp add: dict_ok_def same)
  moreover have "dict_grows i i'" using n unused(2) unfolding dict_grows_def same any by auto
  ultimately show ?thesis using any same by simp
qed

lemma any_norm_norm [simp]: "any_norm (any_norm v) = any_norm v"
  by (cases v) (auto simp: any_norm_def)

lemma mint_any_known:
  assumes "dict_ok hash i" and "dict_any i n = Some (any_norm v)"
  shows "mint_any v i = Ok (n, i)"
proof -
  have "in_by_any i (any_norm v) = Some n"
    using assms unfolding dict_ok_def any_ok_def by blast
  then show ?thesis by (simp add: mint_any_def)
qed

lemma mint_any_ok:
  assumes ok: "dict_ok hash i" and run: "(mint_any v0 i :: ('e, i64 \<times> interner) rust) = Ok (n, i')"
  shows "dict_ok hash i' \<and> dict_grows i i' \<and> dict_any i' n = Some (any_norm v0) \<and> in_pending i' = in_pending i"
proof -
  let ?v = "any_norm v0"
  show ?thesis
  proof (cases "in_by_any i ?v")
    case (Some m)
    with run have "m = n" "i' = i" by (auto simp: mint_any_def)
    moreover have "dict_any i m = Some ?v" using Some ok unfolding dict_ok_def any_ok_def by blast
    ultimately show ?thesis using ok by (simp add: dict_grows_refl)
  next
    case None
    show ?thesis
    proof (cases "\<exists>bits k. ?v = AReal bits \<and> integral_real bits = Some k \<and> in_by_any i (AInteger k) = None")
      case False
      then have int: "\<forall>bits k. ?v = AReal bits \<longrightarrow> integral_real bits = Some k \<longrightarrow> in_by_any i (AInteger k) \<noteq> None"
        by auto
      have "(insert_any ?v i :: ('e, i64 \<times> interner) rust) = Ok (n, i')"
        using None run False by (auto simp: mint_any_def Let_def split: any_value.splits option.splits if_splits)
      from insert_any_ok [OF ok None any_norm_norm int this] show ?thesis by blast
    next
      case True
      then obtain bits k where v: "?v = AReal bits" and k: "integral_real bits = Some k" and nk: "in_by_any i (AInteger k) = None" by blast
      obtain m i1 where i1: "(insert_any (AInteger k) i :: ('e, i64 \<times> interner) rust) = Ok (m, i1)"
        and i2: "(insert_any ?v i1 :: ('e, i64 \<times> interner) rust) = Ok (n, i')"
        using None run v k nk by (auto simp: mint_any_def Let_def rust_simps)
      have 1: "dict_ok hash i1 \<and> dict_grows i i1 \<and> in_pending i1 = in_pending i \<and> in_by_any i1 = (in_by_any i)(AInteger k \<mapsto> m)"
        using insert_any_ok [OF ok nk _ _ i1] by (simp add: any_norm_def)
      then have "in_by_any i1 ?v = None" using None v by simp
      with insert_any_ok [OF _ this any_norm_norm _ i2] 1 v k dict_grows_trans show ?thesis by auto
    qed
  qed
qed

subsection \<open>The dictionary keeps the contract\<close>

definition term_key_of :: "interner \<Rightarrow> i64 \<Rightarrow> (string \<times> ir_row) option" where
  "term_key_of i n = (case dict_get i n of Some t \<Rightarrow> if tm_text t = None then Some (tm_functor t, tm_args t) else None | None \<Rightarrow> None)"

lemma mint_known:
  "dict_ok hash i \<Longrightarrow> term_key_of i n = Some (f, a) \<Longrightarrow> mint f a ts i = Ok (n, i)"
  by (auto simp: term_key_of_def mint_def dest: dict_okD(2) split: option.splits if_splits)

lemma mint_text_known:
  assumes "dict_ok hash i" and "dict_text i n = Some s"
  shows "mint_text s i = Ok (n, i)"
proof -
  from assms(2) obtain t where "dict_get i n = Some t" "tm_text t = Some s" by (auto simp: dict_text_def bind_eq_Some_conv)
  then have "in_by_text i s = Some n" using dict_okD(3) [OF assms(1)] by blast
  then show ?thesis by (simp add: mint_text_def)
qed

lemma lasting:
  assumes "dict_grows i i'"
  shows "term_key_of i n = Some k \<Longrightarrow> term_key_of i' n = Some k" and "dict_text i n = Some s \<Longrightarrow> dict_text i' n = Some s"
    and "vec_items i n = Some items \<Longrightarrow> vec_items i' n = Some items" and "dict_any i n = Some v \<Longrightarrow> dict_any i' n = Some v"
proof -
  have get: "dict_get i n = Some t \<Longrightarrow> dict_get i' n = Some t" for t using assms by (simp add: dict_grows_def)
  then show "term_key_of i n = Some k \<Longrightarrow> term_key_of i' n = Some k" "dict_text i n = Some s \<Longrightarrow> dict_text i' n = Some s"
    by (cases "dict_get i n"; simp add: term_key_of_def dict_text_def)+
qed (use assms in \<open>simp_all add: dict_grows_def\<close>)

lemmas mint_text_laws =
  mint_text_ok [THEN conjunct1] mint_text_ok [THEN conjunct2, THEN conjunct1] mint_text_ok [THEN conjunct2, THEN conjunct2, THEN conjunct1]
lemmas mint_vec_laws =
  mint_vec_ok [THEN conjunct1] mint_vec_ok [THEN conjunct2, THEN conjunct1] mint_vec_ok [THEN conjunct2, THEN conjunct2, THEN conjunct1]
lemmas mint_any_laws =
  mint_any_ok [THEN conjunct1] mint_any_ok [THEN conjunct2, THEN conjunct1] mint_any_ok [THEN conjunct2, THEN conjunct2, THEN conjunct1]

interpretation terms: intern_table "dict_ok hash" dict_grows "\<lambda>(f, a). mint f a ts" term_key_of "\<lambda>k. k"
  for hash ts
proof unfold_locales
  fix s k n s'
  assume ok: "dict_ok hash s" and run: "(case k of (f, a) \<Rightarrow> mint f a ts) s = Ok (n, s')"
  obtain f a where k: "k = (f, a)" by (cases k)
  note res = mint_ok [OF ok run [unfolded k prod.case]]
  show "dict_ok hash s'" "dict_grows s s'" by (rule res(1), rule res(2))
  from res(3) show "term_key_of s' n = Some k" by (auto simp: term_key_of_def k)
qed (erule (1) dict_grows_trans | rule dict_grows_refl | erule (1) lasting | auto intro: mint_known)+

interpretation texts: intern_table "dict_ok hash" dict_grows mint_text dict_text "\<lambda>s. s"
  for hash
  by unfold_locales
    (erule (1) mint_text_laws | erule (1) mint_text_known | rule dict_grows_refl | erule (1) dict_grows_trans | erule (1) lasting)+

interpretation vecs: intern_table "dict_ok hash" dict_grows "mint_vec hash" vec_items "\<lambda>v. v"
  for hash
  by unfold_locales
    (erule (1) mint_vec_laws | erule (1) mint_vec_known | rule dict_grows_refl | erule (1) dict_grows_trans | erule (1) lasting)+

interpretation anys: intern_table "dict_ok hash" dict_grows mint_any dict_any any_norm
  for hash
  by unfold_locales
    (erule (1) mint_any_laws | erule (1) mint_any_known | rule dict_grows_refl | erule (1) dict_grows_trans | erule (1) lasting)+

end
