(* ===== verification/Ir_Dict_Theorems.thy ===== *)
theory Ir_Dict_Theorems
  imports Ir_Dict_Laws
begin

text \<open>
  Runs of the dictionary from empty: which rows it announces, what its snapshots list, and the
  properties of its ids.
\<close>

subsection \<open>Entries\<close>

definition entries_from :: "nat \<Rightarrow> 'a option list \<Rightarrow> (i64 \<times> 'a) list" where
  "entries_from k xs = List.map_filter (\<lambda>(n, t). map_option (\<lambda>t. (of_nat n, t)) t) (zip [k..<k + length xs] xs)"

lemma entries_from_simps [simp]:
  "entries_from k [] = []"
  "entries_from k (x # xs) = (case x of None \<Rightarrow> entries_from (Suc k) xs | Some t \<Rightarrow> (of_nat k, t) # entries_from (Suc k) xs)"
  by (simp_all add: entries_from_def map_filter_simps upt_conv_Cons del: upt_Suc split: option.split)

lemma entries_from_append: "entries_from k (xs @ ys) = entries_from k xs @ entries_from (k + length xs) ys"
  by (induction xs arbitrary: k) (auto split: option.split)

lemma entries_from_replicate [simp]: "entries_from k (replicate n None) = []"
  by (induction n arbitrary: k) auto

lemma dict_entries_from: "dict_entries i = entries_from 0 (in_by_id i)"
  by (simp add: dict_entries_def entries_from_def)

lemma entries_from_iff: "(n, t) \<in> set (entries_from k xs) \<longleftrightarrow> (\<exists>j < length xs. xs ! j = Some t \<and> n = of_nat (k + j))"
proof (induction xs arbitrary: k)
  case (Cons x xs)
  have "(\<exists>j < length (x # xs). (x # xs) ! j = Some t \<and> n = of_nat (k + j)) \<longleftrightarrow>
      x = Some t \<and> n = of_nat k \<or> (\<exists>j < length xs. xs ! j = Some t \<and> n = of_nat (Suc k + j))"
    by (auto simp: less_Suc_eq_0_disj intro: exI [of _ 0])
  then show ?case by (auto simp: Cons.IH split: option.split)
qed simp

lemma put_entries:
  assumes "int (length (in_by_id i)) \<le> sint n" and "dict_put n t i = Ok i'"
  shows "dict_entries i' = dict_entries i @ [(n, t)]"
proof -
  let ?xs = "in_by_id i"
  let ?s = "nat (sint n)"
  have len: "length ?xs \<le> ?s" and pos: "0 \<le> sint n" using assms(1) by auto
  have "in_by_id i' = (vec_resize ?xs (?s + 1) None)[?s := Some t]"
    using assms(2) pos by (auto simp: dict_put_def try_usize_def Let_def)
  also have "vec_resize ?xs (?s + 1) None = ?xs @ replicate (?s - length ?xs) None @ [None]"
    using len by (simp add: vec_resize_def Suc_diff_le replicate_append_same)
  also have "(?xs @ replicate (?s - length ?xs) None @ [None])[?s := Some t] = ?xs @ replicate (?s - length ?xs) None @ [Some t]"
    using len by (simp add: list_update_append)
  finally show ?thesis
    using len pos by (simp add: dict_entries_from entries_from_append)
qed

definition dict_rows :: "interner \<Rightarrow> (string \<times> ir_row) list" where
  "dict_rows i = map (\<lambda>(n, t). (tm_functor t, n # tm_args t)) (filter (\<lambda>(n, t). tm_text t = None) (dict_entries i))"

lemma dict_entries_get:
  assumes "dict_ok hash i"
  shows "(n, t) \<in> set (dict_entries i) \<longleftrightarrow> dict_get i n = Some t"
proof -
  have small: "sint (of_nat j :: i64) = int j" if "j < length (in_by_id i)" for j
  proof -
    have "int j < 2 ^ 63" using that assms sint_i64_le [of "in_next i"] by (simp add: dict_ok_def)
    then have "sint (of_int (int j) :: i64) = int j" by (simp only: sint_sbintrunc') (simp add: signed_take_bit_int_eq_self)
    then show ?thesis by simp
  qed
  show ?thesis
  proof
    assume "(n, t) \<in> set (dict_entries i)"
    then obtain j where "j < length (in_by_id i)" "in_by_id i ! j = Some t" "n = of_nat j"
      by (auto simp: dict_entries_from entries_from_iff)
    with small show "dict_get i n = Some t" by (simp add: dict_get_def try_usize_def)
  next
    assume "dict_get i n = Some t"
    then have "0 \<le> sint n" "nat (sint n) < length (in_by_id i)" "in_by_id i ! nat (sint n) = Some t"
      by (auto simp: dict_get_def try_usize_def bind_eq_Some_conv split: if_splits)
    then show "(n, t) \<in> set (dict_entries i)"
      by (auto simp: dict_entries_from entries_from_iff intro!: exI [of _ "nat (sint n)"])
  qed
qed

lemma entries_from_ids: "k + length xs \<le> 2 ^ 64 \<Longrightarrow> distinct (map fst (entries_from k xs))"
proof (induction xs arbitrary: k)
  case (Cons x xs)
  have "(of_nat k :: i64) \<notin> fst ` set (entries_from (Suc k) xs)"
  proof
    assume "(of_nat k :: i64) \<in> fst ` set (entries_from (Suc k) xs)"
    then obtain j t where j: "j < length xs" "(of_nat k :: i64) = of_nat (Suc k + j)"
      by (auto simp: entries_from_iff)
    have "unat (of_nat k :: i64) = unat (of_nat (Suc k + j) :: i64)" by (rule arg_cong [OF j(2)])
    moreover have "unat (of_nat m :: i64) = m" if "m < 2 ^ 64" for m
      using that by (simp add: unat_of_nat take_bit_nat_eq_self)
    ultimately show False using j(1) Cons.prems by (simp del: of_nat_add of_nat_Suc)
  qed
  with Cons show ?case by (auto split: option.split)
qed simp

subsection \<open>What each operation announces\<close>

text \<open>The rows an operation adds to the pending ones are those of the entries it adds.\<close>

definition announces :: "interner \<Rightarrow> interner \<Rightarrow> bool" where
  "announces i i' \<longleftrightarrow> (\<exists>rows es. in_pending i' = in_pending i @ rows \<and> dict_rows i' = dict_rows i @ rows \<and>
     dict_entries i' = dict_entries i @ es \<and> in_terms i' = in_terms i + length es)"

lemma announces_nothing:
  "in_pending i' = in_pending i \<Longrightarrow> in_by_id i' = in_by_id i \<Longrightarrow> in_terms i' = in_terms i \<Longrightarrow> announces i i'"
  by (simp add: announces_def dict_rows_def dict_entries_def)

lemma mint_announces:
  assumes ok: "dict_ok hash i" and run: "(mint f a ts i :: ('e, i64 \<times> interner) rust) = Ok (n, i')"
  shows "announces i i'"
proof (cases "in_by_key i (f, a)")
  case (Some m)
  with run show ?thesis by (auto simp: mint_def intro: announces_nothing)
next
  case None
  let ?t = "\<lparr>tm_functor = f, tm_args = a, tm_types = ts, tm_text = None\<rparr>"
  let ?i0 = "i\<lparr>in_functors := List.insert f (in_functors i)\<rparr>"
  obtain i1 i2 where i1: "(fresh_id ?i0 :: ('e, i64 \<times> interner) rust) = Ok (n, i1)"
    and i2: "(dict_put n ?t (i1\<lparr>in_by_key := (in_by_key i1)((f, a) \<mapsto> n)\<rparr>) :: ('e, interner) rust) = Ok i2"
    and i': "i' = i2\<lparr>in_pending := in_pending i2 @ [(f, n # a)]\<rparr>"
    using None run by (auto simp: mint_def rust_simps split: prod.splits)
  have n: "sint n = sint (in_next i) + 1" "i1 = ?i0\<lparr>in_next := n\<rparr>"
    using fresh_id_Ok [OF _ i1] ok by (simp_all add: dict_ok_def)
  have "dict_entries i2 = dict_entries i @ [(n, ?t)]"
    using put_entries [OF _ i2] n ok by (simp add: dict_ok_def dict_entries_def)
  moreover have "in_terms i2 = in_terms i + 1" "in_pending i2 = in_pending i"
    using i2 n by (auto simp: dict_put_def Let_def split: option.splits)
  ultimately show ?thesis
    unfolding announces_def i' by (intro exI [of _ "[(f, n # a)]"] exI [of _ "[(n, ?t)]"]) (simp add: dict_rows_def dict_entries_def)
qed

lemma mint_text_announces:
  assumes ok: "dict_ok hash i" and run: "(mint_text s i :: ('e, i64 \<times> interner) rust) = Ok (n, i')"
  shows "announces i i'"
proof (cases "in_by_text i s")
  case (Some m)
  with run show ?thesis by (auto simp: mint_text_def intro: announces_nothing)
next
  case None
  obtain i1 where i1: "(fresh_id i :: ('e, i64 \<times> interner) rust) = Ok (n, i1)"
    and i2: "(dict_put n (text_term s) (i1\<lparr>in_by_text := (in_by_text i1)(s \<mapsto> n)\<rparr>) :: ('e, interner) rust) = Ok i'"
    using None run by (auto simp: mint_text_def rust_simps split: prod.splits)
  have n: "sint n = sint (in_next i) + 1" "i1 = i\<lparr>in_next := n\<rparr>"
    using fresh_id_Ok [OF _ i1] ok by (simp_all add: dict_ok_def)
  have "dict_entries i' = dict_entries i @ [(n, text_term s)]"
    using put_entries [OF _ i2] n ok by (simp add: dict_ok_def dict_entries_def)
  moreover have "in_terms i' = in_terms i + 1" "in_pending i' = in_pending i"
    using i2 n by (auto simp: dict_put_def Let_def split: option.splits)
  ultimately show ?thesis
    unfolding announces_def by (intro exI [of _ "[]"] exI [of _ "[(n, text_term s)]"]) (simp add: dict_rows_def text_term_def)
qed

lemma fresh_id_frame: "fresh_id i = Ok (n, i') \<Longrightarrow> \<exists>m. i' = i\<lparr>in_next := m\<rparr>"
  by (auto simp: fresh_id_def split: option.splits)

lemma insert_any_announces: "insert_any v i = Ok (n, i') \<Longrightarrow> announces i i'"
  by (auto simp: insert_any_def rust_simps dest!: fresh_id_frame intro!: announces_nothing)

lemma announces_trans: "announces i j \<Longrightarrow> announces j k \<Longrightarrow> announces i k"
  unfolding announces_def by (metis add.assoc append_assoc length_append)

lemma mint_any_announces: "mint_any v i = Ok (n, i') \<Longrightarrow> announces i i'"
  by (auto simp: mint_any_def Let_def rust_simps intro: announces_nothing announces_trans dest!: insert_any_announces
      split: option.splits any_value.splits if_splits)

lemma mint_vec_announces: "mint_vec hash items i = Ok (n, i') \<Longrightarrow> announces i i'"
  by (auto simp: mint_vec_def Let_def rust_simps intro!: announces_nothing dest!: fresh_id_frame split: option.splits)

subsection \<open>Runs\<close>

text \<open>The second argument collects what \<open>drain_pending\<close> has handed out.\<close>

inductive dict_reach :: "(i64 list \<Rightarrow> u64) \<Rightarrow> interner \<Rightarrow> (string \<times> ir_row) list \<Rightarrow> bool" for hash where
  Start: "dict_reach hash dict_empty []"
| Mint: "dict_reach hash i lg \<Longrightarrow> (mint f a ts i :: (unit, i64 \<times> interner) rust) = Ok (n, i') \<Longrightarrow> dict_reach hash i' lg"
| Text: "dict_reach hash i lg \<Longrightarrow> (mint_text s i :: (unit, i64 \<times> interner) rust) = Ok (n, i') \<Longrightarrow> dict_reach hash i' lg"
| Shared: "dict_reach hash i lg \<Longrightarrow> (mint_shared_text s i :: (unit, i64 \<times> interner) rust) = Ok (n, i') \<Longrightarrow> dict_reach hash i' lg"
| Vec: "dict_reach hash i lg \<Longrightarrow> (mint_vec hash items i :: (unit, i64 \<times> interner) rust) = Ok (n, i') \<Longrightarrow> dict_reach hash i' lg"
| Any: "dict_reach hash i lg \<Longrightarrow> (mint_any v i :: (unit, i64 \<times> interner) rust) = Ok (n, i') \<Longrightarrow> dict_reach hash i' lg"
| Drain: "dict_reach hash i lg \<Longrightarrow> drain_pending i = (rows, i') \<Longrightarrow> dict_reach hash i' (lg @ rows)"

lemma mint_shared_text_eq: "mint_shared_text s i = mint_text s i"
  by (simp add: mint_shared_text_def mint_text_def)

lemma drain_frame:
  "used_id (i\<lparr>in_pending := q\<rparr>) = used_id i" "dict_any (i\<lparr>in_pending := q\<rparr>) = dict_any i" "vec_items (i\<lparr>in_pending := q\<rparr>) = vec_items i"
  "in_by_key (i\<lparr>in_pending := q\<rparr>) = in_by_key i"
  "in_by_id (i\<lparr>in_pending := q\<rparr>) = in_by_id i"
  "in_by_text (i\<lparr>in_pending := q\<rparr>) = in_by_text i"
  "in_by_any (i\<lparr>in_pending := q\<rparr>) = in_by_any i"
  "in_next (i\<lparr>in_pending := q\<rparr>) = in_next i"
  "in_vec_cells (i\<lparr>in_pending := q\<rparr>) = in_vec_cells i"
  "in_vec_at (i\<lparr>in_pending := q\<rparr>) = in_vec_at i"
  "in_vec_by_hash (i\<lparr>in_pending := q\<rparr>) = in_vec_by_hash i"
  by (simp_all add: fun_eq_iff used_id_def dict_any_def vec_items_def)

lemma drain_ok: "dict_ok hash (i\<lparr>in_pending := q\<rparr>) = dict_ok hash i"
  unfolding dict_ok_def get_ok_def tables_ok_def any_ok_def vec_ok_def drain_frame lookups_frame by (rule refl)

definition run_inv :: "(i64 list \<Rightarrow> u64) \<Rightarrow> interner \<Rightarrow> (string \<times> ir_row) list \<Rightarrow> bool" where
  "run_inv hash i lg \<longleftrightarrow> dict_ok hash i \<and> dict_rows i = lg @ in_pending i \<and> in_terms i = length (dict_entries i)"

lemma run_inv_step:
  "run_inv hash i lg \<Longrightarrow> announces i i' \<Longrightarrow> dict_ok hash i' \<Longrightarrow> run_inv hash i' lg"
  by (auto simp: run_inv_def announces_def)

lemma dict_reach_inv: "dict_reach hash i lg \<Longrightarrow> run_inv hash i lg"
proof (induction rule: dict_reach.induct)
  case Start
  show ?case by (simp add: run_inv_def dict_empty_ok) (simp add: dict_empty_def dict_rows_def dict_entries_def)
next
  case (Mint i lg f a ts n i')
  then have "dict_ok hash i" by (simp add: run_inv_def)
  with Mint show ?case by (intro run_inv_step [OF Mint.IH]) (auto intro: mint_announces mint_ok(1))
next
  case (Text i lg s n i')
  then have "dict_ok hash i" by (simp add: run_inv_def)
  with Text show ?case by (intro run_inv_step [OF Text.IH]) (auto intro: mint_text_announces dest: mint_text_ok)
next
  case (Shared i lg s n i')
  then have "dict_ok hash i" by (simp add: run_inv_def)
  with Shared show ?case
    by (intro run_inv_step [OF Shared.IH]) (auto simp: mint_shared_text_eq intro: mint_text_announces dest: mint_text_ok)
next
  case (Vec i lg items n i')
  then have "dict_ok hash i" by (simp add: run_inv_def)
  with Vec show ?case by (intro run_inv_step [OF Vec.IH]) (auto intro: mint_vec_announces dest: mint_vec_ok)
next
  case (Any i lg v n i')
  then have "dict_ok hash i" by (simp add: run_inv_def)
  with Any show ?case by (intro run_inv_step [OF Any.IH]) (auto intro: mint_any_announces dest: mint_any_ok)
next
  case (Drain i lg rows i')
  then show ?case by (auto simp: run_inv_def drain_pending_def drain_ok dict_rows_def dict_entries_def)
qed

subsection \<open>One pass for many functors\<close>

fun positions :: "nat \<Rightarrow> string \<Rightarrow> string list \<Rightarrow> nat list" where
  "positions k f [] = []"
| "positions k f (g # gs) = (if g = f then [k] else []) @ positions (Suc k) f gs"

lemma positions_iff: "j \<in> set (positions k f fs) \<longleftrightarrow> k \<le> j \<and> j < k + length fs \<and> fs ! (j - k) = f"
proof (induction k f fs rule: positions.induct)
  case (2 k f g gs)
  then show ?case by (cases "j = k") (auto simp: nth_Cons' Suc_diff_le)
qed simp

lemma distinct_positions: "distinct (positions k f fs)"
  by (induction k f fs rule: positions.induct) (auto simp: positions_iff)

lemma snapshot_slots_positions:
  "(case snapshot_slots k fs slots f of None \<Rightarrow> [] | Some ks \<Rightarrow> ks) = (case slots f of None \<Rightarrow> [] | Some ks \<Rightarrow> ks) @ positions k f fs"
proof (induction k fs slots rule: snapshot_slots.induct)
  case (2 k g gs slots)
  then show ?case by (cases "g = f") (simp_all add: fun_upd_same fun_upd_other del: fun_upd_apply)
qed simp

lemma push_row_simps [simp]:
  "length (push_row r k out) = length out"
  "j < length out \<Longrightarrow> push_row r k out ! j = (if j = k then out ! j @ [r] else out ! j)"
  by (auto simp: push_row_def nth_list_update)

lemma fold_push_row:
  "distinct ks \<Longrightarrow> length (fold (push_row r) ks out) = length out \<and>
     (\<forall>j < length out. fold (push_row r) ks out ! j = (if j \<in> set ks then out ! j @ [r] else out ! j))"
proof (induction ks arbitrary: out)
  case (Cons k ks)
  have "length (fold (push_row r) ks (push_row r k out)) = length out \<and>
      (\<forall>j < length out. fold (push_row r) ks (push_row r k out) ! j =
        (if j \<in> set ks then push_row r k out ! j @ [r] else push_row r k out ! j))"
    using Cons.IH [of "push_row r k out"] Cons.prems by simp
  with Cons.prems show ?case by auto
qed simp

lemma snapshot_pass_rows:
  assumes "\<And>f. (case slots f of None \<Rightarrow> [] | Some ks \<Rightarrow> ks) = positions 0 f fs" and "length out = length fs"
  shows "length (snapshot_pass slots xs out) = length fs \<and>
    (\<forall>j < length fs. snapshot_pass slots xs out ! j = out ! j @ map snapshot_row (filter (\<lambda>x. tm_functor (snd x) = fs ! j) xs))"
  using assms(2)
proof (induction xs arbitrary: out)
  case (Cons x xs)
  let ?f = "tm_functor (snd x)"
  let ?out = "fold (push_row (snapshot_row x)) (positions 0 ?f fs) out"
  have "(case slots ?f of None \<Rightarrow> out | Some ks \<Rightarrow> fold (push_row (snapshot_row x)) ks out) = ?out"
    using assms(1) [of ?f] by (cases "slots ?f") auto
  moreover have "length ?out = length fs" "\<forall>j < length fs. ?out ! j = (if fs ! j = ?f then out ! j @ [snapshot_row x] else out ! j)"
    using fold_push_row [OF distinct_positions, of "snapshot_row x" 0 ?f fs out] Cons.prems by (auto simp: positions_iff)
  ultimately show ?case using Cons.IH [of ?out] by auto
qed simp

subsection \<open>Properties\<close>

text \<open>
  Reading several constructors in one pass over the dictionary gives each one's snapshot, in
  the order asked for, repeated and unknown names included.
\<close>

theorem dict_snapshots_eq: "dict_snapshots i functors = map (dict_snapshot i) functors"
proof -
  have "(case snapshot_slots 0 functors (\<lambda>_. None) f of None \<Rightarrow> [] | Some ks \<Rightarrow> ks) = positions 0 f functors" for f
    using snapshot_slots_positions [of 0 functors "\<lambda>_. None" f] by simp
  from snapshot_pass_rows [OF this, of "replicate (length functors) []" "dict_entries i"]
  show ?thesis unfolding dict_snapshots_def dict_snapshot_def by (intro nth_equalityI) auto
qed

text \<open>
  C15: However the dictionary is used from empty, ids are never shared: an id in use is positive and
  stands for exactly one of a term, a text, a value and a vector, and looking up what it stands for
  leads back to it.
\<close>

theorem dict_reach_invariant:
  assumes "dict_reach hash i lg"
  shows "dict_ok hash i"
  using dict_reach_inv [OF assms] by (simp add: run_inv_def)

text \<open>
  C14: Every constructor term is announced exactly once, in the order of the ids, and no text is:
  the rows handed out so far followed by those still pending are the dictionary's constructor rows.
\<close>

theorem dict_announces_once:
  assumes "dict_reach hash i lg"
  shows "lg @ in_pending i = dict_rows i \<and> distinct (lg @ in_pending i) \<and>
    (\<forall>f n a. (f, n # a) \<in> set (lg @ in_pending i) \<longleftrightarrow> term_key_of i n = Some (f, a))"
proof -
  have inv: "dict_rows i = lg @ in_pending i" and ok: "dict_ok hash i"
    using dict_reach_inv [OF assms] by (simp_all add: run_inv_def)
  have ids: "distinct (map fst (dict_entries i))"
  proof -
    have "int (length (in_by_id i)) \<le> 2 ^ 63" using ok sint_i64_le [of "in_next i"] by (simp add: dict_ok_def)
    then show ?thesis unfolding dict_entries_from by (intro entries_from_ids) simp
  qed
  have "distinct (map (\<lambda>r. hd (snd r)) (dict_rows i))"
  proof -
    have "map (\<lambda>r. hd (snd r)) (dict_rows i) = map fst (filter (\<lambda>(n, t). tm_text t = None) (dict_entries i))"
      by (simp add: dict_rows_def case_prod_beta comp_def)
    then show ?thesis using ids by (simp add: distinct_map_filter)
  qed
  then have "distinct (dict_rows i)" by (simp add: distinct_map)
  moreover have "(f, n # a) \<in> set (dict_rows i) \<longleftrightarrow> term_key_of i n = Some (f, a)" for f n a
  proof -
    have "(f, n # a) \<in> set (dict_rows i) \<longleftrightarrow> (\<exists>t. dict_get i n = Some t \<and> tm_text t = None \<and> tm_functor t = f \<and> tm_args t = a)"
      by (auto simp: dict_rows_def dict_entries_get [OF ok, symmetric] image_iff)
    then show ?thesis by (auto simp: term_key_of_def split: option.split)
  qed
  ultimately show ?thesis using inv by simp
qed

text \<open>
  C16: A term has one id for ever: interning it again, with any column types and after any further
  interning, returns the same id and changes nothing, and two terms share an id only if they have
  the same functor and the same arguments.
\<close>

theorem mint_once:
  assumes "dict_ok hash i" and "(mint f a ts i :: (unit, i64 \<times> interner) rust) = Ok (n, i1)"
    and "dict_grows i1 i2" and "dict_ok hash i2" and "(mint g b us i2 :: (unit, i64 \<times> interner) rust) = Ok (m, i3)"
  shows "(n = m \<longleftrightarrow> f = g \<and> a = b) \<and> (n = m \<longrightarrow> i3 = i2)"
proof -
  have "term_key_of i1 n = Some (f, a)" using terms.stored [OF assms(1), where k = "(f, a)" and n = n and s' = i1 and ts = ts] assms(2) by simp
  then have key: "term_key_of i2 n = Some (f, a)" using lasting(1) [OF assms(3)] by blast
  have key': "term_key_of i3 m = Some (g, b)" "dict_grows i2 i3"
    using terms.stored [OF assms(4), where k = "(g, b)" and n = m and s' = i3 and ts = us]
      terms.grow [OF assms(4), where k = "(g, b)" and n = m and s' = i3 and ts = us] assms(5) by simp_all
  show ?thesis
  proof (cases "f = g \<and> a = b")
    case True
    then have "(mint g b us i2 :: (unit, i64 \<times> interner) rust) = Ok (n, i2)" using mint_known [OF assms(4) key] by simp
    with assms(5) True show ?thesis by simp
  next
    case False
    moreover have "term_key_of i3 n = Some (f, a)" using lasting(1) [OF key'(2)] key by blast
    ultimately show ?thesis using key'(1) by auto
  qed
qed

text \<open>A run that interns a text, a term over it twice, and drains in between.\<close>

lemma demo_dict_run:
  "\<exists>i1 i2. (mint_text ''a'' dict_empty :: (unit, _) rust) = Ok (1, i1) \<and> (mint ''f'' [1, 7] [TText, TInt] i1 :: (unit, _) rust) = Ok (2, i2) \<and>
     in_pending i2 = [(''f'', [2, 1, 7])] \<and> in_by_key i2 (''f'', [1, 7]) = Some 2"
  by (simp add: mint_text_def mint_def dict_empty_def fresh_id_def checked_add_def dict_put_def try_usize_def Let_def)

lemma demo_dict_reach:
  "\<exists>i. dict_reach hash i [] \<and> in_pending i = [(''f'', [2, 1, 7])] \<and> in_by_key i (''f'', [1, 7]) = Some 2"
  using demo_dict_run dict_reach.Start dict_reach.Text dict_reach.Mint by metis

theorem dict_reach_invariant_witness: "\<exists>i. in_pending i = [(''f'', [2, 1, 7])] \<and> dict_ok (\<lambda>_. 0) i"
  using demo_dict_reach [of "\<lambda>_. 0"] dict_reach_invariant by blast

theorem dict_announces_once_witness:
  "\<exists>i. dict_reach (\<lambda>_. 0) i [(''f'', [2, 1, 7])] \<and> term_key_of i 2 = Some (''f'', [1, 7]) \<and> dict_rows i = [(''f'', [2, 1, 7])]"
proof -
  obtain i where i: "dict_reach (\<lambda>_. 0) i []" "in_pending i = [(''f'', [2, 1, 7])]"
    using demo_dict_reach [of "\<lambda>_. 0"] by blast
  have "drain_pending i = ([(''f'', [2, 1, 7])], i\<lparr>in_pending := []\<rparr>)"
    by (simp add: drain_pending_def i(2))
  from dict_reach.Drain [OF i(1) this] have r: "dict_reach (\<lambda>_. 0) (i\<lparr>in_pending := []\<rparr>) [(''f'', [2, 1, 7])]" by simp
  from dict_announces_once [OF r] r show ?thesis by auto
qed

theorem mint_once_witness:
  "\<exists>i. dict_ok (\<lambda>_. 0) i \<and> (mint ''f'' [1, 7] [] i :: (unit, i64 \<times> interner) rust) = Ok (2, i)"
proof -
  obtain i where i: "dict_reach (\<lambda>_. 0) i []" "in_by_key i (''f'', [1, 7]) = Some 2"
    using demo_dict_reach [of "\<lambda>_. 0"] by blast
  have ok: "dict_ok (\<lambda>_. 0) i" using dict_reach_inv [OF i(1)] by (simp add: run_inv_def)
  have run: "(mint ''f'' [1, 7] ts i :: (unit, i64 \<times> interner) rust) = Ok (2, i)" for ts
    using i(2) by (simp add: mint_def)
  from mint_once [OF ok run dict_grows_refl ok run] ok run show ?thesis by blast
qed

end
