(* ===== verification/Ir_Real_Order.thy ===== *)
theory Ir_Real_Order
  imports Ir_Values
begin

text \<open>
  The bits of a double order its values: read as a sign and a 63-bit magnitude they are a strictly
  increasing image of the numbers, infinities included. Keys over reals rest on it.
\<close>

subsection \<open>Magnitude\<close>

definition f64_mag :: "nat \<Rightarrow> nat" where
  "f64_mag x = (let e = x div 2 ^ 52; m = x mod 2 ^ 52 in if e = 0 then m else (2 ^ 52 + m) * 2 ^ (e - 1))"

lemma f64_mag_Suc: "f64_mag x < f64_mag (Suc x)"
proof (cases "Suc (x mod 2 ^ 52) = 2 ^ 52")
  case False
  then have "Suc x div 2 ^ 52 = x div 2 ^ 52" "Suc x mod 2 ^ 52 = Suc (x mod 2 ^ 52)"
    by (simp_all add: mod_Suc div_Suc)
  then show ?thesis by (simp add: f64_mag_def Let_def)
next
  case True
  then have d: "Suc x div 2 ^ 52 = Suc (x div 2 ^ 52)" "Suc x mod 2 ^ 52 = 0" and m: "x mod 2 ^ 52 = 2 ^ 52 - 1"
    by (simp_all add: mod_Suc div_Suc)
  show ?thesis
  proof (cases "x div 2 ^ 52")
    case 0
    with d m show ?thesis by (simp add: f64_mag_def)
  next
    case (Suc e)
    with d m have "f64_mag x = (2 ^ 53 - 1) * 2 ^ e" "f64_mag (Suc x) = 2 ^ 53 * 2 ^ e"
      by (simp_all add: f64_mag_def Let_def)
    then show ?thesis by simp
  qed
qed

lemma f64_mag_mono: "f64_mag x < f64_mag y \<longleftrightarrow> x < y"
  by (rule strict_mono_less) (simp add: strict_mono_Suc_iff f64_mag_Suc)

lemma f64_mag_eq: "f64_mag x = f64_mag y \<longleftrightarrow> x = y"
  by (rule strict_mono_eq) (simp add: strict_mono_Suc_iff f64_mag_Suc)

lemma f64_mag_0 [simp]: "f64_mag 0 = 0"
  by (simp add: f64_mag_def)

subsection \<open>Decoding\<close>

definition f64_abs :: "u64 \<Rightarrow> nat" where
  "f64_abs b = unat b mod 2 ^ 63"

lemma f64_fields:
  "uint (take_bit 11 (drop_bit 52 b)) = int (f64_abs b div 2 ^ 52)" "uint (take_bit 52 (b :: u64)) = int (f64_abs b mod 2 ^ 52)"
proof -
  have small: "take_bit 64 (unat b) = unat b" using unsigned_less [of b, where 'a = nat] by (simp add: take_bit_nat_eq_self)
  have "unat (drop_bit 52 b) = drop_bit 52 (unat b)" by (simp add: unsigned_drop_bit_eq small)
  then have "unat (take_bit 11 (drop_bit 52 b)) = drop_bit 52 (take_bit 63 (unat b))"
    by (simp only: unsigned_take_bit_eq) (simp add: take_bit_drop_bit)
  then show "uint (take_bit 11 (drop_bit 52 b)) = int (f64_abs b div 2 ^ 52)"
    by (simp only: uint_nat f64_abs_def drop_bit_eq_div take_bit_eq_mod)
  have "unat (take_bit 52 b) = take_bit 52 (take_bit 63 (unat b))"
    by (simp add: unsigned_take_bit_eq)
  then show "uint (take_bit 52 b) = int (f64_abs b mod 2 ^ 52)"
    by (simp only: uint_nat f64_abs_def take_bit_eq_mod)
qed

lemma f64_scale_mag:
  assumes "e \<noteq> 0"
  shows "f64_scale (2 ^ 52 + int m) (int e - 1075) = of_nat ((2 ^ 52 + m) * 2 ^ (e - 1)) / 2 ^ 1074"
proof -
  define u :: rat where "u = 2 ^ 1074"
  have u: "u \<noteq> 0" by (simp add: u_def)
  show ?thesis
  proof (cases "1075 \<le> e")
    case True
    then have "e - 1 = (e - 1075) + 1074" by simp
    then have "(2 :: rat) ^ (e - 1) = 2 ^ (e - 1075) * u" unfolding u_def by (simp only: power_add)
    moreover have "nat (int e - 1075) = e - 1075" using True by simp
    ultimately show ?thesis using True u unfolding u_def [symmetric] by (simp add: f64_scale_def)
  next
    case False
    then have "1074 = (1075 - e) + (e - 1)" using assms by simp
    then have "u = 2 ^ (1075 - e) * 2 ^ (e - 1)" unfolding u_def by (metis power_add)
    moreover have "nat (- (int e - 1075)) = 1075 - e" using False by simp
    ultimately show ?thesis using False unfolding u_def [symmetric] by (simp add: f64_scale_def)
  qed
qed

lemma f64_abs_lt: "f64_abs b < 2 ^ 63"
  by (simp add: f64_abs_def)

definition f64_unit :: rat where "f64_unit = 2 ^ 1074"

lemma f64_unit_pos: "0 < f64_unit"
  by (simp add: f64_unit_def)

lemma f64_of_bits_abs:
  "f64_of_bits b =
     (if f64_abs b < 2047 * 2 ^ 52 then FFin ((if bit b 63 then - 1 else 1) * (of_nat (f64_mag (f64_abs b)) / f64_unit))
      else if f64_abs b = 2047 * 2 ^ 52 then FInf (bit b 63) else FNan)"
proof -
  let ?x = "f64_abs b"
  let ?e = "?x div 2 ^ 52"
  let ?m = "?x mod 2 ^ 52"
  have x: "?x = ?e * 2 ^ 52 + ?m" by simp
  have m: "?m < 2 ^ 52" by simp
  have "?e < 2048" using f64_abs_lt [of b] by (simp add: less_mult_imp_div_less)
  then consider "?e = 2047" | "?e < 2047" by linarith
  then show ?thesis
  proof cases
    case 1
    then have "?x = 2047 * 2 ^ 52 + ?m" using x by simp
    then have "\<not> ?x < 2047 * 2 ^ 52" "?x = 2047 * 2 ^ 52 \<longleftrightarrow> ?m = 0" by linarith+
    moreover have "int ?m = 0 \<longleftrightarrow> ?m = 0" "int ?e = 2047" using 1 by simp_all
    ultimately show ?thesis unfolding f64_of_bits_def f64_fields Let_def by (cases "?m = 0") (simp_all only: if_True if_False refl simp_thms)
  next
    case 2
    then have lt: "?x < 2047 * 2 ^ 52" 
    proof -
      have "(?e + 1) * 2 ^ 52 \<le> 2047 * (2 ^ 52 :: nat)" using 2 by (intro mult_right_mono) simp_all
      with m show ?thesis by (subst x) simp
    qed
    have mag: "of_nat (f64_mag ?x) / f64_unit =
        (if int ?e = 0 then f64_scale (int ?m) (- 1074) else f64_scale (2 ^ 52 + int ?m) (int ?e - 1075))"
    proof (cases "?e = 0")
      case True
      then show ?thesis by (simp only: f64_mag_def Let_def f64_scale_def f64_unit_def if_True) simp
    next
      case False
      then show ?thesis by (simp only: f64_scale_mag [OF False] f64_unit_def f64_mag_def Let_def if_False of_nat_eq_0_iff)
    qed
    from 2 have "int ?e \<noteq> 2047" by simp
    then show ?thesis using lt unfolding f64_of_bits_def f64_fields Let_def mag by (simp only: if_True if_False)
  qed
qed

subsection \<open>Order\<close>

definition real_ord :: "u64 \<Rightarrow> int" where
  "real_ord b = (if bit b 63 then - int (f64_abs b) else int (f64_abs b))"

text \<open>The numbers by their bits: beyond the finite ones lie the infinities.\<close>

lemma f64_key_bits:
  assumes "f64_of_bits a \<noteq> FNan" and "f64_of_bits b \<noteq> FNan"
  shows "cmp (f64_key (f64_of_bits a)) (f64_key (f64_of_bits b)) = cmp (real_ord a) (real_ord b)"
proof -
  let ?I = "2047 * 2 ^ 52 :: nat"
  define smag where "smag x = (if x < 0 then - of_nat (f64_mag (nat (- x))) else of_nat (f64_mag (nat x)) :: rat)" for x
  have key: "f64_key (f64_of_bits c) =
      (if int ?I \<le> real_ord c then (1, 0) else if real_ord c \<le> - int ?I then (- 1, 0) else (0, smag (real_ord c) / f64_unit))"
    and bound: "\<bar>real_ord c\<bar> \<le> int ?I" if "f64_of_bits c \<noteq> FNan" for c
  proof -
    have x: "f64_abs c \<le> ?I" using that by (simp only: f64_of_bits_abs split: if_splits) auto
    then show "\<bar>real_ord c\<bar> \<le> int ?I" by (simp add: real_ord_def)
    show "f64_key (f64_of_bits c) =
      (if int ?I \<le> real_ord c then (1, 0) else if real_ord c \<le> - int ?I then (- 1, 0) else (0, smag (real_ord c) / f64_unit))"
      using x by (cases "f64_abs c = ?I"; cases "bit c 63"; cases "f64_abs c = 0")
        (simp_all add: f64_of_bits_abs f64_key_def real_ord_def smag_def)
  qed
  have smag: "smag x < smag y \<longleftrightarrow> x < y" "smag x = smag y \<longleftrightarrow> x = y" for x y
  proof -
    have neg: "smag x < 0" if "x < 0" for x
      using that f64_mag_mono [of 0 "nat (- x)"] by (simp add: smag_def)
    have pos: "0 \<le> smag x" if "\<not> x < 0" for x
      using that by (simp add: smag_def)
    consider "x < 0" "y < 0" | "\<not> x < 0" "\<not> y < 0" | "x < 0" "\<not> y < 0" | "\<not> x < 0" "y < 0" by blast
    then have "(smag x < smag y \<longleftrightarrow> x < y) \<and> (smag x = smag y \<longleftrightarrow> x = y)"
    proof cases
      case 3
      then have "smag x < smag y" "x < y" using neg [of x] pos [of y] by linarith+
      then show ?thesis by simp
    next
      case 4
      then have "smag y < smag x" "y < x" using neg [of y] pos [of x] by linarith+
      then show ?thesis by simp
    qed (auto simp: smag_def f64_mag_mono f64_mag_eq)
    then show "smag x < smag y \<longleftrightarrow> x < y" "smag x = smag y \<longleftrightarrow> x = y" by simp_all
  qed
  show ?thesis
    unfolding key [OF assms(1)] key [OF assms(2)]
    using bound [OF assms(1)] bound [OF assms(2)] f64_unit_pos
    by (auto simp: cmp_def less_prod_def divide_less_cancel smag)
qed

end
