(* ===== verification/Ir_Any.thy ===== *)
theory Ir_Any
  imports Ir_Dict_Laws Ir_Real_Order
begin

text \<open>
  Comparison keys of value cells (\<open>Interner::any_key\<close> of \<open>crates/ivm-ir/src/1_terms.rs\<close>): a join or
  a group by a value column compares ids, after replacing each by its key.
\<close>

subsection \<open>The value a key stands for\<close>

definition any_canon :: "any_value \<Rightarrow> any_value" where
  "any_canon v = (case v of AReal bits \<Rightarrow> (case integral_real bits of Some k \<Rightarrow> AInteger k | None \<Rightarrow> v) | _ \<Rightarrow> v)"

lemma bit_63: "bit (b :: u64) 63 \<longleftrightarrow> 2 ^ 63 \<le> unat b"
proof -
  have "bit b 63 \<longleftrightarrow> odd (unat b div 2 ^ 63)"
  proof -
    have "bit b 63 \<longleftrightarrow> bit (unat b) 63" by (simp add: bit_unsigned_iff del: bit_nat_iff)
    then show ?thesis by (simp only: bit_iff_odd [of "unat b"])
  qed
  moreover have "unat b div 2 ^ 63 < 2"
    using unsigned_less [of b, where 'a = nat] by (simp add: less_mult_imp_div_less)
  ultimately have "bit b 63 \<longleftrightarrow> unat b div 2 ^ 63 = 1"
    by (metis One_nat_def even_zero less_2_cases odd_one)
  also have "\<dots> \<longleftrightarrow> 2 ^ 63 \<le> unat b"
    using unsigned_less [of b, where 'a = nat] by (auto simp: div_nat_eqI not_le dest: div_less)
  finally show ?thesis .
qed

lemma unat_parts: "unat (b :: u64) = f64_abs b + (if bit b 63 then 2 ^ 63 else 0)"
proof (cases "bit b 63")
  case True
  then have "2 ^ 63 \<le> unat b" "unat b - 2 ^ 63 < 2 ^ 63"
    using bit_63 [of b] unsigned_less [of b, where 'a = nat] by auto
  then show ?thesis using True by (simp add: f64_abs_def mod_if [of "unat b"])
next
  case False
  then show ?thesis using bit_63 [of b] by (simp add: f64_abs_def)
qed

lemma real_ord_eq:
  assumes "real_ord a = real_ord b"
  shows "a = b \<or> f64_abs a = 0 \<and> f64_abs b = 0"
proof (cases "f64_abs a = 0 \<and> f64_abs b = 0")
  case False
  with assms have "f64_abs a = f64_abs b \<and> bit a 63 = bit b 63"
    by (auto simp: real_ord_def split: if_splits)
  then have "unat a = unat b" by (simp only: unat_parts [of a] unat_parts [of b])
  then show ?thesis by (simp add: word_unat_eq_iff)
qed simp

subsection \<open>Numbers\<close>

lemma integral_real_number:
  assumes "f64_of_bits bits \<noteq> FNan"
  shows "integral_real bits = Some k \<longleftrightarrow> f64_key (f64_of_bits bits) = i64_key k"
proof (cases "f64_of_bits bits")
  case (FFin q)
  have trunc: "rat_trunc (of_int m) = m" for m by (simp add: rat_trunc_def)
  have sint: "sint (of_int m :: i64) = m" if "- 9223372036854775808 \<le> m" "m < 9223372036854775808" for m
    using that by (simp add: sint_sbintrunc' signed_take_bit_int_eq_self)
  have bounds: "- 9223372036854775808 \<le> (of_int (sint k) :: rat)" "(of_int (sint k) :: rat) < 9223372036854775808"
    using i64_rat_bounds [of k] by simp_all
  show ?thesis
  proof
    assume "integral_real bits = Some k"
    then have q: "- 9223372036854775808 \<le> q" "q < 9223372036854775808" "of_int (rat_trunc q) = q" "k = of_int (rat_trunc q)"
      by (auto simp: integral_real_def FFin split: if_splits)
    then have "sint k = rat_trunc q" using rat_trunc_range [of q] sint by simp
    with q(3) show "f64_key (f64_of_bits bits) = i64_key k"
      by (simp add: FFin f64_key_def i64_key_def del: of_int_sint)
  next
    assume "f64_key (f64_of_bits bits) = i64_key k"
    then have q: "q = of_int (sint k)" by (simp add: FFin f64_key_def i64_key_def del: of_int_sint)
    show "integral_real bits = Some k"
      unfolding integral_real_def FFin f64.case q trunc using bounds by simp
  qed
qed (use assms in \<open>auto simp: integral_real_def f64_key_def i64_key_def split: if_splits\<close>)

lemma i64_key_inj: "i64_key a = i64_key b \<longleftrightarrow> a = b"
  by (simp add: i64_key_def del: of_int_sint)

lemma any_canon_number:
  assumes "f64_of_bits a \<noteq> FNan" and "f64_of_bits b \<noteq> FNan"
  shows "any_canon (AReal a) = any_canon (AReal b) \<longleftrightarrow> f64_key (f64_of_bits a) = f64_key (f64_of_bits b)"
proof
  assume eq: "f64_key (f64_of_bits a) = f64_key (f64_of_bits b)"
  have "integral_real a = Some k \<longleftrightarrow> integral_real b = Some k" for k
    using integral_real_number [OF assms(1), of k] integral_real_number [OF assms(2), of k] eq by simp
  then have same: "integral_real a = integral_real b" by (metis not_None_eq)
  have "real_ord a = real_ord b" using f64_key_bits [OF assms] eq by (metis cmp_iffs(2))
  then consider "a = b" | "f64_abs a = 0" using real_ord_eq [of a b] by auto
  then show "any_canon (AReal a) = any_canon (AReal b)"
  proof cases
    case 2
    then have "f64_key (f64_of_bits a) = i64_key 0" by (simp add: f64_of_bits_abs f64_key_def i64_key_def)
    then have "integral_real a = Some 0" using integral_real_number [OF assms(1)] by blast
    with same have "integral_real a = Some 0" "integral_real b = Some 0" by simp_all
    then show ?thesis by (simp add: any_canon_def)
  qed simp
next
  assume eq: "any_canon (AReal a) = any_canon (AReal b)"
  show "f64_key (f64_of_bits a) = f64_key (f64_of_bits b)"
  proof (cases "integral_real a")
    case None
    with eq show ?thesis by (cases "integral_real b") (simp_all add: any_canon_def)
  next
    case (Some k)
    with eq have "integral_real b = Some k" by (cases "integral_real b") (simp_all add: any_canon_def)
    then have "f64_key (f64_of_bits b) = i64_key k" by (rule integral_real_number [OF assms(2), THEN iffD1])
    moreover from Some have "f64_key (f64_of_bits a) = i64_key k" by (rule integral_real_number [OF assms(1), THEN iffD1])
    ultimately show ?thesis by simp
  qed
qed

lemma any_canon_mixed:
  assumes "f64_of_bits b \<noteq> FNan"
  shows "any_canon (AInteger k) = any_canon (AReal b) \<longleftrightarrow> i64_key k = f64_key (f64_of_bits b)"
    and "any_canon (AReal b) = any_canon (AInteger k) \<longleftrightarrow> f64_key (f64_of_bits b) = i64_key k"
  using integral_real_number [OF assms, of k] by (auto simp: any_canon_def split: option.split)

lemma any_canon_integer: "any_canon (AInteger a) = any_canon (AInteger b) \<longleftrightarrow> i64_key a = i64_key b"
  by (simp add: any_canon_def i64_key_inj)

lemma any_canon_other:
  "any_class v \<noteq> any_class w \<Longrightarrow> any_canon v \<noteq> any_canon w"
  "any_canon ANull = ANull" "any_canon (AText s) = AText s" "any_canon (ABlob b) = ABlob b"
  by (cases v; cases w) (auto simp: any_canon_def split: option.splits)

lemma any_canon_equal:
  assumes "no_nan v" and "no_nan w"
  shows "any_canon v = any_canon w \<longleftrightarrow> sqlite_cmp v w = Equal"
proof (cases "any_class v = any_class w")
  case False
  then show ?thesis
    unfolding sqlite_cmp_key [OF assms] cmp_iffs by (simp add: Ir_Values.any_key_def any_canon_other(1))
next
  case True
  then show ?thesis
    unfolding sqlite_cmp_key [OF assms] cmp_iffs Ir_Values.any_key_def
    using assms any_canon_mixed any_canon_integer any_canon_number any_canon_other(2-4)
    by (cases v; cases w) (simp_all add: any_number_def no_nan_def)
qed

subsection \<open>Properties\<close>

lemma any_cell_key_canon:
  assumes ok: "dict_ok hash i" and v: "dict_any i n = Some v"
  shows "any_cell_key i n = in_by_any i (any_canon v)" and "any_cell_key i n \<noteq> None" and "no_nan v"
proof -
  have iff: "in_by_any i w = Some m \<longleftrightarrow> dict_any i m = Some w" for w m
    using ok unfolding dict_ok_def any_ok_def by blast
  have norm: "any_norm v = v" using ok v unfolding dict_ok_def any_ok_def by blast
  then show "no_nan v" by (cases v) (auto simp: any_norm_def no_nan_def split: if_splits)
  have self: "in_by_any i v = Some n" using iff v by blast
  have int: "in_by_any i (AInteger k) \<noteq> None" if "v = AReal bits" "integral_real bits = Some k" for bits k
  proof -
    have "in_by_any i (AReal bits) \<noteq> None" using self that(1) by simp
    with that(2) ok show ?thesis unfolding dict_ok_def any_ok_def by blast
  qed
  show "any_cell_key i n = in_by_any i (any_canon v)"
    using v self by (cases v) (auto simp: any_cell_key_def any_canon_def split: option.split)
  moreover have "in_by_any i (any_canon v) \<noteq> None"
    using self int by (cases v) (auto simp: any_canon_def split: option.split)
  ultimately show "any_cell_key i n \<noteq> None" by simp
qed

text \<open>
  C13: Two value cells have the same comparison key exactly when SQLite compares their values equal:
  an integral double meets its integer, both zeros meet, and nothing else is identified.
\<close>

theorem any_keys_decide_equality:
  assumes "dict_ok hash i" and "dict_any i n = Some v" and "dict_any i m = Some w"
  shows "any_cell_key i n \<noteq> None \<and> (any_cell_key i n = any_cell_key i m \<longleftrightarrow> sqlite_cmp v w = Equal)"
proof -
  note v = any_cell_key_canon [OF assms(1,2)] and w = any_cell_key_canon [OF assms(1,3)]
  have iff: "in_by_any i x = Some k \<longleftrightarrow> dict_any i k = Some x" for x k
    using assms(1) unfolding dict_ok_def any_ok_def by blast
  have "any_cell_key i n = any_cell_key i m \<longleftrightarrow> any_canon v = any_canon w"
  proof
    assume eq: "any_cell_key i n = any_cell_key i m"
    obtain k where "any_cell_key i n = Some k" using v(2) by blast
    with eq v(1) w(1) have "in_by_any i (any_canon v) = Some k" "in_by_any i (any_canon w) = Some k" by simp_all
    then show "any_canon v = any_canon w" unfolding iff by simp
  qed (use v(1) w(1) in simp)
  then show ?thesis using v(2) any_canon_equal [OF v(3) w(3)] by simp
qed

text \<open>The double 1.0 and the integer 1.\<close>

theorem any_keys_decide_equality_witness:
  "\<exists>i. dict_ok (\<lambda>_. 0) i \<and> dict_any i 2 = Some (AReal 4607182418800017408) \<and> dict_any i 1 = Some (AInteger 1) \<and>
     any_cell_key i 2 = any_cell_key i 1"
proof -
  have one: "f64_of_bits 4607182418800017408 = FFin 1"
    by (simp add: f64_of_bits_def Let_def f64_scale_def)
  have nan: "any_norm (AReal 4607182418800017408) = AReal 4607182418800017408"
    by (simp add: any_norm_def one)
  have int: "integral_real 4607182418800017408 = Some 1"
    by (simp add: integral_real_def one rat_trunc_def)
  obtain i where run: "(mint_any (AReal 4607182418800017408) dict_empty :: (unit, i64 \<times> interner) rust) = Ok (2, i)"
    and vals: "dict_any i 2 = Some (AReal 4607182418800017408)" "dict_any i 1 = Some (AInteger 1)"
    by (simp add: mint_any_def nan int insert_any_def fresh_id_def checked_add_def dict_empty_def Let_def dict_any_def)
  have ok: "dict_ok (\<lambda>_. 0) i" using mint_any_ok [OF dict_empty_ok run] by blast
  have "sqlite_cmp (AReal 4607182418800017408) (AInteger 1) = Equal"
    by (simp add: sqlite_cmp_def int_real_def one rat_trunc_def)
  with any_keys_decide_equality [OF ok vals] ok vals show ?thesis by blast
qed

end
