(* ===== verification/Ir_Order.thy ===== *)
theory Ir_Order
  imports Ir_Dict
begin

text \<open>
  The order of dictionary terms and their byte keys (\<open>compare\<close>, \<open>term_key\<close> and \<open>sort_key\<close> of
  \<open>crates/ivm-ir/src/1_terms.rs\<close>). \<open>compare\<close> descends into arguments and need not return when
  terms contain each other, so it is a partial function; \<open>sort_key\<close> stops at a fixed depth.
\<close>

unbundle bit_operations_syntax

subsection \<open>Comparison\<close>

datatype cmp_step = CTerms i64 i64 | CDone ordering

fun ty_rank :: "ty \<Rightarrow> nat" where
  "ty_rank TInt = 0"
| "ty_rank TId = 1"
| "ty_rank TText = 2"
| "ty_rank TReal = 3"
| "ty_rank TAny = 4"

definition id_type :: "ty \<Rightarrow> bool" where
  "id_type t \<longleftrightarrow> t = TId \<or> t = TText"

fun arg_step :: "(i64 \<times> ty) \<times> (i64 \<times> ty) \<Rightarrow> cmp_step" where
  "arg_step ((a, ta), (b, tb)) =
     (if id_type ta \<and> id_type tb then CTerms a b
      else if ta = TReal \<and> tb = TReal
      then CDone (case f64_partial_cmp (f64_of_bits a) (f64_of_bits b) of None \<Rightarrow> Equal | Some o1 \<Rightarrow> o1)
      else CDone (ord_then (cmp (ty_rank ta) (ty_rank tb)) (cell_cmp a b)))"

definition text_order :: "string option \<Rightarrow> string option \<Rightarrow> ordering" where
  "text_order x y = (case (x, y) of (Some a, Some b) \<Rightarrow> cmp a b | (Some _, None) \<Rightarrow> Less | (None, _) \<Rightarrow> Greater)"

definition head_order :: "ir_term \<Rightarrow> ir_term \<Rightarrow> ordering" where
  "head_order x y = ord_then (cmp (length (tm_args x)) (length (tm_args y))) (cmp (tm_functor x) (tm_functor y))"

definition arg_pairs :: "ir_term \<Rightarrow> ir_term \<Rightarrow> ((i64 \<times> ty) \<times> (i64 \<times> ty)) list" where
  "arg_pairs x y = zip (zip (tm_args x) (tm_types x)) (zip (tm_args y) (tm_types y))"

partial_function (option) compare_loop :: "(i64 \<Rightarrow> ir_term option) \<Rightarrow> cmp_step list \<Rightarrow> ordering option" where
  "compare_loop resolve stack =
     (case stack of
        [] \<Rightarrow> Some Equal
      | step # rest \<Rightarrow>
          (case step of
             CDone o1 \<Rightarrow> if o1 = Equal then compare_loop resolve rest else Some o1
           | CTerms a b \<Rightarrow>
               if a = b then compare_loop resolve rest
               else (case resolve a of
                       None \<Rightarrow> (case resolve b of
                                  None \<Rightarrow> compare_loop resolve (CDone (cell_cmp a b) # rest)
                                | Some _ \<Rightarrow> Some Less)
                     | Some x \<Rightarrow> (case resolve b of
                                   None \<Rightarrow> Some Greater
                                 | Some y \<Rightarrow>
                                     if tm_text x \<noteq> None \<or> tm_text y \<noteq> None
                                     then compare_loop resolve (CDone (text_order (tm_text x) (tm_text y)) # rest)
                                     else if head_order x y \<noteq> Equal then Some (head_order x y)
                                     else compare_loop resolve (map arg_step (arg_pairs x y) @ rest)))))"

declare compare_loop.simps [code]

definition compare_terms :: "(i64 \<Rightarrow> ir_term option) \<Rightarrow> i64 \<Rightarrow> i64 \<Rightarrow> ordering option" where
  "compare_terms resolve a b = compare_loop resolve [CTerms a b]"

definition dict_compare :: "interner \<Rightarrow> i64 \<Rightarrow> i64 \<Rightarrow> ordering option" where
  "dict_compare i a b = compare_terms (dict_get i) a b"

subsection \<open>Keys\<close>

text \<open>\<open>to_be_bytes\<close> of a number of \<open>k\<close> bytes.\<close>

fun be_bytes :: "nat \<Rightarrow> nat \<Rightarrow> u8 list" where
  "be_bytes 0 x = []"
| "be_bytes (Suc k) x = of_nat (x div 256 ^ k mod 256) # be_bytes k x"

definition key_number :: "i64 \<Rightarrow> u8 list" where
  "key_number v = be_bytes 8 (unat (v XOR 0x8000000000000000))"

definition atom_key :: "i64 \<Rightarrow> u8 list" where
  "atom_key n = 0 # key_number n"

definition escaped :: "string \<Rightarrow> u8 list" where
  "escaped s = concat (map (\<lambda>c. let b = of_nat (of_char c) in if b = 0 then [0, 255] else [b]) s) @ [0, 0]"

definition real_key :: "i64 \<Rightarrow> u8 list" where
  "real_key arg =
     (let bits = (if f64_of_bits arg = FFin 0 then 0 else arg);
          ordered = (if drop_bit 63 bits = 0 then bits XOR 0x8000000000000000 else NOT bits)
      in be_bytes 8 (unat ordered))"

text \<open>The keys of the arguments, \<open>child_key\<close> threading its own state from call to call.\<close>

fun arg_keys :: "('s \<Rightarrow> i64 \<Rightarrow> 's \<times> u8 list) \<Rightarrow> 's \<Rightarrow> (i64 \<times> ty) list \<Rightarrow> u8 list" where
  "arg_keys child_key s [] = []"
| "arg_keys child_key s ((arg, t) # args) =
     (case t of
        TInt \<Rightarrow> 0 # key_number arg @ arg_keys child_key s args
      | TId \<Rightarrow> (case child_key s arg of (s', k) \<Rightarrow> 1 # k @ arg_keys child_key s' args)
      | TText \<Rightarrow> (case child_key s arg of (s', k) \<Rightarrow> 2 # k @ arg_keys child_key s' args)
      | TReal \<Rightarrow> 3 # real_key arg @ arg_keys child_key s args
      | TAny \<Rightarrow> 4 # key_number arg @ arg_keys child_key s args)"

definition term_key :: "ir_term \<Rightarrow> ('s \<Rightarrow> i64 \<Rightarrow> 's \<times> u8 list) \<Rightarrow> 's \<Rightarrow> u8 list" where
  "term_key t child_key s =
     (case tm_text t of
        Some text1 \<Rightarrow> 1 # escaped text1
      | None \<Rightarrow> 2 # be_bytes 4 (length (tm_args t) mod 2 ^ 32) @ escaped (tm_functor t) @
                arg_keys child_key s (zip (tm_args t) (tm_types t)))"

subsection \<open>Keys from a resolver\<close>

definition sort_key_depth :: nat where
  "sort_key_depth = 128"

datatype key_step = KEnter i64 nat | KExit ir_term nat

definition id_args :: "ir_term \<Rightarrow> i64 list" where
  "id_args t = map fst (filter (\<lambda>(a, ta). id_type ta) (zip (tm_args t) (tm_types t)))"

text \<open>\<open>child_keys.next().unwrap_or_default()\<close>\<close>

fun next_key :: "u8 list list \<Rightarrow> i64 \<Rightarrow> u8 list list \<times> u8 list" where
  "next_key [] a = ([], [])"
| "next_key (k # ks) a = (ks, k)"

definition key_height :: "key_step \<Rightarrow> nat" where
  "key_height step = (case step of KEnter _ depth \<Rightarrow> 200 - depth | KExit _ _ \<Rightarrow> 0)"

function sort_key_loop :: "(i64 \<Rightarrow> ir_term option) \<Rightarrow> key_step list \<Rightarrow> u8 list list \<Rightarrow> u8 list list" where
  "sort_key_loop resolve [] keys = keys"
| "sort_key_loop resolve (KEnter n depth # stack) keys =
     (case if sort_key_depth \<le> depth then None else resolve n of
        None \<Rightarrow> sort_key_loop resolve stack (keys @ [atom_key n])
      | Some t \<Rightarrow>
          sort_key_loop resolve (map (\<lambda>c. KEnter c (depth + 1)) (id_args t) @ KExit t (length (id_args t)) # stack) keys)"
| "sort_key_loop resolve (KExit t children # stack) keys =
     (let base = length keys - children
      in sort_key_loop resolve stack (take base keys @ [term_key t next_key (drop base keys)]))"
  by pat_completeness auto
termination
proof (relation "inv_image (mult less_than) (\<lambda>(resolve, stack, keys). image_mset key_height (mset stack))")
  show "wf (inv_image (mult less_than) (\<lambda>(resolve, stack, keys). image_mset key_height (mset stack)))"
    by (intro wf_inv_image wf_mult wf_less_than)
next
  fix resolve :: "i64 \<Rightarrow> ir_term option" and n depth stack and keys :: "u8 list list" and t
  assume t: "(if sort_key_depth \<le> depth then None else resolve n) = Some t"
  let ?K = "image_mset key_height (mset (map (\<lambda>c. KEnter c (depth + 1)) (id_args t) @ [KExit t (length (id_args t))]))"
  have "(image_mset key_height (mset stack) + ?K, image_mset key_height (mset stack) + {#key_height (KEnter n depth)#}) \<in> mult less_than"
    using t by (intro one_step_implies_mult) (auto simp: key_height_def sort_key_depth_def split: if_splits)
  then show "((resolve, map (\<lambda>c. KEnter c (depth + 1)) (id_args t) @ KExit t (length (id_args t)) # stack, keys),
      resolve, KEnter n depth # stack, keys) \<in> inv_image (mult less_than) (\<lambda>(resolve, stack, keys). image_mset key_height (mset stack))"
    by (simp add: ac_simps)
next
  fix resolve :: "i64 \<Rightarrow> ir_term option" and n depth stack and keys keys' :: "u8 list list"
  show "((resolve, stack, keys'), resolve, KEnter n depth # stack, keys)
      \<in> inv_image (mult less_than) (\<lambda>(resolve, stack, keys). image_mset key_height (mset stack))"
    by (auto intro: subset_implies_mult)
next
  fix resolve :: "i64 \<Rightarrow> ir_term option" and t children stack and keys keys' :: "u8 list list"
  show "((resolve, stack, keys'), resolve, KExit t children # stack, keys)
      \<in> inv_image (mult less_than) (\<lambda>(resolve, stack, keys). image_mset key_height (mset stack))"
    by (auto intro: subset_implies_mult)
qed

definition sort_key :: "i64 \<Rightarrow> (i64 \<Rightarrow> ir_term option) \<Rightarrow> u8 list" where
  "sort_key n resolve = (case rev (sort_key_loop resolve [KEnter n 0] []) of [] \<Rightarrow> [] | k # _ \<Rightarrow> k)"

end
