(* ===== verification/Ir_Order_Laws.thy ===== *)
theory Ir_Order_Laws
  imports Ir_Order Ir_Any
begin

text \<open>
  The order of terms: where the nesting of terms is bounded \<open>compare\<close> returns the order by
  structure, and the byte keys, read lexicographically, are that order.
\<close>

subsection \<open>The order by structure\<close>

text \<open>Terms nested fewer than \<open>k\<close> deep.\<close>

fun fits :: "(i64 \<Rightarrow> ir_term option) \<Rightarrow> nat \<Rightarrow> i64 \<Rightarrow> bool" where
  "fits resolve 0 n \<longleftrightarrow> resolve n = None"
| "fits resolve (Suc k) n \<longleftrightarrow>
     (case resolve n of None \<Rightarrow> True | Some t \<Rightarrow> tm_text t \<noteq> None \<or> list_all (fits resolve k) (id_args t))"

definition seq_order :: "ordering list \<Rightarrow> ordering" where
  "seq_order os = foldr ord_then os Equal"

lemma seq_order_simps [simp]: "seq_order [] = Equal" "seq_order (x # os) = ord_then x (seq_order os)"
  by (simp_all add: seq_order_def)

definition arg_order :: "(i64 \<Rightarrow> i64 \<Rightarrow> ordering) \<Rightarrow> (i64 \<times> ty) \<times> (i64 \<times> ty) \<Rightarrow> ordering" where
  "arg_order c p = (case arg_step p of CTerms a b \<Rightarrow> c a b | CDone o1 \<Rightarrow> o1)"

fun term_order :: "(i64 \<Rightarrow> ir_term option) \<Rightarrow> nat \<Rightarrow> i64 \<Rightarrow> i64 \<Rightarrow> ordering" where
  "term_order resolve 0 a b = cell_cmp a b"
| "term_order resolve (Suc k) a b =
     (if a = b then Equal
      else case (resolve a, resolve b) of
        (None, None) \<Rightarrow> cell_cmp a b
      | (None, Some _) \<Rightarrow> Less
      | (Some _, None) \<Rightarrow> Greater
      | (Some x, Some y) \<Rightarrow>
          if tm_text x \<noteq> None \<or> tm_text y \<noteq> None then text_order (tm_text x) (tm_text y)
          else ord_then (head_order x y) (seq_order (map (arg_order (term_order resolve k)) (arg_pairs x y))))"

definition resume :: "ordering \<Rightarrow> ordering option \<Rightarrow> ordering option" where
  "resume o1 r = (if o1 = Equal then r else Some o1)"

lemma resume_then: "resume (ord_then a b) r = resume a (resume b r)"
  by (cases a) (simp_all add: resume_def)

lemma compare_loop_done: "compare_loop resolve (CDone o1 # rest) = resume o1 (compare_loop resolve rest)"
  by (subst compare_loop.simps) (simp add: resume_def)

lemma compare_loop_terms:
  "compare_loop resolve (CTerms a b # rest) =
     (if a = b then compare_loop resolve rest
      else (case (resolve a, resolve b) of
        (None, None) \<Rightarrow> resume (cell_cmp a b) (compare_loop resolve rest)
      | (None, Some _) \<Rightarrow> Some Less
      | (Some _, None) \<Rightarrow> Some Greater
      | (Some x, Some y) \<Rightarrow>
          if tm_text x \<noteq> None \<or> tm_text y \<noteq> None
          then resume (text_order (tm_text x) (tm_text y)) (compare_loop resolve rest)
          else resume (head_order x y) (compare_loop resolve (map arg_step (arg_pairs x y) @ rest))))"
  by (subst compare_loop.simps) (auto simp: compare_loop_done resume_def split: option.split)

lemma id_args_pair:
  "((c, tc), (d, td)) \<in> set (arg_pairs x y) \<Longrightarrow> id_type tc \<Longrightarrow> id_type td \<Longrightarrow> c \<in> set (id_args x) \<and> d \<in> set (id_args y)"
  unfolding arg_pairs_def id_args_def by (force dest: set_zip_leftD set_zip_rightD)

lemma compare_loop_args:
  assumes "\<And>a b rest. P a \<Longrightarrow> P b \<Longrightarrow> compare_loop resolve (CTerms a b # rest) = resume (c a b) (compare_loop resolve rest)"
    and "\<And>a ta b tb. ((a, ta), (b, tb)) \<in> set ps \<Longrightarrow> id_type ta \<Longrightarrow> id_type tb \<Longrightarrow> P a \<and> P b"
  shows "compare_loop resolve (map arg_step ps @ rest) = resume (seq_order (map (arg_order c) ps)) (compare_loop resolve rest)"
  using assms(2)
proof (induction ps)
  case Nil
  then show ?case by (simp add: resume_def)
next
  case (Cons p ps)
  obtain a ta b tb where p: "p = ((a, ta), (b, tb))" by (metis surj_pair)
  have IH: "compare_loop resolve (map arg_step ps @ rest) = resume (seq_order (map (arg_order c) ps)) (compare_loop resolve rest)"
    by (rule Cons.IH) (use Cons.prems in auto)
  show ?case
  proof (cases "id_type ta \<and> id_type tb")
    case True
    then have "P a" "P b" using Cons.prems [of a ta b tb] p by auto
    moreover have "arg_step p = CTerms a b" "arg_order c p = c a b" using True p by (simp_all add: arg_order_def)
    ultimately show ?thesis using IH assms(1) [of a b "map arg_step ps @ rest"] by (simp add: resume_then)
  next
    case False
    then obtain o1 where "arg_step p = CDone o1" by (cases "ta = TReal \<and> tb = TReal") (auto simp: p)
    moreover from this have "arg_order c p = o1" by (simp add: arg_order_def)
    ultimately show ?thesis using IH by (simp add: resume_then compare_loop_done)
  qed
qed

lemma compare_loop_order:
  "fits resolve k a \<Longrightarrow> fits resolve k b \<Longrightarrow>
   compare_loop resolve (CTerms a b # rest) = resume (term_order resolve k a b) (compare_loop resolve rest)"
proof (induction k arbitrary: a b rest)
  case 0
  then show ?case by (subst compare_loop_terms) (auto simp: resume_def)
next
  case (Suc k)
  show ?case
  proof (cases "a = b")
    case False
    show ?thesis
    proof (cases "resolve a"; cases "resolve b")
      fix x y
      assume x: "resolve a = Some x" and y: "resolve b = Some y"
      show ?thesis
      proof (cases "tm_text x \<noteq> None \<or> tm_text y \<noteq> None")
        case True
        with False x y show ?thesis by (subst compare_loop_terms) (simp split del: if_split)
      next
        case nt: False
        then have fx: "\<forall>c \<in> set (id_args x). fits resolve k c" and fy: "\<forall>d \<in> set (id_args y). fits resolve k d"
          using Suc.prems x y by (auto simp: list_all_iff)
        have "compare_loop resolve (map arg_step (arg_pairs x y) @ rest) =
            resume (seq_order (map (arg_order (term_order resolve k)) (arg_pairs x y))) (compare_loop resolve rest)"
          by (rule compare_loop_args [where P = "fits resolve k"]) (use Suc.IH fx fy id_args_pair in blast)+
        with False x y nt show ?thesis by (subst compare_loop_terms) (simp add: resume_then)
      qed
    qed (use False in \<open>subst compare_loop_terms, simp add: resume_def\<close>)+
  qed (subst compare_loop_terms, simp add: resume_def)
qed

lemma compare_terms_order:
  assumes "fits resolve k a" and "fits resolve k b"
  shows "compare_terms resolve a b = Some (term_order resolve k a b)"
proof -
  have "compare_loop resolve [] = Some Equal" by (subst compare_loop.simps) simp
  then show ?thesis
    unfolding compare_terms_def compare_loop_order [OF assms] by (simp add: resume_def)
qed

subsection \<open>Codes whose order is the order of what they stand for\<close>

lemma cmp_lists [simp]:
  "cmp ([] :: 'a::linorder list) [] = Equal" "cmp [] (x # xs) = Less" "cmp (x # xs) [] = Greater"
  "cmp (x # xs) (y # ys) = ord_then (cmp x y) (cmp xs ys)"
  by (auto simp: cmp_def)

lemma cmp_append_same [simp]: "cmp (xs @ ys) (xs @ zs) = cmp ys (zs :: 'a::linorder list)"
  by (induction xs) auto

text \<open>A self-delimiting code: what follows two codes decides only when they stand for equals.\<close>

lemma cmp_byte: "m < 256 \<Longrightarrow> n < 256 \<Longrightarrow> cmp (of_nat m :: u8) (of_nat n) = cmp m n"
  by (auto simp: cmp_def word_less_nat_alt unat_of_nat word_unat_eq_iff)

lemma cmp_div_mod: "0 < d \<Longrightarrow> cmp (x :: nat) y = ord_then (cmp (x div d) (y div d)) (cmp (x mod d) (y mod d))"
proof -
  assume d: "0 < d"
  consider "x div d < y div d" | "y div d < x div d" | "x div d = y div d" by linarith
  then show ?thesis
  proof cases
    case 1
    then have "x < y" by (meson div_le_mono leD not_le)
    with 1 show ?thesis by (simp add: cmp_def)
  next
    case 2
    then have "y < x" by (meson div_le_mono leD not_le)
    with 2 show ?thesis by (simp add: cmp_def)
  next
    case 3
    have "x = x div d * d + x mod d" "y = y div d * d + y mod d" by simp_all
    with 3 have "x < y \<longleftrightarrow> x mod d < y mod d" "x = y \<longleftrightarrow> x mod d = y mod d" by (metis nat_add_left_cancel_less, metis)
    with 3 show ?thesis by (simp add: cmp_def)
  qed
qed

lemma be_bytes_mod: "k \<le> m \<Longrightarrow> be_bytes k (x mod 256 ^ m) = be_bytes k x"
proof (induction k)
  case (Suc k)
  then obtain c where c: "(256 :: nat) ^ m = 256 ^ k * (256 * c)"
    by (metis (no_types, opaque_lifting) le_add_diff_inverse mult.assoc power_Suc2 power_add)
  have "x mod (256 ^ k * (256 * c)) div 256 ^ k = x div 256 ^ k mod (256 * c)"
    by (simp add: mod_mult2_eq)
  then have "x mod 256 ^ m div 256 ^ k mod 256 = x div 256 ^ k mod 256"
    unfolding c by (simp add: mod_mod_cancel)
  with Suc show ?case by simp
qed simp

lemma be_bytes_order:
  "x < 256 ^ k \<Longrightarrow> y < 256 ^ k \<Longrightarrow> cmp (be_bytes k x @ r) (be_bytes k y @ r') = ord_then (cmp x y) (cmp r r')"
proof (induction k arbitrary: x y)
  case 0
  then show ?case by simp
next
  case (Suc k)
  let ?d = "256 ^ k :: nat"
  have high: "x div ?d < 256" "y div ?d < 256" using Suc.prems by (simp_all add: less_mult_imp_div_less mult.commute)
  have "cmp (be_bytes (Suc k) x @ r) (be_bytes (Suc k) y @ r') =
      ord_then (cmp (x div ?d) (y div ?d)) (cmp (be_bytes k (x mod ?d) @ r) (be_bytes k (y mod ?d) @ r'))"
    using high by (simp add: cmp_byte be_bytes_mod)
  also have "\<dots> = ord_then (cmp (x div ?d) (y div ?d)) (ord_then (cmp (x mod ?d) (y mod ?d)) (cmp r r'))"
    using Suc.IH [of "x mod ?d" "y mod ?d"] by simp
  also have "\<dots> = ord_then (cmp x y) (cmp r r')"
    by (simp add: cmp_div_mod [of ?d x y] ord_then_assoc)
  finally show ?case .
qed

lemma char_byte: "(of_char c :: nat) < 256"
  by (rule nat_of_char_less_256)

lemma char_byte_pos:
  assumes "of_char c \<noteq> (0 :: nat)"
  shows "(0 :: u8) < of_nat (of_char c)" and "(of_nat (of_char c) :: u8) \<noteq> 0"
proof -
  show "(0 :: u8) < of_nat (of_char c)" using assms char_byte [of c] by (simp add: word_less_nat_alt unat_of_nat)
  then show "(of_nat (of_char c) :: u8) \<noteq> 0" by (rule less_imp_neq [THEN not_sym])
qed

lemma escaped_Cons:
  "escaped [] = [0, 0]" "escaped (c # s) = (if of_char c = (0 :: nat) then 0 # 255 # escaped s else of_nat (of_char c) # escaped s)"
proof -
  have "(of_nat (of_char c) :: u8) = 0 \<longleftrightarrow> of_char c = (0 :: nat)"
    using char_byte_pos(2) [of c] by (cases "of_char c = (0 :: nat)") auto
  then show "escaped (c # s) = (if of_char c = (0 :: nat) then 0 # 255 # escaped s else of_nat (of_char c) # escaped s)"
    by (simp add: escaped_def Let_def)
qed (simp add: escaped_def)

lemma cmp_char: "cmp (c :: char) d = cmp (of_char c :: nat) (of_char d)"
  by (auto simp: cmp_def less_char_def)

lemma escaped_order: "cmp (escaped s @ r) (escaped t @ r') = ord_then (cmp s t) (cmp r r')"
proof (induction s arbitrary: t)
  case Nil
  show ?case
  proof (cases t)
    case t: (Cons c t')
    then show ?thesis using char_byte_pos [of c] by (auto simp: escaped_Cons cmp_def)
  qed (simp add: escaped_Cons)
next
  case (Cons c s)
  note zero = char_byte_pos
  show ?case
  proof (cases t)
    case Nil
    then show ?thesis using zero [of c] by (auto simp: escaped_Cons cmp_def)
  next
    case t: (Cons d t')
    have "cmp (escaped (c # s) @ r) (escaped (d # t') @ r') = ord_then (cmp c d) (cmp (escaped s @ r) (escaped t' @ r'))"
    proof (cases "of_char c = (0 :: nat)"; cases "of_char d = (0 :: nat)")
      assume "of_char c \<noteq> (0 :: nat)" "of_char d \<noteq> (0 :: nat)"
      then show ?thesis by (simp add: escaped_Cons cmp_char cmp_byte char_byte)
    next
      assume "of_char c = (0 :: nat)" "of_char d \<noteq> (0 :: nat)"
      then show ?thesis using zero [of d] by (simp add: escaped_Cons cmp_char) (simp add: cmp_def)
    next
      assume "of_char c \<noteq> (0 :: nat)" "of_char d = (0 :: nat)"
      then show ?thesis using zero [of c] by (simp add: escaped_Cons cmp_char) (simp add: cmp_def)
    qed (simp add: escaped_Cons cmp_char)
    then show ?thesis using Cons.IH [of t'] t by (simp add: ord_then_assoc)
  qed
qed

subsection \<open>Numbers in keys\<close>

definition top_bit :: u64 where "top_bit = push_bit 63 1"

lemma top_bit_numeral: "0x8000000000000000 = top_bit"
  by (simp add: top_bit_def push_bit_eq_mult)

lemma f64_abs_take: "f64_abs b = unat (take_bit 63 b)"
  by (simp only: f64_abs_def unsigned_take_bit_eq) (simp add: take_bit_eq_mod)

lemma flip_parts: "f64_abs (b XOR top_bit) = f64_abs b" "bit (b XOR top_bit) 63 = (\<not> bit b 63)"
  by (simp_all add: f64_abs_take top_bit_def bit_xor_iff bit_push_bit_iff take_bit_push_bit)

lemma not_parts: "int (f64_abs (NOT b)) = 2 ^ 63 - 1 - int (f64_abs b)" "bit (NOT b :: u64) 63 = (\<not> bit b 63)"
proof -
  show bits: "bit (NOT b) 63 = (\<not> bit b 63)" by (simp add: bit_not_iff)
  have "NOT b = - 1 - b" by (simp add: not_eq_complement)
  then have "unat (NOT b) = unat (- 1 :: u64) - unat b" by (simp only:) (rule unat_sub, simp)
  moreover have "unat (- 1 :: u64) = 2 ^ 64 - 1" by (simp add: unsigned_minus_1_eq_mask mask_eq_exp_minus_1)
  ultimately have "unat (NOT b) + unat b = 2 ^ 64 - 1"
    using unsigned_less [of b, where 'a = nat] by simp
  then show "int (f64_abs (NOT b)) = 2 ^ 63 - 1 - int (f64_abs b)"
    unfolding unat_parts bits by (cases "bit b 63") simp_all
qed

lemma sint_parts: "sint (v :: i64) = int (f64_abs v) - (if bit v 63 then 2 ^ 63 else 0)"
proof -
  have "sint v = signed_take_bit 63 (uint v)" by (simp add: sint_uint)
  also have "\<dots> = take_bit 64 (uint v) - 2 ^ 64 * of_bool (bit (uint v) 63)"
    by (simp add: signed_take_bit_eq_take_bit_minus)
  also have "take_bit 64 (uint v) = int (unat v)"
    using unsigned_less [of v, where 'a = int] by (simp add: take_bit_int_eq_self)
  also have "bit (uint v) 63 = bit v 63" by (simp add: bit_uint_iff)
  finally show ?thesis by (simp add: unat_parts [of v])
qed

lemma unat_flip: "int (unat (v XOR top_bit)) = sint v + 2 ^ 63"
  by (simp add: unat_parts [of "v XOR top_bit"] flip_parts sint_parts)

lemma cmp_int: "cmp (m :: nat) n = cmp (int m) (int n)"
  by (simp add: cmp_def)

lemma cmp_shift: "cmp (x + c) (y + c) = cmp x (y :: int)"
  by (simp add: cmp_def)

lemma be_bytes_u64: "cmp (be_bytes 8 (unat (v :: u64)) @ r) (be_bytes 8 (unat (w :: u64)) @ r') = ord_then (cmp (int (unat v)) (int (unat w))) (cmp r r')"
proof -
  have "unat (x :: u64) < 256 ^ 8" for x using unsigned_less [of x, where 'a = nat] by simp
  from be_bytes_order [OF this this, of v r w r'] show ?thesis by (simp only: cmp_int [of "unat v"])
qed

lemma key_number_order: "cmp (key_number v @ r) (key_number w @ r') = ord_then (cell_cmp v w) (cmp r r')"
  unfolding key_number_def top_bit_numeral be_bytes_u64 unat_flip cmp_shift cell_cmp_def by (rule refl)

text \<open>The word a double's key spells.\<close>

lemma drop_sign: "drop_bit 63 (b :: u64) = 0 \<longleftrightarrow> \<not> bit b 63"
proof -
  have "drop_bit 63 b = 0 \<longleftrightarrow> unat (drop_bit 63 b) = 0" by (simp add: unat_eq_0)
  also have "unat (drop_bit 63 b) = drop_bit 63 (unat b)"
    using unsigned_less [of b, where 'a = nat] by (simp add: unsigned_drop_bit_eq take_bit_nat_eq_self)
  also have "\<dots> = unat b div 2 ^ 63" by (simp add: drop_bit_eq_div)
  also have "\<dots> = 0 \<longleftrightarrow> unat b < 2 ^ 63" by (simp add: div_eq_0_iff)
  finally show ?thesis by (simp add: bit_63 not_le)
qed

definition real_word :: "u64 \<Rightarrow> u64" where
  "real_word arg =
     (let bits = (if f64_of_bits arg = FFin 0 then 0 else arg)
      in if drop_bit 63 bits = 0 then bits XOR top_bit else NOT bits)"

lemma f64_zero: "f64_of_bits b = FFin 0 \<longleftrightarrow> f64_abs b = 0"
proof -
  have "f64_mag (f64_abs b) = 0 \<longleftrightarrow> f64_abs b = 0" using f64_mag_eq [of "f64_abs b" 0] by simp
  then show ?thesis using f64_unit_pos by (auto simp: f64_of_bits_abs)
qed

lemma real_word_ord:
  "int (unat (real_word b)) = (if bit b 63 \<and> f64_abs b \<noteq> 0 then 2 ^ 63 - 1 + real_ord b else 2 ^ 63 + real_ord b)"
proof (cases "f64_abs b = 0")
  case True
  then have "real_word b = top_bit" by (simp add: real_word_def f64_zero)
  moreover have "int (unat top_bit) = 2 ^ 63" by (simp add: top_bit_def push_bit_eq_mult)
  ultimately show ?thesis using True by (simp add: real_ord_def)
next
  case False
  then show ?thesis
    by (cases "bit b 63")
      (simp_all add: real_word_def f64_zero drop_sign real_ord_def unat_parts [of "b XOR top_bit"] unat_parts [of "NOT b"]
        flip_parts not_parts)
qed

lemma real_word_cmp: "cmp (int (unat (real_word a))) (int (unat (real_word b))) = cmp (real_ord a) (real_ord b)"
  unfolding real_word_ord by (auto simp: real_ord_def cmp_def split: if_splits)

lemma real_key_order:
  assumes "f64_of_bits a \<noteq> FNan" and "f64_of_bits b \<noteq> FNan"
  shows "cmp (real_key a @ r) (real_key b @ r') =
    ord_then (case f64_partial_cmp (f64_of_bits a) (f64_of_bits b) of None \<Rightarrow> Equal | Some o1 \<Rightarrow> o1) (cmp r r')"
proof -
  have "real_key c = be_bytes 8 (unat (real_word c))" for c
    by (simp only: real_key_def real_word_def top_bit_numeral Let_def)
  then have "cmp (real_key a @ r) (real_key b @ r') = ord_then (cmp (real_ord a) (real_ord b)) (cmp r r')"
    by (simp only: be_bytes_u64 real_word_cmp)
  then show ?thesis using assms by (simp add: f64_partial_cmp_def f64_key_bits)
qed

subsection \<open>Keys of terms\<close>

fun key_ref :: "(i64 \<Rightarrow> ir_term option) \<Rightarrow> nat \<Rightarrow> i64 \<Rightarrow> u8 list" where
  "key_ref resolve 0 n = atom_key n"
| "key_ref resolve (Suc k) n =
     (case resolve n of None \<Rightarrow> atom_key n | Some t \<Rightarrow> term_key t (\<lambda>s a. (s, key_ref resolve k a)) ())"

text \<open>
  What the keys rely on: a functor has one list of column types per arity, an argument per type, fewer
  than \<open>2 ^ 32\<close> of them, and no NaN among its reals.
\<close>

definition keyed :: "(i64 \<Rightarrow> ir_term option) \<Rightarrow> (string \<Rightarrow> nat \<Rightarrow> ty list) \<Rightarrow> bool" where
  "keyed resolve sg \<longleftrightarrow> (\<forall>n t. resolve n = Some t \<longrightarrow> tm_text t = None \<longrightarrow>
     tm_types t = sg (tm_functor t) (length (tm_args t)) \<and> length (tm_types t) = length (tm_args t) \<and>
     length (tm_args t) < 2 ^ 32 \<and> (\<forall>(a, ta) \<in> set (zip (tm_args t) (tm_types t)). ta = TReal \<longrightarrow> f64_of_bits a \<noteq> FNan))"

lemma arg_order_at:
  "arg_order c ((a, t), b, t) =
    (case t of TInt \<Rightarrow> cell_cmp a b | TId \<Rightarrow> c a b | TText \<Rightarrow> c a b | TAny \<Rightarrow> cell_cmp a b
     | TReal \<Rightarrow> (case f64_partial_cmp (f64_of_bits a) (f64_of_bits b) of None \<Rightarrow> Equal | Some o1 \<Rightarrow> o1))"
  by (cases t) (simp_all add: arg_order_def id_type_def)

lemma arg_keys_order:
  assumes f: "\<And>a b r r'. P a \<Longrightarrow> P b \<Longrightarrow> cmp (f a @ r) (f b @ r') = ord_then (c a b) (cmp r r')"
    and "map snd xs = map snd ys"
    and "\<forall>(a, t) \<in> set xs. (id_type t \<longrightarrow> P a) \<and> (t = TReal \<longrightarrow> f64_of_bits a \<noteq> FNan)"
    and "\<forall>(a, t) \<in> set ys. (id_type t \<longrightarrow> P a) \<and> (t = TReal \<longrightarrow> f64_of_bits a \<noteq> FNan)"
  shows "cmp (arg_keys (\<lambda>s a. (s, f a)) () xs @ r) (arg_keys (\<lambda>s a. (s, f a)) () ys @ r') =
    ord_then (seq_order (map (arg_order c) (zip xs ys))) (cmp r r')"
  using assms(2-4)
proof (induction xs arbitrary: ys)
  case (Cons x xs)
  obtain a t where x: "x = (a, t)" by (cases x)
  from Cons.prems(1) x obtain b ys' where ys: "ys = (b, t) # ys'" "map snd xs = map snd ys'" by (cases ys) auto
  have IH: "cmp (arg_keys (\<lambda>s a. (s, f a)) () xs @ r) (arg_keys (\<lambda>s a. (s, f a)) () ys' @ r') =
      ord_then (seq_order (map (arg_order c) (zip xs ys'))) (cmp r r')"
    by (rule Cons.IH) (use Cons.prems ys in auto)
  have P: "id_type t \<Longrightarrow> P a \<and> P b" and real: "t = TReal \<Longrightarrow> f64_of_bits a \<noteq> FNan \<and> f64_of_bits b \<noteq> FNan"
    using Cons.prems(2,3) x ys(1) by auto
  show ?case
    using IH P real unfolding x ys(1)
    by (cases t) (simp_all add: arg_order_at key_number_order real_key_order f id_type_def ord_then_assoc)
qed simp

lemma keyedD:
  assumes "keyed resolve sg" and "resolve n = Some t" and "tm_text t = None"
  shows "tm_types t = sg (tm_functor t) (length (tm_args t))" and "length (tm_types t) = length (tm_args t)"
    and "length (tm_args t) < 2 ^ 32" and "\<forall>(a, ta) \<in> set (zip (tm_args t) (tm_types t)). ta = TReal \<longrightarrow> f64_of_bits a \<noteq> FNan"
proof -
  note K = assms(1) [unfolded keyed_def, THEN spec [of _ n], THEN spec [of _ t], THEN mp, OF assms(2), THEN mp, OF assms(3)]
  show "tm_types t = sg (tm_functor t) (length (tm_args t))" by (rule conjunct1 [OF K])
  show "length (tm_types t) = length (tm_args t)" by (rule conjunct1 [OF conjunct2 [OF K]])
  show "length (tm_args t) < 2 ^ 32" by (rule conjunct1 [OF conjunct2 [OF conjunct2 [OF K]]])
  show "\<forall>(a, ta) \<in> set (zip (tm_args t) (tm_types t)). ta = TReal \<longrightarrow> f64_of_bits a \<noteq> FNan"
    by (rule conjunct2 [OF conjunct2 [OF conjunct2 [OF K]]])
qed

lemma fits_args:
  assumes "list_all (fits resolve k) (id_args t)"
    and "\<forall>(a, ta) \<in> set (zip (tm_args t) (tm_types t)). ta = TReal \<longrightarrow> f64_of_bits a \<noteq> FNan"
  shows "\<forall>(a, ta) \<in> set (zip (tm_args t) (tm_types t)). (id_type ta \<longrightarrow> fits resolve k a) \<and> (ta = TReal \<longrightarrow> f64_of_bits a \<noteq> FNan)"
proof -
  have "id_type ta \<Longrightarrow> fits resolve k a" if "(a, ta) \<in> set (zip (tm_args t) (tm_types t))" for a ta
    using assms(1) that by (force simp: list_all_iff id_args_def)
  then show ?thesis using assms(2) by blast
qed

lemma cmp_len4:
  "m < 2 ^ 32 \<Longrightarrow> n < 2 ^ 32 \<Longrightarrow> cmp (be_bytes 4 m @ r) (be_bytes 4 n @ r') = ord_then (cmp m n) (cmp r r')"
  using be_bytes_order [of m 4 n r r'] by simp

lemma ord_then_unequal: "a \<noteq> Equal \<Longrightarrow> ord_then a b = a"
  by (cases a) auto

lemma key_ref_order:
  assumes "keyed resolve sg"
  shows "fits resolve k a \<Longrightarrow> fits resolve k b \<Longrightarrow>
    cmp (key_ref resolve k a @ r) (key_ref resolve k b @ r') = ord_then (term_order resolve k a b) (cmp r r')"
proof (induction k arbitrary: a b r r')
  case 0
  then show ?case by (simp add: atom_key_def key_number_order)
next
  case (Suc k)
  show ?case
  proof (cases "a = b")
    case True
    then show ?thesis by (simp del: key_ref.simps)
  next
    case ne: False
    show ?thesis
    proof (cases "resolve a"; cases "resolve b")
      assume "resolve a = None" "resolve b = None"
      with ne show ?thesis by (simp add: atom_key_def key_number_order)
    next
      fix y
      assume "resolve a = None" "resolve b = Some y"
      with ne show ?thesis by (cases "tm_text y") (simp_all add: atom_key_def term_key_def cmp_def)
    next
      fix x
      assume "resolve a = Some x" "resolve b = None"
      with ne show ?thesis by (cases "tm_text x") (simp_all add: atom_key_def term_key_def cmp_def)
    next
      fix x y
      assume x: "resolve a = Some x" and y: "resolve b = Some y"
      show ?thesis
      proof (cases "tm_text x \<noteq> None \<or> tm_text y \<noteq> None")
        case True
        with ne x y show ?thesis
          by (cases "tm_text x"; cases "tm_text y") (simp_all add: term_key_def text_order_def escaped_order cmp_known)
      next
        case False
        then have tx: "tm_text x = None" and ty: "tm_text y = None" by auto
        let ?f = "key_ref resolve k"
        let ?xs = "zip (tm_args x) (tm_types x)"
        let ?ys = "zip (tm_args y) (tm_types y)"
        let ?A = "cmp (arg_keys (\<lambda>s a. (s, ?f a)) () ?xs @ r) (arg_keys (\<lambda>s a. (s, ?f a)) () ?ys @ r')"
        note kx = keyedD [OF assms x tx] and ky = keyedD [OF assms y ty]
        have "cmp (key_ref resolve (Suc k) a @ r) (key_ref resolve (Suc k) b @ r') = ord_then (head_order x y) ?A"
          using x y tx ty kx(3) ky(3)
          by (simp add: term_key_def cmp_len4 escaped_order head_order_def ord_then_assoc del: be_bytes.simps)
        also have "\<dots> = ord_then (head_order x y) (ord_then (seq_order (map (arg_order (term_order resolve k)) (zip ?xs ?ys))) (cmp r r'))"
        proof (cases "head_order x y = Equal")
          case True
          then have "tm_types x = tm_types y" "length (tm_args x) = length (tm_args y)"
            using kx(1) ky(1) by (simp_all add: head_order_def ord_simps)
          then have snds: "map snd ?xs = map snd ?ys" using kx(2) ky(2) by simp
          have fx: "list_all (fits resolve k) (id_args x)" and fy: "list_all (fits resolve k) (id_args y)"
            using Suc.prems x y tx ty by simp_all
          show ?thesis
            by (simp only: arg_keys_order [where P = "fits resolve k" and c = "term_order resolve k",
                  OF Suc.IH snds fits_args [OF fx kx(4)] fits_args [OF fy ky(4)]])
        qed (simp add: ord_then_unequal)
        also have "\<dots> = ord_then (term_order resolve (Suc k) a b) (cmp r r')"
          using ne x y tx ty by (simp add: arg_pairs_def ord_then_assoc)
        finally show ?thesis .
      qed
    qed
  qed
qed

subsection \<open>The loop of \<open>sort_key\<close>\<close>

lemma arg_keys_next:
  "arg_keys next_key (map f (map fst (filter (\<lambda>(a, t). id_type t) xs)) @ rest) xs = arg_keys (\<lambda>s a. (s, f a)) () xs"
proof (induction xs)
  case (Cons x xs)
  then show ?case by (cases x; cases "snd x") (auto simp: id_type_def)
qed simp

lemma term_key_next: "term_key t next_key (map f (id_args t)) = term_key t (\<lambda>s a. (s, f a)) ()"
  using arg_keys_next [of f "zip (tm_args t) (tm_types t)" "[]"] by (simp add: term_key_def id_args_def split: option.split)

lemma sort_key_loop_enter:
  assumes "\<And>n stack keys. sort_key_loop resolve (KEnter n d # stack) keys = sort_key_loop resolve stack (keys @ [f n])"
  shows "sort_key_loop resolve (map (\<lambda>c. KEnter c d) cs @ stack) keys = sort_key_loop resolve stack (keys @ map f cs)"
  by (induction cs arbitrary: keys) (simp_all add: assms del: sort_key_loop.simps)

lemma sort_key_loop_ref:
  "d + k = sort_key_depth \<Longrightarrow>
   sort_key_loop resolve (KEnter n d # stack) keys = sort_key_loop resolve stack (keys @ [key_ref resolve k n])"
proof (induction k arbitrary: n d stack keys)
  case 0
  then show ?case by simp
next
  case (Suc k)
  then have d: "\<not> sort_key_depth \<le> d" and k: "d + 1 + k = sort_key_depth" by simp_all
  show ?case
  proof (cases "resolve n")
    case None
    with d show ?thesis by simp
  next
    case (Some t)
    have "sort_key_loop resolve (KEnter n d # stack) keys =
        sort_key_loop resolve (map (\<lambda>c. KEnter c (d + 1)) (id_args t) @ KExit t (length (id_args t)) # stack) keys"
      using d Some by simp
    also have "\<dots> = sort_key_loop resolve (KExit t (length (id_args t)) # stack) (keys @ map (key_ref resolve k) (id_args t))"
      by (rule sort_key_loop_enter [OF Suc.IH [OF k]])
    also have "\<dots> = sort_key_loop resolve stack (keys @ [key_ref resolve (Suc k) n])"
      using Some by (simp add: Let_def term_key_next)
    finally show ?thesis .
  qed
qed

lemma sort_key_ref: "sort_key n resolve = key_ref resolve sort_key_depth n"
  unfolding sort_key_def by (subst sort_key_loop_ref [of 0 sort_key_depth]) simp_all

subsection \<open>The properties\<close>

lemma key_order: 
  assumes "keyed resolve sg" and "fits resolve sort_key_depth a" and "fits resolve sort_key_depth b"
  shows "cmp (sort_key a resolve) (sort_key b resolve) = term_order resolve sort_key_depth a b"
  using key_ref_order [OF assms, of "[]" "[]"] by (simp add: sort_key_ref)

text \<open>
  A dictionary whose terms have only ids of earlier terms, or ids of no term, as arguments: each level
  of nesting lowers the id, so nesting is bounded by the length of the dictionary.
\<close>

definition grounded :: "interner \<Rightarrow> bool" where
  "grounded i \<longleftrightarrow> (\<forall>n t. dict_get i n = Some t \<longrightarrow> tm_text t = None \<longrightarrow>
     (\<forall>c \<in> set (id_args t). dict_get i c = None \<or> sint c < sint n))"

lemma fits_atom: "resolve n = None \<Longrightarrow> fits resolve k n"
  by (cases k) simp_all

lemma fits_text: "resolve n = Some t \<Longrightarrow> tm_text t \<noteq> None \<Longrightarrow> 0 < k \<Longrightarrow> fits resolve k n"
  by (cases k) simp_all

lemma grounded_fits:
  assumes "grounded i"
  shows "dict_get i n = None \<or> sint n < int k \<Longrightarrow> fits (dict_get i) k n"
proof (induction k arbitrary: n)
  case 0
  have "dict_get i n = None" if "sint n < 0" using that by (simp add: dict_get_def try_usize_def)
  with 0 show ?case by auto
next
  case (Suc k)
  have "fits (dict_get i) k c" if "dict_get i n = Some t" "tm_text t = None" "c \<in> set (id_args t)" for t c
  proof -
    have "dict_get i c = None \<or> sint c < sint n" using assms that unfolding grounded_def by blast
    moreover have "sint n < int (Suc k)" using Suc.prems that(1) by simp
    ultimately show ?thesis using Suc.IH [of c] by auto
  qed
  then show ?case by (auto simp: list_all_iff split: option.split)
qed

lemma dict_get_bound: "dict_get i n = Some t \<Longrightarrow> sint n < int (length (in_by_id i))"
  by (auto simp: dict_get_def try_usize_def vec_get_def split: if_splits option.splits bind_splits)

text \<open>
  C17: In a dictionary whose terms refer only to earlier terms, comparing any two ids returns, and its answer
  is the order by structure: equal ids are equal, ids of no term are ordered as integers and before all
  terms, texts before other terms and as strings, other terms by arity, functor and then their arguments
  from the left.
\<close>

theorem dict_compare_returns:
  assumes "grounded i"
  shows "dict_compare i a b = Some (term_order (dict_get i) (length (in_by_id i)) a b)"
proof -
  have "fits (dict_get i) (length (in_by_id i)) n" for n
    using grounded_fits [OF assms] dict_get_bound [of i n] by (cases "dict_get i n") auto
  then show ?thesis unfolding dict_compare_def by (intro compare_terms_order)
qed

text \<open>
  C18: The byte keys of \<open>sort_key\<close>, read as strings of bytes, are in the order of \<open>compare\<close>, when the terms nest
  fewer than \<open>SORT_KEY_DEPTH\<close> deep, every functor of an arity has one list of column types, and no real among
  the arguments is a NaN. Each condition is needed: \<open>f(NaN)\<close> and \<open>f(1.0)\<close>, for one, compare equal and have
  different keys.
\<close>

theorem sort_key_matches_compare:
  assumes "keyed resolve sg" and "fits resolve sort_key_depth a" and "fits resolve sort_key_depth b"
  shows "compare_terms resolve a b = Some (cmp (sort_key a resolve) (sort_key b resolve))"
  using compare_terms_order [OF assms(2,3)] key_order [OF assms] by simp

subsection \<open>Witnesses\<close>

definition f_of :: "i64 \<Rightarrow> ty \<Rightarrow> ir_term" where
  "f_of n t = \<lparr>tm_functor = ''f'', tm_args = [n], tm_types = [t], tm_text = None\<rparr>"

definition sample_dict :: interner where
  "sample_dict = dict_empty\<lparr>in_by_id := [None, Some (text_term ''a''), Some (f_of 1 TId), Some (f_of 2 TId)]\<rparr>"

lemma sample_dict_get: "dict_get sample_dict = [1 \<mapsto> text_term ''a'', 2 \<mapsto> f_of 1 TId, 3 \<mapsto> f_of 2 TId]"
proof
  fix n
  show "dict_get sample_dict n = [1 \<mapsto> text_term ''a'', 2 \<mapsto> f_of 1 TId, 3 \<mapsto> f_of 2 TId] n"
  proof (cases "n \<in> {0, 1, 2, 3}")
    case True
    then show ?thesis by (auto simp: dict_get_def try_usize_def sample_dict_def vec_get_def)
  next
    case False
    have eq: "of_int (sint n) = n" for n :: i64 by simp
    have "sint n \<notin> {0, 1, 2, 3}" using False eq [of n] by (auto simp del: of_int_sint)
    then have "sint n < 0 \<or> 3 < sint n" by auto
    then have "dict_get sample_dict n = None"
      by (auto simp: dict_get_def try_usize_def sample_dict_def vec_get_def nat_less_iff)
    with False show ?thesis by simp
  qed
qed

lemma sample_terms: "text_term s \<noteq> f_of n t" "tm_text (text_term s) = Some s" "tm_text (f_of n t) = None" "id_args (f_of n TId) = [n]"
  by (simp_all add: text_term_def f_of_def id_args_def id_type_def)

lemma sample_grounded: "grounded sample_dict"
  unfolding grounded_def sample_dict_get by (auto simp: sample_terms split: if_splits)

theorem dict_compare_returns_witness:
  "grounded sample_dict \<and> dict_compare sample_dict 3 2 = Some Greater \<and> dict_compare sample_dict 1 9 = Some Greater"
proof -
  have l: "length (in_by_id sample_dict) = Suc (Suc (Suc (Suc 0)))" by (simp add: sample_dict_def)
  show ?thesis
    unfolding dict_compare_returns [OF sample_grounded] l sample_dict_get
    by (simp add: sample_grounded sample_terms f_of_def head_order_def arg_pairs_def arg_order_def id_type_def cmp_def text_order_def)
qed

theorem sort_key_matches_compare_witness:
  "compare_terms (dict_get sample_dict) 2 3 = Some (cmp (sort_key 2 (dict_get sample_dict)) (sort_key 3 (dict_get sample_dict)))"
proof (rule sort_key_matches_compare [where sg = "\<lambda>_ _. [TId]"])
  show "keyed (dict_get sample_dict) (\<lambda>_ _. [TId])"
    unfolding keyed_def sample_dict_get by (auto simp: sample_terms f_of_def text_term_def split: if_splits)
  have "3 \<le> sort_key_depth" by (simp add: sort_key_depth_def)
  then obtain m where "sort_key_depth = m + 3" by (metis le_add_diff_inverse2)
  then have d: "sort_key_depth = Suc (Suc (Suc m))" by simp
  show "fits (dict_get sample_dict) sort_key_depth 2" "fits (dict_get sample_dict) sort_key_depth 3"
    unfolding d sample_dict_get by (simp_all add: sample_terms)
qed

subsection \<open>Terms that contain themselves\<close>

lemma loop_diverges:
  assumes "resolve a = Some x" and "resolve b = Some y" and "a \<noteq> b" and "tm_text x = None" and "tm_text y = None"
    and "head_order x y = Equal" and "map arg_step (arg_pairs x y) = [CTerms a b]"
  shows "compare_loop resolve [CTerms a b] = None"
proof -
  have "r = resolve \<longrightarrow> steps \<noteq> [CTerms a b]" if "compare_loop r steps = Some o1" for r steps o1
    using that
  proof (rule compare_loop.raw_induct [where P = "\<lambda>r steps _. r = resolve \<longrightarrow> steps \<noteq> [CTerms a b]", rotated], goal_cases)
    case (1 loop r steps o2)
    from 1(2) show ?case using 1(1) [of r "[CTerms a b]" o2] assms by auto
  qed
  then show ?thesis by (cases "compare_loop resolve [CTerms a b]") auto
qed

text \<open>
  C19: \<open>compare\<close> need not return. Interning \<open>f(1)\<close> as the first term of a dictionary and \<open>f(2)\<close> as the
  second gives two terms whose only argument is their own id; both interning operations succeed, and
  comparing the two terms runs for ever.
\<close>

theorem compare_self_terms_diverges:
  "\<exists>i1 i2. (mint ''f'' [1] [TId] dict_empty :: (unit, i64 \<times> interner) rust) = Ok (1, i1) \<and>
     (mint ''f'' [2] [TId] i1 :: (unit, i64 \<times> interner) rust) = Ok (2, i2) \<and> dict_compare i2 1 2 = None"
proof -
  define i1 where "i1 = dict_empty\<lparr>in_functors := [''f''], in_by_key := [(''f'', [1]) \<mapsto> 1], in_by_id := [None, Some (f_of 1 TId)],
    in_terms := 1, in_next := 1, in_pending := [(''f'', [1, 1])]\<rparr>"
  define i2 where "i2 = i1\<lparr>in_by_key := [(''f'', [1]) \<mapsto> 1, (''f'', [2]) \<mapsto> 2], in_by_id := [None, Some (f_of 1 TId), Some (f_of 2 TId)],
    in_terms := 2, in_next := 2, in_pending := [(''f'', [1, 1]), (''f'', [2, 2])]\<rparr>"
  have 1: "(mint ''f'' [1] [TId] dict_empty :: (unit, i64 \<times> interner) rust) = Ok (1, i1)"
    by (simp add: mint_def dict_empty_def fresh_id_def checked_add_def dict_put_def try_usize_def vec_resize_def i1_def f_of_def)
  have 2: "(mint ''f'' [2] [TId] i1 :: (unit, i64 \<times> interner) rust) = Ok (2, i2)"
    by (simp add: mint_def dict_empty_def fresh_id_def checked_add_def dict_put_def try_usize_def vec_resize_def i1_def i2_def f_of_def)
  have "dict_get i2 1 = Some (f_of 1 TId)" "dict_get i2 2 = Some (f_of 2 TId)"
    by (simp_all add: i2_def i1_def dict_get_def try_usize_def vec_get_def)
  then have "dict_compare i2 1 2 = None"
    unfolding dict_compare_def compare_terms_def
    by (rule loop_diverges) (simp_all add: f_of_def head_order_def arg_pairs_def id_type_def cmp_def)
  with 1 2 show ?thesis by blast
qed

end
