(* ===== verification/Ir_Compose.thy ===== *)
theory Ir_Compose
  imports Ir_Typing
begin

text \<open>
  Several programs as one install (\<open>crates/ivm-ir/src/4_compose.rs\<close>): relations of the parts side by side
  with constructors shared by name, texts and term literals shared by value, and nodes that read no
  source shared by value. The maps the code keeps while it composes are the record \<open>composing\<close>; the walk
  over the nodes of one part has the record \<open>walk\<close>.
\<close>

subsection \<open>Expressions\<close>

datatype text_step = TEnter expr | TBuild func nat

definition text_step_size :: "text_step \<Rightarrow> nat" where
  "text_step_size s = (case s of TEnter e \<Rightarrow> 2 * size e + 1 | TBuild _ _ \<Rightarrow> 1)"

lemma text_enter_sizes: "(\<Sum>a\<leftarrow>args. text_step_size (TEnter a)) \<le> 2 * size_list size args"
  by (induction args) (auto simp: text_step_size_def)

text \<open>The top of the step stack is the head; built expressions are pushed at the end.\<close>

function texts_loop :: "nat list \<Rightarrow> nat list \<Rightarrow> text_step list \<Rightarrow> expr list \<Rightarrow> ('e, expr list) rust" where
  "texts_loop texts terms [] built = Ok built"
| "texts_loop texts terms (TEnter e # steps) built =
     (case e of
        EText k \<Rightarrow> rust_bind (vec_index texts k) (\<lambda>n. texts_loop texts terms steps (built @ [EText n]))
      | ETerm k \<Rightarrow> rust_bind (vec_index terms k) (\<lambda>n. texts_loop texts terms steps (built @ [ETerm n]))
      | ECall f args \<Rightarrow> texts_loop texts terms (map TEnter args @ TBuild f (length args) # steps) built
      | other \<Rightarrow> texts_loop texts terms steps (built @ [other]))"
| "texts_loop texts terms (TBuild f arity # steps) built =
     (if arity \<le> length built
      then texts_loop texts terms steps (take (length built - arity) built @ [ECall f (drop (length built - arity) built)])
      else Panic)"
  by pat_completeness auto
termination
proof (relation "measure (\<lambda>(texts, terms, steps, built). \<Sum>s\<leftarrow>steps. text_step_size s)")
  fix texts terms :: "nat list" and e steps f args and built :: "expr list"
  assume "e = ECall f args"
  then show "((texts, terms, map TEnter args @ TBuild f (length args) # steps, built), texts, terms, TEnter e # steps, built)
      \<in> measure (\<lambda>(texts, terms, steps, built). \<Sum>s\<leftarrow>steps. text_step_size s)"
    using text_enter_sizes [of args] by (simp add: text_step_size_def comp_def)
qed (auto simp: text_step_size_def)

definition expr_texts :: "nat list \<Rightarrow> nat list \<Rightarrow> expr \<Rightarrow> ('e, expr) rust" where
  "expr_texts texts terms e =
     rust_bind (texts_loop texts terms [TEnter e] []) (\<lambda>built. if built = [] then Panic else Ok (last built))"

subsection \<open>Nodes\<close>

fun op_inputs :: "ir_op \<Rightarrow> nat list" where
  "op_inputs (OGet _) = []"
| "op_inputs (OMint i _ _) = [i]"
| "op_inputs (OStrCons i _) = [i]"
| "op_inputs (OStr i _ _) = [i]"
| "op_inputs (OVec i _ _) = [i]"
| "op_inputs (OMfp i _ _ _) = [i]"
| "op_inputs (ONegate i) = [i]"
| "op_inputs (OThreshold i) = [i]"
| "op_inputs (ODelay i) = [i]"
| "op_inputs (OReduce i _ _) = [i]"
| "op_inputs (OTopK i _ _ _) = [i]"
| "op_inputs (OWindow i _ _ _) = [i]"
| "op_inputs (OUnion is) = is"
| "op_inputs (OJoin is _ _) = is"
| "op_inputs (OAntijoin l r _ _) = [l, r]"

text \<open>What the composition of a part's nodes reads: the part, its renamings, and the \<open>Let\<close>s of earlier parts.\<close>

record part_names =
  pn_prefix :: string
  pn_part :: ir_program
  pn_rels :: "nat \<Rightarrow> nat option"
  pn_texts :: "nat list"
  pn_terms :: "nat list"
  pn_ctors :: "nat set"
  pn_lets :: "nat \<Rightarrow> nat option"             \<comment> \<open>the body of each \<open>Let\<close>\<close>
  pn_let_of_body :: "nat \<Rightarrow> nat option"

record walk =
  wk_map :: "nat option list"                 \<comment> \<open>\<open>node_map\<close>\<close>
  wk_free :: "bool list"
  wk_open :: "bool list"
  wk_nodes :: "ir_op list"                    \<comment> \<open>the composed nodes\<close>
  wk_consed :: "ir_op \<Rightarrow> nat option"

definition map_at :: "(nat \<Rightarrow> nat option) \<Rightarrow> nat \<Rightarrow> ('e, nat) rust" where
  "map_at m i = (case m i of Some n \<Rightarrow> Ok n | None \<Rightarrow> Panic)"

definition node_at :: "nat option list \<Rightarrow> nat \<Rightarrow> ('e, nat) rust" where
  "node_at nodes i = (case vec_get nodes i of Some (Some n) \<Rightarrow> Ok n | _ \<Rightarrow> Panic)"

definition node_deps :: "part_names \<Rightarrow> ir_op \<Rightarrow> nat list" where
  "node_deps c op =
     op_inputs op @ (case op of OGet r \<Rightarrow> (case pn_lets c r of Some body \<Rightarrow> [body] | None \<Rightarrow> []) | _ \<Rightarrow> [])"

definition source_free :: "part_names \<Rightarrow> walk \<Rightarrow> ir_op \<Rightarrow> ('e, bool) rust" where
  "source_free c w op =
     (case op of
        OGet r \<Rightarrow>
          if r \<in> pn_ctors c then Ok True
          else (case pn_lets c r of None \<Rightarrow> Ok False | Some body \<Rightarrow> vec_index (wk_free w) body)
      | _ \<Rightarrow> rust_bind (map_rust (vec_index (wk_free w)) (op_inputs op)) (\<lambda>fs. Ok (list_all (\<lambda>f. f) fs)))"

definition compose_get :: "part_names \<Rightarrow> walk \<Rightarrow> bool \<Rightarrow> nat \<Rightarrow> ('e, ir_op) rust" where
  "compose_get c w free r =
     rust_bind (map_at (pn_rels c) r) (\<lambda>r1.
       case pn_lets c r of
         Some body \<Rightarrow>
           if free then rust_bind (node_at (wk_map w) body) (\<lambda>b. Ok (OGet (case pn_let_of_body c b of Some r2 \<Rightarrow> r2 | None \<Rightarrow> r1)))
           else Ok (OGet r1)
       | None \<Rightarrow> Ok (OGet r1))"

definition compose_op :: "part_names \<Rightarrow> walk \<Rightarrow> bool \<Rightarrow> ir_op \<Rightarrow> ('e, ir_op) rust" where
  "compose_op c w free op =
     (let n = node_at (wk_map w); one = (\<lambda>i f. rust_bind (n i) (\<lambda>i1. Ok (f i1)))
      in case op of
        OGet r \<Rightarrow> compose_get c w free r
      | OMint i functor args \<Rightarrow> rust_bind (n i) (\<lambda>i1. rust_bind (map_at (pn_rels c) functor) (\<lambda>f1. Ok (OMint i1 f1 args)))
      | OStrCons i mode \<Rightarrow> one i (\<lambda>i1. OStrCons i1 mode)
      | OStr i sop args \<Rightarrow> one i (\<lambda>i1. OStr i1 sop args)
      | OVec i vop args \<Rightarrow> one i (\<lambda>i1. OVec i1 vop args)
      | OMfp i flt mp project \<Rightarrow>
          rust_bind (n i) (\<lambda>i1.
          rust_bind (map_rust (expr_texts (pn_texts c) (pn_terms c)) flt) (\<lambda>flt1.
          rust_bind (map_rust (expr_texts (pn_texts c) (pn_terms c)) mp) (\<lambda>mp1. Ok (OMfp i1 flt1 mp1 project))))
      | OUnion is \<Rightarrow> rust_bind (map_rust n is) (\<lambda>is1. Ok (OUnion is1))
      | ONegate i \<Rightarrow> one i ONegate
      | OJoin is eqs project \<Rightarrow> rust_bind (map_rust n is) (\<lambda>is1. Ok (OJoin is1 eqs project))
      | OAntijoin l r lk rk \<Rightarrow> rust_bind (n l) (\<lambda>l1. rust_bind (n r) (\<lambda>r1. Ok (OAntijoin l1 r1 lk rk)))
      | OReduce i key aggs \<Rightarrow> one i (\<lambda>i1. OReduce i1 key aggs)
      | OThreshold i \<Rightarrow> one i OThreshold
      | OTopK i key order limit \<Rightarrow> one i (\<lambda>i1. OTopK i1 key order limit)
      | OWindow i key order func \<Rightarrow> one i (\<lambda>i1. OWindow i1 key order func)
      | ODelay i \<Rightarrow> one i ODelay)"

text \<open>A node whose dependencies are composed: it is added, or found among the nodes that read no source.\<close>

definition add_node :: "bool \<Rightarrow> ir_op \<Rightarrow> walk \<Rightarrow> nat \<times> walk" where
  "add_node free op w =
     (case (if free then wk_consed w op else None) of
        Some at1 \<Rightarrow> (at1, w)
      | None \<Rightarrow>
          (let at1 = length (wk_nodes w)
           in (at1, w\<lparr>wk_nodes := wk_nodes w @ [op], wk_consed := (if free then (wk_consed w)(op \<mapsto> at1) else wk_consed w)\<rparr>)))"

definition compose_node :: "part_names \<Rightarrow> nat \<Rightarrow> ir_op \<Rightarrow> walk \<Rightarrow> ('e, walk) rust" where
  "compose_node c i op w =
     rust_bind (source_free c w op) (\<lambda>free.
     rust_bind (compose_op c w free op) (\<lambda>op1.
       let (at1, w1) = add_node free op1 w
       in Ok (w1\<lparr>wk_free := (wk_free w)[i := free], wk_open := (wk_open w)[i := False], wk_map := (wk_map w)[i := Some at1]\<rparr>)))"

text \<open>The dependencies that are not composed yet; a node number out of range panics.\<close>

definition open_deps :: "part_names \<Rightarrow> ir_op \<Rightarrow> walk \<Rightarrow> ('e, nat list) rust" where
  "open_deps c op w =
     rust_bind (map_rust (\<lambda>d. rust_bind (vec_index (wk_map w) d) (\<lambda>m. Ok (d, m))) (node_deps c op)) (\<lambda>ds.
       Ok (map fst (filter (\<lambda>(_, m). m = None) ds)))"

definition self_reaching :: "string \<Rightarrow> nat \<Rightarrow> string" where
  "self_reaching prefix i = prefix @ '': node '' @ nat_digits i @ '' reaches itself''"

definition unwalked :: "walk \<Rightarrow> nat set" where
  "unwalked w = {i. i < length (wk_map w) \<and> wk_map w ! i = None \<and> \<not> wk_open w ! i}"

lemma compose_nodeE:
  assumes "compose_node c i op w = (Ok w1 :: ('e, walk) rust)"
  obtains free op1 at1 w2 where "source_free c w op = (Ok free :: ('e, bool) rust)" and "compose_op c w free op = (Ok op1 :: ('e, ir_op) rust)"
    and "add_node free op1 w = (at1, w2)"
    and "w1 = w2\<lparr>wk_free := (wk_free w)[i := free], wk_open := (wk_open w)[i := False], wk_map := (wk_map w)[i := Some at1]\<rparr>"
proof -
  obtain free where f: "source_free c w op = (Ok free :: ('e, bool) rust)" using assms by (auto simp: compose_node_def rust_simps)
  obtain op1 where o: "compose_op c w free op = (Ok op1 :: ('e, ir_op) rust)" using assms f by (auto simp: compose_node_def rust_simps)
  obtain at1 w2 where a: "add_node free op1 w = (at1, w2)" by (cases "add_node free op1 w")
  show thesis using assms f o a by (intro that [OF _ _ a]) (simp_all add: compose_node_def)
qed

lemma compose_node_marks:
  assumes "compose_node c i op w = Ok w1"
  shows "\<exists>k. wk_map w1 = (wk_map w)[i := Some k] \<and> wk_open w1 = (wk_open w)[i := False]"
  using assms by (rule compose_nodeE) auto

lemma compose_node_unwalked:
  assumes "compose_node c i op w = Ok w1"
  shows "unwalked w1 \<subseteq> unwalked w"
proof
  fix x
  assume "x \<in> unwalked w1"
  with compose_node_marks [OF assms] show "x \<in> unwalked w" by (cases "x = i") (auto simp: unwalked_def)
qed

function compose_walk :: "part_names \<Rightarrow> (nat \<times> bool) list \<Rightarrow> walk \<Rightarrow> (string, walk) rust" where
  "compose_walk c [] w = Ok w"
| "compose_walk c ((i, expanded) # stack) w =
     (case vec_get (wk_map w) i of
        None \<Rightarrow> Panic
      | Some (Some _) \<Rightarrow> compose_walk c stack w
      | Some None \<Rightarrow>
          (case vec_get (pr_nodes (pn_part c)) i of
             None \<Rightarrow> Panic
           | Some op \<Rightarrow>
               if expanded then rust_bind (compose_node c i op w) (\<lambda>w1. compose_walk c stack w1)
               else (case vec_get (wk_open w) i of
                       None \<Rightarrow> Panic
                     | Some True \<Rightarrow> Err (self_reaching (pn_prefix c) i)
                     | Some False \<Rightarrow>
                         rust_bind (open_deps c op w) (\<lambda>deps.
                           compose_walk c (map (\<lambda>d. (d, False)) deps @ (i, True) # stack) (w\<lparr>wk_open := (wk_open w)[i := True]\<rparr>)))))"
  by pat_completeness auto
termination
proof (relation "measures [\<lambda>(c, stack, w). card (unwalked w), \<lambda>(c, stack, w). length stack]")
  fix c i stack and w w1 :: walk and op and expanded :: bool
  assume "compose_node c i op w = (Ok w1 :: (string, walk) rust)"
  then have "card (unwalked w1) \<le> card (unwalked w)"
    by (intro card_mono compose_node_unwalked) (simp_all add: unwalked_def)
  then show "((c, stack, w1), c, (i, expanded) # stack, w) \<in> measures [\<lambda>(c, stack, w). card (unwalked w), \<lambda>(c, stack, w). length stack]"
    by auto
next
  fix c :: part_names and i stack and w :: walk and deps :: "nat list" and expanded b :: bool and m :: "nat option"
  assume "vec_get (wk_map w) i = Some m" "m = None" "vec_get (wk_open w) i = Some b" "b = False"
  then have "unwalked (w\<lparr>wk_open := (wk_open w)[i := True]\<rparr>) \<subset> unwalked w"
    by (auto simp: unwalked_def nth_list_update split: if_splits)
  then have "card (unwalked (w\<lparr>wk_open := (wk_open w)[i := True]\<rparr>)) < card (unwalked w)"
    by (rule psubset_card_mono [rotated]) (simp add: unwalked_def)
  then show "((c, map (\<lambda>d. (d, False)) deps @ (i, True) # stack, w\<lparr>wk_open := (wk_open w)[i := True]\<rparr>), c, (i, expanded) # stack, w)
      \<in> measures [\<lambda>(c, stack, w). card (unwalked w), \<lambda>(c, stack, w). length stack]"
    by simp
qed auto

fun walk_roots :: "part_names \<Rightarrow> nat list \<Rightarrow> walk \<Rightarrow> (string, walk) rust" where
  "walk_roots c [] w = Ok w"
| "walk_roots c (i # is) w = rust_bind (compose_walk c [(i, False)] w) (walk_roots c is)"

subsection \<open>Relations, texts and terms of a part\<close>

record composing =
  cp_rels :: "ir_relation list"               \<comment> \<open>of the composed program\<close>
  cp_texts :: "string list"
  cp_terms :: "term_lit list"
  cp_nodes :: "ir_op list"
  cp_strata :: "stratum list"
  cp_outputs :: "nat list"
  cp_constructors :: "string \<Rightarrow> (nat \<times> ty list) option"
  cp_text_ids :: "string \<Rightarrow> nat option"
  cp_term_ids :: "term_lit \<Rightarrow> nat option"
  cp_consed :: "ir_op \<Rightarrow> nat option"
  cp_let_of_body :: "nat \<Rightarrow> nat option"
  cp_next :: nat

definition compose_start :: composing where
  "compose_start = \<lparr>cp_rels = [], cp_texts = [], cp_terms = [], cp_nodes = [], cp_strata = [], cp_outputs = [],
     cp_constructors = Map.empty, cp_text_ids = Map.empty, cp_term_ids = Map.empty, cp_consed = Map.empty,
     cp_let_of_body = Map.empty, cp_next = 0\<rparr>"

definition two_column_lists :: "string \<Rightarrow> string" where
  "two_column_lists name = ''constructor '' @ name @ '' declared with two column lists''"

definition new_rel :: "string \<Rightarrow> ir_relation \<Rightarrow> composing \<Rightarrow> composing" where
  "new_rel name rel cp = cp\<lparr>cp_next := cp_next cp + 1, cp_rels := cp_rels cp @ [rel\<lparr>ir_id := cp_next cp, ir_name := name\<rparr>]\<rparr>"

definition compose_rel :: "string \<Rightarrow> ir_relation \<Rightarrow> composing \<Rightarrow> (string, nat \<times> composing) rust" where
  "compose_rel prefix rel cp =
     (if ir_kind rel = KConstructor then
        (case cp_constructors cp (ir_name rel) of
           Some (n, cols) \<Rightarrow> if cols = ir_cols rel then Ok (n, cp) else Err (two_column_lists (ir_name rel))
         | None \<Rightarrow>
             Ok (cp_next cp, new_rel (ir_name rel) rel (cp\<lparr>cp_constructors := (cp_constructors cp)(ir_name rel \<mapsto> (cp_next cp, ir_cols rel))\<rparr>)))
      else Ok (cp_next cp, new_rel (prefix @ ir_name rel) rel cp))"

fun compose_rels :: "string \<Rightarrow> ir_relation list \<Rightarrow> (nat \<Rightarrow> nat option) \<Rightarrow> composing \<Rightarrow> (string, (nat \<Rightarrow> nat option) \<times> composing) rust" where
  "compose_rels prefix [] m cp = Ok (m, cp)"
| "compose_rels prefix (rel # rels) m cp =
     rust_bind (compose_rel prefix rel cp) (\<lambda>(n, cp1). compose_rels prefix rels (m(ir_id rel \<mapsto> n)) cp1)"

fun compose_texts :: "string list \<Rightarrow> composing \<Rightarrow> nat list \<times> composing" where
  "compose_texts [] cp = ([], cp)"
| "compose_texts (s # ss) cp =
     (let (n, cp1) = (case cp_text_ids cp s of
                        Some n \<Rightarrow> (n, cp)
                      | None \<Rightarrow> (length (cp_texts cp), cp\<lparr>cp_texts := cp_texts cp @ [s], cp_text_ids := (cp_text_ids cp)(s \<mapsto> length (cp_texts cp))\<rparr>));
          (ns, cp2) = compose_texts ss cp1
      in (n # ns, cp2))"

definition compose_arg :: "nat list \<Rightarrow> nat list \<Rightarrow> term_arg \<Rightarrow> ('e, term_arg) rust" where
  "compose_arg texts terms a =
     (case a of
        TaTerm k \<Rightarrow> rust_bind (vec_index terms k) (\<lambda>n. Ok (TaTerm n))
      | TaText k \<Rightarrow> rust_bind (vec_index texts k) (\<lambda>n. Ok (TaText n))
      | TaRaw c \<Rightarrow> Ok (TaRaw c))"

definition compose_lit :: "(nat \<Rightarrow> nat option) \<Rightarrow> nat list \<Rightarrow> nat list \<Rightarrow> term_lit \<Rightarrow> ('e, term_lit) rust" where
  "compose_lit rels texts terms lit =
     rust_bind (map_at rels (lit_functor lit)) (\<lambda>f.
     rust_bind (map_rust (compose_arg texts terms) (lit_args lit)) (\<lambda>args. Ok \<lparr>lit_functor = f, lit_args = args\<rparr>))"

fun compose_terms :: "(nat \<Rightarrow> nat option) \<Rightarrow> nat list \<Rightarrow> term_lit list \<Rightarrow> nat list \<Rightarrow> composing \<Rightarrow> ('e, nat list \<times> composing) rust" where
  "compose_terms rels texts [] terms cp = Ok (terms, cp)"
| "compose_terms rels texts (t # ts) terms cp =
     rust_bind (compose_lit rels texts terms t) (\<lambda>lit.
       let (n, cp1) = (case cp_term_ids cp lit of
                         Some n \<Rightarrow> (n, cp)
                       | None \<Rightarrow> (length (cp_terms cp), cp\<lparr>cp_terms := cp_terms cp @ [lit], cp_term_ids := (cp_term_ids cp)(lit \<mapsto> length (cp_terms cp))\<rparr>))
       in compose_terms rels texts ts (terms @ [n]) cp1)"

subsection \<open>Strata\<close>

definition letrec_level :: "(nat \<Rightarrow> ('e, nat) rust) \<Rightarrow> (nat \<Rightarrow> ('e, nat) rust) \<Rightarrow> let_rec \<Rightarrow> ('e, let_rec) rust" where
  "letrec_level rel node rec =
     rust_bind (map_rust rel (rec_ids rec)) (\<lambda>ids. rust_bind (map_rust node (rec_bodies rec)) (\<lambda>bodies.
       Ok (LetRec ids bodies (rec_limit rec) [])))"

definition compose_letrec :: "(nat \<Rightarrow> ('e, nat) rust) \<Rightarrow> (nat \<Rightarrow> ('e, nat) rust) \<Rightarrow> let_rec \<Rightarrow> ('e, let_rec) rust" where
  "compose_letrec rel node rec =
     rust_bind (letrec_level rel node rec) (\<lambda>outer. rust_bind (map_rust (letrec_level rel node) (rec_nested rec)) (\<lambda>inner.
       Ok (LetRec (rec_ids outer) (rec_bodies outer) (rec_limit outer) inner)))"

fun compose_strata :: "part_names \<Rightarrow> walk \<Rightarrow> stratum list \<Rightarrow> composing \<Rightarrow> ('e, composing) rust" where
  "compose_strata c w [] cp = Ok cp"
| "compose_strata c w (SLet r body # strata) cp =
     rust_bind (vec_index (wk_free w) body) (\<lambda>free.
     rust_bind (node_at (wk_map w) body) (\<lambda>b. rust_bind (map_at (pn_rels c) r) (\<lambda>r1.
       compose_strata c w strata
         (cp\<lparr>cp_let_of_body := (if free \<and> cp_let_of_body cp b = None then (cp_let_of_body cp)(b \<mapsto> r1) else cp_let_of_body cp),
             cp_strata := cp_strata cp @ [SLet r1 b]\<rparr>))))"
| "compose_strata c w (SLetRec rec # strata) cp =
     rust_bind (compose_letrec (map_at (pn_rels c)) (node_at (wk_map w)) rec) (\<lambda>rec1.
       compose_strata c w strata (cp\<lparr>cp_strata := cp_strata cp @ [SLetRec rec1]\<rparr>))"

subsection \<open>Parts\<close>

definition let_bodies :: "stratum list \<Rightarrow> nat \<Rightarrow> nat option" where
  "let_bodies strata = fold (\<lambda>s m. case s of SLet r body \<Rightarrow> m(r \<mapsto> body) | SLetRec _ \<Rightarrow> m) strata Map.empty"

definition walk_start :: "ir_program \<Rightarrow> composing \<Rightarrow> walk" where
  "walk_start part cp = \<lparr>wk_map = replicate (length (pr_nodes part)) None, wk_free = replicate (length (pr_nodes part)) False,
     wk_open = replicate (length (pr_nodes part)) False, wk_nodes = cp_nodes cp, wk_consed = cp_consed cp\<rparr>"

definition part_context :: "string \<Rightarrow> ir_program \<Rightarrow> (nat \<Rightarrow> nat option) \<Rightarrow> nat list \<Rightarrow> nat list \<Rightarrow> composing \<Rightarrow> part_names" where
  "part_context prefix part rels texts terms cp =
     \<lparr>pn_prefix = prefix, pn_part = part, pn_rels = rels, pn_texts = texts, pn_terms = terms,
      pn_ctors = ir_id ` set (filter (\<lambda>r. ir_kind r = KConstructor) (pr_rels part)),
      pn_lets = let_bodies (pr_strata part), pn_let_of_body = cp_let_of_body cp\<rparr>"

definition compose_part :: "string \<Rightarrow> ir_program \<Rightarrow> composing \<Rightarrow> (string, (nat \<Rightarrow> nat option) \<times> composing) rust" where
  "compose_part prefix part cp =
     rust_bind (compose_rels prefix (pr_rels part) Map.empty cp) (\<lambda>(rels, cp1).
       let (texts, cp2) = compose_texts (pr_texts part) cp1
       in rust_bind (compose_terms rels texts (pr_terms part) [] cp2) (\<lambda>(terms, cp3).
          let c = part_context prefix part rels texts terms cp3
          in rust_bind (walk_roots c [0..<length (pr_nodes part)] (walk_start part cp3)) (\<lambda>w.
             rust_bind (compose_strata c w (pr_strata part) (cp3\<lparr>cp_nodes := wk_nodes w, cp_consed := wk_consed w\<rparr>)) (\<lambda>cp4.
             rust_bind (map_rust (map_at rels) (pr_outputs part)) (\<lambda>outs.
               Ok (rels, cp4\<lparr>cp_outputs := cp_outputs cp4 @ outs\<rparr>))))))"

fun compose_parts :: "(string \<times> ir_program) list \<Rightarrow> (nat \<Rightarrow> nat option) list \<Rightarrow> composing \<Rightarrow> (string, (nat \<Rightarrow> nat option) list \<times> composing) rust" where
  "compose_parts [] maps cp = Ok (maps, cp)"
| "compose_parts ((prefix, part) # parts) maps cp =
     rust_bind (compose_part prefix part cp) (\<lambda>(m, cp1). compose_parts parts (maps @ [m]) cp1)"

definition composed_program :: "composing \<Rightarrow> ir_program" where
  "composed_program cp = \<lparr>pr_texts = cp_texts cp, pr_terms = cp_terms cp, pr_rels = cp_rels cp, pr_nodes = cp_nodes cp,
     pr_strata = cp_strata cp, pr_outputs = cp_outputs cp\<rparr>"

definition compose :: "(string \<times> ir_program) list \<Rightarrow> (string, ir_program \<times> (nat \<Rightarrow> nat option) list) rust" where
  "compose parts = rust_bind (compose_parts parts [] compose_start) (\<lambda>(maps, cp). Ok (composed_program cp, maps))"

end
