(* ===== verification/Ir_Compose_Laws.thy ===== *)
theory Ir_Compose_Laws
  imports Ir_Compose
begin

text \<open>
  What a composition means. A model of a program assigns a value to every node and relation, for an
  arbitrary semantics of operators over resolved constants (texts as texts, literals as terms) and of
  recursive strata. The composition of programs keeps the maps it works with consistent and only ever
  appends, so a model of the composed program, read through the renamings, is a model of every part.
\<close>

subsection \<open>Expressions, structurally\<close>

fun expr_renamed :: "nat list \<Rightarrow> nat list \<Rightarrow> expr \<Rightarrow> ('e, expr) rust" where
  "expr_renamed texts terms (ECol c) = Ok (ECol c)"
| "expr_renamed texts terms (ELit v) = Ok (ELit v)"
| "expr_renamed texts terms (EText k) = rust_bind (vec_index texts k) (\<lambda>n. Ok (EText n))"
| "expr_renamed texts terms (ETerm k) = rust_bind (vec_index terms k) (\<lambda>n. Ok (ETerm n))"
| "expr_renamed texts terms (ECall f args) = rust_bind (map_rust (expr_renamed texts terms) args) (\<lambda>args1. Ok (ECall f args1))"

lemma texts_loop_enters:
  assumes "\<And>e steps built. e \<in> set args \<Longrightarrow> (texts_loop texts terms (TEnter e # steps) built :: ('e, _) rust) =
    rust_bind (expr_renamed texts terms e) (\<lambda>e1. texts_loop texts terms steps (built @ [e1]))"
  shows "(texts_loop texts terms (map TEnter args @ steps) built :: ('e, _) rust) =
    rust_bind (map_rust (expr_renamed texts terms) args) (\<lambda>es. texts_loop texts terms steps (built @ es))"
  using assms
proof (induction args arbitrary: built)
  case (Cons a args)
  have "(texts_loop texts terms (map TEnter (a # args) @ steps) built :: ('e, _) rust) =
      rust_bind (expr_renamed texts terms a) (\<lambda>e1. texts_loop texts terms (map TEnter args @ steps) (built @ [e1]))"
    using Cons.prems [of a] by (simp del: texts_loop.simps)
  also have "\<dots> = rust_bind (expr_renamed texts terms a) (\<lambda>e1. rust_bind (map_rust (expr_renamed texts terms) args) (\<lambda>es. texts_loop texts terms steps (built @ e1 # es)))"
    using Cons.IH Cons.prems by (simp del: texts_loop.simps)
  finally show ?case by (simp add: rust_bind_assoc del: texts_loop.simps)
qed simp

lemma texts_loop_enter:
  "(texts_loop texts terms (TEnter e # steps) built :: ('e, _) rust) =
   rust_bind (expr_renamed texts terms e) (\<lambda>e1. texts_loop texts terms steps (built @ [e1]))"
proof (induction e arbitrary: steps built)
  case (ECall f args)
  have run: "(texts_loop texts terms (map TEnter args @ TBuild f (length args) # steps) built :: ('e, _) rust) =
      rust_bind (map_rust (expr_renamed texts terms) args) (\<lambda>es. texts_loop texts terms (TBuild f (length args) # steps) (built @ es))"
    by (rule texts_loop_enters) (rule ECall.IH)
  show ?case
  proof (cases "map_rust (expr_renamed texts terms) args :: ('e, expr list) rust")
    case (Ok es)
    then have "length es = length args" by (rule map_rust_length)
    with Ok run show ?thesis by simp
  qed (use run in simp_all)
qed (auto simp: vec_index_def)

lemma expr_texts_structural: "(expr_texts texts terms e :: ('e, _) rust) = expr_renamed texts terms e"
  by (cases "expr_renamed texts terms e :: ('e, expr) rust") (simp_all add: expr_texts_def texts_loop_enter del: texts_loop.simps(2))

subsection \<open>Resolved operators\<close>

datatype 'f const_term = ConstTerm 'f "'f const_arg list"
and 'f const_arg = CaTerm "'f const_term" | CaText string | CaRaw i64

datatype 'f const_expr = CCol nat | CLit i64 | CText string | CTerm "'f const_term" | CCall func "'f const_expr list"

datatype 'f const_op =
    CMint 'f "nat list" | CStrCons str_mode | CStr str_op "nat list" | CVec vec_op "nat list"
  | CMfp "'f const_expr list" "'f const_expr list" "nat list" | CUnion | CNegate
  | CJoin "(nat \<times> nat) list list" "nat list" | CAntijoin "nat list" "nat list" | CReduce "nat list" "agg list"
  | CThreshold | CTopK "nat list" "order_by list" nat | CWindow "nat list" "order_by list" win_fn | CDelay

fun resolve_arg :: "string list \<Rightarrow> 'f const_term list \<Rightarrow> term_arg \<Rightarrow> 'f const_arg" where
  "resolve_arg texts terms (TaTerm k) = CaTerm (terms ! k)"
| "resolve_arg texts terms (TaText k) = CaText (texts ! k)"
| "resolve_arg texts terms (TaRaw c) = CaRaw c"

definition resolve_lit :: "(nat \<Rightarrow> 'f) \<Rightarrow> string list \<Rightarrow> 'f const_term list \<Rightarrow> term_lit \<Rightarrow> 'f const_term" where
  "resolve_lit phi texts terms lit = ConstTerm (phi (lit_functor lit)) (map (resolve_arg texts terms) (lit_args lit))"

definition resolve_terms :: "(nat \<Rightarrow> 'f) \<Rightarrow> string list \<Rightarrow> term_lit list \<Rightarrow> 'f const_term list \<Rightarrow> 'f const_term list" where
  "resolve_terms phi texts lits terms = fold (\<lambda>lit ts. ts @ [resolve_lit phi texts ts lit]) lits terms"

fun resolve_expr :: "string list \<Rightarrow> 'f const_term list \<Rightarrow> expr \<Rightarrow> 'f const_expr" where
  "resolve_expr texts terms (ECol c) = CCol c"
| "resolve_expr texts terms (ELit v) = CLit v"
| "resolve_expr texts terms (EText k) = CText (texts ! k)"
| "resolve_expr texts terms (ETerm k) = CTerm (terms ! k)"
| "resolve_expr texts terms (ECall f args) = CCall f (map (resolve_expr texts terms) args)"

text \<open>An operator without its inputs; reading a relation is not one of them.\<close>

fun resolve_op :: "(nat \<Rightarrow> 'f) \<Rightarrow> string list \<Rightarrow> 'f const_term list \<Rightarrow> ir_op \<Rightarrow> 'f const_op" where
  "resolve_op phi texts terms (OMint _ f args) = CMint (phi f) args"
| "resolve_op phi texts terms (OStrCons _ mode) = CStrCons mode"
| "resolve_op phi texts terms (OStr _ sop args) = CStr sop args"
| "resolve_op phi texts terms (OVec _ vop args) = CVec vop args"
| "resolve_op phi texts terms (OMfp _ flt mp project) = CMfp (map (resolve_expr texts terms) flt) (map (resolve_expr texts terms) mp) project"
| "resolve_op phi texts terms (OUnion _) = CUnion"
| "resolve_op phi texts terms (ONegate _) = CNegate"
| "resolve_op phi texts terms (OJoin _ eqs project) = CJoin eqs project"
| "resolve_op phi texts terms (OAntijoin _ _ lk rk) = CAntijoin lk rk"
| "resolve_op phi texts terms (OReduce _ key aggs) = CReduce key aggs"
| "resolve_op phi texts terms (OThreshold _) = CThreshold"
| "resolve_op phi texts terms (OTopK _ key order limit) = CTopK key order limit"
| "resolve_op phi texts terms (OWindow _ key order func) = CWindow key order func"
| "resolve_op phi texts terms (ODelay _) = CDelay"
| "resolve_op phi texts terms (OGet _) = CUnion"

subsection \<open>Models\<close>

text \<open>
  The semantics: of operators, and of a recursive stratum, as a condition on its limit, the values of its
  relations and of its bodies, and the same of each nested level.
\<close>

type_synonym 'v rec_level = "nat option \<times> 'v list \<times> 'v list"

record ('f, 'v) semantics =
  se_op :: "'f const_op \<Rightarrow> 'v list \<Rightarrow> 'v"
  se_rec :: "'v rec_level \<Rightarrow> 'v rec_level list \<Rightarrow> bool"

definition program_terms :: "(nat \<Rightarrow> 'f) \<Rightarrow> ir_program \<Rightarrow> 'f const_term list" where
  "program_terms phi p = resolve_terms phi (pr_texts p) (pr_terms p) []"

definition op_value :: "('f, 'v) semantics \<Rightarrow> (nat \<Rightarrow> 'f) \<Rightarrow> ir_program \<Rightarrow> (nat \<Rightarrow> 'v) \<Rightarrow> (nat \<Rightarrow> 'v) \<Rightarrow> ir_op \<Rightarrow> 'v" where
  "op_value se phi p rho val op =
     (case op of OGet r \<Rightarrow> rho r | _ \<Rightarrow> se_op se (resolve_op phi (pr_texts p) (program_terms phi p) op) (map val (op_inputs op)))"

definition rec_level :: "(nat \<Rightarrow> 'v) \<Rightarrow> (nat \<Rightarrow> 'v) \<Rightarrow> let_rec \<Rightarrow> 'v rec_level" where
  "rec_level rho val rec = (rec_limit rec, map rho (rec_ids rec), map val (rec_bodies rec))"

definition stratum_holds :: "('f, 'v) semantics \<Rightarrow> (nat \<Rightarrow> 'v) \<Rightarrow> (nat \<Rightarrow> 'v) \<Rightarrow> stratum \<Rightarrow> bool" where
  "stratum_holds se rho val s =
     (case s of SLet r body \<Rightarrow> rho r = val body | SLetRec rec \<Rightarrow> se_rec se (rec_level rho val rec) (map (rec_level rho val) (rec_nested rec)))"

definition is_model :: "('f, 'v) semantics \<Rightarrow> (nat \<Rightarrow> 'f) \<Rightarrow> ir_program \<Rightarrow> (nat \<Rightarrow> 'v) \<Rightarrow> (nat \<Rightarrow> 'v) \<Rightarrow> bool" where
  "is_model se phi p rho val \<longleftrightarrow>
     (\<forall>i < length (pr_nodes p). val i = op_value se phi p rho val (pr_nodes p ! i)) \<and> (\<forall>s \<in> set (pr_strata p). stratum_holds se rho val s)"

subsection \<open>Lists that only grow\<close>

definition grown :: "'a list \<Rightarrow> 'a list \<Rightarrow> bool" where
  "grown xs ys \<longleftrightarrow> (\<exists>zs. ys = xs @ zs)"

lemma grown_refl [simp]: "grown xs xs" and grown_append [simp]: "grown xs (xs @ zs)"
  by (simp_all add: grown_def)

lemma grown_trans: "grown xs ys \<Longrightarrow> grown ys zs \<Longrightarrow> grown xs zs"
  by (auto simp: grown_def)

lemma grown_nth: "grown xs ys \<Longrightarrow> i < length xs \<Longrightarrow> i < length ys \<and> ys ! i = xs ! i"
  by (auto simp: grown_def nth_append)

lemma grown_set: "grown xs ys \<Longrightarrow> x \<in> set xs \<Longrightarrow> x \<in> set ys"
  by (auto simp: grown_def)

definition cp_grown :: "composing \<Rightarrow> composing \<Rightarrow> bool" where
  "cp_grown cp cp1 \<longleftrightarrow> grown (cp_rels cp) (cp_rels cp1) \<and> grown (cp_texts cp) (cp_texts cp1) \<and> grown (cp_terms cp) (cp_terms cp1) \<and>
     grown (cp_nodes cp) (cp_nodes cp1) \<and> grown (cp_strata cp) (cp_strata cp1) \<and> grown (cp_outputs cp) (cp_outputs cp1)"

lemma cp_grown_refl [simp]: "cp_grown cp cp"
  by (simp add: cp_grown_def)

lemma cp_grown_trans: "cp_grown cp cp1 \<Longrightarrow> cp_grown cp1 cp2 \<Longrightarrow> cp_grown cp cp2"
  unfolding cp_grown_def by (blast intro: grown_trans)

text \<open>The maps the composition keeps point at what they are maps of.\<close>

definition rels_inv :: "composing \<Rightarrow> bool" where
  "rels_inv cp \<longleftrightarrow> cp_next cp = length (cp_rels cp) \<and> (\<forall>i < length (cp_rels cp). ir_id (cp_rels cp ! i) = i) \<and>
     (\<forall>name n cols. cp_constructors cp name = Some (n, cols) \<longleftrightarrow>
        n < length (cp_rels cp) \<and> cp_rels cp ! n = \<lparr>ir_id = n, ir_name = name, ir_cols = cols, ir_kind = KConstructor\<rparr>)"

definition ids_inv :: "composing \<Rightarrow> bool" where
  "ids_inv cp \<longleftrightarrow>
     (\<forall>s n. cp_text_ids cp s = Some n \<longrightarrow> n < length (cp_texts cp) \<and> cp_texts cp ! n = s) \<and>
     (\<forall>t n. cp_term_ids cp t = Some n \<longrightarrow> n < length (cp_terms cp) \<and> cp_terms cp ! n = t) \<and>
     (\<forall>n < length (cp_terms cp). \<forall>j. TaTerm j \<in> set (lit_args (cp_terms cp ! n)) \<longrightarrow> j < n) \<and>
     (\<forall>op n. cp_consed cp op = Some n \<longrightarrow> n < length (cp_nodes cp) \<and> cp_nodes cp ! n = op) \<and>
     (\<forall>b r. cp_let_of_body cp b = Some r \<longrightarrow> SLet r b \<in> set (cp_strata cp))"

subsection \<open>Relations\<close>

text \<open>What the composed program keeps of a relation.\<close>

definition rel_kept :: "string \<Rightarrow> (nat \<Rightarrow> nat option) \<Rightarrow> ir_relation list \<Rightarrow> ir_relation \<Rightarrow> bool" where
  "rel_kept prefix m rels rel \<longleftrightarrow> (\<exists>n. m (ir_id rel) = Some n \<and> n < length rels \<and>
     rels ! n = rel\<lparr>ir_id := n, ir_name := (if ir_kind rel = KConstructor then ir_name rel else prefix @ ir_name rel)\<rparr>)"

lemma rels_inv_push:
  assumes inv: "rels_inv cp" and ctor: "ir_kind rel = KConstructor \<Longrightarrow> cp_constructors cp name = None"
  shows "rels_inv (new_rel name rel (cp\<lparr>cp_constructors :=
    (if ir_kind rel = KConstructor then (cp_constructors cp)(name \<mapsto> (cp_next cp, ir_cols rel)) else cp_constructors cp)\<rparr>))"
proof -
  let ?N = "length (cp_rels cp)"
  let ?new = "rel\<lparr>ir_id := ?N, ir_name := name\<rparr>"
  define cs where "cs = (if ir_kind rel = KConstructor then (cp_constructors cp)(name \<mapsto> (?N, ir_cols rel)) else cp_constructors cp)"
  have nxt: "cp_next cp = ?N" and ids: "\<forall>i < ?N. ir_id (cp_rels cp ! i) = i"
    and cons: "cp_constructors cp nm = Some (n, cols) \<longleftrightarrow> n < ?N \<and> cp_rels cp ! n = \<lparr>ir_id = n, ir_name = nm, ir_cols = cols, ir_kind = KConstructor\<rparr>" for nm n cols
    using inv by (auto simp: rels_inv_def)
  have "cs nm = Some (n, cols) \<longleftrightarrow> n < Suc ?N \<and> (cp_rels cp @ [?new]) ! n = \<lparr>ir_id = n, ir_name = nm, ir_cols = cols, ir_kind = KConstructor\<rparr>" for nm n cols
  proof (cases "n = ?N")
    case True
    have "cp_constructors cp nm \<noteq> Some (?N, cols)" using cons [of nm ?N cols] by simp
    with True show ?thesis by (cases rel) (auto simp: cs_def nth_append)
  next
    case False
    have "cs nm = Some (n, cols) \<longleftrightarrow> cp_constructors cp nm = Some (n, cols)" using False ctor by (auto simp: cs_def)
    with False cons [of nm n cols] show ?thesis by (simp add: nth_append less_Suc_eq)
  qed
  note cs = this
  have "new_rel name rel (cp\<lparr>cp_constructors :=
      (if ir_kind rel = KConstructor then (cp_constructors cp)(name \<mapsto> (cp_next cp, ir_cols rel)) else cp_constructors cp)\<rparr>) =
    cp\<lparr>cp_constructors := cs, cp_next := Suc ?N, cp_rels := cp_rels cp @ [?new]\<rparr>"
    by (simp add: new_rel_def nxt cs_def)
  moreover have "ir_id ((cp_rels cp @ [?new]) ! i) = i" if "i < Suc ?N" for i
    using that ids by (auto simp: nth_append less_Suc_eq)
  ultimately show ?thesis using cs by (simp add: rels_inv_def)
qed

lemma compose_rel_ok:
  assumes run: "compose_rel prefix rel cp = Ok (n, cp1)" and inv: "rels_inv cp"
  shows "rels_inv cp1 \<and> rel_kept prefix [ir_id rel \<mapsto> n] (cp_rels cp1) rel \<and>
    cp1 = cp\<lparr>cp_next := cp_next cp1, cp_rels := cp_rels cp1, cp_constructors := cp_constructors cp1\<rparr> \<and> grown (cp_rels cp) (cp_rels cp1)"
proof (cases "ir_kind rel = KConstructor \<and> cp_constructors cp (ir_name rel) \<noteq> None")
  case True
  then obtain k cols where c: "cp_constructors cp (ir_name rel) = Some (k, cols)" by auto
  with run True have "cols = ir_cols rel" "n = k" "cp1 = cp" by (auto simp: compose_rel_def split: if_splits)
  with c True inv show ?thesis by (auto simp: rels_inv_def rel_kept_def)
next
  case False
  let ?name = "if ir_kind rel = KConstructor then ir_name rel else prefix @ ir_name rel"
  have "n = cp_next cp \<and> cp1 = new_rel ?name rel (cp\<lparr>cp_constructors :=
      (if ir_kind rel = KConstructor then (cp_constructors cp)(?name \<mapsto> (cp_next cp, ir_cols rel)) else cp_constructors cp)\<rparr>)"
    using run False by (cases "cp_constructors cp (ir_name rel)") (auto simp: compose_rel_def)
  moreover have "cp_next cp = length (cp_rels cp)" using inv by (simp add: rels_inv_def)
  moreover have "ir_kind rel = KConstructor \<Longrightarrow> cp_constructors cp ?name = None" using False by (cases "cp_constructors cp ?name") auto
  ultimately show ?thesis
    using rels_inv_push [OF inv, of rel ?name] by (auto simp: rel_kept_def new_rel_def)
qed

lemma rel_kept_mono: "rel_kept prefix m rels rel \<Longrightarrow> grown rels rels1 \<Longrightarrow> rel_kept prefix m rels1 rel"
  unfolding rel_kept_def by (metis grown_nth)

lemma compose_rels_ok:
  assumes "compose_rels prefix rels m cp = Ok (m1, cp1)" and "rels_inv cp"
  shows "rels_inv cp1 \<and> cp1 = cp\<lparr>cp_next := cp_next cp1, cp_rels := cp_rels cp1, cp_constructors := cp_constructors cp1\<rparr> \<and>
    grown (cp_rels cp) (cp_rels cp1) \<and> (\<forall>i. i \<notin> ir_id ` set rels \<longrightarrow> m1 i = m i) \<and>
    (distinct (map ir_id rels) \<longrightarrow> (\<forall>rel \<in> set rels. rel_kept prefix m1 (cp_rels cp1) rel))"
  using assms
proof (induction prefix rels m cp rule: compose_rels.induct)
  case (2 prefix rel rels m cp)
  from "2.prems"(1) obtain n cp2 where step: "compose_rel prefix rel cp = Ok (n, cp2)"
    and rest: "compose_rels prefix rels (m(ir_id rel \<mapsto> n)) cp2 = Ok (m1, cp1)"
    by (auto simp: rust_simps)
  note one = compose_rel_ok [OF step "2.prems"(2)]
  note ih = "2.IH" [OF step refl rest]
  have ih: "rels_inv cp1" "cp1 = cp2\<lparr>cp_next := cp_next cp1, cp_rels := cp_rels cp1, cp_constructors := cp_constructors cp1\<rparr>"
      "grown (cp_rels cp2) (cp_rels cp1)" "\<forall>i. i \<notin> ir_id ` set rels \<longrightarrow> m1 i = (m(ir_id rel \<mapsto> n)) i"
      "distinct (map ir_id rels) \<longrightarrow> (\<forall>rel \<in> set rels. rel_kept prefix m1 (cp_rels cp1) rel)"
    using ih one by blast+
  have "cp1 = cp\<lparr>cp_next := cp_next cp1, cp_rels := cp_rels cp1, cp_constructors := cp_constructors cp1\<rparr>"
    using ih(2) one by (cases cp; cases cp1; cases cp2) simp
  moreover have "rel_kept prefix m1 (cp_rels cp1) rel" if "distinct (map ir_id (rel # rels))"
  proof -
    have "m1 (ir_id rel) = Some n" using that ih(4) by auto
    then show ?thesis using one rel_kept_mono [OF _ ih(3), of prefix "[ir_id rel \<mapsto> n]" rel] by (simp add: rel_kept_def)
  qed
  ultimately show ?case using ih one grown_trans by auto
qed simp

subsection \<open>Texts and terms\<close>

lemma compose_texts_ok:
  "compose_texts ss cp = (ns, cp1) \<Longrightarrow> ids_inv cp \<Longrightarrow>
   ids_inv cp1 \<and> cp1 = cp\<lparr>cp_texts := cp_texts cp1, cp_text_ids := cp_text_ids cp1\<rparr> \<and> grown (cp_texts cp) (cp_texts cp1) \<and>
   length ns = length ss \<and> (\<forall>k < length ss. ns ! k < length (cp_texts cp1) \<and> cp_texts cp1 ! (ns ! k) = ss ! k)"
proof (induction ss arbitrary: cp ns)
  case (Cons s ss)
  obtain n cp2 where one: "(case cp_text_ids cp s of Some n \<Rightarrow> (n, cp)
      | None \<Rightarrow> (length (cp_texts cp), cp\<lparr>cp_texts := cp_texts cp @ [s], cp_text_ids := (cp_text_ids cp)(s \<mapsto> length (cp_texts cp))\<rparr>)) = (n, cp2)"
    by (meson surj_pair)
  obtain ns2 where rest: "compose_texts ss cp2 = (ns2, cp1)" and eq: "ns = n # ns2"
    using Cons.prems(1) one by (cases "compose_texts ss cp2") (auto simp: Let_def)
  have n: "n < length (cp_texts cp2)" "cp_texts cp2 ! n = s" and inv2: "ids_inv cp2"
    and cp2: "cp2 = cp\<lparr>cp_texts := cp_texts cp2, cp_text_ids := cp_text_ids cp2\<rparr>" and g: "grown (cp_texts cp) (cp_texts cp2)"
    using one Cons.prems(2) by (auto simp: ids_inv_def nth_append less_Suc_eq split: option.splits if_splits)
  note ih = Cons.IH [OF rest inv2]
  have "cp1 = cp\<lparr>cp_texts := cp_texts cp1, cp_text_ids := cp_text_ids cp1\<rparr>"
    using ih cp2 by (cases cp; cases cp2; cases cp1) simp
  moreover have "n < length (cp_texts cp1) \<and> cp_texts cp1 ! n = s" using n ih grown_nth by metis
  ultimately show ?case using ih g eq grown_trans by (auto simp: nth_Cons' less_Suc_eq_0_disj)
qed simp

lemma compose_lit_args:
  "(compose_lit rels texts terms t :: ('e, _) rust) = Ok lit \<Longrightarrow>
   rels (lit_functor t) = Some (lit_functor lit) \<and> list_all2 (\<lambda>a b. (compose_arg texts terms a :: ('e, _) rust) = Ok b) (lit_args t) (lit_args lit)"
  by (auto simp: compose_lit_def rust_simps map_at_def split: option.splits dest!: map_rust_OkD)

lemma compose_terms_ok:
  "(compose_terms rels texts ts terms cp :: ('e, _) rust) = Ok (terms1, cp1) \<Longrightarrow> ids_inv cp \<Longrightarrow> \<forall>x \<in> set terms. x < length (cp_terms cp) \<Longrightarrow>
   ids_inv cp1 \<and> cp1 = cp\<lparr>cp_terms := cp_terms cp1, cp_term_ids := cp_term_ids cp1\<rparr> \<and> grown (cp_terms cp) (cp_terms cp1) \<and>
   grown terms terms1 \<and> length terms1 = length terms + length ts \<and> (\<forall>x \<in> set terms1. x < length (cp_terms cp1)) \<and>
   (\<forall>k < length ts. (compose_lit rels texts (take (length terms + k) terms1) (ts ! k) :: ('e, _) rust) =
      Ok (cp_terms cp1 ! (terms1 ! (length terms + k))))"
proof (induction ts arbitrary: cp terms)
  case (Cons t ts)
  from Cons.prems(1) obtain lit where lit: "(compose_lit rels texts terms t :: ('e, _) rust) = Ok lit"
    by (auto simp: rust_simps)
  obtain n cp2 where one: "(case cp_term_ids cp lit of Some n \<Rightarrow> (n, cp)
      | None \<Rightarrow> (length (cp_terms cp), cp\<lparr>cp_terms := cp_terms cp @ [lit], cp_term_ids := (cp_term_ids cp)(lit \<mapsto> length (cp_terms cp))\<rparr>)) = (n, cp2)"
    by (meson surj_pair)
  have rest: "(compose_terms rels texts ts (terms @ [n]) cp2 :: ('e, _) rust) = Ok (terms1, cp1)"
    using Cons.prems(1) lit one by simp
  have earlier: "j < length (cp_terms cp)" if "TaTerm j \<in> set (lit_args lit)" for j
  proof -
    have "list_all2 (\<lambda>a b. (compose_arg texts terms a :: ('e, _) rust) = Ok b) (lit_args t) (lit_args lit)"
      using compose_lit_args [OF lit] by blast
    with that obtain a where "(compose_arg texts terms a :: ('e, _) rust) = Ok (TaTerm j)"
      by (auto simp: list_all2_conv_all_nth in_set_conv_nth)
    then have "j \<in> set terms" by (cases a) (auto simp: compose_arg_def rust_simps)
    with Cons.prems(3) show ?thesis by blast
  qed
  have n: "n < length (cp_terms cp2)" "cp_terms cp2 ! n = lit"
    and cp2: "cp2 = cp\<lparr>cp_terms := cp_terms cp2, cp_term_ids := cp_term_ids cp2\<rparr>" and g: "grown (cp_terms cp) (cp_terms cp2)"
    using one Cons.prems(2) by (auto simp: ids_inv_def split: option.splits)
  have inv2: "ids_inv cp2"
  proof (cases "cp_term_ids cp lit")
    case None
    with one have "cp2 = cp\<lparr>cp_terms := cp_terms cp @ [lit], cp_term_ids := (cp_term_ids cp)(lit \<mapsto> length (cp_terms cp))\<rparr>" by auto
    with Cons.prems(2) earlier show ?thesis unfolding ids_inv_def by (auto simp: nth_append less_Suc_eq split: if_splits)
  qed (use one Cons.prems(2) in simp)
  have in2: "\<forall>x \<in> set (terms @ [n]). x < length (cp_terms cp2)" using Cons.prems(3) n(1) grown_nth [OF g] by auto
  note ih = Cons.IH [OF rest inv2 in2]
  have "cp1 = cp\<lparr>cp_terms := cp_terms cp1, cp_term_ids := cp_term_ids cp1\<rparr>"
    using ih cp2 by (cases cp; cases cp2; cases cp1) simp
  moreover have "grown terms terms1" "terms1 ! length terms = n" "take (length terms) terms1 = terms"
    using ih by (auto simp: grown_def nth_append)
  moreover have "cp_terms cp1 ! n = lit" using grown_nth ih n by metis
  ultimately show ?case
    using ih lit grown_trans [OF g] by (auto simp: less_Suc_eq_0_disj)
qed simp

subsection \<open>Resolved terms\<close>

lemma resolve_terms_snoc:
  "resolve_terms phi texts (lits @ [lit]) terms = resolve_terms phi texts lits terms @ [resolve_lit phi texts (resolve_terms phi texts lits terms) lit]"
  by (simp add: resolve_terms_def)

lemma resolve_terms_length [simp]: "length (resolve_terms phi texts lits terms) = length terms + length lits"
  by (induction lits rule: rev_induct) (simp_all add: resolve_terms_snoc resolve_terms_def)

lemma resolve_terms_nth:
  "k < length lits \<Longrightarrow> resolve_terms phi texts lits [] ! k = resolve_lit phi texts (take k (resolve_terms phi texts lits [])) (lits ! k)"
proof (induction lits rule: rev_induct)
  case (snoc lit lits)
  then show ?case by (cases "k = length lits") (simp_all add: resolve_terms_snoc nth_append)
qed simp

text \<open>The literals of a part and those it became resolve to the same terms.\<close>

lemma resolved_terms_agree:
  assumes lits: "\<forall>k < length ts. (compose_lit rels texts (take k terms1) (ts ! k) :: ('e, _) rust) = Ok (lits ! (terms1 ! k))"
    and len: "length terms1 = length ts" and bound: "\<forall>x \<in> set terms1. x < length lits"
    and earlier: "\<forall>n < length lits. \<forall>j. TaTerm j \<in> set (lit_args (lits ! n)) \<longrightarrow> j < n"
    and texts: "\<forall>k < length texts. all_texts ! (texts ! k) = part_texts ! k"
    and k: "k < length ts"
  shows "resolve_terms phi all_texts lits [] ! (terms1 ! k) = resolve_terms (phi \<circ> the \<circ> rels) part_texts ts [] ! k"
  using k
proof (induction k rule: less_induct)
  case (less k)
  let ?R = "resolve_terms phi all_texts lits []" and ?P = "resolve_terms (phi \<circ> the \<circ> rels) part_texts ts []"
  define n where "n = terms1 ! k"
  have n: "n < length lits" using bound len less.prems by (simp add: n_def)
  have run: "(compose_lit rels texts (take k terms1) (ts ! k) :: ('e, _) rust) = Ok (lits ! n)" using lits less.prems by (simp add: n_def)
  note args = compose_lit_args [OF run]
  have arg: "resolve_arg all_texts (take n ?R) b = resolve_arg part_texts (take k ?P) a"
    if "(compose_arg texts (take k terms1) a :: ('e, _) rust) = Ok b" and "b \<in> set (lit_args (lits ! n))" for a b
  proof (cases a)
    case (TaTerm j)
    with that(1) len less.prems have j: "j < k" "b = TaTerm (terms1 ! j)" by (auto simp: compose_arg_def rust_simps)
    with that(2) earlier n have "terms1 ! j < n" by blast
    with j less.IH [of j] less.prems TaTerm show ?thesis by (simp add: comp_def)
  qed (use that(1) texts in \<open>auto simp: compose_arg_def rust_simps\<close>)
  have "map (resolve_arg all_texts (take n ?R)) (lit_args (lits ! n)) = map (resolve_arg part_texts (take k ?P)) (lit_args (ts ! k))"
    using args arg by (auto simp: list_all2_conv_all_nth intro!: nth_equalityI)
  with args show ?case
    using resolve_terms_nth [OF n, of phi all_texts] resolve_terms_nth [OF less.prems, of "phi \<circ> the \<circ> rels" part_texts]
    by (simp add: n_def resolve_lit_def comp_def)
qed

lemma resolve_expr_agree:
  assumes "\<forall>k < length texts. all_texts ! (texts ! k) = part_texts ! k" and "\<forall>k < length terms. all_terms ! (terms ! k) = part_terms ! k"
  shows "(expr_renamed texts terms e :: ('e, _) rust) = Ok e1 \<Longrightarrow> resolve_expr all_texts all_terms e1 = resolve_expr part_texts part_terms e"
proof (induction e arbitrary: e1)
  case (ECall f args)
  from ECall.prems obtain args1 where run: "(map_rust (expr_renamed texts terms) args :: ('e, _) rust) = Ok args1" and e1: "e1 = ECall f args1"
    by (auto simp: rust_simps)
  have "list_all2 (\<lambda>a b. resolve_expr all_texts all_terms b = resolve_expr part_texts part_terms a) args args1"
    using map_rust_OkD [OF run] by (rule list.rel_mono_strong) (rule ECall.IH)
  then have "map (resolve_expr all_texts all_terms) args1 = map (resolve_expr part_texts part_terms) args"
    by (auto simp: list_all2_conv_all_nth intro!: nth_equalityI)
  with e1 show ?case by simp
qed (use assms in \<open>auto simp: rust_simps\<close>)

subsection \<open>Nodes\<close>

text \<open>Tables that agree where the first has an entry.\<close>

definition map_sub :: "nat option list \<Rightarrow> nat option list \<Rightarrow> bool" where
  "map_sub xs ys \<longleftrightarrow> (\<forall>i k. vec_get xs i = Some (Some k) \<longrightarrow> vec_get ys i = Some (Some k))"

lemma map_sub_refl [simp]: "map_sub xs xs"
  by (simp add: map_sub_def)

lemma map_sub_trans: "map_sub xs ys \<Longrightarrow> map_sub ys zs \<Longrightarrow> map_sub xs zs"
  by (simp add: map_sub_def)

lemma node_at_Ok [simp]: "(node_at nodes i = Ok k) \<longleftrightarrow> vec_get nodes i = Some (Some k)"
  by (auto simp: node_at_def split: option.splits)

lemma map_at_Ok [simp]: "(map_at m i = Ok n) \<longleftrightarrow> m i = Some n"
  by (auto simp: map_at_def split: option.splits)

text \<open>A composed node that is not a read of a relation: the same operator over the composed inputs.\<close>

lemma compose_op_inputs:
  assumes "(compose_op c w free op :: ('e, _) rust) = Ok op1" and "\<And>r. op \<noteq> OGet r"
  shows "(\<forall>r. op1 \<noteq> OGet r) \<and> list_all2 (\<lambda>i k. vec_get (wk_map w) i = Some (Some k)) (op_inputs op) (op_inputs op1)"
  using assms by (cases op) (auto simp: compose_op_def Let_def rust_simps dest!: map_rust_OkD)

lemma compose_exprs_agree:
  assumes "\<forall>k < length (pn_texts c). all_texts ! (pn_texts c ! k) = part_texts ! k"
    and "\<forall>k < length (pn_terms c). all_terms ! (pn_terms c ! k) = part_terms ! k"
    and "(map_rust (expr_texts (pn_texts c) (pn_terms c)) es :: ('e, _) rust) = Ok es1"
  shows "map (resolve_expr all_texts all_terms) es1 = map (resolve_expr part_texts part_terms) es"
proof -
  have "list_all2 (\<lambda>e e1. resolve_expr all_texts all_terms e1 = resolve_expr part_texts part_terms e) es es1"
    using map_rust_OkD [OF assms(3)] by (rule list.rel_mono_strong) (simp add: expr_texts_structural resolve_expr_agree [OF assms(1,2)])
  then show ?thesis by (auto simp: list_all2_conv_all_nth intro!: nth_equalityI)
qed

lemma compose_op_resolved:
  assumes "\<forall>k < length (pn_texts c). all_texts ! (pn_texts c ! k) = part_texts ! k"
    and "\<forall>k < length (pn_terms c). all_terms ! (pn_terms c ! k) = part_terms ! k"
    and "(compose_op c w free op :: ('e, _) rust) = Ok op1" and "\<And>r. op \<noteq> OGet r"
  shows "resolve_op phi all_texts all_terms op1 = resolve_op (phi \<circ> the \<circ> pn_rels c) part_texts part_terms op"
  using assms(3,4) by (cases op) (auto simp: compose_op_def Let_def rust_simps dest: compose_exprs_agree [OF assms(1,2)])

text \<open>What a walk keeps: its table leads to nodes composed under an earlier state of the table.\<close>

definition node_from :: "part_names \<Rightarrow> nat option list \<Rightarrow> ir_op \<Rightarrow> ir_op \<Rightarrow> bool" where
  "node_from c nodes op op1 \<longleftrightarrow> (\<exists>w free. map_sub (wk_map w) nodes \<and> (compose_op c w free op :: (string, _) rust) = Ok op1)"

definition walk_inv :: "part_names \<Rightarrow> walk \<Rightarrow> bool" where
  "walk_inv c w \<longleftrightarrow>
     (\<forall>i k. vec_get (wk_map w) i = Some (Some k) \<longrightarrow> k < length (wk_nodes w) \<and> node_from c (wk_map w) (pr_nodes (pn_part c) ! i) (wk_nodes w ! k)) \<and>
     (\<forall>op n. wk_consed w op = Some n \<longrightarrow> n < length (wk_nodes w) \<and> wk_nodes w ! n = op)"

definition walked :: "walk \<Rightarrow> walk \<Rightarrow> bool" where
  "walked w w1 \<longleftrightarrow> map_sub (wk_map w) (wk_map w1) \<and> grown (wk_nodes w) (wk_nodes w1) \<and> length (wk_map w1) = length (wk_map w)"

lemma walked_refl [simp]: "walked w w"
  by (simp add: walked_def)

lemma walked_trans: "walked w w1 \<Longrightarrow> walked w1 w2 \<Longrightarrow> walked w w2"
  unfolding walked_def by (metis map_sub_trans grown_trans)

lemma node_from_mono: "node_from c nodes op op1 \<Longrightarrow> map_sub nodes nodes1 \<Longrightarrow> node_from c nodes1 op op1"
  unfolding node_from_def using map_sub_trans by blast

lemma compose_node_ok:
  assumes run: "(compose_node c i op w :: (string, _) rust) = Ok w1" and inv: "walk_inv c w"
    and i: "vec_get (wk_map w) i = Some None" and op: "vec_get (pr_nodes (pn_part c)) i = Some op"
  shows "walk_inv c w1 \<and> walked w w1 \<and> (\<exists>k. vec_get (wk_map w1) i = Some (Some k))"
proof -
  obtain free op1 at1 w2 where f: "(compose_op c w free op :: (string, _) rust) = Ok op1" and add: "add_node free op1 w = (at1, w2)"
    and w1: "w1 = w2\<lparr>wk_free := (wk_free w)[i := free], wk_open := (wk_open w)[i := False], wk_map := (wk_map w)[i := Some at1]\<rparr>"
    using compose_nodeE [OF run] .
  have sub: "map_sub (wk_map w) ((wk_map w)[i := Some at1])" using i by (auto simp: map_sub_def nth_list_update)
  have len: "i < length (wk_map w)" using i by simp
  have at: "at1 < length (wk_nodes w2)" "wk_nodes w2 ! at1 = op1" "grown (wk_nodes w) (wk_nodes w2)" "wk_map w2 = wk_map w"
    and consed: "\<forall>op n. wk_consed w2 op = Some n \<longrightarrow> n < length (wk_nodes w2) \<and> wk_nodes w2 ! n = op"
    using add inv by (auto simp: add_node_def walk_inv_def Let_def nth_append less_Suc_eq split: option.splits if_splits)
  have "node_from c ((wk_map w)[i := Some at1]) op op1" using f sub unfolding node_from_def by blast
  then have "k < length (wk_nodes w2) \<and> node_from c ((wk_map w)[i := Some at1]) (pr_nodes (pn_part c) ! j) (wk_nodes w2 ! k)"
    if "vec_get ((wk_map w)[i := Some at1]) j = Some (Some k)" for j k
  proof (cases "j = i")
    case True
    with that len at op \<open>node_from c ((wk_map w)[i := Some at1]) op op1\<close> show ?thesis by auto
  next
    case False
    with that have "vec_get (wk_map w) j = Some (Some k)" by auto
    with inv have "k < length (wk_nodes w)" "node_from c (wk_map w) (pr_nodes (pn_part c) ! j) (wk_nodes w ! k)"
      unfolding walk_inv_def by blast+
    with node_from_mono [OF _ sub] grown_nth [OF at(3), of k] show ?thesis by simp
  qed
  with consed at sub len show ?thesis by (simp add: w1 walk_inv_def walked_def)
qed

lemma compose_walk_ok:
  "compose_walk c stack w = Ok w1 \<Longrightarrow> walk_inv c w \<Longrightarrow>
   walk_inv c w1 \<and> walked w w1 \<and> (\<forall>i \<in> fst ` set stack. \<exists>k. vec_get (wk_map w1) i = Some (Some k))"
proof (induction c stack w rule: compose_walk.induct)
  case (2 c i expanded stack w)
  show ?case
  proof (cases "vec_get (wk_map w) i")
    case None
    with "2.prems" show ?thesis by simp
  next
    case (Some m)
    show ?thesis
    proof (cases m)
      case (Some k)
      with \<open>vec_get (wk_map w) i = Some m\<close> have at: "vec_get (wk_map w) i = Some (Some k)" by simp
      with "2.prems"(1) have "compose_walk c stack w = Ok w1" by (simp del: vec_get_Some_iff)
      note ih = "2.IH"(3) [OF at refl this "2.prems"(2)]
      with at have "vec_get (wk_map w1) i = Some (Some k)" unfolding walked_def map_sub_def by blast
      with ih show ?thesis by auto
    next
      case None
      with \<open>vec_get (wk_map w) i = Some m\<close> have at: "vec_get (wk_map w) i = Some None" by simp
      from "2.prems"(1) at obtain op where op: "vec_get (pr_nodes (pn_part c)) i = Some op"
        by (cases "vec_get (pr_nodes (pn_part c)) i") (simp_all del: vec_get_Some_iff)
      show ?thesis
      proof (cases expanded)
        case True
        with "2.prems"(1) at op obtain w2 where node: "(compose_node c i op w :: (string, _) rust) = Ok w2" and rest: "compose_walk c stack w2 = Ok w1"
          by (auto simp: rust_simps simp del: vec_get_Some_iff)
        note one = compose_node_ok [OF node "2.prems"(2) at op]
        then obtain k where k: "vec_get (wk_map w2) i = Some (Some k)" by blast
        from "2.IH"(1) [OF at refl op True node rest] one
        have ih: "walk_inv c w1" "walked w2 w1" "\<forall>i \<in> fst ` set stack. \<exists>k. vec_get (wk_map w1) i = Some (Some k)" by blast+
        from k ih(2) have "vec_get (wk_map w1) i = Some (Some k)" unfolding walked_def map_sub_def by blast
        with ih one walked_trans [of w w2 w1] show ?thesis by auto
      next
        case False
        with "2.prems"(1) at op obtain deps where o: "vec_get (wk_open w) i = Some False"
          and deps: "(open_deps c op w :: (string, _) rust) = Ok deps"
          and rest: "compose_walk c (map (\<lambda>d. (d, False)) deps @ (i, True) # stack) (w\<lparr>wk_open := (wk_open w)[i := True]\<rparr>) = Ok w1"
          by (auto simp: rust_simps simp del: vec_get_Some_iff split: option.splits bool.splits)
        have inv: "walk_inv c (w\<lparr>wk_open := (wk_open w)[i := True]\<rparr>)" using "2.prems"(2) by (simp add: walk_inv_def)
        note ih = "2.IH"(2) [OF at refl op False o refl deps rest inv]
        have "fst ` set ((i, expanded) # stack) \<subseteq> fst ` set (map (\<lambda>d. (d, False)) deps @ (i, True) # stack)" by auto
        with ih show ?thesis unfolding walked_def by (simp del: vec_get_Some_iff)
      qed
    qed
  qed
qed simp

lemma walk_roots_ok:
  "walk_roots c is w = Ok w1 \<Longrightarrow> walk_inv c w \<Longrightarrow>
   walk_inv c w1 \<and> walked w w1 \<and> (\<forall>i \<in> set is. \<exists>k. vec_get (wk_map w1) i = Some (Some k))"
proof (induction c "is" w rule: walk_roots.induct)
  case (2 c i "is" w)
  from "2.prems"(1) obtain w2 where one: "compose_walk c [(i, False)] w = Ok w2" and rest: "walk_roots c is w2 = Ok w1"
    by (auto simp: rust_simps)
  note a = compose_walk_ok [OF one "2.prems"(2)]
  with "2.IH" [OF one rest] have ih: "walk_inv c w1" "walked w2 w1" "\<forall>i \<in> set is. \<exists>k. vec_get (wk_map w1) i = Some (Some k)" by blast+
  from a obtain k where "vec_get (wk_map w2) i = Some (Some k)" by auto
  with ih(2) have "vec_get (wk_map w1) i = Some (Some k)" unfolding walked_def map_sub_def by blast
  with ih a walked_trans [of w w2 w1] show ?case by auto
qed simp

subsection \<open>Strata\<close>

definition level_from :: "part_names \<Rightarrow> nat option list \<Rightarrow> let_rec \<Rightarrow> let_rec \<Rightarrow> bool" where
  "level_from c nodes rec rec1 \<longleftrightarrow> rec_limit rec1 = rec_limit rec \<and>
     list_all2 (\<lambda>i n. pn_rels c i = Some n) (rec_ids rec) (rec_ids rec1) \<and>
     list_all2 (\<lambda>i k. vec_get nodes i = Some (Some k)) (rec_bodies rec) (rec_bodies rec1)"

definition stratum_from :: "part_names \<Rightarrow> nat option list \<Rightarrow> stratum \<Rightarrow> stratum \<Rightarrow> bool" where
  "stratum_from c nodes s s1 \<longleftrightarrow>
     (case s of
        SLet r body \<Rightarrow> \<exists>r1 b. s1 = SLet r1 b \<and> pn_rels c r = Some r1 \<and> vec_get nodes body = Some (Some b)
      | SLetRec rec \<Rightarrow> \<exists>rec1. s1 = SLetRec rec1 \<and> level_from c nodes rec rec1 \<and> list_all2 (level_from c nodes) (rec_nested rec) (rec_nested rec1))"

lemma letrec_level_ok:
  "(letrec_level (map_at (pn_rels c)) (node_at nodes) rec :: ('e, _) rust) = Ok rec1 \<Longrightarrow> level_from c nodes rec rec1"
  by (auto simp: letrec_level_def level_from_def rust_simps dest!: map_rust_OkD)

lemma compose_letrec_ok:
  assumes "(compose_letrec (map_at (pn_rels c)) (node_at nodes) rec :: ('e, _) rust) = Ok rec1"
  shows "stratum_from c nodes (SLetRec rec) (SLetRec rec1)"
proof -
  from assms obtain outer inner where o: "(letrec_level (map_at (pn_rels c)) (node_at nodes) rec :: ('e, _) rust) = Ok outer"
    and i: "(map_rust (letrec_level (map_at (pn_rels c)) (node_at nodes)) (rec_nested rec) :: ('e, _) rust) = Ok inner"
    and rec1: "rec1 = LetRec (rec_ids outer) (rec_bodies outer) (rec_limit outer) inner"
    by (auto simp: compose_letrec_def rust_simps)
  have "list_all2 (level_from c nodes) (rec_nested rec) inner"
    using map_rust_OkD [OF i] by (rule list.rel_mono_strong) (rule letrec_level_ok)
  with letrec_level_ok [OF o] show ?thesis by (auto simp: stratum_from_def level_from_def rec1)
qed

lemma compose_strata_ok:
  "(compose_strata c w strata cp :: ('e, _) rust) = Ok cp1 \<Longrightarrow> ids_inv cp \<Longrightarrow>
   ids_inv cp1 \<and> cp1 = cp\<lparr>cp_strata := cp_strata cp1, cp_let_of_body := cp_let_of_body cp1\<rparr> \<and> grown (cp_strata cp) (cp_strata cp1) \<and>
   (\<forall>s \<in> set strata. \<exists>s1 \<in> set (cp_strata cp1). stratum_from c (wk_map w) s s1)"
proof (induction strata arbitrary: cp)
  case (Cons s strata)
  obtain cp2 s1 where s1: "stratum_from c (wk_map w) s s1" and lets: "cp2 = cp\<lparr>cp_strata := cp_strata cp @ [s1], cp_let_of_body := cp_let_of_body cp2\<rparr>"
    and inv: "ids_inv cp2" and rest: "(compose_strata c w strata cp2 :: ('e, _) rust) = Ok cp1"
  proof (cases s)
    case (SLet r body)
    with Cons.prems(1) obtain free b r1 where b: "vec_get (wk_map w) body = Some (Some b)" "pn_rels c r = Some r1"
      and run: "(compose_strata c w strata (cp\<lparr>cp_let_of_body := (if free \<and> cp_let_of_body cp b = None then (cp_let_of_body cp)(b \<mapsto> r1) else cp_let_of_body cp),
             cp_strata := cp_strata cp @ [SLet r1 b]\<rparr>) :: ('e, _) rust) = Ok cp1"
      by (auto simp: rust_simps)
    show thesis
    proof (rule that [OF _ _ _ run])
      show "stratum_from c (wk_map w) s (SLet r1 b)" using SLet b by (simp add: stratum_from_def)
      show "ids_inv (cp\<lparr>cp_let_of_body := (if free \<and> cp_let_of_body cp b = None then (cp_let_of_body cp)(b \<mapsto> r1) else cp_let_of_body cp),
             cp_strata := cp_strata cp @ [SLet r1 b]\<rparr>)" using Cons.prems(2) by (auto simp: ids_inv_def split: if_splits)
    qed simp
  next
    case (SLetRec rec)
    with Cons.prems(1) obtain rec1 where r: "(compose_letrec (map_at (pn_rels c)) (node_at (wk_map w)) rec :: ('e, _) rust) = Ok rec1"
      and run: "(compose_strata c w strata (cp\<lparr>cp_strata := cp_strata cp @ [SLetRec rec1]\<rparr>) :: ('e, _) rust) = Ok cp1"
      by (auto simp: rust_simps)
    show thesis
    proof (rule that [OF _ _ _ run])
      show "stratum_from c (wk_map w) s (SLetRec rec1)" using compose_letrec_ok [OF r] SLetRec by simp
      show "ids_inv (cp\<lparr>cp_strata := cp_strata cp @ [SLetRec rec1]\<rparr>)" using Cons.prems(2) by (auto simp: ids_inv_def)
    qed simp
  qed
  note ih = Cons.IH [OF rest inv]
  have "cp1 = cp\<lparr>cp_strata := cp_strata cp1, cp_let_of_body := cp_let_of_body cp1\<rparr>"
    using ih lets by (cases cp; cases cp2; cases cp1) simp
  moreover have g: "grown (cp_strata cp) (cp_strata cp2)" "s1 \<in> set (cp_strata cp2)" using lets by (cases cp; cases cp2; simp)+
  moreover have "s1 \<in> set (cp_strata cp1)" using g(2) ih grown_set by metis
  ultimately show ?case using ih s1 grown_trans by auto
qed simp

subsection \<open>Parts\<close>

text \<open>
  What a composed program has of a part, for a context \<open>c\<close> (the renamings), the part's node table and the
  lists of the composed program; it lasts while they grow.
\<close>

definition part_in :: "part_names \<Rightarrow> nat option list \<Rightarrow> ir_program \<Rightarrow> ir_program \<Rightarrow> bool" where
  "part_in c nodes part p \<longleftrightarrow> pn_part c = part \<and> pn_lets c = let_bodies (pr_strata part) \<and>
     length (pn_texts c) = length (pr_texts part) \<and>
     (\<forall>k < length (pr_texts part). pn_texts c ! k < length (pr_texts p) \<and> pr_texts p ! (pn_texts c ! k) = pr_texts part ! k) \<and>
     length (pn_terms c) = length (pr_terms part) \<and> (\<forall>x \<in> set (pn_terms c). x < length (pr_terms p)) \<and>
     (\<forall>k < length (pr_terms part). (compose_lit (pn_rels c) (pn_texts c) (take k (pn_terms c)) (pr_terms part ! k) :: (string, _) rust) =
        Ok (pr_terms p ! (pn_terms c ! k))) \<and>
     (\<forall>i < length (pr_nodes part). \<exists>k. vec_get nodes i = Some (Some k) \<and> k < length (pr_nodes p) \<and> node_from c nodes (pr_nodes part ! i) (pr_nodes p ! k)) \<and>
     (\<forall>b r. pn_let_of_body c b = Some r \<longrightarrow> SLet r b \<in> set (pr_strata p)) \<and>
     (\<forall>s \<in> set (pr_strata part). \<exists>s1 \<in> set (pr_strata p). stratum_from c nodes s s1)"

definition program_grown :: "ir_program \<Rightarrow> ir_program \<Rightarrow> bool" where
  "program_grown p p1 \<longleftrightarrow> grown (pr_rels p) (pr_rels p1) \<and> grown (pr_texts p) (pr_texts p1) \<and> grown (pr_terms p) (pr_terms p1) \<and>
     grown (pr_nodes p) (pr_nodes p1) \<and> grown (pr_strata p) (pr_strata p1) \<and> grown (pr_outputs p) (pr_outputs p1)"

lemma program_grown_trans: "program_grown p p1 \<Longrightarrow> program_grown p1 p2 \<Longrightarrow> program_grown p p2"
  unfolding program_grown_def by (blast intro: grown_trans)

lemma part_in_mono:
  assumes "part_in c nodes part p" and "program_grown p p1"
  shows "part_in c nodes part p1"
proof -
  have g: "grown (pr_texts p) (pr_texts p1)" "grown (pr_terms p) (pr_terms p1)" "grown (pr_nodes p) (pr_nodes p1)" "grown (pr_strata p) (pr_strata p1)"
    using assms(2) by (simp_all add: program_grown_def)
  have texts: "\<forall>k < length (pr_texts part). pn_texts c ! k < length (pr_texts p1) \<and> pr_texts p1 ! (pn_texts c ! k) = pr_texts part ! k"
    using assms(1) grown_nth [OF g(1)] by (auto simp: part_in_def)
  have terms: "\<forall>x \<in> set (pn_terms c). x < length (pr_terms p1) \<and> pr_terms p1 ! x = pr_terms p ! x"
    using assms(1) grown_nth [OF g(2)] by (auto simp: part_in_def)
  moreover have "pn_terms c ! k \<in> set (pn_terms c)" if "k < length (pr_terms part)" for k
    using that assms(1) by (simp add: part_in_def)
  ultimately have lits: "\<forall>k < length (pr_terms part). (compose_lit (pn_rels c) (pn_texts c) (take k (pn_terms c)) (pr_terms part ! k) :: (string, _) rust) =
        Ok (pr_terms p1 ! (pn_terms c ! k))"
    using assms(1) by (simp add: part_in_def)
  have nodes: "\<exists>k. vec_get nodes i = Some (Some k) \<and> k < length (pr_nodes p1) \<and> node_from c nodes (pr_nodes part ! i) (pr_nodes p1 ! k)"
    if i: "i < length (pr_nodes part)" for i
  proof -
    from assms(1) i obtain k where "vec_get nodes i = Some (Some k)" "k < length (pr_nodes p)" "node_from c nodes (pr_nodes part ! i) (pr_nodes p ! k)"
      unfolding part_in_def by blast
    with grown_nth [OF g(3)] show ?thesis by metis
  qed
  from assms(1) texts terms lits nodes grown_set [OF g(4)] show ?thesis unfolding part_in_def by blast
qed

lemma compose_part_ok:
  assumes run: "compose_part prefix part cp = Ok (m, cp1)" and rels: "rels_inv cp" and ids: "ids_inv cp"
  shows "rels_inv cp1 \<and> ids_inv cp1 \<and> program_grown (composed_program cp) (composed_program cp1) \<and>
    (\<exists>c nodes. pn_rels c = m \<and> part_in c nodes part (composed_program cp1)) \<and>
    (\<exists>outs. list_all2 (\<lambda>i n. m i = Some n) (pr_outputs part) outs \<and> cp_outputs cp1 = cp_outputs cp @ outs) \<and>
    (distinct (map ir_id (pr_rels part)) \<longrightarrow> (\<forall>rel \<in> set (pr_rels part). rel_kept prefix m (cp_rels cp1) rel))"
proof -
  obtain m1 cpa where r: "compose_rels prefix (pr_rels part) Map.empty cp = Ok (m1, cpa)"
    using run by (auto simp: compose_part_def rust_simps)
  obtain texts cpb where t: "compose_texts (pr_texts part) cpa = (texts, cpb)" by (meson surj_pair)
  obtain terms cpc where l: "(compose_terms m1 texts (pr_terms part) [] cpb :: (string, _) rust) = Ok (terms, cpc)"
    using run r t by (auto simp: compose_part_def rust_simps)
  define c where "c = part_context prefix part m1 texts terms cpc"
  obtain w where w: "walk_roots c [0..<length (pr_nodes part)] (walk_start part cpc) = Ok w"
    using run r t l by (auto simp: compose_part_def rust_simps Let_def c_def)
  let ?cpd = "cpc\<lparr>cp_nodes := wk_nodes w, cp_consed := wk_consed w\<rparr>"
  obtain cpe where s: "(compose_strata c w (pr_strata part) ?cpd :: (string, _) rust) = Ok cpe"
    using run r t l w by (auto simp: compose_part_def rust_simps Let_def c_def)
  obtain outs where o: "(map_rust (map_at m1) (pr_outputs part) :: (string, _) rust) = Ok outs"
    using run r t l w s by (auto simp: compose_part_def rust_simps Let_def c_def)
  have res: "m = m1" "cp1 = cpe\<lparr>cp_outputs := cp_outputs cpe @ outs\<rparr>"
    using run r t l w s o by (simp_all add: compose_part_def Let_def c_def)
  note R = compose_rels_ok [OF r rels]
  have ida: "ids_inv cpa" using ids R by (cases cp; cases cpa) (simp add: ids_inv_def)
  note T = compose_texts_ok [OF t ida]
  note L = compose_terms_ok [OF l T [THEN conjunct1]]
  have idc: "ids_inv cpc" using L by simp
  have winv: "walk_inv c (walk_start part cpc)" using idc by (auto simp: walk_inv_def walk_start_def ids_inv_def)
  note W = walk_roots_ok [OF w winv]
  have gn: "grown (cp_nodes cpc) (wk_nodes w)" using W by (simp add: walked_def walk_start_def)
  have idd: "ids_inv ?cpd" using idc W by (auto simp: ids_inv_def walk_inv_def)
  note S = compose_strata_ok [OF s idd]
  have lists: "cp_rels cpe = cp_rels cpa" "cp_texts cpe = cp_texts cpb" "cp_terms cpe = cp_terms cpc" "cp_nodes cpe = wk_nodes w"
      "cp_outputs cpe = cp_outputs cp" "cp_strata cpc = cp_strata cp" "cp_nodes cpc = cp_nodes cp" "cp_terms cpb = cp_terms cp" "cp_texts cpa = cp_texts cp"
      "cp_next cpe = cp_next cpa" "cp_constructors cpe = cp_constructors cpa"
    using R T L S by (cases cp; cases cpa; cases cpb; cases cpc; cases cpe; simp)+
  have prog: "pr_rels (composed_program cp1) = cp_rels cpa" "pr_texts (composed_program cp1) = cp_texts cpb" "pr_terms (composed_program cp1) = cp_terms cpc"
      "pr_nodes (composed_program cp1) = wk_nodes w" "pr_strata (composed_program cp1) = cp_strata cpe" "pr_outputs (composed_program cp1) = cp_outputs cp @ outs"
    by (simp_all add: composed_program_def res lists)
  have gs: "grown (cp_strata cp) (cp_strata cpe)" using S lists by simp
  have "rels_inv cp1" using R by (simp add: res rels_inv_def lists)
  moreover have "ids_inv cp1" using S by (simp add: res ids_inv_def)
  moreover have "program_grown (composed_program cp) (composed_program cp1)"
    unfolding program_grown_def prog using R T L gn gs lists by (simp add: composed_program_def)
  moreover have "part_in c (wk_map w) part (composed_program cp1)"
    unfolding part_in_def prog
  proof (intro conjI)
    show "pn_part c = part" "pn_lets c = let_bodies (pr_strata part)" by (simp_all add: c_def part_context_def)
    show "length (pn_texts c) = length (pr_texts part)" "length (pn_terms c) = length (pr_terms part)" "\<forall>x \<in> set (pn_terms c). x < length (cp_terms cpc)"
        "\<forall>k < length (pr_texts part). pn_texts c ! k < length (cp_texts cpb) \<and> cp_texts cpb ! (pn_texts c ! k) = pr_texts part ! k"
        "\<forall>k < length (pr_terms part). (compose_lit (pn_rels c) (pn_texts c) (take k (pn_terms c)) (pr_terms part ! k) :: (string, _) rust) =
          Ok (cp_terms cpc ! (pn_terms c ! k))"
      using T L by (simp_all add: c_def part_context_def)
    show "\<forall>i < length (pr_nodes part). \<exists>k. vec_get (wk_map w) i = Some (Some k) \<and> k < length (wk_nodes w) \<and> node_from c (wk_map w) (pr_nodes part ! i) (wk_nodes w ! k)"
    proof (intro allI impI)
      fix i
      assume "i < length (pr_nodes part)"
      with W obtain k where k: "vec_get (wk_map w) i = Some (Some k)" by fastforce
      with W have "k < length (wk_nodes w)" "node_from c (wk_map w) (pr_nodes (pn_part c) ! i) (wk_nodes w ! k)" unfolding walk_inv_def by blast+
      with k show "\<exists>k. vec_get (wk_map w) i = Some (Some k) \<and> k < length (wk_nodes w) \<and> node_from c (wk_map w) (pr_nodes part ! i) (wk_nodes w ! k)"
        by (auto simp: c_def part_context_def)
    qed
    show "\<forall>b r. pn_let_of_body c b = Some r \<longrightarrow> SLet r b \<in> set (cp_strata cpe)"
    proof (intro allI impI)
      fix b r
      assume "pn_let_of_body c b = Some r"
      with idc lists have "SLet r b \<in> set (cp_strata cp)" by (simp add: c_def part_context_def ids_inv_def)
      then show "SLet r b \<in> set (cp_strata cpe)" by (rule grown_set [OF gs])
    qed
    show "\<forall>s \<in> set (pr_strata part). \<exists>s1 \<in> set (cp_strata cpe). stratum_from c (wk_map w) s s1" using S by blast
  qed
  moreover have "pn_rels c = m" by (simp add: c_def part_context_def res)
  moreover have "list_all2 (\<lambda>i n. m i = Some n) (pr_outputs part) outs" using map_rust_OkD [OF o] by (simp add: res)
  moreover have "cp_outputs cp1 = cp_outputs cp @ outs" by (simp add: res lists)
  moreover have "cp_rels cp1 = cp_rels cpa" by (simp add: res lists)
  ultimately show ?thesis using R res(1) by auto
qed

end
