(* ===== verification/Ir_Compose_Theorems.thy ===== *)
theory Ir_Compose_Theorems
  imports Ir_Compose_Laws
begin

text \<open>The properties of \<open>compose\<close> (\<open>crates/ivm-ir/src/4_compose.rs\<close>).\<close>

subsection \<open>Models of a part\<close>

lemma let_bodiesD: "let_bodies strata r = Some body \<Longrightarrow> SLet r body \<in> set strata"
  unfolding let_bodies_def by (induction strata rule: rev_induct) (auto split: stratum.splits if_splits)

lemma op_value_plain:
  "\<forall>r. op \<noteq> OGet r \<Longrightarrow> op_value se phi p rho val op = se_op se (resolve_op phi (pr_texts p) (program_terms phi p) op) (map val (op_inputs op))"
  by (cases op) (auto simp: op_value_def)

definition terms_earlier :: "ir_program \<Rightarrow> bool" where
  "terms_earlier p \<longleftrightarrow> (\<forall>n < length (pr_terms p). \<forall>j. TaTerm j \<in> set (lit_args (pr_terms p ! n)) \<longrightarrow> j < n)"

lemma node_value_agrees:
  assumes "part_in c nodes part p" and earlier: "terms_earlier p" and model: "is_model se phi p rho val" and i: "i < length (pr_nodes part)"
  shows "val (the (nodes ! i)) = op_value se (phi \<circ> the \<circ> pn_rels c) part (rho \<circ> the \<circ> pn_rels c) (\<lambda>i. val (the (nodes ! i))) (pr_nodes part ! i)"
proof -
  let ?op = "pr_nodes part ! i"
  note P = assms(1) [unfolded part_in_def]
  obtain k where k: "vec_get nodes i = Some (Some k)" "k < length (pr_nodes p)" "node_from c nodes ?op (pr_nodes p ! k)"
    using P i by blast
  from k(3) obtain w free where sub: "map_sub (wk_map w) nodes" and run: "(compose_op c w free ?op :: (string, _) rust) = Ok (pr_nodes p ! k)"
    unfolding node_from_def by blast
  have "the (nodes ! i) = k" using k(1) by simp
  then have val: "val (the (nodes ! i)) = op_value se phi p rho val (pr_nodes p ! k)"
    using model k(2) by (simp add: is_model_def)
  show ?thesis
  proof (cases "\<exists>r. ?op = OGet r")
    case True
    then obtain r where r: "?op = OGet r" by blast
    with run obtain r1 where r1: "pn_rels c r = Some r1"
      and cases: "pr_nodes p ! k = OGet r1 \<or> (\<exists>body b r2. pn_lets c r = Some body \<and> vec_get (wk_map w) body = Some (Some b) \<and>
        pn_let_of_body c b = Some r2 \<and> pr_nodes p ! k = OGet r2)"
      by (auto simp: compose_op_def compose_get_def Let_def rust_simps split: option.splits if_splits)
    from cases show ?thesis
    proof
      assume "pr_nodes p ! k = OGet r1"
      with val r r1 show ?thesis by (simp add: op_value_def)
    next
      assume "\<exists>body b r2. pn_lets c r = Some body \<and> vec_get (wk_map w) body = Some (Some b) \<and> pn_let_of_body c b = Some r2 \<and> pr_nodes p ! k = OGet r2"
      then obtain body b r2 where l: "pn_lets c r = Some body" "vec_get (wk_map w) body = Some (Some b)" "pn_let_of_body c b = Some r2" "pr_nodes p ! k = OGet r2"
        by blast
      have "SLet r2 b \<in> set (pr_strata p)" using l(3) P by blast
      with model have two: "rho r2 = val b" by (auto simp: is_model_def stratum_holds_def)
      have "SLet r body \<in> set (pr_strata part)" using l(1) P let_bodiesD by simp
      with P obtain s1 where "s1 \<in> set (pr_strata p)" "stratum_from c nodes (SLet r body) s1" by blast
      moreover have "vec_get nodes body = Some (Some b)" using l(2) sub unfolding map_sub_def by blast
      ultimately have "SLet r1 b \<in> set (pr_strata p)" using r1 by (auto simp: stratum_from_def)
      with model have "rho r1 = val b" by (auto simp: is_model_def stratum_holds_def)
      with two val r r1 l(4) show ?thesis by (simp add: op_value_def)
    qed
  next
    case False
    then have no: "\<And>r. ?op \<noteq> OGet r" by blast
    have texts: "\<forall>j < length (pn_texts c). pr_texts p ! (pn_texts c ! j) = pr_texts part ! j" using P by simp
    have lits: "\<forall>k < length (pr_terms part). (compose_lit (pn_rels c) (pn_texts c) (take k (pn_terms c)) (pr_terms part ! k) :: (string, _) rust) =
        Ok (pr_terms p ! (pn_terms c ! k))" using P by blast
    have terms: "\<forall>j < length (pn_terms c). program_terms phi p ! (pn_terms c ! j) = program_terms (phi \<circ> the \<circ> pn_rels c) part ! j"
    proof (intro allI impI)
      fix j
      assume "j < length (pn_terms c)"
      with P have j: "j < length (pr_terms part)" by simp
      have len: "length (pn_terms c) = length (pr_terms part)" and bound: "\<forall>x \<in> set (pn_terms c). x < length (pr_terms p)" using P by blast+
      show "program_terms phi p ! (pn_terms c ! j) = program_terms (phi \<circ> the \<circ> pn_rels c) part ! j"
        unfolding program_terms_def by (rule resolved_terms_agree [OF lits len bound earlier [unfolded terms_earlier_def] texts j])
    qed
    have op: "resolve_op phi (pr_texts p) (program_terms phi p) (pr_nodes p ! k) =
        resolve_op (phi \<circ> the \<circ> pn_rels c) (pr_texts part) (program_terms (phi \<circ> the \<circ> pn_rels c) part) ?op"
      by (rule compose_op_resolved [OF texts terms run no])
    note ins = compose_op_inputs [OF run no]
    have "list_all2 (\<lambda>i k. val k = val (the (nodes ! i))) (op_inputs ?op) (op_inputs (pr_nodes p ! k))"
      using ins [THEN conjunct2] by (rule list.rel_mono_strong) (use sub in \<open>force simp: map_sub_def\<close>)
    then have "map val (op_inputs (pr_nodes p ! k)) = map (\<lambda>i. val (the (nodes ! i))) (op_inputs ?op)"
      by (auto simp: list_all2_conv_all_nth intro!: nth_equalityI)
    with val op op_value_plain [of "pr_nodes p ! k" se phi p rho val] ins
    have "val (the (nodes ! i)) = se_op se (resolve_op (phi \<circ> the \<circ> pn_rels c) (pr_texts part) (program_terms (phi \<circ> the \<circ> pn_rels c) part) ?op)
        (map (\<lambda>i. val (the (nodes ! i))) (op_inputs ?op))" by simp
    also have "\<dots> = op_value se (phi \<circ> the \<circ> pn_rels c) part (rho \<circ> the \<circ> pn_rels c) (\<lambda>i. val (the (nodes ! i))) ?op"
      using False by (intro op_value_plain [symmetric]) blast
    finally show ?thesis .
  qed
qed

lemma level_agrees:
  assumes "level_from c nodes rec rec1"
  shows "rec_level (rho \<circ> the \<circ> pn_rels c) (\<lambda>i. val (the (nodes ! i))) rec = rec_level rho val rec1"
proof -
  from assms have "list_all2 (\<lambda>i n. (rho \<circ> the \<circ> pn_rels c) i = rho n) (rec_ids rec) (rec_ids rec1)"
    unfolding level_from_def by (auto elim!: list.rel_mono_strong)
  then have "map (rho \<circ> the \<circ> pn_rels c) (rec_ids rec) = map rho (rec_ids rec1)"
    by (auto simp: list_all2_conv_all_nth intro!: nth_equalityI)
  moreover from assms have "list_all2 (\<lambda>i n. val (the (nodes ! i)) = val n) (rec_bodies rec) (rec_bodies rec1)"
    unfolding level_from_def by (auto elim!: list.rel_mono_strong)
  then have "map (\<lambda>i. val (the (nodes ! i))) (rec_bodies rec) = map val (rec_bodies rec1)"
    by (auto simp: list_all2_conv_all_nth intro!: nth_equalityI)
  ultimately show ?thesis using assms by (simp add: rec_level_def level_from_def)
qed

lemma part_model:
  assumes part: "part_in c nodes part p" and earlier: "terms_earlier p" and model: "is_model se phi p rho val"
  shows "is_model se (phi \<circ> the \<circ> pn_rels c) part (rho \<circ> the \<circ> pn_rels c) (\<lambda>i. val (the (nodes ! i)))"
  unfolding is_model_def
proof (intro conjI ballI)
  show "\<forall>i < length (pr_nodes part). val (the (nodes ! i)) =
      op_value se (phi \<circ> the \<circ> pn_rels c) part (rho \<circ> the \<circ> pn_rels c) (\<lambda>i. val (the (nodes ! i))) (pr_nodes part ! i)"
    using node_value_agrees [OF assms] by blast
next
  fix s
  assume "s \<in> set (pr_strata part)"
  with part obtain s1 where s1: "s1 \<in> set (pr_strata p)" "stratum_from c nodes s s1" unfolding part_in_def by blast
  from model s1(1) have holds: "stratum_holds se rho val s1" by (simp add: is_model_def)
  show "stratum_holds se (rho \<circ> the \<circ> pn_rels c) (\<lambda>i. val (the (nodes ! i))) s"
  proof (cases s)
    case (SLet r body)
    with s1(2) holds show ?thesis by (auto simp: stratum_from_def stratum_holds_def)
  next
    case (SLetRec rec)
    with s1(2) obtain rec1 where r: "s1 = SLetRec rec1" "level_from c nodes rec rec1" "list_all2 (level_from c nodes) (rec_nested rec) (rec_nested rec1)"
      by (auto simp: stratum_from_def)
    have "list_all2 (\<lambda>a b. rec_level (rho \<circ> the \<circ> pn_rels c) (\<lambda>i. val (the (nodes ! i))) a = rec_level rho val b) (rec_nested rec) (rec_nested rec1)"
      using r(3) by (rule list.rel_mono_strong) (rule level_agrees)
    then have "map (rec_level (rho \<circ> the \<circ> pn_rels c) (\<lambda>i. val (the (nodes ! i)))) (rec_nested rec) = map (rec_level rho val) (rec_nested rec1)"
      by (auto simp: list_all2_conv_all_nth intro!: nth_equalityI)
    with holds r(1) SLetRec level_agrees [OF r(2), of rho val] show ?thesis by (simp add: stratum_holds_def)
  qed
qed

subsection \<open>All parts\<close>

lemma compose_parts_ok:
  "compose_parts parts maps cp = Ok (maps1, cp1) \<Longrightarrow> rels_inv cp \<Longrightarrow> ids_inv cp \<Longrightarrow>
   rels_inv cp1 \<and> ids_inv cp1 \<and> program_grown (composed_program cp) (composed_program cp1) \<and> grown maps maps1 \<and> length maps1 = length maps + length parts \<and>
   (\<forall>k < length parts. \<exists>c nodes. pn_rels c = maps1 ! (length maps + k) \<and> part_in c nodes (snd (parts ! k)) (composed_program cp1)) \<and>
   (\<forall>k < length parts. distinct (map ir_id (pr_rels (snd (parts ! k)))) \<longrightarrow>
      (\<forall>rel \<in> set (pr_rels (snd (parts ! k))). rel_kept (fst (parts ! k)) (maps1 ! (length maps + k)) (cp_rels cp1) rel)) \<and>
   (\<exists>outs. length outs = length parts \<and> cp_outputs cp1 = cp_outputs cp @ concat outs \<and>
      (\<forall>k < length parts. list_all2 (\<lambda>i n. (maps1 ! (length maps + k)) i = Some n) (pr_outputs (snd (parts ! k))) (outs ! k)))"
proof (induction parts arbitrary: maps cp)
  case Nil
  then show ?case by (auto simp: program_grown_def)
next
  case (Cons x parts)
  obtain prefix part where x: "x = (prefix, part)" by (cases x)
  from Cons.prems(1) obtain m cp2 where one: "compose_part prefix part cp = Ok (m, cp2)" and rest: "compose_parts parts (maps @ [m]) cp2 = Ok (maps1, cp1)"
    by (auto simp: x rust_simps)
  note P = compose_part_ok [OF one Cons.prems(2,3)]
  note ih = Cons.IH [OF rest P [THEN conjunct1] P [THEN conjunct2, THEN conjunct1]]
  have m: "maps1 ! length maps = m" "grown (maps @ [m]) maps1" using ih by (auto simp: grown_def nth_append)
  have g2: "program_grown (composed_program cp2) (composed_program cp1)" using ih by blast
  then have rels: "grown (cp_rels cp2) (cp_rels cp1)" by (simp add: program_grown_def composed_program_def)
  have parts_in: "\<exists>c nodes. pn_rels c = maps1 ! (length maps + k) \<and> part_in c nodes (snd ((x # parts) ! k)) (composed_program cp1)"
    if "k < length (x # parts)" for k
  proof (cases k)
    case 0
    obtain c nodes where "pn_rels c = m" "part_in c nodes part (composed_program cp2)" using P by blast
    from this(2) have "part_in c nodes part (composed_program cp1)" by (rule part_in_mono [OF _ g2])
    with \<open>pn_rels c = m\<close> m x 0 show ?thesis by auto
  next
    case (Suc j)
    with that ih have "\<exists>c nodes. pn_rels c = maps1 ! (length (maps @ [m]) + j) \<and> part_in c nodes (snd (parts ! j)) (composed_program cp1)" by simp
    with Suc show ?thesis by simp
  qed
  have kept: "\<forall>rel \<in> set (pr_rels (snd ((x # parts) ! k))). rel_kept (fst ((x # parts) ! k)) (maps1 ! (length maps + k)) (cp_rels cp1) rel"
    if "k < length (x # parts)" "distinct (map ir_id (pr_rels (snd ((x # parts) ! k))))" for k
  proof (cases k)
    case 0
    with that P rel_kept_mono [OF _ rels] m x show ?thesis by auto
  next
    case (Suc j)
    with that ih have "\<forall>rel \<in> set (pr_rels (snd (parts ! j))). rel_kept (fst (parts ! j)) (maps1 ! (length (maps @ [m]) + j)) (cp_rels cp1) rel" by simp
    with Suc show ?thesis by simp
  qed
  obtain out where out: "list_all2 (\<lambda>i n. m i = Some n) (pr_outputs part) out" "cp_outputs cp2 = cp_outputs cp @ out" using P by blast
  obtain outs where outs: "length outs = length parts" "cp_outputs cp1 = cp_outputs cp2 @ concat outs"
      "\<forall>k < length parts. list_all2 (\<lambda>i n. (maps1 ! (length (maps @ [m]) + k)) i = Some n) (pr_outputs (snd (parts ! k))) (outs ! k)" using ih by blast
  have "list_all2 (\<lambda>i n. (maps1 ! (length maps + k)) i = Some n) (pr_outputs (snd ((x # parts) ! k))) ((out # outs) ! k)"
    if "k < length (x # parts)" for k
    using that out(1) outs(1,3) m x by (cases k) auto
  with out(2) outs(1,2) have "\<exists>outs. length outs = length (x # parts) \<and> cp_outputs cp1 = cp_outputs cp @ concat outs \<and>
      (\<forall>k < length (x # parts). list_all2 (\<lambda>i n. (maps1 ! (length maps + k)) i = Some n) (pr_outputs (snd ((x # parts) ! k))) (outs ! k))"
    by (intro exI [of _ "out # outs"]) simp
  moreover have "program_grown (composed_program cp) (composed_program cp1)" using P g2 program_grown_trans by blast
  moreover have "grown maps maps1" using m(2) by (auto simp: grown_def)
  ultimately show ?case using ih parts_in kept by auto
qed

lemma compose_parts_start: "rels_inv compose_start" "ids_inv compose_start"
  by (simp_all add: rels_inv_def ids_inv_def compose_start_def)

lemma composeE:
  assumes "compose parts = Ok (p, maps)"
  obtains cp where "p = composed_program cp" and "compose_parts parts [] compose_start = Ok (maps, cp)"
  using assms by (auto simp: compose_def rust_simps)

lemma ids_terms_earlier: "ids_inv cp \<Longrightarrow> terms_earlier (composed_program cp)"
  by (simp add: ids_inv_def terms_earlier_def composed_program_def)

text \<open>
  C22: Composition keeps the meaning of every part: for any semantics of operators (over their constants
  resolved to texts and terms) and of recursive strata, a model of the composed program, that is values
  of its nodes and relations that satisfy every node and every stratum, is a model of each part when its
  relations are read through the part's map and its nodes at the places they were composed to. So texts,
  literals and nodes shared between parts stand for the same thing in each, and a read of a \<open>Let\<close> that is
  replaced by an earlier part's has the same value.
\<close>

theorem compose_models:
  assumes "compose parts = Ok (p, maps)" and "is_model se phi p rho val" and "k < length parts"
  shows "\<exists>node. (\<forall>i < length (pr_nodes (snd (parts ! k))). node i < length (pr_nodes p)) \<and>
    is_model se (phi \<circ> the \<circ> maps ! k) (snd (parts ! k)) (rho \<circ> the \<circ> maps ! k) (val \<circ> node)"
proof -
  obtain cp where p: "p = composed_program cp" and run: "compose_parts parts [] compose_start = Ok (maps, cp)"
    using composeE [OF assms(1)] .
  note res = compose_parts_ok [OF run compose_parts_start]
  then obtain c nodes where c: "pn_rels c = maps ! k" and part: "part_in c nodes (snd (parts ! k)) p"
    using assms(3) p by auto
  from res have "terms_earlier p" using ids_terms_earlier p by blast
  from part_model [OF part this assms(2)] c have "is_model se (phi \<circ> the \<circ> maps ! k) (snd (parts ! k)) (rho \<circ> the \<circ> maps ! k) (val \<circ> (\<lambda>i. the (nodes ! i)))"
    by (simp add: comp_def)
  moreover have "\<forall>i < length (pr_nodes (snd (parts ! k))). the (nodes ! i) < length (pr_nodes p)"
    using part unfolding part_in_def by fastforce
  ultimately show ?thesis by (intro exI [of _ "\<lambda>i. the (nodes ! i)"]) simp
qed

text \<open>
  The relations of a composed program are numbered by their place; constructors are one relation
  per name; every relation of a part is a relation of the composed program with the same columns and
  kind, under its own name if it is a constructor and under the part's prefix otherwise; the outputs are
  those of the parts in order.
\<close>

theorem compose_relations:
  assumes "compose parts = Ok (p, maps)" and "\<forall>(prefix, part) \<in> set parts. distinct (map ir_id (pr_rels part))"
  shows "length maps = length parts \<and> (\<forall>i < length (pr_rels p). ir_id (pr_rels p ! i) = i) \<and>
    (\<forall>i < length (pr_rels p). \<forall>j < length (pr_rels p). ir_kind (pr_rels p ! i) = KConstructor \<and> ir_kind (pr_rels p ! j) = KConstructor \<and>
       ir_name (pr_rels p ! i) = ir_name (pr_rels p ! j) \<longrightarrow> i = j) \<and>
    (\<forall>k < length parts. \<forall>rel \<in> set (pr_rels (snd (parts ! k))). rel_kept (fst (parts ! k)) (maps ! k) (pr_rels p) rel) \<and>
    map Some (pr_outputs p) = concat (map (\<lambda>k. map (maps ! k) (pr_outputs (snd (parts ! k)))) [0..<length parts])"
proof -
  obtain cp where p: "p = composed_program cp" and run: "compose_parts parts [] compose_start = Ok (maps, cp)"
    using composeE [OF assms(1)] .
  note res = compose_parts_ok [OF run compose_parts_start]
  have prog: "pr_rels p = cp_rels cp" "pr_outputs p = cp_outputs cp" by (simp_all add: p composed_program_def)
  have inv: "rels_inv cp" using res by blast
  have unique: "i = j" if "i < length (cp_rels cp)" "j < length (cp_rels cp)" "ir_kind (cp_rels cp ! i) = KConstructor"
      "ir_kind (cp_rels cp ! j) = KConstructor" "ir_name (cp_rels cp ! i) = ir_name (cp_rels cp ! j)" for i j
  proof -
    have "cp_constructors cp (ir_name (cp_rels cp ! n)) = Some (n, ir_cols (cp_rels cp ! n))"
      if n: "n < length (cp_rels cp)" "ir_kind (cp_rels cp ! n) = KConstructor" for n
    proof -
      have "ir_id (cp_rels cp ! n) = n" using inv n(1) by (simp add: rels_inv_def)
      with n(2) have "cp_rels cp ! n = \<lparr>ir_id = n, ir_name = ir_name (cp_rels cp ! n), ir_cols = ir_cols (cp_rels cp ! n), ir_kind = KConstructor\<rparr>"
        by (intro ir_relation.equality) simp_all
      note eq = this
      have "cp_constructors cp name = Some (m, cols) \<longleftrightarrow>
          m < length (cp_rels cp) \<and> cp_rels cp ! m = \<lparr>ir_id = m, ir_name = name, ir_cols = cols, ir_kind = KConstructor\<rparr>" for name m cols
        using inv unfolding rels_inv_def by blast
      then show ?thesis by (rule iffD2) (rule conjI [OF n(1) eq])
    qed
    note at = this
    from trans [OF at [OF that(1,3), unfolded that(5), symmetric] at [OF that(2,4)]] show ?thesis by (simp only: option.inject prod.inject)
  qed
  have "\<forall>k < length parts. distinct (map ir_id (pr_rels (snd (parts ! k))))"
    using assms(2) by (auto simp: case_prod_beta)
  with res have kept: "\<forall>k < length parts. \<forall>rel \<in> set (pr_rels (snd (parts ! k))). rel_kept (fst (parts ! k)) (maps ! k) (cp_rels cp) rel" by simp
  obtain outs where outs: "length outs = length parts" "cp_outputs cp = concat outs"
      "\<forall>k < length parts. list_all2 (\<lambda>i n. (maps ! k) i = Some n) (pr_outputs (snd (parts ! k))) (outs ! k)"
    using res by (auto simp: compose_start_def)
  have "map Some (outs ! k) = map (maps ! k) (pr_outputs (snd (parts ! k)))" if "k < length parts" for k
    using outs(3) that by (auto simp: list_all2_conv_all_nth intro!: nth_equalityI)
  then have "map (map Some) outs = map (\<lambda>k. map (maps ! k) (pr_outputs (snd (parts ! k)))) [0..<length parts]"
    using outs(1) by (auto intro!: nth_equalityI)
  then have "map Some (cp_outputs cp) = concat (map (\<lambda>k. map (maps ! k) (pr_outputs (snd (parts ! k)))) [0..<length parts])"
    using outs(2) by (simp add: map_concat)
  moreover have "length maps = length parts" using res by simp
  moreover have "\<forall>i < length (cp_rels cp). ir_id (cp_rels cp ! i) = i" using inv by (simp add: rels_inv_def)
  ultimately show ?thesis unfolding prog using unique kept by blast
qed

subsection \<open>Applied\<close>

text \<open>
  The two parts of the code's own test: each has a source, the constructor \<open>f\<close>, a text, a literal of it
  and one over that literal.
\<close>

definition demo_part :: "string \<Rightarrow> ir_program" where
  "demo_part name = \<lparr>pr_texts = [name @ '' text''],
     pr_terms = [\<lparr>lit_functor = 1, lit_args = [TaText 0]\<rparr>, \<lparr>lit_functor = 1, lit_args = [TaTerm 0]\<rparr>],
     pr_rels = [\<lparr>ir_id = 0, ir_name = ''src'', ir_cols = [TInt], ir_kind = KSource\<rparr>,
       \<lparr>ir_id = 1, ir_name = ''f'', ir_cols = [TId, TId], ir_kind = KConstructor\<rparr>, \<lparr>ir_id = 2, ir_name = ''out'', ir_cols = [TInt], ir_kind = KDerived\<rparr>],
     pr_nodes = [OGet 0, OMfp 0 [ECall FNe [ECol 0, EText 0]] [ETerm 1] []], pr_strata = [SLet 2 1], pr_outputs = [2]\<rparr>"

definition demo_composed :: ir_program where
  "demo_composed = \<lparr>pr_texts = [''a text'', ''b text''],
     pr_terms = [\<lparr>lit_functor = 1, lit_args = [TaText 0]\<rparr>, \<lparr>lit_functor = 1, lit_args = [TaTerm 0]\<rparr>,
       \<lparr>lit_functor = 1, lit_args = [TaText 1]\<rparr>, \<lparr>lit_functor = 1, lit_args = [TaTerm 2]\<rparr>],
     pr_rels = [\<lparr>ir_id = 0, ir_name = ''a.src'', ir_cols = [TInt], ir_kind = KSource\<rparr>,
       \<lparr>ir_id = 1, ir_name = ''f'', ir_cols = [TId, TId], ir_kind = KConstructor\<rparr>, \<lparr>ir_id = 2, ir_name = ''a.out'', ir_cols = [TInt], ir_kind = KDerived\<rparr>,
       \<lparr>ir_id = 3, ir_name = ''b.src'', ir_cols = [TInt], ir_kind = KSource\<rparr>, \<lparr>ir_id = 4, ir_name = ''b.out'', ir_cols = [TInt], ir_kind = KDerived\<rparr>],
     pr_nodes = [OGet 0, OMfp 0 [ECall FNe [ECol 0, EText 0]] [ETerm 1] [], OGet 3, OMfp 2 [ECall FNe [ECol 0, EText 1]] [ETerm 3] []],
     pr_strata = [SLet 2 1, SLet 4 3], pr_outputs = [2, 4]\<rparr>"

lemma demo_compose:
  "compose [(''a.'', demo_part ''a''), (''b.'', demo_part ''b'')] = Ok (demo_composed, [[0 \<mapsto> 0, 1 \<mapsto> 1, 2 \<mapsto> 2], [0 \<mapsto> 3, 1 \<mapsto> 1, 2 \<mapsto> 4]])"
  by (simp add: compose_def demo_part_def demo_composed_def compose_part_def compose_start_def compose_rel_def new_rel_def compose_lit_def compose_arg_def
    map_at_def part_context_def walk_start_def Let_def node_deps_def open_deps_def compose_node_def source_free_def compose_op_def compose_get_def
    node_at_def let_bodies_def expr_texts_def add_node_def composed_program_def vec_get_def vec_index_def rust_simps)
    (simp add: numeral_eq_Suc)

lemma demo_lengths: "length (pr_nodes (demo_part s)) = 2" "length (pr_nodes demo_composed) = 4"
  by (simp_all add: demo_part_def demo_composed_def)

definition demo_value :: "nat \<Rightarrow> int" where
  "demo_value n = (if n = 0 then 5 else if n = 1 then 6 else if n = 2 then 7 else 9)"

definition demo_rels :: "nat \<Rightarrow> int" where
  "demo_rels r = (if r = 0 then 5 else if r = 2 then 6 else if r = 3 then 7 else 9)"

definition demo_semantics :: "(nat, int) semantics" where
  "demo_semantics = \<lparr>se_op = (\<lambda>op vs. case op of
       CMfp [CCall FNe [CCol 0, CText s]] _ _ \<Rightarrow> hd vs + (if s = ''a text'' then 1 else 2) | _ \<Rightarrow> 0), se_rec = (\<lambda>_ _. True)\<rparr>"

theorem compose_models_witness:
  "\<exists>node. (\<forall>i < 2. node i < 4) \<and> is_model demo_semantics (id \<circ> the \<circ> [0 \<mapsto> 3, 1 \<mapsto> 1, 2 \<mapsto> 4]) (demo_part ''b'')
     (demo_rels \<circ> the \<circ> [0 \<mapsto> 3, 1 \<mapsto> 1, 2 \<mapsto> 4]) (demo_value \<circ> node)"
proof -
  have "is_model demo_semantics id demo_composed demo_rels demo_value"
    by (auto simp: demo_rels_def is_model_def demo_composed_def demo_semantics_def demo_value_def op_value_def stratum_holds_def less_Suc_eq numeral_eq_Suc)
  from compose_models [OF demo_compose this, of 1] show ?thesis by (simp add: demo_lengths)
qed

theorem compose_relations_witness:
  "map Some (pr_outputs demo_composed) = [Some 2, Some 4] \<and> rel_kept ''b.'' [0 \<mapsto> 3, 1 \<mapsto> 1, 2 \<mapsto> 4] (pr_rels demo_composed) (pr_rels (demo_part ''b'') ! 0)"
proof -
  have "\<forall>(prefix, part) \<in> set [(''a.'', demo_part ''a''), (''b.'', demo_part ''b'')]. distinct (map ir_id (pr_rels part))"
    by (simp add: demo_part_def)
  note res = compose_relations [OF demo_compose this]
  from res have "rel_kept ''b.'' [0 \<mapsto> 3, 1 \<mapsto> 1, 2 \<mapsto> 4] (pr_rels demo_composed) (pr_rels (demo_part ''b'') ! 0)"
    by (auto simp: demo_part_def less_Suc_eq numeral_eq_Suc)
  moreover from res have "map Some (pr_outputs demo_composed) = [Some 2, Some 4]" by (simp add: demo_part_def)
  ultimately show ?thesis by blast
qed

end
