(* ===== verification/Rel_Engine.thy ===== *)
theory Rel_Engine
  imports Ir_Dict_Theorems
begin

text \<open>
  The contract of engines (\<open>crates/ivm-engine/src/1_rel.rs\<close>): errors, counters, and the default
  \<open>intern_term_batch\<close>, which interns terms that name earlier terms of the same batch by calling
  \<open>intern_terms\<close> once per depth. An engine's own state is the type variable \<open>'s\<close>; an operation that
  fails gives no state, as callers give the engine up.
\<close>

subsection \<open>Errors and counters\<close>

datatype stage = StCheck | StInstall | StSettle | StSnapshot

datatype error_kind =
    Unsupported string
  | UnknownRel nat
  | UnknownNode nat
  | ArityMismatch nat nat
  | PresentInsert ir_row
  | Worker string
  | LetRecLimit nat

record engine_error =
  ee_stage :: stage
  ee_rel :: "nat option"
  ee_kind :: error_kind

definition engine_err :: "stage \<Rightarrow> nat option \<Rightarrow> error_kind \<Rightarrow> engine_error" where
  "engine_err st rel kind = \<lparr>ee_stage = st, ee_rel = rel, ee_kind = kind\<rparr>"

record delta_rows =
  dr_filter :: "u64 option"
  dr_join :: "u64 option"
  dr_antijoin :: "u64 option"
  dr_reduce :: "u64 option"
  dr_topk :: "u64 option"
  dr_window :: "u64 option"
  dr_mint :: "u64 option"

record counters =
  ct_rows_written :: u64
  ct_delta_rows :: delta_rows
  ct_rounds :: "u64 option"
  ct_interned :: "u64 option"
  ct_statements :: "u64 option"

definition counters_default :: counters where
  "counters_default = \<lparr>ct_rows_written = 0,
     ct_delta_rows = \<lparr>dr_filter = None, dr_join = None, dr_antijoin = None, dr_reduce = None, dr_topk = None, dr_window = None, dr_mint = None\<rparr>,
     ct_rounds = None, ct_interned = None, ct_statements = None\<rparr>"

definition counters_measured :: counters where
  "counters_measured = counters_default\<lparr>
     ct_delta_rows := \<lparr>dr_filter = Some 0, dr_join = Some 0, dr_antijoin = Some 0, dr_reduce = Some 0, dr_topk = Some 0, dr_window = Some 0, dr_mint = Some 0\<rparr>,
     ct_rounds := Some 0, ct_interned := Some 0, ct_statements := Some 0\<rparr>"

subsection \<open>Interning a batch\<close>

datatype batch_arg = BCell i64 | BEarlier nat

fun batch_cell :: "i64 list \<Rightarrow> batch_arg \<Rightarrow> ('e, i64) rust" where
  "batch_cell given (BCell c) = Ok c"
| "batch_cell given (BEarlier i) = vec_index given i"

type_synonym batch_term = "nat \<times> batch_arg list"
type_synonym 's interning = "'s \<Rightarrow> (nat \<times> ir_row) list \<Rightarrow> (engine_error, i64 list \<times> 's) rust"

definition later_term :: "nat \<Rightarrow> engine_error" where
  "later_term functor = engine_err StSettle (Some functor) (Unsupported ''intern_term_batch: argument names a later term'')"

fun arg_level :: "nat \<Rightarrow> nat \<Rightarrow> nat list \<Rightarrow> nat \<Rightarrow> batch_arg list \<Rightarrow> (engine_error, nat) rust" where
  "arg_level functor index depth level [] = Ok level"
| "arg_level functor index depth level (BCell c # args) = arg_level functor index depth level args"
| "arg_level functor index depth level (BEarlier earlier # args) =
     (if index \<le> earlier then Err (later_term functor)
      else rust_bind (vec_index depth earlier) (\<lambda>d. arg_level functor index depth (max level (d + 1)) args))"

fun batch_depths :: "nat list \<Rightarrow> batch_term list \<Rightarrow> (engine_error, nat list) rust" where
  "batch_depths depth [] = Ok depth"
| "batch_depths depth ((functor, args) # terms) =
     rust_bind (arg_level functor (length depth) depth 0 args) (\<lambda>level. batch_depths (depth @ [level]) terms)"

fun by_level :: "nat list list \<Rightarrow> nat \<Rightarrow> nat list \<Rightarrow> nat list list" where
  "by_level buckets index [] = buckets"
| "by_level buckets index (level # depth) = by_level (buckets[level := buckets ! level @ [index]]) (index + 1) depth"

definition batch_rows :: "batch_term list \<Rightarrow> i64 list \<Rightarrow> nat list \<Rightarrow> (engine_error, (nat \<times> ir_row) list) rust" where
  "batch_rows terms cells indexes =
     map_rust (\<lambda>i. rust_bind (map_rust (batch_cell cells) (snd (terms ! i))) (\<lambda>args. Ok (fst (terms ! i), args))) indexes"

fun batch_levels :: "'s interning \<Rightarrow> batch_term list \<Rightarrow> nat list list \<Rightarrow> i64 list \<Rightarrow> 's \<Rightarrow> (engine_error, i64 list \<times> 's) rust" where
  "batch_levels intern_terms terms [] cells s = Ok (cells, s)"
| "batch_levels intern_terms terms (indexes # levels) cells s =
     rust_bind (batch_rows terms cells indexes) (\<lambda>rows.
     rust_bind (intern_terms s rows) (\<lambda>(ids, s1).
       batch_levels intern_terms terms levels (fold (\<lambda>(i, c) cs. cs[i := c]) (zip indexes ids) cells) s1))"

definition intern_term_batch :: "'s interning \<Rightarrow> batch_term list \<Rightarrow> 's \<Rightarrow> (engine_error, i64 list \<times> 's) rust" where
  "intern_term_batch intern_terms terms s =
     rust_bind (batch_depths [] terms) (\<lambda>depth.
       let levels = (case depth of [] \<Rightarrow> 0 | _ \<Rightarrow> Max (set depth) + 1)
       in batch_levels intern_terms terms (by_level (replicate levels []) 0 depth) (replicate (length terms) 0) s)"

subsection \<open>Depths\<close>

text \<open>A term at an index names a term that is not before it.\<close>

definition names_later :: "nat \<Rightarrow> batch_arg list \<Rightarrow> bool" where
  "names_later index args \<longleftrightarrow> (\<exists>e. BEarlier e \<in> set args \<and> index \<le> e)"

lemma names_later_simps [simp]:
  "\<not> names_later index []" "names_later index (BCell c # args) \<longleftrightarrow> names_later index args"
  "names_later index (BEarlier e # args) \<longleftrightarrow> index \<le> e \<or> names_later index args"
  by (auto simp: names_later_def)

lemma names_laterD: "\<not> names_later index args \<Longrightarrow> BEarlier e \<in> set args \<Longrightarrow> e < index"
  by (auto simp: names_later_def not_le)

definition some_later :: "nat \<Rightarrow> batch_term list \<Rightarrow> bool" where
  "some_later base terms \<longleftrightarrow> (\<exists>i < length terms. names_later (base + i) (snd (terms ! i)))"

lemma some_later_simps [simp]:
  "\<not> some_later base []" "some_later base (t # terms) \<longleftrightarrow> names_later base (snd t) \<or> some_later (Suc base) terms"
  by (auto simp: some_later_def Ex_less_Suc2)

text \<open>Depths rise along the names.\<close>

definition depths_rise :: "batch_term list \<Rightarrow> nat list \<Rightarrow> bool" where
  "depths_rise terms depth \<longleftrightarrow> (\<forall>i < length depth. \<forall>e. BEarlier e \<in> set (snd (terms ! i)) \<longrightarrow> e < i \<and> depth ! e < depth ! i)"

lemma arg_level_later: "names_later (length depth) args \<Longrightarrow> arg_level f (length depth) depth level args = Err (later_term f)"
proof (induction args arbitrary: level)
  case (Cons a args)
  then show ?case by (cases a) (auto simp: vec_index_def)
qed simp

lemma arg_level_ok:
  "\<not> names_later (length depth) args \<Longrightarrow>
   \<exists>l. arg_level f (length depth) depth level args = Ok l \<and> level \<le> l \<and> (\<forall>e. BEarlier e \<in> set args \<longrightarrow> depth ! e < l)"
proof (induction args arbitrary: level)
  case (Cons a args)
  show ?case
  proof (cases a)
    case (BCell c)
    with Cons show ?thesis by auto
  next
    case (BEarlier e)
    with Cons.prems have "e < length depth" and n: "\<not> names_later (length depth) args" by auto
    moreover obtain l where "arg_level f (length depth) depth (max level (depth ! e + 1)) args = Ok l" "max level (depth ! e + 1) \<le> l"
        "\<forall>e. BEarlier e \<in> set args \<longrightarrow> depth ! e < l"
      using Cons.IH [OF n] by blast
    ultimately show ?thesis using BEarlier by (auto simp: vec_index_def)
  qed
qed simp

lemma depths_rise_snoc:
  assumes "depths_rise (pre @ t # terms) depth" and "length depth = length pre"
    and "\<not> names_later (length depth) (snd t)" and "\<forall>e. BEarlier e \<in> set (snd t) \<longrightarrow> depth ! e < l"
  shows "depths_rise (pre @ t # terms) (depth @ [l])"
  unfolding depths_rise_def
proof (intro allI impI)
  fix i e
  assume i: "i < length (depth @ [l])" and e: "BEarlier e \<in> set (snd ((pre @ t # terms) ! i))"
  show "e < i \<and> (depth @ [l]) ! e < (depth @ [l]) ! i"
  proof (cases "i < length depth")
    case True
    with assms(1) e have "e < i \<and> depth ! e < depth ! i" by (simp add: depths_rise_def)
    with True show ?thesis by (simp add: nth_append)
  next
    case False
    with i have eq: "i = length depth" by simp
    with e assms(2) have e': "BEarlier e \<in> set (snd t)" by (simp add: nth_append)
    with names_laterD [OF assms(3)] assms(4) eq show ?thesis by (simp add: nth_append)
  qed
qed

lemma batch_depths_later:
  "some_later (length depth) terms \<Longrightarrow> \<exists>f \<in> fst ` set terms. batch_depths depth terms = Err (later_term f)"
proof (induction terms arbitrary: depth)
  case (Cons t terms)
  obtain f args where t: "t = (f, args)" by (cases t)
  show ?case
  proof (cases "names_later (length depth) args")
    case True
    with t show ?thesis by (simp add: arg_level_later)
  next
    case False
    with arg_level_ok obtain l where "arg_level f (length depth) depth 0 args = Ok l" by blast
    with False t Cons.prems Cons.IH [of "depth @ [l]"] show ?thesis by auto
  qed
qed simp

lemma batch_depths_rise:
  "\<not> some_later (length depth) terms \<Longrightarrow> depths_rise (pre @ terms) depth \<Longrightarrow> length depth = length pre \<Longrightarrow>
   \<exists>d. batch_depths depth terms = Ok d \<and> length d = length (pre @ terms) \<and> depths_rise (pre @ terms) d"
proof (induction terms arbitrary: pre depth)
  case (Cons t terms)
  obtain f args where t: "t = (f, args)" by (cases t)
  with Cons.prems have nl: "\<not> names_later (length depth) args" by simp
  with arg_level_ok obtain l where l: "arg_level f (length depth) depth 0 args = Ok l" "\<forall>e. BEarlier e \<in> set args \<longrightarrow> depth ! e < l"
    by blast
  with depths_rise_snoc [OF Cons.prems(2,3)] nl t have "depths_rise ((pre @ [t]) @ terms) (depth @ [l])" by simp
  from Cons.IH [OF _ this] Cons.prems(1,3) l(1) t show ?case by simp
qed simp

lemma batch_depths_ok:
  "\<not> some_later 0 terms \<Longrightarrow> \<exists>d. batch_depths [] terms = Ok d \<and> length d = length terms \<and> depths_rise terms d"
  using batch_depths_rise [of "[]" terms "[]"] by (simp add: depths_rise_def)

lemma by_level_nth:
  assumes "l < length buckets" and "\<forall>d \<in> set depth. d < length buckets"
  shows "by_level buckets index depth ! l = buckets ! l @ filter (\<lambda>i. depth ! (i - index) = l) [index..<index + length depth]"
  using assms
proof (induction depth arbitrary: buckets index)
  case (Cons d depth)
  have "filter (\<lambda>i. depth ! (i - Suc index) = l) [Suc index..<Suc index + length depth] =
      filter (\<lambda>i. (d # depth) ! (i - index) = l) [Suc index..<index + length (d # depth)]"
    by (rule filter_cong) (auto simp: nth_Cons' Suc_diff_le)
  moreover have "[index..<index + length (d # depth)] = index # [Suc index..<index + length (d # depth)]"
    by (simp add: upt_conv_Cons del: upt_Suc)
  ultimately show ?case using Cons by (auto simp: nth_list_update)
qed simp

lemma by_level_length: "length (by_level buckets index depth) = length buckets"
  by (induction depth arbitrary: buckets index) auto

lemma by_level_buckets:
  assumes "\<forall>d \<in> set depth. d < L"
  shows "by_level (replicate L []) 0 depth = map (\<lambda>l. filter (\<lambda>i. depth ! i = l) [0..<length depth]) [0..<L]"
  using by_level_nth [of _ "replicate L []" depth 0] assms by (intro nth_equalityI) (simp_all add: by_level_length)

subsection \<open>Terms of a batch\<close>

definition cell_at :: "i64 list \<Rightarrow> batch_arg \<Rightarrow> i64" where
  "cell_at cells a = (case a of BCell c \<Rightarrow> c | BEarlier e \<Rightarrow> cells ! e)"

definition row_at :: "batch_term list \<Rightarrow> i64 list \<Rightarrow> nat \<Rightarrow> nat \<times> ir_row" where
  "row_at terms cells i = (fst (terms ! i), map (cell_at cells) (snd (terms ! i)))"

lemma batch_rows_ok:
  assumes "depths_rise terms depth" and "length depth = length terms" and "length cells = length terms" and "\<forall>i \<in> set indexes. i < length terms"
  shows "batch_rows terms cells indexes = Ok (map (row_at terms cells) indexes)"
  unfolding batch_rows_def
proof (rule map_rust_OkI)
  fix i
  assume "i \<in> set indexes"
  then have i: "i < length terms" using assms(4) by blast
  have "(batch_cell cells a :: (engine_error, _) rust) = Ok (cell_at cells a)" if "a \<in> set (snd (terms ! i))" for a
  proof (cases a)
    case (BEarlier e)
    with that i assms(1,2) have "e < i" unfolding depths_rise_def by auto
    with BEarlier i assms(3) show ?thesis by (simp add: cell_at_def vec_index_def)
  qed (simp add: cell_at_def)
  then have "(map_rust (batch_cell cells) (snd (terms ! i)) :: (engine_error, _) rust) = Ok (map (cell_at cells) (snd (terms ! i)))" by (rule map_rust_OkI)
  then show "rust_bind (map_rust (batch_cell cells) (snd (terms ! i))) (\<lambda>args. Ok (fst (terms ! i), args)) = (Ok (row_at terms cells i) :: (engine_error, _) rust)"
    by (simp add: row_at_def)
qed

lemma row_at_cong:
  assumes "depths_rise terms depth" and "length depth = length terms" and "i < length terms"
    and "\<And>e. depth ! e < depth ! i \<Longrightarrow> cells ! e = cells' ! e"
  shows "row_at terms cells i = row_at terms cells' i"
proof -
  have "cell_at cells a = cell_at cells' a" if "a \<in> set (snd (terms ! i))" for a
    by (cases a) (use that assms in \<open>auto simp: cell_at_def depths_rise_def\<close>)
  then show ?thesis by (simp add: row_at_def)
qed

definition give :: "nat list \<Rightarrow> i64 list \<Rightarrow> i64 list \<Rightarrow> i64 list" where
  "give indexes ids cells = fold (\<lambda>(i, c) cs. cs[i := c]) (zip indexes ids) cells"

lemma give_length [simp]: "length (give indexes ids cells) = length cells"
  unfolding give_def by (induction indexes ids arbitrary: cells rule: list_induct2') auto

lemma give_other: "i \<notin> set indexes \<Longrightarrow> give indexes ids cells ! i = cells ! i"
  unfolding give_def by (induction indexes ids arbitrary: cells rule: list_induct2') auto

lemma give_nth:
  "length indexes = length ids \<Longrightarrow> distinct indexes \<Longrightarrow> \<forall>i \<in> set indexes. i < length cells \<Longrightarrow> k < length indexes \<Longrightarrow>
   give indexes ids cells ! (indexes ! k) = ids ! k"
proof (induction indexes ids arbitrary: cells k rule: list_induct2)
  case (Cons i indexes c ids)
  have step: "give (i # indexes) (c # ids) cells = give indexes ids (cells[i := c])" by (simp add: give_def)
  show ?case
  proof (cases k)
    case 0
    with Cons.prems show ?thesis by (simp add: step give_other)
  next
    case (Suc m)
    with Cons.prems Cons.IH [of "cells[i := c]" m] show ?thesis by (simp add: step)
  qed
qed simp

text \<open>
  What \<open>intern_term_batch\<close> relies on: an engine interns constructor terms, each id it returns stands
  for the term asked for, and ids keep their terms.
\<close>

locale term_interner =
  fixes intern_terms :: "'s \<Rightarrow> (nat \<times> ir_row) list \<Rightarrow> (engine_error, i64 list \<times> 's) rust"
    and inv :: "'s \<Rightarrow> bool" and is_term :: "'s \<Rightarrow> i64 \<Rightarrow> nat \<times> ir_row \<Rightarrow> bool"
  assumes intern_inv: "inv s \<Longrightarrow> intern_terms s rows = Ok (ids, s') \<Longrightarrow> inv s'"
    and intern_length: "inv s \<Longrightarrow> intern_terms s rows = Ok (ids, s') \<Longrightarrow> length ids = length rows"
    and intern_named: "inv s \<Longrightarrow> intern_terms s rows = Ok (ids, s') \<Longrightarrow> k < length rows \<Longrightarrow> is_term s' (ids ! k) (rows ! k)"
    and intern_keeps: "inv s \<Longrightarrow> intern_terms s rows = Ok (ids, s') \<Longrightarrow> is_term s n t \<Longrightarrow> is_term s' n t"
begin

lemma levels_named:
  assumes rise: "depths_rise terms depth" and len: "length depth = length terms"
  shows "batch_levels intern_terms terms (map (\<lambda>l. filter (\<lambda>i. depth ! i = l) [0..<length terms]) [l..<L]) cells s = Ok (cells', s') \<Longrightarrow>
    inv s \<Longrightarrow> length cells = length terms \<Longrightarrow> (\<And>i. i < length terms \<Longrightarrow> depth ! i < l \<Longrightarrow> is_term s (cells ! i) (row_at terms cells i)) \<Longrightarrow>
    inv s' \<and> length cells' = length terms \<and> (\<forall>n t. is_term s n t \<longrightarrow> is_term s' n t) \<and>
    (\<forall>i < length terms. depth ! i < max l L \<longrightarrow> is_term s' (cells' ! i) (row_at terms cells' i))"
proof (induction "L - l" arbitrary: l cells s)
  case 0
  then show ?case by (simp add: max_def)
next
  case (Suc d)
  let ?ix = "filter (\<lambda>i. depth ! i = l) [0..<length terms]"
  have l: "l < L" and d: "d = L - Suc l" using Suc.hyps(2) by simp_all
  have rows: "batch_rows terms cells ?ix = Ok (map (row_at terms cells) ?ix)"
    by (rule batch_rows_ok [OF rise len Suc.prems(3)]) simp
  obtain ids s1 where run: "intern_terms s (map (row_at terms cells) ?ix) = Ok (ids, s1)"
    and rest: "batch_levels intern_terms terms (map (\<lambda>l. filter (\<lambda>i. depth ! i = l) [0..<length terms]) [Suc l..<L]) (give ?ix ids cells) s1 = Ok (cells', s')"
    using Suc.prems(1) l rows by (auto simp: upt_conv_Cons give_def rust_simps)
  have ids: "length ids = length ?ix" using intern_length [OF Suc.prems(2) run] by simp
  have at: "row_at terms (give ?ix ids cells) i = row_at terms cells i" if "i < length terms" "depth ! i \<le> l" for i
    by (rule row_at_cong [OF rise len that(1)]) (use that(2) in \<open>simp add: give_other\<close>)
  have named: "is_term s1 (give ?ix ids cells ! i) (row_at terms (give ?ix ids cells) i)" if i: "i < length terms" "depth ! i < Suc l" for i
  proof (cases "depth ! i = l")
    case True
    then have "i \<in> set ?ix" using i(1) by simp
    then obtain k where k: "k < length ?ix" "?ix ! k = i" unfolding in_set_conv_nth by blast
    have "give ?ix ids cells ! i = ids ! k" using give_nth [of ?ix ids cells k] k ids Suc.prems(3) by simp
    moreover have "is_term s1 (ids ! k) (row_at terms cells i)" using intern_named [OF Suc.prems(2) run, of k] k by simp
    ultimately show ?thesis using at i by simp
  next
    case False
    with i Suc.prems(4) have "is_term s (cells ! i) (row_at terms cells i)" by simp
    from intern_keeps [OF Suc.prems(2) run this] False i at show ?thesis by (simp add: give_other)
  qed
  from Suc.hyps(1) [OF d rest intern_inv [OF Suc.prems(2) run] _ named] Suc.prems(3) l intern_keeps [OF Suc.prems(2) run]
  show ?case by (simp add: max_def split: if_splits)
qed

lemma batch_named:
  assumes "intern_term_batch intern_terms terms s = Ok (cells, s')" and "inv s"
  shows "inv s' \<and> length cells = length terms \<and> (\<forall>n t. is_term s n t \<longrightarrow> is_term s' n t) \<and>
    (\<forall>i < length terms. is_term s' (cells ! i) (row_at terms cells i))"
proof -
  have "\<not> some_later 0 terms" using assms(1) batch_depths_later [of "[]" terms] by (auto simp: intern_term_batch_def)
  then obtain depth where d: "batch_depths [] terms = Ok depth" "length depth = length terms" "depths_rise terms depth"
    using batch_depths_ok by blast
  define L where "L = (case depth of [] \<Rightarrow> 0 | _ \<Rightarrow> Max (set depth) + 1)"
  have bound: "depth ! i < L" if "i < length terms" for i
  proof -
    have "depth ! i \<in> set depth" using that d(2) by simp
    then have "depth ! i \<le> Max (set depth)" by simp
    then show ?thesis using that d(2) by (cases depth) (simp_all add: L_def del: Max_less_iff)
  qed
  then have "by_level (replicate L []) 0 depth = map (\<lambda>l. filter (\<lambda>i. depth ! i = l) [0..<length terms]) [0..<L]"
    using by_level_buckets [of depth L] d(2) by (simp add: all_set_conv_all_nth)
  with assms(1) d(1) have "batch_levels intern_terms terms (map (\<lambda>l. filter (\<lambda>i. depth ! i = l) [0..<length terms]) [0..<L])
      (replicate (length terms) 0) s = Ok (cells, s')"
    by (simp add: intern_term_batch_def L_def)
  from levels_named [OF d(3,2) this assms(2)] bound show ?thesis by simp
qed

end

end
