(* ===== verification/Rel_Lower.thy ===== *)
theory Rel_Lower
  imports Rel_Engine Ir_Memo
begin

text \<open>
  The lowering of programs (\<open>lower\<close>, \<open>lower_node\<close>, \<open>build_op_node\<close> and the functions they share, of
  \<open>crates/ivm-engine/src/1_rel.rs\<close>). An engine implements the operator algebra: a record of functions
  over its own state \<open>'s\<close> and its collections \<open>'c\<close>. The walk over the node graph keeps an explicit
  stack; it returns on every program.
\<close>

subsection \<open>The operator algebra\<close>

type_synonym ('s, 'a) run = "'s \<Rightarrow> (engine_error, 'a \<times> 's) rust"

definition run_return :: "'a \<Rightarrow> ('s, 'a) run" where
  "run_return a s = Ok (a, s)"

definition run_bind :: "('s, 'a) run \<Rightarrow> ('a \<Rightarrow> ('s, 'b) run) \<Rightarrow> ('s, 'b) run" where
  "run_bind m f s = rust_bind (m s) (\<lambda>(a, s1). f a s1)"

definition run_lift :: "(engine_error, 'a) rust \<Rightarrow> ('s, 'a) run" where
  "run_lift r s = rust_bind r (\<lambda>a. Ok (a, s))"

fun run_map :: "('x \<Rightarrow> ('s, 'a) run) \<Rightarrow> 'x list \<Rightarrow> ('s, 'a list) run" where
  "run_map f [] = run_return []"
| "run_map f (x # xs) = run_bind (f x) (\<lambda>y. run_bind (run_map f xs) (\<lambda>ys. run_return (y # ys)))"

type_synonym join_classes = "(nat \<times> nat) list list"

record ('s, 'c) rel_algebra =
  ra_get :: "nat \<Rightarrow> ('s, 'c) run"
  ra_mint :: "'c \<Rightarrow> nat \<Rightarrow> nat list \<Rightarrow> ('s, 'c) run"
  ra_str_cons :: "'c \<Rightarrow> str_mode \<Rightarrow> ('s, 'c) run"
  ra_str_op :: "'c \<Rightarrow> str_op \<Rightarrow> nat list \<Rightarrow> ('s, 'c) run"
  ra_vec_op :: "'c \<Rightarrow> vec_op \<Rightarrow> nat list \<Rightarrow> ('s, 'c) run"
  ra_mfp :: "'c \<Rightarrow> expr list \<Rightarrow> expr list \<Rightarrow> nat list \<Rightarrow> ty list \<Rightarrow> ('s, 'c) run"
  ra_union :: "'c list \<Rightarrow> ('s, 'c) run"
  ra_negate :: "'c \<Rightarrow> ('s, 'c) run"
  ra_join :: "'c list \<Rightarrow> join_classes \<Rightarrow> ty list list \<Rightarrow> ('s, 'c) run"
  ra_fuses :: bool
  ra_join_project :: "'c list \<Rightarrow> join_classes \<Rightarrow> ty list list \<Rightarrow> nat list \<Rightarrow> ('s, 'c) run"
  ra_decode :: "'c \<Rightarrow> nat \<Rightarrow> nat \<Rightarrow> ty list list \<Rightarrow> ('s, 'c) run"
  ra_antijoin :: "'c \<Rightarrow> 'c \<Rightarrow> nat list \<Rightarrow> nat list \<Rightarrow> ('s, 'c) run"
  ra_reduce :: "'c \<Rightarrow> nat list \<Rightarrow> agg list \<Rightarrow> ty list \<Rightarrow> ('s, 'c) run"
  ra_threshold :: "'c \<Rightarrow> ('s, 'c) run"
  ra_topk :: "'c \<Rightarrow> nat list \<Rightarrow> order_by list \<Rightarrow> nat \<Rightarrow> ty list \<Rightarrow> ('s, 'c) run"
  ra_window :: "'c \<Rightarrow> nat list \<Rightarrow> order_by list \<Rightarrow> win_fn \<Rightarrow> ty list \<Rightarrow> ('s, 'c) run"
  ra_letrec :: "ir_program \<Rightarrow> let_rec \<Rightarrow> (nat \<times> 'c) list \<Rightarrow> 'c option list \<Rightarrow> ('s, 'c list \<times> 'c option list) run"
  ra_output :: "nat \<Rightarrow> 'c \<Rightarrow> ('s, unit) run"
  ra_node_types :: "ir_program \<Rightarrow> nat \<Rightarrow> ('s, ty list option) run"
  ra_observe :: "nat \<Rightarrow> 'c \<Rightarrow> ('s, 'c) run"

definition unsupported :: "string \<Rightarrow> engine_error" where
  "unsupported what = engine_err StInstall None (Unsupported what)"

text \<open>The methods an algebra may leave to the trait.\<close>

definition default_vec_op :: "'c \<Rightarrow> vec_op \<Rightarrow> nat list \<Rightarrow> ('s, 'c) run" where
  "default_vec_op c op args = run_lift (Err (unsupported ''vec op''))"

definition default_join_project :: "('s, 'c) rel_algebra \<Rightarrow> 'c list \<Rightarrow> join_classes \<Rightarrow> ty list list \<Rightarrow> nat list \<Rightarrow> ('s, 'c) run" where
  "default_join_project a cs eq types project =
     run_bind (ra_join a cs eq types) (\<lambda>c. ra_mfp a c [] [] project (concat types))"

definition default_decode :: "('s, 'c) rel_algebra \<Rightarrow> 'c \<Rightarrow> nat \<Rightarrow> nat \<Rightarrow> ty list list \<Rightarrow> ('s, 'c) run" where
  "default_decode a c functor col types =
     run_bind (ra_get a functor) (\<lambda>k. ra_join a [c, k] [[(0, col), (1, 0)]] types)"

definition default_node_types :: "ir_program \<Rightarrow> nat \<Rightarrow> ('s, ty list option) run" where
  "default_node_types p n = run_return (node_types p n)"

subsection \<open>Constructor decodes and projected joins\<close>

definition decoded_side :: "ir_program \<Rightarrow> (nat \<times> 'c) list \<Rightarrow> nat list \<Rightarrow> nat \<times> nat \<Rightarrow> nat \<times> nat \<Rightarrow> nat \<times> nat \<Rightarrow> (nat \<times> nat \<times> nat) option" where
  "decoded_side p defined inputs first1 second1 cand =
     (case cand of (side, col) \<Rightarrow>
       Option.bind (vec_get inputs side) (\<lambda>n. Option.bind (vec_get (pr_nodes p) n) (\<lambda>op.
         case op of
           OGet rel \<Rightarrow> Option.bind (ir_rel p rel) (\<lambda>r.
             let constructor = ir_kind r = KConstructor \<and> \<not> list_ex (\<lambda>(d, _). d = rel) defined;
                 other = (if fst first1 = side then second1 else first1)
             in if constructor \<and> col = 0 then Some (side, snd other, rel) else None)
         | _ \<Rightarrow> None)))"

definition decoded :: "ir_program \<Rightarrow> (nat \<times> 'c) list \<Rightarrow> nat list \<Rightarrow> join_classes \<Rightarrow> (nat \<times> nat \<times> nat) option" where
  "decoded p defined inputs equivalences =
     (case equivalences of
        [[first1, second1]] \<Rightarrow>
          if length inputs \<noteq> 2 \<or> fst first1 = fst second1 then None
          else (case decoded_side p defined inputs first1 second1 first1 of
                  Some r \<Rightarrow> Some r
                | None \<Rightarrow> decoded_side p defined inputs first1 second1 second1)
      | _ \<Rightarrow> None)"

definition join_parts :: "ir_program \<Rightarrow> ir_op \<Rightarrow> (nat list \<times> join_classes \<times> nat list) option" where
  "join_parts p op =
     (case op of
        OJoin inputs equivalences project \<Rightarrow> if project \<noteq> [] then Some (inputs, equivalences, project) else None
      | OMfp input filter1 map1 project \<Rightarrow>
          if filter1 \<noteq> [] \<or> map1 \<noteq> [] \<or> project = [] then None
          else (case vec_get (pr_nodes p) input of
                  Some (OJoin inputs equivalences none1) \<Rightarrow> if none1 \<noteq> [] then None else Some (inputs, equivalences, project)
                | _ \<Rightarrow> None)
      | _ \<Rightarrow> None)"

definition projected_join :: "ir_program \<Rightarrow> (nat \<times> 'c) list \<Rightarrow> ir_op \<Rightarrow> (nat list \<times> join_classes \<times> nat list) option" where
  "projected_join p defined op =
     (case join_parts p op of
        None \<Rightarrow> None
      | Some (inputs, equivalences, project) \<Rightarrow>
          if length inputs = 2 \<and> decoded p defined inputs equivalences = None then Some (inputs, equivalences, project) else None)"

definition op_at :: "ir_program \<Rightarrow> nat \<Rightarrow> (engine_error, ir_op) rust" where
  "op_at p n = (case vec_get (pr_nodes p) n of Some op \<Rightarrow> Ok op | None \<Rightarrow> Err (engine_err StInstall None (UnknownNode n)))"

fun plain_inputs :: "ir_program \<Rightarrow> (nat \<times> 'c) list \<Rightarrow> ir_op \<Rightarrow> nat list" where
  "plain_inputs p defined (OGet _) = []"
| "plain_inputs p defined (ODelay _) = []"
| "plain_inputs p defined (OMint i _ _) = [i]"
| "plain_inputs p defined (OStrCons i _) = [i]"
| "plain_inputs p defined (OStr i _ _) = [i]"
| "plain_inputs p defined (OVec i _ _) = [i]"
| "plain_inputs p defined (OMfp i _ _ _) = [i]"
| "plain_inputs p defined (ONegate i) = [i]"
| "plain_inputs p defined (OReduce i _ _) = [i]"
| "plain_inputs p defined (OThreshold i) = [i]"
| "plain_inputs p defined (OTopK i _ _ _) = [i]"
| "plain_inputs p defined (OWindow i _ _ _) = [i]"
| "plain_inputs p defined (OJoin inputs equivalences _) =
     (case decoded p defined inputs equivalences of Some (side, _, _) \<Rightarrow> [inputs ! (1 - side)] | None \<Rightarrow> inputs)"
| "plain_inputs p defined (OUnion inputs) = inputs"
| "plain_inputs p defined (OAntijoin l r _ _) = [l, r]"

definition lowered_inputs :: "ir_program \<Rightarrow> (nat \<times> 'c) list \<Rightarrow> ir_op \<Rightarrow> bool \<Rightarrow> nat list" where
  "lowered_inputs p defined op fuse =
     (case if fuse then projected_join p defined op else None of
        Some (inputs, _, _) \<Rightarrow> inputs
      | None \<Rightarrow> plain_inputs p defined op)"

subsection \<open>One node\<close>

definition types_or :: "('s, 'c) rel_algebra \<Rightarrow> ir_program \<Rightarrow> string \<Rightarrow> nat \<Rightarrow> ('s, ty list) run" where
  "types_or a p what n =
     run_bind (ra_node_types a p n) (\<lambda>ts. run_lift (case ts of Some ts \<Rightarrow> Ok ts | None \<Rightarrow> Err (unsupported what)))"

text \<open>The columns of a decode in the order of the join's inputs.\<close>

definition decode_order :: "nat \<Rightarrow> nat \<Rightarrow> nat \<Rightarrow> nat list" where
  "decode_order side width ctor = (if side = 1 then [0..<width + ctor] else [width..<width + ctor] @ [0..<width])"

definition build_decode ::
    "('s, 'c) rel_algebra \<Rightarrow> ir_program \<Rightarrow> nat list \<Rightarrow> nat list \<Rightarrow> 'c list \<Rightarrow> nat \<times> nat \<times> nat \<Rightarrow> ('s, 'c) run" where
  "build_decode a p inputs project built found =
     (case found of (side, col, functor) \<Rightarrow>
       run_bind (types_or a p ''Join input types'' (inputs ! (1 - side))) (\<lambda>ts0.
       run_bind (types_or a p ''Join input types'' (inputs ! side)) (\<lambda>ts1.
       run_bind (run_lift (vec_index built 0)) (\<lambda>c0.
       run_bind (ra_decode a c0 functor col [ts0, ts1]) (\<lambda>c.
       let width = length ts0; ctor = length ts1; order = decode_order side width ctor
       in run_bind (run_lift (if project = [] then Ok order else map_rust (vec_index order) project)) (\<lambda>project1.
          if project1 = [0..<width + ctor] then run_return c else ra_mfp a c [] [] project1 (ts0 @ ts1)))))))"

definition build_join :: "('s, 'c) rel_algebra \<Rightarrow> ir_program \<Rightarrow> nat list \<Rightarrow> join_classes \<Rightarrow> nat list \<Rightarrow> 'c list \<Rightarrow> ('s, 'c) run" where
  "build_join a p inputs equivalences project built =
     run_bind (run_map (types_or a p ''Join input types'') inputs) (\<lambda>types.
     run_bind (ra_join a built equivalences types) (\<lambda>c.
       if project = [] then run_return c else ra_mfp a c [] [] project (concat types)))"

definition build_op :: "('s, 'c) rel_algebra \<Rightarrow> ir_program \<Rightarrow> (nat \<times> 'c) list \<Rightarrow> ir_op \<Rightarrow> 'c list \<Rightarrow> ('s, 'c) run" where
  "build_op a p defined op built =
     (let first1 = run_lift (vec_index built 0)
      in case op of
        OGet rel \<Rightarrow> (case map_of defined rel of Some c \<Rightarrow> run_return c | None \<Rightarrow> ra_get a rel)
      | OMint _ functor args \<Rightarrow> run_bind first1 (\<lambda>c. ra_mint a c functor args)
      | OStrCons _ mode \<Rightarrow> run_bind first1 (\<lambda>c. ra_str_cons a c mode)
      | OStr _ sop args \<Rightarrow> run_bind first1 (\<lambda>c. ra_str_op a c sop args)
      | OVec _ vop args \<Rightarrow> run_bind first1 (\<lambda>c. ra_vec_op a c vop args)
      | OMfp input filter1 map1 project \<Rightarrow>
          run_bind (types_or a p ''Mfp input types'' input) (\<lambda>types. run_bind first1 (\<lambda>c. ra_mfp a c filter1 map1 project types))
      | OUnion _ \<Rightarrow> ra_union a built
      | ONegate _ \<Rightarrow> run_bind first1 (ra_negate a)
      | OJoin inputs equivalences project \<Rightarrow>
          (case decoded p defined inputs equivalences of
             Some found \<Rightarrow> build_decode a p inputs project built found
           | None \<Rightarrow> build_join a p inputs equivalences project built)
      | OAntijoin _ _ lk rk \<Rightarrow>
          run_bind first1 (\<lambda>l. run_bind (run_lift (vec_index built 1)) (\<lambda>r. ra_antijoin a l r lk rk))
      | OReduce input key aggs \<Rightarrow>
          run_bind (types_or a p ''Reduce input types'' input) (\<lambda>types. run_bind first1 (\<lambda>c. ra_reduce a c key aggs types))
      | OThreshold _ \<Rightarrow> run_bind first1 (ra_threshold a)
      | OTopK input key order limit \<Rightarrow>
          run_bind (types_or a p ''TopK input types'' input) (\<lambda>types. run_bind first1 (\<lambda>c. ra_topk a c key order limit types))
      | OWindow input partition1 order func \<Rightarrow>
          run_bind (types_or a p ''Window input types'' input) (\<lambda>types. run_bind first1 (\<lambda>c. ra_window a c partition1 order func types))
      | ODelay _ \<Rightarrow> run_lift (Err (unsupported ''Delay'')))"

definition build_op_node :: "('s, 'c) rel_algebra \<Rightarrow> ir_program \<Rightarrow> (nat \<times> 'c) list \<Rightarrow> ir_op \<Rightarrow> 'c list \<Rightarrow> bool \<Rightarrow> ('s, 'c) run" where
  "build_op_node a p defined op built fuse =
     (case if fuse then projected_join p defined op else None of
        Some (inputs, equivalences, project) \<Rightarrow>
          run_bind (run_map (types_or a p ''Join input types'') inputs) (\<lambda>types. ra_join_project a built equivalences types project)
      | None \<Rightarrow> build_op a p defined op built)"

subsection \<open>The walk\<close>

type_synonym frame = "nat \<times> nat list \<times> nat"

definition read_built :: "'c option list \<Rightarrow> nat \<Rightarrow> (engine_error, 'c) rust" where
  "read_built nodes n = (case vec_get nodes n of Some (Some c) \<Rightarrow> Ok c | _ \<Rightarrow> Panic)"

definition has_built :: "'c option list \<Rightarrow> nat \<Rightarrow> bool" where
  "has_built nodes n \<longleftrightarrow> (case vec_get nodes n of Some (Some _) \<Rightarrow> True | _ \<Rightarrow> False)"

text \<open>What a frame does once its inputs are lowered.\<close>

definition finish_node ::
    "('s, 'c) rel_algebra \<Rightarrow> ir_program \<Rightarrow> (nat \<times> 'c) list \<Rightarrow> bool \<Rightarrow> nat \<Rightarrow> nat list \<Rightarrow> 'c option list \<Rightarrow> ('s, 'c \<times> 'c option list) run" where
  "finish_node a p defined fuse node inputs nodes =
     run_bind (run_lift (map_rust (read_built nodes) inputs)) (\<lambda>built.
     run_bind (run_lift (op_at p node)) (\<lambda>op.
     run_bind (build_op_node a p defined op built fuse) (\<lambda>c0.
     run_bind (ra_observe a node c0) (\<lambda>c.
       run_lift (if node < length nodes then Ok (c, nodes[node := Some c]) else Panic)))))"

definition node_cycle :: engine_error where
  "node_cycle = unsupported ''node cycle''"

definition off_stack :: "ir_program \<Rightarrow> frame list \<Rightarrow> nat" where
  "off_stack p stack = card ({..<length (pr_nodes p)} - fst ` set stack)"

fun frame_weights :: "ir_program \<Rightarrow> frame list \<Rightarrow> (nat \<times> nat) multiset" where
  "frame_weights p [] = {#}"
| "frame_weights p ((node, inputs, nxt) # stack) = {#(off_stack p ((node, inputs, nxt) # stack), length inputs - nxt)#} + frame_weights p stack"

function lower_loop ::
    "('s, 'c) rel_algebra \<Rightarrow> ir_program \<Rightarrow> (nat \<times> 'c) list \<Rightarrow> bool \<Rightarrow> frame list \<Rightarrow> 'c option list \<Rightarrow> ('s, 'c \<times> 'c option list) run" where
  "lower_loop a p defined fuse [] nodes s = Panic"
| "lower_loop a p defined fuse ((node, inputs, nxt) # stack) nodes s =
     (case vec_get inputs nxt of
        Some input \<Rightarrow>
          if has_built nodes input then lower_loop a p defined fuse ((node, inputs, nxt + 1) # stack) nodes s
          else if input = node \<or> input \<in> fst ` set stack then Err node_cycle
          else (case vec_get (pr_nodes p) input of
                  None \<Rightarrow> Err (engine_err StInstall None (UnknownNode input))
                | Some op \<Rightarrow>
                    lower_loop a p defined fuse ((input, lowered_inputs p defined op fuse, 0) # (node, inputs, nxt + 1) # stack) nodes s)
      | None \<Rightarrow>
          (case finish_node a p defined fuse node inputs nodes s of
             Ok ((c, nodes1), s1) \<Rightarrow> if stack = [] then Ok ((c, nodes1), s1) else lower_loop a p defined fuse stack nodes1 s1
           | Err e \<Rightarrow> Err e
           | Panic \<Rightarrow> Panic))"
  by pat_completeness auto
termination
proof (relation "inv_image (mult (less_than <*lex*> less_than)) (\<lambda>(a, p, defined, fuse, stack, nodes, s). frame_weights p stack)")
  show "wf (inv_image (mult (less_than <*lex*> less_than)) (\<lambda>(a, p, defined, fuse, stack, nodes, s). frame_weights p stack))"
    by (intro wf_inv_image wf_mult wf_lex_prod wf_less_than)
next
  fix a :: "('s, 'c) rel_algebra" and p :: ir_program and defined :: "(nat \<times> 'c) list" and fuse :: bool
    and node nxt input :: nat and inputs :: "nat list" and stack :: "frame list" and nodes :: "'c option list" and s :: 's
  assume "vec_get inputs nxt = Some input"
  then have nxt: "length inputs - (nxt + 1) < length inputs - nxt" by (auto simp: vec_get_def split: if_splits)
  have off: "off_stack p ((node, inputs, nxt + 1) # stack) = off_stack p ((node, inputs, nxt) # stack)" by (simp add: off_stack_def)
  have step: "(frame_weights p stack + {#(off_stack p ((node, inputs, nxt + 1) # stack), length inputs - (nxt + 1))#},
      frame_weights p stack + {#(off_stack p ((node, inputs, nxt) # stack), length inputs - nxt)#}) \<in> mult (less_than <*lex*> less_than)"
    using nxt off by (intro one_step_implies_mult) auto
  then show "((a, p, defined, fuse, (node, inputs, nxt + 1) # stack, nodes, s), a, p, defined, fuse, (node, inputs, nxt) # stack, nodes, s)
      \<in> inv_image (mult (less_than <*lex*> less_than)) (\<lambda>(a, p, defined, fuse, stack, nodes, s). frame_weights p stack)"
    by (simp add: ac_simps)
  fix op
  assume fresh: "\<not> (input = node \<or> input \<in> fst ` set stack)" and op: "vec_get (pr_nodes p) input = Some op"
  let ?f = "(input, lowered_inputs p defined op fuse, 0)"
  have "off_stack p (?f # (node, inputs, nxt + 1) # stack) < off_stack p ((node, inputs, nxt) # stack)"
    unfolding off_stack_def using fresh op by (intro psubset_card_mono) (auto simp: vec_get_def split: if_splits)
  with nxt off have "(frame_weights p stack + {#(off_stack p (?f # (node, inputs, nxt + 1) # stack), length (lowered_inputs p defined op fuse) - 0),
        (off_stack p ((node, inputs, nxt + 1) # stack), length inputs - (nxt + 1))#},
      frame_weights p stack + {#(off_stack p ((node, inputs, nxt) # stack), length inputs - nxt)#}) \<in> mult (less_than <*lex*> less_than)"
    by (intro one_step_implies_mult) auto
  then show "((a, p, defined, fuse, ?f # (node, inputs, nxt + 1) # stack, nodes, s), a, p, defined, fuse, (node, inputs, nxt) # stack, nodes, s)
      \<in> inv_image (mult (less_than <*lex*> less_than)) (\<lambda>(a, p, defined, fuse, stack, nodes, s). frame_weights p stack)"
    by (simp add: ac_simps)
next
  fix a :: "('s, 'c) rel_algebra" and p :: ir_program and defined :: "(nat \<times> 'c) list" and fuse :: bool
    and node nxt :: nat and inputs :: "nat list" and stack :: "frame list" and nodes nodes1 :: "'c option list" and s s1 :: 's
  show "((a, p, defined, fuse, stack, nodes1, s1), a, p, defined, fuse, (node, inputs, nxt) # stack, nodes, s)
      \<in> inv_image (mult (less_than <*lex*> less_than)) (\<lambda>(a, p, defined, fuse, stack, nodes, s). frame_weights p stack)"
    by (auto intro: subset_implies_mult)
qed

definition lower_node ::
    "('s, 'c) rel_algebra \<Rightarrow> ir_program \<Rightarrow> (nat \<times> 'c) list \<Rightarrow> nat \<Rightarrow> 'c option list \<Rightarrow> ('s, 'c \<times> 'c option list) run" where
  "lower_node a p defined n nodes =
     (case vec_get nodes n of
        Some (Some c) \<Rightarrow> run_return (c, nodes)
      | _ \<Rightarrow> run_bind (run_lift (op_at p n)) (\<lambda>op.
               lower_loop a p defined (ra_fuses a) [(n, lowered_inputs p defined op (ra_fuses a), 0)] nodes))"

subsection \<open>Programs\<close>

fun lower_strata ::
    "('s, 'c) rel_algebra \<Rightarrow> ir_program \<Rightarrow> stratum list \<Rightarrow> (nat \<times> 'c) list \<Rightarrow> 'c option list \<Rightarrow> ('s, (nat \<times> 'c) list) run" where
  "lower_strata a p [] defined nodes = run_return defined"
| "lower_strata a p (SLet n body # strata) defined nodes =
     run_bind (lower_node a p defined body nodes) (\<lambda>(c, nodes1). lower_strata a p strata (defined @ [(n, c)]) nodes1)"
| "lower_strata a p (SLetRec rec # strata) defined nodes =
     run_bind (ra_letrec a p rec defined nodes) (\<lambda>(cs, nodes1). lower_strata a p strata (defined @ zip (rec_ids rec) cs) nodes1)"

fun lower_outputs :: "('s, 'c) rel_algebra \<Rightarrow> (nat \<times> 'c) list \<Rightarrow> nat list \<Rightarrow> ('s, unit) run" where
  "lower_outputs a defined [] = run_return ()"
| "lower_outputs a defined (out # outs) =
     run_bind (run_lift (case map_of defined out of Some c \<Rightarrow> Ok c | None \<Rightarrow> Err (engine_err StInstall (Some out) (UnknownRel out)))) (\<lambda>c.
     run_bind (ra_output a out c) (\<lambda>_. lower_outputs a defined outs))"

definition lower :: "('s, 'c) rel_algebra \<Rightarrow> ir_program \<Rightarrow> ('s, unit) run" where
  "lower a p =
     run_bind (lower_strata a p (pr_strata p) [] (replicate (length (pr_nodes p)) None)) (\<lambda>defined. lower_outputs a defined (pr_outputs p))"

subsection \<open>What the walk builds\<close>

text \<open>Building a list of nodes, each from what its inputs hold by then.\<close>

fun build_all ::
    "('s, 'c) rel_algebra \<Rightarrow> ir_program \<Rightarrow> (nat \<times> 'c) list \<Rightarrow> bool \<Rightarrow> nat list \<Rightarrow> 'c option list \<Rightarrow> ('s, 'c option list) run" where
  "build_all a p defined fuse [] nodes s = Ok (nodes, s)"
| "build_all a p defined fuse (n # ns) nodes s =
     (case finish_node a p defined fuse n (lowered_inputs p defined (pr_nodes p ! n) fuse) nodes s of
        Ok ((_, nodes1), s1) \<Rightarrow> build_all a p defined fuse ns nodes1 s1
      | Err e \<Rightarrow> Err e
      | Panic \<Rightarrow> Panic)"

text \<open>Edges to the inputs that are not built yet.\<close>

definition open_edges :: "ir_program \<Rightarrow> (nat \<times> 'c) list \<Rightarrow> bool \<Rightarrow> 'c option list \<Rightarrow> (nat \<times> nat) set" where
  "open_edges p defined fuse nodes =
     {(u, v). u < length (pr_nodes p) \<and> v \<in> set (lowered_inputs p defined (pr_nodes p ! u) fuse) \<and> \<not> has_built nodes u \<and> \<not> has_built nodes v}"

end
