(* ===== verification/Rel_Lower_Laws.thy ===== *)
theory Rel_Lower_Laws
  imports Rel_Lower
begin

text \<open>
  What the walk of \<open>lower_node\<close> does: it builds the nodes the root needs and that are not built yet,
  each once and after its inputs, or fails with an error that has a cause in the program or in the
  algebra.
\<close>

subsection \<open>Building\<close>

lemma built_iff: "has_built nodes n \<longleftrightarrow> (\<exists>c. vec_get nodes n = Some (Some c))"
  by (simp add: has_built_def split: option.split)

lemma built_range: "has_built nodes n \<Longrightarrow> n < length nodes"
  by (auto simp: built_iff vec_get_def split: if_splits)

lemma built_update: "n < length nodes \<Longrightarrow> has_built (nodes[n := Some c]) m \<longleftrightarrow> m = n \<or> has_built nodes m"
  by (auto simp: built_iff vec_get_def nth_list_update)

lemma read_built_all: "\<forall>m \<in> set inputs. has_built nodes m \<Longrightarrow> \<exists>cs. map_rust (read_built nodes) inputs = Ok cs"
  by (induction inputs) (auto simp: read_built_def built_iff)

lemma read_built_Ok: "map_rust (read_built nodes) inputs = Ok cs \<Longrightarrow> \<forall>m \<in> set inputs. has_built nodes m"
  by (induction inputs arbitrary: cs) (auto simp: read_built_def built_iff rust_simps split: option.splits)

lemma read_built_no_err: "map_rust (read_built nodes) inputs \<noteq> Err e"
  by (induction inputs) (auto simp: read_built_def rust_simps split: option.splits)

lemma finish_node_Ok:
  assumes "finish_node a p defined fuse n inputs nodes s = Ok ((c, nodes1), s1)"
  shows "n < length nodes" and "nodes1 = nodes[n := Some c]" and "\<forall>m \<in> set inputs. has_built nodes m" and "n < length (pr_nodes p)"
  using assms
  by (auto simp: finish_node_def run_bind_def run_lift_def rust_simps op_at_def vec_get_def dest: read_built_Ok split: if_splits prod.splits)

lemma open_edges_mono: "(\<And>m. has_built nodes m \<Longrightarrow> has_built nodes1 m) \<Longrightarrow> open_edges p defined fuse nodes1 \<subseteq> open_edges p defined fuse nodes"
  by (auto simp: open_edges_def)

lemma build_all_grows:
  "build_all a p defined fuse order nodes s = Ok (nodes1, s1) \<Longrightarrow>
   length nodes1 = length nodes \<and> (\<forall>m. has_built nodes1 m \<longleftrightarrow> has_built nodes m \<or> m \<in> set order)"
proof (induction order arbitrary: nodes s)
  case (Cons n order)
  then obtain c nodes2 s2 where fin: "finish_node a p defined fuse n (lowered_inputs p defined (pr_nodes p ! n) fuse) nodes s = Ok ((c, nodes2), s2)"
    and rest: "build_all a p defined fuse order nodes2 s2 = Ok (nodes1, s1)"
    by (auto split: rust.splits prod.splits)
  from Cons.IH [OF rest] finish_node_Ok(1,2) [OF fin] show ?case by (auto simp: built_update)
qed simp

lemma build_all_append:
  "build_all a p defined fuse (xs @ ys) nodes s =
     rust_bind (build_all a p defined fuse xs nodes s) (\<lambda>(nodes1, s1). build_all a p defined fuse ys nodes1 s1)"
  by (induction xs arbitrary: nodes s) (auto split: rust.split prod.split)

subsection \<open>The stack\<close>

fun linked :: "'c option list \<Rightarrow> nat \<Rightarrow> frame list \<Rightarrow> bool" where
  "linked nodes top1 [] \<longleftrightarrow> True"
| "linked nodes top1 ((n, ins, k) # st) \<longleftrightarrow>
     0 < k \<and> k \<le> length ins \<and> ins ! (k - 1) = top1 \<and> (\<forall>j < k - 1. has_built nodes (ins ! j)) \<and> linked nodes n st"

lemma linked_mono: "linked nodes top1 st \<Longrightarrow> (\<And>m. has_built nodes m \<Longrightarrow> has_built nodes1 m) \<Longrightarrow> linked nodes1 top1 st"
  by (induction nodes top1 st rule: linked.induct) auto

definition frames_ok :: "ir_program \<Rightarrow> (nat \<times> 'c) list \<Rightarrow> bool \<Rightarrow> 'c option list \<Rightarrow> frame list \<Rightarrow> bool" where
  "frames_ok p defined fuse nodes stack \<longleftrightarrow>
     (\<forall>(n, ins, k) \<in> set stack. n < length (pr_nodes p) \<and> \<not> has_built nodes n \<and> ins = lowered_inputs p defined (pr_nodes p ! n) fuse)"

definition walk_inv :: "ir_program \<Rightarrow> (nat \<times> 'c) list \<Rightarrow> bool \<Rightarrow> nat \<Rightarrow> frame list \<Rightarrow> 'c option list \<Rightarrow> bool" where
  "walk_inv p defined fuse rt stack nodes \<longleftrightarrow>
     length nodes = length (pr_nodes p) \<and> frames_ok p defined fuse nodes stack \<and> distinct (map fst stack) \<and>
     (case stack of [] \<Rightarrow> False
      | (n, ins, k) # st \<Rightarrow> k \<le> length ins \<and> (\<forall>j < k. has_built nodes (ins ! j)) \<and> linked nodes n st \<and> fst (last stack) = rt)"

lemma linked_path:
  "frames_ok p defined fuse nodes ((n, ins, k) # st) \<Longrightarrow> linked nodes n st \<Longrightarrow> m \<in> fst ` set st \<Longrightarrow>
   (m, n) \<in> (open_edges p defined fuse nodes)\<^sup>+"
proof (induction st arbitrary: n ins k)
  case (Cons f st)
  obtain n1 ins1 k1 where f: "f = (n1, ins1, k1)" by (cases f)
  have "k1 - 1 < length ins1" "ins1 ! (k1 - 1) = n" using Cons.prems(2) f by auto
  then have "n \<in> set ins1" by (metis nth_mem)
  then have edge: "(n1, n) \<in> open_edges p defined fuse nodes"
    using Cons.prems(1) f by (auto simp: frames_ok_def open_edges_def)
  show ?case
  proof (cases "m = n1")
    case False
    then have "(m, n1) \<in> (open_edges p defined fuse nodes)\<^sup>+"
      using Cons.prems f by (intro Cons.IH [of n1 ins1 k1]) (auto simp: frames_ok_def)
    then show ?thesis using edge by (rule trancl_into_trancl)
  qed (use edge in auto)
qed simp

lemma walk_inv_path:
  assumes "walk_inv p defined fuse rt ((n, ins, k) # st) nodes" and "m = n \<or> m \<in> fst ` set st"
  shows "(m, n) \<in> (open_edges p defined fuse nodes)\<^sup>*" and "(rt, n) \<in> (open_edges p defined fuse nodes)\<^sup>*"
proof -
  note path = linked_path [of p defined fuse nodes n ins k st]
  show *: "(m, n) \<in> (open_edges p defined fuse nodes)\<^sup>*"
    using assms path by (auto simp: walk_inv_def intro: trancl_into_rtrancl)
  have "rt = n \<or> rt \<in> fst ` set st" using assms(1) by (cases st) (auto simp: walk_inv_def)
  then show "(rt, n) \<in> (open_edges p defined fuse nodes)\<^sup>*"
    using assms(1) path by (auto simp: walk_inv_def intro: trancl_into_rtrancl)
qed

subsection \<open>The steps keep the invariant\<close>

lemma walk_inv_skip:
  assumes "walk_inv p defined fuse rt ((n, ins, k) # st) nodes" and "vec_get ins k = Some m" and "has_built nodes m"
  shows "walk_inv p defined fuse rt ((n, ins, k + 1) # st) nodes"
  using assms by (auto simp: walk_inv_def frames_ok_def vec_get_def less_Suc_eq split: if_splits)

lemma walk_inv_push:
  assumes "walk_inv p defined fuse rt ((n, ins, k) # st) nodes" and "vec_get ins k = Some m" and "\<not> has_built nodes m"
    and "m \<noteq> n" and "m \<notin> fst ` set st" and "vec_get (pr_nodes p) m = Some op"
  shows "walk_inv p defined fuse rt ((m, lowered_inputs p defined op fuse, 0) # (n, ins, k + 1) # st) nodes"
  using assms by (auto simp: walk_inv_def frames_ok_def vec_get_def split: if_splits)

lemma walk_inv_pop:
  assumes "walk_inv p defined fuse rt ((n, ins, k) # st) nodes" and "vec_get ins k = None" and "st \<noteq> []"
  shows "walk_inv p defined fuse rt st (nodes[n := Some c])"
proof -
  obtain n1 ins1 k1 st1 where st: "st = (n1, ins1, k1) # st1" using assms(3) by (metis list.exhaust prod.exhaust)
  have n: "n < length nodes" using assms(1) by (auto simp: walk_inv_def frames_ok_def)
  note up = built_update [OF n, of c]
  have lk: "linked nodes n ((n1, ins1, k1) # st1)" using assms(1) st unfolding walk_inv_def by simp
  have below: "\<not> has_built (nodes[n := Some c]) m" if "m \<in> fst ` set st" "\<not> has_built nodes m" for m
    using that assms(1) up by (auto simp: walk_inv_def)
  have "frames_ok p defined fuse (nodes[n := Some c]) st"
    unfolding frames_ok_def
  proof
    fix f
    assume f: "f \<in> set st"
    obtain m i kk where eq: "f = (m, i, kk)" by (cases f)
    with f have mem: "m \<in> fst ` set st" by force
    from f eq assms(1) have "m < length (pr_nodes p) \<and> \<not> has_built nodes m \<and> i = lowered_inputs p defined (pr_nodes p ! m) fuse"
      by (auto simp: walk_inv_def frames_ok_def)
    with below [OF mem] eq show "case f of (n', ins, k) \<Rightarrow> n' < length (pr_nodes p) \<and> \<not> has_built (nodes[n := Some c]) n' \<and>
        ins = lowered_inputs p defined (pr_nodes p ! n') fuse" by simp
  qed
  moreover have "\<forall>j < k1. has_built (nodes[n := Some c]) (ins1 ! j)"
  proof (intro allI impI)
    fix j
    assume "j < k1"
    then have "j < k1 - 1 \<or> j = k1 - 1" by linarith
    then show "has_built (nodes[n := Some c]) (ins1 ! j)" using lk up by auto
  qed
  moreover have "linked (nodes[n := Some c]) n1 st1"
    by (rule linked_mono [of nodes n1 st1]) (use lk up in simp_all)
  moreover have "length (nodes[n := Some c]) = length (pr_nodes p)" "distinct (map fst st)" "k1 \<le> length ins1" "fst (last st) = rt"
    using assms(1) lk st by (simp_all add: walk_inv_def)
  ultimately show ?thesis unfolding walk_inv_def st by simp
qed

lemma walk_inv_inputs:
  assumes "walk_inv p defined fuse rt ((n, ins, k) # st) nodes" and "vec_get ins k = None"
  shows "\<forall>m \<in> set ins. has_built nodes m" and "ins = lowered_inputs p defined (pr_nodes p ! n) fuse" and "n < length nodes"
    and "\<not> has_built nodes n" and "n < length (pr_nodes p)"
  using assms by (auto simp: walk_inv_def frames_ok_def vec_get_def in_set_conv_nth split: if_splits)

subsection \<open>Outcomes\<close>

text \<open>Part of the work was done: some of the nodes that are needed were built, each once.\<close>

definition part_built ::
    "('s, 'c) rel_algebra \<Rightarrow> ir_program \<Rightarrow> (nat \<times> 'c) list \<Rightarrow> bool \<Rightarrow> nat \<Rightarrow> 'c option list \<Rightarrow> 's \<Rightarrow> nat list \<Rightarrow> 'c option list \<Rightarrow> 's \<Rightarrow> bool" where
  "part_built a p defined fuse rt nodes s order nodes1 s1 \<longleftrightarrow>
     distinct order \<and> (\<forall>m \<in> set order. \<not> has_built nodes m \<and> (rt, m) \<in> (open_edges p defined fuse nodes)\<^sup>*) \<and>
     build_all a p defined fuse order nodes s = Ok (nodes1, s1)"

text \<open>The next node has its inputs, and building it gives \<open>r\<close>.\<close>

definition next_gives ::
    "('s, 'c) rel_algebra \<Rightarrow> ir_program \<Rightarrow> (nat \<times> 'c) list \<Rightarrow> bool \<Rightarrow> nat \<Rightarrow> 'c option list \<Rightarrow> 's \<Rightarrow> (engine_error, ('c \<times> 'c option list) \<times> 's) rust \<Rightarrow> bool" where
  "next_gives a p defined fuse n nodes1 s1 r \<longleftrightarrow>
     n < length (pr_nodes p) \<and> length nodes1 = length (pr_nodes p) \<and> \<not> has_built nodes1 n \<and>
     (\<forall>m \<in> set (lowered_inputs p defined (pr_nodes p ! n) fuse). has_built nodes1 m) \<and>
     finish_node a p defined fuse n (lowered_inputs p defined (pr_nodes p ! n) fuse) nodes1 s1 = r"

definition lowering_outcome ::
    "('s, 'c) rel_algebra \<Rightarrow> ir_program \<Rightarrow> (nat \<times> 'c) list \<Rightarrow> bool \<Rightarrow> nat \<Rightarrow> 'c option list \<Rightarrow> 's \<Rightarrow> (engine_error, ('c \<times> 'c option list) \<times> 's) rust \<Rightarrow> bool" where
  "lowering_outcome a p defined fuse rt nodes s r =
     (let E = open_edges p defined fuse nodes
      in case r of
        Ok ((c, nodes1), s1) \<Rightarrow>
          vec_get nodes1 rt = Some (Some c) \<and> (\<exists>order. part_built a p defined fuse rt nodes s order nodes1 s1)
      | Err e \<Rightarrow>
          (e = node_cycle \<and> (\<exists>m. (rt, m) \<in> E\<^sup>* \<and> (m, m) \<in> E\<^sup>+)) \<or>
          (\<exists>m. e = engine_err StInstall None (UnknownNode m) \<and> (rt, m) \<in> E\<^sup>* \<and> length (pr_nodes p) \<le> m) \<or>
          (\<exists>order nodes1 s1 m. part_built a p defined fuse rt nodes s order nodes1 s1 \<and> next_gives a p defined fuse m nodes1 s1 (Err e))
      | Panic \<Rightarrow>
          (\<exists>order nodes1 s1 m. part_built a p defined fuse rt nodes s order nodes1 s1 \<and> next_gives a p defined fuse m nodes1 s1 Panic))"

lemma part_built_Nil: "part_built a p defined fuse rt nodes s [] nodes s"
  by (simp add: part_built_def)

lemma part_built_first:
  assumes "finish_node a p defined fuse n (lowered_inputs p defined (pr_nodes p ! n) fuse) nodes s = Ok ((c, nodes1), s1)"
    and "\<not> has_built nodes n" and "(rt, n) \<in> (open_edges p defined fuse nodes)\<^sup>*"
    and "part_built a p defined fuse rt nodes1 s1 order nodes2 s2"
  shows "part_built a p defined fuse rt nodes s (n # order) nodes2 s2"
proof -
  note up = finish_node_Ok [OF assms(1)]
  have mono: "has_built nodes1 m" if "has_built nodes m" for m using that up(1,2) by (simp add: built_update)
  have "(open_edges p defined fuse nodes1)\<^sup>* \<subseteq> (open_edges p defined fuse nodes)\<^sup>*"
    by (intro rtrancl_mono open_edges_mono mono)
  moreover have "n \<notin> set order" using assms(4) up(1,2) by (auto simp: part_built_def built_update)
  ultimately show ?thesis using assms mono by (auto simp: part_built_def)
qed

lemma lowering_outcome_first:
  assumes fin: "finish_node a p defined fuse n (lowered_inputs p defined (pr_nodes p ! n) fuse) nodes s = Ok ((c, nodes1), s1)"
    and n: "\<not> has_built nodes n" "(rt, n) \<in> (open_edges p defined fuse nodes)\<^sup>*"
    and out: "lowering_outcome a p defined fuse rt nodes1 s1 r"
  shows "lowering_outcome a p defined fuse rt nodes s r"
proof -
  have mono: "open_edges p defined fuse nodes1 \<subseteq> open_edges p defined fuse nodes"
    using finish_node_Ok(1,2) [OF fin] by (intro open_edges_mono) (simp add: built_update)
  note sub = rtrancl_mono [OF mono] trancl_mono [OF _ mono]
  note first1 = part_built_first [OF fin n]
  show ?thesis
  proof (cases r)
    case (Ok x)
    with out first1 show ?thesis by (fastforce simp: lowering_outcome_def Let_def split: prod.splits)
  next
    case (Err e)
    from out Err consider (cycle) m where "e = node_cycle" "(rt, m) \<in> (open_edges p defined fuse nodes1)\<^sup>*" "(m, m) \<in> (open_edges p defined fuse nodes1)\<^sup>+"
      | (unknown) m where "e = engine_err StInstall None (UnknownNode m)" "(rt, m) \<in> (open_edges p defined fuse nodes1)\<^sup>*" "length (pr_nodes p) \<le> m"
      | (build) order nodes2 s2 m where "part_built a p defined fuse rt nodes1 s1 order nodes2 s2" "next_gives a p defined fuse m nodes2 s2 (Err e)"
      by (auto simp: lowering_outcome_def Let_def)
    then show ?thesis
    proof cases
      case cycle
      with sub Err show ?thesis by (auto simp: lowering_outcome_def Let_def)
    next
      case unknown
      with sub Err show ?thesis by (auto simp: lowering_outcome_def Let_def)
    next
      case build
      with first1 [OF build(1)] Err show ?thesis by (auto simp: lowering_outcome_def Let_def)
    qed
  next
    case Panic
    with out obtain order nodes2 s2 m where pb: "part_built a p defined fuse rt nodes1 s1 order nodes2 s2" and "next_gives a p defined fuse m nodes2 s2 Panic"
      by (auto simp: lowering_outcome_def Let_def)
    with first1 [OF pb] Panic show ?thesis by (auto simp: lowering_outcome_def Let_def)
  qed
qed

lemma lower_loop_outcome:
  "walk_inv p defined fuse rt stack nodes \<Longrightarrow> lowering_outcome a p defined fuse rt nodes s (lower_loop a p defined fuse stack nodes s)"
proof (induction a p defined fuse stack nodes s rule: lower_loop.induct)
  case (1 a p defined fuse nodes s)
  then show ?case by (simp add: walk_inv_def)
next
  case (2 a p defined fuse n ins k st nodes s)
  note inv = "2.prems"
  let ?E = "open_edges p defined fuse nodes"
  show ?case
  proof (cases "vec_get ins k")
    case (Some m)
    show ?thesis
    proof (cases "has_built nodes m")
      case True
      with Some "2.IH"(2) [OF Some] walk_inv_skip [OF inv Some True] show ?thesis by (simp add: built_iff)
    next
      case False
      have ins: "n < length (pr_nodes p)" "\<not> has_built nodes n" "m \<in> set (lowered_inputs p defined (pr_nodes p ! n) fuse)"
        using inv Some by (auto simp: walk_inv_def frames_ok_def vec_get_def split: if_splits)
      then have edge: "(n, m) \<in> ?E" using False by (simp add: open_edges_def)
      have rt: "(rt, n) \<in> ?E\<^sup>*" using walk_inv_path(2) [OF inv, of n] by simp
      show ?thesis
      proof (cases "m = n \<or> m \<in> fst ` set st")
        case True
        then have "lower_loop a p defined fuse ((n, ins, k) # st) nodes s = Err node_cycle"
          using Some False by (auto simp: built_iff)
        moreover have "(m, m) \<in> ?E\<^sup>+" using walk_inv_path(1) [OF inv True] edge by (rule rtrancl_into_trancl1)
        ultimately show ?thesis
          using rtrancl_into_rtrancl [OF rt edge] by (auto simp: lowering_outcome_def Let_def)
      next
        case fresh: False
        show ?thesis
        proof (cases "vec_get (pr_nodes p) m")
          case None
          then have "lower_loop a p defined fuse ((n, ins, k) # st) nodes s = Err (engine_err StInstall None (UnknownNode m))"
            using Some False fresh by (auto simp: built_iff)
          moreover have "(rt, m) \<in> ?E\<^sup>*" "length (pr_nodes p) \<le> m"
            using None rtrancl_into_rtrancl [OF rt edge] by (auto simp: vec_get_def split: if_splits)
          ultimately show ?thesis unfolding lowering_outcome_def Let_def by auto
        next
          case op: (Some op)
          have "walk_inv p defined fuse rt ((m, lowered_inputs p defined op fuse, 0) # (n, ins, k + 1) # st) nodes"
            by (rule walk_inv_push [OF inv Some False _ _ op]) (use fresh in auto)
          note IH = "2.IH"(3) [OF Some False fresh op this]
          have "has_built nodes m = False" "(m = n \<or> m \<in> fst ` set st) = False"
            using False fresh by simp_all
          then have "lower_loop a p defined fuse ((n, ins, k) # st) nodes s =
              lower_loop a p defined fuse ((m, lowered_inputs p defined op fuse, 0) # (n, ins, k + 1) # st) nodes s"
            by (subst lower_loop.simps(2)) (simp only: Some op option.case if_False)
          with IH show ?thesis by (simp only:)
        qed
      qed
    qed
  next
    case None
    note here = walk_inv_inputs [OF inv None]
    have rt: "(rt, n) \<in> ?E\<^sup>*" using walk_inv_path(2) [OF inv, of n] by simp
    let ?fin = "finish_node a p defined fuse n ins nodes s"
    show ?thesis
    proof (cases ?fin)
      case (Ok x)
      then obtain c nodes1 s1 where fin: "?fin = Ok ((c, nodes1), s1)" by (cases x) auto
      note fin' = fin [unfolded here(2)]
      show ?thesis
      proof (cases "st = []")
        case True
        then have "rt = n" using inv by (simp add: walk_inv_def)
        moreover have "part_built a p defined fuse rt nodes s [n] nodes1 s1"
          using part_built_first [OF fin' here(4) rt part_built_Nil] .
        moreover have "vec_get nodes1 n = Some (Some c)" using finish_node_Ok(1,2) [OF fin] by (simp add: vec_get_def)
        ultimately show ?thesis using None True fin by (auto simp: lowering_outcome_def Let_def)
      next
        case False
        have "walk_inv p defined fuse rt st nodes1"
          unfolding finish_node_Ok(2) [OF fin] by (rule walk_inv_pop [OF inv None False])
        from "2.IH"(1) [OF None fin refl refl False this] lowering_outcome_first [OF fin' here(4) rt]
        show ?thesis using None fin False by simp
      qed
    next
      case (Err e)
      have "next_gives a p defined fuse n nodes s (Err e)"
        using here Err inv unfolding next_gives_def by (simp add: walk_inv_def)
      then show ?thesis using None Err part_built_Nil [of a p defined fuse rt nodes s]
        by (auto simp: lowering_outcome_def Let_def)
    next
      case Panic
      have "next_gives a p defined fuse n nodes s Panic"
        using here Panic inv unfolding next_gives_def by (simp add: walk_inv_def)
      then show ?thesis using None Panic part_built_Nil [of a p defined fuse rt nodes s]
        by (auto simp: lowering_outcome_def Let_def)
    qed
  qed
qed

lemma lower_node_outcome:
  assumes "length nodes = length (pr_nodes p)"
  shows "lowering_outcome a p defined (ra_fuses a) n nodes s (lower_node a p defined n nodes s)"
proof (cases "has_built nodes n")
  case True
  then obtain c where c: "vec_get nodes n = Some (Some c)" unfolding built_iff by blast
  then have "lower_node a p defined n nodes s = Ok ((c, nodes), s)" unfolding lower_node_def c by (simp add: run_return_def)
  with c part_built_Nil [of a p defined "ra_fuses a" n nodes s] show ?thesis unfolding lowering_outcome_def Let_def by auto
next
  case False
  have nb: "lower_node a p defined n nodes s = run_bind (run_lift (op_at p n)) (\<lambda>op.
      lower_loop a p defined (ra_fuses a) [(n, lowered_inputs p defined op (ra_fuses a), 0)] nodes) s"
    using False unfolding lower_node_def has_built_def by (simp split: option.splits)
  show ?thesis
  proof (cases "vec_get (pr_nodes p) n")
    case None
    then have "lower_node a p defined n nodes s = Err (engine_err StInstall None (UnknownNode n))" unfolding nb
      by (simp add: run_bind_def run_lift_def op_at_def)
    with None show ?thesis unfolding lowering_outcome_def Let_def by (auto simp: vec_get_def split: if_splits)
  next
    case (Some op)
    have "lower_node a p defined n nodes s = lower_loop a p defined (ra_fuses a) [(n, lowered_inputs p defined op (ra_fuses a), 0)] nodes s"
      unfolding nb run_bind_def run_lift_def op_at_def Some by simp
    moreover have "walk_inv p defined (ra_fuses a) n [(n, lowered_inputs p defined op (ra_fuses a), 0)] nodes"
      using Some False assms by (auto simp: walk_inv_def frames_ok_def)
    ultimately show ?thesis using lower_loop_outcome by metis
  qed
qed

subsection \<open>What a successful walk has built\<close>

lemma build_all_inputs:
  "build_all a p defined fuse order nodes s = Ok (nodes1, s1) \<Longrightarrow> n \<in> set order \<Longrightarrow>
   \<forall>m \<in> set (lowered_inputs p defined (pr_nodes p ! n) fuse). has_built nodes1 m"
proof (induction order arbitrary: nodes s)
  case (Cons m order)
  then obtain c nodes2 s2 where fin: "finish_node a p defined fuse m (lowered_inputs p defined (pr_nodes p ! m) fuse) nodes s = Ok ((c, nodes2), s2)"
    and rest: "build_all a p defined fuse order nodes2 s2 = Ok (nodes1, s1)"
    by (auto split: rust.splits prod.splits)
  show ?case
  proof (cases "n \<in> set order")
    case True
    with Cons.IH [OF rest] show ?thesis by blast
  next
    case False
    with Cons.prems(2) have "n = m" by simp
    with finish_node_Ok [OF fin] build_all_grows [OF rest] show ?thesis by (auto simp: built_update)
  qed
qed simp

lemma part_built_all:
  assumes "part_built a p defined fuse rt nodes s order nodes1 s1" and "has_built nodes1 rt"
  shows "set order = {m. (rt, m) \<in> (open_edges p defined fuse nodes)\<^sup>* \<and> \<not> has_built nodes m}"
proof -
  note run = assms(1) [unfolded part_built_def, THEN conjunct2, THEN conjunct2]
  note grows = build_all_grows [OF run, THEN conjunct2, rule_format]
  have "m \<in> set order" if "(rt, m) \<in> (open_edges p defined fuse nodes)\<^sup>*" "\<not> has_built nodes m" for m
    using that
  proof (induction rule: rtrancl_induct)
    case base
    with assms(2) grows show ?case by blast
  next
    case (step u v)
    then have uv: "\<not> has_built nodes u" "v \<in> set (lowered_inputs p defined (pr_nodes p ! u) fuse)" by (auto simp: open_edges_def)
    with step.IH have "u \<in> set order" by blast
    with build_all_inputs [OF run] uv(2) have "has_built nodes1 v" by blast
    with grows step.prems show ?case by blast
  qed
  then show ?thesis using assms(1) by (auto simp: part_built_def)
qed

lemma trancl_avoids:
  assumes "(x, y) \<in> E\<^sup>+" and "\<And>z. (n, z) \<notin> E" and "y \<noteq> n" and "\<And>u v. (u, v) \<in> E \<Longrightarrow> v \<noteq> n \<Longrightarrow> (u, v) \<in> F"
  shows "(x, y) \<in> F\<^sup>+"
  using assms(1)
proof (induction rule: converse_trancl_induct)
  case (base x)
  with assms(3,4) show ?case by blast
next
  case (step x z)
  then have "z \<noteq> n" using assms(2) by (auto dest: tranclD)
  with step assms(4) show ?case by (auto intro: trancl_into_trancl2)
qed

lemma build_all_acyclic:
  "build_all a p defined fuse order nodes s = Ok (nodes1, s1) \<Longrightarrow> m \<in> set order \<Longrightarrow> (m, m) \<notin> (open_edges p defined fuse nodes)\<^sup>+"
proof (induction order arbitrary: nodes s)
  case (Cons n order)
  then obtain c nodes2 s2 where fin: "finish_node a p defined fuse n (lowered_inputs p defined (pr_nodes p ! n) fuse) nodes s = Ok ((c, nodes2), s2)"
    and rest: "build_all a p defined fuse order nodes2 s2 = Ok (nodes1, s1)"
    by (auto split: rust.splits prod.splits)
  have out: "(n, z) \<notin> open_edges p defined fuse nodes" for z
    using finish_node_Ok(3) [OF fin] by (auto simp: open_edges_def)
  show ?case
  proof
    assume cyc: "(m, m) \<in> (open_edges p defined fuse nodes)\<^sup>+"
    then have "m \<noteq> n" using out by (auto dest: tranclD)
    with Cons.prems(2) have m: "m \<in> set order" by simp
    have "(m, m) \<in> (open_edges p defined fuse nodes2)\<^sup>+"
    proof (rule trancl_avoids [OF cyc out \<open>m \<noteq> n\<close>])
      fix u v
      assume uv: "(u, v) \<in> open_edges p defined fuse nodes" and v: "v \<noteq> n"
      from uv out have "u \<noteq> n" by auto
      with uv v finish_node_Ok(1,2) [OF fin] show "(u, v) \<in> open_edges p defined fuse nodes2"
        by (auto simp: open_edges_def built_update)
    qed
    with Cons.IH [OF rest m] show False by blast
  qed
qed simp

end
