(* ===== verification/Rel_Lower_Theorems.thy ===== *)
theory Rel_Lower_Theorems
  imports Rel_Lower_Laws
begin

text \<open>Properties of the lowering, over any operator algebra.\<close>

lemma build_all_range:
  "build_all a p defined fuse order nodes s = Ok (nodes1, s1) \<Longrightarrow> m \<in> set order \<Longrightarrow> m < length (pr_nodes p)"
  by (induction order arbitrary: nodes s) (auto split: rust.splits prod.splits dest: finish_node_Ok(4))

lemma lower_node_Ok_needs:
  assumes "length nodes = length (pr_nodes p)" and "lower_node a p defined n nodes s = Ok ((c, nodes1), s1)"
    and "(n, m) \<in> (open_edges p defined (ra_fuses a) nodes)\<^sup>*"
  shows "m < length (pr_nodes p) \<and> (m, m) \<notin> (open_edges p defined (ra_fuses a) nodes)\<^sup>+"
proof -
  let ?E = "open_edges p defined (ra_fuses a) nodes"
  from lower_node_outcome [OF assms(1), of a defined n s] obtain order
    where c: "vec_get nodes1 n = Some (Some c)" and pb: "part_built a p defined (ra_fuses a) n nodes s order nodes1 s1"
    unfolding assms(2) lowering_outcome_def Let_def by auto
  then have order: "set order = {m. (n, m) \<in> ?E\<^sup>* \<and> \<not> has_built nodes m}"
    by (intro part_built_all) (auto simp: built_iff)
  show ?thesis
  proof (cases "has_built nodes m")
    case True
    then have "(m, z) \<notin> ?E" for z by (auto simp: open_edges_def)
    with built_range [OF True] assms(1) show ?thesis by (auto dest: tranclD)
  next
    case False
    with assms(3) order pb show ?thesis by (auto simp: part_built_def dest: build_all_acyclic build_all_range)
  qed
qed

text \<open>
  C28: When \<open>lower_node\<close> succeeds it has built exactly the nodes the root needs that were not built
  before, each once and after all its inputs, threading the algebra's state through them in that
  order; the collection it returns is the one the table now holds for the root, and no node it
  needed lies on a cycle.
\<close>

theorem lower_node_builds:
  assumes "length nodes = length (pr_nodes p)" and "lower_node a p defined n nodes s = Ok ((c, nodes1), s1)"
  shows "vec_get nodes1 n = Some (Some c) \<and>
    (\<exists>order. distinct order \<and> set order = {m. (n, m) \<in> (open_edges p defined (ra_fuses a) nodes)\<^sup>* \<and> \<not> has_built nodes m} \<and>
       build_all a p defined (ra_fuses a) order nodes s = Ok (nodes1, s1)) \<and>
    (\<nexists>m. (n, m) \<in> (open_edges p defined (ra_fuses a) nodes)\<^sup>* \<and> (m, m) \<in> (open_edges p defined (ra_fuses a) nodes)\<^sup>+)"
proof -
  let ?E = "open_edges p defined (ra_fuses a) nodes"
  from lower_node_outcome [OF assms(1), of a defined n s] obtain order
    where c: "vec_get nodes1 n = Some (Some c)" and pb: "part_built a p defined (ra_fuses a) n nodes s order nodes1 s1"
    unfolding assms(2) lowering_outcome_def Let_def by auto
  then have order: "set order = {m. (n, m) \<in> ?E\<^sup>* \<and> \<not> has_built nodes m}"
    by (intro part_built_all) (auto simp: built_iff)
  with c pb lower_node_Ok_needs [OF assms] show ?thesis unfolding part_built_def by blast
qed


text \<open>An algebra that records the nodes it is asked to observe.\<close>

definition trace_algebra :: "(nat list, unit) rel_algebra" where
  "trace_algebra = \<lparr>ra_get = (\<lambda>_. run_return ()), ra_mint = (\<lambda>_ _ _. run_return ()), ra_str_cons = (\<lambda>_ _. run_return ()),
     ra_str_op = (\<lambda>_ _ _. run_return ()), ra_vec_op = default_vec_op, ra_mfp = (\<lambda>_ _ _ _ _. run_return ()), ra_union = (\<lambda>_. run_return ()),
     ra_negate = (\<lambda>_. run_return ()), ra_join = (\<lambda>_ _ _. run_return ()), ra_fuses = False, ra_join_project = (\<lambda>_ _ _ _. run_return ()),
     ra_decode = (\<lambda>_ _ _ _. run_return ()), ra_antijoin = (\<lambda>_ _ _ _. run_return ()), ra_reduce = (\<lambda>_ _ _ _. run_return ()),
     ra_threshold = (\<lambda>_. run_return ()), ra_topk = (\<lambda>_ _ _ _ _. run_return ()), ra_window = (\<lambda>_ _ _ _ _. run_return ()),
     ra_letrec = (\<lambda>_ _ _ nodes. run_return ([], nodes)), ra_output = (\<lambda>_ _. run_return ()), ra_node_types = default_node_types,
     ra_observe = (\<lambda>n _ s. Ok ((), s @ [n]))\<rparr>"

lemma trace_runs:
  "lower_node trace_algebra demo_types [] 2 [None, None, None, None] [] = Ok (((), [Some (), Some (), Some (), None]), [0, 1, 2])"
  "lower_node trace_algebra demo_types [] 3 [None, None, None, None] [] = Err node_cycle"
  by code_simp+

theorem lower_node_builds_witness:
  "\<exists>order. distinct order \<and>
     build_all trace_algebra demo_types [] False order [None, None, None, None] [] = Ok ([Some (), Some (), Some (), None], [0, 1, 2])"
proof -
  have len: "length [None :: unit option, None, None, None] = length (pr_nodes demo_types)" by (simp add: demo_types_def)
  have "ra_fuses trace_algebra = False" by (simp add: trace_algebra_def)
  with lower_node_builds [OF len trace_runs(1)] show ?thesis by auto
qed


text \<open>
  Fusing a join with the projection above it changes nothing an algebra that keeps the default
  \<open>join_project\<close> could see: building the projected join fused is building the join and projecting it.
\<close>

lemma fused_join_default:
  assumes "ra_join_project a = default_join_project a" and "projected_join p defined (OJoin inputs eq project) = Some (inputs, eq, project)"
  shows "build_op_node a p defined (OJoin inputs eq project) cs True = build_op_node a p defined (OJoin inputs eq project) cs False"
proof -
  have "decoded p defined inputs eq = None" "project \<noteq> []"
    using assms(2) by (auto simp: projected_join_def join_parts_def split: if_splits)
  then show ?thesis
    using assms by (simp add: build_op_node_def build_op_def Let_def build_join_def default_join_project_def run_bind_def [abs_def])
qed

end
