(* ===== verification/Dbsp_Cells.thy ===== *)
theory Dbsp_Cells
  imports Rel_Engine Ir_Order Ir_Float
begin

text \<open>
  The cell-level helpers of the DBSP engine (\<open>crates/ivm-dbsp/src/1_cells.rs\<close>): column picks, the rows
  of joins, SQLite's SUM over \<open>Any\<close> cells, the order of cells and rows, and the guard that keeps source
  relations sets. A cell order over \<open>Id\<close> columns asks the dictionary, whose comparison need not return;
  \<open>dict_order\<close> stands for it where it does.
\<close>

subsection \<open>Rows\<close>

definition row_cols :: "ir_row \<Rightarrow> nat list \<Rightarrow> ('e, ir_row) rust" where
  "row_cols row cs = map_rust (vec_index row) cs"

definition join_row :: "ir_row \<Rightarrow> ir_row \<Rightarrow> nat \<Rightarrow> nat list option \<Rightarrow> ('e, ir_row) rust" where
  "join_row a b left project =
     (case project of
        None \<Rightarrow> Ok (a @ b)
      | Some cs \<Rightarrow> map_rust (\<lambda>c. if c < left then vec_index a c else vec_index b (c - left)) cs)"

fun all_inputs :: "ir_op \<Rightarrow> nat list" where
  "all_inputs (OGet _) = []"
| "all_inputs (OMint i _ _) = [i]"
| "all_inputs (OStrCons i _) = [i]"
| "all_inputs (OStr i _ _) = [i]"
| "all_inputs (OVec i _ _) = [i]"
| "all_inputs (OMfp i _ _ _) = [i]"
| "all_inputs (OReduce i _ _) = [i]"
| "all_inputs (OTopK i _ _ _) = [i]"
| "all_inputs (OWindow i _ _ _) = [i]"
| "all_inputs (ONegate i) = [i]"
| "all_inputs (OThreshold i) = [i]"
| "all_inputs (ODelay i) = [i]"
| "all_inputs (OUnion nodes) = nodes"
| "all_inputs (OJoin nodes _ _) = nodes"
| "all_inputs (OAntijoin l r _ _) = [l, r]"

definition read_rels :: "ir_op \<Rightarrow> nat set" where
  "read_rels op = (case op of OGet rel \<Rightarrow> {rel} | _ \<Rightarrow> {})"

lemma unvisited_less: "n < length visited \<Longrightarrow> \<not> visited ! n \<Longrightarrow> length (filter Not (visited[n := True])) < length (filter Not visited)"
proof (induction visited arbitrary: n)
  case (Cons v visited)
  then show ?case by (cases n) auto
qed simp

text \<open>The vector of pending nodes is popped at its end, which is the head here.\<close>

function rec_inputs_loop :: "ir_program \<Rightarrow> bool list \<Rightarrow> nat list \<Rightarrow> nat set \<Rightarrow> nat set" where
  "rec_inputs_loop p visited [] inputs = inputs"
| "rec_inputs_loop p visited (n # pending) inputs =
     (case vec_get visited n of
        None \<Rightarrow> rec_inputs_loop p visited pending inputs
      | Some seen \<Rightarrow>
          if seen then rec_inputs_loop p visited pending inputs
          else rec_inputs_loop p (visited[n := True]) (rev (all_inputs (pr_nodes p ! n)) @ pending) (read_rels (pr_nodes p ! n) \<union> inputs))"
  by pat_completeness auto
termination
  by (relation "measures [\<lambda>(p, visited, pending, inputs). length (filter Not visited), \<lambda>(p, visited, pending, inputs). length pending]")
    (auto simp: unvisited_less)

definition rec_inputs :: "ir_program \<Rightarrow> let_rec \<Rightarrow> nat set" where
  "rec_inputs p rec = rec_inputs_loop p (replicate (length (pr_nodes p)) False) (rev (rec_bodies rec)) {}"

subsection \<open>Numbers of a text\<close>

definition ascii_space :: "u8 \<Rightarrow> bool" where
  "ascii_space b \<longleftrightarrow> b \<in> {32, 9, 10, 13, 11, 12}"

definition ascii_digit :: "u8 \<Rightarrow> bool" where
  "ascii_digit b \<longleftrightarrow> 48 \<le> b \<and> b \<le> 57"

definition digits_value :: "u8 list \<Rightarrow> nat" where
  "digits_value ds = foldl (\<lambda>v d. v * 10 + (unat d - 48)) 0 ds"

text \<open>An optional sign: whether it is a minus, and what follows.\<close>

definition take_sign :: "u8 list \<Rightarrow> bool \<times> u8 list" where
  "take_sign bs = (case bs of b # rest \<Rightarrow> if b = 45 then (True, rest) else if b = 43 then (False, rest) else (False, bs) | [] \<Rightarrow> (False, bs))"

definition take_fraction :: "u8 list \<Rightarrow> u8 list \<times> u8 list" where
  "take_fraction bs =
     (case bs of b # rest \<Rightarrow> if b = 46 then (takeWhile ascii_digit rest, dropWhile ascii_digit rest) else ([], bs) | [] \<Rightarrow> ([], bs))"

definition take_exponent :: "u8 list \<Rightarrow> int" where
  "take_exponent bs =
     (case bs of
        b # rest \<Rightarrow>
          if b = 101 \<or> b = 69 then
            (let (neg, rest1) = take_sign rest; ds = takeWhile ascii_digit rest1
             in if ds = [] then 0 else if neg then - int (digits_value ds) else int (digits_value ds))
          else 0
      | [] \<Rightarrow> 0)"

text \<open>
  The bytes up to the end of the longest number parse as a double, correctly rounded, as the standard
  library's \<open>parse\<close> does.
\<close>

definition numeric_prefix :: "u8 list \<Rightarrow> u64" where
  "numeric_prefix bytes =
     (let (neg, rest) = take_sign (dropWhile ascii_space bytes);
          whole = takeWhile ascii_digit rest;
          (fraction, tail1) = take_fraction (dropWhile ascii_digit rest);
          e = take_exponent tail1 - int (length fraction);
          m = rat_of_nat (digits_value (whole @ fraction));
          q = (if 0 \<le> e then m * 10 ^ nat e else m / 10 ^ nat (- e))
      in if whole @ fraction = [] then 0 else f64_of_rat neg (if neg then - q else q))"

subsection \<open>SUM over \<open>Any\<close> cells\<close>

definition f64_clear_sign :: "u64 \<Rightarrow> u64" where
  "f64_clear_sign b = take_bit 63 b"

definition f64_abs_gt :: "u64 \<Rightarrow> u64 \<Rightarrow> bool" where
  "f64_abs_gt a b \<longleftrightarrow> f64_partial_cmp (f64_of_bits (f64_clear_sign a)) (f64_of_bits (f64_clear_sign b)) = Some Greater"

definition sum_add :: "u64 \<times> u64 \<Rightarrow> u64 \<Rightarrow> u64 \<times> u64" where
  "sum_add se value =
     (case se of (old, error1) \<Rightarrow>
       let next1 = f64_add old value
       in (next1, f64_add error1 (if f64_abs_gt old value then f64_add (f64_sub old next1) value else f64_add (f64_sub value next1) old)))"

definition exact_double :: "i64 \<Rightarrow> bool" where
  "exact_double v \<longleftrightarrow> - 4503599627370495 \<le> sint v \<and> sint v \<le> 4503599627370495"

text \<open>\<open>value % 16384\<close>, which has the sign of the value.\<close>

definition small_part :: "i64 \<Rightarrow> i64" where
  "small_part v = of_int (sgn (sint v) * (\<bar>sint v\<bar> mod 16384))"

definition sum_add_integer :: "u64 \<times> u64 \<Rightarrow> i64 \<Rightarrow> u64 \<times> u64" where
  "sum_add_integer se value =
     (if exact_double value then sum_add se (f64_of_int value)
      else sum_add (sum_add se (f64_of_int (value - small_part value))) (f64_of_int (small_part value)))"

definition sum_init :: "i64 \<Rightarrow> u64 \<times> u64" where
  "sum_init integer =
     (if exact_double integer then (f64_of_int integer, 0)
      else (f64_of_int (integer - small_part integer), f64_of_int (small_part integer)))"

record sum_state =
  sm_integer :: i64
  sm_real :: "u64 \<times> u64"                       \<comment> \<open>the sum and its error term\<close>
  sm_approximate :: bool
  sm_overflow :: bool
  sm_seen :: bool

definition any_numeric :: "any_value \<Rightarrow> (i64 + u64) option" where
  "any_numeric v =
     (case v of
        ANull \<Rightarrow> None
      | AInteger i \<Rightarrow> Some (Inl i)
      | AText s \<Rightarrow> Some (case parse_i64 (str_trim s) of Some i \<Rightarrow> Inl i | None \<Rightarrow> Inr (numeric_prefix (map of_char s)))
      | AReal bits \<Rightarrow> Some (Inr bits)
      | ABlob b \<Rightarrow> Some (Inr (numeric_prefix b)))"

definition sum_step :: "sum_state \<Rightarrow> any_value \<Rightarrow> sum_state" where
  "sum_step st v =
     (case any_numeric v of
        None \<Rightarrow> st
      | Some (Inl i) \<Rightarrow>
          (if sm_approximate st then st\<lparr>sm_real := sum_add_integer (sm_real st) i\<rparr>
           else case checked_add (sm_integer st) i of
                  Some next1 \<Rightarrow> st\<lparr>sm_integer := next1\<rparr>
                | None \<Rightarrow> st\<lparr>sm_overflow := True, sm_real := sum_add_integer (sum_init (sm_integer st)) i, sm_approximate := True\<rparr>)
          \<lparr>sm_seen := True\<rparr>
      | Some (Inr r) \<Rightarrow>
          st\<lparr>sm_real := sum_add (if sm_approximate st then sm_real st else sum_init (sm_integer st)) r,
             sm_approximate := True, sm_overflow := False, sm_seen := True\<rparr>)"

definition f64_is_nan :: "u64 \<Rightarrow> bool" where
  "f64_is_nan b \<longleftrightarrow> f64_of_bits b = FNan"

definition f64_is_infinite :: "u64 \<Rightarrow> bool" where
  "f64_is_infinite b \<longleftrightarrow> (case f64_of_bits b of FInf _ \<Rightarrow> True | _ \<Rightarrow> False)"

definition copies :: "i64 \<Rightarrow> nat" where
  "copies w = nat (max 0 (sint w))"

definition sqlite_sum_any :: "(any_value \<times> i64) list \<Rightarrow> (string, any_value) rust" where
  "sqlite_sum_any values1 =
     (let st = foldl sum_step \<lparr>sm_integer = 0, sm_real = (0, 0), sm_approximate = False, sm_overflow = False, sm_seen = False\<rparr>
                 (concat (map (\<lambda>(v, w). replicate (copies w) v) values1));
          (real1, error1) = sm_real st;
          total1 = (if f64_is_infinite error1 then real1 else f64_add real1 error1)
      in if sm_overflow st then Err ''integer overflow''
         else Ok (if \<not> sm_seen st \<or> sm_approximate st \<and> f64_is_nan total1 then ANull
                  else if sm_approximate st then AReal total1 else AInteger (sm_integer st)))"

subsection \<open>Orders\<close>

definition dict_order :: "interner \<Rightarrow> i64 \<Rightarrow> i64 \<Rightarrow> ordering" where
  "dict_order i a b = (case dict_compare i a b of Some o1 \<Rightarrow> o1 | None \<Rightarrow> Equal)"

definition option_cmp :: "string option \<Rightarrow> string option \<Rightarrow> ordering" where
  "option_cmp a b = (case (a, b) of (None, None) \<Rightarrow> Equal | (None, Some _) \<Rightarrow> Less | (Some _, None) \<Rightarrow> Greater | (Some x, Some y) \<Rightarrow> cmp x y)"

definition cmp_cell :: "ty \<Rightarrow> i64 \<Rightarrow> i64 \<Rightarrow> interner \<Rightarrow> ('e, ordering) rust" where
  "cmp_cell t a b i =
     (case t of
        TId \<Rightarrow> Ok (dict_order i a b)
      | TText \<Rightarrow> Ok (option_cmp (dict_text i a) (dict_text i b))
      | TReal \<Rightarrow> Ok (case f64_partial_cmp (f64_of_bits a) (f64_of_bits b) of Some o1 \<Rightarrow> o1 | None \<Rightarrow> cell_cmp a b)
      | TAny \<Rightarrow> (case (dict_any i a, dict_any i b) of (Some x, Some y) \<Rightarrow> Ok (sqlite_cmp x y) | _ \<Rightarrow> Panic)
      | TInt \<Rightarrow> Ok (cell_cmp a b))"

text \<open>The first comparison that is not equal.\<close>

fun first_unequal :: "('x \<Rightarrow> ('e, ordering) rust) \<Rightarrow> 'x list \<Rightarrow> ('e, ordering) rust" where
  "first_unequal f [] = Ok Equal"
| "first_unequal f (x # xs) = rust_bind (f x) (\<lambda>o1. if o1 = Equal then first_unequal f xs else Ok o1)"

definition rank_order :: "ty list \<Rightarrow> interner \<Rightarrow> ir_row \<Rightarrow> ir_row \<Rightarrow> order_by \<Rightarrow> ('e, ordering) rust" where
  "rank_order types i a b ob =
     (let c = ob_col ob
      in rust_bind (vec_index types c) (\<lambda>t. rust_bind (vec_index a c) (\<lambda>x. rust_bind (vec_index b c) (\<lambda>y.
         rust_bind (cmp_cell t x y i) (\<lambda>o1. Ok (if ob_desc ob then ord_reverse o1 else o1))))))"

definition rank_tie :: "ty list \<Rightarrow> interner \<Rightarrow> ir_row \<Rightarrow> ir_row \<Rightarrow> ('e, ordering) rust" where
  "rank_tie types i a b =
     first_unequal (\<lambda>(c, x, y). rust_bind (vec_index types c) (\<lambda>t. cmp_cell t x y i)) (enumerate 0 (zip a b))"

definition rank :: "order_by list \<Rightarrow> ty list \<Rightarrow> interner \<Rightarrow> ir_row \<Rightarrow> ir_row \<Rightarrow> ('e, ordering) rust" where
  "rank order types i a b =
     rust_bind (first_unequal (rank_order types i a b) order) (\<lambda>o1. if o1 = Equal then rank_tie types i a b else Ok o1)"

subsection \<open>The guard of source relations\<close>

type_synonym source_rows = "nat \<Rightarrow> ir_row set option"

definition guard_error :: "nat \<Rightarrow> error_kind \<Rightarrow> engine_error" where
  "guard_error rel kind = engine_err StSettle (Some rel) kind"

fun guard_changes :: "ir_program \<Rightarrow> source_rows \<Rightarrow> (nat \<times> ir_row \<Rightarrow> i64) \<Rightarrow> ir_change list \<Rightarrow> ir_change list \<Rightarrow> (engine_error, ir_change list) rust" where
  "guard_changes p sources pending accepted [] = Ok accepted"
| "guard_changes p sources pending accepted (ch # changes) =
     (case ir_rel p (ic_rel ch) of
        None \<Rightarrow> Err (guard_error (ic_rel ch) (UnknownRel (ic_rel ch)))
      | Some rel \<Rightarrow>
          if ir_kind rel \<noteq> KSource then Err (guard_error (ic_rel ch) (UnknownRel (ic_rel ch)))
          else if length (ic_row ch) \<noteq> length (ir_cols rel) then Err (guard_error (ir_id rel) (ArityMismatch (length (ir_cols rel)) (length (ic_row ch))))
          else if ic_w ch \<noteq> 1 \<and> ic_w ch \<noteq> - 1 then Err (guard_error (ir_id rel) (Unsupported ''weight other than +1/-1''))
          else (case sources (ir_id rel) of
                  None \<Rightarrow> Panic
                | Some rows \<Rightarrow>
                    (let key = (ir_id rel, ic_row ch);
                         before = pending key + (if ic_row ch \<in> rows then 1 else 0)
                     in if 0 <s ic_w ch \<and> 0 <s before then Err (guard_error (ir_id rel) (PresentInsert (ic_row ch)))
                        else if ic_w ch <s 0 \<and> before \<le>s 0 then guard_changes p sources pending accepted changes
                        else guard_changes p sources (pending(key := pending key + ic_w ch)) (accepted @ [ch]) changes)))"

fun guard_apply :: "source_rows \<Rightarrow> ir_change list \<Rightarrow> ('e, source_rows) rust" where
  "guard_apply sources [] = Ok sources"
| "guard_apply sources (ch # accepted) =
     (case sources (ic_rel ch) of
        None \<Rightarrow> Panic
      | Some rows \<Rightarrow>
          guard_apply (sources(ic_rel ch \<mapsto> (if 0 <s ic_w ch then insert (ic_row ch) rows else rows - {ic_row ch}))) accepted)"

definition guard :: "ir_program \<Rightarrow> source_rows \<Rightarrow> ir_change list \<Rightarrow> (engine_error, ir_change list \<times> source_rows) rust" where
  "guard p sources changes =
     rust_bind (guard_changes p sources (\<lambda>_. 0) [] changes) (\<lambda>accepted.
     rust_bind (guard_apply sources accepted) (\<lambda>sources1. Ok (accepted, sources1)))"

end
