(* ===== verification/Dbsp_Guard.thy ===== *)
theory Dbsp_Guard
  imports Dbsp_Cells
begin

text \<open>
  What the guard of source relations admits: it is checking and applying the changes one after another,
  and the accepted weights of a row are the difference the frontier makes to its relation.
\<close>

subsection \<open>One change after another\<close>

text \<open>The frontier applied in order to the sets, each change checked against the rows of that moment.\<close>

fun guard_seq :: "ir_program \<Rightarrow> source_rows \<Rightarrow> ir_change list \<Rightarrow> ir_change list \<Rightarrow> (engine_error, ir_change list \<times> source_rows) rust" where
  "guard_seq p sources accepted [] = Ok (accepted, sources)"
| "guard_seq p sources accepted (ch # changes) =
     (case ir_rel p (ic_rel ch) of
        None \<Rightarrow> Err (guard_error (ic_rel ch) (UnknownRel (ic_rel ch)))
      | Some rel \<Rightarrow>
          if ir_kind rel \<noteq> KSource then Err (guard_error (ic_rel ch) (UnknownRel (ic_rel ch)))
          else if length (ic_row ch) \<noteq> length (ir_cols rel) then Err (guard_error (ic_rel ch) (ArityMismatch (length (ir_cols rel)) (length (ic_row ch))))
          else (case sources (ic_rel ch) of
                  None \<Rightarrow> if ic_w ch = 1 \<or> ic_w ch = - 1 then Panic else Err (guard_error (ic_rel ch) (Unsupported ''weight other than +1/-1''))
                | Some rows \<Rightarrow>
                    if ic_w ch = 1 then
                      (if ic_row ch \<in> rows then Err (guard_error (ic_rel ch) (PresentInsert (ic_row ch)))
                       else guard_seq p (sources(ic_rel ch \<mapsto> insert (ic_row ch) rows)) (accepted @ [ch]) changes)
                    else if ic_w ch = - 1 then
                      (if ic_row ch \<in> rows then guard_seq p (sources(ic_rel ch \<mapsto> rows - {ic_row ch})) (accepted @ [ch]) changes
                       else guard_seq p sources accepted changes)
                    else Err (guard_error (ic_rel ch) (Unsupported ''weight other than +1/-1''))))"

text \<open>The rows of a relation now and at the start differ by the pending weights.\<close>

definition pending_ok :: "source_rows \<Rightarrow> source_rows \<Rightarrow> (nat \<times> ir_row \<Rightarrow> i64) \<Rightarrow> bool" where
  "pending_ok s0 s pending \<longleftrightarrow> (\<forall>rel. rel_option (\<lambda>rows0 rows. \<forall>row. pending (rel, row) = of_bool (row \<in> rows) - of_bool (row \<in> rows0)) (s0 rel) (s rel))"

lemma pending_ok_refl: "pending_ok s s (\<lambda>_. 0)"
  by (auto simp: pending_ok_def option.rel_refl)

lemma pending_okD:
  assumes "pending_ok s0 s pending"
  shows "s0 rel = None \<longleftrightarrow> s rel = None"
    and "s0 rel = Some rows0 \<Longrightarrow> s rel = Some rows \<Longrightarrow> pending (rel, row) + of_bool (row \<in> rows0) = of_bool (row \<in> rows)"
  using assms [unfolded pending_ok_def, THEN spec [of _ rel]] by (auto elim: option.rel_cases)

lemma pending_ok_update:
  assumes "pending_ok s0 s pending" and "s rel = Some rows" and "rows' = (if add then insert row rows else rows - {row})"
    and "(row \<in> rows) = (\<not> add)" and "w = (if add then 1 else - 1)"
  shows "pending_ok s0 (s(rel \<mapsto> rows')) (pending((rel, row) := pending (rel, row) + w))"
  unfolding pending_ok_def
proof
  fix r
  have old: "rel_option (\<lambda>rows0 rows. \<forall>row. pending (r, row) = of_bool (row \<in> rows) - of_bool (row \<in> rows0)) (s0 r) (s r)"
    using assms(1) by (simp add: pending_ok_def)
  show "rel_option (\<lambda>rows0 rows. \<forall>row'. (pending((rel, row) := pending (rel, row) + w)) (r, row') = of_bool (row' \<in> rows) - of_bool (row' \<in> rows0))
      (s0 r) ((s(rel \<mapsto> rows')) r)"
  proof (cases "r = rel")
    case True
    with old assms(2) obtain rows0 where s0: "s0 r = Some rows0" "\<forall>row. pending (r, row) = of_bool (row \<in> rows) - of_bool (row \<in> rows0)"
      by (auto elim: option.rel_cases)
    then show ?thesis using True assms(3-5) by (cases add) auto
  next
    case False
    with old show ?thesis by simp
  qed
qed

lemma guard_apply_snoc: "guard_apply s0 acc = Ok s \<Longrightarrow> guard_apply s0 (acc @ [ch]) = guard_apply s [ch]"
  by (induction acc arbitrary: s0) (auto split: option.splits)

lemma signs [simp]: "0 <s (1 :: i64)" "\<not> 0 <s (- 1 :: i64)" "(- 1 :: i64) <s 0" "\<not> (1 :: i64) <s 0" "\<not> 0 <s (0 :: i64)" "(0 :: i64) \<le>s 0" "\<not> (1 :: i64) \<le>s 0"
  by (simp_all add: word_sless_alt word_sle_eq)

lemma ir_rel_id: "ir_rel p n = Some rel \<Longrightarrow> ir_id rel = n"
  by (auto simp: ir_rel_def find_Some_iff)

lemma guard_changes_seq:
  assumes "pending_ok s0 s pending" and "guard_apply s0 acc = (Ok s :: (engine_error, _) rust)"
  shows "rust_bind (guard_changes p s0 pending acc changes) (\<lambda>accepted. rust_bind (guard_apply s0 accepted) (\<lambda>s1. Ok (accepted, s1))) =
    guard_seq p s acc changes"
  using assms
proof (induction changes arbitrary: s pending acc)
  case (Cons ch changes)
  show ?case
  proof (cases "ir_rel p (ic_rel ch)")
    case (Some rel)
    note id = ir_rel_id [OF Some]
    consider "ir_kind rel \<noteq> KSource" | "length (ic_row ch) \<noteq> length (ir_cols rel)" | "s (ic_rel ch) = None" | "ic_w ch \<noteq> 1" "ic_w ch \<noteq> - 1"
      | (good) rows where "ir_kind rel = KSource" "length (ic_row ch) = length (ir_cols rel)" "s (ic_rel ch) = Some rows" "ic_w ch = 1 \<or> ic_w ch = - 1"
      by auto
    then show ?thesis
    proof cases
      case good
      then obtain rows0 where rows0: "s0 (ic_rel ch) = Some rows0" using pending_okD(1) [OF Cons.prems(1), of "ic_rel ch"] by auto
      have before: "pending (ic_rel ch, ic_row ch) + (if ic_row ch \<in> rows0 then 1 else 0) = of_bool (ic_row ch \<in> rows)"
        using pending_okD(2) [OF Cons.prems(1) rows0 good(3), of "ic_row ch"]
        by (cases "ic_row ch \<in> rows"; cases "ic_row ch \<in> rows0") simp_all
      have up: "pending_ok s0 (s(ic_rel ch \<mapsto> rows')) (pending((ic_rel ch, ic_row ch) := pending (ic_rel ch, ic_row ch) + ic_w ch))"
        and acc: "guard_apply s0 (acc @ [ch]) = (Ok (s(ic_rel ch \<mapsto> rows')) :: (engine_error, _) rust)"
        if "rows' = (if add then insert (ic_row ch) rows else rows - {ic_row ch})" "(ic_row ch \<in> rows) = (\<not> add)" "ic_w ch = (if add then 1 else - 1)" for add rows'
        using pending_ok_update [OF Cons.prems(1) good(3) that] guard_apply_snoc [OF Cons.prems(2), of ch] good(3) that
        by (auto split: if_splits)
      have ins: "rust_bind (guard_changes p s0 (pending((ic_rel ch, ic_row ch) := pending (ic_rel ch, ic_row ch) + 1)) (acc @ [ch]) changes)
          (\<lambda>accepted. rust_bind (guard_apply s0 accepted) (\<lambda>s1. Ok (accepted, s1))) =
          guard_seq p (s(ic_rel ch \<mapsto> insert (ic_row ch) rows)) (acc @ [ch]) changes" if "ic_w ch = 1" "ic_row ch \<notin> rows"
        using Cons.IH [OF up [where add = True, OF refl] acc [where add = True, OF refl]] that by (simp add: fun_upd_def)
      have del: "rust_bind (guard_changes p s0 (pending((ic_rel ch, ic_row ch) := pending (ic_rel ch, ic_row ch) + - 1)) (acc @ [ch]) changes)
          (\<lambda>accepted. rust_bind (guard_apply s0 accepted) (\<lambda>s1. Ok (accepted, s1))) =
          guard_seq p (s(ic_rel ch \<mapsto> rows - {ic_row ch})) (acc @ [ch]) changes" if "ic_w ch = - 1" "ic_row ch \<in> rows"
        using Cons.IH [OF up [where add = False, OF refl] acc [where add = False, OF refl]] that by (simp add: fun_upd_def)
      show ?thesis
        using good(4) Some id good(1-3) rows0 before ins del Cons.IH [OF Cons.prems]
        by (elim disjE; cases "ic_row ch \<in> rows") (simp_all add: Let_def del: fun_upd_apply)
    qed (use Some id pending_okD(1) [OF Cons.prems(1), of "ic_rel ch"] in \<open>auto split: option.splits\<close>)
  qed simp
qed simp

lemma guard_is_seq: "guard p sources changes = guard_seq p sources [] changes"
  unfolding guard_def by (rule guard_changes_seq [OF pending_ok_refl]) simp

text \<open>
  C33: The guard, which nets the weights of the frontier in a side table and touches the relations only at
  the end, decides and changes exactly what applying the changes one by one would: an insertion of a
  row present at that moment rejects the frontier and leaves every relation as it was, a deletion of
  a row absent at that moment is dropped, and the first offending change gives the error.
\<close>

theorem guard_sequential: "guard p sources changes = guard_seq p sources [] changes"
  by (rule guard_is_seq)

subsection \<open>Net weights\<close>

definition net_weight :: "ir_change list \<Rightarrow> nat \<Rightarrow> ir_row \<Rightarrow> int" where
  "net_weight changes rel row = sum_list (map (\<lambda>ch. if ic_rel ch = rel \<and> ic_row ch = row then sint (ic_w ch) else 0) changes)"

lemma net_weight_simps [simp]:
  "net_weight [] rel row = 0"
  "net_weight (acc @ [ch]) rel row = net_weight acc rel row + (if ic_rel ch = rel \<and> ic_row ch = row then sint (ic_w ch) else 0)"
  by (simp_all add: net_weight_def)

definition holds_row :: "source_rows \<Rightarrow> nat \<Rightarrow> ir_row \<Rightarrow> int" where
  "holds_row sources rel row = (case sources rel of Some rows \<Rightarrow> of_bool (row \<in> rows) | None \<Rightarrow> 0)"

lemma guard_seq_net:
  "guard_seq p s acc changes = Ok (accepted, s1) \<Longrightarrow>
   net_weight accepted rel row - net_weight acc rel row = holds_row s1 rel row - holds_row s rel row"
proof (induction changes arbitrary: s acc)
  case (Cons ch changes)
  obtain r rows where r: "ir_rel p (ic_rel ch) = Some r" and rows: "s (ic_rel ch) = Some rows"
    and kind: "ir_kind r = KSource" and len: "length (ic_row ch) = length (ir_cols r)"
    using Cons.prems by (auto split: option.splits if_splits)
  from Cons.prems r rows kind len
  consider "ic_w ch = 1" "ic_row ch \<notin> rows" "guard_seq p (s(ic_rel ch \<mapsto> insert (ic_row ch) rows)) (acc @ [ch]) changes = Ok (accepted, s1)"
    | "ic_w ch = - 1" "ic_row ch \<in> rows" "guard_seq p (s(ic_rel ch \<mapsto> rows - {ic_row ch})) (acc @ [ch]) changes = Ok (accepted, s1)"
    | "guard_seq p s acc changes = Ok (accepted, s1)"
    by (auto split: if_splits)
  then show ?case
    by cases (use Cons.IH rows in \<open>fastforce simp: holds_row_def split: if_splits\<close>)+
qed simp

text \<open>
  C34: What passes the guard keeps every source relation a set: the accepted weights of a row sum to the
  difference between the row's presence after and before, so downstream weights of source rows stay
  zero or one whatever order of insertions and deletions the frontier has.
\<close>

theorem guard_net_weights:
  assumes "guard p sources changes = Ok (accepted, sources1)"
  shows "holds_row sources1 rel row = holds_row sources rel row + net_weight accepted rel row"
  using guard_seq_net [of p sources "[]" changes accepted sources1 rel row] assms by (simp add: guard_is_seq)

text \<open>A frontier that inserts a row, deletes it and a row that is not there, and inserts the first again.\<close>

definition demo_edges :: ir_program where
  "demo_edges = \<lparr>pr_texts = [], pr_terms = [], pr_rels = [\<lparr>ir_id = 0, ir_name = ''edge'', ir_cols = [TInt], ir_kind = KSource\<rparr>],
     pr_nodes = [], pr_strata = [], pr_outputs = []\<rparr>"

definition edge_change :: "i64 \<Rightarrow> i64 \<Rightarrow> ir_change" where
  "edge_change n w = \<lparr>ic_rel = 0, ic_row = [n], ic_w = w\<rparr>"

theorem guard_net_weights_witness:
  "\<exists>s1. guard demo_edges [0 \<mapsto> {}] [edge_change 7 1, edge_change 7 (- 1), edge_change 8 (- 1), edge_change 7 1] =
       Ok ([edge_change 7 1, edge_change 7 (- 1), edge_change 7 1], s1) \<and> holds_row s1 0 [7] = 1"
proof -
  have "guard demo_edges [0 \<mapsto> {}] [edge_change 7 1, edge_change 7 (- 1), edge_change 8 (- 1), edge_change 7 1] =
      Ok ([edge_change 7 1, edge_change 7 (- 1), edge_change 7 1], [0 \<mapsto> {[7]}])"
    by (simp add: guard_is_seq demo_edges_def edge_change_def ir_rel_def fun_eq_iff)
  from guard_net_weights [OF this, of 0 "[7]"] this show ?thesis
    by (auto simp: holds_row_def edge_change_def net_weight_def)
qed

end
