(* ===== verification/Dbsp_Rows.thy ===== *)
theory Dbsp_Rows
  imports Dbsp_Cells Ir_Expr Containers
begin

text \<open>
  What the operators of the DBSP engine do with one row or one group of rows (the functions above the
  operator algebra in \<open>crates/ivm-dbsp/src/2_dbsp.rs\<close>). The dictionary that all operators share is
  threaded through; its mutex is not modelled. Sums that Rust checks in debug builds wrap, as in
  release builds.
\<close>

type_synonym 'a in_dict = "(engine_error, 'a \<times> interner) rust"

record dbsp_shared =
  sh_interner :: interner
  sh_sum_error :: "string option"
  sh_constructors :: "nat \<Rightarrow> (string \<times> ty list) option"
  sh_texts :: "i64 list"
  sh_terms :: "i64 list"

subsection \<open>Rows\<close>

text \<open>\<open>None\<close> drops the row.\<close>

fun replace_keys :: "interner \<Rightarrow> i64 list \<Rightarrow> bool list \<Rightarrow> ir_row option" where
  "replace_keys i (cell1 # cells) (any1 # anys) =
     (if any1 then
        (if dict_any i cell1 = Some ANull then None
         else Option.bind (any_cell_key i cell1) (\<lambda>k. map_option ((#) k) (replace_keys i cells anys)))
      else map_option ((#) cell1) (replace_keys i cells anys))"
| "replace_keys i cells anys = Some cells"

definition key_cells :: "interner \<Rightarrow> ir_row \<Rightarrow> nat list \<Rightarrow> bool list \<Rightarrow> (engine_error, ir_row option) rust" where
  "key_cells i row key anys = rust_bind (row_cols row key) (\<lambda>cells. Ok (replace_keys i cells anys))"

definition numeric_type :: "ty \<Rightarrow> bool" where
  "numeric_type t \<longleftrightarrow> t = TInt \<or> t = TReal"

fun class_rank :: "ty \<Rightarrow> nat" where
  "class_rank TInt = 1"
| "class_rank TReal = 1"
| "class_rank TText = 2"
| "class_rank TId = 3"
| "class_rank TAny = 4"

definition mfp_compare :: "interner \<Rightarrow> ty \<Rightarrow> i64 \<Rightarrow> ty \<Rightarrow> i64 \<Rightarrow> (engine_error, ordering) rust" where
  "mfp_compare i ta a tb b =
     (if numeric_type ta \<and> numeric_type tb then
        (if ta = TInt \<and> tb = TInt then Ok (cell_cmp a b)
         else (let x = (if ta = TReal then a else f64_of_int a);
                   y = (if tb = TReal then b else f64_of_int b)
               in Ok (case f64_partial_cmp (f64_of_bits x) (f64_of_bits y) of Some o1 \<Rightarrow> o1 | None \<Rightarrow> Equal)))
      else if class_rank ta \<noteq> class_rank tb then Ok (cmp (class_rank ta) (class_rank tb))
      else cmp_cell ta a b i)"

definition mfp_env :: "dbsp_shared \<Rightarrow> engine_error eval_env" where
  "mfp_env sh =
     \<lparr>env_term_lt = (\<lambda>a b. Ok (dict_order (sh_interner sh) a b = Less)),
      env_text = vec_index (sh_texts sh),
      env_term = vec_index (sh_terms sh),
      env_nil = option_unwrap (text_id (sh_interner sh) []),
      env_compare = mfp_compare (sh_interner sh)\<rparr>"

fun filters_hold :: "engine_error eval_env \<Rightarrow> expr list \<Rightarrow> ir_row \<Rightarrow> ty list \<Rightarrow> (engine_error, bool) rust" where
  "filters_hold env [] row types = Ok True"
| "filters_hold env (e # es) row types =
     rust_bind (eval_typed_with_text env e row types) (\<lambda>v. if v \<noteq> 0 then filters_hold env es row types else Ok False)"

fun push_maps :: "engine_error eval_env \<Rightarrow> expr list \<Rightarrow> ir_row \<Rightarrow> ty list \<Rightarrow> (engine_error, ir_row) rust" where
  "push_maps env [] row types = Ok row"
| "push_maps env (e # es) row types =
     rust_bind (eval_typed_with_text env e row types) (\<lambda>v.
     rust_bind (option_unwrap (expr_type e types)) (\<lambda>t. push_maps env es (row @ [v]) (types @ [t])))"

definition mfp_row :: "dbsp_shared \<Rightarrow> expr list \<Rightarrow> expr list \<Rightarrow> nat list \<Rightarrow> ty list \<Rightarrow> ir_row \<Rightarrow> (engine_error, ir_row option) rust" where
  "mfp_row sh filter1 map1 project types row =
     rust_bind (filters_hold (mfp_env sh) filter1 row types) (\<lambda>keep.
       if \<not> keep then Ok None
       else rust_bind (push_maps (mfp_env sh) map1 row types) (\<lambda>row1.
              if project = [] then Ok (Some row1) else rust_bind (row_cols row1 project) (\<lambda>r. Ok (Some r))))"

definition mint_row :: "string \<Rightarrow> ty list \<Rightarrow> nat list \<Rightarrow> ir_row \<Rightarrow> interner \<Rightarrow> ir_row in_dict" where
  "mint_row name types columns row i =
     rust_bind (row_cols row columns) (\<lambda>values1. rust_bind (mint name values1 types i) (\<lambda>(n, i1). Ok (row @ [n], i1)))"

definition decode_row :: "interner \<Rightarrow> string \<Rightarrow> nat \<Rightarrow> ir_row \<Rightarrow> ir_row option" where
  "decode_row i name col row =
     Option.bind (vec_get row col) (\<lambda>n. Option.bind (dict_get i n) (\<lambda>t.
       if tm_functor t = name then Some (row @ n # tm_args t) else None))"

definition str_cons_row :: "str_mode \<Rightarrow> ir_row \<Rightarrow> interner \<Rightarrow> (ir_row option) in_dict" where
  "str_cons_row mode row i =
     (case mode of
        Construct head rest \<Rightarrow>
          rust_bind (vec_index row head) (\<lambda>h.
            case dict_text i h of
              None \<Rightarrow> Ok (None, i)
            | Some hs \<Rightarrow>
                rust_bind (vec_index row rest) (\<lambda>r.
                  case dict_text i r of
                    None \<Rightarrow> Ok (None, i)
                  | Some rs \<Rightarrow> rust_bind (mint_text (hs @ rs) i) (\<lambda>(n, i1). Ok (Some (row @ [n]), i1))))
      | Decompose whole \<Rightarrow>
          rust_bind (vec_index row whole) (\<lambda>w.
            case dict_text i w of
              None \<Rightarrow> Ok (None, i)
            | Some s \<Rightarrow>
                (case utf8_chars s of
                   [] \<Rightarrow> Ok (None, i)
                 | c # _ \<Rightarrow>
                     rust_bind (mint_text (take (length c) s) i) (\<lambda>(n, i1).
                     rust_bind (mint_text (drop (length c) s) i1) (\<lambda>(m, i2). Ok (Some (row @ [n, m]), i2))))))"

fun str_values :: "interner \<Rightarrow> ir_row \<Rightarrow> (nat \<times> str_kind) list \<Rightarrow> (engine_error, str_val list option) rust" where
  "str_values i row [] = Ok (Some [])"
| "str_values i row ((column, kind) # rest) =
     rust_bind (vec_index row column) (\<lambda>c.
       case (case kind of KText \<Rightarrow> map_option VText (dict_text i c) | KInt \<Rightarrow> Some (VInt c)) of
         None \<Rightarrow> Ok None
       | Some v \<Rightarrow> rust_bind (str_values i row rest) (\<lambda>vs. Ok (map_option ((#) v) vs)))"

definition str_op_row :: "text_lib \<Rightarrow> str_op \<Rightarrow> nat list \<Rightarrow> ir_row \<Rightarrow> interner \<Rightarrow> (ir_row option) in_dict" where
  "str_op_row lib op columns row i =
     rust_bind (str_values i row (zip columns (str_args op))) (\<lambda>vs.
       case Option.bind vs (str_apply lib op) of
         None \<Rightarrow> Ok (None, i)
       | Some (OutText s) \<Rightarrow> rust_bind (mint_text s i) (\<lambda>(n, i1). Ok (Some (row @ [n]), i1))
       | Some (OutInt v) \<Rightarrow> Ok (Some (row @ [v]), i)
       | Some OutHolds \<Rightarrow> Ok (Some row, i))"

subsection \<open>Groups\<close>

type_synonym row_group = "(ir_row \<times> i64) list"

text \<open>\<open>min_by\<close> keeps the first of equal elements, \<open>max_by\<close> the last.\<close>

fun min_by_rust :: "('a \<Rightarrow> 'a \<Rightarrow> ('e, ordering) rust) \<Rightarrow> 'a \<Rightarrow> 'a list \<Rightarrow> ('e, 'a) rust" where
  "min_by_rust c best [] = Ok best"
| "min_by_rust c best (x # xs) = rust_bind (c best x) (\<lambda>o1. min_by_rust c (if o1 = Greater then x else best) xs)"

fun max_by_rust :: "('a \<Rightarrow> 'a \<Rightarrow> ('e, ordering) rust) \<Rightarrow> 'a \<Rightarrow> 'a list \<Rightarrow> ('e, 'a) rust" where
  "max_by_rust c best [] = Ok best"
| "max_by_rust c best (x # xs) = rust_bind (c best x) (\<lambda>o1. max_by_rust c (if o1 = Greater then best else x) xs)"

definition group_live :: "row_group \<Rightarrow> ir_row list" where
  "group_live rows = map fst (filter (\<lambda>(_, w). 0 <s w) rows)"

definition extreme :: "interner \<Rightarrow> ty list \<Rightarrow> ir_row list \<Rightarrow> nat \<Rightarrow> bool \<Rightarrow> (engine_error, i64) rust" where
  "extreme i types live col mx =
     rust_bind (vec_index types col) (\<lambda>t.
     rust_bind (map_rust (\<lambda>row. vec_index row col) live) (\<lambda>cells.
       case filter (\<lambda>c. t \<noteq> TAny \<or> dict_any i c \<noteq> Some ANull) cells of
         [] \<Rightarrow> vec_index cells 0
       | c # cs \<Rightarrow> (if mx then max_by_rust else min_by_rust) (\<lambda>a b. cmp_cell t a b i) c cs))"

definition real_sum :: "nat \<Rightarrow> row_group \<Rightarrow> (engine_error, i64) rust" where
  "real_sum col rows =
     rust_bind (map_rust (\<lambda>(row, w). rust_bind (vec_index row col) (\<lambda>c. Ok (f64_mul c (f64_of_int w)))) rows)
       (\<lambda>terms. Ok (foldl f64_add (f64_sign True) terms))"

definition int_sum :: "nat \<Rightarrow> row_group \<Rightarrow> (engine_error, i64) rust" where
  "int_sum col rows = rust_bind (map_rust (\<lambda>(row, w). rust_bind (vec_index row col) (\<lambda>c. Ok (c * w))) rows) (\<lambda>terms. Ok (foldl (+) 0 terms))"

definition any_values :: "interner \<Rightarrow> nat \<Rightarrow> row_group \<Rightarrow> (engine_error, (any_value \<times> i64) list) rust" where
  "any_values i col rows =
     map_rust (\<lambda>(row, w). rust_bind (vec_index row col) (\<lambda>c. rust_bind (option_unwrap (dict_any i c)) (\<lambda>v. Ok (v, w)))) rows"

text \<open>The aggregates; a sum over \<open>Any\<close> cells leaves a zero and its place for the second pass.\<close>

fun agg_columns ::
    "interner \<Rightarrow> ty list \<Rightarrow> row_group \<Rightarrow> ir_row list \<Rightarrow> i64 \<Rightarrow> agg list \<Rightarrow> ir_row \<Rightarrow> (nat \<times> (any_value \<times> i64) list) list \<Rightarrow>
     (engine_error, ir_row \<times> (nat \<times> (any_value \<times> i64) list) list) rust" where
  "agg_columns i types rows live cnt [] out later = Ok (out, later)"
| "agg_columns i types rows live cnt (a # aggs) out later =
     (case a of
        ACount \<Rightarrow> agg_columns i types rows live cnt aggs (out @ [cnt]) later
      | ASum col \<Rightarrow>
          rust_bind (vec_index types col) (\<lambda>t.
            if t = TReal then rust_bind (real_sum col rows) (\<lambda>v. agg_columns i types rows live cnt aggs (out @ [v]) later)
            else if t = TAny then rust_bind (any_values i col rows) (\<lambda>vs. agg_columns i types rows live cnt aggs (out @ [0]) (later @ [(length out, vs)]))
            else rust_bind (int_sum col rows) (\<lambda>v. agg_columns i types rows live cnt aggs (out @ [v]) later))
      | AMin col \<Rightarrow> rust_bind (extreme i types live col False) (\<lambda>v. agg_columns i types rows live cnt aggs (out @ [v]) later)
      | AMax col \<Rightarrow> rust_bind (extreme i types live col True) (\<lambda>v. agg_columns i types rows live cnt aggs (out @ [v]) later))"

fun mint_sums :: "(nat \<times> (any_value \<times> i64) list) list \<Rightarrow> ir_row \<Rightarrow> dbsp_shared \<Rightarrow> (engine_error, ir_row \<times> dbsp_shared) rust" where
  "mint_sums [] out sh = Ok (out, sh)"
| "mint_sums ((at1, vs) # later) out sh =
     (let (total1, sh1) = (case sqlite_sum_any vs of
            Ok v \<Rightarrow> (v, sh)
          | Err er \<Rightarrow> (ANull, sh\<lparr>sh_sum_error := Some er\<rparr>)
          | Panic \<Rightarrow> (ANull, sh))
      in rust_bind (mint_any total1 (sh_interner sh1)) (\<lambda>(n, i1). mint_sums later (out[at1 := n]) (sh1\<lparr>sh_interner := i1\<rparr>)))"

definition group_count :: "row_group \<Rightarrow> i64" where
  "group_count rows = foldl (+) 0 (map snd rows)"

definition reduce_group :: "nat list \<Rightarrow> agg list \<Rightarrow> ty list \<Rightarrow> row_group \<Rightarrow> dbsp_shared \<Rightarrow> (engine_error, row_group \<times> dbsp_shared) rust" where
  "reduce_group key aggs types rows sh =
     (let cnt = group_count rows; live = group_live rows
      in if cnt \<le>s 0 then Ok ([], sh)
         else case live of
           [] \<Rightarrow> Ok ([], sh)
         | first1 # rest \<Rightarrow>
             rust_bind (map_rust (\<lambda>row. row_cols row key) live) (\<lambda>keys.
             rust_bind (min_by_rust (\<lambda>a b. Ok (row_cmp a b)) (hd keys) (tl keys)) (\<lambda>out.
             rust_bind (agg_columns (sh_interner sh) types rows live cnt aggs out []) (\<lambda>(out1, later).
             rust_bind (mint_sums later out1 sh) (\<lambda>(out2, sh1). Ok ([(out2, 1)], sh1))))))"

text \<open>
  \<open>sort_by\<close> with a comparison that may panic: insertion, as the standard library sorts short slices. For a
  comparison that is a total preorder on the rows every stable sort gives this result; for one that is not
  (NaN cells) the standard library may give another order or panic, so nothing is claimed there.
\<close>

fun insert_rust :: "('a \<Rightarrow> 'a \<Rightarrow> ('e, ordering) rust) \<Rightarrow> 'a \<Rightarrow> 'a list \<Rightarrow> ('e, 'a list) rust" where
  "insert_rust c x [] = Ok [x]"
| "insert_rust c x (y # ys) =
     rust_bind (c x y) (\<lambda>o1. if o1 = Greater then rust_bind (insert_rust c x ys) (\<lambda>zs. Ok (y # zs)) else Ok (x # y # ys))"

fun sort_rust :: "('a \<Rightarrow> 'a \<Rightarrow> ('e, ordering) rust) \<Rightarrow> 'a list \<Rightarrow> ('e, 'a list) rust" where
  "sort_rust c [] = Ok []"
| "sort_rust c (x # xs) = rust_bind (sort_rust c xs) (insert_rust c x)"

fun take_copies :: "i64 \<Rightarrow> row_group \<Rightarrow> row_group" where
  "take_copies left [] = []"
| "take_copies left ((row, w) # live) =
     (if left = 0 then []
      else (let n = (if w \<le>s left then w else left) in (row, n) # take_copies (left - n) live))"

definition topk_group :: "interner \<Rightarrow> order_by list \<Rightarrow> ty list \<Rightarrow> nat \<Rightarrow> row_group \<Rightarrow> (engine_error, row_group) rust" where
  "topk_group i order types limit rows =
     rust_bind (sort_rust (\<lambda>(a, _) (b, _). rank order types i a b) (filter (\<lambda>(_, w). 0 <s w) rows)) (\<lambda>live.
       Ok (take_copies (of_nat limit) live))"

text \<open>Rows each with its weight as that many copies.\<close>

definition spread :: "row_group \<Rightarrow> ir_row list" where
  "spread rows = concat (map (\<lambda>(row, w). replicate (copies w) row) rows)"

record window_state =
  wn_dense :: i64
  wn_rank :: i64
  wn_prefix :: i64

fun order_changes :: "order_by list \<Rightarrow> ir_row \<Rightarrow> ir_row \<Rightarrow> (engine_error, bool) rust" where
  "order_changes [] row before = Ok False"
| "order_changes (ob # order) row before =
     rust_bind (vec_index row (ob_col ob)) (\<lambda>x. rust_bind (vec_index before (ob_col ob)) (\<lambda>y.
       if x \<noteq> y then Ok True else order_changes order row before))"

definition window_value :: "order_by list \<Rightarrow> win_fn \<Rightarrow> ir_row list \<Rightarrow> i64 \<Rightarrow> nat \<Rightarrow> window_state \<Rightarrow> (engine_error, i64 \<times> window_state) rust" where
  "window_value order func all1 total1 i st =
     (let value_col = (case order of [] \<Rightarrow> 0 | ob # _ \<Rightarrow> ob_col ob)
      in rust_bind (if i = 0 then Ok True else order_changes order (all1 ! i) (all1 ! (i - 1))) (\<lambda>fresh.
         let st1 = (if fresh then st\<lparr>wn_dense := wn_dense st + 1, wn_rank := of_nat i + 1\<rparr> else st)
         in case func of
              WRowNumber \<Rightarrow> Ok (of_nat i + 1, st1)
            | WRank \<Rightarrow> Ok (wn_rank st1, st1)
            | WDenseRank \<Rightarrow> Ok (wn_dense st1, st1)
            | WLag offset \<Rightarrow> if i < offset then Ok (0, st1) else rust_bind (vec_index (all1 ! (i - offset)) value_col) (\<lambda>v. Ok (v, st1))
            | WLead offset \<Rightarrow> (case vec_get all1 (i + offset) of None \<Rightarrow> Ok (0, st1) | Some r \<Rightarrow> rust_bind (vec_index r value_col) (\<lambda>v. Ok (v, st1)))
            | WSum col \<Rightarrow> rust_bind (vec_index (all1 ! i) col) (\<lambda>v.
                let st2 = st1\<lparr>wn_prefix := wn_prefix st1 + v\<rparr> in Ok (if order = [] then total1 else wn_prefix st2, st2))
            | WCount \<Rightarrow> Ok (if order = [] then of_nat (length all1) else of_nat i + 1, st1)))"

definition bt_count :: "ir_row \<Rightarrow> (ir_row \<times> i64) list \<Rightarrow> (ir_row \<times> i64) list" where
  "bt_count row m = bt_insert row_key row (zget m row + 1) m"

fun window_rows ::
    "order_by list \<Rightarrow> win_fn \<Rightarrow> ir_row list \<Rightarrow> i64 \<Rightarrow> nat list \<Rightarrow> window_state \<Rightarrow> (ir_row \<times> i64) list \<Rightarrow> (engine_error, (ir_row \<times> i64) list) rust" where
  "window_rows order func all1 total1 [] st values1 = Ok values1"
| "window_rows order func all1 total1 (i # is) st values1 =
     rust_bind (window_value order func all1 total1 i st) (\<lambda>(v, st1).
       window_rows order func all1 total1 is st1 (bt_count (all1 ! i @ [v]) values1))"

definition window_total :: "win_fn \<Rightarrow> ir_row list \<Rightarrow> (engine_error, i64) rust" where
  "window_total func all1 =
     (case func of WSum col \<Rightarrow> rust_bind (map_rust (\<lambda>row. vec_index row col) all1) (\<lambda>cells. Ok (foldl (+) 0 cells)) | _ \<Rightarrow> Ok 0)"

definition window_group :: "interner \<Rightarrow> order_by list \<Rightarrow> win_fn \<Rightarrow> ty list \<Rightarrow> row_group \<Rightarrow> (engine_error, row_group) rust" where
  "window_group i order func types rows =
     rust_bind (sort_rust (rank order types i) (spread rows)) (\<lambda>all1.
     rust_bind (window_total func all1) (\<lambda>total1.
       window_rows order func all1 total1 [0..<length all1] \<lparr>wn_dense = 0, wn_rank = 0, wn_prefix = 0\<rparr> []))"

end
