(* ===== verification/Dbsp_Order.thy ===== *)
theory Dbsp_Order
  imports Dbsp_Rows Ir_Order_Laws
begin

text \<open>
  \<open>rank\<close> orders the rows of an operator: on rows of the operator's column types, with a dictionary whose
  terms have usable keys and without NaN, it never panics and is a comparison that sorts.
\<close>

subsection \<open>Orders of cells\<close>

definition cell_fits :: "interner \<Rightarrow> ty \<Rightarrow> i64 \<Rightarrow> bool" where
  "cell_fits i t c =
     (case t of
        TId \<Rightarrow> fits (dict_get i) sort_key_depth c
      | TReal \<Rightarrow> f64_of_bits c \<noteq> FNan
      | TAny \<Rightarrow> (case dict_any i c of Some v \<Rightarrow> no_nan v | None \<Rightarrow> False)
      | _ \<Rightarrow> True)"

definition cell_order :: "interner \<Rightarrow> ty \<Rightarrow> i64 \<Rightarrow> i64 \<Rightarrow> ordering" where
  "cell_order i t a b = (case (cmp_cell t a b i :: (unit, ordering) rust) of Ok o1 \<Rightarrow> o1 | _ \<Rightarrow> Equal)"

lemma cmp_cell_Ok: "cell_fits i t a \<Longrightarrow> cell_fits i t b \<Longrightarrow> cmp_cell t a b i = Ok (cell_order i t a b)"
  by (cases t) (auto simp: cmp_cell_def cell_order_def cell_fits_def split: option.splits)

lemma option_cmp_key: "option_cmp a b = cmp (case a of None \<Rightarrow> [] | Some s \<Rightarrow> [s]) (case b of None \<Rightarrow> [] | Some s \<Rightarrow> [s])"
  by (auto simp: option_cmp_def split: option.split)

lemma dict_order_key:
  assumes "keyed (dict_get i) sg" and "fits (dict_get i) sort_key_depth a" and "fits (dict_get i) sort_key_depth b"
  shows "dict_order i a b = cmp (sort_key a (dict_get i)) (sort_key b (dict_get i))"
  using key_order [OF assms] compare_terms_order [OF assms(2,3)] by (simp add: dict_order_def dict_compare_def)

lemma cell_comparator:
  assumes "keyed (dict_get i) sg"
  shows "comparator_on (cell_fits i t) (cell_order i t)"
proof (cases t)
  case TInt
  show ?thesis by (rule comparator_on_key [where f = sint]) (simp add: TInt cell_order_def cmp_cell_def cell_cmp_def)
next
  case TId
  show ?thesis
    by (rule comparator_on_key [where f = "\<lambda>a. sort_key a (dict_get i)"])
      (simp add: TId cell_order_def cmp_cell_def cell_fits_def dict_order_key [OF assms])
next
  case TText
  show ?thesis
    by (rule comparator_on_key [where f = "\<lambda>a. case dict_text i a of None \<Rightarrow> [] | Some s \<Rightarrow> [s]"])
      (simp add: TText cell_order_def cmp_cell_def option_cmp_key)
next
  case TReal
  show ?thesis
    by (rule comparator_on_key [where f = "\<lambda>a. f64_key (f64_of_bits a)"])
      (simp add: TReal cell_order_def cmp_cell_def cell_fits_def f64_partial_cmp_key)
next
  case TAny
  show ?thesis
    by (rule comparator_on_key [where f = "\<lambda>a. case dict_any i a of Some v \<Rightarrow> any_key v | None \<Rightarrow> any_key ANull"])
      (auto simp: TAny cell_order_def cmp_cell_def cell_fits_def sqlite_cmp_key split: option.splits)
qed

subsection \<open>Orders of rows\<close>

lemma comparator_reverse:
  assumes "comparator_on P c"
  shows "comparator_on P (\<lambda>a b. ord_reverse (c a b))"
proof (rule comparator_on.intro)
  note flip = comparator_on.flip [OF assms]
  fix x y z
  assume dom: "P x" "P y" "P z" and le: "ord_reverse (c x y) \<noteq> Greater" "ord_reverse (c y z) \<noteq> Greater"
  then have "c z y \<noteq> Greater" "c y x \<noteq> Greater" using flip [OF dom(1,2)] flip [OF dom(2,3)] by simp_all
  from comparator_on.le_trans [OF assms dom(3,2,1) this] show "ord_reverse (c x z) \<noteq> Greater"
    using flip [OF dom(1,3)] by simp
next
  fix a b
  assume "P a" "P b"
  from comparator_on.flip [OF assms this] show "ord_reverse (c b a) = ord_reverse (ord_reverse (c a b))" by simp
next
  fix a
  assume "P a"
  from comparator_on.refl [OF assms this] show "ord_reverse (c a a) = Equal" by simp
qed

lemma comparator_then:
  assumes "comparator_on P c" and "comparator_on P d"
  shows "comparator_on P (\<lambda>a b. ord_then (c a b) (d a b))"
proof (rule comparator_on.intro)
  fix a
  assume "P a"
  then show "ord_then (c a a) (d a a) = Equal" using assms by (simp add: comparator_on.refl)
next
  fix a b
  assume "P a" "P b"
  then show "ord_then (c b a) (d b a) = ord_reverse (ord_then (c a b) (d a b))"
    using comparator_on.flip [OF assms(1), of a b] comparator_on.flip [OF assms(2), of a b] by (cases "c a b") simp_all
next
  fix x y z
  assume dom: "P x" "P y" "P z" and le: "ord_then (c x y) (d x y) \<noteq> Greater" "ord_then (c y z) (d y z) \<noteq> Greater"
  then have cs: "c x y \<noteq> Greater" "c y z \<noteq> Greater" by auto
  then have xz: "c x z \<noteq> Greater" using comparator_on.le_trans [OF assms(1) dom] by blast
  show "ord_then (c x z) (d x z) \<noteq> Greater"
  proof (cases "c x z")
    case Equal
    have "c x y = Equal" using comparator_on.less_le_trans [OF assms(1) dom] cs Equal by (cases "c x y") auto
    moreover have "c y z = Equal" using comparator_on.le_less_trans [OF assms(1) dom] cs Equal by (cases "c y z") auto
    ultimately have "d x y \<noteq> Greater" "d y z \<noteq> Greater" using le by simp_all
    from comparator_on.le_trans [OF assms(2) dom this] Equal show ?thesis by simp
  qed (use xz in auto)
qed

lemma comparator_const: "comparator_on P (\<lambda>a b. Equal)"
  by (rule comparator_on.intro) simp_all

lemma comparator_at:
  assumes "comparator_on Q c" and "\<And>x. P x \<Longrightarrow> Q (f x)"
  shows "comparator_on P (\<lambda>a b. c (f a) (f b))"
proof (rule comparator_on.intro)
  fix a
  assume "P a"
  from comparator_on.refl [OF assms(1) assms(2) [OF this]] show "c (f a) (f a) = Equal" .
next
  fix a b
  assume "P a" "P b"
  from comparator_on.flip [OF assms(1) assms(2) [OF this(1)] assms(2) [OF this(2)]] show "c (f b) (f a) = ord_reverse (c (f a) (f b))" .
next
  fix x y z
  assume "P x" "P y" "P z" "c (f x) (f y) \<noteq> Greater" "c (f y) (f z) \<noteq> Greater"
  then show "c (f x) (f z) \<noteq> Greater" using comparator_on.le_trans [OF assms(1)] assms(2) by metis
qed

text \<open>The first unequal of a list of comparisons.\<close>

fun first_order :: "('a \<Rightarrow> 'a \<Rightarrow> ordering) list \<Rightarrow> 'a \<Rightarrow> 'a \<Rightarrow> ordering" where
  "first_order [] a b = Equal"
| "first_order (c # cs) a b = ord_then (c a b) (first_order cs a b)"

lemma comparator_first: "(\<And>c. c \<in> set cs \<Longrightarrow> comparator_on P c) \<Longrightarrow> comparator_on P (first_order cs)"
proof (induction cs)
  case Nil
  then show ?case using comparator_const by (simp add: fun_eq_iff [abs_def])
next
  case (Cons c cs)
  have "first_order (c # cs) = (\<lambda>a b. ord_then (c a b) (first_order cs a b))" by (simp add: fun_eq_iff)
  with Cons show ?case using comparator_then [of P c "first_order cs"] by simp
qed

lemma first_order_append: "first_order (cs @ ds) a b = ord_then (first_order cs a b) (first_order ds a b)"
  by (induction cs) (simp_all add: ord_then_assoc)

lemma first_unequal_order: "(\<And>x. x \<in> set xs \<Longrightarrow> f x = Ok (c x a b)) \<Longrightarrow> first_unequal f xs = Ok (first_order (map c xs) a b)"
  by (induction xs) (auto simp: ord_then_unequal)

definition row_fits :: "interner \<Rightarrow> ty list \<Rightarrow> ir_row \<Rightarrow> bool" where
  "row_fits i types row \<longleftrightarrow> list_all2 (cell_fits i) types row"

definition order_fits :: "order_by list \<Rightarrow> ty list \<Rightarrow> bool" where
  "order_fits order types \<longleftrightarrow> (\<forall>ob \<in> set order. ob_col ob < length types)"

definition by_column :: "interner \<Rightarrow> ty list \<Rightarrow> nat \<Rightarrow> ir_row \<Rightarrow> ir_row \<Rightarrow> ordering" where
  "by_column i types c a b = cell_order i (types ! c) (a ! c) (b ! c)"

definition by_term :: "interner \<Rightarrow> ty list \<Rightarrow> order_by \<Rightarrow> ir_row \<Rightarrow> ir_row \<Rightarrow> ordering" where
  "by_term i types ob a b = (if ob_desc ob then ord_reverse (by_column i types (ob_col ob) a b) else by_column i types (ob_col ob) a b)"

text \<open>The order \<open>rank\<close> stands for: the order terms, then every column.\<close>

definition rank_of :: "order_by list \<Rightarrow> ty list \<Rightarrow> interner \<Rightarrow> ir_row \<Rightarrow> ir_row \<Rightarrow> ordering" where
  "rank_of order types i = first_order (map (by_term i types) order @ map (by_column i types) [0..<length types])"

lemma row_fitsD: "row_fits i types row \<Longrightarrow> c < length types \<Longrightarrow> cell_fits i (types ! c) (row ! c) \<and> c < length row"
  by (auto simp: row_fits_def list_all2_conv_all_nth)

lemma first_unequal_map: "first_unequal f (map g xs) = first_unequal (\<lambda>x. f (g x)) xs"
  by (induction xs) (simp_all cong: if_cong)

lemma rank_tie_order:
  assumes "row_fits i types a" and "row_fits i types b"
  shows "rank_tie types i a b = Ok (first_order (map (by_column i types) [0..<length types]) a b)"
proof -
  have len: "length a = length types" "length b = length types"
    using assms unfolding row_fits_def by (simp_all add: list_all2_lengthD [symmetric])
  have cells: "enumerate 0 (zip a b) = map (\<lambda>c. (c, a ! c, b ! c)) [0..<length types]"
    using len by (intro nth_equalityI) (simp_all add: nth_enumerate_eq)
  show ?thesis
    unfolding rank_tie_def cells first_unequal_map
  proof (rule first_unequal_order)
    fix c
    assume "c \<in> set [0..<length types]"
    then have c: "c < length types" by simp
    then show "(case (c, a ! c, b ! c) of (c, x, y) \<Rightarrow> rust_bind (vec_index types c) (\<lambda>t. cmp_cell t x y i)) = Ok (by_column i types c a b)"
      using row_fitsD [OF assms(1) c] row_fitsD [OF assms(2) c] by (simp add: vec_index_def by_column_def cmp_cell_Ok)
  qed
qed

lemma rank_fits:
  assumes "order_fits order types" and "row_fits i types a" and "row_fits i types b"
  shows "rank order types i a b = (Ok (rank_of order types i a b) :: ('e, ordering) rust)"
proof -
  have "first_unequal (rank_order types i a b) order = (Ok (first_order (map (by_term i types) order) a b) :: ('e, ordering) rust)"
  proof (rule first_unequal_order)
    fix ob
    assume "ob \<in> set order"
    then have c: "ob_col ob < length types" using assms(1) by (simp add: order_fits_def)
    then show "rank_order types i a b ob = (Ok (by_term i types ob a b) :: ('e, ordering) rust)"
      using row_fitsD [OF assms(2) c] row_fitsD [OF assms(3) c]
      by (simp add: rank_order_def vec_index_def by_term_def by_column_def cmp_cell_Ok Let_def)
  qed
  then show ?thesis
    using rank_tie_order [OF assms(2,3)] by (cases "first_order (map (by_term i types) order) a b") (simp_all add: rank_def rank_of_def first_order_append)
qed

lemma rank_comparator:
  assumes "keyed (dict_get i) sg" and "order_fits order types"
  shows "comparator_on (row_fits i types) (rank_of order types i)"
  unfolding rank_of_def
proof (rule comparator_first)
  fix c
  assume "c \<in> set (map (by_term i types) order @ map (by_column i types) [0..<length types])"
  then consider ob where "ob \<in> set order" "c = by_term i types ob" | n where "n < length types" "c = by_column i types n" by auto
  then show "comparator_on (row_fits i types) c"
  proof cases
    case (1 ob)
    then have n: "ob_col ob < length types" using assms(2) by (simp add: order_fits_def)
    have col: "comparator_on (row_fits i types) (by_column i types (ob_col ob))"
      unfolding by_column_def [abs_def]
      by (rule comparator_at [OF cell_comparator [OF assms(1)]]) (use row_fitsD n in blast)
    then show ?thesis using comparator_reverse [OF col] 1(2) by (cases "ob_desc ob") (simp_all add: by_term_def [abs_def])
  next
    case (2 n)
    then show ?thesis unfolding by_column_def [abs_def]
      using comparator_at [OF cell_comparator [OF assms(1), of "types ! n"], of "row_fits i types" "\<lambda>row. row ! n"] row_fitsD by blast
  qed
qed

subsection \<open>Sorting by a comparison that may panic\<close>

lemma insert_rust_Ok: "(\<And>y. y \<in> set ys \<Longrightarrow> c x y = Ok (d x y)) \<Longrightarrow> insert_rust c x ys = Ok (insert_by d x ys)"
  by (induction ys) auto

lemma sort_rust_Ok: "(\<And>x y. x \<in> set xs \<Longrightarrow> y \<in> set xs \<Longrightarrow> c x y = Ok (d x y)) \<Longrightarrow> sort_rust c xs = Ok (sort_by d xs)"
  by (induction xs) (auto intro: insert_rust_Ok)

end
