(* ===== verification/Dbsp_Groups.thy ===== *)
theory Dbsp_Groups
  imports Dbsp_Order
begin

text \<open>
  What the group operators of the DBSP engine compute: TopK keeps the first copies in rank order, a
  window numbers the copies of a partition in rank order.
\<close>

subsection \<open>TopK\<close>

lemma spread_simps [simp]:
  "spread [] = []" "spread ((row, w) # rows) = replicate (copies w) row @ spread rows" "spread (xs @ ys) = spread xs @ spread ys"
  by (simp_all add: spread_def)

lemma mset_spread: "mset (spread rows) = (\<Sum>(row, w) \<in># mset rows. replicate_mset (copies w) row)"
  by (induction rows) auto

lemma copies_pos: "0 <s w \<longleftrightarrow> 0 < copies w" "copies w = nat (sint w)"
  by (auto simp: copies_def word_sless_alt)

lemma spread_live: "spread (filter (\<lambda>(_, w). 0 <s w) rows) = spread rows"
  by (induction rows) (auto simp: copies_pos)

lemma sint_diff_small: "0 \<le> sint b \<Longrightarrow> sint b \<le> sint (a :: i64) \<Longrightarrow> sint (a - b) = sint a - sint b"
  using sint_lt [of a] sint_ge [of b] by (simp add: sint_word_ariths signed_take_bit_int_eq_self)

lemma take_copies_spread:
  "(\<And>row w. (row, w) \<in> set live \<Longrightarrow> 0 <s w) \<Longrightarrow> 0 \<le> sint left \<Longrightarrow> spread (take_copies left live) = take (nat (sint left)) (spread live)"
proof (induction left live rule: take_copies.induct)
  case (2 left row w live)
  have w: "0 < sint w" using 2(2) [of row w] by (simp add: word_sless_alt)
  consider "left = 0" | "left \<noteq> 0" "w \<le>s left" | "left \<noteq> 0" "\<not> w \<le>s left" by blast
  then show ?case
  proof cases
    case 1
    then show ?thesis by simp
  next
    case 2
    then have le: "sint w \<le> sint left" by (simp add: word_sle_eq)
    then have diff: "sint (left - w) = sint left - sint w" using w by (simp add: sint_diff_small)
    have "spread (take_copies (left - w) live) = take (nat (sint left - sint w)) (spread live)"
      using "2.IH" [OF 2(1) refl] "2.prems" 2 le diff by auto
    moreover have "nat (sint left - sint w) = nat (sint left) - nat (sint w)" using w by (simp add: nat_diff_distrib)
    ultimately show ?thesis using 2 le w by (simp add: Let_def copies_pos)
  next
    case 3
    then have gt: "sint left < sint w" by (simp add: word_sle_eq)
    have "take_copies 0 live = []" by (cases live) auto
    then show ?thesis using 3 gt "2.prems"(2) by (simp add: Let_def copies_pos)
  qed
qed simp

definition copies_sorted :: "(ir_row \<Rightarrow> ir_row \<Rightarrow> ordering) \<Rightarrow> ir_row list \<Rightarrow> bool" where
  "copies_sorted c rows \<longleftrightarrow> sorted_wrt (\<lambda>a b. c a b \<noteq> Greater) rows"

lemma sorted_replicate: "P x x \<Longrightarrow> sorted_wrt P (replicate n x)"
  by (induction n) auto

lemma spread_sorted:
  assumes "sorted_by (\<lambda>(a, _) (b, _). c a b) live" and "\<And>row w. (row, w) \<in> set live \<Longrightarrow> c row row = Equal"
  shows "copies_sorted c (spread live)"
  using assms
proof (induction live)
  case (Cons x live)
  obtain row w where x: "x = (row, w)" by (cases x)
  have "copies_sorted c (spread live)" by (rule Cons.IH) (use Cons.prems in \<open>auto simp: sorted_by_def\<close>)
  moreover have "c row b \<noteq> Greater" if "b \<in> set (spread live)" for b
    using that Cons.prems(1) x by (auto simp: spread_def sorted_by_def)
  ultimately show ?case
    using Cons.prems(2) [of row w] x by (auto simp: copies_sorted_def sorted_wrt_append intro!: sorted_replicate)
qed (simp add: copies_sorted_def)

text \<open>
  C35: TopK over a group keeps \<open>limit\<close> row copies, or all when there are fewer, and no copy it drops ranks
  before a copy it keeps; weights count as copies, and rows of no or negative weight take no place.
  The group does not panic. This is for rows whose cells fit the column types (\<open>row_fits\<close>: a Real that
  is not NaN, an Any value that is known and not NaN, an Id nested fewer levels than the key bound) over
  a dictionary in which every functor of an arity has one list of argument types and no argument is a
  NaN (\<open>keyed\<close>); with NaN cells the order of ranks is not total and the statement is false
  (\<open>real_cells_not_ordered\<close>).
\<close>

theorem topk_keeps_first:
  assumes "keyed (dict_get i) sg" and "order_fits order types" and "\<forall>(row, w) \<in> set rows. row_fits i types row" and "limit < 2 ^ 32"
  shows "\<exists>out rest. topk_group i order types limit rows = Ok out \<and> mset (spread out) + mset rest = mset (spread rows) \<and>
    length (spread out) = min limit (length (spread rows)) \<and> (\<forall>a \<in> set (spread out). \<forall>b \<in> set rest. rank_of order types i a b \<noteq> Greater)"
proof -
  let ?c = "rank_of order types i"
  let ?d = "\<lambda>(a, _ :: i64) (b, _ :: i64). ?c a b"
  let ?live = "filter (\<lambda>(_, w). 0 <s w) rows"
  define live where "live = sort_by ?d ?live"
  note comp = rank_comparator [OF assms(1,2)]
  have compd: "comparator_on (row_fits i types \<circ> fst) ?d"
    using comparator_at [OF comp, of "row_fits i types \<circ> fst" fst] by (simp add: case_prod_unfold)
  have "sort_rust (\<lambda>(a, _) (b, _). rank order types i a b) ?live = (Ok live :: (engine_error, _) rust)"
    unfolding live_def
  proof (rule sort_rust_Ok)
    fix x y
    assume mem: "x \<in> set ?live" "y \<in> set ?live"
    obtain a v b w where xy: "x = (a, v)" "y = (b, w)" by (cases x; cases y)
    with mem assms(3) have "row_fits i types a" "row_fits i types b" by auto
    then show "(case x of (a, _) \<Rightarrow> \<lambda>(b, _). rank order types i a b) y = (Ok ((case x of (a, _) \<Rightarrow> \<lambda>(b, _). ?c a b) y) :: (engine_error, _) rust)"
      by (simp add: xy rank_fits [OF assms(2)])
  qed
  then have run: "topk_group i order types limit rows = Ok (take_copies (of_nat limit) live)" by (simp add: topk_group_def)
  have lim: "sint (of_nat limit :: i64) = int limit"
    using assms(4) by (simp add: signed_of_nat signed_take_bit_int_eq_self)
  have out: "spread (take_copies (of_nat limit) live) = take limit (spread live)"
    using take_copies_spread [of live "of_nat limit"] lim by (auto simp: live_def)
  have "mset live = mset ?live" by (simp add: live_def)
  then have "mset (spread live) = mset (spread ?live)" by (simp only: mset_spread)
  then have same: "mset (spread live) = mset (spread rows)" by (simp add: spread_live)
  have "sorted_by ?d live"
    unfolding live_def by (rule comparator_on.sorted_sort_by [OF compd]) (use assms(3) in auto)
  then have "copies_sorted ?c (spread live)"
    by (rule spread_sorted) (use assms(3) comparator_on.refl [OF comp] in \<open>auto simp: live_def\<close>)
  then have "sorted_wrt (\<lambda>a b. ?c a b \<noteq> Greater) (take limit (spread live) @ drop limit (spread live))"
    by (simp add: copies_sorted_def)
  then have "\<forall>a \<in> set (take limit (spread live)). \<forall>b \<in> set (drop limit (spread live)). ?c a b \<noteq> Greater"
    unfolding sorted_wrt_append by blast
  moreover have "mset (take limit (spread live)) + mset (drop limit (spread live)) = mset (spread rows)"
    using same by (metis append_take_drop_id mset_append)
  moreover have "length (take limit (spread live)) = min limit (length (spread rows))"
    using mset_eq_length [OF same] by simp
  ultimately show ?thesis using run out by (intro exI [of _ "take_copies (of_nat limit) live"] exI [of _ "drop limit (spread live)"]) simp
qed

subsection \<open>Windows\<close>

text \<open>
  Peers are the copies that the order terms rank equal. A copy starts a group of peers when it is the
  first, or is not ranked equal to the copy before it. The code compares cells instead.
\<close>

definition peers :: "order_by list \<Rightarrow> ty list \<Rightarrow> interner \<Rightarrow> ir_row \<Rightarrow> ir_row \<Rightarrow> bool" where
  "peers order types i a b \<longleftrightarrow> first_order (map (by_term i types) order) a b = Equal"

definition peer_start :: "order_by list \<Rightarrow> ty list \<Rightarrow> interner \<Rightarrow> ir_row list \<Rightarrow> nat \<Rightarrow> bool" where
  "peer_start order types i all1 k \<longleftrightarrow> k = 0 \<or> \<not> peers order types i (all1 ! k) (all1 ! (k - 1))"

definition cell_start :: "order_by list \<Rightarrow> ir_row list \<Rightarrow> nat \<Rightarrow> bool" where
  "cell_start order all1 k \<longleftrightarrow> k = 0 \<or> (\<exists>ob \<in> set order. all1 ! k ! ob_col ob \<noteq> all1 ! (k - 1) ! ob_col ob)"

definition starts :: "(nat \<Rightarrow> bool) \<Rightarrow> nat \<Rightarrow> nat set" where
  "starts fresh k = {j. j \<le> k \<and> fresh j}"

definition column_sum :: "ir_row list \<Rightarrow> nat \<Rightarrow> i64" where
  "column_sum rows col = sum_list (map (\<lambda>row. row ! col) rows)"

text \<open>The window functions by position.\<close>

definition win_spec :: "(nat \<Rightarrow> bool) \<Rightarrow> order_by list \<Rightarrow> win_fn \<Rightarrow> ir_row list \<Rightarrow> nat \<Rightarrow> i64" where
  "win_spec fresh order func all1 i =
     (let value_col = (case order of [] \<Rightarrow> 0 | ob # _ \<Rightarrow> ob_col ob)
      in case func of
           WRowNumber \<Rightarrow> of_nat (i + 1)
         | WRank \<Rightarrow> of_nat (Max (starts fresh i) + 1)
         | WDenseRank \<Rightarrow> of_nat (card (starts fresh i))
         | WLag offset \<Rightarrow> if i < offset then 0 else all1 ! (i - offset) ! value_col
         | WLead offset \<Rightarrow> if i + offset < length all1 then all1 ! (i + offset) ! value_col else 0
         | WSum col \<Rightarrow> column_sum (if order = [] then all1 else take (i + 1) all1) col
         | WCount \<Rightarrow> of_nat (if order = [] then length all1 else i + 1))"

definition win_fits :: "win_fn \<Rightarrow> ty list \<Rightarrow> bool" where
  "win_fits func types \<longleftrightarrow> types \<noteq> [] \<and> (case func of WSum col \<Rightarrow> col < length types | _ \<Rightarrow> True)"

definition win_state :: "(nat \<Rightarrow> bool) \<Rightarrow> order_by list \<Rightarrow> win_fn \<Rightarrow> ir_row list \<Rightarrow> nat \<Rightarrow> window_state" where
  "win_state fresh order func all1 i =
     \<lparr>wn_dense = (if i = 0 then 0 else of_nat (card (starts fresh (i - 1)))),
      wn_rank = (if i = 0 then 0 else of_nat (Max (starts fresh (i - 1)) + 1)),
      wn_prefix = (case func of WSum col \<Rightarrow> column_sum (take i all1) col | _ \<Rightarrow> 0)\<rparr>"

lemma starts_0: "fresh 0 \<Longrightarrow> starts fresh 0 = {0}"
  by (auto simp: starts_def)

lemma starts_Suc: "starts fresh (Suc i) = (if fresh (Suc i) then insert (Suc i) (starts fresh i) else starts fresh i)"
  by (auto simp: starts_def le_Suc_eq)

lemma starts_finite [simp]: "finite (starts fresh i)" and starts_nonempty: "fresh 0 \<Longrightarrow> starts fresh i \<noteq> {}"
  and starts_le: "j \<in> starts fresh i \<Longrightarrow> j \<le> i"
  by (auto simp: starts_def)

lemma starts_fresh:
  "fresh 0 \<Longrightarrow> fresh (Suc i) \<Longrightarrow> card (starts fresh (Suc i)) = Suc (card (starts fresh i)) \<and> Max (starts fresh (Suc i)) = Suc i"
proof -
  assume z: "fresh 0" and f: "fresh (Suc i)"
  have new: "Suc i \<notin> starts fresh i" using starts_le by force
  have "Max (starts fresh i) \<in> starts fresh i" by (rule Max_in) (simp_all add: starts_nonempty z)
  then have "Max (starts fresh i) \<le> i" by (rule starts_le)
  then have "max (Suc i) (Max (starts fresh i)) = Suc i" by (intro max_absorb1 le_SucI)
  with f new starts_nonempty [of fresh i, OF z] show ?thesis by (simp add: starts_Suc del: Max_le_iff Max.bounded_iff)
qed

lemma order_changes_fits:
  assumes "\<forall>ob \<in> set order. ob_col ob < length row \<and> ob_col ob < length before"
  shows "order_changes order row before = Ok (\<exists>ob \<in> set order. row ! ob_col ob \<noteq> before ! ob_col ob)"
  using assms by (induction order) (auto simp: vec_index_def)

lemma window_value_spec:
  assumes rows: "\<forall>row \<in> set all1. length row = length types" and "order_fits order types" and "win_fits func types" and i: "i < length all1"
    and total: "total1 = (case func of WSum col \<Rightarrow> column_sum all1 col | _ \<Rightarrow> 0)"
  shows "window_value order func all1 total1 i (win_state (cell_start order all1) order func all1 i) = Ok (win_spec (cell_start order all1) order func all1 i, win_state (cell_start order all1) order func all1 (Suc i))"
proof -
  let ?fresh = "cell_start order all1"
  have zero: "?fresh 0" by (simp add: cell_start_def)
  have len: "length (all1 ! j) = length types" if "j < length all1" for j using that rows by simp
  have cols: "\<forall>ob \<in> set order. ob_col ob < length types" using assms(2) by (simp add: order_fits_def)
  then have vc: "(case order of [] \<Rightarrow> 0 | ob # _ \<Rightarrow> ob_col ob) < length types"
    using assms(3) by (cases order) (auto simp: win_fits_def)
  have code: "(if i = 0 then Ok True else order_changes order (all1 ! i) (all1 ! (i - 1))) = (Ok (?fresh i) :: (engine_error, bool) rust)"
    using i cols len [of i] len [of "i - 1"] by (auto simp: cell_start_def order_changes_fits)
  have st: "(if ?fresh i then (win_state ?fresh order func all1 i)\<lparr>wn_dense := wn_dense (win_state ?fresh order func all1 i) + 1, wn_rank := of_nat i + 1\<rparr>
      else win_state ?fresh order func all1 i) =
      (win_state ?fresh order func all1 (Suc i))\<lparr>wn_prefix := wn_prefix (win_state ?fresh order func all1 i)\<rparr>"
  proof (cases i)
    case 0
    then show ?thesis by (simp add: win_state_def zero starts_0)
  next
    case (Suc j)
    then show ?thesis using starts_fresh [of ?fresh j] zero by (auto simp: win_state_def starts_Suc)
  qed
  have prefix: "column_sum (take (Suc i) all1) col = column_sum (take i all1) col + all1 ! i ! col" for col
    using i by (simp add: column_sum_def take_Suc_conv_app_nth)
  note parts = window_value_def Let_def code rust_bind.simps st
  show ?thesis
  proof (cases func)
    case (WLag offset)
    then show ?thesis unfolding parts using vc i len [of "i - offset"] by (simp add: win_spec_def vec_index_def) (simp add: win_state_def)
  next
    case (WLead offset)
    then show ?thesis unfolding parts using vc len [of "i + offset"] by (simp add: win_spec_def vec_index_def vec_get_def) (simp add: win_state_def)
  next
    case (WSum col)
    then show ?thesis unfolding parts using assms(3) i len [of i] total by (simp add: win_spec_def vec_index_def win_fits_def) (simp add: win_state_def prefix)
  qed (unfold parts, simp_all add: win_spec_def, simp_all add: win_state_def)
qed

lemma window_total_spec:
  assumes "\<forall>row \<in> set all1. length row = length types" and "win_fits func types"
  shows "window_total func all1 = Ok (case func of WSum col \<Rightarrow> column_sum all1 col | _ \<Rightarrow> 0)"
proof (cases func)
  case (WSum col)
  then have "map_rust (\<lambda>row. vec_index row col) all1 = (Ok (map (\<lambda>row. row ! col) all1) :: (engine_error, _) rust)"
    using assms by (intro map_rust_OkI) (simp add: vec_index_def win_fits_def)
  moreover have "foldl (+) a (xs :: i64 list) = a + sum_list xs" for a xs
    by (induction xs arbitrary: a) (simp_all add: add.assoc)
  ultimately show ?thesis using WSum by (simp add: window_total_def column_sum_def)
qed (simp_all add: window_total_def)

lemma window_rows_spec:
  assumes rows: "\<forall>row \<in> set all1. length row = length types" and "order_fits order types" and "win_fits func types"
    and total: "total1 = (case func of WSum col \<Rightarrow> column_sum all1 col | _ \<Rightarrow> 0)"
  shows "k \<le> length all1 \<Longrightarrow> window_rows order func all1 total1 [k..<length all1] (win_state (cell_start order all1) order func all1 k) m =
    Ok (fold bt_count (map (\<lambda>i. all1 ! i @ [win_spec (cell_start order all1) order func all1 i]) [k..<length all1]) m)"
proof (induction "length all1 - k" arbitrary: k m)
  case 0
  then show ?case by simp
next
  case (Suc n)
  then have k: "k < length all1" by simp
  then have "[k..<length all1] = k # [Suc k..<length all1]" by (simp add: upt_conv_Cons)
  then show ?case
    using window_value_spec [OF rows assms(2,3) k total] Suc.hyps(1) [of "Suc k"] Suc.hyps(2) k by simp
qed

lemma bt_count_get: "bt_inv row_key m \<Longrightarrow> bt_inv row_key (bt_count row m) \<and> zget (bt_count row m) r = zget m r + (if r = row then 1 else 0)"
  by (auto simp: bt_count_def zget_def map_of_bt_insert [OF inj_row_key])

lemma fold_bt_count:
  "bt_inv row_key m \<Longrightarrow> bt_inv row_key (fold bt_count xs m) \<and> zget (fold bt_count xs m) r = zget m r + of_nat (count (mset xs) r)"
proof (induction xs arbitrary: m)
  case (Cons x xs)
  note step = bt_count_get [OF Cons.prems, of x]
  from Cons.IH [OF step [THEN conjunct1]] step [of r] show ?case by (auto simp: algebra_simps)
qed simp

text \<open>Rows that an order column ranks equal have the same cell there, as integers have.\<close>

definition order_exact :: "order_by list \<Rightarrow> ty list \<Rightarrow> interner \<Rightarrow> ir_row set \<Rightarrow> bool" where
  "order_exact order types i rows \<longleftrightarrow>
     (\<forall>a \<in> rows. \<forall>b \<in> rows. \<forall>ob \<in> set order. by_column i types (ob_col ob) a b = Equal \<longrightarrow> a ! ob_col ob = b ! ob_col ob)"

lemma first_order_Equal: "first_order cs a b = Equal \<longleftrightarrow> (\<forall>c \<in> set cs. c a b = Equal)"
  by (induction cs) (auto simp: ord_then_iffs)

lemma cell_start_peers:
  assumes keyed: "keyed (dict_get i) sg" and order: "order_fits order types" and fit: "\<forall>row \<in> set all1. row_fits i types row"
    and exact: "order_exact order types i (set all1)" and k: "k < length all1"
  shows "cell_start order all1 k = peer_start order types i all1 k"
proof -
  have mem: "all1 ! k \<in> set all1" "all1 ! (k - 1) \<in> set all1" using k by simp_all
  have "by_column i types (ob_col ob) a b = Equal \<longleftrightarrow> a ! ob_col ob = b ! ob_col ob"
    if ob: "ob \<in> set order" and ab: "a \<in> set all1" "b \<in> set all1" for ob a b
  proof -
    have n: "ob_col ob < length types" using order ob by (simp add: order_fits_def)
    have "cell_fits i (types ! ob_col ob) (a ! ob_col ob)" using row_fitsD [OF _ n] fit ab(1) by blast
    from comparator_on.refl [OF cell_comparator [OF keyed] this] exact ob ab show ?thesis
      unfolding order_exact_def by_column_def by auto
  qed
  then have "by_term i types ob (all1 ! k) (all1 ! (k - 1)) = Equal \<longleftrightarrow> all1 ! k ! ob_col ob = all1 ! (k - 1) ! ob_col ob"
    if "ob \<in> set order" for ob
    using that mem by (auto simp: by_term_def)
  then show ?thesis by (auto simp: cell_start_def peer_start_def peers_def first_order_Equal)
qed

lemma win_spec_cong:
  assumes "\<And>j. j \<le> k \<Longrightarrow> fresh j = fresh1 j"
  shows "win_spec fresh order func all1 k = win_spec fresh1 order func all1 k"
proof -
  have "starts fresh k = starts fresh1 k" using assms by (auto simp: starts_def)
  then show ?thesis unfolding win_spec_def by (simp only:)
qed

lemma win_spec_any: "func \<noteq> WRank \<Longrightarrow> func \<noteq> WDenseRank \<Longrightarrow> win_spec fresh order func all1 k = win_spec fresh1 order func all1 k"
  by (cases func) (simp_all add: win_spec_def)

text \<open>
  C36: A window over a partition does not panic and gives every copy of a row its window value by
  position in the rank order: ROW_NUMBER counts positions, RANK is the first position of the copy's
  peers, those the order terms rank equal to it, DENSE_RANK counts groups of peers, LAG and LEAD read
  the first order column that many copies away or give zero, and SUM and COUNT run over the rows so
  far, or over the whole partition without an order. The result holds each extended row with the number
  of its copies. As for TopK this is for rows whose cells fit the column types (no NaN, known Any
  values, Ids nested fewer levels than the key bound) over a dictionary with one list of argument types
  per functor and arity. RANK and DENSE_RANK also need cells ranked equal by an order column to be the
  same cell (\<open>order_exact\<close>): the code finds peers by comparing cells, so 0.0 and -0.0, or the Any values
  1 and 1.0, are ranked equal but not treated as peers.
\<close>

theorem window_by_position:
  assumes keyed: "keyed (dict_get i) sg" and order: "order_fits order types" and func: "win_fits func types"
    and rows: "\<forall>(row, w) \<in> set rows. row_fits i types row"
    and exact: "func = WRank \<or> func = WDenseRank \<longrightarrow> order_exact order types i (fst ` set rows)"
  shows "\<exists>all1 out. window_group i order func types rows = Ok out \<and> mset all1 = mset (spread rows) \<and>
    copies_sorted (rank_of order types i) all1 \<and> bt_inv row_key out \<and>
    (\<forall>r. zget out r = of_nat (count (mset (map (\<lambda>k. all1 ! k @ [win_spec (peer_start order types i all1) order func all1 k]) [0..<length all1])) r))"
proof -
  let ?c = "rank_of order types i"
  define all1 where "all1 = sort_by ?c (spread rows)"
  note comp = rank_comparator [OF keyed order]
  have fit: "row_fits i types row" if "row \<in> set (spread rows)" for row
    using that rows by (auto simp: spread_def)
  have sort: "sort_rust (rank order types i) (spread rows) = (Ok all1 :: (engine_error, _) rust)"
    unfolding all1_def by (rule sort_rust_Ok) (use fit rank_fits [OF order] in blast)
  have sorted: "copies_sorted ?c all1"
    using comparator_on.sorted_sort_by [OF comp, of "spread rows"] fit by (simp add: all1_def copies_sorted_def sorted_by_def)
  have fits: "\<forall>row \<in> set all1. row_fits i types row" using fit by (simp add: all1_def)
  then have len: "\<forall>row \<in> set all1. length row = length types"
    by (auto simp: row_fits_def dest: list_all2_lengthD [symmetric])
  define vals where "vals = map (\<lambda>k. all1 ! k @ [win_spec (cell_start order all1) order func all1 k]) [0..<length all1]"
  have "set all1 \<subseteq> fst ` set rows" by (force simp: all1_def spread_def)
  then have "win_spec (cell_start order all1) order func all1 k = win_spec (peer_start order types i all1) order func all1 k"
    if k: "k < length all1" for k
  proof (cases "func = WRank \<or> func = WDenseRank")
    case True
    with exact \<open>set all1 \<subseteq> fst ` set rows\<close> have "order_exact order types i (set all1)"
      unfolding order_exact_def by blast
    from cell_start_peers [OF keyed order fits this] k show ?thesis by (intro win_spec_cong) simp
  next
    case False
    then show ?thesis by (intro win_spec_any) simp_all
  qed
  then have vals: "vals = map (\<lambda>k. all1 ! k @ [win_spec (peer_start order types i all1) order func all1 k]) [0..<length all1]"
    by (simp add: vals_def)
  have "win_state (cell_start order all1) order func all1 0 = \<lparr>wn_dense = 0, wn_rank = 0, wn_prefix = 0\<rparr>"
    by (cases func) (simp_all add: win_state_def column_sum_def)
  with window_rows_spec [OF len order func refl, of 0 "[]"] window_total_spec [OF len func] sort
  have run: "window_group i order func types rows = Ok (fold bt_count vals [])" by (simp add: window_group_def vals_def)
  moreover have "mset all1 = mset (spread rows)" by (simp add: all1_def)
  moreover have "bt_inv row_key (fold bt_count vals [])" using fold_bt_count [OF bt_inv_Nil] by blast
  moreover have "zget (fold bt_count vals []) r = of_nat (count (mset vals) r)" for r
    using fold_bt_count [OF bt_inv_Nil, of vals r] by simp
  ultimately show ?thesis using sorted unfolding vals by blast
qed

subsection \<open>Witnesses\<close>

text \<open>Two columns of integers, ordered by the second, descending.\<close>

lemma ints_fit: "row_fits dict_empty [TInt, TInt] [a, b]"
  by (simp add: row_fits_def cell_fits_def)

lemma empty_keyed: "keyed (dict_get dict_empty) (\<lambda>_ _. [])"
  by (simp add: keyed_def dict_get_def dict_empty_def split: option.split bind_splits)

theorem topk_keeps_first_witness:
  "\<exists>out rest. topk_group dict_empty [\<lparr>ob_col = 1, ob_desc = True\<rparr>] [TInt, TInt] 2 [([1, 5], 1), ([2, 9], 3), ([3, 7], - 1)] = Ok out \<and>
     length (spread out) = 2 \<and> mset (spread out) + mset rest = {#[1, 5], [2, 9], [2, 9], [2, 9]#}"
proof -
  have "order_fits [\<lparr>ob_col = 1, ob_desc = True\<rparr>] [TInt, TInt]" by (simp add: order_fits_def)
  moreover have "spread [([1, 5], 1), ([2, 9], 3), ([3, 7], - 1)] = [[1, 5], [2, 9], [2, 9], [2, 9]]"
    by (simp add: copies_def numeral_3_eq_3)
  ultimately show ?thesis
    using topk_keeps_first [OF empty_keyed, of _ "[TInt, TInt]" "[([1, 5], 1), ([2, 9], 3), ([3, 7], - 1)]" 2] ints_fit by fastforce
qed

lemma int_column_exact: "(\<And>ob. ob \<in> set order \<Longrightarrow> types ! ob_col ob = TInt) \<Longrightarrow> order_exact order types i rows"
  by (auto simp: order_exact_def by_column_def cell_order_def cmp_cell_def cell_cmp_def cmp_def split: if_splits)

theorem window_by_position_witness:
  "\<exists>all1 out. window_group dict_empty [\<lparr>ob_col = 1, ob_desc = False\<rparr>] WRank [TInt, TInt] [([1, 5], 1), ([2, 9], 2)] = Ok out \<and>
     mset all1 = {#[1, 5 :: i64], [2, 9], [2, 9]#} \<and>
     (\<forall>r. zget out r = of_nat (count (mset (map (\<lambda>k. all1 ! k @
        [win_spec (peer_start [\<lparr>ob_col = 1, ob_desc = False\<rparr>] [TInt, TInt] dict_empty all1) [\<lparr>ob_col = 1, ob_desc = False\<rparr>] WRank all1 k])
        [0..<length all1])) r))"
proof -
  let ?o = "[\<lparr>ob_col = 1, ob_desc = False\<rparr>]" and ?rows = "[([1, 5 :: i64], 1 :: i64), ([2, 9], 2)]"
  have fits: "order_fits ?o [TInt, TInt]" "win_fits WRank [TInt, TInt]" "\<forall>(row, w) \<in> set ?rows. row_fits dict_empty [TInt, TInt] row"
    using ints_fit by (auto simp: order_fits_def win_fits_def)
  have exact: "WRank = WRank \<or> WRank = WDenseRank \<longrightarrow> order_exact ?o [TInt, TInt] dict_empty (fst ` set ?rows)"
    using int_column_exact [of ?o "[TInt, TInt]"] by simp
  have "mset (spread ?rows) = {#[1, 5], [2, 9], [2, 9]#}"
    by (simp add: copies_def numeral_2_eq_2)
  with window_by_position [OF empty_keyed fits exact] show ?thesis by auto
qed

subsection \<open>NaN cells\<close>

text \<open>
  The order of cells is total on the cells that fit their type; a NaN does not: with the sign bit set it
  is between two zeros that are equal.
\<close>

definition neg_nan :: i64 where
  "neg_nan = 0xfff8000000000000"

definition neg_zero :: i64 where
  "neg_zero = 0x8000000000000000"

lemma real_cells_not_ordered:
  "(cmp_cell TReal neg_zero neg_nan i :: ('e, _) rust) = Ok Less \<and>
   (cmp_cell TReal neg_nan 0 i :: ('e, _) rust) = Ok Less \<and>
   (cmp_cell TReal neg_zero 0 i :: ('e, _) rust) = Ok Equal"
proof -
  have a: "f64_of_bits neg_nan = FNan" unfolding f64_of_bits_def neg_nan_def by simp
  have b: "f64_of_bits neg_zero = FFin 0" by (simp add: neg_zero_def f64_of_bits_def Let_def f64_scale_def)
  have c: "f64_of_bits 0 = FFin 0" by (simp add: f64_of_bits_def Let_def f64_scale_def)
  show ?thesis
    by (simp add: cmp_cell_def a b c f64_partial_cmp_def cell_cmp_def) (simp add: neg_nan_def neg_zero_def cmp_def)
qed
end
