(* ===== verification/Dbsp_Engine.thy ===== *)
theory Dbsp_Engine
  imports Dbsp_Rows Dbsp_Guard
begin

text \<open>
  The DBSP engine between its circuits (\<open>Dbsp\<close> in \<open>crates/ivm-dbsp/src/2_dbsp.rs\<close>): interning,
  constructors, feeding minted terms, settling a frontier and reading totals. The circuit itself is the
  \<open>dbsp\<close> crate's: a record of the operations the engine calls, over a handle \<open>'h\<close> the crate owns. A
  transaction runs operators, which may mint terms and record a failed sum, also when it ends in an
  error: it always leaves a handle and the shared tables behind.
\<close>

subsection \<open>State\<close>

record 'h circuit =
  cc_push :: "nat \<Rightarrow> ir_row \<Rightarrow> i64 \<Rightarrow> 'h \<Rightarrow> 'h"                            \<comment> \<open>into a source's input\<close>
  cc_push_constructor :: "nat \<Rightarrow> ir_row \<Rightarrow> i64 \<Rightarrow> 'h \<Rightarrow> 'h"
  cc_transaction :: "'h \<Rightarrow> dbsp_shared \<Rightarrow> (string, unit) rust \<times> 'h \<times> dbsp_shared"
  cc_consolidate :: "nat \<Rightarrow> 'h \<Rightarrow> (ir_row \<times> i64) list"                     \<comment> \<open>of an output, by its place\<close>

record 'h dbsp =
  db_handle :: 'h
  db_inputs :: "nat set"                       \<comment> \<open>sources with an input\<close>
  db_constructor_inputs :: "nat set"
  db_outputs :: "nat list"
  db_shared :: dbsp_shared
  db_program :: ir_program
  db_constructors :: "(nat \<times> string \<times> ty list) list"  \<comment> \<open>a B-tree map by id\<close>
  db_constructor_ids :: "string \<Rightarrow> nat option"
  db_source_rows :: source_rows
  db_totals :: "nat \<Rightarrow> (ir_row \<times> i64) list option"    \<comment> \<open>B-tree maps by row\<close>
  db_tick :: u64
  db_counters :: counters

subsection \<open>Constructors and constants at install\<close>

text \<open>Of two constructor relations of one id the later is kept, as a map keeps its last insertion.\<close>

definition constructors_of :: "ir_program \<Rightarrow> (nat \<times> string \<times> ty list) list" where
  "constructors_of p =
     fold (\<lambda>r m. bt_insert (\<lambda>k. k) (ir_id r) (ir_name r, drop 1 (ir_cols r)) m) (filter (\<lambda>r. ir_kind r = KConstructor) (pr_rels p)) []"

definition constructor_ids_of :: "(nat \<times> string \<times> ty list) list \<Rightarrow> string \<Rightarrow> nat option" where
  "constructor_ids_of ctors = fold (\<lambda>(n, name, _) ids. if ids name = None then ids(name \<mapsto> n) else ids) ctors (\<lambda>_. None)"

fun mint_texts :: "string list \<Rightarrow> i64 list \<Rightarrow> interner \<Rightarrow> (i64 list) in_dict" where
  "mint_texts [] texts i = Ok (texts, i)"
| "mint_texts (s # ss) texts i = rust_bind (mint_text s i) (\<lambda>(n, i1). mint_texts ss (texts @ [n]) i1)"

fun lit_cell :: "i64 list \<Rightarrow> i64 list \<Rightarrow> term_arg \<Rightarrow> i64 option" where
  "lit_cell terms texts (TaTerm k) = vec_get terms k"
| "lit_cell terms texts (TaText k) = vec_get texts k"
| "lit_cell terms texts (TaRaw c) = Some c"

definition install_error :: "nat \<Rightarrow> error_kind \<Rightarrow> engine_error" where
  "install_error rel kind = engine_err StInstall (Some rel) kind"

fun mint_lits :: "(nat \<times> string \<times> ty list) list \<Rightarrow> i64 list \<Rightarrow> term_lit list \<Rightarrow> i64 list \<Rightarrow> interner \<Rightarrow> (i64 list) in_dict" where
  "mint_lits ctors texts [] terms i = Ok (terms, i)"
| "mint_lits ctors texts (lit # lits) terms i =
     (case map_of ctors (lit_functor lit) of
        None \<Rightarrow> Err (install_error (lit_functor lit) (UnknownRel (lit_functor lit)))
      | Some (name, types) \<Rightarrow>
          if length (lit_args lit) \<noteq> length types
          then Err (install_error (lit_functor lit) (ArityMismatch (length types) (length (lit_args lit))))
          else (case map_option_list (lit_cell terms texts) (lit_args lit) of
                  None \<Rightarrow> Err (install_error (lit_functor lit) (Unsupported ''term argument after its term''))
                | Some args \<Rightarrow> rust_bind (mint name args types i) (\<lambda>(n, i1). mint_lits ctors texts lits (terms @ [n]) i1)))"

definition install_shared :: "ir_program \<Rightarrow> (engine_error, dbsp_shared) rust" where
  "install_shared p =
     (let ctors = constructors_of p
      in rust_bind (if uses_strings p then rust_bind (mint_text [] dict_empty) (\<lambda>(_, i). Ok i) else Ok dict_empty) (\<lambda>i0.
         rust_bind (mint_texts (pr_texts p) [] i0) (\<lambda>(texts, i1).
         rust_bind (mint_lits ctors texts (pr_terms p) [] i1) (\<lambda>(terms, i2).
           Ok \<lparr>sh_interner = i2, sh_sum_error = None, sh_constructors = map_of ctors, sh_texts = texts, sh_terms = terms\<rparr>))))"

text \<open>
  What \<open>install\<close> does once the circuit is built: \<open>h\<close> is its handle, \<open>read\<close> the relations an operator
  reads, \<open>outputs\<close> the outputs in the order they were declared.
\<close>

definition install_engine :: "ir_program \<Rightarrow> dbsp_shared \<Rightarrow> 'h \<Rightarrow> nat set \<Rightarrow> nat list \<Rightarrow> 'h dbsp" where
  "install_engine p sh h read outputs =
     (let sources = map ir_id (filter (\<lambda>r. ir_kind r = KSource) (pr_rels p)); ctors = constructors_of p
      in \<lparr>db_handle = h, db_inputs = set sources,
          db_constructor_inputs = set (map ir_id (filter (\<lambda>r. ir_kind r = KConstructor) (pr_rels p))) \<inter> read,
          db_outputs = outputs, db_shared = sh, db_program = p, db_constructors = ctors,
          db_constructor_ids = constructor_ids_of ctors,
          db_source_rows = (\<lambda>n. if n \<in> set sources then Some {} else None),
          db_totals = (\<lambda>n. if n \<in> set outputs then Some [] else None), db_tick = 0, db_counters = counters_default\<rparr>)"

subsection \<open>Interning\<close>

text \<open>What a failing batch leaves interned is not modelled: its result is an error alone.\<close>

definition settle_error :: "nat \<Rightarrow> error_kind \<Rightarrow> engine_error" where
  "settle_error rel kind = engine_err StSettle (Some rel) kind"

definition with_interner :: "'h dbsp \<Rightarrow> interner \<Rightarrow> 'h dbsp" where
  "with_interner e i = e\<lparr>db_shared := (db_shared e)\<lparr>sh_interner := i\<rparr>\<rparr>"

definition db_interner :: "'h dbsp \<Rightarrow> interner" where
  "db_interner e = sh_interner (db_shared e)"

fun intern_terms :: "'h dbsp \<Rightarrow> (nat \<times> ir_row) list \<Rightarrow> (engine_error, i64 list \<times> 'h dbsp) rust" where
  "intern_terms e [] = Ok ([], e)"
| "intern_terms e ((functor, args) # terms) =
     (case map_of (db_constructors e) functor of
        None \<Rightarrow> Err (settle_error functor (UnknownRel functor))
      | Some (name, types) \<Rightarrow>
          if length args \<noteq> length types then Err (settle_error functor (ArityMismatch (length types) (length args)))
          else rust_bind (mint name args types (db_interner e)) (\<lambda>(n, i1).
               rust_bind (intern_terms (with_interner e i1) terms) (\<lambda>(ns, e1). Ok (n # ns, e1))))"

definition intern_text :: "string \<Rightarrow> 'h dbsp \<Rightarrow> (engine_error, i64 \<times> 'h dbsp) rust" where
  "intern_text s e = rust_bind (mint_text s (db_interner e)) (\<lambda>(n, i1). Ok (n, with_interner e i1))"

definition intern_any :: "any_value \<Rightarrow> 'h dbsp \<Rightarrow> (engine_error, i64 \<times> 'h dbsp) rust" where
  "intern_any v e = rust_bind (mint_any v (db_interner e)) (\<lambda>(n, i1). Ok (n, with_interner e i1))"

definition engine_text :: "'h dbsp \<Rightarrow> i64 \<Rightarrow> string option" where
  "engine_text e n = dict_text (db_interner e) n"

text \<open>The message of the error names the cell; its decimal digits are left out.\<close>

definition engine_any_value :: "'h dbsp \<Rightarrow> i64 \<Rightarrow> (engine_error, any_value) rust" where
  "engine_any_value e n =
     (case dict_any (db_interner e) n of Some v \<Rightarrow> Ok v | None \<Rightarrow> Err (engine_err StSnapshot None (Worker ''unknown Any cell'')))"

text \<open>New ids start above every relation and constructor.\<close>

definition next_constructor :: "'h dbsp \<Rightarrow> nat" where
  "next_constructor e =
     (let ids = map (\<lambda>r. ir_id r + 1) (pr_rels (db_program e)) @ map (\<lambda>(n, _). n + 1) (db_constructors e)
      in case ids of [] \<Rightarrow> 0 | _ \<Rightarrow> Max (set ids))"

fun declare_loop :: "(string \<times> ty list) list \<Rightarrow> nat \<Rightarrow> 'h dbsp \<Rightarrow> nat list \<times> 'h dbsp" where
  "declare_loop [] n e = ([], e)"
| "declare_loop ((name, types) # ctors) n e =
     (case db_constructor_ids e name of
        Some k \<Rightarrow> (let (ks, e1) = declare_loop ctors n e in (k # ks, e1))
      | None \<Rightarrow>
          (let (ks, e1) = declare_loop ctors (n + 1)
                 (e\<lparr>db_constructor_ids := (db_constructor_ids e)(name \<mapsto> n),
                    db_constructors := bt_insert (\<lambda>k. k) n (name, types) (db_constructors e)\<rparr>)
           in (n # ks, e1)))"

definition declare_constructors :: "(string \<times> ty list) list \<Rightarrow> 'h dbsp \<Rightarrow> nat list \<times> 'h dbsp" where
  "declare_constructors ctors e = declare_loop ctors (next_constructor e) e"

subsection \<open>Settling\<close>

fun push_pending :: "'h circuit \<Rightarrow> (string \<times> ir_row) list \<Rightarrow> 'h dbsp \<Rightarrow> bool \<Rightarrow> bool \<times> 'h dbsp" where
  "push_pending cc [] e fed = (fed, e)"
| "push_pending cc ((name, row) # rest) e fed =
     (case db_constructor_ids e name of
        Some n \<Rightarrow> if n \<in> db_constructor_inputs e
                  then push_pending cc rest (e\<lparr>db_handle := cc_push_constructor cc n row 1 (db_handle e)\<rparr>) True
                  else push_pending cc rest e fed
      | None \<Rightarrow> push_pending cc rest e fed)"

definition feed_pending :: "'h circuit \<Rightarrow> 'h dbsp \<Rightarrow> bool \<times> 'h dbsp" where
  "feed_pending cc e = (let (rows, i1) = drain_pending (db_interner e) in push_pending cc rows (with_interner e i1) False)"

type_synonym net_rows = "((nat \<times> ir_row) \<times> i64) list"

definition net_key :: "nat \<times> ir_row \<Rightarrow> nat \<times> int list" where
  "net_key k = (fst k, row_key (snd k))"

definition net_add :: "nat \<times> ir_row \<Rightarrow> i64 \<Rightarrow> net_rows \<Rightarrow> net_rows" where
  "net_add k w net = bt_insert net_key k (zget net k + w) net"

text \<open>The rows of all outputs after a transaction, in the order they are read.\<close>

definition output_rows :: "'h circuit \<Rightarrow> nat list \<Rightarrow> 'h \<Rightarrow> ((nat \<times> ir_row) \<times> i64) list" where
  "output_rows cc outputs h = concat (map (\<lambda>(place, rel). map (\<lambda>(row, w). ((rel, row), w)) (cc_consolidate cc place h)) (enumerate 0 outputs))"

text \<open>An operation that fails gives its error with the engine as it then is.\<close>

type_synonym ('h, 'a) on_engine = "(engine_error, 'a) rust \<times> 'h dbsp"

definition dbsp_step :: "'h circuit \<Rightarrow> 'h dbsp \<Rightarrow> net_rows \<Rightarrow> ('h, net_rows) on_engine" where
  "dbsp_step cc e net =
     (case cc_transaction cc (db_handle e) (db_shared e) of
        (r, h, sh) \<Rightarrow>
          (let e1 = e\<lparr>db_handle := h, db_shared := sh\<rparr>
           in case r of
                Err er \<Rightarrow> (Err (engine_err StSettle None (Worker er)), e1)
              | Panic \<Rightarrow> (Panic, e1)
              | Ok _ \<Rightarrow> (Ok (fold (\<lambda>(k, w) m. net_add k w m) (output_rows cc (db_outputs e) h) net), e1)))"

text \<open>Steps until no term is new; terms that keep minting terms make it run for ever, which is \<open>None\<close>.\<close>

partial_function (option) drain_steps :: "'h circuit \<Rightarrow> 'h dbsp \<Rightarrow> net_rows \<Rightarrow> ('h, net_rows) on_engine option" where
  "drain_steps cc e net =
     (case feed_pending cc e of
        (fed, e1) \<Rightarrow>
          if fed then
            (case dbsp_step cc e1 net of
               (Ok net1, e2) \<Rightarrow> drain_steps cc e2 net1
             | (Err er, e2) \<Rightarrow> Some (Err er, e2)
             | (Panic, e2) \<Rightarrow> Some (Panic, e2))
          else Some (Ok net, e1))"

declare drain_steps.simps [code]

fun push_accepted :: "'h circuit \<Rightarrow> ir_change list \<Rightarrow> 'h dbsp \<Rightarrow> (engine_error, 'h dbsp) rust" where
  "push_accepted cc [] e = Ok e"
| "push_accepted cc (ch # accepted) e =
     (if ic_rel ch \<in> db_inputs e
      then push_accepted cc accepted (e\<lparr>db_handle := cc_push cc (ic_rel ch) (ic_row ch) (ic_w ch) (db_handle e)\<rparr>)
      else Panic)"

definition add_total :: "ir_row \<Rightarrow> i64 \<Rightarrow> (ir_row \<times> i64) list \<Rightarrow> (ir_row \<times> i64) list" where
  "add_total row w m = (let t = zget m row + w in if t = 0 then AList.delete row (bt_insert row_key row t m) else bt_insert row_key row t m)"

fun add_totals :: "(nat \<times> ir_row \<times> i64) list \<Rightarrow> (nat \<Rightarrow> (ir_row \<times> i64) list option) \<Rightarrow> (engine_error, nat \<Rightarrow> (ir_row \<times> i64) list option) rust" where
  "add_totals [] totals = Ok totals"
| "add_totals ((rel, row, w) # changes) totals =
     (case totals rel of None \<Rightarrow> Panic | Some m \<Rightarrow> add_totals changes (totals(rel \<mapsto> add_total row w m)))"

definition net_changes :: "net_rows \<Rightarrow> (nat \<times> ir_row \<times> i64) list" where
  "net_changes net = map (\<lambda>((rel, row), w). (rel, row, w)) (filter (\<lambda>(_, w). w \<noteq> 0) net)"

definition finish_settle :: "nat \<Rightarrow> net_rows \<Rightarrow> 'h dbsp \<Rightarrow> ('h, ir_delta) on_engine" where
  "finish_settle interned_before net e =
     (let changes = net_changes net
      in case add_totals changes (db_totals e) of
        Ok totals \<Rightarrow>
          (Ok \<lparr>id_tick = unat (db_tick e), id_changes = changes\<rparr>,
           e\<lparr>db_totals := totals,
             db_counters := counters_default\<lparr>ct_rows_written := of_nat (length changes),
               ct_interned := Some (of_nat (dict_len (db_interner e) - interned_before))\<rparr>,
             db_tick := db_tick e + 1\<rparr>)
      | Err er \<Rightarrow> (Err er, e)
      | Panic \<Rightarrow> (Panic, e))"

text \<open>The settle of a frontier the guard admitted.\<close>

definition settle_accepted :: "'h circuit \<Rightarrow> nat \<Rightarrow> 'h dbsp \<Rightarrow> ('h, ir_delta) on_engine option" where
  "settle_accepted cc interned_before e =
     (case dbsp_step cc (snd (feed_pending cc e)) [] of
        (Err er, e1) \<Rightarrow> Some (Err er, e1)
      | (Panic, e1) \<Rightarrow> Some (Panic, e1)
      | (Ok net, e1) \<Rightarrow>
          (case sh_sum_error (db_shared e1) of
             Some message \<Rightarrow> Some (Err (engine_err StSettle None (Worker message)), e1\<lparr>db_shared := (db_shared e1)\<lparr>sh_sum_error := None\<rparr>\<rparr>)
           | None \<Rightarrow>
               (case drain_steps cc e1 net of
                  None \<Rightarrow> None
                | Some (Ok net1, e2) \<Rightarrow> Some (finish_settle interned_before net1 e2)
                | Some (Err er, e2) \<Rightarrow> Some (Err er, e2)
                | Some (Panic, e2) \<Rightarrow> Some (Panic, e2))))"

definition settle :: "'h circuit \<Rightarrow> ir_change list \<Rightarrow> 'h dbsp \<Rightarrow> ('h, ir_delta) on_engine option" where
  "settle cc frontier e =
     (case guard (db_program e) (db_source_rows e) frontier of
        Err er \<Rightarrow> Some (Err er, e)
      | Panic \<Rightarrow> Some (Panic, e)
      | Ok (accepted, sources) \<Rightarrow>
          (let e1 = e\<lparr>db_source_rows := sources\<rparr>
           in case push_accepted cc accepted e1 of
             Err er \<Rightarrow> Some (Err er, e1)
           | Panic \<Rightarrow> Some (Panic, e1)
           | Ok e2 \<Rightarrow> settle_accepted cc (dict_len (db_interner e)) e2))"

definition engine_snapshot :: "'h dbsp \<Rightarrow> nat \<Rightarrow> (engine_error, (ir_row \<times> i64) list) rust" where
  "engine_snapshot e rel = (case db_totals e rel of Some m \<Rightarrow> Ok m | None \<Rightarrow> Err (engine_err StSnapshot (Some rel) (UnknownRel rel)))"

definition intern_snapshot :: "'h dbsp \<Rightarrow> nat \<Rightarrow> (engine_error, (ir_row \<times> i64) list) rust" where
  "intern_snapshot e functor =
     (case map_of (db_constructors e) functor of
        Some (name, _) \<Rightarrow> Ok (dict_snapshot (db_interner e) name)
      | None \<Rightarrow> Err (engine_err StSnapshot (Some functor) (UnknownRel functor)))"

subsection \<open>The engine as an interner of terms\<close>

text \<open>An id of the engine stands for a constructor, by its relation, and its arguments.\<close>

definition engine_term :: "'h dbsp \<Rightarrow> i64 \<Rightarrow> nat \<times> ir_row \<Rightarrow> bool" where
  "engine_term e n t \<longleftrightarrow> (\<exists>name types. map_of (db_constructors e) (fst t) = Some (name, types) \<and> length (snd t) = length types \<and>
     term_key_of (db_interner e) n = Some (name, snd t))"

lemma with_interner_simps [simp]:
  "db_interner (with_interner e i) = i" "db_constructors (with_interner e i) = db_constructors e"
  "with_interner (with_interner e i) j = with_interner e j" "with_interner e (db_interner e) = e"
  by (simp_all add: db_interner_def with_interner_def)

lemma intern_terms_ok:
  assumes "dict_ok hash (db_interner e)" and "intern_terms e rows = Ok (ids, e')"
  shows "dict_ok hash (db_interner e') \<and> e' = with_interner e (db_interner e') \<and> dict_grows (db_interner e) (db_interner e') \<and>
    length ids = length rows \<and> (\<forall>k < length rows. engine_term e' (ids ! k) (rows ! k))"
  using assms
proof (induction rows arbitrary: e ids)
  case (Cons t rows)
  obtain f args where t: "t = (f, args)" by (cases t)
  from Cons.prems(2) obtain c where "map_of (db_constructors e) f = Some c" by (auto simp: t split: option.splits)
  moreover obtain name types where c: "c = (name, types)" by (cases c)
  ultimately have con: "map_of (db_constructors e) f = Some (name, types)" by simp
  with Cons.prems(2) have len: "length args = length types" by (auto simp: t split: if_splits)
  from Cons.prems(2) con len have "\<exists>m. (mint name args types (db_interner e) :: (engine_error, _) rust) = Ok m" by (auto simp: t rust_simps)
  then obtain n i1 where mint: "(mint name args types (db_interner e) :: (engine_error, _) rust) = Ok (n, i1)"
    by auto
  with Cons.prems(2) con len obtain ns where rest: "intern_terms (with_interner e i1) rows = Ok (ns, e')" and ids: "ids = n # ns"
    by (auto simp: t rust_simps)
  have ok1: "dict_ok hash i1" and g1: "dict_grows (db_interner e) i1" and key: "term_key_of i1 n = Some (name, args)"
    using mint_ok [OF Cons.prems(1) mint] by (auto simp: term_key_of_def)
  from Cons.IH [of "with_interner e i1" ns] ok1 rest
  have ih: "dict_ok hash (db_interner e')" "e' = with_interner e (db_interner e')" "dict_grows i1 (db_interner e')" "length ns = length rows"
      "\<forall>k < length rows. engine_term e' (ns ! k) (rows ! k)" by simp_all
  have "db_constructors e' = db_constructors e" by (subst ih(2)) simp
  then have "engine_term e' n t" using lasting(1) [OF ih(3) key] con len by (simp add: engine_term_def t)
  with ih ids dict_grows_trans [OF g1 ih(3)] show ?case by (auto simp: nth_Cons' less_Suc_eq_0_disj)
qed (simp add: dict_grows_refl)

interpretation engine_terms: term_interner intern_terms "\<lambda>e. dict_ok hash (db_interner e)" engine_term
  for hash
proof unfold_locales
  fix s s' :: "'h dbsp" and rows ids k n t
  assume ok: "dict_ok hash (db_interner s)" and run: "intern_terms s rows = Ok (ids, s')"
  note res = intern_terms_ok [OF ok run]
  show "dict_ok hash (db_interner s')" "length ids = length rows" using res by blast+
  show "engine_term s' (ids ! k) (rows ! k)" if "k < length rows" using res that by blast
  have "db_constructors s' = db_constructors s" using arg_cong [OF res [THEN conjunct2, THEN conjunct1], of db_constructors] by simp
  then show "engine_term s' n t" if "engine_term s n t"
    using that lasting(1) res unfolding engine_term_def by metis
qed

text \<open>
  C30: A batch of terms whose arguments name earlier terms of the batch, interned level by level, comes
  back with one id per term, and each id stands for that term with the ids the batch gave to the terms
  its arguments name; ids that stood for a term before still do.
\<close>

theorem batch_interns_terms:
  assumes "intern_term_batch intern_terms terms e = Ok (cells, e')" and "dict_ok hash (db_interner e)"
  shows "dict_ok hash (db_interner e') \<and> length cells = length terms \<and>
    (\<forall>i < length terms. engine_term e' (cells ! i) (row_at terms cells i)) \<and> (\<forall>n t. engine_term e n t \<longrightarrow> engine_term e' n t)"
  using engine_terms.batch_named [OF assms] by blast

text \<open>A list of two cells, the outer one naming the inner one.\<close>

definition demo_list :: ir_program where
  "demo_list = \<lparr>pr_texts = [], pr_terms = [], pr_rels = [\<lparr>ir_id = 3, ir_name = ''cons'', ir_cols = [TId, TInt, TId], ir_kind = KConstructor\<rparr>],
     pr_nodes = [], pr_strata = [], pr_outputs = []\<rparr>"

definition demo_terms :: "batch_term list" where
  "demo_terms = [(3, [BCell 7, BCell 0]), (3, [BCell 8, BEarlier 0])]"

lemma demo_batch:
  "\<exists>e'. intern_term_batch intern_terms demo_terms
     (install_engine demo_list \<lparr>sh_interner = dict_empty, sh_sum_error = None, sh_constructors = Map.empty, sh_texts = [], sh_terms = []\<rparr> () {} []) = Ok ([1, 2], e')"
  by (simp add: intern_term_batch_def demo_terms_def install_engine_def demo_list_def constructors_of_def batch_rows_def with_interner_def
    vec_index_def db_interner_def Let_def mint_def dict_empty_def fresh_id_def checked_add_def dict_put_def try_usize_def rust_simps)

theorem batch_interns_terms_witness: "\<exists>e' :: unit dbsp. engine_term e' 2 (3, [8, 1])"
proof -
  obtain e' where run: "intern_term_batch intern_terms demo_terms
     (install_engine demo_list \<lparr>sh_interner = dict_empty, sh_sum_error = None, sh_constructors = Map.empty, sh_texts = [], sh_terms = []\<rparr> () {} []) = Ok ([1, 2], e')"
    using demo_batch by blast
  have "dict_ok (\<lambda>_. 0) (db_interner (install_engine demo_list \<lparr>sh_interner = dict_empty, sh_sum_error = None, sh_constructors = Map.empty, sh_texts = [], sh_terms = []\<rparr> () {} []))"
    by (simp add: db_interner_def install_engine_def Let_def dict_empty_ok)
  from batch_interns_terms [OF run this, THEN conjunct2, THEN conjunct2, THEN conjunct1, rule_format, of 1]
  have "engine_term e' 2 (3, [8, 1])" by (simp add: demo_terms_def row_at_def cell_at_def)
  then show ?thesis by (rule exI)
qed

end
