(* ===== verification/Dbsp_Settle.thy ===== *)
theory Dbsp_Settle
  imports Dbsp_Engine
begin

text \<open>
  What \<open>settle\<close> does to the engine (\<open>crates/ivm-dbsp/src/2_dbsp.rs\<close>), for any circuit: the snapshots of
  its outputs are the accumulated deltas, and what a failed sum leaves behind.
\<close>

subsection \<open>Totals\<close>

lemma inj_net_key: "inj net_key"
  using inj_row_key by (auto simp: inj_def net_key_def prod_eq_iff)

interpretation btnet: keyed_map "bt_inv net_key" "bt_insert net_key" AList.delete
  by unfold_locales (auto simp: bt_inv_distinct map_of_bt_insert [OF inj_net_key] delete_conv')

definition total_ok :: "(ir_row \<times> i64) list \<Rightarrow> bool" where
  "total_ok m \<longleftrightarrow> bt_inv row_key m \<and> nonzero m"

definition totals_ok :: "(nat \<Rightarrow> (ir_row \<times> i64) list option) \<Rightarrow> bool" where
  "totals_ok totals \<longleftrightarrow> (\<forall>rel m. totals rel = Some m \<longrightarrow> total_ok m)"

lemma add_total_ok:
  assumes "total_ok m"
  shows "total_ok (add_total row w m) \<and> zget (add_total row w m) r = zget m r + (if r = row then w else 0)"
proof -
  have m: "bt_inv row_key m" "nonzero m" using assms by (simp_all add: total_ok_def)
  define t where "t = zget m row + w"
  have ins: "bt_inv row_key (bt_insert row_key row t m)" using m by simp
  have get: "zget (bt_insert row_key row t m) r = (if r = row then t else zget m r)" for r
    by (simp add: zget_def btr.get_upd [OF m(1)])
  show ?thesis
  proof (cases "t = 0")
    case True
    then have "add_total row w m = AList.delete row (bt_insert row_key row t m)" by (simp add: add_total_def t_def)
    moreover have "zget (AList.delete row (bt_insert row_key row t m)) r = (if r = row then 0 else zget m r)"
      using get [of r] by (simp add: zget_def btr.get_del [OF ins])
    moreover have "nonzero (AList.delete row (bt_insert row_key row t m))"
      using m by (auto simp: nonzero_def btr.mem_del [OF ins] btr.mem_upd [OF m(1)])
    ultimately show ?thesis using True ins by (auto simp: total_ok_def t_def)
  next
    case False
    then have "add_total row w m = bt_insert row_key row t m" by (simp add: add_total_def t_def)
    moreover have "nonzero (bt_insert row_key row t m)"
      using m False by (auto simp: nonzero_def btr.mem_upd [OF m(1)])
    ultimately show ?thesis using ins get by (auto simp: total_ok_def t_def)
  qed
qed

definition change_weight :: "(nat \<times> ir_row \<times> i64) list \<Rightarrow> nat \<Rightarrow> ir_row \<Rightarrow> i64" where
  "change_weight changes rel row = (\<Sum>(n, r, w) \<leftarrow> changes. if n = rel \<and> r = row then w else 0)"

lemma change_weight_simps [simp]:
  "change_weight [] rel row = 0"
  "change_weight ((n, r, w) # changes) rel row = (if n = rel \<and> r = row then w else 0) + change_weight changes rel row"
  by (simp_all add: change_weight_def)

lemma add_totals_ok:
  assumes "(add_totals changes totals :: (engine_error, _) rust) = Ok totals1" and "totals_ok totals"
  shows "totals_ok totals1 \<and> (\<forall>rel. (totals1 rel = None) = (totals rel = None)) \<and>
    (\<forall>rel m. totals rel = Some m \<longrightarrow> (\<exists>m1. totals1 rel = Some m1 \<and> (\<forall>row. zget m1 row = zget m row + change_weight changes rel row)))"
  using assms
proof (induction changes arbitrary: totals)
  case (Cons c changes)
  obtain n r w where c: "c = (n, r, w)" by (cases c)
  from Cons.prems(1) obtain m0 where m0: "totals n = Some m0"
    and rest: "(add_totals changes (totals(n \<mapsto> add_total r w m0)) :: (engine_error, _) rust) = Ok totals1"
    by (auto simp: c split: option.splits)
  have ok0: "total_ok m0" using Cons.prems(2) m0 by (auto simp: totals_ok_def)
  note add = add_total_ok [OF ok0, of r w]
  have "totals_ok (totals(n \<mapsto> add_total r w m0))" using Cons.prems(2) add by (auto simp: totals_ok_def)
  note ih = Cons.IH [OF rest this]
  have "\<exists>m1. totals1 rel = Some m1 \<and> (\<forall>row. zget m1 row = zget m row + change_weight (c # changes) rel row)" if "totals rel = Some m" for rel m
  proof (cases "rel = n")
    case True
    from ih [THEN conjunct2, THEN conjunct2, rule_format, of n "add_total r w m0"] True
    obtain m1 where "totals1 rel = Some m1" "\<forall>row. zget m1 row = zget (add_total r w m0) row + change_weight changes rel row"
      by auto
    with True that m0 add show ?thesis by (auto simp: c)
  next
    case False
    with ih [THEN conjunct2, THEN conjunct2, rule_format, of rel m] that show ?thesis by (auto simp: c)
  qed
  moreover have "(totals1 rel = None) = (totals rel = None)" for rel using ih m0 by (auto split: if_splits)
  ultimately show ?case using ih by blast
qed simp

subsection \<open>Net rows\<close>

lemma net_add_inv: "bt_inv net_key net \<Longrightarrow> bt_inv net_key (net_add k w net)"
  by (simp add: net_add_def)

lemma net_fold_inv: "bt_inv net_key net \<Longrightarrow> bt_inv net_key (fold (\<lambda>(k, w) m. net_add k w m) rows net)"
  by (induction rows arbitrary: net) (auto intro: net_add_inv)

text \<open>What a step, and so the further steps, leave alone.\<close>

definition same_books :: "'h dbsp \<Rightarrow> 'h dbsp \<Rightarrow> bool" where
  "same_books e e1 \<longleftrightarrow> db_totals e1 = db_totals e \<and> db_tick e1 = db_tick e \<and> db_source_rows e1 = db_source_rows e \<and> db_program e1 = db_program e"

lemma same_books_refl [simp]: "same_books e e"
  by (simp add: same_books_def)

lemma same_books_trans: "same_books e e1 \<Longrightarrow> same_books e1 e2 \<Longrightarrow> same_books e e2"
  by (simp add: same_books_def)

lemma push_pending_books: "same_books e (snd (push_pending cc rows e fed))"
proof (induction cc rows e fed rule: push_pending.induct)
  case (2 cc name row rest e fed)
  then show ?case by (auto simp: same_books_def split: option.split)
qed simp

lemma feed_pending_books: "same_books e (snd (feed_pending cc e))"
  using push_pending_books [of "with_interner e i1" cc rows False for i1 rows]
  by (auto simp: feed_pending_def same_books_def with_interner_def split: prod.split)

lemma dbsp_step_books: "same_books e (snd (dbsp_step cc e net))"
  by (auto simp: dbsp_step_def Let_def same_books_def split: rust.split prod.split)

lemma dbsp_step_net: "dbsp_step cc e net = (Ok net1, e1) \<Longrightarrow> bt_inv net_key net \<Longrightarrow> bt_inv net_key net1"
  by (auto simp: dbsp_step_def Let_def net_fold_inv split: rust.splits prod.splits)

lemma drain_steps_books:
  assumes "drain_steps cc e net = Some res"
  shows "same_books e (snd res) \<and> (bt_inv net_key net \<longrightarrow> (\<forall>net1. fst res = Ok net1 \<longrightarrow> bt_inv net_key net1))"
proof (induction rule: drain_steps.raw_induct [OF _ assms])
  case (1 drain cc e net res)
  obtain fed e1 where feed: "feed_pending cc e = (fed, e1)" by (cases "feed_pending cc e")
  have b1: "same_books e e1" using feed_pending_books [of e cc] feed by simp
  show ?case
  proof (cases fed)
    case False
    with 1(2) feed b1 show ?thesis by auto
  next
    case True
    obtain r e2 where step: "dbsp_step cc e1 net = (r, e2)" by (cases "dbsp_step cc e1 net")
    have b2: "same_books e e2" using same_books_trans [OF b1] dbsp_step_books [of e1 cc net] step by simp
    show ?thesis
    proof (cases r)
      case (Ok net1)
      with 1(2) feed True step have run: "drain cc e2 net1 = Some res" by simp
      have "bt_inv net_key net \<Longrightarrow> bt_inv net_key net1" using dbsp_step_net step Ok by blast
      with 1(1) [OF run] same_books_trans [OF b2, of "snd res"] show ?thesis by blast
    next
      case (Err er)
      with 1(2) feed True step have "res = (Err er, e2)" by simp
      with b2 show ?thesis by simp
    next
      case Panic
      with 1(2) feed True step have "res = (Panic, e2)" by simp
      with b2 show ?thesis by simp
    qed
  qed
qed

lemma push_accepted_books: "push_accepted cc accepted e = Ok e1 \<Longrightarrow> same_books e e1"
  by (induction cc accepted e rule: push_accepted.induct) (auto simp: same_books_def split: if_splits)

subsection \<open>Settling\<close>

lemma net_changes_weight:
  assumes "bt_inv net_key net"
  shows "distinct (map (\<lambda>(n, r, w). (n, r)) (net_changes net)) \<and> (\<forall>(n, r, w) \<in> set (net_changes net). w \<noteq> 0)"
proof -
  have "distinct (map fst (filter (\<lambda>(_, w). w \<noteq> 0) net))" using bt_inv_distinct [OF assms] by (rule List.distinct_map_filter)
  moreover have "map (\<lambda>(n, r, w). (n, r)) (net_changes net) = map fst (filter (\<lambda>(_, w). w \<noteq> 0) net)"
    by (simp add: net_changes_def case_prod_beta)
  ultimately have "distinct (map (\<lambda>(n, r, w). (n, r)) (net_changes net))" by simp
  moreover have "\<forall>(n, r, w) \<in> set (net_changes net). w \<noteq> 0" by (auto simp: net_changes_def)
  ultimately show ?thesis by blast
qed

lemma settle_Ok_run:
  assumes "settle cc frontier e = Some (Ok d, e')"
  obtains net e2 interned where "same_books (e\<lparr>db_source_rows := db_source_rows e2\<rparr>) e2" "bt_inv net_key net" "finish_settle interned net e2 = (Ok d, e')"
proof -
  obtain accepted sources where g: "guard (db_program e) (db_source_rows e) frontier = Ok (accepted, sources)"
    using assms by (cases "guard (db_program e) (db_source_rows e) frontier") (auto simp: settle_def)
  define e0 where "e0 = e\<lparr>db_source_rows := sources\<rparr>"
  obtain e1 where push: "push_accepted cc accepted e0 = Ok e1"
    using assms g by (cases "push_accepted cc accepted e0") (auto simp: settle_def e0_def)
  let ?f = "snd (feed_pending cc e1)"
  have run: "settle_accepted cc (dict_len (db_interner e)) e1 = Some (Ok d, e')"
    using assms g push by (simp add: settle_def e0_def)
  obtain r e2 where step: "dbsp_step cc ?f [] = (r, e2)" by (cases "dbsp_step cc ?f []")
  obtain net where r: "r = Ok net" using run step by (cases r) (auto simp: settle_accepted_def)
  have none: "sh_sum_error (db_shared e2) = None" using run step r by (cases "sh_sum_error (db_shared e2)") (auto simp: settle_accepted_def)
  obtain res where drain: "drain_steps cc e2 net = Some res" using run step r none by (cases "drain_steps cc e2 net") (auto simp: settle_accepted_def)
  obtain q e3 where res: "res = (q, e3)" by (cases res)
  obtain net1 where q: "q = Ok net1" using run step r none drain res by (cases q) (auto simp: settle_accepted_def)
  have fin: "finish_settle (dict_len (db_interner e)) net1 e3 = (Ok d, e')"
    using run step r none drain res q by (simp add: settle_accepted_def)
  have "same_books e0 e3"
    using push_accepted_books [OF push] feed_pending_books [of e1 cc] dbsp_step_books [of ?f cc "[]"] drain_steps_books [OF drain] step res
    by (auto intro: same_books_trans)
  then have "same_books (e\<lparr>db_source_rows := db_source_rows e3\<rparr>) e3" by (simp add: same_books_def e0_def)
  moreover have "bt_inv net_key net1" using drain_steps_books [OF drain] dbsp_step_net [of cc ?f "[]" net e2] step r res q by simp
  ultimately show thesis using fin by (rule that)
qed

text \<open>
  C31: When a frontier settles, the snapshot of every output afterwards is the snapshot before plus the
  delta: the rows are in order, each once, with no zero weight; the delta names each row of an output
  once, also with no zero weight, and carries the tick, which advances by one. This holds for every
  circuit, however many further steps newly minted terms drive.
\<close>

theorem settle_accumulates:
  assumes "settle cc frontier e = Some (Ok d, e')" and "totals_ok (db_totals e)"
  shows "totals_ok (db_totals e') \<and> id_tick d = unat (db_tick e) \<and> db_tick e' = db_tick e + 1 \<and>
    distinct (map (\<lambda>(n, r, w). (n, r)) (id_changes d)) \<and> (\<forall>(n, r, w) \<in> set (id_changes d). w \<noteq> 0) \<and>
    (\<forall>rel before. engine_snapshot e rel = Ok before \<longrightarrow>
       (\<exists>after. engine_snapshot e' rel = Ok after \<and> (\<forall>row. zget after row = zget before row + change_weight (id_changes d) rel row)))"
proof -
  obtain net e2 interned where books: "same_books (e\<lparr>db_source_rows := db_source_rows e2\<rparr>) e2" and net: "bt_inv net_key net"
    and fin: "finish_settle interned net e2 = (Ok d, e')"
    using settle_Ok_run [OF assms(1)] .
  from books have same: "db_totals e2 = db_totals e" "db_tick e2 = db_tick e" by (simp_all add: same_books_def)
  obtain totals where add: "(add_totals (net_changes net) (db_totals e) :: (engine_error, _) rust) = Ok totals"
    using fin same by (cases "add_totals (net_changes net) (db_totals e) :: (engine_error, _) rust") (auto simp: finish_settle_def Let_def)
  with fin same have d: "id_changes d = net_changes net" "id_tick d = unat (db_tick e)" and e': "db_totals e' = totals" "db_tick e' = db_tick e + 1"
    by (auto simp: finish_settle_def Let_def)
  note sums = add_totals_ok [OF add assms(2)]
  have "\<exists>after. engine_snapshot e' rel = Ok after \<and> (\<forall>row. zget after row = zget before row + change_weight (id_changes d) rel row)"
    if "engine_snapshot e rel = Ok before" for rel before
    using that sums [THEN conjunct2, THEN conjunct2, rule_format, of rel before] d(1) e'(1)
    by (auto simp: engine_snapshot_def split: option.splits)
  with sums net_changes_weight [OF net] d e' show ?thesis by simp
qed

text \<open>A change the guard accepts is one of the frontier's, for a source relation, of its arity, by one.\<close>

definition change_admissible :: "ir_program \<Rightarrow> ir_change \<Rightarrow> bool" where
  "change_admissible p ch \<longleftrightarrow> (\<exists>rel. ir_rel p (ic_rel ch) = Some rel \<and> ir_kind rel = KSource \<and>
     length (ic_row ch) = length (ir_cols rel) \<and> (ic_w ch = 1 \<or> ic_w ch = - 1))"

lemma guard_changes_admissible:
  assumes "guard_changes p sources pending accepted changes = Ok accepted1" and "\<forall>ch \<in> set accepted. change_admissible p ch"
  shows "\<forall>ch \<in> set accepted1. change_admissible p ch"
  using assms
proof (induction changes arbitrary: pending accepted)
  case (Cons ch changes)
  then obtain rel rows where r: "ir_rel p (ic_rel ch) = Some rel" "ir_kind rel = KSource" "length (ic_row ch) = length (ir_cols rel)"
    "ic_w ch = 1 \<or> ic_w ch = - 1" "sources (ir_id rel) = Some rows"
    by (auto split: option.splits if_splits)
  then have ch: "change_admissible p ch" by (auto simp: change_admissible_def)
  have "\<exists>pending1. guard_changes p sources pending1 accepted changes = Ok accepted1 \<or>
      guard_changes p sources pending1 (accepted @ [ch]) changes = Ok accepted1"
    using Cons.prems(1) r by (simp add: Let_def split: if_splits) blast+
  then obtain pending1 acc where "guard_changes p sources pending1 acc changes = Ok accepted1" "set acc \<subseteq> insert ch (set accepted)"
    by auto
  from Cons.IH [OF this(1)] this(2) Cons.prems(2) ch show ?case by blast
qed simp

lemma guard_admissible: "guard p sources changes = Ok (accepted, sources1) \<Longrightarrow> ch \<in> set accepted \<Longrightarrow> change_admissible p ch"
  using guard_changes_admissible [of p sources "\<lambda>_. 0" "[]" changes] by (auto simp: guard_def rust_simps)

lemma guard_present:
  assumes "change_admissible p ch" and "ic_w ch = 1" and "sources (ic_rel ch) = Some rows" and "ic_row ch \<in> rows"
  shows "guard p sources [ch] = Err (guard_error (ic_rel ch) (PresentInsert (ic_row ch)))"
proof -
  obtain rel where r: "ir_rel p (ic_rel ch) = Some rel" "ir_kind rel = KSource" "length (ic_row ch) = length (ir_cols rel)"
    using assms(1) by (auto simp: change_admissible_def)
  then have "ir_id rel = ic_rel ch" by (auto dest: ir_rel_id)
  with r assms(2-4) show ?thesis by (simp add: guard_def)
qed

text \<open>
  C32: When a sum has failed by the end of the first transaction of a settle, the frontier is lost: the
  settle returns the error, its rows stay in the source relations although neither the totals nor the
  tick took its delta, and every insertion the guard accepted is refused when it is settled again, as
  long as the frontier did not itself delete the row again, because the row is present.
\<close>

theorem failed_sum_loses_frontier:
  assumes g: "guard (db_program e) (db_source_rows e) frontier = Ok (accepted, sources)"
    and push: "push_accepted cc accepted (e\<lparr>db_source_rows := sources\<rparr>) = Ok e1"
    and run: "cc_transaction cc (db_handle (snd (feed_pending cc e1))) (db_shared (snd (feed_pending cc e1))) = (Ok (), h, sh)"
    and failed: "sh_sum_error sh = Some message"
  shows "\<exists>e2. settle cc frontier e = Some (Err (engine_err StSettle None (Worker message)), e2) \<and>
    db_source_rows e2 = sources \<and> db_totals e2 = db_totals e \<and> db_tick e2 = db_tick e \<and>
    (\<forall>ch \<in> set accepted. \<forall>rows. ic_w ch = 1 \<and> sources (ic_rel ch) = Some rows \<and> ic_row ch \<in> rows \<longrightarrow>
       settle cc [ch] e2 = Some (Err (guard_error (ic_rel ch) (PresentInsert (ic_row ch))), e2))"
proof -
  let ?f = "snd (feed_pending cc e1)"
  define net where "net = fold (\<lambda>(k, w) m. net_add k w m) (output_rows cc (db_outputs ?f) h) []"
  define e2 where "e2 = ?f\<lparr>db_handle := h, db_shared := sh\<lparr>sh_sum_error := None\<rparr>\<rparr>"
  have "dbsp_step cc ?f [] = (Ok net, ?f\<lparr>db_handle := h, db_shared := sh\<rparr>)"
    using run by (simp add: dbsp_step_def net_def)
  with failed have "settle_accepted cc (dict_len (db_interner e)) e1 = Some (Err (engine_err StSettle None (Worker message)), e2)"
    by (simp add: settle_accepted_def e2_def)
  with g push have first: "settle cc frontier e = Some (Err (engine_err StSettle None (Worker message)), e2)"
    by (simp add: settle_def)
  have "same_books (e\<lparr>db_source_rows := sources\<rparr>) ?f"
    using push_accepted_books [OF push] feed_pending_books [of e1 cc] by (rule same_books_trans)
  then have books: "db_source_rows e2 = sources" "db_totals e2 = db_totals e" "db_tick e2 = db_tick e" "db_program e2 = db_program e"
    by (simp_all add: same_books_def e2_def)
  have "settle cc [ch] e2 = Some (Err (guard_error (ic_rel ch) (PresentInsert (ic_row ch))), e2)"
    if "ch \<in> set accepted" "ic_w ch = 1" "sources (ic_rel ch) = Some rows" "ic_row ch \<in> rows" for ch rows
    using guard_present [of "db_program e" ch sources rows] guard_admissible [OF g that(1)] that(2-4)
    by (simp add: settle_def books)
  with first books show ?thesis by blast
qed

subsection \<open>Applied\<close>

text \<open>A circuit with one output, which passes its source on; and the same with a sum that fails.\<close>

type_synonym wire = "(ir_row \<times> i64) list \<times> (ir_row \<times> i64) list"

definition wire_circuit :: "string option \<Rightarrow> wire circuit" where
  "wire_circuit failure =
     \<lparr>cc_push = (\<lambda>_ row w (fed, out). (fed @ [(row, w)], out)), cc_push_constructor = (\<lambda>_ _ _ h. h),
      cc_transaction = (\<lambda>(fed, out) sh. (Ok (), ([], fed), sh\<lparr>sh_sum_error := failure\<rparr>)), cc_consolidate = (\<lambda>_ (fed, out). out)\<rparr>"

definition wire_engine :: "wire dbsp" where
  "wire_engine = install_engine demo_edges
     \<lparr>sh_interner = dict_empty, sh_sum_error = None, sh_constructors = Map.empty, sh_texts = [], sh_terms = []\<rparr> ([], []) {} [1]"

lemma wire_simps [simp]:
  "cc_push (wire_circuit f) n row w (fed, out) = (fed @ [(row, w)], out)"
  "cc_transaction (wire_circuit f) (fed, out) sh = (Ok (), ([], fed), sh\<lparr>sh_sum_error := f\<rparr>)"
  "cc_consolidate (wire_circuit f) n (fed, out) = out"
  "db_inputs wire_engine = {0}" "db_outputs wire_engine = [1]" "db_program wire_engine = demo_edges"
  "db_source_rows wire_engine = [0 \<mapsto> {}]" "db_totals wire_engine = [1 \<mapsto> []]" "db_handle wire_engine = ([], [])"
  "sh_interner (db_shared wire_engine) = dict_empty" "db_tick wire_engine = 0"
  by (simp_all add: wire_circuit_def wire_engine_def install_engine_def demo_edges_def Let_def fun_eq_iff)

lemma wire_guard: "guard demo_edges [0 \<mapsto> {}] [edge_change 7 1] = Ok ([edge_change 7 1], [0 \<mapsto> {[7]}])"
  by (simp add: guard_def demo_edges_def edge_change_def ir_rel_def fun_eq_iff)

lemma no_pending: "in_pending (sh_interner (db_shared e)) = [] \<Longrightarrow> feed_pending cc e = (False, e)"
  by (simp add: feed_pending_def drain_pending_def db_interner_def with_interner_def)

lemma drain_done: "feed_pending cc e = (False, e1) \<Longrightarrow> drain_steps cc e net = Some (Ok net, e1)"
  by (subst drain_steps.simps) simp

theorem failed_sum_loses_frontier_witness:
  "\<exists>e2. settle (wire_circuit (Some ''integer overflow'')) [edge_change 7 1] wire_engine =
      Some (Err (engine_err StSettle None (Worker ''integer overflow'')), e2) \<and> db_source_rows e2 = [0 \<mapsto> {[7]}] \<and>
    settle (wire_circuit (Some ''integer overflow'')) [edge_change 7 1] e2 = Some (Err (guard_error 0 (PresentInsert [7])), e2)"
proof -
  let ?e0 = "wire_engine\<lparr>db_source_rows := [0 \<mapsto> {[7]}]\<rparr>"
  let ?e1 = "?e0\<lparr>db_handle := ([([7], 1)], [])\<rparr>"
  have push: "push_accepted (wire_circuit (Some ''integer overflow'')) [edge_change 7 1] ?e0 = Ok ?e1"
    by (simp add: edge_change_def)
  have feed: "feed_pending (wire_circuit (Some ''integer overflow'')) ?e1 = (False, ?e1)"
    by (rule no_pending) (simp add: dict_empty_def)
  have g: "guard (db_program wire_engine) (db_source_rows wire_engine) [edge_change 7 1] = Ok ([edge_change 7 1], [0 \<mapsto> {[7]}])"
    using wire_guard by simp
  have run: "cc_transaction (wire_circuit (Some ''integer overflow''))
      (db_handle (snd (feed_pending (wire_circuit (Some ''integer overflow'')) ?e1)))
      (db_shared (snd (feed_pending (wire_circuit (Some ''integer overflow'')) ?e1))) =
    (Ok (), ([], [([7], 1)]), (db_shared ?e1)\<lparr>sh_sum_error := Some ''integer overflow''\<rparr>)"
    by (simp add: feed)
  from failed_sum_loses_frontier [OF g push run, of "''integer overflow''"]
  show ?thesis by (auto simp: edge_change_def)
qed

theorem settle_accumulates_witness:
  "\<exists>d e'. settle (wire_circuit None) [edge_change 7 1] wire_engine = Some (Ok d, e') \<and> id_changes d = [(1, [7], 1)] \<and>
     engine_snapshot wire_engine 1 = Ok [] \<and> (\<exists>after. engine_snapshot e' 1 = Ok after \<and> zget after [7] = 1) \<and> totals_ok (db_totals e')"
proof -
  let ?e1 = "wire_engine\<lparr>db_source_rows := [0 \<mapsto> {[7]}], db_handle := ([([7], 1)], [])\<rparr>"
  have push: "push_accepted (wire_circuit None) [edge_change 7 1] (wire_engine\<lparr>db_source_rows := [0 \<mapsto> {[7]}]\<rparr>) = Ok ?e1"
    by (simp add: edge_change_def)
  let ?e2 = "?e1\<lparr>db_handle := ([], [([7], 1)]), db_shared := (db_shared wire_engine)\<lparr>sh_sum_error := None\<rparr>\<rparr>"
  have feed: "feed_pending (wire_circuit None) ?e1 = (False, ?e1)" "feed_pending (wire_circuit None) ?e2 = (False, ?e2)"
    by (rule no_pending, simp add: dict_empty_def)+
  have step: "dbsp_step (wire_circuit None) ?e1 [] = (Ok [((1, [7]), 1)], ?e2)"
    by (simp add: dbsp_step_def output_rows_def net_add_def)
  have "drain_steps (wire_circuit None) ?e2 [((1, [7]), 1)] = Some (Ok [((1, [7]), 1)], ?e2)"
    by (rule drain_done [OF feed(2)])
  then have run: "\<exists>d e'. settle (wire_circuit None) [edge_change 7 1] wire_engine = Some (Ok d, e') \<and> id_changes d = [(1, [7], 1)]"
    using push by (simp add: settle_def Let_def wire_guard settle_accepted_def feed step finish_settle_def net_changes_def add_total_def)
  then obtain d e' where d: "settle (wire_circuit None) [edge_change 7 1] wire_engine = Some (Ok d, e')" "id_changes d = [(1, [7], 1)]" by blast
  have "totals_ok (db_totals wire_engine)" by (simp add: totals_ok_def total_ok_def)
  note acc = settle_accumulates [OF d(1) this]
  have s: "engine_snapshot wire_engine 1 = Ok []" by (simp add: engine_snapshot_def)
  with acc d(2) have "\<exists>after. engine_snapshot e' 1 = Ok after \<and> zget after [7] = 1" by fastforce
  with acc d s show ?thesis by blast
qed

end
