(* ===== verification/Sql_Parse.thy ===== *)
theory Sql_Parse
  imports Ir_Strings
begin

text \<open>
  The SQL front end of the SQLite engine: errors (\<open>crates/ivm-sqlite/src/error.rs\<close>), tokenizer and
  parser (\<open>plan.rs\<close>). Text is its UTF-8 bytes. Everything the tokenizer looks for is ASCII, whose bytes
  occur in no longer character, so it is read byte by byte where the code reads it by character; only
  white space at the start of the rest and the character of an error are whole characters. The parser
  keeps the tokens from its position on and returns what is left of them.
\<close>

subsection \<open>Errors\<close>

datatype tok = TkIdent string | TkQuoted string | TkNumber string | TkStr string | TkSym string

datatype sql_stage = SqParse | SqPlan | SqInstall | SqTeardown | SqCollect | SqSettle | SqRead

datatype sql_kind =
    SqUnsupported string
  | SqUnknownRelation string
  | SqUnknownColumn string
  | SqArity string nat nat
  | SqState string
  | SqSqlite string
  | SqLetRecLimit "nat option" nat

text \<open>\<open>SqDebug\<close> is the text \<open>format!("{:?}")\<close> makes of a token, kept as the token.\<close>

datatype sql_place = SqText string | SqDebug "tok option"

record sql_error =
  sqe_stage :: sql_stage
  sqe_relation :: sql_place
  sqe_kind :: sql_kind

definition sql_error_new :: "sql_stage \<Rightarrow> string \<Rightarrow> sql_kind \<Rightarrow> sql_error" where
  "sql_error_new stage relation kind = \<lparr>sqe_stage = stage, sqe_relation = SqText relation, sqe_kind = kind\<rparr>"

definition sql_unsupported :: "sql_stage \<Rightarrow> string \<Rightarrow> string \<Rightarrow> sql_error" where
  "sql_unsupported stage relation why = sql_error_new stage relation (SqUnsupported why)"

definition is_unsupported :: "sql_error \<Rightarrow> bool" where
  "is_unsupported e \<longleftrightarrow> (case sqe_kind e of SqUnsupported _ \<Rightarrow> True | _ \<Rightarrow> False)"

type_synonym 'a sql = "(sql_error, 'a) rust"

subsection \<open>ASCII\<close>

definition ascii_upper :: "char \<Rightarrow> char" where
  "ascii_upper c = (let n = of_char c :: nat in if 97 \<le> n \<and> n \<le> 122 then char_of (n - 32) else c)"

definition is_ascii_digit :: "char \<Rightarrow> bool" where
  "is_ascii_digit c \<longleftrightarrow> (let n = of_char c :: nat in 48 \<le> n \<and> n \<le> 57)"

definition is_ascii_alpha :: "char \<Rightarrow> bool" where
  "is_ascii_alpha c \<longleftrightarrow> (let n = of_char c :: nat in 65 \<le> n \<and> n \<le> 90 \<or> 97 \<le> n \<and> n \<le> 122)"

definition to_upper :: "string \<Rightarrow> string" where
  "to_upper s = map ascii_upper s"

definition eq_ignore_case :: "string \<Rightarrow> string \<Rightarrow> bool" where
  "eq_ignore_case a b \<longleftrightarrow> to_upper a = to_upper b"

subsection \<open>The tokenizer\<close>

definition trim_start :: "string \<Rightarrow> string" where
  "trim_start s = concat (dropWhile white_space (utf8_chars s))"

text \<open>What follows the first newline, and what follows the first end of a comment.\<close>

definition after_line :: "string \<Rightarrow> string" where
  "after_line s = drop 1 (dropWhile (\<lambda>c. c \<noteq> CHR 0x0A) s)"

fun after_comment :: "string \<Rightarrow> string option" where
  "after_comment [] = None"
| "after_comment (c # cs) =
     (case strip_prefix ''*/'' (c # cs) of Some rest \<Rightarrow> Some rest | None \<Rightarrow> after_comment cs)"

fun take_quoted :: "char \<Rightarrow> string \<Rightarrow> string \<Rightarrow> (string \<times> string) sql" where
  "take_quoted quote body [] = Err (sql_unsupported SqParse [] ''unterminated quoted token'')"
| "take_quoted quote body (c # tail) =
     (if c = quote
      then (case tail of
              d # tail1 \<Rightarrow> if d = quote then take_quoted quote (body @ [quote]) tail1 else Ok (body, tail)
            | [] \<Rightarrow> Ok (body, tail))
      else take_quoted quote (body @ [c]) tail)"

definition sql_symbols :: string where
  "sql_symbols = ''(),.*=;''"

definition number_char :: "char \<Rightarrow> bool" where
  "number_char c \<longleftrightarrow> is_ascii_alpha c \<or> is_ascii_digit c \<or> c = CHR ''.''"

definition ident_char :: "char \<Rightarrow> bool" where
  "ident_char c \<longleftrightarrow> is_ascii_alpha c \<or> is_ascii_digit c \<or> c = CHR ''_''"

text \<open>The match on the first character of a rest that is not empty.\<close>

fun lex_token :: "string \<Rightarrow> (tok \<times> string) sql" where
  "lex_token [] = Panic"
| "lex_token (c # cs) =
     (if c = CHR 0x27 then rust_bind (take_quoted c [] cs) (\<lambda>(body, tail). Ok (TkStr body, tail))
      else if c = CHR 0x22 \<or> c = CHR 0x60 then rust_bind (take_quoted c [] cs) (\<lambda>(body, tail). Ok (TkQuoted body, tail))
      else if c \<in> set sql_symbols then Ok (TkSym [c], cs)
      else if is_ascii_digit c then Ok (TkNumber (takeWhile number_char (c # cs)), dropWhile number_char (c # cs))
      else if is_ascii_alpha c \<or> c = CHR ''_'' then Ok (TkIdent (takeWhile ident_char (c # cs)), dropWhile ident_char (c # cs))
      else Err (sql_error_new SqParse (hd (utf8_chars (c # cs))) (SqUnsupported ''character in program SQL'')))"

lemma trim_start_length: "length (trim_start s) \<le> length s"
proof -
  have "length (concat (dropWhile white_space (utf8_chars s))) \<le> length (concat (utf8_chars s))"
    by (subst (2) takeWhile_dropWhile_id [of white_space, symmetric]) (simp only: concat_append length_append)
  then show ?thesis by (simp add: trim_start_def concat_utf8_chars)
qed

lemma after_line_length: "length (after_line s) \<le> length s"
  using length_dropWhile_le [of "\<lambda>c. c \<noteq> CHR 0x0A" s] by (simp add: after_line_def)

lemma after_comment_length: "after_comment s = Some t \<Longrightarrow> length t \<le> length s"
  by (induction s) (auto simp: strip_prefix_Some_iff simp del: strip_prefix.simps split: option.splits)

lemma take_quoted_length: "take_quoted q b s = Ok (t, r) \<Longrightarrow> length r < length s"
  by (induction q b s rule: take_quoted.induct) (auto split: if_splits list.splits)

lemma lex_token_length: "lex_token s = Ok (t, r) \<Longrightarrow> length r < length s"
proof (cases s)
  case (Cons c cs)
  assume "lex_token s = Ok (t, r)"
  with Cons show ?thesis
    using length_dropWhile_le [of number_char cs] length_dropWhile_le [of ident_char cs]
    by (auto simp: rust_simps number_char_def ident_char_def less_Suc_eq_le dest: take_quoted_length split: if_splits)
qed simp

function lex_loop :: "tok list \<Rightarrow> string \<Rightarrow> tok list sql" where
  "lex_loop out text0 =
     (let rest = trim_start text0
      in if rest = [] then Ok out
         else case strip_prefix ''--'' rest of
             Some stripped \<Rightarrow> lex_loop out (after_line stripped)
           | None \<Rightarrow>
               (case strip_prefix ''/*'' rest of
                  Some stripped \<Rightarrow>
                    (case after_comment stripped of
                       None \<Rightarrow> Err (sql_error_new SqParse [] (SqUnsupported ''unterminated comment''))
                     | Some tail \<Rightarrow> lex_loop out tail)
                | None \<Rightarrow> rust_bind (lex_token rest) (\<lambda>tk. lex_loop (out @ [fst tk]) (snd tk))))"
  by pat_completeness auto
termination
proof (relation "measure (\<lambda>(out, s). length s)", goal_cases)
  case (4 out s rest stripped)
  then have "length (trim_start s) = length stripped + 2"
    using strip_prefix_Some_iff [of "''--''" "trim_start s" stripped] by simp
  with trim_start_length [of s] after_line_length [of stripped] show ?case by simp
next
  case (3 out s rest stripped tail)
  then have "length (trim_start s) = length stripped + 2"
    using strip_prefix_Some_iff [of "''/*''" "trim_start s" stripped] by simp
  with 3 trim_start_length [of s] after_comment_length [of stripped tail] show ?case by simp
next
  case (2 out s rest tk)
  then show ?case
    using trim_start_length [of s] lex_token_length [of rest "fst tk" "snd tk"] by simp
qed simp

declare lex_loop.simps [simp del]

definition lex :: "string \<Rightarrow> tok list sql" where
  "lex sql = lex_loop [] sql"

subsection \<open>Syntax trees\<close>

record ast_ref =
  ar_qualifier :: "string option"
  ar_name :: string

datatype ast_item = AsCol ast_ref string | AsCount string | AsSum ast_ref string

datatype ast_from =
    AsTable string "string option"
  | AsJoin ast_from ast_from "(ast_ref \<times> ast_ref) list"

record ast_select =
  sel_items :: "ast_item list"
  sel_from :: ast_from
  sel_group :: "ast_ref list option"

subsection \<open>Parser steps\<close>

fun keyword :: "tok \<Rightarrow> string option" where
  "keyword (TkIdent w) = Some (to_upper w)"
| "keyword _ = None"

definition alias_stoppers :: "string list" where
  "alias_stoppers =
    [''JOIN'', ''INNER'', ''LEFT'', ''RIGHT'', ''FULL'', ''CROSS'', ''NATURAL'', ''ON'', ''WHERE'', ''GROUP'', ''UNION'',
     ''HAVING'', ''ORDER'', ''LIMIT'', ''OFFSET'']"

definition is_alias_stopper :: "string \<Rightarrow> bool" where
  "is_alias_stopper w \<longleftrightarrow> to_upper w \<in> set alias_stoppers"

definition peek :: "tok list \<Rightarrow> tok option" where
  "peek toks = vec_get toks 0"

text \<open>\<open>eat_\<close> returns whether it moved: here the tokens after it, or \<open>None\<close>.\<close>

fun eat_keyword :: "string \<Rightarrow> tok list \<Rightarrow> tok list option" where
  "eat_keyword word [] = None"
| "eat_keyword word (t # toks) = (if keyword t = Some word then Some toks else None)"

fun eat_sym :: "string \<Rightarrow> tok list \<Rightarrow> tok list option" where
  "eat_sym s [] = None"
| "eat_sym s (t # toks) = (if t = TkSym s then Some toks else None)"

definition expect_keyword :: "string \<Rightarrow> tok list \<Rightarrow> tok list sql" where
  "expect_keyword word toks =
     (case eat_keyword word toks of
        Some rest \<Rightarrow> Ok rest
      | None \<Rightarrow> Err (sql_error_new SqParse word (SqUnsupported ''expected keyword missing'')))"

definition expect_sym :: "string \<Rightarrow> tok list \<Rightarrow> tok list sql" where
  "expect_sym s toks =
     (case eat_sym s toks of
        Some rest \<Rightarrow> Ok rest
      | None \<Rightarrow> Err (sql_error_new SqParse s (SqUnsupported ''expected punctuation missing'')))"

text \<open>The first word of a list that is the next keyword, as \<open>for word in [...]\<close> finds it.\<close>

definition eaten_of :: "string list \<Rightarrow> tok list \<Rightarrow> string option" where
  "eaten_of words toks = find (\<lambda>w. eat_keyword w toks \<noteq> None) words"

definition debug_error :: "tok list \<Rightarrow> string \<Rightarrow> sql_error" where
  "debug_error toks what = \<lparr>sqe_stage = SqParse, sqe_relation = SqDebug (peek toks), sqe_kind = SqUnsupported what\<rparr>"

fun parse_name :: "tok list \<Rightarrow> (string \<times> tok list) sql" where
  "parse_name (TkIdent w # toks) = Ok (w, toks)"
| "parse_name (TkQuoted w # toks) = Ok (w, toks)"
| "parse_name toks = Err (debug_error toks ''identifier expected'')"

definition parse_ref :: "tok list \<Rightarrow> (ast_ref \<times> tok list) sql" where
  "parse_ref toks = rust_bind (parse_name toks) (\<lambda>(name1, toks1).
     case eat_sym ''.'' toks1 of
       Some toks2 \<Rightarrow> rust_bind (parse_name toks2) (\<lambda>(name2, toks3).
         Ok (\<lparr>ar_qualifier = Some name1, ar_name = name2\<rparr>, toks3))
     | None \<Rightarrow> Ok (\<lparr>ar_qualifier = None, ar_name = name1\<rparr>, toks1))"

definition parse_equality :: "tok list \<Rightarrow> ((ast_ref \<times> ast_ref) \<times> tok list) sql" where
  "parse_equality toks = rust_bind (parse_ref toks) (\<lambda>(a, toks1).
     rust_bind (expect_sym ''='' toks1) (\<lambda>toks2. rust_bind (parse_ref toks2) (\<lambda>(b, toks3). Ok ((a, b), toks3))))"

fun set_alias :: "string \<Rightarrow> ast_item \<Rightarrow> ast_item" where
  "set_alias alias (AsCol r _) = AsCol r alias"
| "set_alias alias (AsCount _) = AsCount alias"
| "set_alias alias (AsSum r _) = AsSum r alias"

definition finish_item :: "ast_item \<Rightarrow> tok list \<Rightarrow> (ast_item \<times> tok list) sql" where
  "finish_item item toks =
     (case eat_keyword ''AS'' toks of
        Some toks1 \<Rightarrow>
          (case toks1 of
             TkIdent w # toks2 \<Rightarrow> Ok (set_alias w item, toks2)
           | TkQuoted w # toks2 \<Rightarrow> Ok (set_alias w item, toks2)
           | _ \<Rightarrow> Err (debug_error toks1 ''alias expected''))
      | None \<Rightarrow> Ok (set_alias [] item, toks))"

definition other_aggregates :: "string list" where
  "other_aggregates = [''AVG'', ''MIN'', ''MAX'', ''TOTAL'', ''GROUP_CONCAT'']"

definition parse_item :: "tok list \<Rightarrow> (ast_item \<times> tok list) sql" where
  "parse_item toks = rust_bind
     (case eat_keyword ''COUNT'' toks of
        Some toks1 \<Rightarrow> rust_bind (expect_sym ''('' toks1) (\<lambda>toks2.
          case eat_sym ''*'' toks2 of
            None \<Rightarrow> Err (sql_unsupported SqPlan [] ''count(col) is not a supported shape; use count(*)'')
          | Some toks3 \<Rightarrow> rust_bind (expect_sym '')'' toks3) (\<lambda>toks4. Ok (AsCount [], toks4)))
      | None \<Rightarrow>
          (case eat_keyword ''SUM'' toks of
             Some toks1 \<Rightarrow> rust_bind (expect_sym ''('' toks1) (\<lambda>toks2. rust_bind (parse_ref toks2) (\<lambda>(r, toks3).
               rust_bind (expect_sym '')'' toks3) (\<lambda>toks4. Ok (AsSum r [], toks4))))
           | None \<Rightarrow>
               (case eaten_of other_aggregates toks of
                  Some word \<Rightarrow> Err (sql_unsupported SqPlan word ''only count(*) and sum(col) are supported aggregates'')
                | None \<Rightarrow> rust_bind (parse_ref toks) (\<lambda>(r, toks1). Ok (AsCol r [], toks1)))))
     (\<lambda>(item, toks1). finish_item item toks1)"

text \<open>\<open>Some(Tok::Ident(w)) = self.peek()\<close>.\<close>

fun peek_ident :: "tok list \<Rightarrow> string option" where
  "peek_ident (TkIdent w # toks) = Some w"
| "peek_ident _ = None"

definition parse_table :: "tok list \<Rightarrow> (ast_from \<times> tok list) sql" where
  "parse_table toks = rust_bind (parse_name toks) (\<lambda>(name, toks1).
     case eat_keyword ''AS'' toks1 of
       Some toks2 \<Rightarrow> rust_bind (parse_name toks2) (\<lambda>(alias, toks3). Ok (AsTable name (Some alias), toks3))
     | None \<Rightarrow>
         (case peek_ident toks1 of
            Some w \<Rightarrow>
              if \<not> is_alias_stopper w
              then rust_bind (parse_name toks1) (\<lambda>(alias, toks2). Ok (AsTable name (Some alias), toks2))
              else Ok (AsTable name None, toks1)
          | None \<Rightarrow> Ok (AsTable name None, toks1)))"

subsection \<open>Parser loops\<close>

text \<open>The measure of every loop is the number of tokens left: what is parsed in between consumes some.\<close>

named_theorems parse_length

lemma case_option_Ok_iff: "(case x of None \<Rightarrow> a | Some y \<Rightarrow> f y) = Ok r \<longleftrightarrow> (x = None \<and> a = Ok r) \<or> (\<exists>y. x = Some y \<and> f y = Ok r)"
  by (cases x) auto

lemma if_Err_Ok_iff: "(if c then Err e else a) = Ok r \<longleftrightarrow> \<not> c \<and> a = Ok r"
  by auto

lemmas parse_inv = rust_simps case_option_Ok_iff if_Err_Ok_iff

lemma eat_keyword_length [parse_length]: "eat_keyword w toks = Some rest \<Longrightarrow> length toks = Suc (length rest)"
  by (cases toks) (auto split: if_splits)

lemma eat_sym_length [parse_length]: "eat_sym s toks = Some rest \<Longrightarrow> length toks = Suc (length rest)"
  by (cases toks) (auto split: if_splits)

lemma expect_keyword_length [parse_length]: "expect_keyword w toks = Ok rest \<Longrightarrow> length toks = Suc (length rest)"
  by (auto simp: expect_keyword_def split: option.splits dest: eat_keyword_length)

lemma expect_sym_length [parse_length]: "expect_sym s toks = Ok rest \<Longrightarrow> length toks = Suc (length rest)"
  by (auto simp: expect_sym_def split: option.splits dest: eat_sym_length)

lemma parse_name_length [parse_length]: "parse_name toks = Ok (n, rest) \<Longrightarrow> length toks = Suc (length rest)"
  by (induction toks rule: parse_name.induct) auto

lemma parse_ref_length [parse_length]: "parse_ref toks = Ok (r, rest) \<Longrightarrow> length rest < length toks"
  by (auto simp: parse_ref_def parse_inv dest!: parse_length)

lemma parse_equality_length [parse_length]: "parse_equality toks = Ok (c, rest) \<Longrightarrow> length rest < length toks"
  by (auto simp: parse_equality_def parse_inv dest!: parse_length)

lemma finish_item_length [parse_length]: "finish_item item toks = Ok (i, rest) \<Longrightarrow> length rest \<le> length toks"
  by (auto simp: finish_item_def split: option.splits list.splits tok.splits dest!: parse_length)

lemma parse_item_length [parse_length]: "parse_item toks = Ok (i, rest) \<Longrightarrow> length rest < length toks"
  by (auto simp: parse_item_def parse_inv dest!: parse_length)

lemma parse_table_length [parse_length]: "parse_table toks = Ok (f, rest) \<Longrightarrow> length rest < length toks"
  by (auto simp: parse_table_def parse_inv split: if_splits dest!: parse_length)

function more_items :: "ast_item list \<Rightarrow> tok list \<Rightarrow> (ast_item list \<times> tok list) sql" where
  "more_items items toks =
     (case eat_sym '','' toks of
        Some toks1 \<Rightarrow> rust_bind (parse_item toks1) (\<lambda>(item, toks2). more_items (items @ [item]) toks2)
      | None \<Rightarrow> Ok (items, toks))"
  by pat_completeness auto
termination
  by (relation "measure (\<lambda>(items, toks). length toks)") (auto dest!: parse_length)

function more_refs :: "ast_ref list \<Rightarrow> tok list \<Rightarrow> (ast_ref list \<times> tok list) sql" where
  "more_refs refs toks =
     (case eat_sym '','' toks of
        Some toks1 \<Rightarrow> rust_bind (parse_ref toks1) (\<lambda>(r, toks2). more_refs (refs @ [r]) toks2)
      | None \<Rightarrow> Ok (refs, toks))"
  by pat_completeness auto
termination
  by (relation "measure (\<lambda>(items, toks). length toks)") (auto dest!: parse_length)

function more_conds :: "(ast_ref \<times> ast_ref) list \<Rightarrow> tok list \<Rightarrow> ((ast_ref \<times> ast_ref) list \<times> tok list) sql" where
  "more_conds conds toks =
     (case eat_keyword ''AND'' toks of
        Some toks1 \<Rightarrow> rust_bind (parse_equality toks1) (\<lambda>(c, toks2). more_conds (conds @ [c]) toks2)
      | None \<Rightarrow> Ok (conds, toks))"
  by pat_completeness auto
termination
  by (relation "measure (\<lambda>(items, toks). length toks)") (auto dest!: parse_length)

declare more_items.simps [simp del] more_refs.simps [simp del] more_conds.simps [simp del]

lemma more_items_length [parse_length]: "more_items items toks = Ok (is1, rest) \<Longrightarrow> length rest \<le> length toks"
proof (induction "length toks" arbitrary: items toks rule: less_induct)
  case less
  from less.prems show ?case
    by (subst (asm) more_items.simps) (auto simp: parse_inv dest!: parse_length less.hyps [rotated])
qed

lemma more_refs_length [parse_length]: "more_refs refs toks = Ok (rs, rest) \<Longrightarrow> length rest \<le> length toks"
proof (induction "length toks" arbitrary: refs toks rule: less_induct)
  case less
  from less.prems show ?case
    by (subst (asm) more_refs.simps) (auto simp: parse_inv dest!: parse_length less.hyps [rotated])
qed

lemma more_conds_length [parse_length]: "more_conds conds toks = Ok (cs, rest) \<Longrightarrow> length rest \<le> length toks"
proof (induction "length toks" arbitrary: conds toks rule: less_induct)
  case less
  from less.prems show ?case
    by (subst (asm) more_conds.simps) (auto simp: parse_inv dest!: parse_length less.hyps [rotated])
qed

definition parse_on :: "tok list \<Rightarrow> ((ast_ref \<times> ast_ref) list \<times> tok list) sql" where
  "parse_on toks = rust_bind (expect_keyword ''ON'' toks) (\<lambda>toks1.
     rust_bind (parse_equality toks1) (\<lambda>(c, toks2). more_conds [c] toks2))"

lemma parse_on_length [parse_length]: "parse_on toks = Ok (cs, rest) \<Longrightarrow> length rest < length toks"
  by (auto simp: parse_on_def parse_inv dest!: parse_length)

text \<open>The body of an inner join, after its keyword.\<close>

definition parse_join :: "ast_from \<Rightarrow> tok list \<Rightarrow> (ast_from \<times> tok list) sql" where
  "parse_join from1 toks = rust_bind (parse_table toks) (\<lambda>(right, toks1).
     rust_bind (parse_on toks1) (\<lambda>(conds, toks2). Ok (AsJoin from1 right conds, toks2)))"

lemma parse_join_length [parse_length]: "parse_join from1 toks = Ok (f, rest) \<Longrightarrow> length rest < length toks"
  by (auto simp: parse_join_def parse_inv dest!: parse_length)

definition other_joins :: "string list" where
  "other_joins = [''LEFT'', ''RIGHT'', ''FULL'', ''CROSS'', ''NATURAL'']"

function more_joins :: "ast_from \<Rightarrow> tok list \<Rightarrow> (ast_from \<times> tok list) sql" where
  "more_joins from1 toks =
     (case eat_keyword ''INNER'' toks of
        Some toks1 \<Rightarrow> rust_bind (expect_keyword ''JOIN'' toks1) (\<lambda>toks2.
          rust_bind (parse_join from1 toks2) (\<lambda>(f, toks3). more_joins f toks3))
      | None \<Rightarrow>
          (case eat_keyword ''JOIN'' toks of
             Some toks1 \<Rightarrow> rust_bind (parse_join from1 toks1) (\<lambda>(f, toks2). more_joins f toks2)
           | None \<Rightarrow>
               if eaten_of other_joins toks \<noteq> None
               then Err (sql_unsupported SqPlan [] ''only inner equi-joins are a supported shape'')
               else if eat_sym '','' toks \<noteq> None
               then Err (sql_unsupported SqPlan [] ''comma joins are not a supported shape; use JOIN .. ON'')
               else Ok (from1, toks)))"
  by pat_completeness auto
termination
  by (relation "measure (\<lambda>(from1, toks). length toks)") (auto dest!: parse_length)

declare more_joins.simps [simp del]

lemma more_joins_length [parse_length]: "more_joins from1 toks = Ok (f, rest) \<Longrightarrow> length rest \<le> length toks"
proof (induction "length toks" arbitrary: from1 toks rule: less_induct)
  case less
  from less.prems show ?case
    by (subst (asm) more_joins.simps) (auto simp: parse_inv dest!: parse_length less.hyps [rotated])
qed

definition parse_from :: "tok list \<Rightarrow> (ast_from \<times> tok list) sql" where
  "parse_from toks = rust_bind (parse_table toks) (\<lambda>(f, toks1). more_joins f toks1)"

lemma parse_from_length [parse_length]: "parse_from toks = Ok (f, rest) \<Longrightarrow> length rest < length toks"
  by (auto simp: parse_from_def parse_inv dest!: parse_length)

subsection \<open>Statements and programs\<close>

definition parse_group :: "tok list \<Rightarrow> (ast_ref list option \<times> tok list) sql" where
  "parse_group toks =
     (case eat_keyword ''GROUP'' toks of
        Some toks1 \<Rightarrow> rust_bind (expect_keyword ''BY'' toks1) (\<lambda>toks2. rust_bind (parse_ref toks2) (\<lambda>(r, toks3).
          rust_bind (more_refs [r] toks3) (\<lambda>(refs, toks4). Ok (Some refs, toks4))))
      | None \<Rightarrow> Ok (None, toks))"

definition tail_words :: "string list" where
  "tail_words = [''HAVING'', ''ORDER'', ''LIMIT'', ''OFFSET'']"

definition parse_body :: "tok list \<Rightarrow> (ast_select \<times> tok list) sql" where
  "parse_body toks = rust_bind (parse_item toks) (\<lambda>(item, toks1). rust_bind (more_items [item] toks1) (\<lambda>(items, toks2).
     rust_bind (expect_keyword ''FROM'' toks2) (\<lambda>toks3. rust_bind (parse_from toks3) (\<lambda>(from1, toks4).
       if eat_keyword ''WHERE'' toks4 \<noteq> None then Err (sql_unsupported SqPlan [] ''filters are not a supported shape'')
       else rust_bind (parse_group toks4) (\<lambda>(group, toks5).
         if eaten_of tail_words toks5 \<noteq> None
         then Err (sql_unsupported SqPlan [] ''having, ordering and limits are not a supported shape'')
         else Ok (\<lparr>sel_items = items, sel_from = from1, sel_group = group\<rparr>, toks5))))))"

definition parse_select :: "tok list \<Rightarrow> (ast_select \<times> tok list) sql" where
  "parse_select toks =
     (case eat_keyword ''SELECT'' toks of
        None \<Rightarrow>
          Err (sql_unsupported SqParse (case peek_ident toks of Some w \<Rightarrow> w | None \<Rightarrow> []) ''a program must start with SELECT'')
      | Some toks1 \<Rightarrow>
          if eat_keyword ''DISTINCT'' toks1 \<noteq> None
          then Err (sql_unsupported SqPlan [] ''DISTINCT is set semantics; the union root already dedups'')
          else if eat_keyword ''ALL'' toks1 \<noteq> None
          then Err (sql_unsupported SqPlan [] ''SELECT ALL is not a supported shape'')
          else parse_body toks1)"

lemma parse_group_length [parse_length]: "parse_group toks = Ok (g, rest) \<Longrightarrow> length rest \<le> length toks"
  by (auto simp: parse_group_def parse_inv dest!: parse_length)

lemma parse_body_length [parse_length]: "parse_body toks = Ok (g, rest) \<Longrightarrow> length rest < length toks"
  by (auto simp: parse_body_def parse_inv dest!: parse_length)

lemma parse_select_length [parse_length]: "parse_select toks = Ok (g, rest) \<Longrightarrow> length rest < length toks"
  by (auto simp: parse_select_def parse_inv dest!: parse_length)

function more_selects :: "ast_select list \<Rightarrow> tok list \<Rightarrow> (ast_select list \<times> tok list) sql" where
  "more_selects selects toks =
     (case eat_keyword ''UNION'' toks of
        Some toks1 \<Rightarrow>
          if eat_keyword ''ALL'' toks1 \<noteq> None
          then Err (sql_unsupported SqPlan [] ''UNION ALL needs multiset output deltas; use UNION'')
          else rust_bind (parse_select toks1) (\<lambda>(s, toks2). more_selects (selects @ [s]) toks2)
      | None \<Rightarrow> Ok (selects, toks))"
  by pat_completeness auto
termination
  by (relation "measure (\<lambda>(from1, toks). length toks)") (auto dest!: parse_length)

declare more_selects.simps [simp del]

definition parse_program :: "tok list \<Rightarrow> ast_select list sql" where
  "parse_program toks = rust_bind (parse_select toks) (\<lambda>(s, toks1). rust_bind (more_selects [s] toks1) (\<lambda>(selects, toks2).
     if toks2 \<noteq> [] then Err (sql_unsupported SqParse [] ''trailing tokens after the program's select statements'')
     else Ok selects))"

definition parse_sql :: "string \<Rightarrow> ast_select list sql" where
  "parse_sql sql = rust_bind (lex sql) parse_program"

end
