(* ===== verification/Sql_Print.thy ===== *)
theory Sql_Print
  imports Sql_Parse
begin

text \<open>
  The reference for the SQL parser: a printer of syntax trees, with every name quoted, and the proof
  that tokenizer and parser read back what it prints. The trees the parser makes are the printable ones:
  joins nest to the left, over tables, and lists that the grammar starts with one element are not empty.
\<close>

subsection \<open>Printing\<close>

fun quote_body :: "char \<Rightarrow> string \<Rightarrow> string" where
  "quote_body q [] = []"
| "quote_body q (c # cs) = (if c = q then [q, q] else [c]) @ quote_body q cs"

fun show_tok :: "tok \<Rightarrow> string" where
  "show_tok (TkIdent w) = w"
| "show_tok (TkQuoted w) = [CHR 0x22] @ quote_body (CHR 0x22) w @ [CHR 0x22]"
| "show_tok (TkNumber w) = w"
| "show_tok (TkStr w) = [CHR 0x27] @ quote_body (CHR 0x27) w @ [CHR 0x27]"
| "show_tok (TkSym w) = w"

definition show_toks :: "tok list \<Rightarrow> string" where
  "show_toks toks = concat (map (\<lambda>t. show_tok t @ '' '') toks)"

definition ref_toks :: "ast_ref \<Rightarrow> tok list" where
  "ref_toks r = (case ar_qualifier r of None \<Rightarrow> [] | Some q \<Rightarrow> [TkQuoted q, TkSym ''.'']) @ [TkQuoted (ar_name r)]"

definition alias_toks :: "string \<Rightarrow> tok list" where
  "alias_toks al = (if al = [] then [] else [TkIdent ''AS'', TkQuoted al])"

fun item_toks :: "ast_item \<Rightarrow> tok list" where
  "item_toks (AsCol r al) = ref_toks r @ alias_toks al"
| "item_toks (AsCount al) = [TkIdent ''COUNT'', TkSym ''('', TkSym ''*'', TkSym '')''] @ alias_toks al"
| "item_toks (AsSum r al) = [TkIdent ''SUM'', TkSym ''(''] @ ref_toks r @ [TkSym '')''] @ alias_toks al"

fun sep_toks :: "tok list \<Rightarrow> ('a \<Rightarrow> tok list) \<Rightarrow> 'a list \<Rightarrow> tok list" where
  "sep_toks sep f [] = []"
| "sep_toks sep f (x # xs) = f x @ concat (map (\<lambda>y. sep @ f y) xs)"

definition cond_toks :: "ast_ref \<times> ast_ref \<Rightarrow> tok list" where
  "cond_toks c = ref_toks (fst c) @ [TkSym ''=''] @ ref_toks (snd c)"

fun from_toks :: "ast_from \<Rightarrow> tok list" where
  "from_toks (AsTable name al) =
     [TkQuoted name] @ (case al of None \<Rightarrow> [] | Some a \<Rightarrow> [TkIdent ''AS'', TkQuoted a])"
| "from_toks (AsJoin l r conds) =
     from_toks l @ [TkIdent ''JOIN''] @ from_toks r @ [TkIdent ''ON''] @ sep_toks [TkIdent ''AND''] cond_toks conds"

definition select_toks :: "ast_select \<Rightarrow> tok list" where
  "select_toks s = [TkIdent ''SELECT''] @ sep_toks [TkSym '',''] item_toks (sel_items s) @ [TkIdent ''FROM''] @ from_toks (sel_from s) @
     (case sel_group s of None \<Rightarrow> [] | Some refs \<Rightarrow> [TkIdent ''GROUP'', TkIdent ''BY''] @ sep_toks [TkSym '',''] ref_toks refs)"

definition program_toks :: "ast_select list \<Rightarrow> tok list" where
  "program_toks p = sep_toks [TkIdent ''UNION''] select_toks p"

definition show_sql :: "ast_select list \<Rightarrow> string" where
  "show_sql p = show_toks (program_toks p)"

fun left_deep :: "ast_from \<Rightarrow> bool" where
  "left_deep (AsTable _ _) \<longleftrightarrow> True"
| "left_deep (AsJoin l (AsTable _ _) conds) \<longleftrightarrow> left_deep l \<and> conds \<noteq> []"
| "left_deep (AsJoin _ _ _) \<longleftrightarrow> False"

definition printable_select :: "ast_select \<Rightarrow> bool" where
  "printable_select s \<longleftrightarrow> sel_items s \<noteq> [] \<and> left_deep (sel_from s) \<and> sel_group s \<noteq> Some []"

definition printable_program :: "ast_select list \<Rightarrow> bool" where
  "printable_program p \<longleftrightarrow> p \<noteq> [] \<and> list_all printable_select p"

subsection \<open>The tokenizer reads printed tokens\<close>

fun tok_ok :: "tok \<Rightarrow> bool" where
  "tok_ok (TkIdent w) \<longleftrightarrow> (case w of [] \<Rightarrow> False | c # cs \<Rightarrow> (is_ascii_alpha c \<or> c = CHR ''_'') \<and> list_all ident_char cs)"
| "tok_ok (TkNumber w) \<longleftrightarrow> (case w of [] \<Rightarrow> False | c # cs \<Rightarrow> is_ascii_digit c \<and> list_all number_char cs)"
| "tok_ok (TkSym w) \<longleftrightarrow> (case w of [c] \<Rightarrow> c \<in> set sql_symbols | _ \<Rightarrow> False)"
| "tok_ok _ \<longleftrightarrow> True"

lemma take_quoted_body:
  "rest = [] \<or> hd rest \<noteq> q \<Longrightarrow> take_quoted q b (quote_body q s @ q # rest) = Ok (b @ s, rest)"
  by (induction s arbitrary: b) (auto split: list.split)

text \<open>A character that starts a token is neither white space nor the middle of a character.\<close>

definition token_start :: "char \<Rightarrow> bool" where
  "token_start c \<longleftrightarrow> 33 \<le> (of_char c :: nat) \<and> (of_char c :: nat) < 128 \<and> c \<noteq> CHR ''-'' \<and> c \<noteq> CHR ''/''"

lemma utf8_chars_Cons_nonempty [simp]: "utf8_chars (c # cs) \<noteq> []"
  by (auto split: list.split)

lemma hd_hd_utf8_chars: "hd (hd (utf8_chars (c # cs))) = c"
  by (auto split: list.split)

lemma white_space_hd: "white_space w \<Longrightarrow> hd w = c \<Longrightarrow> (of_char c :: nat) \<le> 32 \<or> 194 \<le> (of_char c :: nat)"
  by (cases w) (auto simp: white_space_def)

lemma trim_start_token: "token_start c \<Longrightarrow> trim_start (c # cs) = c # cs"
proof -
  assume c: "token_start c"
  obtain w ws where u: "utf8_chars (c # cs) = w # ws" using utf8_chars_Cons_nonempty by (meson neq_Nil_conv)
  then have "hd w = c" using hd_hd_utf8_chars [of c cs] by simp
  with c white_space_hd [of w c] have "\<not> white_space w" unfolding token_start_def by linarith
  with u concat_utf8_chars [of "c # cs"] show ?thesis by (simp add: trim_start_def)
qed

lemma trim_start_blank:
  assumes "s = [] \<or> token_start (hd s)"
  shows "trim_start (CHR '' '' # s) = trim_start s"
proof (cases s)
  case Nil
  then show ?thesis by (simp add: trim_start_def white_space_def)
next
  case (Cons c cs)
  obtain w ws where u: "utf8_chars (c # cs) = w # ws" using utf8_chars_Cons_nonempty by (meson neq_Nil_conv)
  then have "hd w = c" using hd_hd_utf8_chars [of c cs] by simp
  with assms Cons have "\<not> utf8_cont (hd w)" by (auto simp: token_start_def utf8_cont_def)
  with u have "utf8_chars (CHR '' '' # c # cs) = [CHR '' ''] # w # ws" by simp
  with u Cons show ?thesis by (simp add: trim_start_def white_space_def)
qed

lemma ident_start: "is_ascii_alpha c \<or> c = CHR ''_'' \<Longrightarrow>
    token_start c \<and> ident_char c \<and> \<not> is_ascii_digit c \<and> c \<notin> set sql_symbols \<and> c \<noteq> CHR 0x27 \<and> c \<noteq> CHR 0x22 \<and> c \<noteq> CHR 0x60"
  by (auto simp: token_start_def ident_char_def is_ascii_alpha_def is_ascii_digit_def sql_symbols_def Let_def)

lemma number_start: "is_ascii_digit c \<Longrightarrow>
    token_start c \<and> number_char c \<and> c \<notin> set sql_symbols \<and> c \<noteq> CHR 0x27 \<and> c \<noteq> CHR 0x22 \<and> c \<noteq> CHR 0x60"
  by (auto simp: token_start_def number_char_def is_ascii_digit_def sql_symbols_def Let_def)

lemma symbol_start: "c \<in> set sql_symbols \<Longrightarrow> token_start c \<and> c \<noteq> CHR 0x27 \<and> c \<noteq> CHR 0x22 \<and> c \<noteq> CHR 0x60"
  by (auto simp: token_start_def sql_symbols_def)

lemma blank_not_inner: "\<not> ident_char (CHR '' '')" "\<not> number_char (CHR '' '')"
  by (simp_all add: ident_char_def number_char_def is_ascii_alpha_def is_ascii_digit_def Let_def)

lemma inner_blank:
  "list_all P cs \<Longrightarrow> \<not> P x \<Longrightarrow> takeWhile P (cs @ x # rest) = cs \<and> dropWhile P (cs @ x # rest) = x # rest"
  by (induction cs) auto

lemma lex_token_show:
  assumes "tok_ok t"
  shows "lex_token (show_tok t @ CHR '' '' # rest) = Ok (t, CHR '' '' # rest) \<and> show_tok t \<noteq> [] \<and> token_start (hd (show_tok t))"
proof (cases t)
  case (TkIdent w)
  with assms obtain c cs where w: "w = c # cs" "is_ascii_alpha c \<or> c = CHR ''_''" "list_all ident_char cs"
    by (auto split: list.splits)
  with TkIdent ident_start [OF w(2)] inner_blank [OF w(3) blank_not_inner(1)] show ?thesis by simp
next
  case (TkNumber w)
  with assms obtain c cs where w: "w = c # cs" "is_ascii_digit c" "list_all number_char cs"
    by (auto split: list.splits)
  with TkNumber number_start [OF w(2)] inner_blank [OF w(3) blank_not_inner(2)] show ?thesis by simp
next
  case (TkSym w)
  with assms obtain c where "w = [c]" "c \<in> set sql_symbols" by (auto split: list.splits)
  with TkSym symbol_start show ?thesis by simp
next
  case (TkQuoted w)
  then show ?thesis
    using take_quoted_body [of "CHR '' '' # rest" "CHR 0x22" "[]" w] by (simp add: token_start_def)
next
  case (TkStr w)
  then show ?thesis
    using take_quoted_body [of "CHR '' '' # rest" "CHR 0x27" "[]" w] by (simp add: token_start_def)
qed

lemma show_toks_start: "list_all tok_ok toks \<Longrightarrow> show_toks toks = [] \<or> token_start (hd (show_toks toks))"
  using lex_token_show by (cases toks) (auto simp: show_toks_def hd_append)

lemma lex_loop_blank: "s = [] \<or> token_start (hd s) \<Longrightarrow> lex_loop out (CHR '' '' # s) = lex_loop out s"
  by (subst (1 2) lex_loop.simps) (simp add: trim_start_blank)

lemma lex_loop_show: "list_all tok_ok toks \<Longrightarrow> lex_loop out (show_toks toks) = Ok (out @ toks)"
proof (induction toks arbitrary: out)
  case Nil
  then show ?case by (subst lex_loop.simps) (simp add: show_toks_def trim_start_def)
next
  case (Cons t toks)
  let ?rest = "CHR '' '' # show_toks toks"
  have t: "tok_ok t" and toks: "list_all tok_ok toks" using Cons.prems by simp_all
  note tok = lex_token_show [OF t, of "show_toks toks"]
  obtain c cs where c: "show_tok t = c # cs" "token_start c" using tok by (cases "show_tok t") auto
  have eq: "show_toks (t # toks) = c # cs @ ?rest" by (simp add: show_toks_def c)
  have "lex_loop out (show_toks (t # toks)) = lex_loop (out @ [t]) ?rest"
    using tok c trim_start_token [OF c(2), of "cs @ ?rest"] unfolding eq
    by (subst lex_loop.simps) (auto simp: token_start_def)
  also have "\<dots> = lex_loop (out @ [t]) (show_toks toks)" by (rule lex_loop_blank [OF show_toks_start [OF toks]])
  also have "\<dots> = Ok (out @ t # toks)" using Cons.IH [OF toks] by simp
  finally show ?case .
qed

subsection \<open>The parser reads printed trees\<close>

lemma parse_ref_toks: "eat_sym ''.'' rest = None \<Longrightarrow> parse_ref (ref_toks r @ rest) = Ok (r, rest)"
  by (cases "ar_qualifier r") (simp_all add: parse_ref_def ref_toks_def)

lemma no_keyword_ref [simp]: "eat_keyword w (ref_toks r @ rest) = None"
  by (cases "ar_qualifier r") (simp_all add: ref_toks_def)

lemma no_words_ref [simp]: "eaten_of ws (ref_toks r @ rest) = None"
  by (simp add: eaten_of_def find_None_iff)

lemma upper_words [simp]:
  "to_upper ''AS'' = ''AS''" "to_upper ''COUNT'' = ''COUNT''" "to_upper ''SUM'' = ''SUM''" "to_upper ''AND'' = ''AND''"
  "to_upper ''JOIN'' = ''JOIN''" "to_upper ''ON'' = ''ON''" "to_upper ''FROM'' = ''FROM''" "to_upper ''SELECT'' = ''SELECT''"
  "to_upper ''GROUP'' = ''GROUP''" "to_upper ''BY'' = ''BY''" "to_upper ''UNION'' = ''UNION''"
  by (simp_all add: to_upper_def ascii_upper_def Let_def)

lemma finish_item_alias:
  "eat_keyword ''AS'' rest = None \<Longrightarrow> finish_item item (alias_toks al @ rest) = Ok (set_alias al item, rest)"
  by (simp add: finish_item_def alias_toks_def)

lemma alias_no_dot [simp]: "eat_sym ''.'' (alias_toks al @ rest) = None \<longleftrightarrow> al \<noteq> [] \<or> eat_sym ''.'' rest = None"
  by (simp add: alias_toks_def)

lemma parse_item_toks:
  assumes "eat_sym ''.'' rest = None" "eat_keyword ''AS'' rest = None"
  shows "parse_item (item_toks i @ rest) = Ok (i, rest)"
  using assms by (cases i) (simp_all add: parse_item_def expect_sym_def parse_ref_toks finish_item_alias)

lemma more_items_toks:
  assumes "eat_sym ''.'' rest = None" "eat_keyword ''AS'' rest = None" "eat_sym '','' rest = None"
  shows "more_items items (concat (map (\<lambda>y. TkSym '','' # item_toks y) is1) @ rest) = Ok (items @ is1, rest)"
proof (induction is1 arbitrary: items)
  case Nil
  with assms show ?case by (subst more_items.simps) simp
next
  case (Cons i is1)
  let ?rest = "concat (map (\<lambda>y. TkSym '','' # item_toks y) is1) @ rest"
  have "eat_sym ''.'' ?rest = None" "eat_keyword ''AS'' ?rest = None" using assms by (cases is1, simp, simp)+
  from parse_item_toks [OF this, of i] Cons show ?case by (subst more_items.simps) simp
qed

lemma more_refs_toks:
  assumes "eat_sym ''.'' rest = None" "eat_sym '','' rest = None"
  shows "more_refs items (concat (map (\<lambda>y. TkSym '','' # ref_toks y) is1) @ rest) = Ok (items @ is1, rest)"
proof (induction is1 arbitrary: items)
  case Nil
  with assms show ?case by (subst more_refs.simps) simp
next
  case (Cons i is1)
  let ?rest = "concat (map (\<lambda>y. TkSym '','' # ref_toks y) is1) @ rest"
  have "eat_sym ''.'' ?rest = None" using assms by (cases is1) simp_all
  from parse_ref_toks [OF this, of i] Cons show ?case by (subst more_refs.simps) simp
qed

lemma parse_equality_toks: "eat_sym ''.'' rest = None \<Longrightarrow> parse_equality (cond_toks c @ rest) = Ok (c, rest)"
  by (cases c) (simp add: parse_equality_def cond_toks_def parse_ref_toks expect_sym_def)

lemma more_conds_toks:
  assumes "eat_sym ''.'' rest = None" "eat_keyword ''AND'' rest = None"
  shows "more_conds items (concat (map (\<lambda>y. TkIdent ''AND'' # cond_toks y) is1) @ rest) = Ok (items @ is1, rest)"
proof (induction is1 arbitrary: items)
  case Nil
  with assms show ?case by (subst more_conds.simps) simp
next
  case (Cons i is1)
  let ?rest = "concat (map (\<lambda>y. TkIdent ''AND'' # cond_toks y) is1) @ rest"
  have "eat_sym ''.'' ?rest = None" using assms by (cases is1) simp_all
  from parse_equality_toks [OF this, of i] Cons show ?case by (subst more_conds.simps) simp
qed

lemma parse_on_toks:
  assumes "eat_sym ''.'' rest = None" "eat_keyword ''AND'' rest = None" "conds \<noteq> []"
  shows "parse_on (TkIdent ''ON'' # sep_toks [TkIdent ''AND''] cond_toks conds @ rest) = Ok (conds, rest)"
proof -
  obtain c cs where c: "conds = c # cs" using assms(3) by (cases conds) auto
  let ?rest = "concat (map (\<lambda>y. TkIdent ''AND'' # cond_toks y) cs) @ rest"
  have "eat_sym ''.'' ?rest = None" using assms by (cases cs) simp_all
  from parse_equality_toks [OF this, of c] more_conds_toks [OF assms(1,2), of "[c]" cs] c
  show ?thesis by (simp add: parse_on_def expect_keyword_def)
qed

lemma parse_table_toks:
  "eat_keyword ''AS'' rest = None \<Longrightarrow> (case peek_ident rest of None \<Rightarrow> True | Some w \<Rightarrow> is_alias_stopper w) \<Longrightarrow>
   parse_table (from_toks (AsTable name al) @ rest) = Ok (AsTable name al, rest)"
  by (auto simp: parse_table_def split: option.splits)

text \<open>What may follow a table: nothing, or a keyword that cannot be its alias and is not a join.\<close>

definition table_end :: "tok list \<Rightarrow> bool" where
  "table_end rest \<longleftrightarrow> (case rest of [] \<Rightarrow> True | t # _ \<Rightarrow> t \<in> {TkIdent ''JOIN'', TkIdent ''ON'', TkIdent ''GROUP'', TkIdent ''UNION''})"

lemma table_endD:
  "table_end rest \<Longrightarrow> eat_keyword ''AS'' rest = None \<and> (case peek_ident rest of None \<Rightarrow> True | Some w \<Rightarrow> is_alias_stopper w) \<and>
     eat_sym s rest = None \<and> eat_keyword ''AND'' rest = None"
  by (cases rest) (auto simp: table_end_def is_alias_stopper_def alias_stoppers_def)

lemma parse_from_joins:
  "left_deep f \<Longrightarrow> table_end rest \<Longrightarrow> parse_from (from_toks f @ rest) = more_joins f rest"
proof (induction f arbitrary: rest rule: left_deep.induct)
  case (1 name al)
  then show ?case using table_endD [OF 1(2)] parse_table_toks [of rest name al] by (simp add: parse_from_def del: from_toks.simps)
next
  case (2 l name al conds)
  let ?conds = "sep_toks [TkIdent ''AND''] cond_toks conds"
  let ?r = "TkIdent ''ON'' # ?conds @ rest"
  let ?rest = "TkIdent ''JOIN'' # from_toks (AsTable name al) @ ?r"
  have "parse_from (from_toks (AsJoin l (AsTable name al) conds) @ rest) = parse_from (from_toks l @ ?rest)"
    by (simp del: from_toks.simps(1))
  also have "\<dots> = more_joins l ?rest" using 2 by (simp add: table_end_def)
  also have "\<dots> = rust_bind (parse_join l (from_toks (AsTable name al) @ ?r)) (\<lambda>(f, toks). more_joins f toks)"
    by (subst more_joins.simps) (simp del: from_toks.simps)
  also have "parse_join l (from_toks (AsTable name al) @ ?r) = Ok (AsJoin l (AsTable name al) conds, rest)"
    using parse_table_toks [of ?r name al] parse_on_toks [of rest conds] table_endD [OF 2(3)] table_endD [of ?r] 2(2)
    by (simp add: parse_join_def table_end_def del: from_toks.simps)
  finally show ?case by simp
qed simp

definition select_end :: "tok list \<Rightarrow> bool" where
  "select_end rest \<longleftrightarrow> (case rest of [] \<Rightarrow> True | t # _ \<Rightarrow> t = TkIdent ''UNION'')"

lemma select_endD:
  "select_end rest \<Longrightarrow> w \<noteq> ''UNION'' \<Longrightarrow> eat_keyword w rest = None \<and> eat_sym s rest = None"
  by (cases rest) (auto simp: select_end_def)

lemma eaten_of_None: "(\<And>w. w \<in> set ws \<Longrightarrow> eat_keyword w toks = None) \<Longrightarrow> eaten_of ws toks = None"
  by (auto simp: eaten_of_def find_None_iff)

lemma more_joins_done:
  assumes "rest = [] \<or> hd rest \<in> {TkIdent ''GROUP'', TkIdent ''UNION''}"
  shows "more_joins f rest = Ok (f, rest)"
proof -
  have "eat_keyword w rest = None" if "w \<in> set (''INNER'' # ''JOIN'' # other_joins)" for w
    using that assms by (cases rest) (auto simp: other_joins_def)
  moreover have "eat_sym '','' rest = None" using assms by (cases rest) auto
  ultimately show ?thesis by (subst more_joins.simps) (simp add: eaten_of_None)
qed

lemma parse_select_toks:
  assumes "printable_select s" and rest: "select_end rest"
  shows "parse_select (select_toks s @ rest) = Ok (s, rest)"
proof -
  from assms obtain i is1 where items: "sel_items s = i # is1" and deep: "left_deep (sel_from s)" and group: "sel_group s \<noteq> Some []"
    by (cases "sel_items s") (auto simp: printable_select_def)
  let ?group = "(case sel_group s of None \<Rightarrow> [] | Some refs \<Rightarrow> [TkIdent ''GROUP'', TkIdent ''BY''] @ sep_toks [TkSym '',''] ref_toks refs) @ rest"
  let ?from = "TkIdent ''FROM'' # from_toks (sel_from s) @ ?group"
  let ?items = "concat (map (\<lambda>y. TkSym '','' # item_toks y) is1) @ ?from"
  have "eat_sym ''.'' ?items = None" "eat_keyword ''AS'' ?items = None" by (cases is1, simp, simp)+
  note item = parse_item_toks [OF this, of i]
  have more: "more_items [i] ?items = Ok (i # is1, ?from)" using more_items_toks [of ?from "[i]" is1] by simp
  have group_hd: "?group = [] \<or> hd ?group \<in> {TkIdent ''GROUP'', TkIdent ''UNION''}"
    using rest by (cases rest) (auto simp: select_end_def split: option.split)
  then have "table_end ?group" by (cases ?group) (auto simp: table_end_def)
  with deep group_hd have from1: "parse_from (from_toks (sel_from s) @ ?group) = Ok (sel_from s, ?group)"
    by (simp add: parse_from_joins more_joins_done)
  have no_where: "eat_keyword ''WHERE'' ?group = None" using group_hd by (cases ?group) auto
  have grouped: "parse_group ?group = Ok (sel_group s, rest)"
  proof (cases "sel_group s")
    case None
    with select_endD [OF rest] show ?thesis by (simp add: parse_group_def)
  next
    case (Some refs)
    with group obtain r rs where r: "refs = r # rs" by (cases refs) auto
    let ?more = "concat (map (\<lambda>y. TkSym '','' # ref_toks y) rs) @ rest"
    have "eat_sym ''.'' ?more = None" using select_endD [OF rest, of "''BY''" "''.''"] by (cases rs) simp_all
    from parse_ref_toks [OF this, of r] more_refs_toks [of rest "[r]" rs] select_endD [OF rest, of "''BY''"] Some r
    show ?thesis by (simp add: parse_group_def expect_keyword_def)
  qed
  have "eaten_of tail_words rest = None"
    using select_endD [OF rest] by (intro eaten_of_None) (auto simp: tail_words_def)
  moreover have "parse_item (item_toks i @ ?items) = Ok (i, ?items)" by (rule item)
  ultimately have "parse_body (item_toks i @ ?items) = Ok (s, rest)"
    using more from1 no_where grouped items by (simp add: parse_body_def expect_keyword_def)
  moreover have "eat_keyword w (item_toks i @ ?items) = None" if "w \<in> {''DISTINCT'', ''ALL''}" for w
    using that by (cases i) auto
  moreover have "select_toks s @ rest = TkIdent ''SELECT'' # item_toks i @ ?items" by (simp add: select_toks_def items)
  ultimately show ?thesis by (simp add: parse_select_def)
qed

lemma more_selects_toks:
  "list_all printable_select ss \<Longrightarrow>
   more_selects selects (concat (map (\<lambda>y. TkIdent ''UNION'' # select_toks y) ss)) = Ok (selects @ ss, [])"
proof (induction ss arbitrary: selects)
  case Nil
  show ?case by (subst more_selects.simps) simp
next
  case (Cons s ss)
  let ?rest = "concat (map (\<lambda>y. TkIdent ''UNION'' # select_toks y) ss)"
  have "select_end ?rest" by (cases ss) (auto simp: select_end_def)
  with Cons have "parse_select (select_toks s @ ?rest) = Ok (s, ?rest)" by (intro parse_select_toks) simp_all
  moreover have "eat_keyword ''ALL'' (select_toks s @ ?rest) = None" by (simp add: select_toks_def)
  ultimately show ?case using Cons by (subst more_selects.simps) simp
qed

lemma parse_program_toks: "printable_program p \<Longrightarrow> parse_program (program_toks p) = Ok p"
proof -
  assume "printable_program p"
  then obtain s ss where p: "p = s # ss" and s: "printable_select s" and ss: "list_all printable_select ss"
    by (cases p) (auto simp: printable_program_def)
  let ?rest = "concat (map (\<lambda>y. TkIdent ''UNION'' # select_toks y) ss)"
  have "select_end ?rest" by (cases ss) (auto simp: select_end_def)
  with parse_select_toks [OF s this] more_selects_toks [OF ss, of "[s]"] p
  show ?thesis by (simp add: parse_program_def program_toks_def)
qed

subsection \<open>Printed programs are made of tokens\<close>

lemma list_all_concat_map: "list_all P (concat (map f xs)) \<longleftrightarrow> list_all (\<lambda>x. list_all P (f x)) xs"
  by (induction xs) auto

lemma keyword_ok [simp]:
  "tok_ok (TkIdent ''AS'')" "tok_ok (TkIdent ''COUNT'')" "tok_ok (TkIdent ''SUM'')" "tok_ok (TkIdent ''AND'')"
  "tok_ok (TkIdent ''JOIN'')" "tok_ok (TkIdent ''ON'')" "tok_ok (TkIdent ''FROM'')" "tok_ok (TkIdent ''SELECT'')"
  "tok_ok (TkIdent ''GROUP'')" "tok_ok (TkIdent ''BY'')" "tok_ok (TkIdent ''UNION'')"
  by (simp_all add: ident_char_def is_ascii_alpha_def)

lemma sep_toks_ok: "list_all tok_ok sep \<Longrightarrow> (\<And>x. list_all tok_ok (f x)) \<Longrightarrow> list_all tok_ok (sep_toks sep f xs)"
  by (cases xs) (auto simp: list_all_iff)

lemma ref_toks_ok [simp]: "list_all tok_ok (ref_toks r)"
  by (cases "ar_qualifier r") (simp_all add: ref_toks_def sql_symbols_def)

lemma alias_toks_ok [simp]: "list_all tok_ok (alias_toks a)"
  by (simp add: alias_toks_def del: tok_ok.simps(1))

lemma item_toks_ok [simp]: "list_all tok_ok (item_toks i)"
  by (cases i) (simp_all add: sql_symbols_def del: tok_ok.simps(1))

lemma from_toks_ok [simp]: "list_all tok_ok (from_toks f)"
  by (induction f) (auto simp: cond_toks_def sql_symbols_def intro!: sep_toks_ok simp del: tok_ok.simps(1) split: option.split)

lemma select_toks_ok [simp]: "list_all tok_ok (select_toks s)"
  by (auto simp: select_toks_def sql_symbols_def intro!: sep_toks_ok simp del: tok_ok.simps(1) split: option.split)

lemma program_toks_ok: "list_all tok_ok (program_toks p)"
  by (auto simp: program_toks_def intro!: sep_toks_ok simp del: tok_ok.simps(1))

subsection \<open>What the parser makes is printable\<close>

lemma more_items_nonempty: "more_items items toks = Ok (is1, rest) \<Longrightarrow> items \<noteq> [] \<Longrightarrow> is1 \<noteq> []"
proof (induction items toks rule: more_items.induct)
  case (1 items toks)
  show ?case
  proof (cases "eat_sym '','' toks")
    case None
    with 1(2,3) show ?thesis by (subst (asm) more_items.simps) simp
  next
    case (Some toks1)
    with 1(2) obtain x toks2 where *: "parse_item toks1 = Ok (x, toks2)" "more_items (items @ [x]) toks2 = Ok (is1, rest)"
      by (subst (asm) more_items.simps) (auto simp: rust_simps)
    from 1(1) [OF Some *(1) refl *(2)] show ?thesis by simp
  qed
qed

lemma more_refs_nonempty: "more_refs items toks = Ok (is1, rest) \<Longrightarrow> items \<noteq> [] \<Longrightarrow> is1 \<noteq> []"
proof (induction items toks rule: more_refs.induct)
  case (1 items toks)
  show ?case
  proof (cases "eat_sym '','' toks")
    case None
    with 1(2,3) show ?thesis by (subst (asm) more_refs.simps) simp
  next
    case (Some toks1)
    with 1(2) obtain x toks2 where *: "parse_ref toks1 = Ok (x, toks2)" "more_refs (items @ [x]) toks2 = Ok (is1, rest)"
      by (subst (asm) more_refs.simps) (auto simp: rust_simps)
    from 1(1) [OF Some *(1) refl *(2)] show ?thesis by simp
  qed
qed

lemma more_conds_nonempty: "more_conds items toks = Ok (is1, rest) \<Longrightarrow> items \<noteq> [] \<Longrightarrow> is1 \<noteq> []"
proof (induction items toks rule: more_conds.induct)
  case (1 items toks)
  show ?case
  proof (cases "eat_keyword ''AND'' toks")
    case None
    with 1(2,3) show ?thesis by (subst (asm) more_conds.simps) simp
  next
    case (Some toks1)
    with 1(2) obtain x toks2 where *: "parse_equality toks1 = Ok (x, toks2)" "more_conds (items @ [x]) toks2 = Ok (is1, rest)"
      by (subst (asm) more_conds.simps) (auto simp: rust_simps)
    from 1(1) [OF Some *(1) refl *(2)] show ?thesis by simp
  qed
qed

lemma parse_table_table: "parse_table toks = Ok (f, rest) \<Longrightarrow> \<exists>name al. f = AsTable name al"
  by (auto simp: parse_table_def parse_inv split: if_splits)

lemma parse_join_deep: "parse_join l toks = Ok (f, rest) \<Longrightarrow> left_deep l \<Longrightarrow> left_deep f"
  by (auto simp: parse_join_def parse_on_def parse_inv dest!: parse_table_table more_conds_nonempty)

lemma more_joins_cases:
  assumes "more_joins l toks = Ok (f, rest)"
  obtains "f = l" | toks1 l1 toks2 where "parse_join l toks1 = Ok (l1, toks2)" "more_joins l1 toks2 = Ok (f, rest)" "length toks2 < length toks"
proof (cases "eat_keyword ''INNER'' toks")
  case (Some toks0)
  with assms obtain toks1 l1 toks2 where *: "expect_keyword ''JOIN'' toks0 = Ok toks1" "parse_join l toks1 = Ok (l1, toks2)" "more_joins l1 toks2 = Ok (f, rest)"
    by (subst (asm) more_joins.simps) (auto simp: rust_simps)
  with Some eat_keyword_length [OF Some] expect_keyword_length [OF *(1)] parse_join_length [OF *(2)] that(2) show ?thesis by simp
next
  case None
  show ?thesis
  proof (cases "eat_keyword ''JOIN'' toks")
    case (Some toks1)
    with None assms obtain l1 toks2 where *: "parse_join l toks1 = Ok (l1, toks2)" "more_joins l1 toks2 = Ok (f, rest)"
      by (subst (asm) more_joins.simps) (auto simp: rust_simps)
    with eat_keyword_length [OF Some] parse_join_length [OF *(1)] that(2) show ?thesis by simp
  next
    case none: None
    with None assms that(1) show ?thesis by (subst (asm) more_joins.simps) (auto split: if_splits)
  qed
qed

lemma more_joins_deep: "more_joins l toks = Ok (f, rest) \<Longrightarrow> left_deep l \<Longrightarrow> left_deep f"
proof (induction "length toks" arbitrary: l toks rule: less_induct)
  case less
  from less.prems(1) show ?case
  proof (cases rule: more_joins_cases)
    case (2 toks1 l1 toks2)
    from less.hyps [OF 2(3,2)] parse_join_deep [OF 2(1)] less.prems(2) show ?thesis by blast
  qed (use less.prems in simp)
qed

lemma parse_select_printable: "parse_select toks = Ok (s, rest) \<Longrightarrow> printable_select s"
  by (auto simp: parse_select_def parse_body_def parse_from_def parse_group_def parse_inv printable_select_def
      dest!: more_items_nonempty more_refs_nonempty more_joins_deep dest: parse_table_table)

lemma more_selects_printable:
  "more_selects selects toks = Ok (ss, rest) \<Longrightarrow> list_all printable_select selects \<Longrightarrow> list_all printable_select ss \<and> length selects \<le> length ss"
proof (induction "length toks" arbitrary: selects toks rule: less_induct)
  case less
  show ?case
  proof (cases "eat_keyword ''UNION'' toks")
    case None
    with less.prems show ?thesis by (subst (asm) more_selects.simps) auto
  next
    case (Some toks1)
    with less.prems(1) obtain s toks2 where *: "parse_select toks1 = Ok (s, toks2)" "more_selects (selects @ [s]) toks2 = Ok (ss, rest)"
      by (subst (asm) more_selects.simps) (auto simp: rust_simps split: if_splits)
    have "length toks2 < length toks" using eat_keyword_length [OF Some] parse_select_length [OF *(1)] by simp
    with less.hyps [OF _ *(2)] less.prems(2) parse_select_printable [OF *(1)] show ?thesis by simp
  qed
qed

lemma parse_sql_printable: "parse_sql sql = Ok p \<Longrightarrow> printable_program p"
  by (auto simp: parse_sql_def parse_program_def parse_inv printable_program_def
      dest!: more_selects_printable parse_select_printable split: if_splits)

lemma parse_sql_show: "printable_program p \<Longrightarrow> parse_sql (show_sql p) = Ok p"
  using lex_loop_show [OF program_toks_ok, of "[]" p] parse_program_toks [of p]
  by (simp add: parse_sql_def lex_def show_sql_def)

text \<open>
  C23: The SQL programs the parser produces from some text are exactly the ones with a non-empty list of
  selects, each with items, joins nested to the left over tables with conditions, and no empty GROUP BY;
  and each of them is read back unchanged from its printed form, whatever bytes its names hold.
\<close>

theorem parse_sql_roundtrip:
  "(parse_sql (show_sql p) = Ok p) = printable_program p \<and> printable_program p = (\<exists>sql. parse_sql sql = Ok p)"
  using parse_sql_show parse_sql_printable by blast

end
