(* ===== verification/Sql_Plan.thy ===== *)
theory Sql_Plan
  imports Sql_Parse Ir_Typing
begin

text \<open>
  From syntax trees to plans and from plans to programs (\<open>crates/ivm-sqlite/src/plan.rs\<close>). The record
  \<open>plan_compiler\<close> is \<open>struct Compiler\<close>; its methods return it changed, beside their value. The schema, a
  closure over the database, is a function from table names. An \<open>OutputColumn\<close> has one field, its name,
  and is that name. The typed plan of \<open>Root::Nodes\<close> is a type parameter. Casts to \<open>u32\<close> are exact here.
\<close>

subsection \<open>Plans\<close>

type_synonym sql_schema = "string \<Rightarrow> string list option"

datatype branch_ref = BrScan nat "nat list" | BrJoin nat

record take_name =
  tn_take :: nat
  tn_name :: string

record extreme_of =
  xo_take :: nat
  xo_name :: string
  xo_max :: bool

datatype 'n plan_root =
    RtNodes 'n
  | RtUnion "branch_ref list"
  | RtGroup nat "take_name list" "take_name list" "extreme_of list"

record scan_spec =
  ss_table :: string
  ss_columns :: "string list"
  ss_needed :: "string list"
  ss_stage :: string

record join_spec =
  js_left :: nat
  js_right :: nat
  js_left_key :: "string list"
  js_right_key :: "string list"
  js_left_proj :: "nat list"
  js_right_proj :: "nat list"
  js_out_names :: "string list"
  js_delta :: string

record anti_spec =
  as_left :: nat
  as_right :: nat
  as_left_key :: "string list"
  as_right_key :: "string list"
  as_filters :: "string list"
  as_delta :: string

record topk_spec =
  ts_scan :: nat
  ts_key :: "string list"
  ts_order :: "order_by list"
  ts_limit :: nat
  ts_delta :: string

record 'n compiled =
  cd_root :: "'n plan_root"
  cd_scans :: "scan_spec list"
  cd_joins :: "join_spec list"
  cd_antis :: "anti_spec list"
  cd_topks :: "topk_spec list"
  cd_output :: "string list"
  cd_sources :: "string list"
  cd_stage_width :: nat

record plan_compiler =
  pc_program :: string
  pc_schema :: sql_schema
  pc_scans :: "scan_spec list"
  pc_joins :: "join_spec list"
  pc_sources :: "string list"

record scan_ref =
  sr_scan :: nat
  sr_alias :: string

datatype plan_branch = PbTable scan_ref | PbJoin nat

datatype plan_side = OnLeft string | OnRight string

fun position_of :: "('a \<Rightarrow> bool) \<Rightarrow> 'a list \<Rightarrow> nat option" where
  "position_of p [] = None"
| "position_of p (x # xs) = (if p x then Some 0 else map_option Suc (position_of p xs))"

definition expect_some :: "'a option \<Rightarrow> ('e, 'a) rust" where
  "expect_some x = (case x of Some a \<Rightarrow> Ok a | None \<Rightarrow> Panic)"

subsection \<open>Tables and columns\<close>

definition item_name :: "ast_item \<Rightarrow> string" where
  "item_name item = (case item of
     AsCol r alias \<Rightarrow> if alias = [] then ar_name r else alias
   | AsCount alias \<Rightarrow> alias
   | AsSum r alias \<Rightarrow> alias)"

definition item_names :: "ast_select \<Rightarrow> string list" where
  "item_names s = map item_name (sel_items s)"

definition plan_scan :: "string \<Rightarrow> string option \<Rightarrow> plan_compiler \<Rightarrow> (scan_ref \<times> plan_compiler) sql" where
  "plan_scan name alias c =
     (let c1 = (if name \<in> set (pc_sources c) then c else c\<lparr>pc_sources := pc_sources c @ [name]\<rparr>)
      in case pc_schema c1 name of
           None \<Rightarrow> Err (sql_error_new SqPlan name (SqUnknownRelation name))
         | Some columns \<Rightarrow>
             Ok (\<lparr>sr_scan = length (pc_scans c1), sr_alias = (case alias of Some a \<Rightarrow> a | None \<Rightarrow> name)\<rparr>,
                 c1\<lparr>pc_scans := pc_scans c1 @ [\<lparr>ss_table = name, ss_columns = columns, ss_needed = [], ss_stage = []\<rparr>]\<rparr>))"

definition join_side :: "ast_from \<Rightarrow> plan_compiler \<Rightarrow> (scan_ref \<times> plan_compiler) sql" where
  "join_side side c = (case side of
     AsTable name alias \<Rightarrow> plan_scan name alias c
   | AsJoin _ _ _ \<Rightarrow> Err (sql_unsupported SqPlan (pc_program c) ''a join input must be a source table''))"

text \<open>
  The end of \<open>need_column\<close> and \<open>resolve_into\<close>: the position of a column in the needed ones, added when
  it is one of the table's, and the error of each when it is not.
\<close>

definition add_needed :: "nat \<Rightarrow> string \<Rightarrow> string \<Rightarrow> plan_compiler \<Rightarrow> (nat \<times> plan_compiler) sql" where
  "add_needed scan column unknown c = rust_bind (vec_index (pc_scans c) scan) (\<lambda>spec.
     case position_of (\<lambda>x. x = column) (ss_needed spec) of
       Some pos \<Rightarrow> Ok (pos, c)
     | None \<Rightarrow>
         if column \<notin> set (ss_columns spec) then Err (sql_error_new SqPlan (ss_table spec) (SqUnknownColumn unknown))
         else Ok (length (ss_needed spec), c\<lparr>pc_scans := (pc_scans c)[scan := spec\<lparr>ss_needed := ss_needed spec @ [column]\<rparr>]\<rparr>))"

definition need_column :: "nat \<Rightarrow> string \<Rightarrow> plan_compiler \<Rightarrow> (nat \<times> plan_compiler) sql" where
  "need_column scan column c = add_needed scan column column c"

definition column_of :: "nat \<Rightarrow> string \<Rightarrow> ast_ref \<Rightarrow> plan_compiler \<Rightarrow> string sql" where
  "column_of scan alias r c = (case ar_qualifier r of
     Some q \<Rightarrow> rust_bind (vec_index (pc_scans c) scan) (\<lambda>spec.
       if \<not> eq_ignore_case q (ss_table spec) \<and> \<not> eq_ignore_case q alias
       then Err (sql_error_new SqPlan (ss_table spec) (SqUnknownRelation q))
       else Ok (ar_name r))
   | None \<Rightarrow> Ok (ar_name r))"

definition resolve_into :: "nat \<Rightarrow> string \<Rightarrow> ast_ref \<Rightarrow> plan_compiler \<Rightarrow> (nat \<times> plan_compiler) sql" where
  "resolve_into scan alias r c = rust_bind (column_of scan alias r c) (\<lambda>column.
     add_needed scan column (case ar_qualifier r of Some q \<Rightarrow> q @ ''.'' @ ar_name r | None \<Rightarrow> ar_name r) c)"

definition locate :: "scan_ref \<Rightarrow> scan_ref \<Rightarrow> ast_ref \<Rightarrow> plan_compiler \<Rightarrow> plan_side sql" where
  "locate l r a c = rust_bind (vec_index (pc_scans c) (sr_scan l)) (\<lambda>lspec. rust_bind (vec_index (pc_scans c) (sr_scan r)) (\<lambda>rspec.
     case ar_qualifier a of
       Some q \<Rightarrow>
         if eq_ignore_case q (sr_alias l) \<or> eq_ignore_case q (ss_table lspec) then Ok (OnLeft (ar_name a))
         else if eq_ignore_case q (sr_alias r) \<or> eq_ignore_case q (ss_table rspec) then Ok (OnRight (ar_name a))
         else Err (sql_error_new SqPlan (pc_program c) (SqUnknownRelation q))
     | None \<Rightarrow>
         (case (ar_name a \<in> set (ss_columns lspec), ar_name a \<in> set (ss_columns rspec)) of
            (True, False) \<Rightarrow> Ok (OnLeft (ar_name a))
          | (False, True) \<Rightarrow> Ok (OnRight (ar_name a))
          | _ \<Rightarrow> Err (sql_error_new SqPlan (pc_program c) (SqUnknownColumn (ar_name a))))))"

fun join_conds :: "scan_ref \<Rightarrow> scan_ref \<Rightarrow> (ast_ref \<times> ast_ref) list \<Rightarrow> string list \<Rightarrow> string list \<Rightarrow> plan_compiler \<Rightarrow>
    (string list \<times> string list \<times> plan_compiler) sql" where
  "join_conds l r [] left_key right_key c = Ok (left_key, right_key, c)"
| "join_conds l r ((a, b) # conds) left_key right_key c =
     rust_bind (locate l r a c) (\<lambda>a_side. rust_bind (locate l r b c) (\<lambda>b_side.
     rust_bind (case (a_side, b_side) of
         (OnLeft x, OnRight y) \<Rightarrow> Ok (x, y)
       | (OnRight y, OnLeft x) \<Rightarrow> Ok (x, y)
       | _ \<Rightarrow> Err (sql_unsupported SqPlan (pc_program c) ''join conditions must pair one column from each side''))
     (\<lambda>(lk, rk). rust_bind (need_column (sr_scan l) lk c) (\<lambda>(_, c1). rust_bind (need_column (sr_scan r) rk c1) (\<lambda>(_, c2).
       join_conds l r conds (left_key @ [lk]) (right_key @ [rk]) c2)))))"

definition plan_from :: "ast_from \<Rightarrow> plan_compiler \<Rightarrow> (plan_branch \<times> plan_compiler) sql" where
  "plan_from from1 c = (case from1 of
     AsTable name alias \<Rightarrow> rust_bind (plan_scan name alias c) (\<lambda>(t, c1). Ok (PbTable t, c1))
   | AsJoin left right conds \<Rightarrow>
       rust_bind (join_side left c) (\<lambda>(l, c1). rust_bind (join_side right c1) (\<lambda>(r, c2).
       rust_bind (join_conds l r conds [] [] c2) (\<lambda>(left_key, right_key, c3).
         if left_key = [] then Err (sql_unsupported SqPlan (pc_program c3) ''joins need at least one equi-join condition'')
         else Ok (PbJoin (length (pc_joins c3)),
           c3\<lparr>pc_joins := pc_joins c3 @ [\<lparr>js_left = sr_scan l, js_right = sr_scan r, js_left_key = left_key, js_right_key = right_key,
             js_left_proj = [], js_right_proj = [], js_out_names = [], js_delta = []\<rparr>]\<rparr>)))))"

subsection \<open>Branches\<close>

text \<open>The side of a join that a select item is on: \<open>True\<close> is the left one.\<close>

definition item_side :: "scan_spec \<Rightarrow> scan_spec \<Rightarrow> string \<Rightarrow> string \<Rightarrow> ast_ref \<Rightarrow> string \<Rightarrow> bool sql" where
  "item_side lspec rspec l_alias r_alias r program = (case ar_qualifier r of
     Some q \<Rightarrow>
       if eq_ignore_case q (ss_table lspec) \<or> eq_ignore_case q l_alias then Ok True
       else if eq_ignore_case q (ss_table rspec) \<or> eq_ignore_case q r_alias then Ok False
       else Err (sql_error_new SqPlan program (SqUnknownRelation q))
   | None \<Rightarrow>
       (case (ar_name r \<in> set (ss_columns lspec), ar_name r \<in> set (ss_columns rspec)) of
          (True, False) \<Rightarrow> Ok True
        | (False, True) \<Rightarrow> Ok False
        | (True, True) \<Rightarrow> Err (sql_unsupported SqPlan program
            ''an unqualified join select item is ambiguous; qualify it with each side's table or alias'')
        | (False, False) \<Rightarrow> Err (sql_error_new SqPlan program (SqUnknownColumn (ar_name r)))))"

definition project_into_join :: "nat \<Rightarrow> string \<Rightarrow> string \<Rightarrow> ast_ref \<Rightarrow> plan_compiler \<Rightarrow> plan_compiler sql" where
  "project_into_join j l_alias r_alias r c = rust_bind (vec_index (pc_joins c) j) (\<lambda>join.
     rust_bind (vec_index (pc_scans c) (js_left join)) (\<lambda>lspec. rust_bind (vec_index (pc_scans c) (js_right join)) (\<lambda>rspec.
     rust_bind (item_side lspec rspec l_alias r_alias r (pc_program c)) (\<lambda>on_left.
       if on_left
       then rust_bind (resolve_into (js_left join) l_alias r c) (\<lambda>(take1, c1).
         Ok (c1\<lparr>pc_joins := (pc_joins c1)[j := join\<lparr>js_left_proj := js_left_proj join @ [take1]\<rparr>]\<rparr>))
       else rust_bind (resolve_into (js_right join) r_alias r c) (\<lambda>(take1, c1).
         Ok (c1\<lparr>pc_joins := (pc_joins c1)[j := join\<lparr>js_right_proj := js_right_proj join @ [take1]\<rparr>]\<rparr>))))))"

definition no_aggregate :: "string \<Rightarrow> sql_error" where
  "no_aggregate program = sql_unsupported SqPlan program ''aggregates are only valid under GROUP BY''"

fun scan_items :: "scan_ref \<Rightarrow> ast_item list \<Rightarrow> nat list \<Rightarrow> plan_compiler \<Rightarrow> (nat list \<times> plan_compiler) sql" where
  "scan_items t [] takes c = Ok (takes, c)"
| "scan_items t (AsCol r _ # items) takes c =
     rust_bind (resolve_into (sr_scan t) (sr_alias t) r c) (\<lambda>(take1, c1). scan_items t items (takes @ [take1]) c1)"
| "scan_items t (_ # items) takes c = Err (no_aggregate (pc_program c))"

fun join_items :: "nat \<Rightarrow> string \<Rightarrow> string \<Rightarrow> ast_item list \<Rightarrow> plan_compiler \<Rightarrow> plan_compiler sql" where
  "join_items j l_alias r_alias [] c = Ok c"
| "join_items j l_alias r_alias (AsCol r _ # items) c =
     rust_bind (project_into_join j l_alias r_alias r c) (join_items j l_alias r_alias items)"
| "join_items j l_alias r_alias (_ # items) c = Err (no_aggregate (pc_program c))"

fun table_alias :: "ast_from \<Rightarrow> string sql" where
  "table_alias (AsTable name alias) = Ok (case alias of Some a \<Rightarrow> a | None \<Rightarrow> name)"
| "table_alias (AsJoin _ _ _) = Panic"

definition plan_branch_of :: "ast_select \<Rightarrow> plan_compiler \<Rightarrow> (branch_ref \<times> plan_compiler) sql" where
  "plan_branch_of s c = rust_bind (plan_from (sel_from s) c) (\<lambda>(b, c1).
     case b of
       PbTable t \<Rightarrow> rust_bind (scan_items t (sel_items s) [] c1) (\<lambda>(takes, c2). Ok (BrScan (sr_scan t) takes, c2))
     | PbJoin j \<Rightarrow>
         (case sel_from s of
            AsTable _ _ \<Rightarrow> Panic
          | AsJoin left right _ \<Rightarrow>
              rust_bind (table_alias left) (\<lambda>l_alias. rust_bind (table_alias right) (\<lambda>r_alias.
              rust_bind (join_items j l_alias r_alias (sel_items s) c1) (\<lambda>c2. rust_bind (vec_index (pc_joins c2) j) (\<lambda>join.
                Ok (BrJoin j, c2\<lparr>pc_joins := (pc_joins c2)[j := join\<lparr>js_out_names := item_names s\<rparr>]\<rparr>)))))))"

subsection \<open>Programs\<close>

definition plan_start :: "string \<Rightarrow> sql_schema \<Rightarrow> plan_compiler" where
  "plan_start program schema = \<lparr>pc_program = program, pc_schema = schema, pc_scans = [], pc_joins = [], pc_sources = []\<rparr>"

definition finish :: "plan_compiler \<Rightarrow> 'n plan_root \<Rightarrow> string list \<Rightarrow> 'n compiled sql" where
  "finish c plan_top output = (case find (\<lambda>scan. ss_needed scan = []) (pc_scans c) of
     Some scan \<Rightarrow> Err (sql_unsupported SqPlan (ss_table scan) ''a branch must select at least one column'')
   | None \<Rightarrow>
       Ok \<lparr>cd_root = plan_top, cd_scans = pc_scans c, cd_joins = pc_joins c, cd_antis = [], cd_topks = [], cd_output = output,
           cd_sources = pc_sources c,
           cd_stage_width = fold max (List.map_filter (\<lambda>t. map_option length (pc_schema c t)) (pc_sources c)) 0\<rparr>)"

fun union_branches :: "string \<Rightarrow> string list \<Rightarrow> ast_select list \<Rightarrow> branch_ref list \<Rightarrow> plan_compiler \<Rightarrow> (branch_ref list \<times> plan_compiler) sql" where
  "union_branches program output [] refs c = Ok (refs, c)"
| "union_branches program output (s # branches) refs c =
     (if sel_group s \<noteq> None then Err (sql_unsupported SqPlan program ''GROUP BY under UNION is not a supported shape'')
      else if item_names s \<noteq> output
      then Err (sql_unsupported SqPlan program ''UNION branches must select the same columns in the same order'')
      else rust_bind (plan_branch_of s c) (\<lambda>(b, c1). union_branches program output branches (refs @ [b]) c1))"

definition compile_union :: "string \<Rightarrow> ast_select list \<Rightarrow> sql_schema \<Rightarrow> 'n compiled sql" where
  "compile_union program branches schema = rust_bind (vec_index branches 0) (\<lambda>first.
     let output = item_names first
     in rust_bind (union_branches program output branches [] (plan_start program schema)) (\<lambda>(refs, c).
          finish c (RtUnion refs) output))"

fun plan_keys :: "scan_ref \<Rightarrow> ast_ref list \<Rightarrow> take_name list \<Rightarrow> plan_compiler \<Rightarrow> (take_name list \<times> plan_compiler) sql" where
  "plan_keys t [] keys c = Ok (keys, c)"
| "plan_keys t (r # refs) keys c = rust_bind (resolve_into (sr_scan t) (sr_alias t) r c) (\<lambda>(take1, c1).
     rust_bind (vec_index (pc_scans c1) (sr_scan t)) (\<lambda>spec. rust_bind (vec_index (ss_needed spec) take1) (\<lambda>name.
       plan_keys t refs (keys @ [\<lparr>tn_take = take1, tn_name = name\<rparr>]) c1)))"

text \<open>Whether a key of a group is the column \<open>name\<close>, reading the needed columns of the scan.\<close>

fun key_named :: "scan_ref \<Rightarrow> take_name list \<Rightarrow> string \<Rightarrow> plan_compiler \<Rightarrow> bool sql" where
  "key_named t [] name c = Ok False"
| "key_named t (k # keys) name c = rust_bind (vec_index (pc_scans c) (sr_scan t)) (\<lambda>spec.
     rust_bind (vec_index (ss_needed spec) (tn_take k)) (\<lambda>needed. if needed = name then Ok True else key_named t keys name c))"

fun group_items :: "scan_ref \<Rightarrow> take_name list \<Rightarrow> ast_item list \<Rightarrow> take_name list \<Rightarrow> string list \<Rightarrow> plan_compiler \<Rightarrow>
    (take_name list \<times> string list \<times> plan_compiler) sql" where
  "group_items t keys [] sums1 output c = Ok (sums1, output, c)"
| "group_items t keys (AsCol r _ # items) sums1 output c = rust_bind (key_named t keys (ar_name r) c) (\<lambda>found.
     if \<not> found then Err (sql_unsupported SqPlan (pc_program c) ''a plain select item must be a GROUP BY key'')
     else group_items t keys items sums1 output c)"
| "group_items t keys (AsCount alias # items) sums1 output c = group_items t keys items sums1 (output @ [alias]) c"
| "group_items t keys (AsSum r alias # items) sums1 output c =
     rust_bind (resolve_into (sr_scan t) (sr_alias t) r c) (\<lambda>(take1, c1).
       group_items t keys items (sums1 @ [\<lparr>tn_take = take1, tn_name = alias\<rparr>]) (output @ [alias]) c1)"

definition compile_group :: "string \<Rightarrow> ast_select \<Rightarrow> sql_schema \<Rightarrow> 'n compiled sql" where
  "compile_group program s schema = (case sel_group s of
     None \<Rightarrow> Panic
   | Some refs \<Rightarrow> rust_bind (plan_from (sel_from s) (plan_start program schema)) (\<lambda>(b, c1).
       case b of
         PbJoin _ \<Rightarrow> Err (sql_unsupported SqPlan program ''GROUP BY over a join is not a supported shape'')
       | PbTable t \<Rightarrow> rust_bind (plan_keys t refs [] c1) (\<lambda>(keys, c2).
           rust_bind (group_items t keys (sel_items s) [] (map tn_name keys) c2) (\<lambda>(sums1, output, c3).
             finish c3 (RtGroup (sr_scan t) keys sums1 []) output))))"

definition compile_branches :: "string \<Rightarrow> ast_select list \<Rightarrow> sql_schema \<Rightarrow> 'n compiled sql" where
  "compile_branches program branches schema = (case branches of
     [s] \<Rightarrow> if sel_group s \<noteq> None then compile_group program s schema else compile_union program branches schema
   | _ \<Rightarrow> compile_union program branches schema)"

definition compile_sql :: "string \<Rightarrow> string \<Rightarrow> sql_schema \<Rightarrow> 'n compiled sql" where
  "compile_sql program sql schema = rust_bind (lex sql) (\<lambda>toks. rust_bind (parse_program toks) (\<lambda>branches.
     compile_branches program branches schema))"

subsection \<open>Lowering to the program representation\<close>

text \<open>The relations of the sources, numbered from \<open>n\<close>.\<close>

fun source_rels :: "scan_spec list \<Rightarrow> (string \<Rightarrow> ty list option) \<Rightarrow> nat \<Rightarrow> string list \<Rightarrow> ir_relation list sql" where
  "source_rels scans source_types n [] = Ok []"
| "source_rels scans source_types n (name # sources) =
     rust_bind (expect_some (find (\<lambda>scan. ss_table scan = name) scans)) (\<lambda>columns.
     rust_bind (case source_types name of
         Some types \<Rightarrow> if length types = length (ss_columns columns) then Ok types
                       else Err (sql_unsupported SqPlan name ''source type schema missing'')
       | None \<Rightarrow> Err (sql_unsupported SqPlan name ''source type schema missing''))
     (\<lambda>types. rust_bind (source_rels scans source_types (Suc n) sources) (\<lambda>rels.
       Ok (\<lparr>ir_id = n, ir_name = name, ir_cols = types, ir_kind = KSource\<rparr> # rels))))"

fun lower_scans :: "string list \<Rightarrow> scan_spec list \<Rightarrow> ir_op list \<Rightarrow> nat list \<Rightarrow> (ir_op list \<times> nat list) sql" where
  "lower_scans sources [] nodes scan_nodes = Ok (nodes, scan_nodes)"
| "lower_scans sources (scan # scans) nodes scan_nodes =
     rust_bind (expect_some (position_of (\<lambda>name. name = ss_table scan) sources)) (\<lambda>source.
     rust_bind (map_rust (\<lambda>name. expect_some (position_of (\<lambda>column. column = name) (ss_columns scan))) (ss_needed scan)) (\<lambda>project.
       lower_scans sources scans (nodes @ [OGet source, OMfp (length nodes) [] [] project]) (scan_nodes @ [Suc (length nodes)])))"

fun lower_equivalences :: "scan_spec \<Rightarrow> scan_spec \<Rightarrow> (string \<times> string) list \<Rightarrow> (nat \<times> nat) list list sql" where
  "lower_equivalences left right [] = Ok []"
| "lower_equivalences left right ((l, r) # keys) =
     rust_bind (expect_some (position_of (\<lambda>name. name = l) (ss_needed left))) (\<lambda>i.
     rust_bind (expect_some (position_of (\<lambda>name. name = r) (ss_needed right))) (\<lambda>k.
     rust_bind (lower_equivalences left right keys) (\<lambda>rest. Ok ([(0, i), (1, k)] # rest))))"

text \<open>The input and projection of a branch, after its join node if it has one.\<close>

definition lower_branch :: "'n compiled \<Rightarrow> nat list \<Rightarrow> branch_ref \<Rightarrow> ir_op list \<Rightarrow> (nat \<times> nat list \<times> ir_op list) sql" where
  "lower_branch plan scan_nodes b nodes = (case b of
     BrScan scan takes \<Rightarrow> rust_bind (vec_index scan_nodes scan) (\<lambda>input. Ok (input, takes, nodes))
   | BrJoin j \<Rightarrow>
       rust_bind (vec_index (cd_joins plan) j) (\<lambda>join.
       rust_bind (vec_index (cd_scans plan) (js_left join)) (\<lambda>left. rust_bind (vec_index (cd_scans plan) (js_right join)) (\<lambda>right.
       rust_bind (lower_equivalences left right (zip (js_left_key join) (js_right_key join))) (\<lambda>equivalences.
       rust_bind (vec_index scan_nodes (js_left join)) (\<lambda>l. rust_bind (vec_index scan_nodes (js_right join)) (\<lambda>r.
         Ok (length nodes, js_left_proj join @ map (\<lambda>i. length (ss_needed left) + i) (js_right_proj join),
             nodes @ [OJoin [l, r] equivalences []]))))))))"

fun lower_branches :: "'n compiled \<Rightarrow> nat list \<Rightarrow> branch_ref list \<Rightarrow> ir_op list \<Rightarrow> nat list \<Rightarrow> (ir_op list \<times> nat list) sql" where
  "lower_branches plan scan_nodes [] nodes branch_nodes = Ok (nodes, branch_nodes)"
| "lower_branches plan scan_nodes (b # branches) nodes branch_nodes =
     rust_bind (lower_branch plan scan_nodes b nodes) (\<lambda>(input, project, nodes1).
       lower_branches plan scan_nodes branches (nodes1 @ [OMfp input [] [] project]) (branch_nodes @ [length nodes1]))"

definition lower_root :: "'n compiled \<Rightarrow> nat list \<Rightarrow> ir_op list \<Rightarrow> ir_op list sql" where
  "lower_root plan scan_nodes nodes = (case cd_root plan of
     RtNodes _ \<Rightarrow> Err (sql_unsupported SqPlan [] ''typed node plan already has IR'')
   | RtUnion branches \<Rightarrow> rust_bind (lower_branches plan scan_nodes branches nodes []) (\<lambda>(nodes1, branch_nodes).
       Ok (nodes1 @ [OUnion branch_nodes]))
   | RtGroup scan keys sums1 extremes \<Rightarrow>
       if extremes \<noteq> [] then Err (sql_unsupported SqPlan [] ''SQL lowering cannot reconstruct Min/Max'')
       else rust_bind (vec_index scan_nodes scan) (\<lambda>input.
         Ok (nodes @ [OReduce input (map tn_take keys) (ACount # map (\<lambda>s. ASum (tn_take s)) sums1)])))"

text \<open>The body of the program is its last node.\<close>

definition lower_ir :: "'n compiled \<Rightarrow> (string \<Rightarrow> ty list option) \<Rightarrow> ir_program sql" where
  "lower_ir plan source_types =
     rust_bind (source_rels (cd_scans plan) source_types 0 (cd_sources plan)) (\<lambda>rels.
     rust_bind (lower_scans (cd_sources plan) (cd_scans plan) [] []) (\<lambda>(nodes, scan_nodes).
     rust_bind (lower_root plan scan_nodes nodes) (\<lambda>nodes1.
       let output_id = length rels; body = length nodes1 - 1;
           output = \<lparr>ir_id = output_id, ir_name = [], ir_cols = [], ir_kind = KDerived\<rparr>;
           program = \<lparr>pr_texts = [], pr_terms = [], pr_rels = rels @ [output], pr_nodes = nodes1,
                      pr_strata = [SLet output_id body], pr_outputs = [output_id]\<rparr>
       in case node_types program body of
            None \<Rightarrow> Err (sql_unsupported SqPlan [] ''output types unavailable'')
          | Some types \<Rightarrow> Ok (program\<lparr>pr_rels := rels @ [output\<lparr>ir_cols := types\<rparr>]\<rparr>))))"

end
