(* ===== verification/Sql_Plan_Laws.thy ===== *)
theory Sql_Plan_Laws
  imports Sql_Plan
begin

text \<open>
  What compiling a branch records. Scans keep their table and columns, and the columns needed of them are
  only appended to, so a position recorded once names the same column in the finished plan.
\<close>

subsection \<open>Well-formed and growing plans\<close>

definition scan_wf :: "plan_compiler \<Rightarrow> scan_spec \<Rightarrow> bool" where
  "scan_wf c scan \<longleftrightarrow> pc_schema c (ss_table scan) = Some (ss_columns scan) \<and> set (ss_needed scan) \<subseteq> set (ss_columns scan) \<and>
     ss_table scan \<in> set (pc_sources c)"

definition plan_wf :: "plan_compiler \<Rightarrow> bool" where
  "plan_wf c \<longleftrightarrow> list_all (scan_wf c) (pc_scans c) \<and> distinct (pc_sources c) \<and> set (pc_sources c) \<subseteq> ss_table ` set (pc_scans c)"

definition scan_grown :: "scan_spec \<Rightarrow> scan_spec \<Rightarrow> bool" where
  "scan_grown s s1 \<longleftrightarrow> ss_table s1 = ss_table s \<and> ss_columns s1 = ss_columns s \<and> (\<exists>more. ss_needed s1 = ss_needed s @ more)"

definition plan_grown :: "plan_compiler \<Rightarrow> plan_compiler \<Rightarrow> bool" where
  "plan_grown c c1 \<longleftrightarrow> pc_program c1 = pc_program c \<and> pc_schema c1 = pc_schema c \<and> length (pc_scans c) \<le> length (pc_scans c1) \<and>
     (\<forall>k < length (pc_scans c). scan_grown (pc_scans c ! k) (pc_scans c1 ! k))"

text \<open>Position \<open>i\<close> of what scan \<open>k\<close> needs is the column \<open>name\<close>.\<close>

definition taken :: "scan_spec list \<Rightarrow> nat \<Rightarrow> nat \<Rightarrow> string \<Rightarrow> bool" where
  "taken scans k i name \<longleftrightarrow> k < length scans \<and> i < length (ss_needed (scans ! k)) \<and> ss_needed (scans ! k) ! i = name"

lemma scan_grown_refl [simp]: "scan_grown s s"
  by (simp add: scan_grown_def)

lemma scan_grown_trans: "scan_grown s s1 \<Longrightarrow> scan_grown s1 s2 \<Longrightarrow> scan_grown s s2"
  by (auto simp: scan_grown_def)

lemma plan_grown_refl [simp]: "plan_grown c c"
  by (simp add: plan_grown_def)

lemma plan_grown_trans: "plan_grown c c1 \<Longrightarrow> plan_grown c1 c2 \<Longrightarrow> plan_grown c c2"
  unfolding plan_grown_def by (auto intro: scan_grown_trans)

lemma scan_wf_joins [simp]: "scan_wf (c\<lparr>pc_joins := js\<rparr>) = scan_wf c" "scan_wf (c\<lparr>pc_scans := ss\<rparr>) = scan_wf c"
  by (simp_all add: fun_eq_iff scan_wf_def)

lemma plan_grown_joins [simp]: "plan_grown c (c1\<lparr>pc_joins := js\<rparr>) = plan_grown c c1" "plan_wf (c1\<lparr>pc_joins := js\<rparr>) = plan_wf c1"
  by (simp_all add: plan_grown_def plan_wf_def)

lemma taken_grown: "taken (pc_scans c) k i name \<Longrightarrow> plan_grown c c1 \<Longrightarrow> taken (pc_scans c1) k i name"
  unfolding taken_def plan_grown_def scan_grown_def by (force simp: nth_append)

lemma takes_grown:
  "list_all2 (\<lambda>i r. taken (pc_scans c) k i (f r)) takes refs \<Longrightarrow> plan_grown c c1 \<Longrightarrow>
   list_all2 (\<lambda>i r. taken (pc_scans c1) k i (f r)) takes refs"
  by (auto elim!: list.rel_mono_strong intro: taken_grown)

lemma grown_scan:
  "plan_grown c c1 \<Longrightarrow> k < length (pc_scans c) \<Longrightarrow>
   k < length (pc_scans c1) \<and> ss_table (pc_scans c1 ! k) = ss_table (pc_scans c ! k) \<and> ss_columns (pc_scans c1 ! k) = ss_columns (pc_scans c ! k)"
  by (auto simp: plan_grown_def scan_grown_def)

lemma taken_column:
  "taken (pc_scans c) k i name \<Longrightarrow> plan_wf c \<Longrightarrow> name \<in> set (ss_columns (pc_scans c ! k))"
  using nth_mem by (fastforce simp: taken_def plan_wf_def scan_wf_def list_all_length)

lemma position_of_SomeD: "position_of p xs = Some i \<Longrightarrow> i < length xs \<and> p (xs ! i)"
  by (induction xs arbitrary: i) (auto split: if_splits)

lemma position_of_eq_None: "position_of p xs = None \<longleftrightarrow> (\<forall>x \<in> set xs. \<not> p x)"
  by (induction xs) auto

lemma position_of_member: "x \<in> set xs \<Longrightarrow> \<exists>i. position_of (\<lambda>y. y = x) xs = Some i \<and> i < length xs \<and> xs ! i = x"
proof -
  assume "x \<in> set xs"
  then obtain i where i: "position_of (\<lambda>y. y = x) xs = Some i" using position_of_eq_None by (metis (full_types) option.exhaust)
  with position_of_SomeD [OF i] show ?thesis by simp
qed

subsection \<open>Scans and columns\<close>

lemma plan_scan_ok:
  assumes "plan_scan name al c = Ok (t, c1)" "plan_wf c"
  shows "plan_wf c1 \<and> plan_grown c c1 \<and> pc_joins c1 = pc_joins c \<and> sr_scan t = length (pc_scans c) \<and>
    length (pc_scans c1) = Suc (length (pc_scans c)) \<and> ss_table (pc_scans c1 ! sr_scan t) = name \<and>
    sr_alias t = (case al of Some a \<Rightarrow> a | None \<Rightarrow> name)"
proof -
  from assms(1) obtain columns where col: "pc_schema c name = Some columns"
    by (auto simp: plan_scan_def Let_def split: option.splits if_splits)
  let ?new = "\<lparr>ss_table = name, ss_columns = columns, ss_needed = [], ss_stage = []\<rparr>"
  have c1: "c1 = c\<lparr>pc_sources := (if name \<in> set (pc_sources c) then pc_sources c else pc_sources c @ [name]), pc_scans := pc_scans c @ [?new]\<rparr>"
    and t: "t = \<lparr>sr_scan = length (pc_scans c), sr_alias = (case al of Some a \<Rightarrow> a | None \<Rightarrow> name)\<rparr>"
    using assms(1) col by (auto simp: plan_scan_def Let_def split: if_splits)
  have "plan_wf c1" using assms(2) col by (auto simp: plan_wf_def scan_wf_def c1 list_all_iff)
  then show ?thesis by (simp add: t c1 plan_grown_def nth_append)
qed

lemma add_needed_ok:
  assumes "add_needed k column unknown c = Ok (i, c1)" "plan_wf c"
  shows "plan_wf c1 \<and> plan_grown c c1 \<and> pc_joins c1 = pc_joins c \<and> length (pc_scans c1) = length (pc_scans c) \<and> taken (pc_scans c1) k i column"
proof -
  from assms(1) have k: "k < length (pc_scans c)" by (auto simp: add_needed_def rust_simps)
  let ?s = "pc_scans c ! k"
  show ?thesis
  proof (cases "position_of (\<lambda>x. x = column) (ss_needed ?s)")
    case (Some pos)
    with assms k position_of_SomeD [OF Some] show ?thesis by (auto simp: add_needed_def vec_index_def taken_def)
  next
    case None
    with assms(1) k have col: "column \<in> set (ss_columns ?s)"
      and i: "i = length (ss_needed ?s)"
      and c1: "c1 = c\<lparr>pc_scans := (pc_scans c)[k := ?s\<lparr>ss_needed := ss_needed ?s @ [column]\<rparr>]\<rparr>"
      by (auto simp: add_needed_def vec_index_def split: if_splits)
    have "list_all (scan_wf c1) (pc_scans c1)"
      using assms(2) k col by (auto simp: c1 plan_wf_def list_all_length nth_list_update scan_wf_def)
    moreover have "ss_table ` set (pc_scans c1) = ss_table ` set (pc_scans c)"
    proof -
      have "map ss_table (pc_scans c1) = map ss_table (pc_scans c)"
        using k by (auto simp: c1 map_update intro!: list_update_same_conv [THEN iffD2])
      then show ?thesis by (metis set_map)
    qed
    ultimately have "plan_wf c1" using assms(2) by (simp add: plan_wf_def c1)
    moreover have "plan_grown c c1" using k by (auto simp: plan_grown_def scan_grown_def c1 nth_list_update)
    ultimately show ?thesis using k by (simp add: c1 i taken_def)
  qed
qed

lemma resolve_into_ok:
  assumes "resolve_into k al r c = Ok (i, c1)" "plan_wf c"
  shows "plan_wf c1 \<and> plan_grown c c1 \<and> pc_joins c1 = pc_joins c \<and> length (pc_scans c1) = length (pc_scans c) \<and> taken (pc_scans c1) k i (ar_name r)"
proof -
  from assms(1) obtain unknown where "add_needed k (ar_name r) unknown c = Ok (i, c1)"
    by (auto simp: resolve_into_def column_of_def rust_simps split: option.splits if_splits)
  from add_needed_ok [OF this assms(2)] show ?thesis .
qed

subsection \<open>Select items of a table\<close>

fun plain_refs :: "ast_item list \<Rightarrow> ast_ref list option" where
  "plain_refs [] = Some []"
| "plain_refs (AsCol r _ # items) = map_option (Cons r) (plain_refs items)"
| "plain_refs _ = None"

lemma scan_items_ok:
  "scan_items t items takes c = Ok (takes1, c1) \<Longrightarrow> plan_wf c \<Longrightarrow>
   plan_wf c1 \<and> plan_grown c c1 \<and> pc_joins c1 = pc_joins c \<and>
   (\<exists>refs new. plain_refs items = Some refs \<and> takes1 = takes @ new \<and> list_all2 (\<lambda>i r. taken (pc_scans c1) (sr_scan t) i (ar_name r)) new refs)"
proof (induction t items takes c rule: scan_items.induct)
  case (2 t r al items takes c)
  from 2(2) obtain i c2 where i: "resolve_into (sr_scan t) (sr_alias t) r c = Ok (i, c2)"
    and rest: "scan_items t items (takes @ [i]) c2 = Ok (takes1, c1)" by (auto simp: rust_simps)
  note step = resolve_into_ok [OF i 2(3)]
  from 2(1) [OF i refl rest] step obtain refs new where
    IH: "plan_wf c1" "plan_grown c2 c1" "pc_joins c1 = pc_joins c2" "plain_refs items = Some refs" "takes1 = (takes @ [i]) @ new"
      "list_all2 (\<lambda>i r. taken (pc_scans c1) (sr_scan t) i (ar_name r)) new refs" by blast
  have "taken (pc_scans c1) (sr_scan t) i (ar_name r)" using step IH(2) taken_grown by blast
  with IH have "plain_refs (AsCol r al # items) = Some (r # refs) \<and> takes1 = takes @ i # new \<and>
      list_all2 (\<lambda>i r. taken (pc_scans c1) (sr_scan t) i (ar_name r)) (i # new) (r # refs)" by simp
  moreover have "plan_grown c c1" using step IH(2) plan_grown_trans by blast
  ultimately show ?case using IH(1,3) step by metis
qed simp_all

subsection \<open>Joins\<close>

text \<open>The side a reference is on, where the code accepts it: the left one comes first.\<close>

definition ref_left :: "string \<Rightarrow> string \<Rightarrow> string list \<Rightarrow> ast_ref \<Rightarrow> bool" where
  "ref_left table al columns r = (case ar_qualifier r of
     Some q \<Rightarrow> eq_ignore_case q table \<or> eq_ignore_case q al
   | None \<Rightarrow> ar_name r \<in> set columns)"

lemma item_side_left: "item_side lspec rspec la ra r program = Ok b \<Longrightarrow> b = ref_left (ss_table lspec) la (ss_columns lspec) r"
  by (auto simp: item_side_def ref_left_def split: option.splits if_splits bool.splits)

lemma locate_left:
  assumes "locate l r a c = Ok side"
  shows "sr_scan l < length (pc_scans c) \<and> sr_scan r < length (pc_scans c) \<and>
    side = (if ref_left (ss_table (pc_scans c ! sr_scan l)) (sr_alias l) (ss_columns (pc_scans c ! sr_scan l)) a then OnLeft (ar_name a) else OnRight (ar_name a))"
  using assms by (auto simp: locate_def ref_left_def rust_simps split: option.splits if_splits bool.splits)

definition cond_key :: "(ast_ref \<Rightarrow> bool) \<Rightarrow> ast_ref \<times> ast_ref \<Rightarrow> string \<times> string \<Rightarrow> bool" where
  "cond_key left cond key \<longleftrightarrow> (left (fst cond) \<noteq> left (snd cond)) \<and>
     key = (if left (fst cond) then (ar_name (fst cond), ar_name (snd cond)) else (ar_name (snd cond), ar_name (fst cond)))"

definition key_needed :: "scan_spec list \<Rightarrow> nat \<Rightarrow> nat \<Rightarrow> string \<times> string \<Rightarrow> bool" where
  "key_needed scans l r key \<longleftrightarrow> l < length scans \<and> r < length scans \<and> fst key \<in> set (ss_needed (scans ! l)) \<and> snd key \<in> set (ss_needed (scans ! r))"

lemma key_needed_grown: "key_needed (pc_scans c) l r key \<Longrightarrow> plan_grown c c1 \<Longrightarrow> key_needed (pc_scans c1) l r key"
  unfolding key_needed_def plan_grown_def scan_grown_def by force

lemma taken_needed: "taken scans k i name \<Longrightarrow> name \<in> set (ss_needed (scans ! k))"
  by (auto simp: taken_def)

lemma join_conds_ok:
  assumes "join_conds l r conds lk rk c = Ok (lk1, rk1, c1)" "plan_wf c" "length lk = length rk"
  shows "plan_wf c1 \<and> plan_grown c c1 \<and> pc_joins c1 = pc_joins c \<and> length (pc_scans c1) = length (pc_scans c) \<and>
   (\<exists>L R. lk1 = lk @ L \<and> rk1 = rk @ R \<and> length L = length R \<and> list_all (key_needed (pc_scans c1) (sr_scan l) (sr_scan r)) (zip L R) \<and>
     list_all2 (cond_key (ref_left (ss_table (pc_scans c ! sr_scan l)) (sr_alias l) (ss_columns (pc_scans c ! sr_scan l)))) conds (zip L R))"
  using assms
proof (induction conds arbitrary: lk rk c)
  case Nil
  then show ?case by simp
next
  case (Cons cond conds)
  obtain a b where cond: "cond = (a, b)" by (cases cond)
  let ?left = "\<lambda>c. ref_left (ss_table (pc_scans c ! sr_scan l)) (sr_alias l) (ss_columns (pc_scans c ! sr_scan l))"
  from Cons.prems(1) obtain sa sb where sides: "locate l r a c = Ok sa" "locate l r b c = Ok sb"
    by (auto simp: cond rust_simps)
  with Cons.prems(1) obtain x y where pair: "(sa = OnLeft x \<and> sb = OnRight y) \<or> (sa = OnRight y \<and> sb = OnLeft x)"
    and rest0: "rust_bind (need_column (sr_scan l) x c) (\<lambda>(_, c1). rust_bind (need_column (sr_scan r) y c1) (\<lambda>(_, c2).
       join_conds l r conds (lk @ [x]) (rk @ [y]) c2)) = Ok (lk1, rk1, c1)"
    by (cases sa; cases sb) (auto simp: cond)
  from rest0 obtain i1 c2 i2 c3 where need: "need_column (sr_scan l) x c = Ok (i1, c2)" "need_column (sr_scan r) y c2 = Ok (i2, c3)"
    and rest: "join_conds l r conds (lk @ [x]) (rk @ [y]) c3 = Ok (lk1, rk1, c1)" by (auto simp: rust_simps)
  note s1 = add_needed_ok [OF need(1) [unfolded need_column_def] Cons.prems(2)]
  then have wf2: "plan_wf c2" by blast
  note s2 = add_needed_ok [OF need(2) [unfolded need_column_def] wf2]
  have g3: "plan_grown c c3" using s1 s2 plan_grown_trans by blast
  have wf3: "plan_wf c3" using s2 by blast
  have "length (lk @ [x]) = length (rk @ [y])" using Cons.prems(3) by simp
  from Cons.IH [OF rest wf3 this] obtain L R where IH: "plan_wf c1" "plan_grown c3 c1" "pc_joins c1 = pc_joins c3"
    "length (pc_scans c1) = length (pc_scans c3)" "lk1 = (lk @ [x]) @ L" "rk1 = (rk @ [y]) @ R" "length L = length R"
    "list_all (key_needed (pc_scans c1) (sr_scan l) (sr_scan r)) (zip L R)" "list_all2 (cond_key (?left c3)) conds (zip L R)" by blast
  have l: "sr_scan l < length (pc_scans c)" "sr_scan r < length (pc_scans c)" using locate_left [OF sides(1)] by blast+
  have left: "?left c3 = ?left c" using grown_scan [OF g3 l(1)] by simp
  have "taken (pc_scans c3) (sr_scan l) i1 x" "taken (pc_scans c3) (sr_scan r) i2 y" using s1 s2 taken_grown by blast+
  then have "key_needed (pc_scans c3) (sr_scan l) (sr_scan r) (x, y)" using taken_needed by (auto simp: key_needed_def taken_def)
  with IH(2) have kn: "key_needed (pc_scans c1) (sr_scan l) (sr_scan r) (x, y)" by (rule key_needed_grown [rotated])
  have "cond_key (?left c) cond (x, y)"
    using pair locate_left [OF sides(1)] locate_left [OF sides(2)] by (auto simp: cond cond_key_def split: if_splits)
  with IH left kn have "lk1 = lk @ (x # L) \<and> rk1 = rk @ (y # R) \<and> length (x # L) = length (y # R) \<and>
      list_all (key_needed (pc_scans c1) (sr_scan l) (sr_scan r)) (zip (x # L) (y # R)) \<and> list_all2 (cond_key (?left c)) (cond # conds) (zip (x # L) (y # R))"
    by simp
  moreover have "plan_grown c c1" using g3 IH(2) plan_grown_trans by blast
  ultimately show ?case using IH(1,3,4) s1 s2 by metis
qed

lemma project_into_join_ok:
  assumes "project_into_join j la ra r c = Ok c1" "plan_wf c"
  defines "join \<equiv> pc_joins c ! j"
  defines "left \<equiv> ref_left (ss_table (pc_scans c ! js_left join)) la (ss_columns (pc_scans c ! js_left join))"
  shows "plan_wf c1 \<and> plan_grown c c1 \<and> js_left join < length (pc_scans c) \<and> j < length (pc_joins c) \<and>
    (\<exists>i. taken (pc_scans c1) (if left r then js_left join else js_right join) i (ar_name r) \<and>
       pc_joins c1 = (pc_joins c)[j := if left r then join\<lparr>js_left_proj := js_left_proj join @ [i]\<rparr> else join\<lparr>js_right_proj := js_right_proj join @ [i]\<rparr>])"
proof -
  from assms(1) obtain b where j: "j < length (pc_joins c)" "js_left join < length (pc_scans c)" "js_right join < length (pc_scans c)"
    and side: "item_side (pc_scans c ! js_left join) (pc_scans c ! js_right join) la ra r (pc_program c) = Ok b"
    and run: "(if b then rust_bind (resolve_into (js_left join) la r c) (\<lambda>(take1, c1).
         Ok (c1\<lparr>pc_joins := (pc_joins c1)[j := join\<lparr>js_left_proj := js_left_proj join @ [take1]\<rparr>]\<rparr>))
       else rust_bind (resolve_into (js_right join) ra r c) (\<lambda>(take1, c1).
         Ok (c1\<lparr>pc_joins := (pc_joins c1)[j := join\<lparr>js_right_proj := js_right_proj join @ [take1]\<rparr>]\<rparr>))) = Ok c1"
    by (auto simp: project_into_join_def join_def [symmetric] rust_simps)
  have b: "b = left r" using item_side_left [OF side] by (simp add: left_def)
  show ?thesis
  proof (cases b)
    case True
    with run obtain i c2 where i: "resolve_into (js_left join) la r c = Ok (i, c2)"
      and c1: "c1 = c2\<lparr>pc_joins := (pc_joins c2)[j := join\<lparr>js_left_proj := js_left_proj join @ [i]\<rparr>]\<rparr>" by (auto simp: rust_simps)
    from resolve_into_ok [OF i assms(2)] True b j c1 show ?thesis by auto
  next
    case False
    with run obtain i c2 where i: "resolve_into (js_right join) ra r c = Ok (i, c2)"
      and c1: "c1 = c2\<lparr>pc_joins := (pc_joins c2)[j := join\<lparr>js_right_proj := js_right_proj join @ [i]\<rparr>]\<rparr>" by (auto simp: rust_simps)
    from resolve_into_ok [OF i assms(2)] False b j c1 show ?thesis by auto
  qed
qed

definition projected :: "join_spec \<Rightarrow> nat list \<Rightarrow> nat list \<Rightarrow> join_spec" where
  "projected join L R = join\<lparr>js_left_proj := js_left_proj join @ L, js_right_proj := js_right_proj join @ R\<rparr>"

lemma join_items_ok:
  assumes "join_items j la ra items c = Ok c1" "plan_wf c" "j < length (pc_joins c)" "js_left (pc_joins c ! j) < length (pc_scans c)"
  defines "join \<equiv> pc_joins c ! j"
  defines "left \<equiv> ref_left (ss_table (pc_scans c ! js_left join)) la (ss_columns (pc_scans c ! js_left join))"
  shows "plan_wf c1 \<and> plan_grown c c1 \<and>
    (\<exists>refs L R. plain_refs items = Some refs \<and> pc_joins c1 = (pc_joins c)[j := projected join L R] \<and>
       list_all2 (\<lambda>i r. taken (pc_scans c1) (js_left join) i (ar_name r)) L (filter left refs) \<and>
       list_all2 (\<lambda>i r. taken (pc_scans c1) (js_right join) i (ar_name r)) R (filter (\<lambda>r. \<not> left r) refs))"
  using assms(1-4) unfolding join_def left_def
proof (induction j la ra items c rule: join_items.induct)
  case (1 j la ra c)
  then show ?case by (auto simp: projected_def intro!: exI [of _ "[]"])
next
  case (2 j la ra r al items c)
  let ?join = "pc_joins c ! j"
  let ?left = "\<lambda>c. ref_left (ss_table (pc_scans c ! js_left ?join)) la (ss_columns (pc_scans c ! js_left ?join))"
  from 2(2) obtain c2 where one: "project_into_join j la ra r c = Ok c2" and rest: "join_items j la ra items c2 = Ok c1"
    by (auto simp: rust_simps)
  from project_into_join_ok [OF one 2(3)] obtain i where s: "plan_wf c2" "plan_grown c c2"
    "taken (pc_scans c2) (if ?left c r then js_left ?join else js_right ?join) i (ar_name r)"
    "pc_joins c2 = (pc_joins c)[j := if ?left c r then ?join\<lparr>js_left_proj := js_left_proj ?join @ [i]\<rparr> else ?join\<lparr>js_right_proj := js_right_proj ?join @ [i]\<rparr>]"
    by blast
  have j2: "j < length (pc_joins c2)" "js_left (pc_joins c2 ! j) = js_left ?join" "js_right (pc_joins c2 ! j) = js_right ?join"
    using 2(4) s(4) by auto
  have "js_left (pc_joins c2 ! j) < length (pc_scans c2)" using 2(5) s(2) j2(2) by (simp add: plan_grown_def)
  from 2(1) [OF one rest s(1) j2(1) this] obtain refs L R where IH: "plan_wf c1" "plan_grown c2 c1" "plain_refs items = Some refs"
    "pc_joins c1 = (pc_joins c2)[j := projected (pc_joins c2 ! j) L R]"
    "list_all2 (\<lambda>i r. taken (pc_scans c1) (js_left ?join) i (ar_name r)) L (filter (?left c2) refs)"
    "list_all2 (\<lambda>i r. taken (pc_scans c1) (js_right ?join) i (ar_name r)) R (filter (\<lambda>r. \<not> ?left c2 r) refs)"
    unfolding j2 by blast
  have left: "?left c2 = ?left c" using grown_scan [OF s(2) 2(5)] by simp
  let ?L = "if ?left c r then i # L else L" and ?R = "if ?left c r then R else i # R"
  have t: "taken (pc_scans c1) (if ?left c r then js_left ?join else js_right ?join) i (ar_name r)" using s(3) IH(2) taken_grown by blast
  have joins: "pc_joins c1 = (pc_joins c)[j := projected ?join ?L ?R]" using IH(4) s(4) 2(4) by (simp add: projected_def)
  have "list_all2 (\<lambda>i r. taken (pc_scans c1) (js_left ?join) i (ar_name r)) ?L (filter (?left c) (r # refs))"
    "list_all2 (\<lambda>i r. taken (pc_scans c1) (js_right ?join) i (ar_name r)) ?R (filter (\<lambda>r. \<not> ?left c r) (r # refs))"
    using IH(5,6) t unfolding left by auto
  moreover have "plain_refs (AsCol r al # items) = Some (r # refs)" using IH(3) by simp
  moreover have "plan_grown c c1" using s(2) IH(2) plan_grown_trans by blast
  ultimately show ?case using IH(1) joins by blast
qed simp_all

subsection \<open>Branches\<close>

definition alias_or :: "string \<Rightarrow> string option \<Rightarrow> string" where
  "alias_or name al = (case al of Some a \<Rightarrow> a | None \<Rightarrow> name)"

definition scan_branch_ok :: "scan_spec list \<Rightarrow> string \<Rightarrow> ast_item list \<Rightarrow> nat \<Rightarrow> nat list \<Rightarrow> bool" where
  "scan_branch_ok scans name items k takes \<longleftrightarrow> k < length scans \<and> ss_table (scans ! k) = name \<and>
     (\<exists>refs. plain_refs items = Some refs \<and> list_all2 (\<lambda>i r. taken scans k i (ar_name r)) takes refs)"

definition join_branch_ok ::
    "scan_spec list \<Rightarrow> string \<Rightarrow> string option \<Rightarrow> string \<Rightarrow> (ast_ref \<times> ast_ref) list \<Rightarrow> ast_item list \<Rightarrow> join_spec \<Rightarrow> bool" where
  "join_branch_ok scans lname la rname conds items join \<longleftrightarrow>
     (let l = js_left join; r = js_right join; left = ref_left lname (alias_or lname la) (ss_columns (scans ! l)) in
      l < length scans \<and> r < length scans \<and> ss_table (scans ! l) = lname \<and> ss_table (scans ! r) = rname \<and>
      length (js_left_key join) = length (js_right_key join) \<and>
      list_all (key_needed scans l r) (zip (js_left_key join) (js_right_key join)) \<and>
      list_all2 (cond_key left) conds (zip (js_left_key join) (js_right_key join)) \<and>
      (\<exists>refs. plain_refs items = Some refs \<and> list_all2 (\<lambda>i r. taken scans l i (ar_name r)) (js_left_proj join) (filter left refs) \<and>
         list_all2 (\<lambda>i ref1. taken scans r i (ar_name ref1)) (js_right_proj join) (filter (\<lambda>r. \<not> left r) refs)))"

fun branch_ok :: "scan_spec list \<Rightarrow> join_spec list \<Rightarrow> ast_select \<Rightarrow> branch_ref \<Rightarrow> bool" where
  "branch_ok scans joins s (BrScan k takes) \<longleftrightarrow> (\<exists>name al. sel_from s = AsTable name al \<and> scan_branch_ok scans name (sel_items s) k takes)"
| "branch_ok scans joins s (BrJoin j) \<longleftrightarrow> (\<exists>lname la rname ra conds. sel_from s = AsJoin (AsTable lname la) (AsTable rname ra) conds \<and>
     j < length joins \<and> join_branch_ok scans lname la rname conds (sel_items s) (joins ! j))"

lemma branch_ok_grown:
  assumes "branch_ok (pc_scans c) (pc_joins c) s b" "plan_grown c c1" "\<exists>more. pc_joins c1 = pc_joins c @ more"
  shows "branch_ok (pc_scans c1) (pc_joins c1) s b"
proof (cases b)
  case (BrScan k takes)
  with assms(1,2) show ?thesis
    by (auto simp: scan_branch_ok_def dest: grown_scan takes_grown)
next
  case (BrJoin j)
  with assms(1) obtain lname la rname ra conds where from1: "sel_from s = AsJoin (AsTable lname la) (AsTable rname ra) conds" "j < length (pc_joins c)"
    and ok: "join_branch_ok (pc_scans c) lname la rname conds (sel_items s) (pc_joins c ! j)" by auto
  have j: "pc_joins c1 ! j = pc_joins c ! j" "j < length (pc_joins c1)" using assms(3) from1(2) by (auto simp: nth_append)
  let ?join = "pc_joins c ! j"
  have l: "js_left ?join < length (pc_scans c)" "js_right ?join < length (pc_scans c)" using ok by (simp_all add: join_branch_ok_def Let_def)
  note gl = grown_scan [OF assms(2) l(1)] and gr = grown_scan [OF assms(2) l(2)]
  have "join_branch_ok (pc_scans c1) lname la rname conds (sel_items s) ?join"
    using ok gl gr key_needed_grown [OF _ assms(2)] takes_grown [OF _ assms(2)]
    by (auto simp: join_branch_ok_def Let_def elim!: list.pred_mono_strong)
  with BrJoin from1 j show ?thesis by auto
qed

lemma join_side_ok:
  assumes "join_side side c = Ok (t, c1)" "plan_wf c"
  obtains name al where "side = AsTable name al" "plan_wf c1" "plan_grown c c1" "pc_joins c1 = pc_joins c" "sr_scan t < length (pc_scans c1)"
    "ss_table (pc_scans c1 ! sr_scan t) = name" "sr_alias t = alias_or name al"
proof (cases side)
  case (AsTable name al)
  with assms plan_scan_ok [of name al c t c1] that show ?thesis by (auto simp: join_side_def alias_or_def)
qed (use assms in \<open>simp add: join_side_def\<close>)

lemma plan_branch_ok:
  assumes "plan_branch_of s c = Ok (b, c1)" "plan_wf c"
  shows "plan_wf c1 \<and> plan_grown c c1 \<and> (\<exists>more. pc_joins c1 = pc_joins c @ more) \<and> branch_ok (pc_scans c1) (pc_joins c1) s b"
proof (cases "sel_from s")
  case (AsTable name al)
  with assms(1) obtain t c2 takes where t: "plan_scan name al c = Ok (t, c2)" and items: "scan_items t (sel_items s) [] c2 = Ok (takes, c1)"
    and b: "b = BrScan (sr_scan t) takes"
    by (auto simp: plan_branch_of_def plan_from_def rust_simps)
  note one = plan_scan_ok [OF t assms(2)]
  then have "plan_wf c2" by blast
  from scan_items_ok [OF items this] obtain refs where two: "plan_wf c1" "plan_grown c2 c1" "pc_joins c1 = pc_joins c2" "plain_refs (sel_items s) = Some refs"
    "list_all2 (\<lambda>i r. taken (pc_scans c1) (sr_scan t) i (ar_name r)) takes refs" by auto
  have "branch_ok (pc_scans c1) (pc_joins c1) s b"
    using AsTable b two one grown_scan [OF two(2), of "sr_scan t"] by (auto simp: scan_branch_ok_def)
  moreover have "plan_grown c c1" using one two(2) plan_grown_trans by blast
  ultimately show ?thesis using one two by simp
next
  case (AsJoin left right conds)
  from assms(1) AsJoin obtain l c2 r c3 lk rk c4 where l: "join_side left c = Ok (l, c2)" and r: "join_side right c2 = Ok (r, c3)"
    and conds: "join_conds l r conds [] [] c3 = Ok (lk, rk, c4)"
    and rest: "rust_bind (plan_from (sel_from s) c) (\<lambda>(b, c1).
     case b of
       PbTable t \<Rightarrow> rust_bind (scan_items t (sel_items s) [] c1) (\<lambda>(takes, c2). Ok (BrScan (sr_scan t) takes, c2))
     | PbJoin j \<Rightarrow>
         (case sel_from s of
            AsTable _ _ \<Rightarrow> Panic
          | AsJoin left right _ \<Rightarrow>
              rust_bind (table_alias left) (\<lambda>l_alias. rust_bind (table_alias right) (\<lambda>r_alias.
              rust_bind (join_items j l_alias r_alias (sel_items s) c1) (\<lambda>c2. rust_bind (vec_index (pc_joins c2) j) (\<lambda>join.
                Ok (BrJoin j, c2\<lparr>pc_joins := (pc_joins c2)[j := join\<lparr>js_out_names := item_names s\<rparr>]\<rparr>))))))) = Ok (b, c1)"
    by (auto simp: plan_branch_of_def plan_from_def rust_simps)
  let ?new = "\<lparr>js_left = sr_scan l, js_right = sr_scan r, js_left_key = lk, js_right_key = rk,
             js_left_proj = [], js_right_proj = [], js_out_names = [], js_delta = []\<rparr>"
  let ?j = "length (pc_joins c4)" and ?c5 = "c4\<lparr>pc_joins := pc_joins c4 @ [?new]\<rparr>"
  obtain lname la where sl: "left = AsTable lname la" "plan_wf c2" "plan_grown c c2" "pc_joins c2 = pc_joins c" "sr_scan l < length (pc_scans c2)"
    "ss_table (pc_scans c2 ! sr_scan l) = lname" "sr_alias l = alias_or lname la" using join_side_ok [OF l assms(2)] by blast
  obtain rname ra where sr: "right = AsTable rname ra" "plan_wf c3" "plan_grown c2 c3" "pc_joins c3 = pc_joins c2" "sr_scan r < length (pc_scans c3)"
    "ss_table (pc_scans c3 ! sr_scan r) = rname" "sr_alias r = alias_or rname ra" using join_side_ok [OF r sl(2)] by blast
  let ?left = "ref_left lname (alias_or lname la)"
  have l3: "sr_scan l < length (pc_scans c3)" "ss_table (pc_scans c3 ! sr_scan l) = lname" using grown_scan [OF sr(3) sl(5)] sl(6) by simp_all
  from join_conds_ok [OF conds sr(2)] l3 sl(7) have jc: "plan_wf c4" "plan_grown c3 c4" "pc_joins c4 = pc_joins c3" "length lk = length rk"
    "list_all (key_needed (pc_scans c4) (sr_scan l) (sr_scan r)) (zip lk rk)"
    "list_all2 (cond_key (?left (ss_columns (pc_scans c3 ! sr_scan l)))) conds (zip lk rk)" by auto
  note gl4 = grown_scan [OF jc(2) l3(1)] and gr4 = grown_scan [OF jc(2) sr(5)]
  from rest AsJoin l r conds sl(1) sr(1) obtain c6 where items: "join_items ?j (alias_or lname la) (alias_or rname ra) (sel_items s) ?c5 = Ok c6"
    and out: "b = BrJoin ?j" "?j < length (pc_joins c6)" "c1 = c6\<lparr>pc_joins := (pc_joins c6)[?j := (pc_joins c6 ! ?j)\<lparr>js_out_names := item_names s\<rparr>]\<rparr>"
    by (auto simp: plan_from_def rust_simps alias_or_def split: if_splits)
  have five: "plan_wf ?c5" "?j < length (pc_joins ?c5)" "pc_joins ?c5 ! ?j = ?new" "pc_scans ?c5 = pc_scans c4" using jc(1) by simp_all
  have "js_left (pc_joins ?c5 ! ?j) < length (pc_scans ?c5)" using gl4 by simp
  from join_items_ok [OF items five(1,2) this] obtain refs L R where ji: "plan_wf c6" "plan_grown ?c5 c6" "plain_refs (sel_items s) = Some refs"
    "pc_joins c6 = (pc_joins ?c5)[?j := projected ?new L R]"
    "list_all2 (\<lambda>i r. taken (pc_scans c6) (sr_scan l) i (ar_name r)) L (filter (?left (ss_columns (pc_scans c4 ! sr_scan l))) refs)"
    "list_all2 (\<lambda>i ref1. taken (pc_scans c6) (sr_scan r) i (ar_name ref1)) R (filter (\<lambda>ref1. \<not> ?left (ss_columns (pc_scans c4 ! sr_scan l)) ref1) refs)"
    unfolding five(3,4) using gl4 l3(2) by auto
  have g46: "plan_grown c4 c6" using ji(2) by (simp add: plan_grown_def)
  note gl6 = grown_scan [OF g46, of "sr_scan l"] and gr6 = grown_scan [OF g46, of "sr_scan r"]
  have joins: "pc_joins c1 = pc_joins c @ [(projected ?new L R)\<lparr>js_out_names := item_names s\<rparr>]"
    using out(3) ji(4) jc(3) sr(4) sl(4) by (simp add: list_update_append)
  have keys: "list_all (key_needed (pc_scans c6) (sr_scan l) (sr_scan r)) (zip lk rk)"
    using jc(5) key_needed_grown [OF _ g46] by (auto elim!: list.pred_mono_strong)
  have "join_branch_ok (pc_scans c6) lname la rname conds (sel_items s) ((projected ?new L R)\<lparr>js_out_names := item_names s\<rparr>)"
    using gl4 gr4 gl6 gr6 l3 sr(6) keys jc(4,6) ji(3,5,6) by (simp add: join_branch_ok_def projected_def)
  moreover have "?j = length (pc_joins c)" using jc(3) sr(4) sl(4) by simp
  moreover have "plan_grown c c6" using sl(3) sr(3) jc(2) g46 plan_grown_trans by blast
  ultimately show ?thesis using AsJoin sl(1) sr(1) out joins ji(1) by (simp add: nth_append)
qed

subsection \<open>Plans of programs\<close>

definition scans_ok :: "sql_schema \<Rightarrow> 'n compiled \<Rightarrow> bool" where
  "scans_ok schema plan \<longleftrightarrow> distinct (cd_sources plan) \<and> set (cd_sources plan) \<subseteq> ss_table ` set (cd_scans plan) \<and>
     (\<forall>scan \<in> set (cd_scans plan). schema (ss_table scan) = Some (ss_columns scan) \<and> set (ss_needed scan) \<subseteq> set (ss_columns scan) \<and>
        ss_needed scan \<noteq> [] \<and> ss_table scan \<in> set (cd_sources plan))"

lemma plan_wf_start [simp]: "plan_wf (plan_start program schema)"
  by (simp add: plan_wf_def plan_start_def)

lemma finish_ok:
  assumes "finish c plan_top outs = Ok plan" "plan_wf c"
  shows "scans_ok (pc_schema c) plan \<and> cd_root plan = plan_top \<and> cd_scans plan = pc_scans c \<and> cd_joins plan = pc_joins c \<and> cd_output plan = outs"
proof -
  from assms(1) have "find (\<lambda>scan. ss_needed scan = []) (pc_scans c) = None" by (auto simp: finish_def split: option.splits)
  with assms show ?thesis
    by (auto simp: finish_def scans_ok_def plan_wf_def scan_wf_def list_all_iff find_None_iff)
qed

lemma union_branches_ok:
  assumes "union_branches program outs branches refs c = Ok (refs1, c1)" "plan_wf c"
  shows "plan_wf c1 \<and> plan_grown c c1 \<and> (\<exists>more. pc_joins c1 = pc_joins c @ more) \<and>
    (\<exists>new. refs1 = refs @ new \<and> list_all2 (branch_ok (pc_scans c1) (pc_joins c1)) branches new) \<and>
    list_all (\<lambda>s. sel_group s = None \<and> item_names s = outs) branches"
  using assms
proof (induction branches arbitrary: refs c)
  case (Cons s branches)
  from Cons.prems(1) obtain b c2 where one: "plan_branch_of s c = Ok (b, c2)" and s: "sel_group s = None" "item_names s = outs"
    and rest: "union_branches program outs branches (refs @ [b]) c2 = Ok (refs1, c1)"
    by (auto simp: rust_simps split: if_splits)
  note step = plan_branch_ok [OF one Cons.prems(2)]
  from Cons.IH [OF rest] step obtain new where IH: "plan_wf c1" "plan_grown c2 c1" "\<exists>more. pc_joins c1 = pc_joins c2 @ more"
    "refs1 = (refs @ [b]) @ new" "list_all2 (branch_ok (pc_scans c1) (pc_joins c1)) branches new"
    "list_all (\<lambda>s. sel_group s = None \<and> item_names s = outs) branches" by blast
  have "branch_ok (pc_scans c1) (pc_joins c1) s b" using step IH(2,3) branch_ok_grown by blast
  with IH(4,5) have "refs1 = refs @ b # new \<and> list_all2 (branch_ok (pc_scans c1) (pc_joins c1)) (s # branches) (b # new)" by simp
  moreover have "plan_grown c c1" using step IH(2) plan_grown_trans by blast
  moreover have "\<exists>more. pc_joins c1 = pc_joins c @ more" using step IH(3) by auto
  ultimately show ?case using IH(1,6) s by auto
qed simp

lemma compile_union_ok:
  assumes "compile_union program branches schema = Ok plan"
  shows "branches \<noteq> [] \<and> scans_ok schema plan \<and> cd_output plan = item_names (hd branches) \<and>
    (\<exists>refs. cd_root plan = RtUnion refs \<and> list_all2 (branch_ok (cd_scans plan) (cd_joins plan)) branches refs) \<and>
    list_all (\<lambda>s. sel_group s = None \<and> item_names s = item_names (hd branches)) branches"
proof -
  from assms obtain s rest refs c where b: "branches = s # rest"
    and run: "union_branches program (item_names s) branches [] (plan_start program schema) = Ok (refs, c)"
    and fin: "finish c (RtUnion refs) (item_names s) = Ok plan"
    by (cases branches) (auto simp: compile_union_def rust_simps Let_def vec_index_def)
  from union_branches_ok [OF run plan_wf_start] have "plan_wf c" "pc_schema c = schema"
    "list_all2 (branch_ok (pc_scans c) (pc_joins c)) branches refs" "list_all (\<lambda>s1. sel_group s1 = None \<and> item_names s1 = item_names s) branches"
    by (auto simp: plan_grown_def plan_start_def)
  with finish_ok [OF fin] b show ?thesis by auto
qed

subsection \<open>Grouped plans\<close>

lemma plan_keys_ok:
  assumes "plan_keys t refs keys c = Ok (keys1, c1)" "plan_wf c"
  shows "plan_wf c1 \<and> plan_grown c c1 \<and> pc_joins c1 = pc_joins c \<and>
    (\<exists>new. keys1 = keys @ new \<and> list_all2 (\<lambda>k r. taken (pc_scans c1) (sr_scan t) (tn_take k) (ar_name r) \<and> tn_name k = ar_name r) new refs)"
  using assms
proof (induction refs arbitrary: keys c)
  case (Cons r refs)
  from Cons.prems(1) obtain i c2 name where one: "resolve_into (sr_scan t) (sr_alias t) r c = Ok (i, c2)"
    and name: "sr_scan t < length (pc_scans c2)" "name = ss_needed (pc_scans c2 ! sr_scan t) ! i"
    and rest: "plan_keys t refs (keys @ [\<lparr>tn_take = i, tn_name = name\<rparr>]) c2 = Ok (keys1, c1)"
    by (auto simp: rust_simps)
  note step = resolve_into_ok [OF one Cons.prems(2)]
  from Cons.IH [OF rest] step obtain new where IH: "plan_wf c1" "plan_grown c2 c1" "pc_joins c1 = pc_joins c2"
    "keys1 = (keys @ [\<lparr>tn_take = i, tn_name = name\<rparr>]) @ new"
    "list_all2 (\<lambda>k r. taken (pc_scans c1) (sr_scan t) (tn_take k) (ar_name r) \<and> tn_name k = ar_name r) new refs" by blast
  have t2: "taken (pc_scans c2) (sr_scan t) i (ar_name r)" using step by blast
  then have "taken (pc_scans c1) (sr_scan t) i (ar_name r)" using IH(2) by (rule taken_grown)
  moreover have "name = ar_name r" using t2 name(2) by (simp add: taken_def)
  ultimately have new: "taken (pc_scans c1) (sr_scan t) i (ar_name r) \<and> name = ar_name r" ..
  from IH(4,5) new have "keys1 = keys @ \<lparr>tn_take = i, tn_name = name\<rparr> # new \<and>
      list_all2 (\<lambda>k r. taken (pc_scans c1) (sr_scan t) (tn_take k) (ar_name r) \<and> tn_name k = ar_name r) (\<lparr>tn_take = i, tn_name = name\<rparr> # new) (r # refs)"
    by simp
  moreover have "plan_grown c c1" using step IH(2) plan_grown_trans by blast
  moreover have "pc_joins c1 = pc_joins c" using IH(3) step by simp
  ultimately show ?case using IH(1) by blast
qed simp

text \<open>The sums of a select list, and the names its count and sums give.\<close>

fun sum_refs :: "ast_item list \<Rightarrow> ast_ref list" where
  "sum_refs [] = []"
| "sum_refs (AsSum r _ # items) = r # sum_refs items"
| "sum_refs (_ # items) = sum_refs items"

fun aggregate_names :: "ast_item list \<Rightarrow> string list" where
  "aggregate_names [] = []"
| "aggregate_names (AsCol _ _ # items) = aggregate_names items"
| "aggregate_names (AsCount al # items) = al # aggregate_names items"
| "aggregate_names (AsSum _ al # items) = al # aggregate_names items"

lemma group_items_ok:
  assumes "group_items t keys items sums1 outs c = Ok (sums2, output2, c1)" "plan_wf c"
  shows "plan_wf c1 \<and> plan_grown c c1 \<and> pc_joins c1 = pc_joins c \<and> output2 = outs @ aggregate_names items \<and>
    (\<exists>new. sums2 = sums1 @ new \<and> list_all2 (\<lambda>s r. taken (pc_scans c1) (sr_scan t) (tn_take s) (ar_name r)) new (sum_refs items))"
  using assms
proof (induction t keys items sums1 outs c rule: group_items.induct)
  case (4 t keys r al items sums1 outs c)
  from 4(2) obtain i c2 where one: "resolve_into (sr_scan t) (sr_alias t) r c = Ok (i, c2)"
    and rest: "group_items t keys items (sums1 @ [\<lparr>tn_take = i, tn_name = al\<rparr>]) (outs @ [al]) c2 = Ok (sums2, output2, c1)"
    by (auto simp: rust_simps)
  note step = resolve_into_ok [OF one 4(3)]
  from 4(1) [OF one refl rest] step obtain new where IH: "plan_wf c1" "plan_grown c2 c1" "pc_joins c1 = pc_joins c2"
    "output2 = (outs @ [al]) @ aggregate_names items" "sums2 = (sums1 @ [\<lparr>tn_take = i, tn_name = al\<rparr>]) @ new"
    "list_all2 (\<lambda>s r. taken (pc_scans c1) (sr_scan t) (tn_take s) (ar_name r)) new (sum_refs items)" by blast
  have "taken (pc_scans c1) (sr_scan t) i (ar_name r)" using step IH(2) taken_grown by blast
  with IH(5,6) have "sums2 = sums1 @ \<lparr>tn_take = i, tn_name = al\<rparr> # new \<and>
      list_all2 (\<lambda>s r. taken (pc_scans c1) (sr_scan t) (tn_take s) (ar_name r)) (\<lparr>tn_take = i, tn_name = al\<rparr> # new) (sum_refs (AsSum r al # items))"
    by simp
  moreover have "plan_grown c c1" using step IH(2) plan_grown_trans by blast
  ultimately show ?case using IH(1,3,4) step by auto
qed (auto simp: rust_simps split: if_splits)

definition group_plan_ok :: "'n compiled \<Rightarrow> ast_select \<Rightarrow> ast_ref list \<Rightarrow> bool" where
  "group_plan_ok plan s refs \<longleftrightarrow> (\<exists>name al k keys sums1. sel_from s = AsTable name al \<and> cd_root plan = RtGroup k keys sums1 [] \<and>
     k < length (cd_scans plan) \<and> ss_table (cd_scans plan ! k) = name \<and> cd_output plan = map ar_name refs @ aggregate_names (sel_items s) \<and>
     list_all2 (\<lambda>t r. taken (cd_scans plan) k (tn_take t) (ar_name r)) keys refs \<and>
     list_all2 (\<lambda>t r. taken (cd_scans plan) k (tn_take t) (ar_name r)) sums1 (sum_refs (sel_items s)))"

lemma compile_group_ok:
  assumes "compile_group program s schema = Ok plan"
  shows "scans_ok schema plan \<and> (\<exists>refs. sel_group s = Some refs \<and> group_plan_ok plan s refs)"
proof -
  from assms obtain refs name al t c1 keys c2 sums1 outs c3 where s: "sel_group s = Some refs" "sel_from s = AsTable name al"
    and t: "plan_scan name al (plan_start program schema) = Ok (t, c1)" and keys: "plan_keys t refs [] c1 = Ok (keys, c2)"
    and items: "group_items t keys (sel_items s) [] (map tn_name keys) c2 = Ok (sums1, outs, c3)"
    and fin: "finish c3 (RtGroup (sr_scan t) keys sums1 []) outs = Ok plan"
    by (cases "sel_from s") (auto simp: compile_group_def plan_from_def rust_simps split: option.splits if_splits)
  note one = plan_scan_ok [OF t plan_wf_start]
  then have wf1: "plan_wf c1" by blast
  from plan_keys_ok [OF keys wf1] have two: "plan_wf c2" "plan_grown c1 c2"
    "list_all2 (\<lambda>k r. taken (pc_scans c2) (sr_scan t) (tn_take k) (ar_name r) \<and> tn_name k = ar_name r) keys refs" by auto
  from group_items_ok [OF items two(1)] have three: "plan_wf c3" "plan_grown c2 c3" "outs = map tn_name keys @ aggregate_names (sel_items s)"
    "list_all2 (\<lambda>s r. taken (pc_scans c3) (sr_scan t) (tn_take s) (ar_name r)) sums1 (sum_refs (sel_items s))" by auto
  have g: "plan_grown c1 c3" using two(2) three(2) plan_grown_trans by blast
  have keys3: "list_all2 (\<lambda>k r. taken (pc_scans c3) (sr_scan t) (tn_take k) (ar_name r)) keys refs"
    using two(3) by (rule list.rel_mono_strong) (use taken_grown [OF _ three(2)] in blast)
  have names: "map tn_name keys = map ar_name refs" using two(3) by (auto simp: list_all2_conv_all_nth intro!: nth_equalityI)
  have "plan_grown (plan_start program schema) c3" using one g plan_grown_trans by blast
  then have "pc_schema c3 = schema" by (simp add: plan_grown_def plan_start_def)
  with finish_ok [OF fin three(1)] s grown_scan [OF g] one three(3,4) keys3 names show ?thesis
    by (auto simp: group_plan_ok_def)
qed

end
