(* ===== verification/Sql_Lower_Laws.thy ===== *)
theory Sql_Lower_Laws
  imports Sql_Plan_Laws Ir_Compose_Laws
begin

text \<open>
  What \<open>lower_ir\<close> builds from a plan: for every scan a read of its source and a projection to the needed
  columns, for every branch a projection of a scan or of the join of two, and a root over them. The
  relations number the sources; every node reads earlier nodes only.
\<close>

subsection \<open>Nodes\<close>

definition col_at :: "string list \<Rightarrow> string \<Rightarrow> nat" where
  "col_at cols name = the (position_of (\<lambda>c. c = name) cols)"

lemma col_at_ok: "name \<in> set cols \<Longrightarrow> position_of (\<lambda>c. c = name) cols = Some (col_at cols name) \<and> col_at cols name < length cols \<and> cols ! col_at cols name = name"
  using position_of_member [of name cols] by (auto simp: col_at_def)

definition scan_node :: "string list \<Rightarrow> ir_op list \<Rightarrow> scan_spec \<Rightarrow> nat \<Rightarrow> bool" where
  "scan_node sources nodes scan n \<longleftrightarrow> (\<exists>m src. m < n \<and> vec_get nodes m = Some (OGet src) \<and> src < length sources \<and> sources ! src = ss_table scan \<and>
     vec_get nodes n = Some (OMfp m [] [] (map (col_at (ss_columns scan)) (ss_needed scan))))"

definition key_class :: "scan_spec \<Rightarrow> scan_spec \<Rightarrow> string \<times> string \<Rightarrow> (nat \<times> nat) list" where
  "key_class left right key = [(0, col_at (ss_needed left) (fst key)), (1, col_at (ss_needed right) (snd key))]"

fun branch_node :: "'n compiled \<Rightarrow> ir_op list \<Rightarrow> branch_ref \<Rightarrow> nat \<Rightarrow> bool" where
  "branch_node plan nodes (BrScan k takes) n \<longleftrightarrow> (\<exists>input. input < n \<and> scan_node (cd_sources plan) nodes (cd_scans plan ! k) input \<and>
     vec_get nodes n = Some (OMfp input [] [] takes))"
| "branch_node plan nodes (BrJoin j) n \<longleftrightarrow> (let join = cd_joins plan ! j; left = cd_scans plan ! js_left join; right = cd_scans plan ! js_right join in
     \<exists>m l r. m < n \<and> l < m \<and> r < m \<and> scan_node (cd_sources plan) nodes left l \<and> scan_node (cd_sources plan) nodes right r \<and>
       vec_get nodes m = Some (OJoin [l, r] (map (key_class left right) (zip (js_left_key join) (js_right_key join))) []) \<and>
       vec_get nodes n = Some (OMfp m [] [] (js_left_proj join @ map (\<lambda>i. length (ss_needed left) + i) (js_right_proj join))))"

definition nodes_ordered :: "ir_op list \<Rightarrow> bool" where
  "nodes_ordered nodes \<longleftrightarrow> (\<forall>i < length nodes. \<forall>x \<in> set (op_inputs (nodes ! i)). x < i)"

lemma vec_get_more: "vec_get xs i = Some x \<Longrightarrow> vec_get (xs @ ys) i = Some x"
  by (auto simp: nth_append)

lemma scan_node_more: "scan_node sources nodes scan n \<Longrightarrow> scan_node sources (nodes @ tl1) scan n"
  unfolding scan_node_def using vec_get_more by metis

lemma branch_node_more: "branch_node plan nodes b n \<Longrightarrow> branch_node plan (nodes @ tl1) b n"
proof (cases b)
  case (BrScan k takes)
  assume "branch_node plan nodes b n"
  with BrScan show ?thesis using scan_node_more vec_get_more unfolding BrScan branch_node.simps by metis
next
  case (BrJoin j)
  assume "branch_node plan nodes b n"
  with BrJoin show ?thesis unfolding BrJoin branch_node.simps Let_def by (elim exE conjE) (rule exI conjI scan_node_more vec_get_more | assumption)+
qed

lemma nodes_ordered_snoc: "nodes_ordered (nodes @ [op]) \<longleftrightarrow> nodes_ordered nodes \<and> (\<forall>x \<in> set (op_inputs op). x < length nodes)"
  by (auto simp: nodes_ordered_def nth_append less_Suc_eq)

lemma expect_some_Some [simp]: "expect_some (Some x) = Ok x"
  by (simp add: expect_some_def)

lemma map_rust_position:
  "set names \<subseteq> set cols \<Longrightarrow> map_rust (\<lambda>name. expect_some (position_of (\<lambda>c. c = name) cols)) names = Ok (map (col_at cols) names)"
  by (rule map_rust_OkI) (use col_at_ok in \<open>fastforce\<close>)

lemma lower_scans_ok:
  assumes "nodes_ordered nodes" "\<forall>scan \<in> set scans. ss_table scan \<in> set sources \<and> set (ss_needed scan) \<subseteq> set (ss_columns scan)"
  shows "\<exists>tl1 new. lower_scans sources scans nodes sns = Ok (nodes @ tl1, sns @ new) \<and> nodes_ordered (nodes @ tl1) \<and>
    list_all2 (\<lambda>scan n. n < length (nodes @ tl1) \<and> scan_node sources (nodes @ tl1) scan n) scans new"
  using assms
proof (induction scans arbitrary: nodes sns)
  case (Cons scan scans)
  let ?proj = "map (col_at (ss_columns scan)) (ss_needed scan)"
  obtain src where src: "position_of (\<lambda>name. name = ss_table scan) sources = Some src" "src < length sources" "sources ! src = ss_table scan"
    using Cons.prems(2) position_of_member [of "ss_table scan" sources] by auto
  let ?two = "[OGet src, OMfp (length nodes) [] [] ?proj]"
  have "nodes_ordered ((nodes @ [OGet src]) @ [OMfp (length nodes) [] [] ?proj])"
    using Cons.prems(1) by (simp only: nodes_ordered_snoc) simp
  then have "nodes_ordered (nodes @ ?two)" by simp
  from Cons.IH [OF this, of "sns @ [Suc (length nodes)]"] Cons.prems(2) obtain tl1 new where
    IH: "lower_scans sources scans (nodes @ ?two) (sns @ [Suc (length nodes)]) = Ok ((nodes @ ?two) @ tl1, (sns @ [Suc (length nodes)]) @ new)"
      "nodes_ordered ((nodes @ ?two) @ tl1)"
      "list_all2 (\<lambda>scan n. n < length ((nodes @ ?two) @ tl1) \<and> scan_node sources ((nodes @ ?two) @ tl1) scan n) scans new"
    by auto
  have "scan_node sources (nodes @ ?two) scan (Suc (length nodes))"
    unfolding scan_node_def using src by (intro exI [of _ "length nodes"] exI [of _ src]) (simp add: nth_append)
  then have "scan_node sources ((nodes @ ?two) @ tl1) scan (Suc (length nodes))" by (rule scan_node_more)
  then have "list_all2 (\<lambda>scan n. n < length (nodes @ (?two @ tl1)) \<and> scan_node sources (nodes @ (?two @ tl1)) scan n) (scan # scans) (Suc (length nodes) # new)"
    using IH(3) by simp
  moreover have "lower_scans sources (scan # scans) nodes sns = Ok (nodes @ (?two @ tl1), sns @ (Suc (length nodes) # new))"
    using IH(1) src(1) Cons.prems(2) by (simp add: map_rust_position)
  moreover have "nodes_ordered (nodes @ (?two @ tl1))" using IH(2) by simp
  ultimately show ?case by blast
qed (auto simp: intro!: exI [of _ "[]"])

lemma lower_equivalences_ok:
  "list_all (\<lambda>key. fst key \<in> set (ss_needed left) \<and> snd key \<in> set (ss_needed right)) keys \<Longrightarrow>
   lower_equivalences left right keys = Ok (map (key_class left right) keys)"
  by (induction left right keys rule: lower_equivalences.induct) (auto simp: key_class_def dest!: col_at_ok)

text \<open>A branch whose indexes are in range.\<close>

fun branch_in_range :: "'n compiled \<Rightarrow> branch_ref \<Rightarrow> bool" where
  "branch_in_range plan (BrScan k takes) \<longleftrightarrow> k < length (cd_scans plan) \<and> list_all (\<lambda>i. i < length (ss_needed (cd_scans plan ! k))) takes"
| "branch_in_range plan (BrJoin j) \<longleftrightarrow> j < length (cd_joins plan) \<and> (let join = cd_joins plan ! j in
     list_all (key_needed (cd_scans plan) (js_left join) (js_right join)) (zip (js_left_key join) (js_right_key join)) \<and>
     js_left join < length (cd_scans plan) \<and> js_right join < length (cd_scans plan) \<and>
     list_all (\<lambda>i. i < length (ss_needed (cd_scans plan ! js_left join))) (js_left_proj join) \<and>
     list_all (\<lambda>i. i < length (ss_needed (cd_scans plan ! js_right join))) (js_right_proj join))"

lemma takes_in_range:
  "list_all2 (\<lambda>i r. taken scans k i (f r)) takes refs \<Longrightarrow> list_all (\<lambda>i. i < length (ss_needed (scans ! k))) takes"
  by (auto simp: list_all2_conv_all_nth list_all_length taken_def)

lemma branch_ok_in_range: "branch_ok (cd_scans plan) (cd_joins plan) s b \<Longrightarrow> branch_in_range plan b"
  by (cases b) (auto simp: scan_branch_ok_def join_branch_ok_def Let_def intro: takes_in_range)

lemma lower_branch_ok:
  assumes "branch_in_range plan b" "nodes_ordered nodes"
    and sns: "list_all2 (\<lambda>scan n. n < length nodes \<and> scan_node (cd_sources plan) nodes scan n) (cd_scans plan) sns"
  shows "\<exists>input project tl1. lower_branch plan sns b nodes = Ok (input, project, nodes @ tl1) \<and> input < length (nodes @ tl1) \<and> nodes_ordered (nodes @ tl1) \<and>
    branch_node plan (nodes @ tl1 @ [OMfp input [] [] project]) b (length (nodes @ tl1))"
proof (cases b)
  case (BrScan k takes)
  with assms(1) have k: "k < length (cd_scans plan)" by simp
  with sns have sn: "k < length sns" "sns ! k < length nodes" "scan_node (cd_sources plan) nodes (cd_scans plan ! k) (sns ! k)"
    by (auto simp: list_all2_conv_all_nth)
  from scan_node_more [OF sn(3), of "[OMfp (sns ! k) [] [] takes]"] sn(1,2) BrScan assms(2) show ?thesis
    by (auto simp: lower_branch_def vec_index_def intro!: exI [of _ "[]"])
next
  case (BrJoin j)
  let ?join = "cd_joins plan ! j"
  let ?left = "cd_scans plan ! js_left ?join" and ?right = "cd_scans plan ! js_right ?join"
  let ?keys = "zip (js_left_key ?join) (js_right_key ?join)"
  from assms(1) BrJoin have r: "j < length (cd_joins plan)" "list_all (key_needed (cd_scans plan) (js_left ?join) (js_right ?join)) ?keys"
    "js_left ?join < length (cd_scans plan)" "js_right ?join < length (cd_scans plan)" by (auto simp: Let_def)
  from sns r(3,4) have sl: "js_left ?join < length sns" "sns ! js_left ?join < length nodes" "scan_node (cd_sources plan) nodes ?left (sns ! js_left ?join)"
    and sr: "js_right ?join < length sns" "sns ! js_right ?join < length nodes" "scan_node (cd_sources plan) nodes ?right (sns ! js_right ?join)"
    by (auto simp: list_all2_conv_all_nth)
  let ?op = "OJoin [sns ! js_left ?join, sns ! js_right ?join] (map (key_class ?left ?right) ?keys) []"
  let ?proj = "js_left_proj ?join @ map (\<lambda>i. length (ss_needed ?left) + i) (js_right_proj ?join)"
  have "lower_equivalences ?left ?right ?keys = Ok (map (key_class ?left ?right) ?keys)"
    by (rule lower_equivalences_ok) (use r(2) in \<open>auto simp: key_needed_def elim!: list.pred_mono_strong\<close>)
  then have run: "lower_branch plan sns b nodes = Ok (length nodes, ?proj, nodes @ [?op])"
    using BrJoin r sl sr by (simp add: lower_branch_def vec_index_def)
  have "nodes_ordered (nodes @ [?op])" using assms(2) sl(2) sr(2) by (simp add: nodes_ordered_snoc)
  moreover have "branch_node plan (nodes @ [?op] @ [OMfp (length nodes) [] [] ?proj]) b (length (nodes @ [?op]))"
    unfolding BrJoin branch_node.simps Let_def
    using sl(2) sr(2) scan_node_more [OF sl(3), of "[?op] @ [OMfp (length nodes) [] [] ?proj]"]
      scan_node_more [OF sr(3), of "[?op] @ [OMfp (length nodes) [] [] ?proj]"]
    by - (rule exI [of _ "length nodes"], rule exI [of _ "sns ! js_left ?join"], rule exI [of _ "sns ! js_right ?join"], simp add: nth_append)
  ultimately show ?thesis using run by (intro exI [of _ "length nodes"] exI [of _ ?proj] exI [of _ "[?op]"]) simp
qed

lemma lower_branches_ok:
  assumes "list_all (branch_in_range plan) bs" "nodes_ordered nodes"
    and "list_all2 (\<lambda>scan n. n < length nodes \<and> scan_node (cd_sources plan) nodes scan n) (cd_scans plan) sns"
  shows "\<exists>tl1 new. lower_branches plan sns bs nodes bns = Ok (nodes @ tl1, bns @ new) \<and> nodes_ordered (nodes @ tl1) \<and>
    list_all2 (\<lambda>b n. n < length (nodes @ tl1) \<and> branch_node plan (nodes @ tl1) b n) bs new"
  using assms
proof (induction bs arbitrary: nodes bns)
  case (Cons b bs)
  from Cons.prems(1) have b: "branch_in_range plan b" "list_all (branch_in_range plan) bs" by simp_all
  from lower_branch_ok [OF b(1) Cons.prems(2,3)] obtain input project m1 where one: "lower_branch plan sns b nodes = Ok (input, project, nodes @ m1)"
    "input < length (nodes @ m1)" "nodes_ordered (nodes @ m1)" "branch_node plan (nodes @ m1 @ [OMfp input [] [] project]) b (length (nodes @ m1))" by blast
  let ?m = "m1 @ [OMfp input [] [] project]"
  have ord: "nodes_ordered (nodes @ ?m)" using one(2,3) nodes_ordered_snoc [of "nodes @ m1" "OMfp input [] [] project"] by simp
  have "list_all2 (\<lambda>scan n. n < length (nodes @ ?m) \<and> scan_node (cd_sources plan) (nodes @ ?m) scan n) (cd_scans plan) sns"
    using Cons.prems(3) by (rule list.rel_mono_strong) (use scan_node_more in force)
  from Cons.IH [OF b(2) ord this, of "bns @ [length (nodes @ m1)]"] obtain tl1 new where
    IH: "lower_branches plan sns bs (nodes @ ?m) (bns @ [length (nodes @ m1)]) = Ok ((nodes @ ?m) @ tl1, (bns @ [length (nodes @ m1)]) @ new)"
    "nodes_ordered ((nodes @ ?m) @ tl1)" "list_all2 (\<lambda>b n. n < length ((nodes @ ?m) @ tl1) \<and> branch_node plan ((nodes @ ?m) @ tl1) b n) bs new"
    by blast
  have "branch_node plan ((nodes @ ?m) @ tl1) b (length (nodes @ m1))" by (rule branch_node_more) (use one(4) in simp)
  then have "list_all2 (\<lambda>b n. n < length (nodes @ (?m @ tl1)) \<and> branch_node plan (nodes @ (?m @ tl1)) b n) (b # bs) (length (nodes @ m1) # new)"
    using IH(3) by simp
  moreover have "lower_branches plan sns (b # bs) nodes bns = Ok (nodes @ (?m @ tl1), bns @ (length (nodes @ m1) # new))"
    using one(1) IH(1) by simp
  moreover have "nodes_ordered (nodes @ (?m @ tl1))" using IH(2) by simp
  ultimately show ?case by blast
qed (auto intro!: exI [of _ "[]"])

subsection \<open>The program\<close>

definition root_node :: "'n compiled \<Rightarrow> ir_op list \<Rightarrow> ir_op \<Rightarrow> bool" where
  "root_node plan nodes op \<longleftrightarrow> (case cd_root plan of
     RtNodes _ \<Rightarrow> False
   | RtUnion bs \<Rightarrow> (\<exists>ns. op = OUnion ns \<and> list_all2 (\<lambda>b n. n < length nodes \<and> branch_node plan nodes b n) bs ns)
   | RtGroup k keys sums1 _ \<Rightarrow> (\<exists>input. input < length nodes \<and> scan_node (cd_sources plan) nodes (cd_scans plan ! k) input \<and>
       op = OReduce input (map tn_take keys) (ACount # map (\<lambda>s. ASum (tn_take s)) sums1)))"

definition root_in_range :: "'n compiled \<Rightarrow> bool" where
  "root_in_range plan \<longleftrightarrow> (case cd_root plan of
     RtNodes _ \<Rightarrow> False
   | RtUnion bs \<Rightarrow> bs \<noteq> [] \<and> list_all (branch_in_range plan) bs
   | RtGroup k keys sums1 extremes \<Rightarrow> extremes = [] \<and> k < length (cd_scans plan) \<and>
       list_all (\<lambda>t. tn_take t < length (ss_needed (cd_scans plan ! k))) (keys @ sums1))"

definition source_types_ok :: "sql_schema \<Rightarrow> 'n compiled \<Rightarrow> (string \<Rightarrow> ty list option) \<Rightarrow> bool" where
  "source_types_ok schema plan source_types \<longleftrightarrow>
     list_all (\<lambda>name. map_option length (source_types name) = map_option length (schema name)) (cd_sources plan)"

definition rels_of :: "string list \<Rightarrow> (string \<Rightarrow> ty list option) \<Rightarrow> nat \<Rightarrow> ir_relation list" where
  "rels_of sources source_types n =
     map (\<lambda>i. \<lparr>ir_id = n + i, ir_name = sources ! i, ir_cols = the (source_types (sources ! i)), ir_kind = KSource\<rparr>) [0..<length sources]"

lemma rels_of_Cons:
  "rels_of (name # sources) source_types n =
   \<lparr>ir_id = n, ir_name = name, ir_cols = the (source_types name), ir_kind = KSource\<rparr> # rels_of sources source_types (Suc n)"
  by (simp add: rels_of_def upt_rec [of 0] map_Suc_upt [symmetric] del: upt_Suc)

lemma source_rels_ok:
  assumes "\<forall>scan \<in> set scans. schema (ss_table scan) = Some (ss_columns scan)" "set sources \<subseteq> ss_table ` set scans"
  shows "if list_all (\<lambda>name. map_option length (source_types name) = map_option length (schema name)) sources
    then source_rels scans source_types n sources = Ok (rels_of sources source_types n) else \<exists>e. source_rels scans source_types n sources = Err e"
  using assms(2)
proof (induction sources arbitrary: n)
  case (Cons name sources)
  obtain scan where scan: "find (\<lambda>scan. ss_table scan = name) scans = Some scan" "scan \<in> set scans" "ss_table scan = name"
    using Cons.prems by (cases "find (\<lambda>scan. ss_table scan = name) scans") (auto simp: find_None_iff find_Some_iff)
  with assms(1) have cols: "schema name = Some (ss_columns scan)" by auto
  from Cons.IH [of "Suc n"] Cons.prems scan(1) cols show ?case
    by (cases "source_types name") (auto simp: rels_of_Cons split: if_splits)
qed (simp add: rels_of_def)

lemma lower_root_ok:
  assumes "root_in_range plan" "nodes_ordered nodes"
    and sns: "list_all2 (\<lambda>scan n. n < length nodes \<and> scan_node (cd_sources plan) nodes scan n) (cd_scans plan) sns"
  shows "\<exists>mid op. lower_root plan sns nodes = Ok (nodes @ mid @ [op]) \<and> nodes_ordered (nodes @ mid @ [op]) \<and> root_node plan (nodes @ mid) op"
proof (cases "cd_root plan")
  case (RtUnion bs)
  with assms(1) have "list_all (branch_in_range plan) bs" by (simp add: root_in_range_def)
  from lower_branches_ok [OF this assms(2,3), of "[]"] obtain mid ns where
    run: "lower_branches plan sns bs nodes [] = Ok (nodes @ mid, ns)" and ord: "nodes_ordered (nodes @ mid)"
    and ns: "list_all2 (\<lambda>b n. n < length (nodes @ mid) \<and> branch_node plan (nodes @ mid) b n) bs ns" by auto
  have "\<forall>x \<in> set ns. x < length (nodes @ mid)" using ns by (auto simp: list_all2_conv_all_nth in_set_conv_nth)
  with ord have "nodes_ordered ((nodes @ mid) @ [OUnion ns])" by (simp only: nodes_ordered_snoc) simp
  with run ns RtUnion show ?thesis by (auto simp: lower_root_def root_node_def intro!: exI [of _ mid])
next
  case (RtGroup k keys sums1 extremes)
  with assms(1) sns have k: "k < length sns" "sns ! k < length nodes" "scan_node (cd_sources plan) nodes (cd_scans plan ! k) (sns ! k)" "extremes = []"
    by (auto simp: root_in_range_def list_all2_conv_all_nth)
  with assms(2) RtGroup show ?thesis
    by (auto simp: lower_root_def root_node_def vec_index_def nodes_ordered_snoc intro!: exI [of _ "[]"])
qed (use assms(1) in \<open>simp add: root_in_range_def\<close>)

subsection \<open>Types of ordered nodes\<close>

lemma type_inputs_subset: "set (type_inputs op) \<subseteq> set (op_inputs op)"
  by (cases op) (auto dest: in_set_takeD)

lemma ordered_not_cyclic: "nodes_ordered (pr_nodes p) \<Longrightarrow> \<not> cyclic_from p i"
proof
  assume ord: "nodes_ordered (pr_nodes p)" and "cyclic_from p i"
  then obtain x where "(x, x) \<in> (node_edges p)\<^sup>+" by (auto simp: cyclic_from_def)
  moreover have "v < u" if "(u, v) \<in> (node_edges p)\<^sup>+" for u v
    using that
  proof (induction rule: trancl_induct)
    case (base y)
    with ord show ?case using type_inputs_subset by (fastforce simp: node_edges_def nodes_ordered_def)
  next
    case (step y z)
    then have "z < y" using ord type_inputs_subset by (fastforce simp: node_edges_def nodes_ordered_def)
    with step show ?case by simp
  qed
  ultimately show False by blast
qed

lemma ordered_types:
  "nodes_ordered (pr_nodes p) \<Longrightarrow> vec_get (pr_nodes p) n = Some op \<Longrightarrow> node_types p n = op_types p op (node_types p)"
  by (subst node_types_step) (simp_all add: ordered_not_cyclic)

lemma vec_gets_in_range: "list_all (\<lambda>i. i < length xs) is1 \<Longrightarrow> \<exists>ys. map_option_list (vec_get xs) is1 = Some ys \<and> length ys = length is1"
  by (induction is1) (auto simp: vec_get_def)

lemma ir_rel_source:
  assumes "pr_rels p = rels_of sources source_types 0 @ [out]" "k < length sources"
  shows "ir_rel p k = Some (rels_of sources source_types 0 ! k)"
proof -
  have "find (\<lambda>r. ir_id r = k) (rels_of sources source_types 0 @ [out]) = Some (rels_of sources source_types 0 ! k)"
    unfolding find_Some_iff using assms(2) by (intro exI [of _ k]) (auto simp: rels_of_def nth_append)
  with assms(1) show ?thesis by (simp add: ir_rel_def)
qed

lemma scan_node_types:
  assumes "nodes_ordered (pr_nodes p)" "pr_rels p = rels_of sources source_types 0 @ [out]" "scan_node sources (pr_nodes p) scan n"
    "map_option length (source_types (ss_table scan)) = Some (length (ss_columns scan))" "set (ss_needed scan) \<subseteq> set (ss_columns scan)" "ss_needed scan \<noteq> []"
  shows "\<exists>ts. node_types p n = Some ts \<and> length ts = length (ss_needed scan)"
proof -
  let ?proj = "map (col_at (ss_columns scan)) (ss_needed scan)"
  from assms(3) obtain m src where m: "vec_get (pr_nodes p) m = Some (OGet src)" "src < length sources" "sources ! src = ss_table scan"
    "vec_get (pr_nodes p) n = Some (OMfp m [] [] ?proj)" unfolding scan_node_def by blast
  obtain ts where ts: "source_types (ss_table scan) = Some ts" "length ts = length (ss_columns scan)" using assms(4) by auto
  have "node_types p m = Some ts"
    using ordered_types [OF assms(1) m(1)] ir_rel_source [OF assms(2) m(2)] m(2,3) ts by (simp add: rels_of_def)
  moreover have "list_all (\<lambda>i. i < length ts) ?proj" using assms(5) col_at_ok ts(2) by (auto simp: list_all_iff)
  then obtain ys where "map_option_list (vec_get ts) ?proj = Some ys" "length ys = length ?proj" using vec_gets_in_range by blast
  ultimately show ?thesis using ordered_types [OF assms(1) m(4)] assms(6) by (simp add: project_types_def)
qed

lemma branch_node_types:
  assumes ord: "nodes_ordered (pr_nodes p)" and rels: "pr_rels p = rels_of (cd_sources plan) source_types 0 @ [out]"
    and ok: "scans_ok schema plan" "source_types_ok schema plan source_types"
    and node: "branch_node plan (pr_nodes p) b n" "branch_in_range plan b"
  shows "\<exists>ts. node_types p n = Some ts"
proof -
  have scan: "\<exists>ts. node_types p m = Some ts \<and> length ts = length (ss_needed scan)"
    if "scan \<in> set (cd_scans plan)" "scan_node (cd_sources plan) (pr_nodes p) scan m" for scan m
  proof (rule scan_node_types [OF ord rels that(2)])
    from ok(1) that(1) have *: "schema (ss_table scan) = Some (ss_columns scan)" "set (ss_needed scan) \<subseteq> set (ss_columns scan)"
      "ss_needed scan \<noteq> []" "ss_table scan \<in> set (cd_sources plan)" by (auto simp: scans_ok_def)
    show "set (ss_needed scan) \<subseteq> set (ss_columns scan)" "ss_needed scan \<noteq> []" using * by blast+
    show "map_option length (source_types (ss_table scan)) = Some (length (ss_columns scan))"
      using ok(2) * by (auto simp: source_types_ok_def list_all_iff)
  qed
  show ?thesis
  proof (cases b)
    case (BrScan k takes)
    with node obtain input where i: "scan_node (cd_sources plan) (pr_nodes p) (cd_scans plan ! k) input"
      "vec_get (pr_nodes p) n = Some (OMfp input [] [] takes)" "k < length (cd_scans plan)"
      "list_all (\<lambda>i. i < length (ss_needed (cd_scans plan ! k))) takes" by auto
    from scan [OF nth_mem [OF i(3)] i(1)] obtain ts where ts: "node_types p input = Some ts" "length ts = length (ss_needed (cd_scans plan ! k))" by blast
    with i(4) obtain ys where "map_option_list (vec_get ts) takes = Some ys" using vec_gets_in_range [of ts takes] by auto
    with ts ordered_types [OF ord i(2)] show ?thesis by (simp add: project_types_def)
  next
    case (BrJoin j)
    define join left right where d: "join = cd_joins plan ! j" "left = cd_scans plan ! js_left join" "right = cd_scans plan ! js_right join"
    let ?proj = "js_left_proj join @ map (\<lambda>i. length (ss_needed left) + i) (js_right_proj join)"
    from node BrJoin obtain m l r where i: "scan_node (cd_sources plan) (pr_nodes p) left l" "scan_node (cd_sources plan) (pr_nodes p) right r"
      "vec_get (pr_nodes p) m = Some (OJoin [l, r] (map (key_class left right) (zip (js_left_key join) (js_right_key join))) [])"
      "vec_get (pr_nodes p) n = Some (OMfp m [] [] ?proj)"
      "js_left join < length (cd_scans plan)" "js_right join < length (cd_scans plan)"
      "list_all (\<lambda>i. i < length (ss_needed left)) (js_left_proj join)" "list_all (\<lambda>i. i < length (ss_needed right)) (js_right_proj join)"
      by (auto simp: d Let_def simp del: vec_get_Some_iff)
    from scan [OF nth_mem [OF i(5)], of l] i(1) obtain tl where tl: "node_types p l = Some tl" "length tl = length (ss_needed left)" by (auto simp: d)
    from scan [OF nth_mem [OF i(6)], of r] i(2) obtain tr where tr: "node_types p r = Some tr" "length tr = length (ss_needed right)" by (auto simp: d)
    have m: "node_types p m = Some (tl @ tr)" using ordered_types [OF ord i(3)] tl tr by (simp add: project_types_def)
    have "list_all (\<lambda>i. i < length (tl @ tr)) ?proj" using i(7,8) tl(2) tr(2) by (auto simp: list_all_iff)
    then obtain ys where "map_option_list (vec_get (tl @ tr)) ?proj = Some ys" using vec_gets_in_range by blast
    with m ordered_types [OF ord i(4)] show ?thesis by (simp add: project_types_def)
  qed
qed

lemma root_node_types:
  assumes ord: "nodes_ordered (pr_nodes p)" and rels: "pr_rels p = rels_of (cd_sources plan) source_types 0 @ [out]"
    and ok: "scans_ok schema plan" "source_types_ok schema plan source_types"
    and node: "pr_nodes p = nodes @ [op]" "root_node plan nodes op" "root_in_range plan"
  shows "\<exists>ts. node_types p (length nodes) = Some ts"
proof -
  have at: "vec_get (pr_nodes p) (length nodes) = Some op" using node(1) by simp
  show ?thesis
  proof (cases "cd_root plan")
    case (RtUnion bs)
    with node(2) obtain ns where op: "op = OUnion ns" and ns: "list_all2 (\<lambda>b n. n < length nodes \<and> branch_node plan nodes b n) bs ns"
      by (auto simp: root_node_def)
    obtain b bs1 where bs: "bs = b # bs1" using node(3) RtUnion by (cases bs) (auto simp: root_in_range_def)
    with ns obtain n ns1 where n: "ns = n # ns1" "branch_node plan nodes b n" by (auto simp: list_all2_Cons1)
    have "branch_in_range plan b" using node(3) RtUnion bs by (simp add: root_in_range_def)
    from branch_node_types [OF ord rels ok branch_node_more [OF n(2), of "[op]", folded node(1)] this]
    show ?thesis using ordered_types [OF ord at] op n(1) by simp
  next
    case (RtGroup k keys sums1 extremes)
    let ?scan = "cd_scans plan ! k"
    from RtGroup node(2,3) obtain input where i: "scan_node (cd_sources plan) nodes ?scan input"
      "op = OReduce input (map tn_take keys) (ACount # map (\<lambda>s. ASum (tn_take s)) sums1)" "k < length (cd_scans plan)"
      and range: "list_all (\<lambda>t. tn_take t < length (ss_needed ?scan)) (keys @ sums1)"
      by (auto simp: root_node_def root_in_range_def)
    have "?scan \<in> set (cd_scans plan)" using i(3) by simp
    with ok have s: "schema (ss_table ?scan) = Some (ss_columns ?scan)" "set (ss_needed ?scan) \<subseteq> set (ss_columns ?scan)" "ss_needed ?scan \<noteq> []"
      "ss_table ?scan \<in> set (cd_sources plan)" by (auto simp: scans_ok_def)
    have "map_option length (source_types (ss_table ?scan)) = Some (length (ss_columns ?scan))"
      using ok(2) s by (auto simp: source_types_ok_def list_all_iff)
    from scan_node_types [OF ord rels scan_node_more [OF i(1), of "[op]", folded node(1)] this s(2,3)]
    obtain ts where ts: "node_types p input = Some ts" "length ts = length (ss_needed ?scan)" by blast
    from range have "list_all (\<lambda>i. i < length ts) (map tn_take keys)" using ts(2) by (auto simp: list_all_iff)
    then obtain ks where "map_option_list (vec_get ts) (map tn_take keys) = Some ks" using vec_gets_in_range by blast
    moreover have "\<exists>as. map_option_list (agg_type ts) (map (\<lambda>s. ASum (tn_take s)) sums1) = Some as"
      using range ts(2) by (induction sums1) (auto simp: vec_get_def)
    ultimately show ?thesis using ordered_types [OF ord at] i(2) ts(1) by auto
  qed (use node(2) in \<open>simp add: root_node_def\<close>)
qed

subsection \<open>Lowering a plan\<close>

definition built_from :: "'n compiled \<Rightarrow> (string \<Rightarrow> ty list option) \<Rightarrow> ir_program \<Rightarrow> bool" where
  "built_from plan source_types p \<longleftrightarrow> (\<exists>nodes op cols. pr_nodes p = nodes @ [op] \<and> root_node plan nodes op \<and> nodes_ordered (pr_nodes p) \<and>
     pr_rels p = rels_of (cd_sources plan) source_types 0 @ [\<lparr>ir_id = length (cd_sources plan), ir_name = [], ir_cols = cols, ir_kind = KDerived\<rparr>] \<and>
     pr_strata p = [SLet (length (cd_sources plan)) (length nodes)] \<and> pr_outputs p = [length (cd_sources plan)])"

lemma lower_ir_ok:
  assumes scans: "scans_ok schema plan" and range: "root_in_range plan"
  shows "if source_types_ok schema plan source_types then \<exists>p. lower_ir plan source_types = Ok p \<and> built_from plan source_types p
    else \<exists>e. lower_ir plan source_types = Err e"
proof -
  have sc: "\<forall>scan \<in> set (cd_scans plan). schema (ss_table scan) = Some (ss_columns scan)"
    "set (cd_sources plan) \<subseteq> ss_table ` set (cd_scans plan)" using scans by (auto simp: scans_ok_def)
  note rels = source_rels_ok [OF sc, of source_types 0]
  show ?thesis
  proof (cases "source_types_ok schema plan source_types")
    case False
    with rels show ?thesis by (auto simp: source_types_ok_def lower_ir_def)
  next
    case True
    let ?rels = "rels_of (cd_sources plan) source_types 0"
    have rels_run: "source_rels (cd_scans plan) source_types 0 (cd_sources plan) = Ok ?rels"
      using rels True by (simp add: source_types_ok_def)
    have "\<forall>scan \<in> set (cd_scans plan). ss_table scan \<in> set (cd_sources plan) \<and> set (ss_needed scan) \<subseteq> set (ss_columns scan)"
      using scans by (auto simp: scans_ok_def)
    from lower_scans_ok [OF _ this, of "[]" "[]"] obtain nodes sns where
      one: "lower_scans (cd_sources plan) (cd_scans plan) [] [] = Ok (nodes, sns)" and ord: "nodes_ordered nodes"
      and sns: "list_all2 (\<lambda>scan n. n < length nodes \<and> scan_node (cd_sources plan) nodes scan n) (cd_scans plan) sns"
      by (auto simp: nodes_ordered_def)
    from lower_root_ok [OF range ord sns] obtain mid op where two: "lower_root plan sns nodes = Ok (nodes @ mid @ [op])"
      and ord2: "nodes_ordered (nodes @ mid @ [op])" and top: "root_node plan (nodes @ mid) op" by blast
    let ?n = "length (nodes @ mid)" and ?id = "length (cd_sources plan)"
    let ?p = "\<lambda>cols. \<lparr>pr_texts = [], pr_terms = [], pr_rels = ?rels @ [\<lparr>ir_id = ?id, ir_name = [], ir_cols = cols, ir_kind = KDerived\<rparr>],
        pr_nodes = (nodes @ mid) @ [op], pr_strata = [SLet ?id ?n], pr_outputs = [?id]\<rparr>"
    have types: "\<exists>ts. node_types (?p cols) ?n = Some ts" for cols
      by (rule root_node_types [OF _ _ scans True _ top range]) (use ord2 in simp_all)
    then obtain ts where ts: "node_types (?p []) ?n = Some ts" by blast
    have len: "length ?rels = ?id" by (simp add: rels_of_def)
    have run: "lower_ir plan source_types = Ok (?p ts)"
      using rels_run one two ts len by (simp add: lower_ir_def Let_def)
    have "built_from plan source_types (?p ts)"
      unfolding built_from_def using top ord2 by (intro exI [of _ "nodes @ mid"] exI [of _ op] exI [of _ ts]) simp
    with run True show ?thesis by auto
  qed
qed

end
