(* ===== verification/Sql_Safe.thy ===== *)
theory Sql_Safe
  imports Sql_Print Sql_Lower_Laws
begin

text \<open>
  The front end does not panic: no index is out of range and no \<open>unreachable!\<close> is reached, for any text,
  schema and source types.
\<close>

named_theorems no_panic

lemma case_option_Panic_iff [simp]:
  "(case x of None \<Rightarrow> a | Some y \<Rightarrow> f y) = Panic \<longleftrightarrow> (x = None \<and> a = Panic) \<or> (\<exists>y. x = Some y \<and> f y = Panic)"
  by (cases x) auto

subsection \<open>Tokenizer and parser\<close>

lemma take_quoted_no_panic [no_panic]: "take_quoted q b s \<noteq> Panic"
  by (induction q b s rule: take_quoted.induct) (auto split: list.split)

lemma lex_token_no_panic [no_panic]: "s \<noteq> [] \<Longrightarrow> lex_token s \<noteq> Panic"
  by (cases s) (auto simp: rust_simps no_panic)

lemma lex_loop_no_panic [no_panic]: "lex_loop out s \<noteq> Panic"
proof (induction out s rule: lex_loop.induct)
  case (1 out s)
  then show ?case
    using lex_token_no_panic [of "trim_start s"] by (subst lex_loop.simps) (auto simp: Let_def rust_simps split: option.split)
qed

lemma expect_no_panic [no_panic]: "expect_keyword w toks \<noteq> Panic" "expect_sym w toks \<noteq> Panic"
  by (simp_all add: expect_keyword_def expect_sym_def)

lemma parse_name_no_panic [no_panic]: "parse_name toks \<noteq> Panic"
  by (induction toks rule: parse_name.induct) simp_all

lemma parse_ref_no_panic [no_panic]: "parse_ref toks \<noteq> Panic"
  by (auto simp: parse_ref_def rust_simps no_panic)

lemma parse_equality_no_panic [no_panic]: "parse_equality toks \<noteq> Panic"
  by (auto simp: parse_equality_def rust_simps no_panic)

lemma finish_item_no_panic [no_panic]: "finish_item item toks \<noteq> Panic"
  by (auto simp: finish_item_def split: list.splits tok.splits)

lemma parse_item_no_panic [no_panic]: "parse_item toks \<noteq> Panic"
  by (auto simp: parse_item_def rust_simps no_panic)

lemma parse_table_no_panic [no_panic]: "parse_table toks \<noteq> Panic"
  by (auto simp: parse_table_def rust_simps no_panic split: if_splits)

lemma more_items_no_panic [no_panic]: "more_items items toks \<noteq> Panic"
proof (induction items toks rule: more_items.induct)
  case (1 items toks)
  then show ?case by (subst more_items.simps) (auto simp: rust_simps no_panic)
qed

lemma more_refs_no_panic [no_panic]: "more_refs items toks \<noteq> Panic"
proof (induction items toks rule: more_refs.induct)
  case (1 items toks)
  then show ?case by (subst more_refs.simps) (auto simp: rust_simps no_panic)
qed

lemma more_conds_no_panic [no_panic]: "more_conds items toks \<noteq> Panic"
proof (induction items toks rule: more_conds.induct)
  case (1 items toks)
  then show ?case by (subst more_conds.simps) (auto simp: rust_simps no_panic)
qed

lemma parse_join_no_panic [no_panic]: "parse_join f toks \<noteq> Panic"
  by (auto simp: parse_join_def parse_on_def rust_simps no_panic)

lemma more_joins_no_panic [no_panic]: "more_joins f toks \<noteq> Panic"
proof (induction f toks rule: more_joins.induct)
  case (1 f toks)
  then show ?case by (subst more_joins.simps) (auto simp: rust_simps no_panic)
qed

lemma parse_select_no_panic [no_panic]: "parse_select toks \<noteq> Panic"
  by (auto simp: parse_select_def parse_body_def parse_group_def parse_from_def rust_simps no_panic split: if_splits)

lemma more_selects_no_panic [no_panic]: "more_selects ss toks \<noteq> Panic"
proof (induction ss toks rule: more_selects.induct)
  case (1 ss toks)
  then show ?case by (subst more_selects.simps) (auto simp: rust_simps no_panic)
qed

lemma parse_sql_no_panic: "parse_sql sql \<noteq> Panic"
  by (auto simp: parse_sql_def lex_def parse_program_def rust_simps no_panic split: if_splits)

subsection \<open>Plans\<close>

lemma plan_scan_no_panic [no_panic]: "plan_scan name al c \<noteq> Panic"
  by (auto simp: plan_scan_def Let_def)

lemma join_side_no_panic [no_panic]: "join_side side c \<noteq> Panic"
  by (auto simp: join_side_def no_panic split: ast_from.splits)

lemma add_needed_no_panic [no_panic]: "k < length (pc_scans c) \<Longrightarrow> add_needed k column unknown c \<noteq> Panic"
  by (auto simp: add_needed_def rust_simps split: if_splits)

lemma resolve_into_no_panic [no_panic]: "k < length (pc_scans c) \<Longrightarrow> resolve_into k al r c \<noteq> Panic"
  by (auto simp: resolve_into_def column_of_def rust_simps no_panic split: if_splits)

lemma scan_items_no_panic [no_panic]: "sr_scan t < length (pc_scans c) \<Longrightarrow> plan_wf c \<Longrightarrow> scan_items t items takes c \<noteq> Panic"
proof (induction t items takes c rule: scan_items.induct)
  case (2 t r al items takes c)
  show ?case
  proof (cases "resolve_into (sr_scan t) (sr_alias t) r c")
    case (Ok x)
    then have "resolve_into (sr_scan t) (sr_alias t) r c = Ok (fst x, snd x)" by simp
    from 2(1) [OF Ok prod.collapse] resolve_into_ok [OF this 2(3)] 2(2) Ok show ?thesis by (simp add: case_prod_unfold)
  qed (use 2(2) resolve_into_no_panic in auto)
qed auto

lemma locate_no_panic [no_panic]:
  "sr_scan l < length (pc_scans c) \<Longrightarrow> sr_scan r < length (pc_scans c) \<Longrightarrow> locate l r a c \<noteq> Panic"
  by (auto simp: locate_def rust_simps split: if_splits bool.splits)

lemma join_conds_no_panic [no_panic]:
  "sr_scan l < length (pc_scans c) \<Longrightarrow> sr_scan r < length (pc_scans c) \<Longrightarrow> plan_wf c \<Longrightarrow> join_conds l r conds lk rk c \<noteq> Panic"
proof (induction conds arbitrary: lk rk c)
  case (Cons cond conds)
  obtain a b where cond: "cond = (a, b)" by (cases cond)
  show ?case
  proof
    assume "join_conds l r (cond # conds) lk rk c = Panic"
    with locate_no_panic [OF Cons.prems(1,2)] obtain sa sb where "locate l r a c = Ok sa" "locate l r b c = Ok sb"
      and rest: "rust_bind (case (sa, sb) of (OnLeft x, OnRight y) \<Rightarrow> Ok (x, y) | (OnRight y, OnLeft x) \<Rightarrow> Ok (x, y)
       | _ \<Rightarrow> Err (sql_unsupported SqPlan (pc_program c) ''join conditions must pair one column from each side''))
     (\<lambda>(lk1, rk1). rust_bind (need_column (sr_scan l) lk1 c) (\<lambda>(_, c1). rust_bind (need_column (sr_scan r) rk1 c1) (\<lambda>(_, c2).
       join_conds l r conds (lk @ [lk1]) (rk @ [rk1]) c2))) = Panic"
      by (auto simp: cond rust_simps)
    from rest obtain x y where "rust_bind (need_column (sr_scan l) x c) (\<lambda>(_, c1). rust_bind (need_column (sr_scan r) y c1) (\<lambda>(_, c2).
       join_conds l r conds (lk @ [x]) (rk @ [y]) c2)) = Panic" by (cases sa; cases sb) auto
    then obtain i c2 where one: "need_column (sr_scan l) x c = Ok (i, c2)"
      and two: "rust_bind (need_column (sr_scan r) y c2) (\<lambda>(_, c2). join_conds l r conds (lk @ [x]) (rk @ [y]) c2) = Panic"
      using add_needed_no_panic [OF Cons.prems(1)] by (auto simp: rust_simps need_column_def)
    note s1 = add_needed_ok [OF one [unfolded need_column_def] Cons.prems(3)]
    with two Cons.prems(2) obtain k c3 where three: "need_column (sr_scan r) y c2 = Ok (k, c3)" and last: "join_conds l r conds (lk @ [x]) (rk @ [y]) c3 = Panic"
      using add_needed_no_panic [of "sr_scan r" c2] by (auto simp: rust_simps need_column_def)
    from s1 have "plan_wf c2" by blast
    from add_needed_ok [OF three [unfolded need_column_def] this] s1 Cons.prems Cons.IH [of c3] last show False by simp
  qed
qed simp

lemma item_side_no_panic [no_panic]: "item_side lspec rspec la ra r program \<noteq> Panic"
  by (auto simp: item_side_def split: if_splits bool.splits)

lemma project_into_join_no_panic:
  "j < length (pc_joins c) \<Longrightarrow> js_left (pc_joins c ! j) < length (pc_scans c) \<Longrightarrow> js_right (pc_joins c ! j) < length (pc_scans c) \<Longrightarrow>
   project_into_join j la ra r c \<noteq> Panic"
  by (auto simp: project_into_join_def rust_simps no_panic split: if_splits)

lemma join_items_no_panic [no_panic]:
  "j < length (pc_joins c) \<Longrightarrow> js_left (pc_joins c ! j) < length (pc_scans c) \<Longrightarrow> js_right (pc_joins c ! j) < length (pc_scans c) \<Longrightarrow>
   plan_wf c \<Longrightarrow> join_items j la ra items c \<noteq> Panic"
proof (induction j la ra items c rule: join_items.induct)
  case (2 j la ra r al items c)
  show ?case
  proof (cases "project_into_join j la ra r c")
    case (Ok c2)
    from project_into_join_ok [OF Ok 2(5)] have s: "plan_wf c2" "length (pc_scans c) \<le> length (pc_scans c2)"
      "length (pc_joins c2) = length (pc_joins c)" "js_left (pc_joins c2 ! j) = js_left (pc_joins c ! j)" "js_right (pc_joins c2 ! j) = js_right (pc_joins c ! j)"
      by (auto simp: plan_grown_def)
    with 2(1) [OF Ok] 2(2-4) Ok show ?thesis by simp
  qed (use 2 project_into_join_no_panic in auto)
qed auto

lemma plan_branch_no_panic [no_panic]: "plan_wf c \<Longrightarrow> plan_branch_of s c \<noteq> Panic"
proof (cases "sel_from s")
  case (AsTable name al)
  assume wf: "plan_wf c"
  show ?thesis
  proof (cases "plan_scan name al c")
    case (Ok x)
    then have x: "plan_scan name al c = Ok (fst x, snd x)" by simp
    from plan_scan_ok [OF x wf] have "scan_items (fst x) (sel_items s) [] (snd x) \<noteq> Panic" by (intro scan_items_no_panic) simp_all
    with AsTable Ok show ?thesis by (auto simp: plan_branch_of_def plan_from_def case_prod_unfold rust_simps)
  qed (use AsTable plan_scan_no_panic in \<open>auto simp: plan_branch_of_def plan_from_def\<close>)
next
  case (AsJoin left right conds)
  assume wf: "plan_wf c"
  show ?thesis
  proof
    assume panic: "plan_branch_of s c = Panic"
    show False
    proof (cases "plan_from (sel_from s) c")
      case Panic
      with AsJoin obtain l c1 r c2 where l: "join_side left c = Ok (l, c1)" and r: "join_side right c1 = Ok (r, c2)" and p: "join_conds l r conds [] [] c2 = Panic"
        by (auto simp: plan_from_def rust_simps join_side_no_panic split: if_splits)
      obtain lname la where sl: "left = AsTable lname la" "plan_wf c1" "sr_scan l < length (pc_scans c1)" using join_side_ok [OF l wf] by blast
      obtain rname ra where sr: "right = AsTable rname ra" "plan_wf c2" "plan_grown c1 c2" "sr_scan r < length (pc_scans c2)"
        using join_side_ok [OF r sl(2)] by blast
      have "sr_scan l < length (pc_scans c2)" using sl(3) sr(3) by (simp add: plan_grown_def)
      from join_conds_no_panic [OF this sr(4,2)] p show False by blast
    next
      case (Ok x)
      with AsJoin obtain l c1 r c2 lk rk c3 where l: "join_side left c = Ok (l, c1)" and r: "join_side right c1 = Ok (r, c2)"
        and conds: "join_conds l r conds [] [] c2 = Ok (lk, rk, c3)" and x: "fst x = PbJoin (length (pc_joins c3))"
        and c: "pc_scans (snd x) = pc_scans c3" "plan_wf (snd x) = plan_wf c3" "pc_joins (snd x) = pc_joins c3 @ [\<lparr>js_left = sr_scan l, js_right = sr_scan r, js_left_key = lk,
          js_right_key = rk, js_left_proj = [], js_right_proj = [], js_out_names = [], js_delta = []\<rparr>]"
        by (auto simp: plan_from_def rust_simps split: if_splits)
      obtain lname la where sl: "left = AsTable lname la" "plan_wf c1" "sr_scan l < length (pc_scans c1)" using join_side_ok [OF l wf] by blast
      obtain rname ra where sr: "right = AsTable rname ra" "plan_wf c2" "plan_grown c1 c2" "sr_scan r < length (pc_scans c2)"
        using join_side_ok [OF r sl(2)] by blast
      from join_conds_ok [OF conds sr(2)] have s3: "plan_wf c3" "length (pc_scans c3) = length (pc_scans c2)" by simp_all
      have lr: "sr_scan l < length (pc_scans c3)" "sr_scan r < length (pc_scans c3)" using sl(3) sr(3,4) s3(2) by (simp_all add: plan_grown_def)
      let ?j = "length (pc_joins c3)"
      let ?run = "join_items ?j (alias_or lname la) (alias_or rname ra) (sel_items s) (snd x)"
      have j: "?j < length (pc_joins (snd x))" "pc_joins (snd x) ! ?j = \<lparr>js_left = sr_scan l, js_right = sr_scan r, js_left_key = lk,
          js_right_key = rk, js_left_proj = [], js_right_proj = [], js_out_names = [], js_delta = []\<rparr>" using c(3) by simp_all
      have no: "?run \<noteq> Panic" by (rule join_items_no_panic) (use c(1,2) j lr s3(1) in simp_all)
      have branch: "plan_branch_of s c = rust_bind ?run (\<lambda>c2. rust_bind (vec_index (pc_joins c2) ?j) (\<lambda>join.
                Ok (BrJoin ?j, c2\<lparr>pc_joins := (pc_joins c2)[?j := join\<lparr>js_out_names := item_names s\<rparr>]\<rparr>)))"
        unfolding plan_branch_of_def Ok by (simp add: case_prod_unfold x AsJoin sl(1) sr(1) alias_or_def)
      with panic no obtain c4 where run: "?run = Ok c4" and "length (pc_joins c4) \<le> ?j" by (auto simp: rust_simps)
      moreover have "js_left (pc_joins (snd x) ! ?j) < length (pc_scans (snd x))" using j(2) c(1) lr(1) by simp
      then have "length (pc_joins c4) = length (pc_joins (snd x))" using join_items_ok [OF run _ j(1)] c(2) s3(1) by auto
      ultimately show False using j(1) by simp
    qed (use panic in \<open>simp add: plan_branch_of_def\<close>)
  qed
qed

lemma union_branches_no_panic: "plan_wf c \<Longrightarrow> union_branches program outs branches refs c \<noteq> Panic"
proof (induction branches arbitrary: refs c)
  case (Cons s branches)
  show ?case
  proof (cases "plan_branch_of s c")
    case (Ok x)
    then have "plan_branch_of s c = Ok (fst x, snd x)" by simp
    from plan_branch_ok [OF this Cons.prems] Cons.IH Ok show ?thesis by (auto simp: case_prod_unfold)
  qed (use Cons.prems plan_branch_no_panic in auto)
qed simp

lemma finish_no_panic [no_panic]: "finish c plan_top outs \<noteq> Panic"
  by (auto simp: finish_def)

lemma compile_union_no_panic: "branches \<noteq> [] \<Longrightarrow> compile_union program branches schema \<noteq> Panic"
  by (auto simp: compile_union_def rust_simps Let_def union_branches_no_panic no_panic)

lemma plan_keys_no_panic: "sr_scan t < length (pc_scans c) \<Longrightarrow> plan_wf c \<Longrightarrow> plan_keys t refs keys c \<noteq> Panic"
proof (induction refs arbitrary: keys c)
  case (Cons r refs)
  show ?case
  proof (cases "resolve_into (sr_scan t) (sr_alias t) r c")
    case (Ok x)
    then have x: "resolve_into (sr_scan t) (sr_alias t) r c = Ok (fst x, snd x)" by simp
    from resolve_into_ok [OF x Cons.prems(2)] Cons.prems Cons.IH Ok show ?thesis
      by (auto simp: case_prod_unfold rust_simps taken_def)
  qed (use Cons.prems resolve_into_no_panic in auto)
qed simp

lemma key_named_no_panic:
  "sr_scan t < length (pc_scans c) \<Longrightarrow> list_all (\<lambda>k. tn_take k < length (ss_needed (pc_scans c ! sr_scan t))) keys \<Longrightarrow> key_named t keys name c \<noteq> Panic"
  by (induction keys) (auto simp: rust_simps split: if_splits)

lemma group_items_no_panic:
  "sr_scan t < length (pc_scans c) \<Longrightarrow> plan_wf c \<Longrightarrow> list_all (\<lambda>k. tn_take k < length (ss_needed (pc_scans c ! sr_scan t))) keys \<Longrightarrow>
   group_items t keys items sums1 outs c \<noteq> Panic"
proof (induction t keys items sums1 outs c rule: group_items.induct)
  case (2 t keys r al items sums1 outs c)
  have "key_named t keys (ar_name r) c \<noteq> Panic" using 2(2,4) by (rule key_named_no_panic)
  with 2 show ?case by (auto simp: rust_simps split: if_splits)
next
  case (4 t keys r al items sums1 outs c)
  show ?case
  proof (cases "resolve_into (sr_scan t) (sr_alias t) r c")
    case (Ok x)
    then have x: "resolve_into (sr_scan t) (sr_alias t) r c = Ok (fst x, snd x)" by simp
    note s = resolve_into_ok [OF x 4(3)]
    then have "length (ss_needed (pc_scans c ! sr_scan t)) \<le> length (ss_needed (pc_scans (snd x) ! sr_scan t))"
      using 4(2) by (auto simp: plan_grown_def scan_grown_def)
    then have "list_all (\<lambda>k. tn_take k < length (ss_needed (pc_scans (snd x) ! sr_scan t))) keys"
      using 4(4) by (auto simp: list_all_iff)
    with 4(1) [OF Ok prod.collapse] s 4(2) Ok show ?thesis by (simp add: case_prod_unfold)
  qed (use 4(2) resolve_into_no_panic in auto)
qed auto

lemma compile_group_no_panic: "sel_group s \<noteq> None \<Longrightarrow> (compile_group program s schema :: 'n compiled sql) \<noteq> Panic"
proof
  assume "sel_group s \<noteq> None" and panic: "(compile_group program s schema :: 'n compiled sql) = Panic"
  then obtain refs where refs: "sel_group s = Some refs" by blast
  let ?c = "plan_start program schema"
  show False
  proof (cases "sel_from s")
    case (AsTable name al)
    with panic refs obtain t c1 where t: "plan_scan name al ?c = Ok (t, c1)"
      and rest: "rust_bind (plan_keys t refs [] c1) (\<lambda>(keys, c2).
           rust_bind (group_items t keys (sel_items s) [] (map tn_name keys) c2) (\<lambda>(sums1, outs, c3).
             finish c3 (RtGroup (sr_scan t) keys sums1 []) outs :: 'n compiled sql)) = Panic"
      by (auto simp: compile_group_def plan_from_def rust_simps no_panic)
    have one: "plan_wf c1" "sr_scan t < length (pc_scans c1)" using plan_scan_ok [OF t plan_wf_start] by simp_all
    from rest plan_keys_no_panic [OF one(2,1)] obtain keys c2 where keys: "plan_keys t refs [] c1 = Ok (keys, c2)"
      and rest2: "rust_bind (group_items t keys (sel_items s) [] (map tn_name keys) c2) (\<lambda>(sums1, outs, c3).
             finish c3 (RtGroup (sr_scan t) keys sums1 []) outs :: 'n compiled sql) = Panic"
      by (auto simp: rust_simps)
    from plan_keys_ok [OF keys one(1)] have two: "plan_wf c2" "plan_grown c1 c2"
      "list_all2 (\<lambda>k r. taken (pc_scans c2) (sr_scan t) (tn_take k) (ar_name r) \<and> tn_name k = ar_name r) keys refs" by auto
    have "list_all (\<lambda>k. tn_take k < length (ss_needed (pc_scans c2 ! sr_scan t))) keys"
      using two(3) by (auto simp: list_all2_conv_all_nth list_all_length taken_def)
    moreover have "sr_scan t < length (pc_scans c2)" using one(2) two(2) by (simp add: plan_grown_def)
    ultimately have "group_items t keys (sel_items s) [] (map tn_name keys) c2 \<noteq> Panic" using two(1) by (intro group_items_no_panic)
    with rest2 show False by (auto simp: rust_simps no_panic)
  next
    case (AsJoin left right conds)
    have "join_conds l r conds [] [] c2 \<noteq> Panic" if one: "join_side left ?c = Ok (l, c1)" and two: "join_side right c1 = Ok (r, c2)" for l c1 r c2
    proof -
      obtain lname la where sl: "plan_wf c1" "sr_scan l < length (pc_scans c1)" using join_side_ok [OF one plan_wf_start] by blast
      obtain rname ra where sr: "plan_wf c2" "plan_grown c1 c2" "sr_scan r < length (pc_scans c2)" using join_side_ok [OF two sl(1)] by blast
      from sl(2) sr show ?thesis by (intro join_conds_no_panic) (simp_all add: plan_grown_def)
    qed
    with panic refs AsJoin show False
      by (auto simp: compile_group_def plan_from_def rust_simps no_panic split: if_splits)
  qed
qed

lemma compile_branches_no_panic: "branches \<noteq> [] \<Longrightarrow> compile_branches program branches schema \<noteq> Panic"
  by (auto simp: compile_branches_def compile_union_no_panic compile_group_no_panic split: list.split)

subsection \<open>From text to plan\<close>

lemma compile_sql_parse:
  "compile_sql program sql schema = rust_bind (parse_sql sql) (\<lambda>branches. compile_branches program branches schema)"
  by (simp add: compile_sql_def parse_sql_def rust_bind_assoc)

lemma compile_branches_ok:
  assumes "compile_branches program selects schema = Ok plan"
  shows "scans_ok schema plan \<and>
    ((\<exists>refs. cd_root plan = RtUnion refs \<and> list_all2 (branch_ok (cd_scans plan) (cd_joins plan)) selects refs \<and> selects \<noteq> [] \<and>
        list_all (\<lambda>s. sel_group s = None) selects \<and> cd_output plan = item_names (hd selects)) \<or>
     (\<exists>s keys. selects = [s] \<and> sel_group s = Some keys \<and> group_plan_ok plan s keys))"
proof (cases "\<exists>s. selects = [s] \<and> sel_group s \<noteq> None")
  case True
  then obtain s keys where s: "selects = [s]" "sel_group s = Some keys" by auto
  with assms have "compile_group program s schema = Ok plan" by (simp add: compile_branches_def)
  from compile_group_ok [OF this] s show ?thesis by auto
next
  case False
  then have "compile_union program selects schema = Ok plan" using assms by (auto simp: compile_branches_def split: list.splits)
  note u = compile_union_ok [OF this]
  then have "list_all (\<lambda>s. sel_group s = None) selects" by (simp add: list_all_iff)
  with u show ?thesis by blast
qed

lemma compile_branches_range:
  assumes "compile_branches program selects schema = Ok plan"
  shows "root_in_range plan"
  using compile_branches_ok [OF assms]
proof (elim conjE disjE exE)
  fix refs
  assume "cd_root plan = RtUnion refs" "list_all2 (branch_ok (cd_scans plan) (cd_joins plan)) selects refs" "selects \<noteq> []"
  then show ?thesis using branch_ok_in_range [of plan]
    by (auto simp: root_in_range_def list_all2_conv_all_nth list_all_length)
next
  fix s keys
  assume "group_plan_ok plan s keys"
  then show ?thesis
    by (auto simp: group_plan_ok_def root_in_range_def list_all2_conv_all_nth list_all_iff in_set_conv_nth taken_def)
qed

lemma parse_sql_items: "parse_sql sql = Ok selects \<Longrightarrow> selects \<noteq> [] \<and> list_all (\<lambda>s. sel_items s \<noteq> []) selects"
  using parse_sql_printable [of sql selects] by (auto simp: printable_program_def printable_select_def list_all_iff)

lemma compile_sql_no_panic: "compile_sql program sql schema \<noteq> Panic"
  by (auto simp: compile_sql_parse rust_simps parse_sql_no_panic compile_branches_no_panic dest: parse_sql_items)

end
