(* ===== verification/Sql_Meaning.thy ===== *)
theory Sql_Meaning
  imports Sql_Lower_Laws "HOL-Library.Multiset"
begin

text \<open>
  The meaning of SQL programs and of the programs they are lowered to, over bags of rows. The reference
  reads a select statement with its names: the rows of a table or of the pairs of rows that meet the join
  conditions, and of each the columns of the select list. The lowered program is read with \<open>is_model\<close>, for
  the semantics of the operators that lowering uses.
\<close>

subsection \<open>Operators on bags\<close>

definition row_pairs :: "'a multiset \<Rightarrow> 'b multiset \<Rightarrow> ('a \<times> 'b) multiset" where
  "row_pairs A B = (\<Sum>a\<in>#A. image_mset (Pair a) B)"

definition class_holds :: "'v list list \<Rightarrow> (nat \<times> nat) list \<Rightarrow> bool" where
  "class_holds rows cls \<longleftrightarrow> (\<forall>x \<in> set cls. \<forall>y \<in> set cls. rows ! fst x ! snd x = rows ! fst y ! snd y)"

definition project_rows :: "nat list \<Rightarrow> 'v list multiset \<Rightarrow> 'v list multiset" where
  "project_rows project rows = (if project = [] then rows else image_mset (\<lambda>row. map ((!) row) project) rows)"

definition agg_value :: "(nat \<Rightarrow> 'v) \<Rightarrow> ('v multiset \<Rightarrow> 'v) \<Rightarrow> 'v list multiset \<Rightarrow> agg \<Rightarrow> 'v" where
  "agg_value cnt sm rows a = (case a of ACount \<Rightarrow> cnt (size rows) | ASum c \<Rightarrow> sm (image_mset (\<lambda>row. row ! c) rows) | _ \<Rightarrow> undefined)"

definition groups_of :: "('a \<Rightarrow> 'k) \<Rightarrow> 'a multiset \<Rightarrow> ('k \<times> 'a multiset) multiset" where
  "groups_of key rows = image_mset (\<lambda>k. (k, filter_mset (\<lambda>row. key row = k) rows)) (mset_set (set_mset (image_mset key rows)))"

text \<open>Operators that lowering does not use are left unspecified.\<close>

definition bag_op :: "(nat \<Rightarrow> 'v) \<Rightarrow> ('v multiset \<Rightarrow> 'v) \<Rightarrow> 'f const_op \<Rightarrow> 'v list multiset list \<Rightarrow> 'v list multiset" where
  "bag_op cnt sm op ins = (case op of
     CMfp flt mp project \<Rightarrow> if flt = [] \<and> mp = [] then project_rows project (ins ! 0) else undefined
   | CJoin classes project \<Rightarrow> project_rows project (image_mset (\<lambda>(a, b). a @ b)
       (filter_mset (\<lambda>(a, b). \<forall>cls \<in> set classes. class_holds [a, b] cls) (row_pairs (ins ! 0) (ins ! 1))))
   | CUnion \<Rightarrow> sum_list ins
   | CReduce key aggs \<Rightarrow> image_mset (\<lambda>(k, rows). k @ map (agg_value cnt sm rows) aggs) (groups_of (\<lambda>row. map ((!) row) key) (ins ! 0))
   | _ \<Rightarrow> undefined)"

definition bag_semantics :: "(nat \<Rightarrow> 'v) \<Rightarrow> ('v multiset \<Rightarrow> 'v) \<Rightarrow> ('f, 'v list multiset) semantics" where
  "bag_semantics cnt sm = \<lparr>se_op = bag_op cnt sm, se_rec = (\<lambda>_ _. False)\<rparr>"

subsection \<open>Select statements\<close>

definition cell_of :: "string list \<Rightarrow> string \<Rightarrow> 'v list \<Rightarrow> 'v" where
  "cell_of cols name row = row ! col_at cols name"

definition pair_cell :: "(ast_ref \<Rightarrow> bool) \<Rightarrow> string list \<Rightarrow> string list \<Rightarrow> 'v list \<times> 'v list \<Rightarrow> ast_ref \<Rightarrow> 'v" where
  "pair_cell left lcols rcols p r = (if left r then cell_of lcols (ar_name r) (fst p) else cell_of rcols (ar_name r) (snd p))"

definition join_rows :: "(ast_ref \<Rightarrow> bool) \<Rightarrow> string list \<Rightarrow> string list \<Rightarrow> (ast_ref \<times> ast_ref) list \<Rightarrow>
    'v list multiset \<Rightarrow> 'v list multiset \<Rightarrow> ('v list \<times> 'v list) multiset" where
  "join_rows left lcols rcols conds A B =
     filter_mset (\<lambda>p. \<forall>c \<in> set conds. pair_cell left lcols rcols p (fst c) = pair_cell left lcols rcols p (snd c)) (row_pairs A B)"

definition left_side :: "sql_schema \<Rightarrow> ast_from \<Rightarrow> ast_ref \<Rightarrow> bool" where
  "left_side schema from1 r = (case from1 of
     AsJoin (AsTable name al) _ _ \<Rightarrow> ref_left name (alias_or name al) (the (schema name)) r
   | _ \<Rightarrow> True)"

definition select_rows :: "sql_schema \<Rightarrow> (string \<Rightarrow> 'v list multiset) \<Rightarrow> ast_from \<Rightarrow> ast_ref list \<Rightarrow> 'v list multiset" where
  "select_rows schema db from1 refs = (case from1 of
     AsTable name _ \<Rightarrow> image_mset (\<lambda>row. map (\<lambda>r. cell_of (the (schema name)) (ar_name r) row) refs) (db name)
   | AsJoin (AsTable lname la) (AsTable rname ra) conds \<Rightarrow>
       (let left = left_side schema from1; lcols = the (schema lname); rcols = the (schema rname)
        in image_mset (\<lambda>p. map (pair_cell left lcols rcols p) refs) (join_rows left lcols rcols conds (db lname) (db rname)))
   | _ \<Rightarrow> {#})"

text \<open>The select list with the columns of the left table first, both in their order.\<close>

definition left_first :: "sql_schema \<Rightarrow> ast_from \<Rightarrow> ast_ref list \<Rightarrow> ast_ref list" where
  "left_first schema from1 refs = filter (left_side schema from1) refs @ filter (\<lambda>r. \<not> left_side schema from1 r) refs"

text \<open>Grouping: the value of a select item on a key and the rows that have it.\<close>

definition group_value :: "(nat \<Rightarrow> 'v) \<Rightarrow> ('v multiset \<Rightarrow> 'v) \<Rightarrow> string list \<Rightarrow> ast_ref list \<Rightarrow> 'v list \<Rightarrow> 'v list multiset \<Rightarrow> ast_item \<Rightarrow> 'v" where
  "group_value cnt sm cols keys k rows item = (case item of
     AsCol r _ \<Rightarrow> k ! the (position_of (\<lambda>q. ar_name q = ar_name r) keys)
   | AsCount _ \<Rightarrow> cnt (size rows)
   | AsSum r _ \<Rightarrow> sm (image_mset (cell_of cols (ar_name r)) rows))"

definition group_rows :: "(nat \<Rightarrow> 'v) \<Rightarrow> ('v multiset \<Rightarrow> 'v) \<Rightarrow> sql_schema \<Rightarrow> (string \<Rightarrow> 'v list multiset) \<Rightarrow> string \<Rightarrow>
    ast_ref list \<Rightarrow> ast_item list \<Rightarrow> 'v list multiset" where
  "group_rows cnt sm schema db name keys items = image_mset (\<lambda>(k, rows). map (group_value cnt sm (the (schema name)) keys k rows) items)
     (groups_of (\<lambda>row. map (\<lambda>r. cell_of (the (schema name)) (ar_name r) row) keys) (db name))"

text \<open>The select list whose rows a grouped program has: keys, a count, and the sums.\<close>

definition keys_count_sums :: "ast_ref list \<Rightarrow> ast_item list \<Rightarrow> ast_item list" where
  "keys_count_sums keys items = map (\<lambda>r. AsCol r []) keys @ [AsCount []] @ map (\<lambda>r. AsSum r []) (sum_refs items)"

subsection \<open>Bags under maps\<close>

lemma row_pairs_image: "row_pairs (image_mset f A) (image_mset g B) = image_mset (map_prod f g) (row_pairs A B)"
proof (induction A)
  case (add a A)
  have "image_mset (Pair (f a)) (image_mset g B) = image_mset (map_prod f g) (image_mset (Pair a) B)"
    by (simp add: multiset.map_comp comp_def)
  with add show ?case by (simp add: row_pairs_def)
qed (simp add: row_pairs_def)

lemma groups_of_image:
  "groups_of key (image_mset f rows) = image_mset (\<lambda>(k, rs). (k, image_mset f rs)) (groups_of (\<lambda>row. key (f row)) rows)"
  by (simp add: groups_of_def multiset.map_comp comp_def filter_mset_image_mset image_image)

lemma project_image: "project \<noteq> [] \<Longrightarrow> project_rows project (image_mset f rows) = image_mset (\<lambda>x. map ((!) (f x)) project) rows"
  by (simp add: project_rows_def multiset.map_comp comp_def)

subsection \<open>Values of the lowered nodes\<close>

definition needed_row :: "scan_spec \<Rightarrow> 'v list \<Rightarrow> 'v list" where
  "needed_row scan row = map (\<lambda>name. cell_of (ss_columns scan) name row) (ss_needed scan)"

lemma model_node:
  assumes "is_model se phi p rho val" "vec_get (pr_nodes p) n = Some op"
  shows "val n = op_value se phi p rho val op"
  using assms by (auto simp: is_model_def)

definition sources_are :: "'n compiled \<Rightarrow> (string \<Rightarrow> 'v) \<Rightarrow> (nat \<Rightarrow> 'v) \<Rightarrow> bool" where
  "sources_are plan db rho \<longleftrightarrow> (\<forall>i < length (cd_sources plan). rho i = db (cd_sources plan ! i))"

lemma scan_value:
  assumes model: "is_model (bag_semantics cnt sm) phi p rho val" and src: "sources_are plan db rho"
    and node: "scan_node (cd_sources plan) (pr_nodes p) scan n" "ss_needed scan \<noteq> []"
  shows "val n = image_mset (needed_row scan) (db (ss_table scan))"
proof -
  from node(1) obtain m k where m: "vec_get (pr_nodes p) m = Some (OGet k)" "k < length (cd_sources plan)" "cd_sources plan ! k = ss_table scan"
    "vec_get (pr_nodes p) n = Some (OMfp m [] [] (map (col_at (ss_columns scan)) (ss_needed scan)))" unfolding scan_node_def by blast
  have "val m = db (ss_table scan)" using model_node [OF model m(1)] m(2,3) src by (simp add: op_value_def sources_are_def)
  with model_node [OF model m(4)] node(2) show ?thesis
    by (simp add: op_value_def bag_semantics_def bag_op_def project_rows_def needed_row_def [abs_def] cell_of_def comp_def)
qed

lemma needed_row_nth: "taken scans k i name \<Longrightarrow> needed_row (scans ! k) row ! i = cell_of (ss_columns (scans ! k)) name row"
  by (auto simp: taken_def needed_row_def)

lemma takes_cells:
  "list_all2 (\<lambda>i r. taken scans k i (f r)) takes refs \<Longrightarrow>
   map ((!) (needed_row (scans ! k) row)) takes = map (\<lambda>r. cell_of (ss_columns (scans ! k)) (f r) row) refs"
  by (auto simp: list_all2_conv_all_nth needed_row_nth intro!: nth_equalityI)

lemma needed_row_key: "name \<in> set (ss_needed scan) \<Longrightarrow> needed_row scan row ! col_at (ss_needed scan) name = cell_of (ss_columns scan) name row"
  using col_at_ok [of name "ss_needed scan"] by (simp add: needed_row_def)

lemma plain_refs_nonempty: "plain_refs items = Some refs \<Longrightarrow> items \<noteq> [] \<Longrightarrow> refs \<noteq> []"
  by (cases items rule: plain_refs.cases) auto

lemma matched_all:
  "list_all2 R cs ks \<Longrightarrow> list_all Q ks \<Longrightarrow> (\<And>c k. Q k \<Longrightarrow> R c k \<Longrightarrow> F k \<longleftrightarrow> G c) \<Longrightarrow> (\<forall>k \<in> set ks. F k) \<longleftrightarrow> (\<forall>c \<in> set cs. G c)"
  by (induction cs ks rule: list_all2_induct) auto

lemma branch_value:
  fixes cnt :: "nat \<Rightarrow> 'v"
  assumes model: "is_model (bag_semantics cnt sm) phi p rho val" and src: "sources_are plan db rho" and scans: "scans_ok schema plan"
    and ok: "branch_ok (cd_scans plan) (cd_joins plan) s b" "sel_items s \<noteq> []" and node: "branch_node plan (pr_nodes p) b n"
  shows "val n = select_rows schema db (sel_from s) (left_first schema (sel_from s) (the (plain_refs (sel_items s))))"
proof (cases b)
  case (BrScan k takes)
  let ?scan = "cd_scans plan ! k"
  from ok(1) BrScan obtain name al refs where s: "sel_from s = AsTable name al" "k < length (cd_scans plan)" "ss_table ?scan = name"
    "plain_refs (sel_items s) = Some refs" and takes: "list_all2 (\<lambda>i r. taken (cd_scans plan) k i (ar_name r)) takes refs"
    by (auto simp: scan_branch_ok_def)
  from s(2) scans have cols: "schema name = Some (ss_columns ?scan)" "ss_needed ?scan \<noteq> []" using s(3) by (auto simp: scans_ok_def)
  from node BrScan obtain input where i: "scan_node (cd_sources plan) (pr_nodes p) ?scan input" "vec_get (pr_nodes p) n = Some (OMfp input [] [] takes)"
    by auto
  have "takes \<noteq> []" using plain_refs_nonempty [OF s(4) ok(2)] takes by auto
  then have "val n = image_mset (\<lambda>row. map ((!) (needed_row ?scan row)) takes) (db name)"
    using model_node [OF model i(2)] scan_value [OF model src i(1) cols(2)] s(3)
    by (simp add: op_value_def bag_semantics_def bag_op_def project_image)
  also have "\<dots> = image_mset (\<lambda>row. map (\<lambda>r. cell_of (ss_columns ?scan) (ar_name r) row) refs) (db name)"
    by (simp only: takes_cells [OF takes])
  finally show ?thesis using s(1,4) cols(1) by (simp add: select_rows_def left_first_def left_side_def)
next
  case (BrJoin j)
  define join where "join = cd_joins plan ! j"
  let ?L = "cd_scans plan ! js_left join" and ?R = "cd_scans plan ! js_right join"
  let ?keys = "zip (js_left_key join) (js_right_key join)"
  from ok(1) BrJoin obtain lname la rname ra conds refs where from1: "sel_from s = AsJoin (AsTable lname la) (AsTable rname ra) conds"
    and l: "js_left join < length (cd_scans plan)" "ss_table ?L = lname" and r: "js_right join < length (cd_scans plan)" "ss_table ?R = rname"
    and keys: "list_all (key_needed (cd_scans plan) (js_left join) (js_right join)) ?keys"
      "list_all2 (cond_key (ref_left lname (alias_or lname la) (ss_columns ?L))) conds ?keys"
    and refs: "plain_refs (sel_items s) = Some refs"
    and takes: "list_all2 (\<lambda>i r. taken (cd_scans plan) (js_left join) i (ar_name r)) (js_left_proj join) (filter (ref_left lname (alias_or lname la) (ss_columns ?L)) refs)"
      "list_all2 (\<lambda>i r. taken (cd_scans plan) (js_right join) i (ar_name r)) (js_right_proj join) (filter (\<lambda>r. \<not> ref_left lname (alias_or lname la) (ss_columns ?L) r) refs)"
    by (auto simp: join_branch_ok_def Let_def join_def)
  from l r scans have cols: "schema lname = Some (ss_columns ?L)" "schema rname = Some (ss_columns ?R)" "ss_needed ?L \<noteq> []" "ss_needed ?R \<noteq> []"
    by (auto simp: scans_ok_def)
  define left where "left = left_side schema (sel_from s)"
  have left: "ref_left lname (alias_or lname la) (ss_columns ?L) = left" using cols(1) from1 by (simp add: left_def left_side_def fun_eq_iff)
  let ?proj = "js_left_proj join @ map (\<lambda>i. length (ss_needed ?L) + i) (js_right_proj join)"
  from node BrJoin obtain m nl nr where i: "scan_node (cd_sources plan) (pr_nodes p) ?L nl" "scan_node (cd_sources plan) (pr_nodes p) ?R nr"
    "vec_get (pr_nodes p) m = Some (OJoin [nl, nr] (map (key_class ?L ?R) ?keys) [])" "vec_get (pr_nodes p) n = Some (OMfp m [] [] ?proj)"
    by (auto simp: join_def Let_def simp del: vec_get_Some_iff)
  let ?pair = "map_prod (needed_row ?L) (needed_row ?R)"
  let ?cell = "pair_cell left (ss_columns ?L) (ss_columns ?R)"
  have cls_holds: "class_holds [needed_row ?L a, needed_row ?R b] (key_class ?L ?R key) \<longleftrightarrow> ?cell (a, b) (fst c) = ?cell (a, b) (snd c)"
    if "key_needed (cd_scans plan) (js_left join) (js_right join) key" "cond_key left c key" for a b :: "'v list" and key c
    using that needed_row_key [of "fst key" ?L a] needed_row_key [of "snd key" ?R b]
    by (auto simp: class_holds_def key_class_def key_needed_def cond_key_def pair_cell_def split: if_splits)
  have conds: "(\<forall>cls \<in> set (map (key_class ?L ?R) ?keys). class_holds [needed_row ?L a, needed_row ?R b] cls) \<longleftrightarrow>
      (\<forall>c \<in> set conds. ?cell (a, b) (fst c) = ?cell (a, b) (snd c))" for a b :: "'v list"
    unfolding set_map ball_simps using keys(2) [unfolded left] keys(1) by (rule matched_all) (rule cls_holds)
  have m: "val m = image_mset (\<lambda>(a, b). needed_row ?L a @ needed_row ?R b) (join_rows left (ss_columns ?L) (ss_columns ?R) conds (db lname) (db rname))"
    using model_node [OF model i(3)] scan_value [OF model src i(1) cols(3)] scan_value [OF model src i(2) cols(4)] l(2) r(2)
    by (simp add: op_value_def bag_semantics_def bag_op_def row_pairs_image filter_mset_image_mset join_rows_def conds comp_def
        project_rows_def case_prod_unfold multiset.map_comp del: set_map)
  have "?proj \<noteq> []" using plain_refs_nonempty [OF refs ok(2)] takes by (cases refs) (auto split: if_splits)
  then have n: "val n = image_mset (\<lambda>(a, b). map ((!) (needed_row ?L a @ needed_row ?R b)) ?proj)
      (join_rows left (ss_columns ?L) (ss_columns ?R) conds (db lname) (db rname))"
    using model_node [OF model i(4)] by (simp add: op_value_def bag_semantics_def bag_op_def m project_image case_prod_unfold)
  have row: "map ((!) (needed_row ?L a @ needed_row ?R b)) ?proj = map (?cell (a, b)) (left_first schema (sel_from s) refs)" for a b :: "'v list"
  proof -
    have len: "length (needed_row ?L a) = length (ss_needed ?L)" by (simp add: needed_row_def)
    have "\<forall>i \<in> set (js_left_proj join). i < length (ss_needed ?L)" using takes_in_range [OF takes(1)] by (simp add: list_all_iff)
    then have "map ((!) (needed_row ?L a @ needed_row ?R b)) (js_left_proj join) = map ((!) (needed_row ?L a)) (js_left_proj join)"
      using len by (auto simp: nth_append)
    also have "\<dots> = map (?cell (a, b)) (filter left refs)"
      by (simp only: takes_cells [OF takes(1)] left) (simp add: pair_cell_def)
    finally have one: "map ((!) (needed_row ?L a @ needed_row ?R b)) (js_left_proj join) = map (?cell (a, b)) (filter left refs)" .
    have "map ((!) (needed_row ?L a @ needed_row ?R b)) (map (\<lambda>i. length (ss_needed ?L) + i) (js_right_proj join)) = map ((!) (needed_row ?R b)) (js_right_proj join)"
      by (simp add: nth_append len)
    also have "\<dots> = map (?cell (a, b)) (filter (\<lambda>r. \<not> left r) refs)"
      by (simp only: takes_cells [OF takes(2)] left) (simp add: pair_cell_def)
    finally show ?thesis using one by (simp add: left_first_def left_def)
  qed
  show ?thesis unfolding n row using from1 refs cols by (simp add: select_rows_def left_def Let_def case_prod_unfold)
qed

lemma output_value:
  assumes "is_model se phi p rho val" "built_from plan source_types p" "pr_nodes p = nodes @ [op]"
  shows "rho (length (cd_sources plan)) = op_value se phi p rho val op \<and> pr_outputs p = [length (cd_sources plan)]"
proof -
  from assms(2,3) have s: "SLet (length (cd_sources plan)) (length nodes) \<in> set (pr_strata p)" "pr_outputs p = [length (cd_sources plan)]"
    by (auto simp: built_from_def)
  with assms(1) have "rho (length (cd_sources plan)) = val (length nodes)" by (auto simp: is_model_def stratum_holds_def)
  moreover have "vec_get (pr_nodes p) (length nodes) = Some op" using assms(3) by simp
  ultimately show ?thesis using model_node [OF assms(1)] s(2) by metis
qed

lemma union_value:
  assumes model: "is_model (bag_semantics cnt sm) phi p rho val" and src: "sources_are plan db rho" and scans: "scans_ok schema plan"
    and built: "built_from plan source_types p" and top: "cd_root plan = RtUnion refs"
    and ok: "list_all2 (branch_ok (cd_scans plan) (cd_joins plan)) selects refs" "list_all (\<lambda>s. sel_items s \<noteq> []) selects"
  shows "rho (hd (pr_outputs p)) =
    (\<Sum>s\<leftarrow>selects. select_rows schema db (sel_from s) (left_first schema (sel_from s) (the (plain_refs (sel_items s)))))"
proof -
  from built obtain nodes op where nodes: "pr_nodes p = nodes @ [op]" and root: "root_node plan nodes op" unfolding built_from_def by blast
  from root top obtain ns where op: "op = OUnion ns" and ns: "list_all2 (\<lambda>b n. n < length nodes \<and> branch_node plan nodes b n) refs ns"
    by (auto simp: root_node_def)
  have "map val ns = map (\<lambda>s. select_rows schema db (sel_from s) (left_first schema (sel_from s) (the (plain_refs (sel_items s))))) selects"
  proof (rule nth_equalityI)
    show len: "length (map val ns) = length (map (\<lambda>s. select_rows schema db (sel_from s) (left_first schema (sel_from s) (the (plain_refs (sel_items s))))) selects)"
      using ns ok(1) by (auto dest!: list_all2_lengthD)
    fix i
    assume "i < length (map val ns)"
    then have i: "i < length ns" "i < length selects" using len by auto
    then have b: "branch_ok (cd_scans plan) (cd_joins plan) (selects ! i) (refs ! i)" "branch_node plan nodes (refs ! i) (ns ! i)" "sel_items (selects ! i) \<noteq> []"
      using ok ns by (auto simp: list_all2_conv_all_nth list_all_length)
    from branch_value [OF model src scans b(1,3) branch_node_more [OF b(2), of "[op]", folded nodes]] i
    show "map val ns ! i = map (\<lambda>s. select_rows schema db (sel_from s) (left_first schema (sel_from s) (the (plain_refs (sel_items s))))) selects ! i"
      by simp
  qed
  with output_value [OF model built nodes] op show ?thesis by (simp add: op_value_def bag_semantics_def bag_op_def)
qed

lemma key_position:
  assumes "r \<in> set keys"
  shows "map f keys ! the (position_of (\<lambda>q. ar_name q = ar_name r) keys) = f r \<or> \<not> (\<forall>q \<in> set keys. ar_name q = ar_name r \<longrightarrow> f q = f r)"
proof -
  obtain i where i: "position_of (\<lambda>q. ar_name q = ar_name r) keys = Some i"
    using assms position_of_eq_None [of "\<lambda>q. ar_name q = ar_name r" keys] by (cases "position_of (\<lambda>q. ar_name q = ar_name r) keys") auto
  from position_of_SomeD [OF i] i show ?thesis by auto
qed

lemma group_value_keys:
  assumes "k = map (\<lambda>r. cell_of cols (ar_name r) row) keys"
  shows "map (\<lambda>r. group_value cnt sm cols keys k rows (AsCol r [])) keys = k"
  unfolding assms using key_position [of _ keys "\<lambda>r. cell_of cols (ar_name r) row"]
  by (auto simp: group_value_def)

lemma groups_of_key: "(k, rs) \<in># groups_of key rows \<Longrightarrow> \<exists>row. k = key row \<and> rs = filter_mset (\<lambda>row. key row = k) rows"
  by (auto simp: groups_of_def)

lemma group_value_of:
  fixes cnt :: "nat \<Rightarrow> 'v"
  assumes model: "is_model (bag_semantics cnt sm) phi p rho val" and src: "sources_are plan db rho" and scans: "scans_ok schema plan"
    and built: "built_from plan source_types p" and ok: "group_plan_ok plan s refs" and from1: "sel_from s = AsTable name al"
  shows "rho (hd (pr_outputs p)) = group_rows cnt sm schema db name refs (keys_count_sums refs (sel_items s))"
proof -
  from ok from1 obtain k keys sums1 where top: "cd_root plan = RtGroup k keys sums1 []" and k: "k < length (cd_scans plan)" "ss_table (cd_scans plan ! k) = name"
    and takes: "list_all2 (\<lambda>t r. taken (cd_scans plan) k (tn_take t) (ar_name r)) keys refs"
      "list_all2 (\<lambda>t r. taken (cd_scans plan) k (tn_take t) (ar_name r)) sums1 (sum_refs (sel_items s))"
    by (auto simp: group_plan_ok_def)
  let ?scan = "cd_scans plan ! k"
  let ?sums = "sum_refs (sel_items s)"
  from k scans have cols: "schema name = Some (ss_columns ?scan)" "ss_needed ?scan \<noteq> []" by (auto simp: scans_ok_def)
  from built obtain nodes op where nodes: "pr_nodes p = nodes @ [op]" and root: "root_node plan nodes op" unfolding built_from_def by blast
  from root top obtain input where op: "op = OReduce input (map tn_take keys) (ACount # map (\<lambda>s. ASum (tn_take s)) sums1)"
    and node: "scan_node (cd_sources plan) (nodes @ [op]) ?scan input" using scan_node_more by (auto simp: root_node_def)
  have input: "val input = image_mset (needed_row ?scan) (db name)"
    using scan_value [OF model src node [folded nodes] cols(2)] k(2) by simp
  let ?key = "\<lambda>row. map (\<lambda>r. cell_of (ss_columns ?scan) (ar_name r) row) refs"
  have key: "map (\<lambda>t. needed_row ?scan row ! tn_take t) keys = ?key row" for row :: "'v list"
    using takes(1) by (auto simp: list_all2_conv_all_nth needed_row_nth intro!: nth_equalityI)
  have aggs: "map (agg_value cnt sm (image_mset (needed_row ?scan) rows)) (map (\<lambda>s. ASum (tn_take s)) sums1) =
      map (\<lambda>r. sm (image_mset (cell_of (ss_columns ?scan) (ar_name r)) rows)) ?sums" for rows :: "'v list multiset"
    using takes(2) by (auto simp: list_all2_conv_all_nth needed_row_nth agg_value_def multiset.map_comp comp_def intro!: nth_equalityI)
  have row: "?key row0 @ map (agg_value cnt sm (image_mset (needed_row ?scan) rs)) (ACount # map (\<lambda>s. ASum (tn_take s)) sums1) =
      map (group_value cnt sm (ss_columns ?scan) refs (?key row0) rs) (keys_count_sums refs (sel_items s))" for row0 :: "'v list" and rs
    using group_value_keys [OF refl, where cols = "ss_columns ?scan" and row = row0 and keys = refs and cnt = cnt and sm = sm and rows = rs] aggs [of rs]
    by (simp add: keys_count_sums_def agg_value_def group_value_def comp_def)
  have "op_value (bag_semantics cnt sm) phi p rho val op =
      image_mset (\<lambda>(k, rows). k @ map (agg_value cnt sm (image_mset (needed_row ?scan) rows)) (ACount # map (\<lambda>s. ASum (tn_take s)) sums1)) (groups_of ?key (db name))"
    using input by (simp add: op op_value_def bag_semantics_def bag_op_def groups_of_image key multiset.map_comp comp_def case_prod_unfold
      del: list.map(2))
  also have "\<dots> = group_rows cnt sm schema db name refs (keys_count_sums refs (sel_items s))"
    unfolding group_rows_def cols(1) option.sel using row by (intro image_mset_cong) (auto dest!: groups_of_key simp del: list.map)
  finally show ?thesis using output_value [OF model built nodes] by simp
qed

end
