(* ===== verification/Sql_Theorems.thy ===== *)
theory Sql_Theorems
  imports Sql_Safe Sql_Meaning
begin

text \<open>The properties of the SQL front end (\<open>crates/ivm-sqlite/src/plan.rs\<close>).\<close>

subsection \<open>Lowering\<close>

lemma lower_ir_iff:
  assumes "compile_sql program sql schema = Ok plan"
  shows "(\<exists>p. lower_ir plan source_types = Ok p) = source_types_ok schema plan source_types \<and> lower_ir plan source_types \<noteq> Panic"
proof -
  from assms obtain selects where "compile_branches program selects schema = Ok plan" by (auto simp: compile_sql_parse rust_simps)
  from lower_ir_ok [OF conjunct1 [OF compile_branches_ok [OF this]] compile_branches_range [OF this], of source_types]
  show ?thesis by (auto split: if_splits)
qed

lemma lowered_from:
  assumes "compile_branches program selects schema = Ok plan" "lower_ir plan source_types = Ok p"
  shows "built_from plan source_types p"
  using lower_ir_ok [OF conjunct1 [OF compile_branches_ok [OF assms(1)]] compile_branches_range [OF assms(1)], of source_types] assms(2)
  by (auto split: if_splits)

text \<open>
  C24: The front end never panics: for any text, schema and source types, tokenizing, parsing, compiling
  to a plan and lowering the plan end with a program or an error value; no index is out of range and no
  \<open>unreachable!\<close> or \<open>expect\<close> of the code is reached.
\<close>

theorem front_end_never_panics:
  "rust_bind (compile_sql program sql schema) (\<lambda>plan. lower_ir plan source_types) \<noteq> Panic"
  using lower_ir_iff compile_sql_no_panic by (fastforce simp: rust_simps)

text \<open>
  C27: A compiled plan can always be lowered once the database gives every source a type per column: for
  such source types lowering returns a program, output types included, and for all others an error.
\<close>

theorem lower_ir_returns:
  assumes "compile_sql program sql schema = Ok plan"
  shows "(\<exists>p. lower_ir plan source_types = Ok p) =
    (\<forall>name \<in> set (cd_sources plan). map_option length (source_types name) = map_option length (schema name))"
  using lower_ir_iff [OF assms] by (simp add: source_types_ok_def list_all_iff)

subsection \<open>A join\<close>

definition sample_schema :: sql_schema where
  "sample_schema = [''t'' \<mapsto> [''k'', ''a''], ''u'' \<mapsto> [''k'', ''b'']]"

definition sample_types :: "string \<Rightarrow> ty list option" where
  "sample_types name = map_option (map (\<lambda>_. TInt)) (sample_schema name)"

definition sample_db :: "string \<Rightarrow> int list multiset" where
  "sample_db name = (if name = ''t'' then {#[1, 10]#} else {#[1, 20]#})"

text \<open>The rules that tokenize a concrete text.\<close>

lemmas lex_rules = lex_def lex_loop.simps trim_start_def white_space_def utf8_cont_def ident_char_def is_ascii_alpha_def is_ascii_digit_def
  sql_symbols_def number_char_def Let_def

definition join_text :: string where
  "join_text = ''SELECT u.b, t.a FROM t JOIN u ON t.k = u.k''"

definition join_select :: ast_select where
  "join_select = \<lparr>sel_items =
        [AsCol \<lparr>ar_qualifier = Some ''u'', ar_name = ''b''\<rparr> [], AsCol \<lparr>ar_qualifier = Some ''t'', ar_name = ''a''\<rparr> []],
        sel_from = AsJoin (AsTable ''t'' None) (AsTable ''u'' None)
           [(\<lparr>ar_qualifier = Some ''t'', ar_name = ''k''\<rparr>, \<lparr>ar_qualifier = Some ''u'', ar_name = ''k''\<rparr>)],
        sel_group = None\<rparr>"

definition join_plan :: "unit compiled" where
  "join_plan = \<lparr>cd_root = RtUnion [BrJoin 0],
     cd_scans = [\<lparr>ss_table = ''t'', ss_columns = [''k'', ''a''], ss_needed = [''k'', ''a''], ss_stage = []\<rparr>,
       \<lparr>ss_table = ''u'', ss_columns = [''k'', ''b''], ss_needed = [''k'', ''b''], ss_stage = []\<rparr>],
     cd_joins = [\<lparr>js_left = 0, js_right = 1, js_left_key = [''k''], js_right_key = [''k''], js_left_proj = [1], js_right_proj = [1],
       js_out_names = [''b'', ''a''], js_delta = []\<rparr>],
     cd_antis = [], cd_topks = [], cd_output = [''b'', ''a''], cd_sources = [''t'', ''u''], cd_stage_width = 2\<rparr>"

definition join_program :: ir_program where
  "join_program = \<lparr>pr_texts = [], pr_terms = [],
     pr_rels = [\<lparr>ir_id = 0, ir_name = ''t'', ir_cols = [TInt, TInt], ir_kind = KSource\<rparr>,
       \<lparr>ir_id = 1, ir_name = ''u'', ir_cols = [TInt, TInt], ir_kind = KSource\<rparr>,
       \<lparr>ir_id = 2, ir_name = [], ir_cols = [TInt, TInt], ir_kind = KDerived\<rparr>],
     pr_nodes = [OGet 0, OMfp 0 [] [] [0, 1], OGet 1, OMfp 2 [] [] [0, 1], OJoin [1, 3] [[(0, 0), (1, 0)]] [], OMfp 4 [] [] [1, 3], OUnion [5]],
     pr_strata = [SLet 2 6], pr_outputs = [2]\<rparr>"

definition join_relations :: "nat \<Rightarrow> int list multiset" where
  "join_relations r = [{#[1, 10]#}, {#[1, 20]#}, {#[10, 20]#}] ! r"

definition join_values :: "nat \<Rightarrow> int list multiset" where
  "join_values n = [{#[1, 10]#}, {#[1, 10]#}, {#[1, 20]#}, {#[1, 20]#}, {#[1, 10, 1, 20]#}, {#[10, 20]#}, {#[10, 20]#}] ! n"

lemma join_lexed: "lex join_text = Ok
    [TkIdent ''SELECT'', TkIdent ''u'', TkSym ''.'', TkIdent ''b'', TkSym '','', TkIdent ''t'', TkSym ''.'', TkIdent ''a'', TkIdent ''FROM'',
     TkIdent ''t'', TkIdent ''JOIN'', TkIdent ''u'', TkIdent ''ON'', TkIdent ''t'', TkSym ''.'', TkIdent ''k'', TkSym ''='', TkIdent ''u'',
     TkSym ''.'', TkIdent ''k'']"
  by (simp add: join_text_def lex_rules)

lemma join_parsed: "parse_sql join_text = Ok [join_select]"
  unfolding parse_sql_def join_lexed by code_simp

lemma join_compiled: "compile_sql ''p'' join_text sample_schema = Ok join_plan"
  unfolding compile_sql_parse join_parsed by code_simp

lemma join_lowered: "lower_ir join_plan sample_types = Ok join_program"
  by code_simp

lemma join_sources: "sources_are join_plan sample_db join_relations"
  by (auto simp: sources_are_def join_plan_def sample_db_def join_relations_def less_Suc_eq)

lemma sum_mset_single: "(\<Sum>a\<in>#{#x#}. f a) = f x"
  by simp

lemma join_model: "is_model (bag_semantics int (\<lambda>M. sum_mset M)) phi join_program join_relations join_values"
  by (auto simp: is_model_def join_program_def join_relations_def join_values_def op_value_def bag_semantics_def bag_op_def project_rows_def
      row_pairs_def class_holds_def stratum_holds_def less_Suc_eq)

text \<open>
  C25: A program of plain selects (joined by UNION) computes, over bags, the sum of what its selects
  mean: for any data of the sources, every model of the lowered program gives the output relation the rows
  of each table or join, cut to the columns of the select list. The columns of a join come left table first
  and right table second (\<open>left_first\<close>), which is the order of the select list only if that has no column of
  the right table before one of the left.
\<close>

theorem union_program_rows:
  assumes "parse_sql sql = Ok selects" and "compile_sql program sql schema = Ok plan" and "sel_group (hd selects) = None"
    and "lower_ir plan source_types = Ok p"
    and "is_model (bag_semantics cnt sm) phi p rho val" and "sources_are plan db rho"
  shows "rho (hd (pr_outputs p)) =
    (\<Sum>s\<leftarrow>selects. select_rows schema db (sel_from s) (left_first schema (sel_from s) (the (plain_refs (sel_items s)))))"
proof -
  have run: "compile_branches program selects schema = Ok plan" using assms(1,2) by (simp add: compile_sql_parse)
  with compile_branches_ok [OF run] assms(3) obtain refs where "scans_ok schema plan" "cd_root plan = RtUnion refs"
    "list_all2 (branch_ok (cd_scans plan) (cd_joins plan)) selects refs" by auto
  with union_value [OF assms(5,6) _ lowered_from [OF run assms(4)]] parse_sql_items [OF assms(1)] show ?thesis by blast
qed

theorem union_program_rows_witness:
  "join_relations (hd (pr_outputs join_program)) = select_rows sample_schema sample_db (sel_from join_select)
     [\<lparr>ar_qualifier = Some ''t'', ar_name = ''a''\<rparr>, \<lparr>ar_qualifier = Some ''u'', ar_name = ''b''\<rparr>]"
proof -
  have order: "left_first sample_schema (sel_from join_select) (the (plain_refs (sel_items join_select))) =
      [\<lparr>ar_qualifier = Some ''t'', ar_name = ''a''\<rparr>, \<lparr>ar_qualifier = Some ''u'', ar_name = ''b''\<rparr>]" by code_simp
  have "sel_group (hd [join_select]) = None" by (simp add: join_select_def)
  from union_program_rows [OF join_parsed join_compiled this join_lowered join_model join_sources] order show ?thesis by simp
qed

text \<open>
  An instance of the above in which \<open>left_first\<close> is not the order of the select list: a column of
  the right table of a join is named before one of the left table. The program for \<open>SELECT u.b, t.a\<close> has the output columns \<open>b\<close> and \<open>a\<close>, but where
  \<open>t.a\<close> is 10 and \<open>u.b\<close> is 20 its output row is 10, 20 while the select statement means 20, 10.
\<close>

lemma join_columns_swapped:
  "\<exists>plan p rho val. compile_sql ''p'' join_text sample_schema = Ok (plan :: unit compiled) \<and> lower_ir plan sample_types = Ok p \<and>
     is_model (bag_semantics int (\<lambda>M. sum_mset M)) phi p rho val \<and> sources_are plan sample_db rho \<and>
     cd_output plan = [''b'', ''a''] \<and> rho (hd (pr_outputs p)) = {#[10, 20]#} \<and>
     select_rows sample_schema sample_db (sel_from join_select) (the (plain_refs (sel_items join_select))) = {#[20, 10]#}"
proof (intro exI conjI)
  show "compile_sql ''p'' join_text sample_schema = Ok join_plan" by (rule join_compiled)
  show "lower_ir join_plan sample_types = Ok join_program" by (rule join_lowered)
  show "is_model (bag_semantics int (\<lambda>M. sum_mset M)) phi join_program join_relations join_values" by (rule join_model)
  show "sources_are join_plan sample_db join_relations" by (rule join_sources)
  show "cd_output join_plan = [''b'', ''a'']" by (simp add: join_plan_def)
  show "join_relations (hd (pr_outputs join_program)) = {#[10, 20]#}" by (simp add: join_relations_def join_program_def)
  show "select_rows sample_schema sample_db (sel_from join_select) (the (plain_refs (sel_items join_select))) = {#[20, 10]#}"
    by (simp add: select_rows_def join_select_def sample_schema_def sample_db_def Let_def join_rows_def row_pairs_def pair_cell_def cell_of_def
        col_at_def left_side_def ref_left_def eq_ignore_case_def to_upper_def ascii_upper_def alias_or_def)
qed

text \<open>Lowering the sample join, with and without types for its sources.\<close>

theorem lower_ir_returns_witness:
  "(\<exists>p. lower_ir join_plan sample_types = Ok p) \<and> \<not> (\<exists>p. lower_ir join_plan (\<lambda>_. None) = Ok p)"
  using lower_ir_returns [OF join_compiled, of sample_types] lower_ir_returns [OF join_compiled, of "\<lambda>_. None"] join_lowered
  by (simp add: join_plan_def sample_schema_def)

subsection \<open>A grouped select\<close>

definition group_text :: string where
  "group_text = ''SELECT a, sum(k) AS s, count(*) AS n FROM t GROUP BY a''"

definition group_select :: ast_select where
  "group_select = \<lparr>sel_items = [AsCol \<lparr>ar_qualifier = None, ar_name = ''a''\<rparr> [], AsSum \<lparr>ar_qualifier = None, ar_name = ''k''\<rparr> ''s'', AsCount ''n''],
     sel_from = AsTable ''t'' None, sel_group = Some [\<lparr>ar_qualifier = None, ar_name = ''a''\<rparr>]\<rparr>"

definition group_plan :: "unit compiled" where
  "group_plan = \<lparr>cd_root = RtGroup 0 [\<lparr>tn_take = 0, tn_name = ''a''\<rparr>] [\<lparr>tn_take = 1, tn_name = ''s''\<rparr>] [],
     cd_scans = [\<lparr>ss_table = ''t'', ss_columns = [''k'', ''a''], ss_needed = [''a'', ''k''], ss_stage = []\<rparr>],
     cd_joins = [], cd_antis = [], cd_topks = [], cd_output = [''a'', ''s'', ''n''], cd_sources = [''t''], cd_stage_width = 2\<rparr>"

definition group_program :: ir_program where
  "group_program = \<lparr>pr_texts = [], pr_terms = [],
     pr_rels = [\<lparr>ir_id = 0, ir_name = ''t'', ir_cols = [TInt, TInt], ir_kind = KSource\<rparr>,
       \<lparr>ir_id = 1, ir_name = [], ir_cols = [TInt, TInt, TInt], ir_kind = KDerived\<rparr>],
     pr_nodes = [OGet 0, OMfp 0 [] [] [1, 0], OReduce 1 [0] [ACount, ASum 1]], pr_strata = [SLet 1 2], pr_outputs = [1]\<rparr>"

definition group_db :: "string \<Rightarrow> int list multiset" where
  "group_db name = {#[5, 7], [6, 7]#}"

definition group_relations :: "nat \<Rightarrow> int list multiset" where
  "group_relations r = [{#[5, 7], [6, 7]#}, {#[7, 2, 11]#}] ! r"

definition group_values :: "nat \<Rightarrow> int list multiset" where
  "group_values n = [{#[5, 7], [6, 7]#}, {#[7, 5], [7, 6]#}, {#[7, 2, 11]#}] ! n"

lemma group_lexed: "lex group_text = Ok
    [TkIdent ''SELECT'', TkIdent ''a'', TkSym '','', TkIdent ''sum'', TkSym ''('', TkIdent ''k'', TkSym '')'', TkIdent ''AS'', TkIdent ''s'',
     TkSym '','', TkIdent ''count'', TkSym ''('', TkSym ''*'', TkSym '')'', TkIdent ''AS'', TkIdent ''n'', TkIdent ''FROM'', TkIdent ''t'',
     TkIdent ''GROUP'', TkIdent ''BY'', TkIdent ''a'']"
  by (simp add: group_text_def lex_rules)

lemma group_parsed: "parse_sql group_text = Ok [group_select]"
  unfolding parse_sql_def group_lexed by code_simp

lemma group_compiled: "compile_sql ''p'' group_text sample_schema = Ok group_plan"
  unfolding compile_sql_parse group_parsed by code_simp

lemma group_lowered: "lower_ir group_plan sample_types = Ok group_program"
  by code_simp

lemma group_sources: "sources_are group_plan group_db group_relations"
  by (auto simp: sources_are_def group_plan_def group_db_def group_relations_def)

lemma group_model: "is_model (bag_semantics int (\<lambda>M. sum_mset M)) phi group_program group_relations group_values"
  by (auto simp: is_model_def group_program_def group_relations_def group_values_def op_value_def bag_semantics_def bag_op_def project_rows_def
      groups_of_def agg_value_def stratum_holds_def less_Suc_eq)

text \<open>
  C26: A grouped select computes one row for each key its table has: the key columns in the order of GROUP
  BY, the number of rows with that key, and the sums of the select list in their order, whatever order the
  select list has and whether or not it has a count. The output names are the names of the GROUP BY keys in
  their order, then those of the counts and sums in the order of the select list; the place and the aliases
  of key columns in the select list play no part in either.
\<close>

theorem group_program_rows:
  assumes "parse_sql sql = Ok selects" and "compile_sql program sql schema = Ok plan" and "sel_group (hd selects) = Some keys"
    and "lower_ir plan source_types = Ok p"
    and "is_model (bag_semantics cnt sm) phi p rho val" and "sources_are plan db rho"
  shows "cd_output plan = map ar_name keys @ aggregate_names (sel_items (hd selects)) \<and>
    (\<exists>name al. sel_from (hd selects) = AsTable name al \<and>
       rho (hd (pr_outputs p)) = group_rows cnt sm schema db name keys (keys_count_sums keys (sel_items (hd selects))))"
proof -
  have run: "compile_branches program selects schema = Ok plan" using assms(1,2) by (simp add: compile_sql_parse)
  with compile_branches_ok [OF run] assms(3) obtain s where s: "selects = [s]" "scans_ok schema plan" "group_plan_ok plan s keys"
    by (cases selects) auto
  then obtain name al where "sel_from s = AsTable name al" "cd_output plan = map ar_name keys @ aggregate_names (sel_items s)"
    by (auto simp: group_plan_ok_def)
  with group_value_of [OF assms(5,6) s(2) lowered_from [OF run assms(4)] s(3)] s(1) show ?thesis by simp
qed

theorem group_program_rows_witness:
  "\<exists>name al. sel_from group_select = AsTable name al \<and> group_relations (hd (pr_outputs group_program)) =
     group_rows int (\<lambda>M. sum_mset M) sample_schema group_db name [\<lparr>ar_qualifier = None, ar_name = ''a''\<rparr>]
       [AsCol \<lparr>ar_qualifier = None, ar_name = ''a''\<rparr> [], AsCount [], AsSum \<lparr>ar_qualifier = None, ar_name = ''k''\<rparr> []]"
proof -
  have "sel_group (hd [group_select]) = Some [\<lparr>ar_qualifier = None, ar_name = ''a''\<rparr>]" by (simp add: group_select_def)
  from group_program_rows [OF group_parsed group_compiled this group_lowered group_model group_sources]
  show ?thesis by (simp add: keys_count_sums_def group_select_def)
qed

text \<open>
  An instance of the above in which the names do not match the columns: for
  \<open>SELECT a, sum(k) AS s, count(*) AS n FROM t GROUP BY a\<close> over rows with \<open>a\<close> = 7 and \<open>k\<close> = 5 and 6, the
  output columns are \<open>a\<close>, \<open>s\<close>, \<open>n\<close>, but the output row is 7, 2, 11 where the statement means 7, 11, 2.
\<close>

lemma group_columns_misnamed:
  "\<exists>plan p rho val. compile_sql ''p'' group_text sample_schema = Ok (plan :: unit compiled) \<and> lower_ir plan sample_types = Ok p \<and>
     is_model (bag_semantics int (\<lambda>M. sum_mset M)) phi p rho val \<and> sources_are plan group_db rho \<and>
     cd_output plan = [''a'', ''s'', ''n''] \<and> rho (hd (pr_outputs p)) = {#[7, 2, 11]#} \<and>
     group_rows int (\<lambda>M. sum_mset M) sample_schema group_db ''t'' (the (sel_group group_select)) (sel_items group_select) = {#[7, 11, 2]#}"
proof (intro exI conjI)
  show "compile_sql ''p'' group_text sample_schema = Ok group_plan" by (rule group_compiled)
  show "lower_ir group_plan sample_types = Ok group_program" by (rule group_lowered)
  show "is_model (bag_semantics int (\<lambda>M. sum_mset M)) phi group_program group_relations group_values" by (rule group_model)
  show "sources_are group_plan group_db group_relations" by (rule group_sources)
  show "cd_output group_plan = [''a'', ''s'', ''n'']" by (simp add: group_plan_def)
  show "group_relations (hd (pr_outputs group_program)) = {#[7, 2, 11]#}" by (simp add: group_relations_def group_program_def)
  show "group_rows int (\<lambda>M. sum_mset M) sample_schema group_db ''t'' (the (sel_group group_select)) (sel_items group_select) = {#[7, 11, 2]#}"
    by (simp add: group_rows_def group_select_def sample_schema_def group_db_def groups_of_def group_value_def cell_of_def col_at_def)
qed

end
