(* ===== verification/Route_Engine.thy ===== *)
theory Route_Engine
  imports Containers Ir_Strings
begin

text \<open>
  The engine of the trait-engine lab (\<open>0_contract.rs\<close>, \<open>1_rust.rs\<close> of
  \<open>labs/20260923.0.the-gang-routes-frontiers-through-trait-engines\<close>): two plan shapes over source rows
  with an identity, kept up to date under frontiers of insertions and retractions. The record
  \<open>route_engine\<close> has the fields of \<open>RustEngine\<close>. Hash maps that are only looked up are functions, an
  absent inner map being an empty one; the \<open>BTreeMap\<close>s are lists in key order, and a \<open>BTreeSet\<close> is
  such a map with unit values. Operations on \<open>&mut self\<close> return the result and the engine.
\<close>

subsection \<open>Contract types\<close>

record route_row =
  rr_id :: i64
  rr_cells :: "i64 list"

record route_change =
  rc_source :: u8
  rc_row :: route_row
  rc_weight :: "8 word" \<comment> \<open>\<open>i8\<close>\<close>

record weighted_row =
  wr_cells :: "i64 list"
  wr_weight :: i64

record route_frontier =
  rf_id :: u64
  rf_changes :: "weighted_row list"

datatype route_plan =
    JoinUnion u8 u8 u8 nat nat nat nat "nat \<times> nat"
      \<comment> \<open>left, right, direct; left and right key, left and right output, direct output\<close>
  | GroupCountSum u8 nat nat \<comment> \<open>source; group and value column\<close>

record route_error =
  re_stage :: string
  re_source :: "u8 option"
  re_message :: string

type_synonym 'a route_res = "(route_error, 'a) rust"

text \<open>The state of the engine.\<close>

type_synonym route_rows = "u8 \<Rightarrow> i64 \<Rightarrow> i64 list option"
type_synonym id_set = "(i64 \<times> unit) list"
type_synonym pending = "((u8 \<times> i64) \<times> (i64 list option \<times> i64 list option)) list"

record route_engine =
  rt_plan :: "route_plan option"
  rt_rows :: route_rows
  rt_indexes :: "u8 \<Rightarrow> i64 \<Rightarrow> id_set"
  rt_support :: "(i64 list \<times> i64) list"
  rt_groups :: "(i64 \<times> (i64 \<times> i64)) list"
  rt_next_frontier :: u64

definition route_new :: route_engine where
  "route_new = \<lparr>rt_plan = None, rt_rows = (\<lambda>_ _. None), rt_indexes = (\<lambda>_ _. []), rt_support = [],
     rt_groups = [], rt_next_frontier = 0\<rparr>"

definition route_error_of :: "string \<Rightarrow> u8 option \<Rightarrow> string \<Rightarrow> route_error" where
  "route_error_of stage source message = \<lparr>re_stage = stage, re_source = source, re_message = message\<rparr>"

text \<open>A loop whose body may fail.\<close>

fun try_fold :: "('x \<Rightarrow> 'b \<Rightarrow> ('e, 'b) rust) \<Rightarrow> 'x list \<Rightarrow> 'b \<Rightarrow> ('e, 'b) rust" where
  "try_fold f [] b = Ok b"
| "try_fold f (x # xs) b = rust_bind (f x b) (try_fold f xs)"

text \<open>The order of pending keys \<open>(u8, i64)\<close>.\<close>

definition pend_key :: "u8 \<times> i64 \<Rightarrow> int \<times> int" where
  "pend_key = (\<lambda>(s, i). (uint s, sint i))"

subsection \<open>Validation\<close>

fun key_column :: "route_plan \<Rightarrow> u8 \<Rightarrow> nat option" where
  "key_column (JoinUnion left right _ left_key right_key _ _ _) source =
     (if left = source then Some left_key else if right = source then Some right_key else None)"
| "key_column (GroupCountSum _ _ _) source = None"

definition row_column :: "i64 list \<Rightarrow> nat \<Rightarrow> u8 \<Rightarrow> i64 route_res" where
  "row_column row at source =
     (case vec_get row at of
        Some x \<Rightarrow> Ok x
      | None \<Rightarrow> Err (route_error_of ''validate'' (Some source) (''column '' @ nat_digits at @ '' absent'')))"

fun plan_reads :: "route_plan \<Rightarrow> u8 \<Rightarrow> bool" where
  "plan_reads (JoinUnion left right direct _ _ _ _ _) s = (s \<in> {left, right, direct})"
| "plan_reads (GroupCountSum source _ _) s = (source = s)"

fun needed_columns :: "route_plan \<Rightarrow> u8 \<Rightarrow> nat list" where
  "needed_columns (JoinUnion left right direct left_key right_key left_output right_output (d0, d1)) source =
     (if source = left then [left_key, left_output]
      else if source = right then [right_key, right_output]
      else if source = direct then [d0, d1]
      else [])"
| "needed_columns (GroupCountSum _ grp val) source = [grp, val]"

definition pending_step :: "route_plan \<Rightarrow> route_engine \<Rightarrow> route_change \<Rightarrow> pending \<Rightarrow> pending route_res" where
  "pending_step plan e c p =
     (if rc_weight c \<noteq> 1 \<and> rc_weight c \<noteq> -1 then
        Err (route_error_of ''validate'' (Some (rc_source c)) ''weight must be +1 or -1'')
      else if \<not> plan_reads plan (rc_source c) then
        Err (route_error_of ''validate'' (Some (rc_source c)) ''source absent from plan'')
      else
        let key = (rc_source c, rr_id (rc_row c));
            (before, after) = (case map_of p key of
               Some entry \<Rightarrow> entry
             | None \<Rightarrow> (let old = rt_rows e (rc_source c) (rr_id (rc_row c)) in (old, old)))
        in if rc_weight c = 1 then
             (if after \<noteq> None then
                Err (route_error_of ''validate'' (Some (rc_source c)) ''duplicate row ID'')
              else Ok (bt_insert pend_key key (before, Some (rr_cells (rc_row c))) p))
           else if after \<noteq> Some (rr_cells (rc_row c)) then
             Err (route_error_of ''validate'' (Some (rc_source c)) ''retracted row differs from stored row'')
           else Ok (bt_insert pend_key key (before, None) p))"

definition check_columns :: "route_plan \<Rightarrow> pending \<Rightarrow> unit route_res" where
  "check_columns plan p =
     try_fold (\<lambda>((source, _), (_, after)) _.
       case after of
         None \<Rightarrow> Ok ()
       | Some row \<Rightarrow>
           try_fold (\<lambda>at _. rust_bind (row_column row at source) (\<lambda>_. Ok ())) (needed_columns plan source) ())
       p ()"

definition route_pending :: "route_engine \<Rightarrow> route_change list \<Rightarrow> pending route_res" where
  "route_pending e changes =
     (case rt_plan e of
        None \<Rightarrow> Err (route_error_of ''apply'' None ''program not installed'')
      | Some plan \<Rightarrow>
          rust_bind (try_fold (pending_step plan e) changes []) (\<lambda>p.
          rust_bind (check_columns plan p) (\<lambda>_. Ok p)))"

subsection \<open>Deltas\<close>

definition row_diffs :: "pending \<Rightarrow> u8 \<Rightarrow> (i64 list \<times> i64) list" where
  "row_diffs p source =
     concat (map (\<lambda>((name, _), (before, after)).
       if name \<noteq> source \<or> before = after then []
       else (case before of Some row \<Rightarrow> [(row, -1)] | None \<Rightarrow> []) @
            (case after of Some row \<Rightarrow> [(row, 1)] | None \<Rightarrow> [])) p)"

definition old_at_key :: "route_engine \<Rightarrow> u8 \<Rightarrow> i64 \<Rightarrow> i64 list list" where
  "old_at_key e source key = List.map_filter (\<lambda>(i, _). rt_rows e source i) (rt_indexes e source key)"

definition new_at_key :: "route_engine \<Rightarrow> u8 \<Rightarrow> i64 \<Rightarrow> nat \<Rightarrow> pending \<Rightarrow> i64 list list route_res" where
  "new_at_key e source key key_col p =
     try_fold (\<lambda>((name, _), (_, after)) out.
       if name = source then
         (case after of
            Some row \<Rightarrow> rust_bind (vec_index row key_col) (\<lambda>k. Ok (if k = key then out @ [row] else out))
          | None \<Rightarrow> Ok out)
       else Ok out)
       p
       (List.map_filter (\<lambda>(i, _). if map_of p (source, i) \<noteq> None then None else rt_rows e source i)
          (rt_indexes e source key))"

definition add_weight :: "i64 list \<Rightarrow> i64 \<Rightarrow> (i64 list \<times> i64) list \<Rightarrow> (i64 list \<times> i64) list" where
  "add_weight row sign delta = bt_insert row_key row (zget delta row + sign) delta"

definition check_support :: "(i64 list \<times> i64) list \<Rightarrow> (i64 list \<times> i64) list \<Rightarrow> unit route_res" where
  "check_support support delta =
     try_fold (\<lambda>(row, weight) _.
       case checked_add (zget support row) weight of
         None \<Rightarrow> Err (route_error_of ''support'' None ''weight overflow'')
       | Some after \<Rightarrow>
           if sint after < 0 then Err (route_error_of ''support'' None ''negative support'') else Ok ())
       delta ()"

fun join_union_delta :: "route_engine \<Rightarrow> route_plan \<Rightarrow> pending \<Rightarrow> (i64 list \<times> i64) list route_res" where
  "join_union_delta e (JoinUnion left right direct left_key right_key left_output right_output (d0, d1)) p =
     rust_bind (try_fold (\<lambda>(row, sign) delta.
         rust_bind (vec_index row d0) (\<lambda>a. rust_bind (vec_index row d1) (\<lambda>b. Ok (add_weight [a, b] sign delta))))
       (row_diffs p direct) []) (\<lambda>delta.
     rust_bind (try_fold (\<lambda>(row, sign) delta.
         rust_bind (vec_index row left_key) (\<lambda>key.
         try_fold (\<lambda>other delta.
           rust_bind (vec_index row left_output) (\<lambda>a. rust_bind (vec_index other right_output) (\<lambda>b.
           Ok (add_weight [a, b] sign delta)))) (old_at_key e right key) delta))
       (row_diffs p left) delta) (\<lambda>delta.
     rust_bind (try_fold (\<lambda>(row, sign) delta.
         rust_bind (vec_index row right_key) (\<lambda>key.
         rust_bind (new_at_key e left key left_key p) (\<lambda>others.
         try_fold (\<lambda>other delta.
           rust_bind (vec_index other left_output) (\<lambda>a. rust_bind (vec_index row right_output) (\<lambda>b.
           Ok (add_weight [a, b] sign delta)))) others delta)))
       (row_diffs p right) delta) (\<lambda>delta.
     let delta = filter (\<lambda>(_, weight). weight \<noteq> 0) delta
     in rust_bind (check_support (rt_support e) delta) (\<lambda>_. Ok delta))))"
| "join_union_delta e (GroupCountSum _ _ _) p = Panic"

definition checked_mul :: "i64 \<Rightarrow> i64 \<Rightarrow> i64 option" where
  "checked_mul a b = (let s = sint a * sint b in if - (2 ^ 63) \<le> s \<and> s < 2 ^ 63 then Some (a * b) else None)"

definition group_get :: "(i64 \<times> (i64 \<times> i64)) list \<Rightarrow> i64 \<Rightarrow> i64 \<times> i64" where
  "group_get m k = (case map_of m k of Some entry \<Rightarrow> entry | None \<Rightarrow> (0, 0))"

text \<open>\<open>ok_or_else\<close> with the errors of \<open>group_delta\<close>.\<close>

definition group_ok :: "u8 \<Rightarrow> string \<Rightarrow> 'a option \<Rightarrow> 'a route_res" where
  "group_ok source message x =
     (case x of Some a \<Rightarrow> Ok a | None \<Rightarrow> Err (route_error_of ''group'' (Some source) message))"

definition group_add :: "u8 \<Rightarrow> nat \<Rightarrow> nat \<Rightarrow> i64 list \<times> i64 \<Rightarrow> (i64 \<times> (i64 \<times> i64)) list \<Rightarrow>
    (i64 \<times> (i64 \<times> i64)) list route_res" where
  "group_add source grp val = (\<lambda>(row, sign) delta.
     rust_bind (vec_index row grp) (\<lambda>key.
     let (cnt, tot) = group_get delta key
     in rust_bind (group_ok source ''count overflow'' (checked_add cnt sign)) (\<lambda>cnt1.
        rust_bind (vec_index row val) (\<lambda>v.
        rust_bind (group_ok source ''sum overflow'' (checked_mul sign v)) (\<lambda>w.
        rust_bind (group_ok source ''sum overflow'' (checked_add tot w)) (\<lambda>tot1.
        Ok (bt_insert sint key (cnt1, tot1) delta)))))))"

definition check_groups :: "u8 \<Rightarrow> (i64 \<times> (i64 \<times> i64)) list \<Rightarrow> (i64 \<times> (i64 \<times> i64)) list \<Rightarrow> unit route_res" where
  "check_groups source groups delta =
     try_fold (\<lambda>(key, (cnt, tot)) _.
       let old = group_get groups key
       in rust_bind (group_ok source ''count overflow'' (checked_add (fst old) cnt)) (\<lambda>after_count.
          rust_bind (group_ok source ''sum overflow'' (checked_add (snd old) tot)) (\<lambda>_.
          if sint after_count < 0 then Err (route_error_of ''group'' (Some source) ''negative count'') else Ok ())))
       delta ()"

fun group_delta :: "route_engine \<Rightarrow> route_plan \<Rightarrow> pending \<Rightarrow> (i64 \<times> (i64 \<times> i64)) list route_res" where
  "group_delta e (GroupCountSum source grp val) p =
     rust_bind (try_fold (group_add source grp val) (row_diffs p source) []) (\<lambda>delta.
     rust_bind (check_groups source (rt_groups e) delta) (\<lambda>_. Ok delta))"
| "group_delta e (JoinUnion _ _ _ _ _ _ _ _) p = Panic"

subsection \<open>Writes\<close>

text \<open>One pending entry: the index of its source, then its row.\<close>

definition index_remove :: "u8 \<Rightarrow> i64 \<Rightarrow> i64 \<Rightarrow> route_engine \<Rightarrow> route_engine" where
  "index_remove source key i e =
     e\<lparr>rt_indexes := (rt_indexes e)(source := (rt_indexes e source)(key := AList.delete i (rt_indexes e source key)))\<rparr>"

definition index_insert :: "u8 \<Rightarrow> i64 \<Rightarrow> i64 \<Rightarrow> route_engine \<Rightarrow> route_engine" where
  "index_insert source key i e =
     e\<lparr>rt_indexes := (rt_indexes e)(source := (rt_indexes e source)(key := bt_insert sint i () (rt_indexes e source key)))\<rparr>"

definition write_index :: "nat \<Rightarrow> u8 \<Rightarrow> i64 \<Rightarrow> i64 list option \<Rightarrow> i64 list option \<Rightarrow> route_engine \<Rightarrow> route_engine route_res" where
  "write_index key_col source i before after e =
     rust_bind (case before of
         Some old \<Rightarrow> rust_bind (vec_index old key_col) (\<lambda>key. Ok (index_remove source key i e))
       | None \<Rightarrow> Ok e) (\<lambda>e1.
     case after of
       Some new \<Rightarrow> rust_bind (vec_index new key_col) (\<lambda>key. Ok (index_insert source key i e1))
     | None \<Rightarrow> Ok e1)"

definition write_entry :: "route_plan \<Rightarrow> (u8 \<times> i64) \<times> (i64 list option \<times> i64 list option) \<Rightarrow> route_engine \<Rightarrow>
    route_engine route_res" where
  "write_entry plan = (\<lambda>((source, i), (before, after)) e.
     if before = after then Ok e
     else rust_bind (case key_column plan source of
                       Some key_col \<Rightarrow> write_index key_col source i before after e
                     | None \<Rightarrow> Ok e) (\<lambda>e1.
          Ok (e1\<lparr>rt_rows := (rt_rows e1)(source := (rt_rows e1 source)(i := after))\<rparr>)))"

definition write_sources :: "route_plan \<Rightarrow> pending \<Rightarrow> route_engine \<Rightarrow> route_engine route_res" where
  "write_sources plan p e = try_fold (write_entry plan) p e"

text \<open>The two output loops of \<open>apply\<close>.\<close>

definition emit :: "i64 list \<Rightarrow> i64 \<Rightarrow> weighted_row" where
  "emit cells weight = \<lparr>wr_cells = cells, wr_weight = weight\<rparr>"

definition join_output :: "i64 list \<times> i64 \<Rightarrow> (i64 list \<times> i64) list \<times> weighted_row list \<Rightarrow>
    (i64 list \<times> i64) list \<times> weighted_row list" where
  "join_output = (\<lambda>(row, weight) (support, out).
     let old = zget support row; new = old + weight
     in (if new = 0 then AList.delete row support else bt_insert row_key row new support,
         out @ (if old = 0 \<and> 0 < sint new then [emit row 1] else [])
             @ (if 0 < sint old \<and> new = 0 then [emit row (-1)] else [])))"

definition group_output :: "i64 \<times> (i64 \<times> i64) \<Rightarrow> (i64 \<times> (i64 \<times> i64)) list \<times> weighted_row list \<Rightarrow>
    (i64 \<times> (i64 \<times> i64)) list \<times> weighted_row list" where
  "group_output = (\<lambda>(key, (cnt, tot)) (groups, out).
     let old = group_get groups key; new = (fst old + cnt, snd old + tot)
     in if old = new then (groups, out)
        else (if fst new = 0 then AList.delete key groups else bt_insert sint key new groups,
              out @ (if 0 < sint (fst old) then [emit [key, fst old, snd old] (-1)] else [])
                  @ (if 0 < sint (fst new) then [emit [key, fst new, snd new] 1] else [])))"

subsection \<open>The engine trait\<close>

definition route_install :: "route_plan \<Rightarrow> route_engine \<Rightarrow> unit route_res \<times> route_engine" where
  "route_install plan e =
     (if rt_plan e \<noteq> None then (Err (route_error_of ''install'' None ''program already installed''), e)
      else if (case plan of
                 JoinUnion left right direct _ _ _ _ _ \<Rightarrow> left = right \<or> left = direct \<or> right = direct
               | GroupCountSum _ _ _ \<Rightarrow> False)
      then (Err (route_error_of ''install'' None ''source IDs must be distinct''), e)
      else (Ok (), e\<lparr>rt_plan := Some plan\<rparr>))"

definition route_settle :: "route_plan \<Rightarrow> pending \<Rightarrow> route_engine \<Rightarrow> weighted_row list route_res \<times> route_engine" where
  "route_settle plan p e =
     (case plan of
        JoinUnion _ _ _ _ _ _ _ _ \<Rightarrow>
          (case join_union_delta e plan p of
             Ok delta \<Rightarrow>
               let (support, out) = fold join_output delta (rt_support e, [])
               in (Ok out, e\<lparr>rt_support := support\<rparr>)
           | Err er \<Rightarrow> (Err er, e)
           | Panic \<Rightarrow> (Panic, e))
      | GroupCountSum _ _ _ \<Rightarrow>
          (case group_delta e plan p of
             Ok delta \<Rightarrow>
               let (groups, out) = fold group_output delta (rt_groups e, [])
               in (Ok out, e\<lparr>rt_groups := groups\<rparr>)
           | Err er \<Rightarrow> (Err er, e)
           | Panic \<Rightarrow> (Panic, e)))"

definition route_apply :: "route_change list \<Rightarrow> route_engine \<Rightarrow> route_frontier route_res \<times> route_engine" where
  "route_apply changes e =
     (case rt_plan e of
        None \<Rightarrow> (Err (route_error_of ''apply'' None ''program not installed''), e)
      | Some plan \<Rightarrow>
          (case route_pending e changes of
             Err er \<Rightarrow> (Err er, e)
           | Panic \<Rightarrow> (Panic, e)
           | Ok p \<Rightarrow>
               (case route_settle plan p e of
                  (Err er, e1) \<Rightarrow> (Err er, e1)
                | (Panic, e1) \<Rightarrow> (Panic, e1)
                | (Ok out, e1) \<Rightarrow>
                    (case write_sources plan p e1 of
                       Ok e2 \<Rightarrow>
                         (Ok \<lparr>rf_id = rt_next_frontier e2, rf_changes = out\<rparr>,
                          e2\<lparr>rt_next_frontier := rt_next_frontier e2 + 1\<rparr>)
                     | Err er \<Rightarrow> (Err er, e1)
                     | Panic \<Rightarrow> (Panic, e1)))))"

definition route_snapshot :: "route_engine \<Rightarrow> i64 list list route_res" where
  "route_snapshot e =
     (case rt_plan e of
        None \<Rightarrow> Err (route_error_of ''read'' None ''program not installed'')
      | Some (JoinUnion _ _ _ _ _ _ _ _) \<Rightarrow> Ok (map fst (filter (\<lambda>(_, weight). 0 < sint weight) (rt_support e)))
      | Some (GroupCountSum _ _ _) \<Rightarrow> Ok (map (\<lambda>(grp, (cnt, tot)). [grp, cnt, tot]) (rt_groups e)))"

definition route_teardown :: "route_engine \<Rightarrow> unit route_res \<times> route_engine" where
  "route_teardown e = (Ok (), route_new)"

end
