(* ===== verification/Route_Pending.thy ===== *)
theory Route_Pending
  imports Route_Engine
begin

text \<open>
  What validation accepts. \<open>play\<close> is the meaning of a list of changes: each is checked against the
  rows the earlier ones leave. The pending map, which records the first and last state of every row
  a frontier touches, describes exactly the step from the rows before to the rows after
  (\<open>pend_desc\<close>), and it is built exactly when the changes can be played.
\<close>

subsection \<open>Loops\<close>

lemma try_fold_unit_Ok: "try_fold (\<lambda>x _. f x) xs () = Ok () \<longleftrightarrow> (\<forall>x \<in> set xs. f x = Ok ())"
  by (induction xs) (auto simp: rust_simps)

lemma try_fold_unit_total:
  "(\<And>x. x \<in> set xs \<Longrightarrow> f x \<noteq> Panic) \<Longrightarrow> try_fold (\<lambda>x _. f x) xs () \<noteq> Panic"
  by (induction xs) (auto simp: rust_simps)

lemma try_fold_pure:
  "(\<And>x b. x \<in> set xs \<Longrightarrow> f x b = Ok (g x b)) \<Longrightarrow> try_fold f xs b = Ok (fold g xs b)"
  by (induction xs arbitrary: b) auto

lemma unit_res_cases: "(r :: unit route_res) \<noteq> Panic \<Longrightarrow> r = Ok () \<or> (\<exists>er. r = Err er)"
  by (cases r) auto

subsection \<open>Pending keys\<close>

lemma inj_pend_key: "inj pend_key"
  by (auto simp: inj_def pend_key_def word_uint_eq_iff)

interpretation pend: keyed_map "bt_inv pend_key" "bt_insert pend_key" AList.delete
  by unfold_locales (auto simp: bt_inv_distinct map_of_bt_insert [OF inj_pend_key] delete_conv')

lemma inj_sint: "inj (sint :: i64 \<Rightarrow> int)"
  by (simp add: inj_def)

interpretation cells: keyed_map "bt_inv (sint :: i64 \<Rightarrow> int)" "bt_insert sint" AList.delete
  by unfold_locales (auto simp: bt_inv_distinct map_of_bt_insert [OF inj_sint] delete_conv')

subsection \<open>Playing changes\<close>

definition put_row :: "u8 \<Rightarrow> i64 \<Rightarrow> i64 list option \<Rightarrow> route_rows \<Rightarrow> route_rows" where
  "put_row s i r rows = rows(s := (rows s)(i := r))"

lemma put_row_get [simp]: "put_row s i r rows s' i' = (if s' = s \<and> i' = i then r else rows s' i')"
  by (simp add: put_row_def)

definition play_change :: "route_plan \<Rightarrow> route_change \<Rightarrow> route_rows \<Rightarrow> route_rows option" where
  "play_change plan c rows =
     (let s = rc_source c; i = rr_id (rc_row c); cells = rr_cells (rc_row c)
      in if \<not> plan_reads plan s then None
         else if rc_weight c = 1 \<and> rows s i = None then Some (put_row s i (Some cells) rows)
         else if rc_weight c = -1 \<and> rows s i = Some cells then Some (put_row s i None rows)
         else None)"

fun play :: "route_plan \<Rightarrow> route_change list \<Rightarrow> route_rows \<Rightarrow> route_rows option" where
  "play plan [] rows = Some rows"
| "play plan (c # cs) rows = Option.bind (play_change plan c rows) (play plan cs)"

text \<open>Rows long enough for the columns the plan reads.\<close>

definition rows_fit :: "route_plan \<Rightarrow> route_rows \<Rightarrow> bool" where
  "rows_fit plan rows = (\<forall>s i row. rows s i = Some row \<longrightarrow> (\<forall>at \<in> set (needed_columns plan s). at < length row))"

definition pend_desc :: "pending \<Rightarrow> route_rows \<Rightarrow> route_rows \<Rightarrow> bool" where
  "pend_desc p rows rows' =
     (bt_inv pend_key p \<and>
      (\<forall>s i. map_of p (s, i) = Some (rows s i, rows' s i) \<or> map_of p (s, i) = None \<and> rows' s i = rows s i))"

lemma pend_desc_mem:
  assumes "pend_desc p rows rows'"
  shows "((s, i), (b, a)) \<in> set p \<Longrightarrow> b = rows s i \<and> a = rows' s i"
proof -
  assume "((s, i), (b, a)) \<in> set p"
  then have "map_of p (s, i) = Some (b, a)"
    using assms by (simp add: pend_desc_def pend.inv_distinct)
  with assms show ?thesis
    unfolding pend_desc_def by (metis option.distinct(1) option.inject prod.inject)
qed

lemma pend_desc_out: "pend_desc p rows rows' \<Longrightarrow> map_of p (s, i) = None \<Longrightarrow> rows' s i = rows s i"
  by (force simp: pend_desc_def)

lemma pend_desc_insert:
  assumes "pend_desc p rows rows1"
  shows "pend_desc (bt_insert pend_key (s, i) (rows s i, r) p) rows (put_row s i r rows1)"
  using assms unfolding pend_desc_def by (auto simp: pend.get_upd)

lemma pending_step_play:
  assumes "pend_desc p (rt_rows e) rows1"
  shows "case play_change plan c rows1 of
      None \<Rightarrow> \<exists>er. pending_step plan e c p = Err er
    | Some rows2 \<Rightarrow> \<exists>p'. pending_step plan e c p = Ok p' \<and> pend_desc p' (rt_rows e) rows2"
proof -
  let ?s = "rc_source c" and ?i = "rr_id (rc_row c)"
  have entry: "(case map_of p (?s, ?i) of Some entry \<Rightarrow> entry | None \<Rightarrow> (let old = rt_rows e ?s ?i in (old, old)))
      = (rt_rows e ?s ?i, rows1 ?s ?i)"
  proof -
    from assms have "map_of p (?s, ?i) = Some (rt_rows e ?s ?i, rows1 ?s ?i) \<or>
        map_of p (?s, ?i) = None \<and> rows1 ?s ?i = rt_rows e ?s ?i"
      unfolding pend_desc_def by blast
    then show ?thesis by (auto simp: Let_def)
  qed
  have "(1 :: 8 word) \<noteq> -1" by simp
  with pend_desc_insert [OF assms, of ?s ?i] show ?thesis
    by (auto simp: pending_step_def entry play_change_def Let_def)
qed

lemma pending_fold_play:
  assumes "pend_desc p (rt_rows e) rows1"
  shows "case play plan cs rows1 of
      None \<Rightarrow> \<exists>er. try_fold (pending_step plan e) cs p = Err er
    | Some rows2 \<Rightarrow> \<exists>p'. try_fold (pending_step plan e) cs p = Ok p' \<and> pend_desc p' (rt_rows e) rows2"
  using assms
proof (induction cs arbitrary: p rows1)
  case Nil
  then show ?case by simp
next
  case (Cons c cs)
  show ?case
  proof (cases "play_change plan c rows1")
    case None
    with pending_step_play [OF Cons.prems, of plan c] show ?thesis by auto
  next
    case (Some rows2)
    with pending_step_play [OF Cons.prems, of plan c] obtain p'
      where "pending_step plan e c p = Ok p'" "pend_desc p' (rt_rows e) rows2" by auto
    with Cons.IH [of p' rows2] Some show ?thesis by (auto split: option.splits)
  qed
qed

subsection \<open>Columns\<close>

lemma row_column_Ok: "row_column row at s = Ok x \<longleftrightarrow> at < length row \<and> x = row ! at"
  by (auto simp: row_column_def split: option.split)

lemma row_column_total: "row_column row at s \<noteq> Panic"
  by (auto simp: row_column_def split: option.split)

lemma check_columns_Ok:
  "check_columns plan p = Ok () \<longleftrightarrow>
     (\<forall>s i b row. ((s, i), (b, Some row)) \<in> set p \<longrightarrow> (\<forall>at \<in> set (needed_columns plan s). at < length row))"
  unfolding check_columns_def case_prod_beta
  by (subst try_fold_unit_Ok) (force simp: try_fold_unit_Ok rust_simps row_column_Ok split: option.split)

lemma check_columns_total: "check_columns plan p \<noteq> Panic"
  unfolding check_columns_def case_prod_beta
  by (intro try_fold_unit_total) (auto simp: rust_simps row_column_total intro!: try_fold_unit_total split: option.split)

lemma check_columns_fit:
  assumes "pend_desc p rows rows'" and "rows_fit plan rows"
  shows "check_columns plan p = Ok () \<longleftrightarrow> rows_fit plan rows'"
proof
  assume ok: "check_columns plan p = Ok ()"
  show "rows_fit plan rows'"
    unfolding rows_fit_def
  proof (intro allI impI)
    fix s i row
    assume r: "rows' s i = Some row"
    show "\<forall>at \<in> set (needed_columns plan s). at < length row"
    proof (cases "map_of p (s, i)")
      case None
      with pend_desc_out [OF assms(1) None] r assms(2) show ?thesis by (auto simp: rows_fit_def)
    next
      case (Some ba)
      then have mem: "((s, i), (fst ba, snd ba)) \<in> set p" by (simp add: map_of_SomeD)
      with pend_desc_mem [OF assms(1) mem] r ok show ?thesis unfolding check_columns_Ok by metis
    qed
  qed
next
  assume "rows_fit plan rows'"
  then show "check_columns plan p = Ok ()"
    unfolding check_columns_Ok rows_fit_def using pend_desc_mem [OF assms(1)] by metis
qed

text \<open>Validation as a whole.\<close>

lemma route_pending_play:
  assumes "rt_plan e = Some plan" and "rows_fit plan (rt_rows e)"
  shows "(\<exists>p. route_pending e cs = Ok p) \<longleftrightarrow> (\<exists>rows'. play plan cs (rt_rows e) = Some rows' \<and> rows_fit plan rows')"
    and "route_pending e cs \<noteq> Panic"
    and "route_pending e cs = Ok p \<Longrightarrow> play plan cs (rt_rows e) = Some rows' \<Longrightarrow> pend_desc p (rt_rows e) rows'"
proof -
  have start: "pend_desc [] (rt_rows e) (rt_rows e)" by (simp add: pend_desc_def)
  note fold = pending_fold_play [OF start, of plan cs]
  show "(\<exists>p. route_pending e cs = Ok p) \<longleftrightarrow> (\<exists>rows'. play plan cs (rt_rows e) = Some rows' \<and> rows_fit plan rows')"
  proof (cases "play plan cs (rt_rows e)")
    case None
    with fold assms show ?thesis by (auto simp: route_pending_def)
  next
    case (Some rows')
    with fold obtain p' where p': "try_fold (pending_step plan e) cs [] = Ok p'" "pend_desc p' (rt_rows e) rows'" by auto
    with check_columns_fit [OF p'(2) assms(2)] Some assms(1) show ?thesis
      by (auto simp: route_pending_def rust_simps)
  qed
  show "route_pending e cs \<noteq> Panic"
    using fold assms(1) check_columns_total
    by (auto simp: route_pending_def rust_simps split: option.splits)
  show "route_pending e cs = Ok p \<Longrightarrow> play plan cs (rt_rows e) = Some rows' \<Longrightarrow> pend_desc p (rt_rows e) rows'"
    using fold assms(1) by (auto simp: route_pending_def rust_simps)
qed

end
