(* ===== verification/Route_Sums.thy ===== *)
theory Route_Sums
  imports Route_Pending
begin

text \<open>
  The deltas as sums over all row identities. The identities are 64-bit words, so sums over them are
  finite; a row that is absent contributes nothing (\<open>opt_weight\<close>). The changed rows of a frontier sum to
  the difference of the states after and before (\<open>row_diffs_sum\<close>), the rows an index lists at a key sum
  to the rows of the source with that key (\<open>old_at_key_sum\<close>, \<open>new_at_key_sum\<close>), and a loop of
  \<open>add_weight\<close> adds the sum of its steps (\<open>adds_fold\<close>).
\<close>

subsection \<open>Absent rows\<close>

definition opt_weight :: "(i64 list \<Rightarrow> 'a::comm_monoid_add) \<Rightarrow> i64 list option \<Rightarrow> 'a" where
  "opt_weight h r = (case r of None \<Rightarrow> 0 | Some row \<Rightarrow> h row)"

lemma opt_weight_simps [simp]: "opt_weight h None = 0" "opt_weight h (Some row) = h row"
  by (simp_all add: opt_weight_def)

lemma sum_list_map_filter:
  "sum_list (map g (List.map_filter f xs)) = (\<Sum>x\<leftarrow>xs. case f x of None \<Rightarrow> 0 | Some y \<Rightarrow> g y)"
  by (induction xs) (auto simp: List.map_filter_simps split: option.split)

text \<open>A list of distinct keys outside of which a function is zero.\<close>

lemma sum_list_UNIV:
  fixes g :: "'k::finite \<Rightarrow> 'a::comm_monoid_add"
  assumes "distinct ks" and "\<And>k. k \<notin> set ks \<Longrightarrow> g k = 0"
  shows "(\<Sum>k\<leftarrow>ks. g k) = (\<Sum>k\<in>UNIV. g k)"
proof -
  have "(\<Sum>k\<leftarrow>ks. g k) = sum g (set ks)" by (rule sum_list_distinct_conv_sum_set [OF assms(1)])
  also have "\<dots> = sum g UNIV" by (rule sum.mono_neutral_left) (use assms(2) in auto)
  finally show ?thesis .
qed

lemma sum_UNIV_fst:
  fixes g :: "'b::finite \<Rightarrow> 'a::comm_monoid_add"
  shows "(\<Sum>k\<in>UNIV. if fst k = (s :: 's::finite) then g (snd k) else 0) = (\<Sum>i\<in>UNIV. g i)"
proof -
  have "(\<Sum>k\<in>UNIV. if fst k = s then g (snd k) else 0) = (\<Sum>(t, i)\<in>UNIV \<times> UNIV. if t = s then g i else 0)"
    by (simp add: case_prod_beta)
  also have "\<dots> = (\<Sum>t\<in>UNIV. \<Sum>i\<in>UNIV. if t = s then g i else 0)"
    by (rule sum.cartesian_product [symmetric])
  also have "\<dots> = (\<Sum>t\<in>UNIV. if t = s then (\<Sum>i\<in>UNIV. g i) else 0)"
    by (intro sum.cong) auto
  also have "\<dots> = (\<Sum>i\<in>UNIV. g i)" by simp
  finally show ?thesis .
qed

subsection \<open>Changed rows\<close>

lemma row_diffs_sum_gen:
  fixes h :: "i64 list \<Rightarrow> i64 \<Rightarrow> 'a::comm_monoid_add"
  assumes desc: "pend_desc p rows rows'"
  shows "(\<Sum>(row, sign)\<leftarrow>row_diffs p s. h row sign) =
    (\<Sum>i\<in>UNIV. if rows s i = rows' s i then 0
      else opt_weight (\<lambda>r. h r (-1)) (rows s i) + opt_weight (\<lambda>r. h r 1) (rows' s i))"
proof -
  let ?G = "\<lambda>i. if rows s i = rows' s i then 0
      else opt_weight (\<lambda>r. h r (-1)) (rows s i) + opt_weight (\<lambda>r. h r 1) (rows' s i)"
  let ?g = "\<lambda>k. if fst k = s then ?G (snd k) else 0"
  have "(\<Sum>(row, sign)\<leftarrow>row_diffs q s. h row sign) = (\<Sum>k\<leftarrow>map fst q. ?g k)" if "set q \<subseteq> set p" for q
    using that
  proof (induction q)
    case Nil
    then show ?case by (simp add: row_diffs_def)
  next
    case (Cons x q)
    obtain n i b a where x: "x = ((n, i), (b, a))" by (metis prod.exhaust)
    with Cons.prems pend_desc_mem [OF desc, of n i b a] have "b = rows n i" "a = rows' n i" by auto
    with Cons show ?case
      by (cases "rows n i"; cases "rows' n i") (auto simp: row_diffs_def x ac_simps)
  qed
  from this [of p] have "(\<Sum>(row, sign)\<leftarrow>row_diffs p s. h row sign) = (\<Sum>k\<leftarrow>map fst p. ?g k)" by simp
  also have "\<dots> = (\<Sum>k\<in>UNIV. ?g k)"
  proof (rule sum_list_UNIV)
    show "distinct (map fst p)" using desc by (simp add: pend_desc_def pend.inv_distinct)
    show "?g k = 0" if "k \<notin> set (map fst p)" for k
    proof -
      from that have "map_of p (fst k, snd k) = None" by (simp add: map_of_eq_None_iff)
      from pend_desc_out [OF desc this] show ?thesis by auto
    qed
  qed
  also have "\<dots> = (\<Sum>i\<in>UNIV. ?G i)" by (rule sum_UNIV_fst)
  finally show ?thesis .
qed

lemma row_diffs_sum:
  fixes h :: "i64 list \<Rightarrow> i64 \<Rightarrow> 'a::ab_group_add"
  assumes "pend_desc p rows rows'" and "\<And>row. h row (-1) = - h row 1"
  shows "(\<Sum>(row, sign)\<leftarrow>row_diffs p s. h row sign) =
    (\<Sum>i\<in>UNIV. opt_weight (\<lambda>r. h r 1) (rows' s i)) - (\<Sum>i\<in>UNIV. opt_weight (\<lambda>r. h r 1) (rows s i))"
proof -
  have neg: "opt_weight (\<lambda>r. h r (-1)) x = - opt_weight (\<lambda>r. h r 1) x" for x
    by (cases x) (simp_all add: assms(2))
  show ?thesis
    unfolding row_diffs_sum_gen [OF assms(1)] sum_subtractf [symmetric] by (intro sum.cong) (auto simp: neg)
qed

lemma row_diffs_mem:
  assumes "pend_desc p rows rows'" and "(row, sign) \<in> set (row_diffs p s)"
  shows "\<exists>i. rows s i \<noteq> rows' s i \<and> (rows s i = Some row \<and> sign = -1 \<or> rows' s i = Some row \<and> sign = 1)"
proof -
  from assms(2) obtain i b a where "((s, i), (b, a)) \<in> set p" "b \<noteq> a"
    "b = Some row \<and> sign = -1 \<or> a = Some row \<and> sign = 1"
    by (auto simp: row_diffs_def split: if_splits option.splits)
  with pend_desc_mem [OF assms(1)] show ?thesis by metis
qed

subsection \<open>Indexed rows\<close>

definition index_ok :: "route_engine \<Rightarrow> u8 \<Rightarrow> nat \<Rightarrow> bool" where
  "index_ok e s col =
     (\<forall>key. bt_inv sint (rt_indexes e s key) \<and>
       (\<forall>i. i \<in> fst ` set (rt_indexes e s key) \<longleftrightarrow> (\<exists>row. rt_rows e s i = Some row \<and> row ! col = key)))"

lemma index_ok_distinct: "index_ok e s col \<Longrightarrow> distinct (map fst (rt_indexes e s key))"
  by (simp add: index_ok_def cells.inv_distinct)

lemma index_ok_mem:
  "index_ok e s col \<Longrightarrow> i \<in> fst ` set (rt_indexes e s key) \<longleftrightarrow> (\<exists>row. rt_rows e s i = Some row \<and> row ! col = key)"
  by (simp add: index_ok_def)

lemma indexed_sum:
  fixes g :: "i64 \<Rightarrow> i64 list \<Rightarrow> 'a::comm_monoid_add"
  assumes "index_ok e s col"
  shows "(\<Sum>(i, _)\<leftarrow>rt_indexes e s key. opt_weight (g i) (rt_rows e s i)) =
    (\<Sum>i\<in>UNIV. opt_weight (\<lambda>row. if row ! col = key then g i row else 0) (rt_rows e s i))"
proof -
  let ?g = "\<lambda>i. opt_weight (\<lambda>row. if row ! col = key then g i row else 0) (rt_rows e s i)"
  have "opt_weight (g i) (rt_rows e s i) = ?g i" if "(i, u) \<in> set (rt_indexes e s key)" for i u
    using index_ok_mem [OF assms, of i key] that by force
  then have "(\<Sum>(i, _)\<leftarrow>rt_indexes e s key. opt_weight (g i) (rt_rows e s i)) = (\<Sum>(i, _)\<leftarrow>rt_indexes e s key. ?g i)"
    by (intro arg_cong [of _ _ sum_list] map_cong refl) auto
  also have "\<dots> = (\<Sum>i\<leftarrow>map fst (rt_indexes e s key). ?g i)" by (simp add: o_def split_def)
  also have "\<dots> = (\<Sum>i\<in>UNIV. ?g i)"
  proof (rule sum_list_UNIV [OF index_ok_distinct [OF assms]])
    fix i assume "i \<notin> set (map fst (rt_indexes e s key))"
    then show "?g i = 0" using index_ok_mem [OF assms, of i key] by (cases "rt_rows e s i") auto
  qed
  finally show ?thesis .
qed

lemma old_at_key_sum:
  fixes g :: "i64 list \<Rightarrow> 'a::comm_monoid_add"
  assumes "index_ok e s col"
  shows "(\<Sum>row\<leftarrow>old_at_key e s key. g row) =
    (\<Sum>i\<in>UNIV. opt_weight (\<lambda>row. if row ! col = key then g row else 0) (rt_rows e s i))"
proof -
  have "(\<Sum>row\<leftarrow>old_at_key e s key. g row) = (\<Sum>(i, _)\<leftarrow>rt_indexes e s key. opt_weight g (rt_rows e s i))"
    by (simp add: old_at_key_def sum_list_map_filter split_def opt_weight_def)
  with indexed_sum [OF assms, of "\<lambda>_. g" key] show ?thesis by simp
qed

lemma old_at_key_mem: "row \<in> set (old_at_key e s key) \<Longrightarrow> \<exists>i. rt_rows e s i = Some row"
  by (auto simp: old_at_key_def List.map_filter_def)

text \<open>The rows of the state after the frontier: unchanged ones through the index, the others pending.\<close>

definition pend_rows_at :: "u8 \<Rightarrow> i64 \<Rightarrow> nat \<Rightarrow> pending \<Rightarrow> i64 list list" where
  "pend_rows_at s key col p =
     concat (map (\<lambda>((name, _), (_, after)).
       if name = s then (case after of Some row \<Rightarrow> if row ! col = key then [row] else [] | None \<Rightarrow> []) else []) p)"

lemma new_at_key_Ok:
  assumes "\<And>i b row. ((s, i), (b, Some row)) \<in> set p \<Longrightarrow> col < length row"
  shows "new_at_key e s key col p = Ok (List.map_filter (\<lambda>(i, _). if map_of p (s, i) \<noteq> None then None else rt_rows e s i)
      (rt_indexes e s key) @ pend_rows_at s key col p)"
proof -
  have "try_fold (\<lambda>((name, _), (_, after)) out.
       if name = s then
         (case after of
            Some row \<Rightarrow> rust_bind (vec_index row col) (\<lambda>k. Ok (if k = key then out @ [row] else out))
          | None \<Rightarrow> Ok out)
       else Ok out) q out = (Ok (out @ pend_rows_at s key col q) :: i64 list list route_res)" if "set q \<subseteq> set p" for q out
    using that
  proof (induction q arbitrary: out)
    case Nil
    then show ?case by (simp add: pend_rows_at_def)
  next
    case (Cons x q)
    obtain n i b a where x: "x = ((n, i), (b, a))" by (metis prod.exhaust)
    from Cons.prems assms [of i b] have "n = s \<Longrightarrow> a = Some row \<Longrightarrow> col < length row" for row by (auto simp: x)
    with Cons show ?case
      by (cases a) (auto simp: x pend_rows_at_def)
  qed
  then show ?thesis by (simp add: new_at_key_def)
qed

lemma pend_rows_at_Cons:
  "pend_rows_at s key col (((n, i), (b, a)) # p) =
     (if n = s then (case a of Some row \<Rightarrow> if row ! col = key then [row] else [] | None \<Rightarrow> []) else []) @
     pend_rows_at s key col p"
  by (simp add: pend_rows_at_def)

lemma pend_rows_at_mem: "row \<in> set (pend_rows_at s key col p) \<Longrightarrow> \<exists>i b. ((s, i), (b, Some row)) \<in> set p"
proof (induction p)
  case Nil
  then show ?case by (simp add: pend_rows_at_def)
next
  case (Cons x p)
  obtain n i b a where x: "x = ((n, i), (b, a))" by (metis prod.exhaust)
  from Cons.prems have "row \<in> set (pend_rows_at s key col p) \<or> n = s \<and> a = Some row"
    by (cases a; cases "n = s") (auto simp: pend_rows_at_Cons x)
  with Cons.IH x show ?case by auto
qed

lemma pend_rows_at_sum:
  fixes g :: "i64 list \<Rightarrow> 'a::comm_monoid_add"
  assumes desc: "pend_desc p rows rows'"
  shows "(\<Sum>row\<leftarrow>pend_rows_at s key col p. g row) =
    (\<Sum>i\<in>UNIV. if map_of p (s, i) = None then 0 else opt_weight (\<lambda>row. if row ! col = key then g row else 0) (rows' s i))"
proof -
  let ?G = "\<lambda>i. if map_of p (s, i) = None then 0 else opt_weight (\<lambda>row. if row ! col = key then g row else 0) (rows' s i)"
  let ?g = "\<lambda>k. if fst k = s then ?G (snd k) else 0"
  have "(\<Sum>row\<leftarrow>pend_rows_at s key col q. g row) = (\<Sum>k\<leftarrow>map fst q. ?g k)" if "set q \<subseteq> set p" for q
    using that
  proof (induction q)
    case Nil
    then show ?case by (simp add: pend_rows_at_def)
  next
    case (Cons x q)
    obtain n i b a where x: "x = ((n, i), (b, a))" by (metis prod.exhaust)
    with Cons.prems have mem: "((n, i), (b, a)) \<in> set p" by simp
    then have "a = rows' n i" using pend_desc_mem [OF desc mem] by simp
    moreover have "map_of p (n, i) \<noteq> None" using mem weak_map_of_SomeI by fastforce
    ultimately show ?case using Cons by (cases "rows' n i") (auto simp: pend_rows_at_def x)
  qed
  from this [of p] have "(\<Sum>row\<leftarrow>pend_rows_at s key col p. g row) = (\<Sum>k\<leftarrow>map fst p. ?g k)" by simp
  also have "\<dots> = (\<Sum>k\<in>UNIV. ?g k)"
  proof (rule sum_list_UNIV)
    show "distinct (map fst p)" using desc by (simp add: pend_desc_def pend.inv_distinct)
    show "?g k = 0" if "k \<notin> set (map fst p)" for k
      using that by (cases k) (auto simp: map_of_eq_None_iff)
  qed
  also have "\<dots> = (\<Sum>i\<in>UNIV. ?G i)" by (rule sum_UNIV_fst)
  finally show ?thesis .
qed

lemma new_at_key_sum:
  fixes g :: "i64 list \<Rightarrow> 'a::comm_monoid_add"
  assumes "index_ok e s col" and desc: "pend_desc p (rt_rows e) rows'"
    and fit: "\<And>i row. rows' s i = Some row \<Longrightarrow> col < length row"
  shows "\<exists>others. new_at_key e s key col p = Ok others \<and>
    (\<Sum>row\<leftarrow>others. g row) = (\<Sum>i\<in>UNIV. opt_weight (\<lambda>row. if row ! col = key then g row else 0) (rows' s i)) \<and>
    (\<forall>row \<in> set others. \<exists>i. rows' s i = Some row)"
proof -
  let ?idx = "List.map_filter (\<lambda>(i, _). if map_of p (s, i) \<noteq> None then None else rt_rows e s i) (rt_indexes e s key)"
  let ?G = "\<lambda>row. if row ! col = key then g row else 0"
  note mem = pend_desc_mem [OF desc]
  have ok: "new_at_key e s key col p = Ok (?idx @ pend_rows_at s key col p)"
    by (rule new_at_key_Ok) (metis fit mem)
  have "(\<Sum>row\<leftarrow>?idx. g row) =
      (\<Sum>(i, _)\<leftarrow>rt_indexes e s key. opt_weight (\<lambda>row. if map_of p (s, i) = None then g row else 0) (rt_rows e s i))"
    unfolding sum_list_map_filter
    by (intro arg_cong [of _ _ sum_list] map_cong refl) (auto simp: opt_weight_def split: option.splits if_splits)
  also have "\<dots> = (\<Sum>i\<in>UNIV. opt_weight (\<lambda>row. if row ! col = key then if map_of p (s, i) = None then g row else 0 else 0) (rt_rows e s i))"
    by (rule indexed_sum [OF assms(1)])
  also have "\<dots> = (\<Sum>i\<in>UNIV. if map_of p (s, i) = None then opt_weight ?G (rows' s i) else 0)"
    by (intro sum.cong refl) (auto simp: opt_weight_def pend_desc_out [OF desc] split: option.split)
  finally have "(\<Sum>row\<leftarrow>?idx @ pend_rows_at s key col p. g row) =
      (\<Sum>i\<in>UNIV. (if map_of p (s, i) = None then opt_weight ?G (rows' s i) else 0) +
        (if map_of p (s, i) = None then 0 else opt_weight ?G (rows' s i)))"
    by (simp add: pend_rows_at_sum [OF desc] sum.distrib)
  also have "\<dots> = (\<Sum>i\<in>UNIV. opt_weight ?G (rows' s i))"
    by (intro sum.cong) auto
  finally have tot: "(\<Sum>row\<leftarrow>?idx @ pend_rows_at s key col p. g row) = (\<Sum>i\<in>UNIV. opt_weight ?G (rows' s i))" .
  have live: "\<exists>i. rows' s i = Some row" if "row \<in> set (?idx @ pend_rows_at s key col p)" for row
  proof (cases "row \<in> set ?idx")
    case True
    then obtain i where i: "(if map_of p (s, i) \<noteq> None then None else rt_rows e s i) = Some row"
      by (auto simp: List.map_filter_def)
    with pend_desc_out [OF desc, of s i] have "rows' s i = Some row" by (cases "map_of p (s, i)") auto
    then show ?thesis by blast
  next
    case False
    with that have "row \<in> set (pend_rows_at s key col p)" by simp
    then obtain i b where "((s, i), (b, Some row)) \<in> set p" by (blast dest: pend_rows_at_mem)
    with mem show ?thesis by metis
  qed
  from ok tot live show ?thesis by blast
qed

subsection \<open>Loops that add weights\<close>

definition adds :: "((i64 list \<times> i64) list \<Rightarrow> (i64 list \<times> i64) list route_res) \<Rightarrow> (i64 list \<Rightarrow> i64) \<Rightarrow> bool" where
  "adds m c = (\<forall>d. bt_inv row_key d \<longrightarrow>
     (\<exists>d'. m d = Ok d' \<and> bt_inv row_key d' \<and> (\<forall>r. zget d' r = zget d r + c r)))"

lemma adds_weight: "adds (\<lambda>d. Ok (add_weight row sign d)) (\<lambda>r. if row = r then sign else 0)"
  by (auto simp: adds_def add_weight_def zget_def btr.get_upd)

lemma adds_fold:
  "(\<And>x. x \<in> set xs \<Longrightarrow> adds (f x) (c x)) \<Longrightarrow> adds (try_fold f xs) (\<lambda>r. \<Sum>x\<leftarrow>xs. c x r)"
proof (induction xs)
  case Nil
  then show ?case by (simp add: adds_def)
next
  case (Cons x xs)
  show ?case
    unfolding adds_def
  proof (intro allI impI)
    fix d :: "(i64 list \<times> i64) list"
    assume "bt_inv row_key d"
    with Cons.prems [of x] obtain d1 where d1: "f x d = Ok d1" "bt_inv row_key d1" "\<And>r. zget d1 r = zget d r + c x r"
      by (auto simp: adds_def)
    from Cons have "adds (try_fold f xs) (\<lambda>r. \<Sum>x\<leftarrow>xs. c x r)" by simp
    with d1(2) obtain d2 where "try_fold f xs d1 = Ok d2" "bt_inv row_key d2"
      "\<And>r. zget d2 r = zget d1 r + (\<Sum>x\<leftarrow>xs. c x r)"
      unfolding adds_def by blast
    with d1 show "\<exists>d'. try_fold f (x # xs) d = Ok d' \<and> bt_inv row_key d' \<and> (\<forall>r. zget d' r = zget d r + (\<Sum>x\<leftarrow>x # xs. c x r))"
      by (auto simp: algebra_simps)
  qed
qed

lemma adds_run:
  "adds m c \<Longrightarrow> bt_inv row_key d \<Longrightarrow> \<exists>d'. m d = Ok d' \<and> bt_inv row_key d' \<and> (\<forall>r. zget d' r = zget d r + c r)"
  unfolding adds_def by blast

end
