(* ===== verification/Route_Join.thy ===== *)
theory Route_Join
  imports Route_Sums
begin

text \<open>
  The delta of a join-and-union plan. \<open>join_count\<close> is the number of ways an output row arises from the
  stored rows; the three loops of \<open>join_union_delta\<close> compute its change, as 64-bit words, and when the
  counts stay below \<open>2 ^ 63\<close> the words are the counts, the support check passes and the output loop
  maintains the support.
\<close>

subsection \<open>What the plan means\<close>

definition matches :: "nat \<Rightarrow> nat \<Rightarrow> nat \<Rightarrow> nat \<Rightarrow> i64 list \<Rightarrow> i64 list \<Rightarrow> i64 list \<Rightarrow> bool" where
  "matches left_key right_key left_output right_output x y r =
     (x ! left_key = y ! right_key \<and> [x ! left_output, y ! right_output] = r)"

fun join_count :: "route_plan \<Rightarrow> route_rows \<Rightarrow> i64 list \<Rightarrow> nat" where
  "join_count (JoinUnion left right direct left_key right_key left_output right_output (d0, d1)) rows r =
     card {(a, b). \<exists>x y. rows left a = Some x \<and> rows right b = Some y \<and>
       matches left_key right_key left_output right_output x y r} +
     card {i. \<exists>x. rows direct i = Some x \<and> [x ! d0, x ! d1] = r}"
| "join_count (GroupCountSum _ _ _) rows r = 0"

lemma of_nat_card_UNIV: "of_nat (card {x :: 'k::finite. P x}) = (\<Sum>x\<in>UNIV. of_bool (P x))"
  by (simp add: sum_of_bool_eq)

definition join_sum :: "(i64 list \<Rightarrow> i64 list \<Rightarrow> bool) \<Rightarrow> (i64 \<Rightarrow> i64 list option) \<Rightarrow> (i64 \<Rightarrow> i64 list option) \<Rightarrow> i64" where
  "join_sum m L R = (\<Sum>a\<in>UNIV. opt_weight (\<lambda>x. \<Sum>b\<in>UNIV. opt_weight (\<lambda>y. of_bool (m x y)) (R b)) (L a))"

definition direct_sum :: "nat \<Rightarrow> nat \<Rightarrow> i64 list \<Rightarrow> (i64 \<Rightarrow> i64 list option) \<Rightarrow> i64" where
  "direct_sum d0 d1 r D = (\<Sum>i\<in>UNIV. opt_weight (\<lambda>x. of_bool ([x ! d0, x ! d1] = r)) (D i))"

lemma opt_weight_of_bool: "opt_weight (\<lambda>x. of_bool (P x)) r = of_bool (\<exists>x. r = Some x \<and> P x)"
  by (cases r) auto

lemma join_sum_pairs:
  "join_sum m L R = (\<Sum>a\<in>UNIV. \<Sum>b\<in>UNIV. of_bool (\<exists>x y. L a = Some x \<and> R b = Some y \<and> m x y))"
proof -
  have "opt_weight (\<lambda>x. \<Sum>b\<in>UNIV. opt_weight (\<lambda>y. of_bool (m x y)) (R b)) (L a) =
      (\<Sum>b\<in>UNIV. of_bool (\<exists>x y. L a = Some x \<and> R b = Some y \<and> m x y) :: i64)" for a
    by (cases "L a") (simp_all add: opt_weight_of_bool)
  then show ?thesis by (simp only: join_sum_def)
qed

lemma join_sum_swap:
  "join_sum m L R = (\<Sum>b\<in>UNIV. opt_weight (\<lambda>y. \<Sum>a\<in>UNIV. opt_weight (\<lambda>x. of_bool (m x y)) (L a)) (R b))"
proof -
  have "opt_weight (\<lambda>y. \<Sum>a\<in>UNIV. opt_weight (\<lambda>x. of_bool (m x y)) (L a)) (R b) =
      (\<Sum>a\<in>UNIV. of_bool (\<exists>x y. L a = Some x \<and> R b = Some y \<and> m x y) :: i64)" for b
    by (cases "R b") (simp_all add: opt_weight_of_bool)
  then have "(\<Sum>b\<in>UNIV. opt_weight (\<lambda>y. \<Sum>a\<in>UNIV. opt_weight (\<lambda>x. of_bool (m x y)) (L a)) (R b)) =
      (\<Sum>b\<in>UNIV. \<Sum>a\<in>UNIV. of_bool (\<exists>x y. L a = Some x \<and> R b = Some y \<and> m x y) :: i64)"
    by (simp only:)
  also have "\<dots> = join_sum m L R" unfolding join_sum_pairs by (rule sum.swap)
  finally show ?thesis ..
qed

lemma of_nat_join_count:
  "(of_nat (join_count (JoinUnion l r d lk rk lo ro (d0, d1)) rows row) :: i64) =
     join_sum (\<lambda>x y. matches lk rk lo ro x y row) (rows l) (rows r) + direct_sum d0 d1 row (rows d)"
proof -
  let ?P = "\<lambda>(a, b). \<exists>x y. rows l a = Some x \<and> rows r b = Some y \<and> matches lk rk lo ro x y row"
  have "join_sum (\<lambda>x y. matches lk rk lo ro x y row) (rows l) (rows r) = (\<Sum>(a, b)\<in>UNIV \<times> UNIV. of_bool (?P (a, b)))"
    unfolding join_sum_pairs sum.cartesian_product by simp
  also have "\<dots> = (\<Sum>k\<in>UNIV. of_bool (?P k))"
    by (intro sum.cong) auto
  also have "\<dots> = of_nat (card {k. ?P k})"
    by (rule of_nat_card_UNIV [symmetric])
  finally have "join_sum (\<lambda>x y. matches lk rk lo ro x y row) (rows l) (rows r) = of_nat (card {k. ?P k})" .
  moreover have "direct_sum d0 d1 row (rows d) = of_nat (card {i. \<exists>x. rows d i = Some x \<and> [x ! d0, x ! d1] = row})"
    by (simp only: direct_sum_def opt_weight_of_bool of_nat_card_UNIV)
  ultimately show ?thesis by simp
qed

text \<open>The rows of a table that satisfy a condition, each with a sign.\<close>

definition partner_sum :: "(i64 list \<Rightarrow> bool) \<Rightarrow> i64 \<Rightarrow> (i64 \<Rightarrow> i64 list option) \<Rightarrow> i64" where
  "partner_sum P sign R = (\<Sum>b\<in>UNIV. opt_weight (\<lambda>y. if P y then sign else 0) (R b))"

lemma partner_sum_neg: "partner_sum P (-1) R = - partner_sum P 1 R"
  unfolding partner_sum_def sum_negf [symmetric]
  by (intro sum.cong refl) (auto simp: opt_weight_def split: option.split)

lemma join_sum_partner: "join_sum m L R = (\<Sum>a\<in>UNIV. opt_weight (\<lambda>x. partner_sum (m x) 1 R) (L a))"
  by (simp add: join_sum_def partner_sum_def of_bool_def)

lemma join_sum_partner_right: "join_sum m L R = (\<Sum>b\<in>UNIV. opt_weight (\<lambda>y. partner_sum (\<lambda>x. m x y) 1 L) (R b))"
  unfolding join_sum_swap by (simp add: partner_sum_def of_bool_def)

subsection \<open>The three loops\<close>

definition columns_in :: "nat list \<Rightarrow> (i64 \<Rightarrow> i64 list option) \<Rightarrow> bool" where
  "columns_in cs rows = (\<forall>i x. rows i = Some x \<longrightarrow> (\<forall>c \<in> set cs. c < length x))"

lemma columns_in2: "columns_in [c, c'] rows \<Longrightarrow> rows i = Some x \<Longrightarrow> c < length x \<and> c' < length x"
  by (simp add: columns_in_def)

lemma direct_loop:
  assumes desc: "pend_desc p rows rows'"
    and cols: "columns_in [da, db] (rows d)" "columns_in [da, db] (rows' d)"
  shows "adds (try_fold (\<lambda>(row, sign) delta.
         rust_bind (vec_index row da) (\<lambda>a. rust_bind (vec_index row db) (\<lambda>b. Ok (add_weight [a, b] sign delta))))
       (row_diffs p d)) (\<lambda>r. direct_sum da db r (rows' d) - direct_sum da db r (rows d))"
proof -
  note fit = columns_in2 [OF cols(1)] columns_in2 [OF cols(2)]
  let ?f = "\<lambda>(row, sign) delta.
         rust_bind (vec_index row da) (\<lambda>a. rust_bind (vec_index row db) (\<lambda>b. Ok (add_weight [a, b] sign delta)))"
  have "adds (try_fold ?f (row_diffs p d)) (\<lambda>r. \<Sum>(row, sign)\<leftarrow>row_diffs p d. if [row ! da, row ! db] = r then sign else 0)"
    unfolding split_def
  proof (rule adds_fold)
    fix x assume x: "x \<in> set (row_diffs p d)"
    with row_diffs_mem [OF desc, of "fst x" "snd x" d] have "da < length (fst x) \<and> db < length (fst x)"
      using fit by auto
    then show "adds (\<lambda>delta. rust_bind (vec_index (fst x) da) (\<lambda>a. rust_bind (vec_index (fst x) db)
        (\<lambda>b. Ok (add_weight [a, b] (snd x) delta)))) (\<lambda>r. if [fst x ! da, fst x ! db] = r then snd x else 0)"
      by (simp add: adds_weight)
  qed
  moreover have "(\<Sum>(row, sign)\<leftarrow>row_diffs p d. if [row ! da, row ! db] = r then sign else 0) =
      direct_sum da db r (rows' d) - direct_sum da db r (rows d)" for r
    by (subst row_diffs_sum [OF desc]) (simp_all add: direct_sum_def of_bool_def if_distrib cong: if_cong)
  ultimately show ?thesis by simp
qed

lemma left_loop:
  assumes desc: "pend_desc p (rt_rows e) rows'"
    and idx: "index_ok e right rk"
    and cols: "columns_in [lk, lo] (rt_rows e left)" "columns_in [lk, lo] (rows' left)"
      "columns_in [rk, ro] (rt_rows e right)"
  defines "m \<equiv> matches lk rk lo ro"
  shows "adds (try_fold (\<lambda>(row, sign) delta.
         rust_bind (vec_index row lk) (\<lambda>key.
         try_fold (\<lambda>other delta.
           rust_bind (vec_index row lo) (\<lambda>a. rust_bind (vec_index other ro) (\<lambda>b.
           Ok (add_weight [a, b] sign delta)))) (old_at_key e right key) delta))
       (row_diffs p left))
     (\<lambda>r. join_sum (\<lambda>x y. m x y r) (rows' left) (rt_rows e right) -
          join_sum (\<lambda>x y. m x y r) (rt_rows e left) (rt_rows e right))"
proof -
  note fitl = columns_in2 [OF cols(1)] columns_in2 [OF cols(2)]
  note fitr = columns_in2 [OF cols(3)]
  let ?R = "rt_rows e right"
  let ?c = "\<lambda>row sign r. \<Sum>other\<leftarrow>old_at_key e right (row ! lk). if [row ! lo, other ! ro] = r then sign else (0 :: i64)"
  have "adds (try_fold (\<lambda>(row, sign) delta.
         rust_bind (vec_index row lk) (\<lambda>key.
         try_fold (\<lambda>other delta.
           rust_bind (vec_index row lo) (\<lambda>a. rust_bind (vec_index other ro) (\<lambda>b.
           Ok (add_weight [a, b] sign delta)))) (old_at_key e right key) delta))
       (row_diffs p left)) (\<lambda>r. \<Sum>(row, sign)\<leftarrow>row_diffs p left. ?c row sign r)"
    unfolding split_def
  proof (rule adds_fold)
    fix x assume x: "x \<in> set (row_diffs p left)"
    with row_diffs_mem [OF desc, of "fst x" "snd x" left] have fit: "lk < length (fst x)" "lo < length (fst x)"
      using fitl by auto
    have "adds (try_fold (\<lambda>other delta.
           rust_bind (vec_index (fst x) lo) (\<lambda>a. rust_bind (vec_index other ro) (\<lambda>b.
           Ok (add_weight [a, b] (snd x) delta)))) (old_at_key e right (fst x ! lk))) (?c (fst x) (snd x))"
    proof (rule adds_fold)
      fix other assume "other \<in> set (old_at_key e right (fst x ! lk))"
      with old_at_key_mem fitr have "ro < length other" by blast
      with fit(2) show "adds (\<lambda>delta. rust_bind (vec_index (fst x) lo) (\<lambda>a. rust_bind (vec_index other ro) (\<lambda>b.
          Ok (add_weight [a, b] (snd x) delta)))) (\<lambda>r. if [fst x ! lo, other ! ro] = r then snd x else 0)"
        by (simp add: adds_weight)
    qed
    with fit(1) show "adds (\<lambda>delta. rust_bind (vec_index (fst x) lk) (\<lambda>key.
         try_fold (\<lambda>other delta.
           rust_bind (vec_index (fst x) lo) (\<lambda>a. rust_bind (vec_index other ro) (\<lambda>b.
           Ok (add_weight [a, b] (snd x) delta)))) (old_at_key e right key) delta)) (?c (fst x) (snd x))"
      by simp
  qed
  moreover have "(\<Sum>(row, sign)\<leftarrow>row_diffs p left. ?c row sign r) =
      join_sum (\<lambda>x y. m x y r) (rows' left) ?R - join_sum (\<lambda>x y. m x y r) (rt_rows e left) ?R" for r
  proof -
    have "?c row sign r = partner_sum (\<lambda>y. m row y r) sign ?R" for row sign
      unfolding old_at_key_sum [OF idx] partner_sum_def
      by (intro sum.cong arg_cong [of _ _ "\<lambda>h. opt_weight h _"] ext) (auto simp: m_def matches_def)
    then show ?thesis
      unfolding join_sum_partner
      by (simp only: row_diffs_sum [OF desc, of "\<lambda>row sign. partner_sum (\<lambda>y. m row y r) sign ?R", OF partner_sum_neg])
  qed
  ultimately show ?thesis by simp
qed

lemma right_loop:
  assumes desc: "pend_desc p (rt_rows e) rows'"
    and idx: "index_ok e left lk"
    and cols: "columns_in [rk, ro] (rt_rows e right)" "columns_in [rk, ro] (rows' right)"
      "columns_in [lk, lo] (rows' left)"
  defines "m \<equiv> matches lk rk lo ro"
  shows "adds (try_fold (\<lambda>(row, sign) delta.
         rust_bind (vec_index row rk) (\<lambda>key.
         rust_bind (new_at_key e left key lk p) (\<lambda>others.
         try_fold (\<lambda>other delta.
           rust_bind (vec_index other lo) (\<lambda>a. rust_bind (vec_index row ro) (\<lambda>b.
           Ok (add_weight [a, b] sign delta)))) others delta)))
       (row_diffs p right))
     (\<lambda>r. join_sum (\<lambda>x y. m x y r) (rows' left) (rows' right) -
          join_sum (\<lambda>x y. m x y r) (rows' left) (rt_rows e right))"
proof -
  note fitr = columns_in2 [OF cols(1)] columns_in2 [OF cols(2)]
  note fitl = columns_in2 [OF cols(3)]
  let ?L = "rows' left"
  let ?c = "\<lambda>row sign r. partner_sum (\<lambda>x. m x row r) sign ?L"
  have "adds (try_fold (\<lambda>(row, sign) delta.
         rust_bind (vec_index row rk) (\<lambda>key.
         rust_bind (new_at_key e left key lk p) (\<lambda>others.
         try_fold (\<lambda>other delta.
           rust_bind (vec_index other lo) (\<lambda>a. rust_bind (vec_index row ro) (\<lambda>b.
           Ok (add_weight [a, b] sign delta)))) others delta)))
       (row_diffs p right)) (\<lambda>r. \<Sum>(row, sign)\<leftarrow>row_diffs p right. ?c row sign r)"
    unfolding split_def
  proof (rule adds_fold)
    fix x assume x: "x \<in> set (row_diffs p right)"
    with row_diffs_mem [OF desc, of "fst x" "snd x" right] have fit: "rk < length (fst x)" "ro < length (fst x)"
      using fitr by auto
    let ?key = "fst x ! rk"
    have fl: "lk < length row" if "?L i = Some row" for i row using fitl that by blast
    have nk: "\<exists>others. new_at_key e left ?key lk p = Ok others \<and>
        (\<Sum>row\<leftarrow>others. g row) = (\<Sum>i\<in>UNIV. opt_weight (\<lambda>row. if row ! lk = ?key then g row else 0) (?L i)) \<and>
        (\<forall>row \<in> set others. \<exists>i. ?L i = Some row)" for g :: "i64 list \<Rightarrow> i64"
      by (rule new_at_key_sum [OF idx desc]) (rule fl)
    obtain others where new: "new_at_key e left ?key lk p = Ok others"
      and others: "\<And>row. row \<in> set others \<Longrightarrow> \<exists>i. ?L i = Some row"
      using nk [of "\<lambda>_. 0"] by blast
    have total: "(\<Sum>other\<leftarrow>others. if [other ! lo, fst x ! ro] = r then snd x else 0) = ?c (fst x) (snd x) r" for r
    proof -
      obtain others' where "new_at_key e left ?key lk p = Ok others'"
        and tot: "(\<Sum>other\<leftarrow>others'. if [other ! lo, fst x ! ro] = r then snd x else 0) =
          (\<Sum>i\<in>UNIV. opt_weight (\<lambda>other. if other ! lk = ?key then if [other ! lo, fst x ! ro] = r then snd x else 0 else 0) (?L i))"
        using nk [of "\<lambda>other. if [other ! lo, fst x ! ro] = r then snd x else 0"] by blast
      with new have "others' = others" by simp
      moreover have "(\<Sum>i\<in>UNIV. opt_weight (\<lambda>other. if other ! lk = ?key then if [other ! lo, fst x ! ro] = r then snd x else 0 else 0) (?L i))
          = ?c (fst x) (snd x) r"
        unfolding partner_sum_def
        by (intro sum.cong arg_cong [of _ _ "\<lambda>h. opt_weight h _"] ext) (auto simp: m_def matches_def)
      ultimately show ?thesis using tot by simp
    qed
    have "adds (try_fold (\<lambda>other delta.
           rust_bind (vec_index other lo) (\<lambda>a. rust_bind (vec_index (fst x) ro) (\<lambda>b.
           Ok (add_weight [a, b] (snd x) delta)))) others)
         (\<lambda>r. \<Sum>other\<leftarrow>others. if [other ! lo, fst x ! ro] = r then snd x else 0)"
    proof (rule adds_fold)
      fix other assume "other \<in> set others"
      with others fitl have "lo < length other" by blast
      with fit(2) show "adds (\<lambda>delta. rust_bind (vec_index other lo) (\<lambda>a. rust_bind (vec_index (fst x) ro) (\<lambda>b.
          Ok (add_weight [a, b] (snd x) delta)))) (\<lambda>r. if [other ! lo, fst x ! ro] = r then snd x else 0)"
        by (simp add: adds_weight)
    qed
    with fit(1) show "adds (\<lambda>delta. rust_bind (vec_index (fst x) rk) (\<lambda>key.
         rust_bind (new_at_key e left key lk p) (\<lambda>others.
         try_fold (\<lambda>other delta.
           rust_bind (vec_index other lo) (\<lambda>a. rust_bind (vec_index (fst x) ro) (\<lambda>b.
           Ok (add_weight [a, b] (snd x) delta)))) others delta))) (?c (fst x) (snd x))"
      unfolding total by (simp add: new)
  qed
  moreover have "(\<Sum>(row, sign)\<leftarrow>row_diffs p right. ?c row sign r) =
      join_sum (\<lambda>x y. m x y r) ?L (rows' right) - join_sum (\<lambda>x y. m x y r) ?L (rt_rows e right)" for r
    unfolding join_sum_partner_right
    by (rule row_diffs_sum [OF desc, of "\<lambda>row sign. partner_sum (\<lambda>x. m x row r) sign ?L", OF partner_sum_neg])
  ultimately show ?thesis by simp
qed

end
