(* ===== verification/Route_Support.thy ===== *)
theory Route_Support
  imports Route_Join
begin

text \<open>
  From the delta to the support and the output of a join-and-union plan. \<open>output_spec\<close> is what both plan
  shapes owe: each row that leaves the view once with weight \<open>-1\<close>, each row that enters it once with
  weight \<open>1\<close>.
\<close>

subsection \<open>Counts as words\<close>

lemma i64_of_nat: "sint a = int n \<Longrightarrow> a = (of_nat n :: i64)"
proof -
  assume "sint a = int n"
  moreover have "word_of_int (sint a) = a" by simp
  ultimately show ?thesis by simp
qed

lemma sint_of_int_range: "- (2 ^ 63) \<le> z \<Longrightarrow> z < 2 ^ 63 \<Longrightarrow> sint (of_int z :: i64) = z"
  by (simp add: sint_sbintrunc' signed_take_bit_int_eq_self)

lemma sint_of_nat_i64: "n < 2 ^ 63 \<Longrightarrow> sint (of_nat n :: i64) = int n"
  using sint_of_int_range [of "int n"] by simp

lemma sint_diff_i64:
  assumes "n < 2 ^ 63" and "n' < 2 ^ 63"
  shows "sint (of_nat n' - of_nat n :: i64) = int n' - int n"
  using sint_of_int_range [of "int n' - int n"] assms by simp

definition support_is :: "(i64 list \<times> i64) list \<Rightarrow> (i64 list \<Rightarrow> nat) \<Rightarrow> bool" where
  "support_is support count_of =
     (bt_inv row_key support \<and> nonzero support \<and> (\<forall>r. sint (zget support r) = int (count_of r)))"

lemma support_is_word: "support_is support c \<Longrightarrow> zget support r = of_nat (c r)"
  by (simp add: support_is_def i64_of_nat)

lemma support_is_bound: "support_is support c \<Longrightarrow> c r < 2 ^ 63"
  using sint_i64_le [of "zget support r"] by (simp add: support_is_def)

text \<open>A delta between two counts.\<close>

definition delta_is :: "(i64 list \<times> i64) list \<Rightarrow> (i64 list \<Rightarrow> nat) \<Rightarrow> (i64 list \<Rightarrow> nat) \<Rightarrow> bool" where
  "delta_is delta c c' =
     (bt_inv row_key delta \<and> nonzero delta \<and> (\<forall>r. zget delta r = of_nat (c' r) - of_nat (c r)))"

lemma zget_absent: "k \<notin> fst ` set m \<Longrightarrow> zget m k = 0"
  using zget_nonzero_mem [of m k] by force

lemma zget_filter: "distinct (map fst m) \<Longrightarrow> zget (filter (\<lambda>(_, w). w \<noteq> 0) m) r = zget m r"
proof (induction m)
  case Nil
  then show ?case by simp
next
  case (Cons x m)
  then show ?case by (cases x) (auto simp: zget_Cons zget_absent)
qed

lemma nonzero_filter: "nonzero (filter (\<lambda>(_, w). w \<noteq> 0) m)"
  by (auto simp: nonzero_def)

lemma check_support_Ok:
  assumes "support_is support c" and "delta_is delta c c'" and bound: "\<And>r. c' r < 2 ^ 63"
  shows "check_support support delta = Ok ()"
  unfolding check_support_def split_def
proof (subst try_fold_unit_Ok, intro ballI)
  fix x assume "x \<in> set delta"
  then have "zget delta (fst x) = snd x"
    using assms(2) zget_mem [OF bt_inv_distinct, of row_key delta "fst x" "snd x"] by (simp add: delta_is_def)
  then have w: "snd x = of_nat (c' (fst x)) - of_nat (c (fst x))" using assms(2) by (simp add: delta_is_def)
  have s: "zget support (fst x) = of_nat (c (fst x))" by (rule support_is_word [OF assms(1)])
  note b = support_is_bound [OF assms(1)]
  have sw: "sint (snd x) = int (c' (fst x)) - int (c (fst x))"
    unfolding w by (rule sint_diff_i64 [OF b bound])
  have ss: "sint (zget support (fst x)) = int (c (fst x))"
    using assms(1) by (simp add: support_is_def)
  have le: "int (c' (fst x)) < 2 ^ 63"
    using bound [of "fst x"] by simp
  have "zget support (fst x) + snd x = of_nat (c' (fst x))"
    unfolding s w by simp
  with sw ss le have "checked_add (zget support (fst x)) (snd x) = Some (of_nat (c' (fst x)))"
    unfolding checked_add_def Let_def by simp
  moreover have "\<not> sint (of_nat (c' (fst x)) :: i64) < 0"
    unfolding sint_of_nat_i64 [OF bound] by simp
  ultimately show "(case checked_add (zget support (fst x)) (snd x) of
      None \<Rightarrow> Err (route_error_of ''support'' None ''weight overflow'')
    | Some after \<Rightarrow> if sint after < 0 then Err (route_error_of ''support'' None ''negative support'') else Ok ()) = Ok ()"
    by simp
qed

subsection \<open>The delta\<close>

text \<open>Columns a plan needs, read off \<open>rows_fit\<close>.\<close>

lemma rows_fit_join:
  assumes "rows_fit (JoinUnion left right direct lk rk lo ro (d0, d1)) rows"
    and "left \<noteq> right" "left \<noteq> direct" "right \<noteq> direct"
  shows "columns_in [lk, lo] (rows left)" and "columns_in [rk, ro] (rows right)"
    and "columns_in [d0, d1] (rows direct)"
  using assms by (force simp: rows_fit_def columns_in_def)+

lemma join_union_delta_check:
  assumes plan: "plan = JoinUnion left right direct lk rk lo ro (d0, d1)"
    and dist: "left \<noteq> right" "left \<noteq> direct" "right \<noteq> direct"
    and desc: "pend_desc p (rt_rows e) rows'"
    and fit: "rows_fit plan (rt_rows e)" "rows_fit plan rows'"
    and idx: "index_ok e left lk" "index_ok e right rk"
  shows "\<exists>delta. join_union_delta e plan p = rust_bind (check_support (rt_support e) delta) (\<lambda>_. Ok delta) \<and>
    delta_is delta (join_count plan (rt_rows e)) (join_count plan rows')"
proof -
  note f = rows_fit_join [OF fit(1) [unfolded plan] dist]
  note f' = rows_fit_join [OF fit(2) [unfolded plan] dist]
  let ?J = "\<lambda>r. join_sum (\<lambda>x y. matches lk rk lo ro x y r)"
  let ?L = "rt_rows e left" and ?R = "rt_rows e right" and ?D = "rt_rows e direct"
  note d = direct_loop [OF desc, where da = d0 and db = d1 and d = direct, OF f(3) f'(3)]
  note l = left_loop [OF desc idx(2), where lo = lo and ro = ro and lk = lk and left = left, OF f(1) f'(1) f(2)]
  note r = right_loop [OF desc idx(1), where lo = lo and ro = ro and rk = rk and right = right, OF f(2) f'(2) f'(1)]
  obtain d1' where d1': "try_fold (\<lambda>(row, sign) delta.
         rust_bind (vec_index row d0) (\<lambda>a. rust_bind (vec_index row d1) (\<lambda>b. Ok (add_weight [a, b] sign delta))))
       (row_diffs p direct) [] = (Ok d1' :: _ route_res)" "bt_inv row_key d1'"
     "\<And>r. zget d1' r = direct_sum d0 d1 r (rows' direct) - direct_sum d0 d1 r ?D"
    using adds_run [OF d bt_inv_Nil] unfolding zget_Nil add_0 by blast
  obtain d2 where d2: "try_fold (\<lambda>(row, sign) delta.
         rust_bind (vec_index row lk) (\<lambda>key.
         try_fold (\<lambda>other delta.
           rust_bind (vec_index row lo) (\<lambda>a. rust_bind (vec_index other ro) (\<lambda>b.
           Ok (add_weight [a, b] sign delta)))) (old_at_key e right key) delta))
       (row_diffs p left) d1' = (Ok d2 :: _ route_res)" "bt_inv row_key d2"
     "\<And>r. zget d2 r = zget d1' r + (?J r (rows' left) ?R - ?J r ?L ?R)"
    using adds_run [OF l d1'(2)] by blast
  obtain d3 where d3: "try_fold (\<lambda>(row, sign) delta.
         rust_bind (vec_index row rk) (\<lambda>key.
         rust_bind (new_at_key e left key lk p) (\<lambda>others.
         try_fold (\<lambda>other delta.
           rust_bind (vec_index other lo) (\<lambda>a. rust_bind (vec_index row ro) (\<lambda>b.
           Ok (add_weight [a, b] sign delta)))) others delta)))
       (row_diffs p right) d2 = (Ok d3 :: _ route_res)" "bt_inv row_key d3"
     "\<And>r. zget d3 r = zget d2 r + (?J r (rows' left) (rows' right) - ?J r (rows' left) ?R)"
    using adds_run [OF r d2(2)] by blast
  let ?delta = "filter (\<lambda>(_, weight). weight \<noteq> 0) d3"
  have delta: "delta_is ?delta (join_count plan (rt_rows e)) (join_count plan rows')"
    unfolding delta_is_def plan of_nat_join_count
    using d1' d2 d3 by (simp add: bt_inv_sub nonzero_filter zget_filter [OF bt_inv_distinct [OF d3(2)]])
  have "join_union_delta e plan p = rust_bind (check_support (rt_support e) ?delta) (\<lambda>_. Ok ?delta)"
    by (simp add: plan d1' d2 d3 Let_def)
  with delta show ?thesis by blast
qed

lemma check_support_total: "check_support support delta \<noteq> Panic"
  unfolding check_support_def split_def
  by (intro try_fold_unit_total) (auto split: option.split)

subsection \<open>The output\<close>

definition output_spec :: "i64 list set \<Rightarrow> i64 list set \<Rightarrow> weighted_row list \<Rightarrow> bool" where
  "output_spec V V' out =
     (distinct out \<and> set out = (\<lambda>r. emit r (-1)) ` (V - V') \<union> (\<lambda>r. emit r 1) ` (V' - V))"

lemma emit_inject [simp]: "emit r w = emit r' w' \<longleftrightarrow> r = r' \<and> w = w'"
  by (simp add: emit_def)

lemma wr_cells_emit [simp]: "wr_cells (emit r w) = r"
  by (simp add: emit_def)

lemma distinct_emits:
  assumes "distinct (map fst q)" and "\<And>x. x \<in> set q \<Longrightarrow> distinct (E x)"
    and "\<And>x y. x \<in> set q \<Longrightarrow> y \<in> set (E x) \<Longrightarrow> key y = fst x"
  shows "distinct (concat (map E q))"
  using assms
proof (induction q)
  case Nil
  then show ?case by simp
next
  case (Cons x q)
  have "set (E x) \<inter> set (E x') = {}" if "x' \<in> set q" for x'
  proof -
    have "fst x \<noteq> fst x'" using Cons.prems(1) that by (auto simp: image_iff)
    with Cons.prems(3) [of x] Cons.prems(3) [of x'] that show ?thesis by force
  qed
  then have "set (E x) \<inter> set (concat (map E q)) = {}" by fastforce
  with Cons show ?case by simp
qed

definition join_emits :: "(i64 list \<times> i64) list \<Rightarrow> i64 list \<times> i64 \<Rightarrow> weighted_row list" where
  "join_emits support = (\<lambda>(row, weight). let old = zget support row; new = old + weight in
     (if old = 0 \<and> 0 < sint new then [emit row 1] else []) @ (if 0 < sint old \<and> new = 0 then [emit row (-1)] else []))"

lemma join_output_fold:
  assumes "distinct (map fst delta)" and "bt_inv row_key support" and "nonzero support"
  shows "\<exists>support'. fold join_output delta (support, out) = (support', out @ concat (map (join_emits support) delta)) \<and>
    bt_inv row_key support' \<and> nonzero support' \<and> (\<forall>r. zget support' r = zget support r + zget delta r)"
  using assms
proof (induction delta arbitrary: support out)
  case Nil
  then show ?case by simp
next
  case (Cons x delta)
  obtain row w where x: "x = (row, w)" by (cases x)
  let ?new = "zget support row + w"
  define s1 where "s1 = (if ?new = 0 then AList.delete row support else bt_insert row_key row ?new support)"
  have inv: "bt_inv row_key s1" using Cons.prems(2) by (simp add: s1_def)
  have nz: "nonzero s1"
    using Cons.prems(2,3) by (auto simp: s1_def nonzero_def btr.mem_upd btr.mem_del)
  have get: "zget s1 r = (if r = row then ?new else zget support r)" for r
    using Cons.prems(2) by (auto simp: s1_def zget_def btr.get_upd btr.get_del)
  have step: "join_output x (support, out) = (s1, out @ join_emits support x)"
    by (simp add: join_output_def join_emits_def x s1_def Let_def)
  have emits: "map (join_emits s1) delta = map (join_emits support) delta"
    using Cons.prems(1) by (intro map_cong refl) (force simp: join_emits_def get x)
  have zero: "zget delta row = 0"
    using Cons.prems(1) by (intro zget_absent) (simp add: x)
  from Cons.IH [OF _ inv nz, of "out @ join_emits support x"] Cons.prems(1) obtain support'
    where "fold join_output delta (s1, out @ join_emits support x) =
        (support', out @ join_emits support x @ concat (map (join_emits support) delta))"
      and s': "bt_inv row_key support'" "nonzero support'" and g: "\<And>r. zget support' r = zget s1 r + zget delta r"
    by (auto simp only: emits distinct.simps list.map append_assoc)
  then have "fold join_output (x # delta) (support, out) = (support', out @ concat (map (join_emits support) (x # delta)))"
    by (simp add: step)
  moreover have "zget support' r = zget support r + zget (x # delta) r" for r
    by (simp add: g get zget_Cons x zero)
  ultimately show ?case using s' by blast
qed

lemma join_output_Ok:
  assumes support: "support_is support c" and delta: "delta_is delta c c'" and bound: "\<And>r. c' r < 2 ^ 63"
  obtains support' out where "fold join_output delta (support, []) = (support', out)"
    and "support_is support' c'" and "output_spec {r. 0 < c r} {r. 0 < c' r} out"
proof -
  from delta have d: "bt_inv row_key delta" "nonzero delta" "\<And>r. zget delta r = of_nat (c' r) - of_nat (c r)"
    by (auto simp: delta_is_def)
  note dist = bt_inv_distinct [OF d(1)]
  note s = support_is_word [OF support]
  from join_output_fold [OF dist, of support "[]"] support obtain support'
    where fold: "fold join_output delta (support, []) = (support', concat (map (join_emits support) delta))"
      and s': "bt_inv row_key support'" "nonzero support'" "\<And>r. zget support' r = of_nat (c' r)"
    by (auto simp: support_is_def s d(3))
  have "support_is support' c'"
    by (simp add: support_is_def s' sint_of_nat_i64 [OF bound])
  moreover have "output_spec {r. 0 < c r} {r. 0 < c' r} (concat (map (join_emits support) delta))"
  proof -
    have zero: "(of_nat (n) :: i64) = 0 \<longleftrightarrow> n = 0" if "n < 2 ^ 63" for n
      using sint_of_nat_i64 [OF that] by auto
    note b = support_is_bound [OF support]
    have E: "join_emits support (r, w) =
        (if c r = 0 \<and> 0 < c' r then [emit r 1] else []) @ (if 0 < c r \<and> c' r = 0 then [emit r (-1)] else [])"
      if "(r, w) \<in> set delta" for r w
    proof -
      from zget_mem [OF dist that] d(3) have "w = of_nat (c' r) - of_nat (c r)" by simp
      then show ?thesis
        by (auto simp: join_emits_def Let_def s zero [OF b] zero [OF bound] sint_of_nat_i64 [OF b] sint_of_nat_i64 [OF bound])
    qed
    have mem: "c r = c' r" if "r \<notin> fst ` set delta" for r
    proof -
      from zget_absent [OF that] d(3) have "(of_nat (c' r) :: i64) = of_nat (c r)" by simp
      then show ?thesis using sint_of_nat_i64 [OF b, of r] sint_of_nat_i64 [OF bound, of r] by simp
    qed
    have "set (concat (map (join_emits support) delta)) =
        (\<lambda>r. emit r (-1)) ` ({r. 0 < c r} - {r. 0 < c' r}) \<union> (\<lambda>r. emit r 1) ` ({r. 0 < c' r} - {r. 0 < c r})"
      (is "?A = ?B")
    proof (intro equalityI subsetI)
      fix y assume "y \<in> ?A"
      then show "y \<in> ?B" by (auto simp: E split: if_splits)
    next
      fix y assume "y \<in> ?B"
      then obtain r where r: "y = emit r (-1) \<and> 0 < c r \<and> c' r = 0 \<or> y = emit r 1 \<and> 0 < c' r \<and> c r = 0"
        by fastforce
      with mem [of r] obtain w where "(r, w) \<in> set delta" by fastforce
      with r E [of r w] show "y \<in> ?A" by force
    qed
    moreover have "distinct (concat (map (join_emits support) delta))"
      by (rule distinct_emits [where key = wr_cells, OF dist]) (auto simp: join_emits_def Let_def)
    ultimately show ?thesis by (simp add: output_spec_def)
  qed
  ultimately show ?thesis using fold that by blast
qed

end
