(* ===== verification/Route_Group.thy ===== *)
theory Route_Group
  imports Route_Support
begin

text \<open>
  The grouped plan. All arithmetic on counts and sums is checked, so a delta that is returned is exact;
  conversely, while the groups before and after are in range and the values a frontier touches in a
  group are together below \<open>2 ^ 63\<close> (\<open>group_churn\<close>), no intermediate result overflows.
\<close>

subsection \<open>What the plan means\<close>

fun grp_ids :: "route_plan \<Rightarrow> route_rows \<Rightarrow> i64 \<Rightarrow> i64 set" where
  "grp_ids (GroupCountSum source grp val) rows k = {i. \<exists>x. rows source i = Some x \<and> x ! grp = k}"
| "grp_ids (JoinUnion _ _ _ _ _ _ _ _) rows k = {}"

definition grp_count :: "route_plan \<Rightarrow> route_rows \<Rightarrow> i64 \<Rightarrow> nat" where
  "grp_count plan rows k = card (grp_ids plan rows k)"

fun grp_sum :: "route_plan \<Rightarrow> route_rows \<Rightarrow> i64 \<Rightarrow> int" where
  "grp_sum (GroupCountSum source grp val) rows k =
     (\<Sum>i\<in>grp_ids (GroupCountSum source grp val) rows k. sint (the (rows source i) ! val))"
| "grp_sum (JoinUnion _ _ _ _ _ _ _ _) rows k = 0"

definition in_group :: "nat \<Rightarrow> i64 \<Rightarrow> (i64 list \<Rightarrow> 'a::comm_monoid_add) \<Rightarrow> i64 list \<Rightarrow> 'a" where
  "in_group grp k h x = (if x ! grp = k then h x else 0)"

text \<open>What a frontier changes in a group, in absolute values.\<close>

fun group_churn :: "route_plan \<Rightarrow> route_rows \<Rightarrow> route_rows \<Rightarrow> i64 \<Rightarrow> int" where
  "group_churn (GroupCountSum source grp val) rows rows' k =
     (\<Sum>i\<in>{i. rows source i \<noteq> rows' source i}.
        opt_weight (in_group grp k (\<lambda>x. \<bar>sint (x ! val)\<bar>)) (rows source i) +
        opt_weight (in_group grp k (\<lambda>x. \<bar>sint (x ! val)\<bar>)) (rows' source i))"
| "group_churn (JoinUnion _ _ _ _ _ _ _ _) rows rows' k = 0"

lemma grp_count_sum:
  "(of_nat (grp_count (GroupCountSum s grp val) rows k) :: 'a::{comm_semiring_1}) =
     (\<Sum>i\<in>UNIV. opt_weight (in_group grp k (\<lambda>_. 1)) (rows s i))"
proof -
  have "opt_weight (in_group grp k (\<lambda>_. 1)) (rows s i) = (of_bool (\<exists>x. rows s i = Some x \<and> x ! grp = k) :: 'a)" for i
    by (cases "rows s i") (auto simp: in_group_def)
  then show ?thesis by (simp only: grp_count_def grp_ids.simps of_nat_card_UNIV)
qed

lemma grp_sum_sum:
  "grp_sum (GroupCountSum s grp val) rows k =
     (\<Sum>i\<in>UNIV. opt_weight (in_group grp k (\<lambda>x. sint (x ! val))) (rows s i))"
proof -
  have "grp_sum (GroupCountSum s grp val) rows k =
      (\<Sum>i\<in>UNIV. if i \<in> grp_ids (GroupCountSum s grp val) rows k then sint (the (rows s i) ! val) else 0)"
    by (simp only: grp_sum.simps sum.If_cases [OF finite]) simp
  also have "\<dots> = (\<Sum>i\<in>UNIV. opt_weight (in_group grp k (\<lambda>x. sint (x ! val))) (rows s i))"
    by (intro sum.cong) (auto simp: opt_weight_def in_group_def split: option.split)
  finally show ?thesis .
qed

lemma grp_sum_empty: "grp_count plan rows k = 0 \<Longrightarrow> grp_sum plan rows k = 0"
proof -
  assume "grp_count plan rows k = 0"
  then have "grp_ids plan rows k = {}" by (simp add: grp_count_def)
  then show ?thesis by (cases plan) (simp_all del: grp_ids.simps)
qed

subsection \<open>Checked arithmetic\<close>

lemma checked_add_Some:
  "- (2 ^ 63) \<le> sint a + sint b \<Longrightarrow> sint a + sint b < 2 ^ 63 \<Longrightarrow>
     checked_add a b = Some (a + b) \<and> sint (a + b) = sint a + sint b"
  by (simp add: checked_add_def Let_def sint_add_i64)

lemma checked_mul_Some:
  assumes "- (2 ^ 63) \<le> sint a * sint b" and "sint a * sint b < 2 ^ 63"
  shows "checked_mul a b = Some (a * b) \<and> sint (a * b) = sint a * sint b"
  using assms by (simp add: checked_mul_def Let_def sint_word_ariths signed_take_bit_int_eq_self)

subsection \<open>The delta of a group\<close>

definition diff_sum :: "nat \<Rightarrow> i64 \<Rightarrow> (i64 list \<Rightarrow> i64 \<Rightarrow> int) \<Rightarrow> (i64 list \<times> i64) list \<Rightarrow> int" where
  "diff_sum grp k h ds = (\<Sum>(row, sign)\<leftarrow>ds. if row ! grp = k then h row sign else 0)"

lemma diff_sum_snoc: "diff_sum grp k h (ds @ [(row, sign)]) = diff_sum grp k h ds + (if row ! grp = k then h row sign else 0)"
  by (simp add: diff_sum_def)

lemma diff_sum_nonneg: "(\<And>row sign. 0 \<le> h row sign) \<Longrightarrow> 0 \<le> diff_sum grp k h ds"
  by (auto simp: diff_sum_def intro!: sum_list_nonneg)

definition sign_count :: "i64 \<Rightarrow> i64 list \<Rightarrow> i64 \<Rightarrow> int" where
  "sign_count s row sign = (if sign = s then 1 else 0)"

definition magnitude :: "nat \<Rightarrow> i64 list \<Rightarrow> i64 \<Rightarrow> int" where
  "magnitude val row sign = \<bar>sint (row ! val)\<bar>"

definition signed_value :: "nat \<Rightarrow> i64 list \<Rightarrow> i64 \<Rightarrow> int" where
  "signed_value val row sign = sint sign * sint (row ! val)"

lemma try_fold_snoc: "try_fold f (xs @ [x]) b = rust_bind (try_fold f xs b) (f x)"
proof (induction xs arbitrary: b)
  case Nil
  show ?case by (cases "f x b") simp_all
next
  case (Cons y xs)
  then show ?case by (cases "f y b") simp_all
qed

lemma group_loop:
  assumes "\<And>row sign. (row, sign) \<in> set ds \<Longrightarrow> grp < length row \<and> val < length row \<and> (sign = 1 \<or> sign = -1)"
    and "\<And>k. diff_sum grp k (sign_count 1) ds < 2 ^ 63"
    and "\<And>k. diff_sum grp k (sign_count (-1)) ds \<le> 2 ^ 63"
    and "\<And>k. diff_sum grp k (magnitude val) ds < 2 ^ 63"
  shows "\<exists>delta. try_fold (group_add s grp val) ds [] = Ok delta \<and> bt_inv sint delta \<and>
    (\<forall>k. sint (fst (group_get delta k)) = diff_sum grp k (sign_count 1) ds - diff_sum grp k (sign_count (-1)) ds \<and>
         sint (snd (group_get delta k)) = diff_sum grp k (signed_value val) ds \<and>
         \<bar>diff_sum grp k (signed_value val) ds\<bar> \<le> diff_sum grp k (magnitude val) ds)"
  using assms
proof (induction ds rule: rev_induct)
  case Nil
  then show ?case by (simp add: diff_sum_def group_get_def)
next
  case (snoc x ds)
  obtain row sign where x: "x = (row, sign)" by (cases x)
  let ?k = "row ! grp"
  have nn: "0 \<le> sign_count t r u" "0 \<le> magnitude val r u" for t r u
    by (simp_all add: sign_count_def magnitude_def)
  have sub: "diff_sum grp k h ds \<le> diff_sum grp k h (ds @ [x])" if "\<And>row sign. 0 \<le> h row sign" for k h
    using that by (simp add: x diff_sum_snoc)
  have "\<exists>delta. try_fold (group_add s grp val) ds [] = Ok delta \<and> bt_inv sint delta \<and>
    (\<forall>k. sint (fst (group_get delta k)) = diff_sum grp k (sign_count 1) ds - diff_sum grp k (sign_count (-1)) ds \<and>
         sint (snd (group_get delta k)) = diff_sum grp k (signed_value val) ds \<and>
         \<bar>diff_sum grp k (signed_value val) ds\<bar> \<le> diff_sum grp k (magnitude val) ds)"
  proof (rule snoc.IH)
    show "grp < length r \<and> val < length r \<and> (u = 1 \<or> u = -1)" if "(r, u) \<in> set ds" for r u
      using snoc.prems(1) [of r u] that by simp
    show "diff_sum grp k (sign_count 1) ds < 2 ^ 63" for k
      using sub [OF nn(1)] snoc.prems(2) by (rule le_less_trans)
    show "diff_sum grp k (sign_count (-1)) ds \<le> 2 ^ 63" for k
      using sub [OF nn(1)] snoc.prems(3) by (rule order_trans)
    show "diff_sum grp k (magnitude val) ds < 2 ^ 63" for k
      using sub [OF nn(2)] snoc.prems(4) by (rule le_less_trans)
  qed
  then obtain delta where d: "try_fold (group_add s grp val) ds [] = Ok delta" "bt_inv sint delta"
    and cnt: "\<And>k. sint (fst (group_get delta k)) = diff_sum grp k (sign_count 1) ds - diff_sum grp k (sign_count (-1)) ds"
    and tot: "\<And>k. sint (snd (group_get delta k)) = diff_sum grp k (signed_value val) ds"
    and mag: "\<And>k. \<bar>diff_sum grp k (signed_value val) ds\<bar> \<le> diff_sum grp k (magnitude val) ds"
    by blast
  have fit: "grp < length row" "val < length row" and sign: "sign = 1 \<or> sign = -1"
    using snoc.prems(1) [of row sign] by (auto simp: x)
  have up1: "0 \<le> diff_sum grp ?k (sign_count u) (ds @ [x])" for u
    by (rule diff_sum_nonneg) (rule nn)
  have nm: "0 \<le> diff_sum grp ?k (magnitude val) ds"
    by (rule diff_sum_nonneg) (rule nn)
  note up = up1 snoc.prems(2) [of ?k] snoc.prems(3) [of ?k] snoc.prems(4) [of ?k]
  have one: "(1 :: i64) \<noteq> -1" by simp
  have sc: "diff_sum grp ?k (sign_count u) (ds @ [x]) = diff_sum grp ?k (sign_count u) ds + sign_count u row sign" for u
    by (simp only: x diff_sum_snoc simp_thms if_True)
  have "sint sign = sign_count 1 row sign - sign_count (-1) row sign"
    using sign one by (auto simp: sign_count_def)
  with sc [of 1] sc [of "-1"] cnt [of ?k]
  have s: "sint (fst (group_get delta ?k)) + sint sign =
      diff_sum grp ?k (sign_count 1) (ds @ [x]) - diff_sum grp ?k (sign_count (-1)) (ds @ [x])"
    by linarith
  have c: "checked_add (fst (group_get delta ?k)) sign = Some (fst (group_get delta ?k) + sign) \<and>
      sint (fst (group_get delta ?k) + sign) =
        diff_sum grp ?k (sign_count 1) (ds @ [x]) - diff_sum grp ?k (sign_count (-1)) (ds @ [x])"
    unfolding s [symmetric] using s up(1) [of 1] up(1) [of "-1"] up(2,3) by (intro checked_add_Some) linarith+
  have v: "\<bar>sint (row ! val)\<bar> < 2 ^ 63"
  proof -
    have "diff_sum grp ?k (magnitude val) (ds @ [x]) = diff_sum grp ?k (magnitude val) ds + magnitude val row sign"
      by (simp only: x diff_sum_snoc simp_thms if_True)
    moreover have "magnitude val row sign = \<bar>sint (row ! val)\<bar>" by (simp add: magnitude_def)
    ultimately show ?thesis using up(4) nm by linarith
  qed
  have m: "checked_mul sign (row ! val) = Some (sign * row ! val) \<and> sint (sign * row ! val) = signed_value val row sign"
    using checked_mul_Some [of sign "row ! val"] sign v by (auto simp: signed_value_def)
  have mag': "\<bar>diff_sum grp k (signed_value val) (ds @ [x])\<bar> \<le> diff_sum grp k (magnitude val) (ds @ [x])" for k
    using mag [of k] sign by (auto simp: x diff_sum_snoc signed_value_def magnitude_def)
  have t: "checked_add (snd (group_get delta ?k)) (sign * row ! val) = Some (snd (group_get delta ?k) + sign * row ! val) \<and>
      sint (snd (group_get delta ?k) + sign * row ! val) = diff_sum grp ?k (signed_value val) (ds @ [x])"
    using checked_add_Some [of "snd (group_get delta ?k)" "sign * row ! val"] mag' [of ?k] up(4) tot [of ?k] m
    by (simp add: x diff_sum_snoc)
  let ?new = "(fst (group_get delta ?k) + sign, snd (group_get delta ?k) + sign * row ! val)"
  have "try_fold (group_add s grp val) (ds @ [x]) [] = Ok (bt_insert sint ?k ?new delta)"
    unfolding try_fold_snoc d(1)
    using fit c m t by (simp add: x group_add_def split_def group_ok_def Let_def)
  moreover have "group_get (bt_insert sint ?k ?new delta) k = (if k = ?k then ?new else group_get delta k)" for k
    by (simp add: group_get_def cells.get_upd d(2))
  ultimately show ?case
    using c t mag' cnt tot d(2) by (auto simp: x diff_sum_snoc)
qed

text \<open>The sums over the changed rows of a frontier.\<close>

lemma diff_sums:
  assumes desc: "pend_desc p rows rows'" and plan: "plan = GroupCountSum s grp val"
  shows "diff_sum grp k (sign_count 1) (row_diffs p s) \<le> int (grp_count plan rows' k)"
    and "diff_sum grp k (sign_count (-1)) (row_diffs p s) \<le> int (grp_count plan rows k)"
    and "diff_sum grp k (sign_count 1) (row_diffs p s) - diff_sum grp k (sign_count (-1)) (row_diffs p s) =
      int (grp_count plan rows' k) - int (grp_count plan rows k)"
    and "diff_sum grp k (signed_value val) (row_diffs p s) = grp_sum plan rows' k - grp_sum plan rows k"
    and "diff_sum grp k (magnitude val) (row_diffs p s) = group_churn plan rows rows' k"
proof -
  have one: "(1 :: i64) \<noteq> -1" by simp
  have gen: "diff_sum grp k h (row_diffs p s) =
      (\<Sum>i\<in>UNIV. if rows s i = rows' s i then 0
        else opt_weight (in_group grp k (\<lambda>x. h x (-1))) (rows s i) + opt_weight (in_group grp k (\<lambda>x. h x 1)) (rows' s i))" for h
    unfolding diff_sum_def row_diffs_sum_gen [OF desc] in_group_def [abs_def] by simp
  have zero: "opt_weight (in_group grp k (\<lambda>x. 0)) r = (0 :: int)" for r
    by (cases r) (simp_all add: in_group_def)
  have pos: "0 \<le> (opt_weight (in_group grp k (\<lambda>x. 1)) r :: int)" for r :: "i64 list option"
    by (cases r) (simp_all add: in_group_def)
  have count: "int (grp_count plan t k) = (\<Sum>i\<in>UNIV. opt_weight (in_group grp k (\<lambda>_. 1)) (t s i))" for t
    unfolding plan by (rule grp_count_sum)
  show "diff_sum grp k (sign_count 1) (row_diffs p s) \<le> int (grp_count plan rows' k)"
    unfolding gen count by (intro sum_mono) (simp add: sign_count_def one zero pos)
  show "diff_sum grp k (sign_count (-1)) (row_diffs p s) \<le> int (grp_count plan rows k)"
    unfolding gen count using one by (intro sum_mono) (simp add: sign_count_def zero pos)
  show "diff_sum grp k (sign_count 1) (row_diffs p s) - diff_sum grp k (sign_count (-1)) (row_diffs p s) =
      int (grp_count plan rows' k) - int (grp_count plan rows k)"
    unfolding gen count sum_subtractf [symmetric] using one
    by (intro sum.cong refl) (auto simp: sign_count_def zero)
  have neg: "opt_weight (in_group grp k (\<lambda>x. signed_value val x (-1))) r =
      - opt_weight (in_group grp k (\<lambda>x. sint (x ! val))) r" for r
    by (cases r) (simp_all add: in_group_def signed_value_def)
  show "diff_sum grp k (signed_value val) (row_diffs p s) = grp_sum plan rows' k - grp_sum plan rows k"
    unfolding gen plan grp_sum_sum sum_subtractf [symmetric]
    by (intro sum.cong refl) (auto simp: neg, simp add: signed_value_def)
  show "diff_sum grp k (magnitude val) (row_diffs p s) = group_churn plan rows rows' k"
  proof -
    have "(\<lambda>x. magnitude val x u) = (\<lambda>x. \<bar>sint (x ! val)\<bar>)" for u
      by (simp add: magnitude_def fun_eq_iff)
    then show ?thesis
      unfolding gen plan group_churn.simps
      by (simp add: sum.If_cases [OF finite] Collect_neg_eq [symmetric])
  qed
qed

definition groups_track :: "(i64 \<times> (i64 \<times> i64)) list \<Rightarrow> (i64 \<Rightarrow> nat) \<Rightarrow> (i64 \<Rightarrow> int) \<Rightarrow> bool" where
  "groups_track groups cnt tot =
     (bt_inv sint groups \<and>
      (\<forall>k. (map_of groups k = None \<longleftrightarrow> cnt k = 0) \<and>
           sint (fst (group_get groups k)) = int (cnt k) \<and> sint (snd (group_get groups k)) = tot k))"

definition group_delta_is :: "(i64 \<times> (i64 \<times> i64)) list \<Rightarrow> (i64 \<Rightarrow> nat) \<Rightarrow> (i64 \<Rightarrow> int) \<Rightarrow> (i64 \<Rightarrow> nat) \<Rightarrow> (i64 \<Rightarrow> int) \<Rightarrow> bool" where
  "group_delta_is delta cnt tot cnt' tot' =
     (bt_inv sint delta \<and>
      (\<forall>k. sint (fst (group_get delta k)) = int (cnt' k) - int (cnt k) \<and>
           sint (snd (group_get delta k)) = tot' k - tot k))"

definition groups_bound :: "(i64 \<Rightarrow> nat) \<Rightarrow> (i64 \<Rightarrow> int) \<Rightarrow> bool" where
  "groups_bound cnt tot = (\<forall>k. cnt k < 2 ^ 63 \<and> - (2 ^ 63) \<le> tot k \<and> tot k < 2 ^ 63)"

lemma group_get_mem: "bt_inv sint m \<Longrightarrow> (k, x) \<in> set m \<Longrightarrow> group_get m k = x"
  by (simp add: group_get_def bt_inv_distinct)

lemma check_groups_Ok:
  assumes groups: "groups_track groups cnt tot" and delta: "group_delta_is delta cnt tot cnt' tot'"
    and bound: "groups_bound cnt' tot'"
  shows "check_groups s groups delta = Ok ()"
  unfolding check_groups_def split_def
proof (subst try_fold_unit_Ok, intro ballI)
  fix x assume "x \<in> set delta"
  then have x: "group_get delta (fst x) = snd x"
    using delta group_get_mem [of delta "fst x" "snd x"] by (simp add: group_delta_is_def)
  let ?old = "group_get groups (fst x)"
  have b: "int (cnt' (fst x)) < 2 ^ 63" "- (2 ^ 63) \<le> tot' (fst x)" "tot' (fst x) < 2 ^ 63"
    using bound by (simp_all add: groups_bound_def)
  have "sint (fst ?old) + sint (fst (snd x)) = int (cnt' (fst x))" "sint (snd ?old) + sint (snd (snd x)) = tot' (fst x)"
    using groups delta x [symmetric] by (simp_all add: groups_track_def group_delta_is_def)
  with b checked_add_Some [of "fst ?old" "fst (snd x)"] checked_add_Some [of "snd ?old" "snd (snd x)"]
  show "(let old = ?old in
      rust_bind (group_ok s ''count overflow'' (checked_add (fst old) (fst (snd x)))) (\<lambda>after_count.
      rust_bind (group_ok s ''sum overflow'' (checked_add (snd old) (snd (snd x)))) (\<lambda>_.
      if sint after_count < 0 then Err (route_error_of ''group'' (Some s) ''negative count'') else Ok ()))) = Ok ()"
    by (simp add: group_ok_def)
qed

lemma group_delta_Ok:
  assumes plan: "plan = GroupCountSum s grp val"
    and desc: "pend_desc p (rt_rows e) rows'"
    and fit: "rows_fit plan (rt_rows e)" "rows_fit plan rows'"
    and groups: "groups_track (rt_groups e) (grp_count plan (rt_rows e)) (grp_sum plan (rt_rows e))"
    and bound: "groups_bound (grp_count plan rows') (grp_sum plan rows')"
    and churn: "\<And>k. group_churn plan (rt_rows e) rows' k < 2 ^ 63"
  obtains delta where "group_delta e plan p = Ok delta"
    and "group_delta_is delta (grp_count plan (rt_rows e)) (grp_sum plan (rt_rows e)) (grp_count plan rows') (grp_sum plan rows')"
proof -
  note sums = diff_sums [OF desc plan]
  have "\<exists>delta. try_fold (group_add s grp val) (row_diffs p s) [] = Ok delta \<and> bt_inv sint delta \<and>
    (\<forall>k. sint (fst (group_get delta k)) =
           diff_sum grp k (sign_count 1) (row_diffs p s) - diff_sum grp k (sign_count (-1)) (row_diffs p s) \<and>
         sint (snd (group_get delta k)) = diff_sum grp k (signed_value val) (row_diffs p s) \<and>
         \<bar>diff_sum grp k (signed_value val) (row_diffs p s)\<bar> \<le> diff_sum grp k (magnitude val) (row_diffs p s))"
  proof (rule group_loop)
    show "grp < length row \<and> val < length row \<and> (sign = 1 \<or> sign = -1)" if "(row, sign) \<in> set (row_diffs p s)" for row sign
      using row_diffs_mem [OF desc that] fit by (force simp: rows_fit_def plan)
    show "diff_sum grp k (sign_count 1) (row_diffs p s) < 2 ^ 63" for k
      using sums(1) [of k] bound unfolding groups_bound_def
      by (rule_tac le_less_trans) auto
    show "diff_sum grp k (sign_count (-1)) (row_diffs p s) \<le> 2 ^ 63" for k
    proof -
      have "int (grp_count plan (rt_rows e) k) \<le> 2 ^ 63"
        using groups sint_i64_le [of "fst (group_get (rt_groups e) k)"] by (simp add: groups_track_def)
      with sums(2) [of k] show ?thesis by linarith
    qed
    show "diff_sum grp k (magnitude val) (row_diffs p s) < 2 ^ 63" for k
      using churn [of k] sums(5) [of k] by simp
  qed
  then obtain delta where "try_fold (group_add s grp val) (row_diffs p s) [] = Ok delta"
    and is_delta: "group_delta_is delta (grp_count plan (rt_rows e)) (grp_sum plan (rt_rows e))
      (grp_count plan rows') (grp_sum plan rows')"
    by (auto simp: group_delta_is_def sums(3,4))
  moreover from check_groups_Ok [OF groups is_delta bound] have "check_groups s (rt_groups e) delta = Ok ()" .
  ultimately have "group_delta e plan p = Ok delta" by (simp add: plan)
  with is_delta that show ?thesis by blast
qed

lemma try_fold_total:
  "(\<And>x b. x \<in> set xs \<Longrightarrow> f x b \<noteq> Panic) \<Longrightarrow> try_fold f xs b \<noteq> Panic"
  by (induction xs arbitrary: b) (auto simp: rust_simps)

lemma group_ok_total [simp]: "group_ok s m x \<noteq> Panic"
  by (simp add: group_ok_def split: option.split)

lemma group_delta_total:
  assumes plan: "plan = GroupCountSum s grp val" and desc: "pend_desc p (rt_rows e) rows'"
    and fit: "rows_fit plan (rt_rows e)" "rows_fit plan rows'"
  shows "group_delta e plan p \<noteq> Panic"
proof -
  have "group_add s grp val x d \<noteq> Panic" if "x \<in> set (row_diffs p s)" for x d
  proof -
    have "grp < length (fst x) \<and> val < length (fst x)"
      using row_diffs_mem [OF desc, of "fst x" "snd x" s] that fit by (force simp: rows_fit_def plan)
    then show ?thesis
      by (auto simp: group_add_def split_def Let_def rust_simps)
  qed
  moreover have "check_groups s (rt_groups e) delta \<noteq> Panic" for delta
    unfolding check_groups_def split_def
    by (intro try_fold_unit_total) (auto simp: Let_def rust_simps split: if_splits)
  ultimately show ?thesis
    by (auto simp: plan rust_simps try_fold_total)
qed

subsection \<open>The output\<close>

lemma i64_of_int: "sint a = z \<Longrightarrow> a = (of_int z :: i64)"
  by auto

definition group_emits :: "(i64 \<times> (i64 \<times> i64)) list \<Rightarrow> i64 \<times> (i64 \<times> i64) \<Rightarrow> weighted_row list" where
  "group_emits groups = (\<lambda>(key, (cnt, tot)). let old = group_get groups key; new = (fst old + cnt, snd old + tot) in
     if old = new then [] else
     (if 0 < sint (fst old) then [emit [key, fst old, snd old] (-1)] else []) @
     (if 0 < sint (fst new) then [emit [key, fst new, snd new] 1] else []))"

definition group_new :: "(i64 \<times> (i64 \<times> i64)) list \<Rightarrow> (i64 \<times> (i64 \<times> i64)) list \<Rightarrow> i64 \<Rightarrow> i64 \<times> i64" where
  "group_new groups delta k =
     (fst (group_get groups k) + fst (group_get delta k), snd (group_get groups k) + snd (group_get delta k))"

lemma group_get_Cons: "group_get ((k', x) # m) k = (if k = k' then x else group_get m k)"
  by (simp add: group_get_def)

lemma group_get_absent: "k \<notin> fst ` set m \<Longrightarrow> group_get m k = (0, 0)"
  by (auto simp: group_get_def split: option.split dest: map_of_SomeD) (force dest: map_of_SomeD)+

lemma group_output_fold:
  assumes "distinct (map fst delta)" and "bt_inv sint groups"
  shows "\<exists>groups'. fold group_output delta (groups, out) = (groups', out @ concat (map (group_emits groups) delta)) \<and>
    bt_inv sint groups' \<and>
    (\<forall>k. map_of groups' k = (if group_new groups delta k = group_get groups k then map_of groups k
       else if fst (group_new groups delta k) = 0 then None else Some (group_new groups delta k)))"
  using assms
proof (induction delta arbitrary: groups out)
  case Nil
  then show ?case by (simp add: group_new_def group_get_def)
next
  case (Cons x delta)
  obtain key cnt tot where x: "x = (key, (cnt, tot))" by (cases x)
  let ?old = "group_get groups key"
  let ?new = "(fst ?old + cnt, snd ?old + tot)"
  define g1 where "g1 = (if ?old = ?new then groups else if fst ?new = 0 then AList.delete key groups
    else bt_insert sint key ?new groups)"
  have inv: "bt_inv sint g1" using Cons.prems(2) by (simp add: g1_def)
  have look: "map_of g1 k = (if k = key \<and> ?old \<noteq> ?new then if fst ?new = 0 then None else Some ?new else map_of groups k)" for k
    using Cons.prems(2) by (simp add: g1_def cells.get_upd cells.get_del)
  have step: "group_output x (groups, out) = (g1, out @ group_emits groups x)"
    by (simp add: group_output_def group_emits_def x g1_def Let_def)
  have absent: "group_get delta key = (0, 0)"
    using Cons.prems(1) by (intro group_get_absent) (simp add: x)
  have other: "group_get g1 k = group_get groups k" if "k \<noteq> key" for k
    using that by (simp add: group_get_def look)
  have emits: "map (group_emits g1) delta = map (group_emits groups) delta"
  proof (intro map_cong refl)
    fix y assume "y \<in> set delta"
    with Cons.prems(1) have "fst y \<noteq> key" by (auto simp: x)
    then show "group_emits g1 y = group_emits groups y" by (simp add: group_emits_def split_def other)
  qed
  from Cons.IH [OF _ inv, of "out @ group_emits groups x"] Cons.prems(1) obtain groups'
    where "fold group_output delta (g1, out @ group_emits groups x) =
        (groups', out @ group_emits groups x @ concat (map (group_emits groups) delta))"
      and inv': "bt_inv sint groups'"
      and look': "\<And>k. map_of groups' k = (if group_new g1 delta k = group_get g1 k then map_of g1 k
       else if fst (group_new g1 delta k) = 0 then None else Some (group_new g1 delta k))"
    by (auto simp only: emits distinct.simps list.map append_assoc)
  then have "fold group_output (x # delta) (groups, out) = (groups', out @ concat (map (group_emits groups) (x # delta)))"
    by (simp add: step)
  moreover have "map_of groups' k = (if group_new groups (x # delta) k = group_get groups k then map_of groups k
       else if fst (group_new groups (x # delta) k) = 0 then None else Some (group_new groups (x # delta) k))" for k
  proof (cases "k = key")
    case True
    have "group_new g1 delta key = group_get g1 key" by (simp add: group_new_def absent)
    moreover have "group_new groups (x # delta) key = ?new" by (simp add: group_new_def x group_get_Cons)
    ultimately show ?thesis using look' [of key] look [of key] by (auto simp: True)
  next
    case False
    then have "group_new groups (x # delta) k = group_new groups delta k" "group_new g1 delta k = group_new groups delta k"
      "group_get g1 k = group_get groups k" "map_of g1 k = map_of groups k"
      by (simp_all add: group_new_def x group_get_Cons other look)
    then show ?thesis using look' [of k] by simp
  qed
  ultimately show ?case using inv' by blast
qed

definition group_view :: "(i64 \<Rightarrow> nat) \<Rightarrow> (i64 \<Rightarrow> int) \<Rightarrow> i64 list set" where
  "group_view cnt tot = {[k, of_nat (cnt k), of_int (tot k)] | k. 0 < cnt k}"

lemma group_output_Ok:
  assumes groups: "groups_track groups cnt tot" and delta: "group_delta_is delta cnt tot cnt' tot'"
    and bound: "groups_bound cnt' tot'" and zero: "\<And>k. cnt' k = 0 \<Longrightarrow> tot' k = 0" "\<And>k. cnt k = 0 \<Longrightarrow> tot k = 0"
  obtains groups' out where "fold group_output delta (groups, []) = (groups', out)"
    and "groups_track groups' cnt' tot'" and "output_spec (group_view cnt tot) (group_view cnt' tot') out"
proof -
  from delta have d: "bt_inv sint delta" "\<And>k. sint (fst (group_get delta k)) = int (cnt' k) - int (cnt k)"
      "\<And>k. sint (snd (group_get delta k)) = tot' k - tot k"
    by (auto simp: group_delta_is_def)
  note dist = bt_inv_distinct [OF d(1)]
  from groups have inv: "bt_inv sint groups" and none: "\<And>k. map_of groups k = None \<longleftrightarrow> cnt k = 0"
    and old: "\<And>k. sint (fst (group_get groups k)) = int (cnt k)" "\<And>k. sint (snd (group_get groups k)) = tot k"
    by (auto simp: groups_track_def)
  have b: "int (cnt' k) < 2 ^ 63" "- (2 ^ 63) \<le> tot' k" "tot' k < 2 ^ 63" for k
    using bound by (simp_all add: groups_bound_def)
  have new: "sint (fst (group_new groups delta k)) = int (cnt' k)" "sint (snd (group_new groups delta k)) = tot' k" for k
    using checked_add_Some [of "fst (group_get groups k)" "fst (group_get delta k)"]
      checked_add_Some [of "snd (group_get groups k)" "snd (group_get delta k)"] b [of k]
    by (simp_all add: group_new_def old d(2,3))
  have oldw: "group_get groups k = (of_nat (cnt k), of_int (tot k))" for k
    by (simp add: prod_eq_iff i64_of_nat [OF old(1)] i64_of_int [OF old(2)])
  have neww: "group_new groups delta k = (of_nat (cnt' k), of_int (tot' k))" for k
    by (simp add: prod_eq_iff i64_of_nat [OF new(1)] i64_of_int [OF new(2)])
  have same: "group_new groups delta k = group_get groups k \<longleftrightarrow> cnt' k = cnt k \<and> tot' k = tot k" for k
    using new [of k] old [of k] oldw neww by (metis of_nat_eq_iff)
  from group_output_fold [OF dist inv, of "[]"] obtain groups'
    where fold: "fold group_output delta (groups, []) = (groups', concat (map (group_emits groups) delta))"
      and inv': "bt_inv sint groups'"
      and look: "\<And>k. map_of groups' k = (if group_new groups delta k = group_get groups k then map_of groups k
       else if fst (group_new groups delta k) = 0 then None else Some (group_new groups delta k))"
    by auto
  have zero_new: "fst (group_new groups delta k) = 0 \<longleftrightarrow> cnt' k = 0" for k
    using new(1) [of k] by (metis of_nat_0_eq_iff sint_0 sint_eq_iff)
  have get': "group_get groups' k = group_new groups delta k" for k
  proof (cases "map_of groups' k")
    case None
    then have "cnt' k = 0"
      using look [of k] same [of k] none [of k] zero_new [of k] by (auto split: if_splits)
    with None zero(1) neww show ?thesis by (simp add: group_get_def)
  next
    case (Some y)
    then show ?thesis using look [of k] by (auto simp: group_get_def split: if_splits)
  qed
  have "groups_track groups' cnt' tot'"
    unfolding groups_track_def get'
    using inv' new look none same zero_new by (auto split: if_splits)
  moreover have "output_spec (group_view cnt tot) (group_view cnt' tot') (concat (map (group_emits groups) delta))"
  proof -
    have same2: "group_get groups k = group_new groups delta k \<longleftrightarrow> cnt' k = cnt k \<and> tot' k = tot k" for k
      using same [of k] by auto
    have p: "0 < sint (fst (group_get groups k)) \<longleftrightarrow> 0 < cnt k" for k
      by (simp add: old)
    have q: "0 < sint (fst (group_new groups delta k)) \<longleftrightarrow> 0 < cnt' k" for k
      by (simp add: new)
    have E: "group_emits groups y = (if cnt' (fst y) = cnt (fst y) \<and> tot' (fst y) = tot (fst y) then [] else
        (if 0 < cnt (fst y) then [emit [fst y, of_nat (cnt (fst y)), of_int (tot (fst y))] (-1)] else []) @
        (if 0 < cnt' (fst y) then [emit [fst y, of_nat (cnt' (fst y)), of_int (tot' (fst y))] 1] else []))"
      if "y \<in> set delta" for y
    proof -
      have y: "group_get delta (fst y) = snd y"
        using group_get_mem [OF d(1), of "fst y" "snd y"] that by simp
      have "group_emits groups y = (if group_get groups (fst y) = group_new groups delta (fst y) then [] else
        (if 0 < sint (fst (group_get groups (fst y))) then [emit [fst y, fst (group_get groups (fst y)), snd (group_get groups (fst y))] (-1)] else []) @
        (if 0 < sint (fst (group_new groups delta (fst y))) then [emit [fst y, fst (group_new groups delta (fst y)), snd (group_new groups delta (fst y))] 1] else []))"
        by (simp add: group_emits_def split_def Let_def group_new_def y)
      also have "\<dots> = (if cnt' (fst y) = cnt (fst y) \<and> tot' (fst y) = tot (fst y) then [] else
        (if 0 < cnt (fst y) then [emit [fst y, of_nat (cnt (fst y)), of_int (tot (fst y))] (-1)] else []) @
        (if 0 < cnt' (fst y) then [emit [fst y, of_nat (cnt' (fst y)), of_int (tot' (fst y))] 1] else []))"
        by (simp only: same2 p q) (simp only: oldw neww fst_conv snd_conv)
      finally show ?thesis .
    qed
    have mem: "cnt' k = cnt k \<and> tot' k = tot k" if "k \<notin> fst ` set delta" for k
      using d(2,3) [of k] group_get_absent [OF that] by simp
    have row: "[k, of_nat (cnt k), of_int (tot k)] \<in> group_view cnt' tot' \<longleftrightarrow> 0 < cnt' k \<and> cnt' k = cnt k \<and> tot' k = tot k" for k
      using same [of k] oldw [of k] neww [of k] by (auto simp: group_view_def)
    have row': "[k, of_nat (cnt' k), of_int (tot' k)] \<in> group_view cnt tot \<longleftrightarrow> 0 < cnt k \<and> cnt' k = cnt k \<and> tot' k = tot k" for k
      using same [of k] oldw [of k] neww [of k] by (auto simp: group_view_def)
    have "set (concat (map (group_emits groups) delta)) =
        (\<lambda>r. emit r (-1)) ` (group_view cnt tot - group_view cnt' tot') \<union> (\<lambda>r. emit r 1) ` (group_view cnt' tot' - group_view cnt tot)"
      (is "?A = ?B")
    proof (intro equalityI subsetI)
      fix z assume "z \<in> ?A"
      then obtain y where "y \<in> set delta" "z \<in> set (group_emits groups y)" by auto
      with row [of "fst y"] row' [of "fst y"] show "z \<in> ?B"
        by (auto simp: E group_view_def split: if_splits)
    next
      fix z assume "z \<in> ?B"
      then obtain k where k: "z = emit [k, of_nat (cnt k), of_int (tot k)] (-1) \<and> 0 < cnt k \<and> \<not> (0 < cnt' k \<and> cnt' k = cnt k \<and> tot' k = tot k)
          \<or> z = emit [k, of_nat (cnt' k), of_int (tot' k)] 1 \<and> 0 < cnt' k \<and> \<not> (0 < cnt k \<and> cnt' k = cnt k \<and> tot' k = tot k)"
        using row row' unfolding group_view_def [of cnt tot] group_view_def [of cnt' tot'] by blast
      with mem [of k] obtain y where "y \<in> set delta" "fst y = k" by fastforce
      with k E [of y] have "z \<in> set (group_emits groups y)" by (auto split: if_splits)
      with \<open>y \<in> set delta\<close> show "z \<in> ?A" by auto
    qed
    moreover have "distinct (concat (map (group_emits groups) delta))"
      by (rule distinct_emits [where key = "hd \<circ> wr_cells", OF dist]) (auto simp: group_emits_def Let_def split: if_splits)
    ultimately show ?thesis by (simp add: output_spec_def)
  qed
  ultimately show ?thesis using fold that by blast
qed

end
