(* ===== verification/Route_Write.thy ===== *)
theory Route_Write
  imports Route_Group
begin

text \<open>
  Source writes. Each pending entry moves one row of the stored rows to its last state and keeps the
  key indexes in step, so writing all entries leaves the rows the frontier describes.
\<close>

definition indexes_ok :: "route_plan \<Rightarrow> route_engine \<Rightarrow> bool" where
  "indexes_ok plan e = (\<forall>s col. key_column plan s = Some col \<longrightarrow> index_ok e s col)"

lemma key_column_needed: "key_column plan s = Some col \<Longrightarrow> col \<in> set (needed_columns plan s)"
  by (cases plan) (auto split: if_splits)

text \<open>Two engines that differ at most in rows and indexes.\<close>

definition same_views :: "route_engine \<Rightarrow> route_engine \<Rightarrow> bool" where
  "same_views e e' = (rt_plan e' = rt_plan e \<and> rt_support e' = rt_support e \<and> rt_groups e' = rt_groups e \<and>
     rt_next_frontier e' = rt_next_frontier e)"

lemma same_views_refl [simp]: "same_views e e"
  by (simp add: same_views_def)

lemma same_views_trans: "same_views e e1 \<Longrightarrow> same_views e1 e2 \<Longrightarrow> same_views e e2"
  by (simp add: same_views_def)

subsection \<open>Identity sets\<close>

lemma ids_insert: "bt_inv sint m \<Longrightarrow> fst ` set (bt_insert sint i () m) = insert i (fst ` set (m :: id_set))"
proof -
  assume "bt_inv sint m"
  then have "(k, ()) \<in> set (bt_insert sint i () m) \<longleftrightarrow> k = i \<or> (k, ()) \<in> set m" for k
    by (simp add: cells.mem_upd)
  then show ?thesis by (force simp: image_iff)
qed

lemma ids_delete: "bt_inv sint m \<Longrightarrow> fst ` set (AList.delete i m) = fst ` set (m :: id_set) - {i}"
proof -
  have "set (map fst (AList.delete i m)) = set (map fst m) - {i}" by (simp only: delete_keys set_removeAll)
  then show ?thesis by simp
qed

subsection \<open>One entry\<close>

definition index_moved :: "route_engine \<Rightarrow> nat \<Rightarrow> u8 \<Rightarrow> i64 \<Rightarrow> i64 list option \<Rightarrow> route_engine \<Rightarrow> bool" where
  "index_moved e col s i after e1 =
     (rt_rows e1 = rt_rows e \<and> same_views e e1 \<and> (\<forall>t. t \<noteq> s \<longrightarrow> rt_indexes e1 t = rt_indexes e t) \<and>
      (\<forall>key. bt_inv sint (rt_indexes e1 s key) \<and>
        (\<forall>j. j \<in> fst ` set (rt_indexes e1 s key) \<longleftrightarrow>
          (if j = i then \<exists>x. after = Some x \<and> x ! col = key else j \<in> fst ` set (rt_indexes e s key)))))"

lemma write_index_Ok:
  assumes idx: "index_ok e s col" and before: "rt_rows e s i = before"
    and fit: "\<And>x. before = Some x \<Longrightarrow> col < length x" "\<And>x. after = Some x \<Longrightarrow> col < length x"
  shows "\<exists>e1. write_index col s i before after e = Ok e1 \<and> index_moved e col s i after e1"
proof -
  define e0 where "e0 = (case before of Some old \<Rightarrow> index_remove s (old ! col) i e | None \<Rightarrow> e)"
  have inv: "bt_inv sint (rt_indexes e s key)" for key using idx by (simp add: index_ok_def)
  have ids: "i \<in> fst ` set (rt_indexes e s key) \<longleftrightarrow> (\<exists>x. before = Some x \<and> x ! col = key)" for key
    using index_ok_mem [OF idx, of i key] before by simp
  have e0: "rt_rows e0 = rt_rows e" "same_views e e0" "\<And>t. t \<noteq> s \<Longrightarrow> rt_indexes e0 t = rt_indexes e t"
    "\<And>key. bt_inv sint (rt_indexes e0 s key)"
    by (auto simp: e0_def index_remove_def same_views_def inv split: option.split)
  have ids0: "fst ` set (rt_indexes e0 s key) = fst ` set (rt_indexes e s key) - {i}" for key
    using ids [of key] by (auto simp: e0_def index_remove_def ids_delete [OF inv] split: option.split)
  define e1 where "e1 = (case after of Some new \<Rightarrow> index_insert s (new ! col) i e0 | None \<Rightarrow> e0)"
  have "write_index col s i before after e = Ok e1"
    using fit by (auto simp: write_index_def e1_def e0_def split: option.split)
  moreover have "rt_rows e1 = rt_rows e" "same_views e e1" "\<And>t. t \<noteq> s \<Longrightarrow> rt_indexes e1 t = rt_indexes e t"
    "\<And>key. bt_inv sint (rt_indexes e1 s key)"
    using e0 by (auto simp: e1_def index_insert_def same_views_def split: option.split)
  moreover have "j \<in> fst ` set (rt_indexes e1 s key) \<longleftrightarrow>
      (if j = i then \<exists>x. after = Some x \<and> x ! col = key else j \<in> fst ` set (rt_indexes e s key))" for j key
    using e0(4) ids0 [of key] by (auto simp: e1_def index_insert_def ids_insert split: option.split)
  ultimately show ?thesis unfolding index_moved_def by blast
qed

lemma write_entry_Ok:
  assumes idx: "indexes_ok plan e" and fit: "rows_fit plan (rt_rows e)"
    and before: "rt_rows e s i = before"
    and after: "\<And>x at. after = Some x \<Longrightarrow> at \<in> set (needed_columns plan s) \<Longrightarrow> at < length x"
  shows "\<exists>e1. write_entry plan ((s, i), (before, after)) e = Ok e1 \<and> rt_rows e1 = put_row s i after (rt_rows e) \<and>
    indexes_ok plan e1 \<and> same_views e e1"
proof (cases "before = after")
  case True
  with before have "put_row s i after (rt_rows e) = rt_rows e" by (auto simp: fun_eq_iff)
  with True idx show ?thesis by (simp add: write_entry_def)
next
  case ne: False
  show ?thesis
  proof (cases "key_column plan s")
    case None
    let ?e1 = "e\<lparr>rt_rows := put_row s i after (rt_rows e)\<rparr>"
    have "index_ok ?e1 t col" if "key_column plan t = Some col" for t col
    proof -
      from that None have "t \<noteq> s" by auto
      moreover have "index_ok e t col" using idx that by (simp add: indexes_ok_def)
      ultimately show ?thesis by (simp add: index_ok_def)
    qed
    then have "indexes_ok plan ?e1" by (simp add: indexes_ok_def)
    moreover have "write_entry plan ((s, i), (before, after)) e = Ok ?e1"
      using ne None by (simp add: write_entry_def put_row_def)
    ultimately show ?thesis by (intro exI [of _ ?e1]) (simp add: same_views_def)
  next
    case (Some col)
    from Some idx have i: "index_ok e s col" by (simp add: indexes_ok_def)
    note need = key_column_needed [OF Some]
    have "col < length x" if "before = Some x" for x
      using fit before need that by (auto simp: rows_fit_def)
    moreover have "col < length x" if "after = Some x" for x
      using after [OF that need] .
    ultimately obtain e1 where w: "write_index col s i before after e = Ok e1" and m: "index_moved e col s i after e1"
      using write_index_Ok [OF i before] by blast
    from w m have e1: "write_index col s i before after e = Ok e1" "rt_rows e1 = rt_rows e" "same_views e e1"
      "\<And>t. t \<noteq> s \<Longrightarrow> rt_indexes e1 t = rt_indexes e t" "\<And>key. bt_inv sint (rt_indexes e1 s key)"
      "\<And>key j. j \<in> fst ` set (rt_indexes e1 s key) \<longleftrightarrow>
        (if j = i then \<exists>x. after = Some x \<and> x ! col = key else j \<in> fst ` set (rt_indexes e s key))"
      unfolding index_moved_def by simp_all
    let ?e2 = "e1\<lparr>rt_rows := put_row s i after (rt_rows e)\<rparr>"
    have "index_ok ?e2 t c" if "key_column plan t = Some c" for t c
    proof (cases "t = s")
      case True
      with that Some have "c = col" by simp
      with True show ?thesis
        using e1(5,6) index_ok_mem [OF i] by (simp add: index_ok_def)
    next
      case False
      moreover have "index_ok e t c" using idx that by (simp add: indexes_ok_def)
      ultimately show ?thesis by (simp add: index_ok_def e1(4))
    qed
    then have "indexes_ok plan ?e2" by (simp add: indexes_ok_def)
    moreover have "write_entry plan ((s, i), (before, after)) e = Ok ?e2"
      using ne Some e1(1,2) by (simp add: write_entry_def put_row_def)
    moreover have "same_views e ?e2" using e1(3) by (simp add: same_views_def)
    ultimately show ?thesis by (intro exI [of _ ?e2]) simp
  qed
qed

subsection \<open>All entries\<close>

lemma pend_desc_tail:
  assumes "pend_desc (((s, i), (b, a)) # p) rows rows'"
  shows "b = rows s i" and "a = rows' s i" and "pend_desc p (put_row s i a rows) rows'"
proof -
  from pend_desc_mem [OF assms, of s i b a] show b: "b = rows s i" and a: "a = rows' s i" by auto
  from assms have inv: "bt_inv pend_key (((s, i), (b, a)) # p)"
    and look: "\<And>t j. map_of (((s, i), (b, a)) # p) (t, j) = Some (rows t j, rows' t j) \<or>
      map_of (((s, i), (b, a)) # p) (t, j) = None \<and> rows' t j = rows t j"
    by (auto simp: pend_desc_def)
  from pend.inv_distinct [OF inv] have none: "map_of p (s, i) = None"
    by (simp add: map_of_eq_None_iff)
  have "map_of p (t, j) = Some (put_row s i a rows t j, rows' t j) \<or>
      map_of p (t, j) = None \<and> rows' t j = put_row s i a rows t j" for t j
    using look [of t j] none a by (auto split: if_splits)
  with inv show "pend_desc p (put_row s i a rows) rows'"
    unfolding pend_desc_def by (simp add: bt_inv_def)
qed

lemma write_sources_Ok:
  assumes "pend_desc p (rt_rows e) rows'" and "indexes_ok plan e"
    and "rows_fit plan (rt_rows e)" and "rows_fit plan rows'"
  shows "\<exists>e'. write_sources plan p e = Ok e' \<and> rt_rows e' = rows' \<and> indexes_ok plan e' \<and> same_views e e'"
  using assms
proof (induction p arbitrary: e)
  case Nil
  then have "rt_rows e = rows'" by (force simp: pend_desc_def fun_eq_iff)
  with Nil show ?case by (simp add: write_sources_def)
next
  case (Cons x p)
  obtain s i b a where x: "x = ((s, i), (b, a))" by (metis prod.exhaust)
  note tail = pend_desc_tail [OF Cons.prems(1) [unfolded x]]
  have "at < length r" if "a = Some r" "at \<in> set (needed_columns plan s)" for r at
    using Cons.prems(4) tail(2) that by (auto simp: rows_fit_def)
  with write_entry_Ok [OF Cons.prems(2,3) tail(1) [symmetric], of a] obtain e1
    where e1: "write_entry plan x e = Ok e1" "rt_rows e1 = put_row s i a (rt_rows e)" "indexes_ok plan e1" "same_views e e1"
    unfolding x by blast
  have "rows_fit plan (rt_rows e1)"
    unfolding e1(2) using Cons.prems(3,4) tail(2) by (auto simp: rows_fit_def)
  moreover have "pend_desc p (rt_rows e1) rows'"
    unfolding e1(2) by (rule tail(3))
  ultimately obtain e'
    where "write_sources plan p e1 = Ok e'" "rt_rows e' = rows'" "indexes_ok plan e'" "same_views e1 e'"
    using Cons.IH [of e1] e1(3) Cons.prems(4) by blast
  with e1 show ?case by (auto simp: write_sources_def intro: same_views_trans)
qed

end
