(* ===== verification/Route_Theorems.thy ===== *)
theory Route_Theorems
  imports Route_Write
begin

text \<open>
  The properties of the trait engine: a playable frontier is applied and moves the view as the plan
  demands, everything else is refused without a trace, and after any run the snapshot is the view of
  the rows the changes leave.
\<close>

subsection \<open>The invariant and the view\<close>

fun plan_distinct :: "route_plan \<Rightarrow> bool" where
  "plan_distinct (JoinUnion left right direct _ _ _ _ _) = (left \<noteq> right \<and> left \<noteq> direct \<and> right \<noteq> direct)"
| "plan_distinct (GroupCountSum _ _ _) = True"

fun view_ok :: "route_plan \<Rightarrow> route_engine \<Rightarrow> bool" where
  "view_ok (JoinUnion l r d lk rk lo ro do) e = support_is (rt_support e) (join_count (JoinUnion l r d lk rk lo ro do) (rt_rows e))"
| "view_ok (GroupCountSum s grp val) e =
     groups_track (rt_groups e) (grp_count (GroupCountSum s grp val) (rt_rows e)) (grp_sum (GroupCountSum s grp val) (rt_rows e))"

definition route_ok :: "route_plan \<Rightarrow> route_engine \<Rightarrow> bool" where
  "route_ok plan e = (rt_plan e = Some plan \<and> plan_distinct plan \<and> rows_fit plan (rt_rows e) \<and>
     indexes_ok plan e \<and> view_ok plan e)"

fun route_view :: "route_plan \<Rightarrow> route_rows \<Rightarrow> i64 list set" where
  "route_view (JoinUnion l r d lk rk lo ro do) rows = {row. 0 < join_count (JoinUnion l r d lk rk lo ro do) rows row}"
| "route_view (GroupCountSum s grp val) rows =
     group_view (grp_count (GroupCountSum s grp val) rows) (grp_sum (GroupCountSum s grp val) rows)"

fun route_bound :: "route_plan \<Rightarrow> route_rows \<Rightarrow> route_rows \<Rightarrow> bool" where
  "route_bound (JoinUnion l r d lk rk lo ro do) rows rows' =
     (\<forall>row. join_count (JoinUnion l r d lk rk lo ro do) rows' row < 2 ^ 63)"
| "route_bound (GroupCountSum s grp val) rows rows' =
     (groups_bound (grp_count (GroupCountSum s grp val) rows') (grp_sum (GroupCountSum s grp val) rows') \<and>
      (\<forall>k. group_churn (GroupCountSum s grp val) rows rows' k < 2 ^ 63))"

subsection \<open>One frontier\<close>

lemma settle_ok:
  assumes ok: "route_ok plan e" and desc: "pend_desc p (rt_rows e) rows'" and fit: "rows_fit plan rows'"
    and bound: "route_bound plan (rt_rows e) rows'"
  shows "\<exists>out support groups. route_settle plan p e = (Ok out, e\<lparr>rt_support := support, rt_groups := groups\<rparr>) \<and>
    view_ok plan (e\<lparr>rt_support := support, rt_groups := groups, rt_rows := rows'\<rparr>) \<and>
    output_spec (route_view plan (rt_rows e)) (route_view plan rows') out"
proof (cases plan)
  case plan: (JoinUnion l r d lk rk lo ro do)
  obtain d0 d1 where do: "do = (d0, d1)" by (cases do)
  note facts = ok [unfolded route_ok_def plan] bound [unfolded plan]
  from facts have dist: "l \<noteq> r" "l \<noteq> d" "r \<noteq> d" and support: "support_is (rt_support e) (join_count plan (rt_rows e))"
    and b: "\<And>row. join_count plan rows' row < 2 ^ 63"
    by (auto simp: plan)
  from facts have idx: "index_ok e l lk" "index_ok e r rk" by (auto simp: indexes_ok_def)
  from ok have fit0: "rows_fit plan (rt_rows e)" by (simp add: route_ok_def)
  obtain delta where j: "join_union_delta e plan p = rust_bind (check_support (rt_support e) delta) (\<lambda>_. Ok delta)"
    and delta: "delta_is delta (join_count plan (rt_rows e)) (join_count plan rows')"
    using join_union_delta_check [OF plan [unfolded do] dist desc fit0 fit idx] by blast
  from check_support_Ok [OF support delta b] j have j': "join_union_delta e plan p = Ok delta" by simp
  obtain support' out where out: "fold join_output delta (rt_support e, []) = (support', out)"
    and s': "support_is support' (join_count plan rows')"
    and spec: "output_spec {row. 0 < join_count plan (rt_rows e) row} {row. 0 < join_count plan rows' row} out"
    using join_output_Ok [OF support delta b] by blast
  have "route_settle plan p e = (Ok out, e\<lparr>rt_support := support'\<rparr>)"
    using j' out by (simp add: route_settle_def plan)
  moreover have "e\<lparr>rt_support := support', rt_groups := rt_groups e\<rparr> = e\<lparr>rt_support := support'\<rparr>" by simp
  ultimately show ?thesis
    using s' spec by (intro exI [of _ out] exI [of _ support'] exI [of _ "rt_groups e"]) (simp add: plan)
next
  case plan: (GroupCountSum s grp val)
  note facts = ok [unfolded route_ok_def plan] bound [unfolded plan]
  from facts have groups: "groups_track (rt_groups e) (grp_count plan (rt_rows e)) (grp_sum plan (rt_rows e))"
    and b: "groups_bound (grp_count plan rows') (grp_sum plan rows')"
    and churn: "\<And>k. group_churn plan (rt_rows e) rows' k < 2 ^ 63"
    by (auto simp: plan)
  from ok have fit0: "rows_fit plan (rt_rows e)" by (simp add: route_ok_def)
  obtain delta where g: "group_delta e plan p = Ok delta"
    and delta: "group_delta_is delta (grp_count plan (rt_rows e)) (grp_sum plan (rt_rows e)) (grp_count plan rows') (grp_sum plan rows')"
    using group_delta_Ok [OF plan desc fit0 fit groups b churn] by blast
  obtain groups' out where out: "fold group_output delta (rt_groups e, []) = (groups', out)"
    and g': "groups_track groups' (grp_count plan rows') (grp_sum plan rows')"
    and spec: "output_spec (group_view (grp_count plan (rt_rows e)) (grp_sum plan (rt_rows e)))
        (group_view (grp_count plan rows') (grp_sum plan rows')) out"
    using group_output_Ok [OF groups delta b grp_sum_empty grp_sum_empty] by blast
  have "route_settle plan p e = (Ok out, e\<lparr>rt_groups := groups'\<rparr>)"
    using g out by (simp add: route_settle_def plan)
  moreover have "e\<lparr>rt_support := rt_support e, rt_groups := groups'\<rparr> = e\<lparr>rt_groups := groups'\<rparr>" by simp
  ultimately show ?thesis
    using g' spec by (intro exI [of _ out] exI [of _ "rt_support e"] exI [of _ groups']) (simp add: plan)
qed

lemma view_ok_same: "same_views e e' \<Longrightarrow> rt_rows e' = rows \<Longrightarrow> view_ok plan (e\<lparr>rt_rows := rows\<rparr>) \<Longrightarrow> view_ok plan e'"
  by (cases plan) (auto simp: same_views_def)

lemma applied_route:
  assumes ok: "route_ok plan e" and play: "play plan changes (rt_rows e) = Some rows'" and fit: "rows_fit plan rows'"
    and bound: "route_bound plan (rt_rows e) rows'"
  shows "\<exists>out e'. route_apply changes e = (Ok \<lparr>rf_id = rt_next_frontier e, rf_changes = out\<rparr>, e') \<and>
    route_ok plan e' \<and> rt_rows e' = rows' \<and> rt_next_frontier e' = rt_next_frontier e + 1 \<and>
    output_spec (route_view plan (rt_rows e)) (route_view plan rows') out"
proof -
  have plan: "rt_plan e = Some plan" and fit0: "rows_fit plan (rt_rows e)" and idx: "indexes_ok plan e"
    and dist: "plan_distinct plan"
    using ok by (simp_all add: route_ok_def)
  from route_pending_play(1) [OF plan fit0, of changes] play fit obtain p where p: "route_pending e changes = Ok p" by auto
  note desc = route_pending_play(3) [OF plan fit0 p play]
  obtain out support groups where settle: "route_settle plan p e = (Ok out, e\<lparr>rt_support := support, rt_groups := groups\<rparr>)"
    and view: "view_ok plan (e\<lparr>rt_support := support, rt_groups := groups, rt_rows := rows'\<rparr>)"
    and out: "output_spec (route_view plan (rt_rows e)) (route_view plan rows') out"
    using settle_ok [OF ok desc fit bound] by blast
  let ?e1 = "e\<lparr>rt_support := support, rt_groups := groups\<rparr>"
  have "indexes_ok plan ?e1" using idx by (simp add: indexes_ok_def index_ok_def)
  with write_sources_Ok [of p ?e1 rows' plan] desc fit0 fit obtain e2
    where w: "write_sources plan p ?e1 = Ok e2" "rt_rows e2 = rows'" "indexes_ok plan e2" "same_views ?e1 e2"
    by auto
  let ?e3 = "e2\<lparr>rt_next_frontier := rt_next_frontier e2 + 1\<rparr>"
  have nf: "rt_next_frontier e2 = rt_next_frontier e" using w(4) by (simp add: same_views_def)
  have "route_apply changes e = (Ok \<lparr>rf_id = rt_next_frontier e, rf_changes = out\<rparr>, ?e3)"
    using plan p settle w(1) nf by (simp add: route_apply_def)
  moreover have "view_ok plan ?e3"
  proof -
    from view_ok_same [OF w(4,2), of plan] view have "view_ok plan e2" by simp
    then show ?thesis by (cases plan) auto
  qed
  moreover have "indexes_ok plan ?e3" using w(3) by (simp add: indexes_ok_def index_ok_def)
  moreover have "rt_plan ?e3 = Some plan" using w(4) plan by (simp add: same_views_def)
  ultimately show ?thesis
    using dist fit w(2) nf out by (auto simp: route_ok_def)
qed

text \<open>
  C37: A frontier whose changes can be played one after the other (every insertion under a free row
  identity, every retraction of exactly the stored row) and whose rows have the columns the plan
  reads is applied, under a bound (\<open>route_bound\<close>): the multiplicities of the joined rows are below
  \<open>2 ^ 63\<close>, or the counts and sums of the groups afterwards and the sum of the sizes of the changes to
  each group fit 64 bits. The stored rows become the rows played, the invariant holds again, and the frontier returned has the next number and holds each row that
  leaves the plan's view once with weight \<open>-1\<close> and each that enters it once with weight \<open>1\<close>, and
  nothing else.
\<close>

theorem route_apply_correct:
  assumes "route_ok plan e" and "play plan changes (rt_rows e) = Some rows'" and "rows_fit plan rows'"
    and "route_bound plan (rt_rows e) rows'"
  shows "\<exists>out e'. route_apply changes e = (Ok \<lparr>rf_id = rt_next_frontier e, rf_changes = out\<rparr>, e') \<and>
    route_ok plan e' \<and> rt_rows e' = rows' \<and> rt_next_frontier e' = rt_next_frontier e + 1 \<and>
    distinct out \<and>
    set out = (\<lambda>r. emit r (-1)) ` (route_view plan (rt_rows e) - route_view plan rows') \<union>
      (\<lambda>r. emit r 1) ` (route_view plan rows' - route_view plan (rt_rows e))"
  using applied_route [OF assms] by (simp add: output_spec_def)

text \<open>
  C38: Applying changes never panics, and it either succeeds, and then the changes could be played,
  the rows have the columns the plan reads and the stored rows are the rows played, or returns an
  error and leaves the engine exactly as it was.
\<close>

theorem route_apply_all_or_nothing:
  assumes ok: "route_ok plan e"
  shows "(\<exists>fr e'. route_apply changes e = (Ok fr, e') \<and> play plan changes (rt_rows e) = Some (rt_rows e') \<and>
      rows_fit plan (rt_rows e')) \<or>
    (\<exists>er. route_apply changes e = (Err er, e))"
proof -
  have plan: "rt_plan e = Some plan" and fit0: "rows_fit plan (rt_rows e)" and idx: "indexes_ok plan e"
    and dist: "plan_distinct plan"
    using ok by (simp_all add: route_ok_def)
  show ?thesis
  proof (cases "route_pending e changes")
    case (Err er)
    then show ?thesis using plan by (simp add: route_apply_def)
  next
    case Panic
    with route_pending_play(2) [OF plan fit0] show ?thesis by simp
  next
    case p: (Ok p)
    from route_pending_play(1) [OF plan fit0, of changes] p obtain rows'
      where play: "play plan changes (rt_rows e) = Some rows'" and fit: "rows_fit plan rows'" by auto
    note desc = route_pending_play(3) [OF plan fit0 p play]
    have "(\<exists>er. route_settle plan p e = (Err er, e)) \<or>
      (\<exists>out support groups. route_settle plan p e = (Ok out, e\<lparr>rt_support := support, rt_groups := groups\<rparr>))"
    proof (cases plan)
      case j: (JoinUnion l r d lk rk lo ro do)
      obtain d0 d1 where do: "do = (d0, d1)" by (cases do)
      have "index_ok e l lk" "index_ok e r rk" using idx dist by (auto simp: indexes_ok_def j)
      with dist obtain delta where "join_union_delta e plan p = rust_bind (check_support (rt_support e) delta) (\<lambda>_. Ok delta)"
        using join_union_delta_check [OF j [unfolded do] _ _ _ desc fit0 fit] by (auto simp: j)
      with check_support_total [of "rt_support e" delta] show ?thesis
        by (cases "check_support (rt_support e) delta"; cases "fold join_output delta (rt_support e, [])")
          (auto simp: route_settle_def j intro!: exI [of _ "rt_groups e"])
    next
      case g: (GroupCountSum s grp val)
      with group_delta_total [OF g desc fit0 fit] show ?thesis
        by (cases "group_delta e plan p"; cases "fold group_output (case group_delta e plan p of Ok d \<Rightarrow> d | _ \<Rightarrow> []) (rt_groups e, [])")
          (auto simp: route_settle_def intro!: exI [of _ "rt_support e"])
    qed
    then show ?thesis
    proof (elim disjE exE)
      fix er assume "route_settle plan p e = (Err er, e)"
      with plan p show ?thesis by (simp add: route_apply_def)
    next
      fix out support groups
      let ?e1 = "e\<lparr>rt_support := support, rt_groups := groups\<rparr>"
      assume s: "route_settle plan p e = (Ok out, ?e1)"
      have "indexes_ok plan ?e1" using idx by (simp add: indexes_ok_def index_ok_def)
      with write_sources_Ok [of p ?e1 rows' plan] desc fit0 fit obtain e2
        where "write_sources plan p ?e1 = Ok e2" "rt_rows e2 = rows'" by auto
      with plan p s play fit show ?thesis by (simp add: route_apply_def)
    qed
  qed
qed

subsection \<open>Installation and snapshots\<close>

definition no_route_rows :: route_rows where
  "no_route_rows = (\<lambda>_ _. None)"

lemma no_rows_counts:
  "join_count plan no_route_rows row = 0" "grp_count plan no_route_rows k = 0" "grp_sum plan no_route_rows k = 0"
  "rows_fit plan no_route_rows"
proof -
  show "join_count plan no_route_rows row = 0"
    by (cases "(plan, no_route_rows, row)" rule: join_count.cases) (simp_all add: no_route_rows_def)
  show c: "grp_count plan no_route_rows k = 0" for k
    by (cases plan) (simp_all add: grp_count_def no_route_rows_def)
  show "grp_sum plan no_route_rows k = 0" by (rule grp_sum_empty [OF c])
  show "rows_fit plan no_route_rows" by (simp add: rows_fit_def no_route_rows_def)
qed

lemma install_route_ok:
  assumes "route_install plan route_new = (Ok (), e)"
  shows "route_ok plan e" and "rt_rows e = no_route_rows" and "rt_next_frontier e = 0"
proof -
  from assms have e: "e = route_new\<lparr>rt_plan := Some plan\<rparr>" and dist: "plan_distinct plan"
    by (cases plan; simp add: route_install_def route_new_def split: if_splits)+
  then show rows: "rt_rows e = no_route_rows" and "rt_next_frontier e = 0"
    by (simp_all add: route_new_def no_route_rows_def)
  have "rt_support e = []" "rt_groups e = []" by (simp_all add: e route_new_def)
  then have "view_ok plan e"
    by (cases plan) (simp_all add: rows support_is_def groups_track_def no_rows_counts group_get_def)
  moreover have "indexes_ok plan e"
    by (simp add: indexes_ok_def index_ok_def e route_new_def)
  ultimately show "route_ok plan e"
    using dist by (simp add: route_ok_def rows no_rows_counts) (simp add: e)
qed

lemma snapshot_view:
  assumes "route_ok plan e"
  shows "\<exists>rows. route_snapshot e = Ok rows \<and> sorted_wrt (<) (map row_key rows) \<and> set rows = route_view plan (rt_rows e)"
proof (cases plan)
  case plan: (JoinUnion l r d lk rk lo ro do)
  from assms have p: "rt_plan e = Some plan" and s: "support_is (rt_support e) (join_count plan (rt_rows e))"
    by (simp_all add: route_ok_def plan)
  from s have inv: "bt_inv row_key (rt_support e)" and get: "\<And>x. sint (zget (rt_support e) x) = int (join_count plan (rt_rows e) x)"
    by (simp_all add: support_is_def)
  let ?live = "filter (\<lambda>(_, weight). 0 < sint weight) (rt_support e)"
  have "bt_inv row_key ?live" by (rule bt_inv_sub [OF inv])
  then have "sorted_wrt (<) (map row_key (map fst ?live))" by (simp add: bt_inv_def)
  moreover have "x \<in> set (map fst ?live) \<longleftrightarrow> x \<in> route_view plan (rt_rows e)" for x
  proof -
    have "x \<in> set (map fst ?live) \<longleftrightarrow> 0 < sint (zget (rt_support e) x)"
    proof
      assume "x \<in> set (map fst ?live)"
      then obtain w where "(x, w) \<in> set (rt_support e)" "0 < sint w" by auto
      with zget_mem [OF bt_inv_distinct [OF inv]] show "0 < sint (zget (rt_support e) x)" by simp
    next
      assume pos: "0 < sint (zget (rt_support e) x)"
      then have "zget (rt_support e) x \<noteq> 0" by auto
      with zget_nonzero_mem pos show "x \<in> set (map fst ?live)" by force
    qed
    then show ?thesis by (simp add: get plan)
  qed
  ultimately show ?thesis using p by (auto simp: route_snapshot_def plan)
next
  case plan: (GroupCountSum s grp val)
  from assms have p: "rt_plan e = Some plan"
    and g: "groups_track (rt_groups e) (grp_count plan (rt_rows e)) (grp_sum plan (rt_rows e))"
    by (simp_all add: route_ok_def plan)
  let ?row = "\<lambda>(grp, (cnt, tot)). [grp, cnt, tot]"
  from g have inv: "bt_inv sint (rt_groups e)" by (simp add: groups_track_def)
  have "sorted_wrt (<) (map row_key (map ?row m))" if "bt_inv sint m" for m :: "(i64 \<times> (i64 \<times> i64)) list"
    using that by (auto simp: bt_inv_def sorted_wrt_map row_key_def elim!: sorted_wrt_mono_rel [rotated])
  then have "sorted_wrt (<) (map row_key (map ?row (rt_groups e)))" using inv by blast
  moreover have "set (map ?row (rt_groups e)) = route_view plan (rt_rows e)"
  proof -
    have word: "group_get (rt_groups e) k = (of_nat (grp_count plan (rt_rows e) k), of_int (grp_sum plan (rt_rows e) k))" for k
      using g by (simp add: prod_eq_iff groups_track_def i64_of_nat i64_of_int)
    have "(k, x) \<in> set (rt_groups e) \<longleftrightarrow> 0 < grp_count plan (rt_rows e) k \<and> x = group_get (rt_groups e) k" for k x
    proof
      assume m: "(k, x) \<in> set (rt_groups e)"
      then have "map_of (rt_groups e) k = Some x" using bt_inv_distinct [OF inv] by simp
      with g group_get_mem [OF inv m] show "0 < grp_count plan (rt_rows e) k \<and> x = group_get (rt_groups e) k"
        unfolding groups_track_def by (metis neq0_conv option.distinct(1))
    next
      assume r: "0 < grp_count plan (rt_rows e) k \<and> x = group_get (rt_groups e) k"
      with g obtain y where "map_of (rt_groups e) k = Some y" unfolding groups_track_def by (metis not_gr_zero option.exhaust)
      with r show "(k, x) \<in> set (rt_groups e)" by (auto simp: group_get_def dest: map_of_SomeD)
    qed
    then show ?thesis
      by (force simp: plan group_view_def word [unfolded plan])
  qed
  ultimately show ?thesis using p by (auto simp: route_snapshot_def plan)
qed

subsection \<open>Runs\<close>

text \<open>The net weight a list of output rows gives a row.\<close>

definition row_net_weight :: "weighted_row list \<Rightarrow> i64 list \<Rightarrow> int" where
  "row_net_weight out r = (\<Sum>w\<leftarrow>out. if wr_cells w = r then sint (wr_weight w) else 0)"

lemma wr_weight_emit [simp]: "wr_weight (emit r w) = w"
  by (simp add: emit_def)

lemma output_net:
  assumes "output_spec V V' out"
  shows "row_net_weight out r = of_bool (r \<in> V') - of_bool (r \<in> V)"
proof -
  let ?g = "\<lambda>w. if wr_cells w = r then sint (wr_weight w) else 0"
  have one: "(1 :: i64) \<noteq> -1" by simp
  from assms have dist: "distinct out" and mem: "set out = (\<lambda>r. emit r (-1)) ` (V - V') \<union> (\<lambda>r. emit r 1) ` (V' - V)"
    by (simp_all add: output_spec_def)
  have "row_net_weight out r = sum ?g (set out)"
    unfolding row_net_weight_def by (rule sum_list_distinct_conv_sum_set [OF dist])
  also have "\<dots> = sum ?g (set out \<inter> {emit r 1, emit r (-1)})"
    by (rule sum.mono_neutral_right [OF finite_set]) (auto simp: mem)
  also have "set out \<inter> {emit r 1, emit r (-1)} = (if r \<in> V' - V then {emit r 1} else {}) \<union> (if r \<in> V - V' then {emit r (-1)} else {})"
    using one by (auto simp: mem)
  also have "sum ?g \<dots> = of_bool (r \<in> V') - of_bool (r \<in> V)" by auto
  finally show ?thesis .
qed

fun apply_all :: "route_change list list \<Rightarrow> route_engine \<Rightarrow> route_frontier list route_res \<times> route_engine" where
  "apply_all [] e = (Ok [], e)"
| "apply_all (cs # css) e =
     (case route_apply cs e of
        (Ok fr, e1) \<Rightarrow> (case apply_all css e1 of
            (Ok frs, e2) \<Rightarrow> (Ok (fr # frs), e2) | (Err er, e2) \<Rightarrow> (Err er, e2) | (Panic, e2) \<Rightarrow> (Panic, e2))
      | (Err er, e1) \<Rightarrow> (Err er, e1)
      | (Panic, e1) \<Rightarrow> (Panic, e1))"

text \<open>Frontiers that can be played one after the other, each within bounds.\<close>

inductive route_runs :: "route_plan \<Rightarrow> route_rows \<Rightarrow> route_change list list \<Rightarrow> route_rows \<Rightarrow> bool" for plan where
  runs_Nil: "route_runs plan rows [] rows"
| runs_Cons: "play plan cs rows = Some rows1 \<Longrightarrow> rows_fit plan rows1 \<Longrightarrow> route_bound plan rows rows1 \<Longrightarrow>
    route_runs plan rows1 css rows' \<Longrightarrow> route_runs plan rows (cs # css) rows'"

lemma run_from:
  assumes "route_runs plan rows css rows'" and "route_ok plan e" and "rt_rows e = rows"
  shows "\<exists>frs e'. apply_all css e = (Ok frs, e') \<and> route_ok plan e' \<and> rt_rows e' = rows' \<and>
    map rf_id frs = map (\<lambda>n. rt_next_frontier e + of_nat n) [0..<length css] \<and>
    (\<forall>r. row_net_weight (concat (map rf_changes frs)) r = of_bool (r \<in> route_view plan rows') - of_bool (r \<in> route_view plan rows))"
  using assms
proof (induction arbitrary: e rule: route_runs.induct)
  case (runs_Nil rows)
  then show ?case by (simp add: row_net_weight_def)
next
  case (runs_Cons cs rows rows1 css rows')
  from applied_route [OF runs_Cons.prems(1), of cs rows1] runs_Cons obtain out e1
    where a: "route_apply cs e = (Ok \<lparr>rf_id = rt_next_frontier e, rf_changes = out\<rparr>, e1)" "route_ok plan e1" "rt_rows e1 = rows1"
      "rt_next_frontier e1 = rt_next_frontier e + 1" "output_spec (route_view plan rows) (route_view plan rows1) out"
    by auto
  from runs_Cons.IH [OF a(2,3)] obtain frs e'
    where b: "apply_all css e1 = (Ok frs, e')" "route_ok plan e'" "rt_rows e' = rows'"
      "map rf_id frs = map (\<lambda>n. rt_next_frontier e1 + of_nat n) [0..<length css]"
      "\<And>r. row_net_weight (concat (map rf_changes frs)) r = of_bool (r \<in> route_view plan rows') - of_bool (r \<in> route_view plan rows1)"
    by blast
  have "map rf_id (\<lparr>rf_id = rt_next_frontier e, rf_changes = out\<rparr> # frs) =
      map (\<lambda>n. rt_next_frontier e + of_nat n) [0..<length (cs # css)]"
    unfolding list.map b(4) a(4) by (simp add: map_upt_Suc del: upt_Suc)
  moreover have "row_net_weight (out @ concat (map rf_changes frs)) r =
      of_bool (r \<in> route_view plan rows') - of_bool (r \<in> route_view plan rows)" for r
    using output_net [OF a(5), of r] b(5) [of r] by (simp add: row_net_weight_def)
  ultimately show ?case using a b by (intro exI [of _ "\<lparr>rf_id = rt_next_frontier e, rf_changes = out\<rparr> # frs"] exI [of _ e']) simp
qed

text \<open>
  C39: After installation into a new engine, any sequence of frontiers that can be played within
  bounds is applied completely, the frontiers numbered from 0. The snapshot then lists exactly the
  rows of the plan's view over the rows played, each once and in row order, and the weights of all
  frontiers returned add up to it: 1 for the rows it shows and 0 for all others.
\<close>

theorem route_run_snapshot:
  assumes inst: "route_install plan route_new = (Ok (), e0)" and run: "route_runs plan no_route_rows css rows'"
  shows "\<exists>frs e rows. apply_all css e0 = (Ok frs, e) \<and> rt_rows e = rows' \<and> map rf_id frs = map of_nat [0..<length css] \<and>
    route_snapshot e = Ok rows \<and> sorted_wrt (<) (map row_key rows) \<and> set rows = route_view plan rows' \<and>
    (\<forall>r. row_net_weight (concat (map rf_changes frs)) r = of_bool (r \<in> set rows))"
proof -
  note e0 = install_route_ok [OF inst]
  obtain frs e where e: "apply_all css e0 = (Ok frs, e)" "route_ok plan e" "rt_rows e = rows'"
    "map rf_id frs = map of_nat [0..<length css]"
    "\<And>r. row_net_weight (concat (map rf_changes frs)) r = of_bool (r \<in> route_view plan rows') - of_bool (r \<in> route_view plan no_route_rows)"
    using run_from [OF run e0(1,2)] by (auto simp: e0(3))
  have "route_view plan no_route_rows = {}"
    by (cases plan) (simp_all add: no_rows_counts group_view_def)
  with snapshot_view [OF e(2)] e show ?thesis by auto
qed

text \<open>
  C40: Under a grouped plan a stored row whose value is \<open>- (2 ^ 63)\<close> cannot be retracted: the frontier
  that retracts it can be played, whatever else is stored, but is refused with a sum overflow and
  changes nothing, because the value is multiplied with the sign before it is added to the sum.
\<close>

theorem route_min_row_stuck:
  assumes ok: "route_ok plan e" and plan: "plan = GroupCountSum s grp val"
    and row: "rt_rows e s i = Some cells" and min: "sint (cells ! val) = - (2 ^ 63)"
    and retract: "retract = \<lparr>rc_source = s, rc_row = \<lparr>rr_id = i, rr_cells = cells\<rparr>, rc_weight = -1\<rparr>"
  shows "play plan [retract] (rt_rows e) = Some (put_row s i None (rt_rows e)) \<and>
    route_apply [retract] e = (Err (route_error_of ''group'' (Some s) ''sum overflow''), e)"
proof -
  have p: "rt_plan e = Some plan" and fit: "rows_fit plan (rt_rows e)" using ok by (simp_all add: route_ok_def)
  have len: "grp < length cells" "val < length cells" using fit row by (auto simp: rows_fit_def plan)
  have one: "(1 :: 8 word) \<noteq> -1" by simp
  have "play plan [retract] (rt_rows e) = Some (put_row s i None (rt_rows e))"
    using row one by (simp add: play_change_def retract plan)
  have pend: "route_pending e [retract] = Ok [((s, i), (Some cells, None))]"
    using row one by (simp add: route_pending_def p pending_step_def retract plan check_columns_def Let_def)
  have "checked_add 0 (-1) = Some (-1 :: i64)" by (simp add: checked_add_def)
  moreover have "checked_mul (-1) (cells ! val) = None" by (simp add: checked_mul_def min)
  ultimately have "group_delta e plan [((s, i), (Some cells, None))] = Err (route_error_of ''group'' (Some s) ''sum overflow'')"
    using len by (simp add: plan row_diffs_def group_add_def group_get_def group_ok_def)
  then have "route_apply [retract] e = (Err (route_error_of ''group'' (Some s) ''sum overflow''), e)"
    using pend by (simp add: route_apply_def p route_settle_def plan)
  with \<open>play plan [retract] (rt_rows e) = _\<close> show ?thesis by blast
qed

subsection \<open>The properties at work\<close>

lemma join_count_le:
  assumes "finite A" "finite B" "finite D" and "\<And>i. rows l i \<noteq> None \<Longrightarrow> i \<in> A" "\<And>i. rows r i \<noteq> None \<Longrightarrow> i \<in> B"
    "\<And>i. rows d i \<noteq> None \<Longrightarrow> i \<in> D"
  shows "join_count (JoinUnion l r d lk rk lo ro (d0, d1)) rows row \<le> card A * card B + card D"
proof -
  have "card {(a, b). \<exists>x y. rows l a = Some x \<and> rows r b = Some y \<and> matches lk rk lo ro x y row} \<le> card (A \<times> B)"
    by (rule card_mono) (use assms in auto)
  moreover have "card {i. \<exists>x. rows d i = Some x \<and> [x ! d0, x ! d1] = row} \<le> card D"
    by (rule card_mono) (use assms in auto)
  ultimately show ?thesis by (simp add: card_cartesian_product)
qed

definition demo_route_plan :: route_plan where
  "demo_route_plan = JoinUnion 0 1 2 0 0 1 1 (0, 1)"

definition demo_put :: "u8 \<Rightarrow> i64 \<Rightarrow> i64 list \<Rightarrow> route_change" where
  "demo_put s i cells = \<lparr>rc_source = s, rc_row = \<lparr>rr_id = i, rr_cells = cells\<rparr>, rc_weight = 1\<rparr>"

definition demo_pair :: "route_change list" where
  "demo_pair = [demo_put 0 5 [7, 10], demo_put 1 6 [7, 20]]"

definition demo_pair_rows :: route_rows where
  "demo_pair_rows = put_row 1 6 (Some [7, 20]) (put_row 0 5 (Some [7, 10]) no_route_rows)"

lemma demo_route_install: "route_install demo_route_plan route_new = (Ok (), route_new\<lparr>rt_plan := Some demo_route_plan\<rparr>)"
  by (simp add: route_install_def demo_route_plan_def route_new_def)

lemmas demo_route_ok = install_route_ok [OF demo_route_install]

lemma demo_pair_play: "play demo_route_plan demo_pair no_route_rows = Some demo_pair_rows"
  by (simp add: demo_pair_def demo_put_def play_change_def demo_route_plan_def demo_pair_rows_def no_route_rows_def Let_def)

lemma demo_pair_fit: "rows_fit demo_route_plan demo_pair_rows"
  by (auto simp: rows_fit_def demo_pair_rows_def demo_route_plan_def no_route_rows_def split: if_splits)

lemma demo_pair_bound: "route_bound demo_route_plan rows demo_pair_rows"
proof -
  have "join_count demo_route_plan demo_pair_rows row \<le> card {5 :: i64} * card {6 :: i64} + card ({} :: i64 set)" for row
    unfolding demo_route_plan_def
    by (rule join_count_le) (auto simp: demo_pair_rows_def no_route_rows_def split: if_splits)
  then have "join_count demo_route_plan demo_pair_rows row < 2 ^ 63" for row
    by (rule le_less_trans) simp
  then show ?thesis by (simp add: demo_route_plan_def)
qed

theorem route_apply_correct_witness:
  "\<exists>out e'. route_apply demo_pair (route_new\<lparr>rt_plan := Some demo_route_plan\<rparr>) = (Ok \<lparr>rf_id = 0, rf_changes = out\<rparr>, e') \<and>
     rt_rows e' = demo_pair_rows \<and> distinct out"
  using route_apply_correct [OF demo_route_ok(1) _ demo_pair_fit demo_pair_bound] demo_pair_play
  by (simp add: demo_route_ok(2) del: play.simps) (force simp: route_new_def)

theorem route_apply_all_or_nothing_witness:
  "(\<exists>fr e'. route_apply [demo_put 0 1 [3]] (route_new\<lparr>rt_plan := Some demo_route_plan\<rparr>) = (Ok fr, e') \<and>
      rows_fit demo_route_plan (rt_rows e')) \<or>
   (\<exists>er. route_apply [demo_put 0 1 [3]] (route_new\<lparr>rt_plan := Some demo_route_plan\<rparr>) =
      (Err er, route_new\<lparr>rt_plan := Some demo_route_plan\<rparr>))"
  using route_apply_all_or_nothing [OF demo_route_ok(1), of "[demo_put 0 1 [3]]"] by blast

theorem route_run_snapshot_witness:
  "\<exists>frs e rows. apply_all [demo_pair] (route_new\<lparr>rt_plan := Some demo_route_plan\<rparr>) = (Ok frs, e) \<and>
     route_snapshot e = Ok rows \<and> set rows = route_view demo_route_plan demo_pair_rows"
proof -
  have "route_runs demo_route_plan no_route_rows [demo_pair] demo_pair_rows"
    by (rule runs_Cons [OF demo_pair_play demo_pair_fit demo_pair_bound runs_Nil])
  from route_run_snapshot [OF demo_route_install this] show ?thesis by blast
qed

definition demo_group_plan :: route_plan where
  "demo_group_plan = GroupCountSum 0 0 1"

text \<open>The engine after the row has been inserted; its insertion does not overflow.\<close>

definition demo_min_engine :: route_engine where
  "demo_min_engine = route_new\<lparr>rt_plan := Some demo_group_plan,
     rt_rows := put_row 0 1 (Some [4, 9223372036854775808]) no_route_rows,
     rt_groups := [(4, (1, 9223372036854775808))], rt_next_frontier := 1\<rparr>"

lemma demo_min_inserted:
  "snd (route_apply [demo_put 0 1 [4, 9223372036854775808]] (route_new\<lparr>rt_plan := Some demo_group_plan\<rparr>)) = demo_min_engine"
proof -
  have "checked_mul 1 9223372036854775808 = Some 9223372036854775808" "checked_add 0 9223372036854775808 = Some 9223372036854775808"
    "checked_add 0 1 = Some 1"
    by (simp_all add: checked_mul_def checked_add_def)
  then show ?thesis
    by (simp add: route_apply_def route_new_def route_pending_def pending_step_def demo_group_plan_def demo_put_def
      check_columns_def row_column_def route_settle_def row_diffs_def group_add_def group_get_def group_ok_def check_groups_def
      group_output_def write_sources_def write_entry_def demo_min_engine_def put_row_def no_route_rows_def Let_def)
qed

lemma demo_min_ok: "route_ok demo_group_plan demo_min_engine" "rt_rows demo_min_engine 0 1 = Some [4, 9223372036854775808]"
proof -
  show "rt_rows demo_min_engine 0 1 = Some [4, 9223372036854775808]" by (simp add: demo_min_engine_def)
  have ids: "grp_ids demo_group_plan (rt_rows demo_min_engine) k = (if k = 4 then {1} else {})" for k
    by (auto simp: demo_group_plan_def demo_min_engine_def no_route_rows_def split: if_splits)
  have "grp_count demo_group_plan (rt_rows demo_min_engine) k = (if k = 4 then 1 else 0)" for k
    by (simp add: grp_count_def ids)
  moreover have "grp_sum demo_group_plan (rt_rows demo_min_engine) k = (if k = 4 then - (2 ^ 63) else 0)" for k
    using ids [of k] unfolding demo_group_plan_def grp_sum.simps
    by (simp del: grp_ids.simps add: demo_min_engine_def)
  ultimately have "view_ok demo_group_plan demo_min_engine"
    by (simp add: demo_group_plan_def groups_track_def) (simp add: demo_min_engine_def group_get_def bt_inv_def)
  then show "route_ok demo_group_plan demo_min_engine"
    by (auto simp: route_ok_def demo_min_engine_def demo_group_plan_def rows_fit_def indexes_ok_def no_route_rows_def split: if_splits)
qed

theorem route_min_row_stuck_witness:
  "snd (route_apply [demo_put 0 1 [4, 9223372036854775808]] (route_new\<lparr>rt_plan := Some demo_group_plan\<rparr>)) = demo_min_engine \<and>
   route_apply [\<lparr>rc_source = 0, rc_row = \<lparr>rr_id = 1, rr_cells = [4, 9223372036854775808]\<rparr>, rc_weight = -1\<rparr>] demo_min_engine =
     (Err (route_error_of ''group'' (Some 0) ''sum overflow''), demo_min_engine)"
  using route_min_row_stuck [OF demo_min_ok(1) demo_group_plan_def demo_min_ok(2) _ refl] demo_min_inserted by simp

end
