(* ===== verification/Spec2Isabelle.thy ===== *)
theory Spec2Isabelle
  imports Frontier_Theorems Ir_Memo Ir_Expr Ir_Dict_Theorems Ir_Any Ir_Order_Laws
    Ir_Compose_Theorems Rel_Lower_Theorems Dbsp_Guard Dbsp_Groups Dbsp_Settle Sql_Theorems Route_Theorems
begin

text \<open>
  A verification library of \<open>sqlite_ivm\<close>: engines that keep the results of relational and Datalog-like
  programs up to date under batches of row changes (frontiers). Paths are under \<open>src/\<close>.

  \<^bold>\<open>The parts of the program.\<close> \<open>crates/ivm-ir\<close> holds what every engine shares: values, the program
  representation (relations, operator nodes, strata), the typing of nodes, string operations and the
  dictionary that interns constructor terms, texts, vectors and SQL values as 64-bit cells.
  \<open>crates/ivm-engine\<close> is the contract of engines: the operator algebra, the scalar evaluator, and the
  walk that lowers a node graph into any algebra. \<open>crates/ivm-dbsp\<close> is an engine over the \<open>dbsp\<close> crate.
  The frontier engine (\<open>labs/20260923.1.the-gang-builds-the-rust-frontier-engine\<close>) is a self-contained
  engine with its own plan language, slot arenas, an undo journal and savepoints. The trait engine
  (\<open>labs/20260923.0.the-gang-routes-frontiers-through-trait-engines\<close>) is a smaller one behind a trait, for a join
  with a union and a grouped count and sum over rows with identities. \<open>crates/ivm-sqlite\<close> compiles a
  small SQL language to programs and runs programs in SQLite.

  \<^bold>\<open>The theories.\<close> \<open>Prelude\<close> has machine integers, the result type \<open>rust\<close> (\<open>Ok\<close>, \<open>Err\<close>, \<open>Panic\<close>) with its
  bind, vector access and comparators; \<open>Containers\<close> the hash and B-tree maps as association lists, with the
  contract of both as the locale \<open>keyed_map\<close>; \<open>Zset\<close> weights.

  \<^item> Frontier engine. \<open>Frontier_Types\<close> (\<open>0_types.rs\<close>), \<open>Frontier_Storage\<close> (\<open>1_storage.rs\<close>), \<open>Frontier_Apply\<close>
    (\<open>2_apply.rs\<close>) and \<open>Frontier_Tx\<close> (\<open>3_tx.rs\<close>) are the code: the record \<open>engine\<close> has the fields of \<open>Engine\<close>,
    each operation takes the engine and returns it changed. \<open>Frontier_Sem\<close> gives plans their meaning over
    multisets; \<open>Frontier_Node\<close>, \<open>Frontier_Delta\<close>, \<open>Frontier_Group\<close>, \<open>Frontier_Run\<close> and \<open>Frontier_Propagate\<close> show that
    propagation maintains every arrangement; \<open>Frontier_Source\<close>, \<open>Frontier_Output\<close> and \<open>Frontier_Correct\<close> follow a
    frontier through validation, source writes and outputs; \<open>Frontier_Undo\<close>, \<open>Frontier_Rollback\<close> and
    \<open>Frontier_Scopes\<close> show that the journal restores; \<open>Frontier_Install\<close>, \<open>Frontier_Bag\<close>, \<open>Frontier_Bound\<close> and
    \<open>Frontier_Reach\<close> are installation, bounds on weights and what every reachable engine satisfies;
    \<open>Frontier_Theorems\<close> states the properties.
  \<^item> \<open>ivm-ir\<close>. \<open>Ir_Strings\<close> (\<open>2_strings.rs\<close>, \<open>3_str_ops.rs\<close>), \<open>Ir_Values\<close> and \<open>Ir_Types\<close> (\<open>0_ir.rs\<close>: values, program
    representation), \<open>Ir_Typing\<close> and \<open>Ir_Memo\<close> (\<open>0_ir.rs\<close>: column types of nodes, plain and with the shared
    table), \<open>Ir_Float\<close> (doubles as rationals), \<open>Ir_Dict\<close> (\<open>1_terms.rs\<close>: the record \<open>interner\<close> and its operations)
    with its invariant in \<open>Ir_Dict_Laws\<close> (locale \<open>intern_table\<close>, one interpretation per kind of entry) and
    properties in \<open>Ir_Dict_Theorems\<close>; \<open>Ir_Order\<close>, \<open>Ir_Real_Order\<close>, \<open>Ir_Order_Laws\<close> (\<open>1_terms.rs\<close>: \<open>compare\<close>,
    \<open>term_key\<close>, \<open>sort_key\<close>); \<open>Ir_Any\<close> the keys of SQL values. \<open>Ir_Compose\<close> (\<open>4_compose.rs\<close>) renumbers programs into one,
    \<open>Ir_Compose_Laws\<close> and \<open>Ir_Compose_Theorems\<close> relate the composed program to its parts.
  \<^item> \<open>ivm-engine\<close> (\<open>1_rel.rs\<close>). \<open>Ir_Expr\<close> is the evaluator; \<open>Rel_Engine\<close> errors, counters and batch interning
    (locale \<open>term_interner\<close>); \<open>Rel_Lower\<close> the lowering walk over a record of algebra operations, \<open>Rel_Lower_Laws\<close>
    and \<open>Rel_Lower_Theorems\<close> what it builds and when it fails.
  \<^item> \<open>ivm-dbsp\<close>. \<open>Dbsp_Cells\<close> (\<open>1_cells.rs\<close>), \<open>Dbsp_Rows\<close> (the functions of \<open>2_dbsp.rs\<close> on rows and groups),
    \<open>Dbsp_Engine\<close> (\<open>struct Dbsp\<close> and \<open>impl Engine for Dbsp\<close>; the interpretation \<open>engine_terms\<close> of
    \<open>term_interner\<close>), \<open>Dbsp_Guard\<close>, \<open>Dbsp_Order\<close>, \<open>Dbsp_Groups\<close> and \<open>Dbsp_Settle\<close> with their laws.
  \<^item> \<open>ivm-sqlite\<close>, the SQL front end (\<open>plan.rs\<close>, errors of \<open>error.rs\<close>). \<open>Sql_Parse\<close> is tokenizer and parser,
    \<open>Sql_Print\<close> the printer they are checked against; \<open>Sql_Plan\<close> compiles syntax trees to plans and lowers plans
    to programs of \<open>ivm-ir\<close>; \<open>Sql_Plan_Laws\<close> and \<open>Sql_Lower_Laws\<close> say what plans and programs hold, \<open>Sql_Safe\<close>
    that nothing panics, \<open>Sql_Meaning\<close> what statements and programs mean over bags of rows (models in the sense
    of \<open>Ir_Compose_Laws\<close>), \<open>Sql_Theorems\<close> the properties.
  \<^item> Trait engine. \<open>Route_Engine\<close> is the code (\<open>0_contract.rs\<close>, \<open>1_rust.rs\<close>): the record \<open>route_engine\<close> has the fields
    of \<open>RustEngine\<close>. \<open>Route_Pending\<close> relates validation to playing the changes one after the other (the
    interpretations \<open>pend\<close> and \<open>cells\<close> of \<open>keyed_map\<close> are the maps it keeps), \<open>Route_Sums\<close> and \<open>Route_Join\<close> the join's
    delta to the difference of two joins, \<open>Route_Support\<close> support counts and their transitions, \<open>Route_Group\<close> the
    grouped delta, \<open>Route_Write\<close> the source writes and indexes; \<open>Route_Theorems\<close> has the invariant \<open>route_ok\<close> and
    the properties.

  \<^bold>\<open>What the lemmas show.\<close> For the frontier engine: a valid frontier changes stored rows, arrangements and
  outputs as the meaning of the plan demands, and snapshots show the plan over the changes of a whole run, as
  long as multiplicities stay below \<open>2 ^ 63\<close> and no frontier removes all copies of a left row of a join while it
  changes a right row matching it; there the delta rule of the code takes a wrong product, which is proved for any join and
  shown on an engine. Failed frontiers and rolled back scopes leave no trace; the invariant holds for every
  reachable engine. For \<open>ivm-ir\<close>: interning is injective and
  lasting, terms are announced once, byte keys order terms as \<open>compare\<close> does, keys of SQL values decide
  equality, the walks over nodes and expressions with explicit stacks compute the structural definitions
  and return; the models of a composed program are the models of its parts that agree on shared relations. For \<open>ivm-engine\<close>: the lowering walk builds each needed node once, in dependency order, from
  the collections of its inputs, and otherwise reports the error or cycle it met. For \<open>ivm-dbsp\<close>: the guard
  keeps source relations sets, top-k and windows follow rank order, snapshots are the accumulated deltas. For
  \<open>ivm-sqlite\<close>: the parser reads back what is printed, the front end never panics, and lowered programs compute
  the rows of their selects, but for the order of columns in joins and groups, where they differ from SQL.
  For the trait engine: a playable frontier moves the view exactly, any other is refused without a trace,
  snapshots are the view of the rows played, and its delta rule for joins is exact.

  \<^bold>\<open>Conventions and bounds.\<close> Cells and weights are 64-bit words that wrap, as in release builds; row, node,
  relation and column numbers and lengths are natural numbers, so truncation of \<open>u32\<close> and \<open>usize\<close> is not
  modelled. Indexing out of range, \<open>expect\<close> and \<open>unwrap\<close> on nothing are \<open>Panic\<close>. Strings are lists of UTF-8
  bytes. Hash maps are association lists whose order no lemma uses, or functions. Doubles are their 64 bits;
  operations go through rationals, correctly rounded, and produce one NaN. Loops whose bound the code does
  not show are \<open>partial_function (option)\<close>, where \<open>None\<close> is running for ever (\<open>compare_loop\<close>, \<open>drain_steps\<close>), or
  functions with a proved measure (the explicit stacks). \<open>sort_key\<close> stops at depth 128, the constant of the
  code. \<open>dict_order\<close> reads a comparison that does not return as equal.

  \<^bold>\<open>Parameters.\<close> Unicode case mapping and trimming tables, \<open>heck\<close>, \<open>serde_json\<close> and \<open>regex\<close>-like library
  calls are the record \<open>text_lib\<close>; the hash of vectors is an argument; the circuit of the \<open>dbsp\<close> crate is the
  record \<open>circuit\<close>, about which no law is assumed; a transaction of it always returns a handle and the shared
  tables, also when it fails. Sorting by ranks is an insertion sort, which stands for \<open>sort_by\<close> where ranks are
  a total preorder (no NaN cells).

  \<^bold>\<open>Not modelled.\<close> The operators that \<open>ivm-dbsp\<close> builds from streams (\<open>rel_impl!\<close>), since their meaning is the
  crate's; \<open>ivm-dd\<close>, the rest of \<open>ivm-sqlite\<close> (\<open>compile_ir\<close> included), \<open>ivm-duckdb\<close> and the SQLite extension, which generate SQL or dataflow for
  code outside the repository; serialisation, tracing, benchmarks and demos; \<open>independent_inputs\<close>.
\<close>

end
